(* ===== verification/Prelude.thy ===== *)
theory Prelude
  imports Main "HOL-Library.Char_ord" "HOL-Library.List_Lexorder" "HOL-Library.Sublist"
    "HOL-Library.Multiset"
    "HOL-Library.Word" "HOL-Library.Code_Target_Nat"
begin

text \<open>
  Shared vocabulary of the development: the Rust standard library operations that several
  crates use (slices, \<open>Iterator::position\<close>, \<open>str::split\<close> and \<open>join\<close>, the \<open>?\<close> operator on
  \<open>Result\<close>), as executable functions, with the lemmas the component proofs rest on.

  Conventions. A Rust \<open>String\<close> is modelled by its UTF-8 bytes, an Isabelle \<open>string\<close> (a list
  of 8-bit characters); the order of strings is the bytewise lexicographic order of
  \<open>str::cmp\<close> (theories \<open>Char_ord\<close> and \<open>List_Lexorder\<close>). A \<open>usize\<close> that counts elements of a
  value in memory is a \<open>nat\<close>. A \<open>Result<T, E>\<close> is \<open>'e + 't\<close> with \<open>Inl\<close> for \<open>Err\<close>.
\<close>

named_theorems res_simps \<open>unfolding of the error monad and of the \<open>?\<close> operator\<close>
named_theorems slice_simps \<open>slices as \<open>take\<close> and \<open>drop\<close>\<close>

section \<open>Slices and searches\<close>

definition slice_of :: "nat \<Rightarrow> nat \<Rightarrow> 'a list \<Rightarrow> 'a list" where
  "slice_of i j xs = take (j - i) (drop i xs)"

definition get_range :: "nat \<Rightarrow> nat \<Rightarrow> 'a list \<Rightarrow> 'a list option" where
  "get_range i j xs = (if i \<le> j \<and> j \<le> length xs then Some (slice_of i j xs) else None)"

primrec position :: "('a \<Rightarrow> bool) \<Rightarrow> 'a list \<Rightarrow> nat option" where
  "position p [] = None"
| "position p (x # xs) = (if p x then Some 0 else map_option Suc (position p xs))"

definition nth_opt :: "'a list \<Rightarrow> nat \<Rightarrow> 'a option" where
  "nth_opt xs i = (if i < length xs then Some (xs ! i) else None)"

lemma slice_of_self [simp]: "slice_of i i xs = []"
  by (simp add: slice_of_def)

lemma slice_of_full [simp]: "slice_of 0 (length xs) xs = xs"
  by (simp add: slice_of_def)

lemma length_slice_of [simp]: "length (slice_of i j xs) = min (j - i) (length xs - i)"
  by (simp add: slice_of_def)

lemma slice_of_drop: "slice_of i j (drop k xs) = slice_of (k + i) (k + j) xs"
  by (simp add: slice_of_def add.commute)

lemma slice_of_split:
  "i \<le> j \<Longrightarrow> j \<le> k \<Longrightarrow> slice_of i k xs = slice_of i j xs @ slice_of j k xs"
proof -
  assume "i \<le> j" "j \<le> k"
  then have "take (k - i) (drop i xs) = take ((j - i) + (k - j)) (drop i xs)" by simp
  also have "\<dots> = take (j - i) (drop i xs) @ take (k - j) (drop (j - i) (drop i xs))"
    by (rule take_add)
  also have "drop (j - i) (drop i xs) = drop j xs" using \<open>i \<le> j\<close> by simp
  finally show ?thesis by (simp add: slice_of_def)
qed

lemma slice_of_Suc: "i < j \<Longrightarrow> i < length xs \<Longrightarrow> slice_of i j xs = xs ! i # slice_of (Suc i) j xs"
  by (simp add: slice_of_def Cons_nth_drop_Suc [symmetric] take_Cons' diff_Suc split: nat.splits)

lemma slice_of_append_drop: "i \<le> j \<Longrightarrow> slice_of i j xs @ drop j xs = drop i xs"
  by (metis slice_of_def append_take_drop_id drop_drop le_add_diff_inverse2)

lemma drop_slice: "i \<le> j \<Longrightarrow> drop i xs = slice_of i j xs @ drop j xs"
  by (simp add: slice_of_append_drop)

lemma slice_of_to_end: "length xs \<le> j \<Longrightarrow> slice_of i j xs = drop i xs"
  by (simp add: slice_of_def)

lemma get_range_Some_iff:
  "get_range i j xs = Some ys \<longleftrightarrow> i \<le> j \<and> j \<le> length xs \<and> ys = slice_of i j xs"
  by (auto simp: get_range_def)

lemma nth_opt_Some_iff: "nth_opt xs i = Some x \<longleftrightarrow> i < length xs \<and> xs ! i = x"
  by (auto simp: nth_opt_def)

lemma position_Some_iff:
  "position p xs = Some i \<longleftrightarrow> i < length xs \<and> p (xs ! i) \<and> (\<forall>j<i. \<not> p (xs ! j))"
proof (induction xs arbitrary: i)
  case Nil
  then show ?case by simp
next
  case (Cons x xs)
  show ?case
  proof (cases i)
    case 0
    then show ?thesis by auto
  next
    case (Suc k)
    then show ?thesis by (auto simp: Cons.IH less_Suc_eq_0_disj)
  qed
qed

lemma position_None_iff: "position p xs = None \<longleftrightarrow> (\<forall>x\<in>set xs. \<not> p x)"
  by (induction xs) auto

lemma position_append:
  "position p (xs @ ys) =
     (case position p xs of Some i \<Rightarrow> Some i
      | None \<Rightarrow> map_option ((+) (length xs)) (position p ys))"
  by (induction xs; cases "position p ys") (auto split: option.splits)

section \<open>Splitting and joining strings\<close>

fun split_on :: "char \<Rightarrow> string \<Rightarrow> string list" where
  "split_on c [] = [[]]"
| "split_on c (x # xs) =
     (if x = c then [] # split_on c xs
      else (case split_on c xs of [] \<Rightarrow> [[x]] | y # ys \<Rightarrow> (x # y) # ys))"

fun join_with :: "char \<Rightarrow> string list \<Rightarrow> string" where
  "join_with c [] = []"
| "join_with c [x] = x"
| "join_with c (x # y # ys) = x @ c # join_with c (y # ys)"

lemma split_on_nonempty [simp]: "split_on c s \<noteq> []"
  by (induction s) (auto split: list.splits)

lemma join_with_Cons: "xs \<noteq> [] \<Longrightarrow> join_with c (x # xs) = x @ c # join_with c xs"
  by (cases xs) auto

lemma join_split_on [simp]: "join_with c (split_on c s) = s"
proof (induction s)
  case Nil
  then show ?case by simp
next
  case (Cons x s)
  obtain y ys where s: "split_on c s = y # ys" by (cases "split_on c s") auto
  show ?case
  proof (cases "x = c")
    case True
    then show ?thesis using Cons by (simp add: join_with_Cons)
  next
    case False
    then show ?thesis using Cons s by (cases ys) auto
  qed
qed

lemma split_on_free: "c \<notin> set s \<Longrightarrow> split_on c s = [s]"
  by (induction s) auto

lemma split_on_append_sep:
  "c \<notin> set s \<Longrightarrow> split_on c (s @ c # t) = s # split_on c t"
  by (induction s) auto

lemma split_join_on:
  "xs \<noteq> [] \<Longrightarrow> \<forall>x\<in>set xs. c \<notin> set x \<Longrightarrow> split_on c (join_with c xs) = xs"
proof (induction c xs rule: join_with.induct)
  case (2 c x)
  then show ?case by (simp add: split_on_free)
next
  case (3 c x y ys)
  then show ?case by (simp add: split_on_append_sep)
qed simp

lemma split_on_elems_free: "x \<in> set (split_on c s) \<Longrightarrow> c \<notin> set x"
  by (induction s arbitrary: x) (auto split: list.splits if_splits)

section \<open>Results\<close>

fun and_then :: "'e + 'a \<Rightarrow> ('a \<Rightarrow> 'e + 'b) \<Rightarrow> 'e + 'b" where
  "and_then (Inl e) f = Inl e"
| "and_then (Inr x) f = f x"

fun ok_or :: "'e \<Rightarrow> 'a option \<Rightarrow> 'e + 'a" where
  "ok_or e None = Inl e"
| "ok_or e (Some x) = Inr x"

primrec is_ok :: "'e + 'a \<Rightarrow> bool" where
  "is_ok (Inl e) = False"
| "is_ok (Inr x) = True"

lemma and_then_Inr_iff [res_simps]:
  "and_then r f = Inr y \<longleftrightarrow> (\<exists>x. r = Inr x \<and> f x = Inr y)"
  by (cases r) auto

lemma and_then_Inl_iff [res_simps]:
  "and_then r f = Inl e \<longleftrightarrow> r = Inl e \<or> (\<exists>x. r = Inr x \<and> f x = Inl e)"
  by (cases r) auto

lemma ok_or_Inr_iff [res_simps]: "ok_or e r = Inr x \<longleftrightarrow> r = Some x"
  by (cases r) auto

lemma ok_or_Inl_iff [res_simps]: "ok_or e r = Inl e' \<longleftrightarrow> r = None \<and> e = e'"
  by (cases r) auto

lemma and_then_assoc: "and_then (and_then r f) g = and_then r (\<lambda>x. and_then (f x) g)"
  by (cases r) auto

lemma is_ok_iff: "is_ok r \<longleftrightarrow> (\<exists>x. r = Inr x)"
  by (cases r) auto

lemma and_then_cong [fundef_cong]:
  "r = r' \<Longrightarrow> (\<And>x. r' = Inr x \<Longrightarrow> f x = f' x) \<Longrightarrow> and_then r f = and_then r' f'"
  by (cases r') auto

section \<open>UTF-8 boundaries and decimal numerals\<close>

definition is_char_boundary :: "string \<Rightarrow> nat \<Rightarrow> bool" where
  "is_char_boundary s i \<longleftrightarrow>
     i = 0 \<or> i = length s \<or>
     i < length s \<and> (of_char (s ! i) < (128 :: nat) \<or> 192 \<le> (of_char (s ! i) :: nat))"

definition str_get :: "nat \<Rightarrow> nat \<Rightarrow> string \<Rightarrow> string option" where
  "str_get i j s =
     (if i \<le> j \<and> is_char_boundary s i \<and> is_char_boundary s j then Some (slice_of i j s) else None)"

definition digit_char :: "nat \<Rightarrow> char" where
  "digit_char d = char_of (48 + d)"

definition digit_value :: "char \<Rightarrow> nat option" where
  "digit_value c = (let n = of_char c in if 48 \<le> n \<and> n \<le> 57 then Some (n - 48) else None)"

fun show_nat :: "nat \<Rightarrow> string" where
  "show_nat n = (if n < 10 then [digit_char n] else show_nat (n div 10) @ [digit_char (n mod 10)])"

declare show_nat.simps [simp del]

primrec digits_acc :: "nat \<Rightarrow> string \<Rightarrow> nat option" where
  "digits_acc acc [] = Some acc"
| "digits_acc acc (c # cs) =
     (case digit_value c of None \<Rightarrow> None | Some d \<Rightarrow> digits_acc (10 * acc + d) cs)"

text \<open>\<open>str::parse\<close> of an unsigned integer below the limit \<open>m\<close>: an optional plus sign, then digits.\<close>

definition parse_uint :: "nat \<Rightarrow> string \<Rightarrow> nat option" where
  "parse_uint m s =
     (let ds = (case s of c # cs \<Rightarrow> if c = CHR ''+'' \<and> cs \<noteq> [] then cs else s | [] \<Rightarrow> s) in
      if ds = [] then None
      else (case digits_acc 0 ds of Some n \<Rightarrow> if n < m then Some n else None | None \<Rightarrow> None))"

lemma digit_value_char [simp]: "d < 10 \<Longrightarrow> digit_value (digit_char d) = Some d"
  by (simp add: digit_value_def digit_char_def Let_def)

lemma digits_acc_append:
  "digits_acc acc (xs @ ys) = (case digits_acc acc xs of None \<Rightarrow> None | Some a \<Rightarrow> digits_acc a ys)"
  by (induction xs arbitrary: acc) (auto split: option.splits)

lemma digits_acc_show: "digits_acc 0 (show_nat n) = Some n"
proof (induction n rule: show_nat.induct)
  case (1 n)
  then show ?case by (subst show_nat.simps) (auto simp: digits_acc_append)
qed

lemma show_nat_nonempty [simp]: "show_nat n \<noteq> []"
  by (subst show_nat.simps) simp

lemma show_nat_inject [simp]: "show_nat m = show_nat n \<longleftrightarrow> m = n"
  by (metis digits_acc_show option.inject)

lemma digit_char_range: "d < 10 \<Longrightarrow> of_char (digit_char d) = 48 + d"
  by (simp add: digit_char_def)

lemma show_nat_digits: "c \<in> set (show_nat n) \<Longrightarrow> \<exists>d<10. c = digit_char d"
proof (induction n arbitrary: c rule: show_nat.induct)
  case (1 n)
  show ?case
  proof (cases "n < 10")
    case True
    then show ?thesis using "1.prems" by (subst (asm) show_nat.simps) auto
  next
    case False
    then have "c \<in> set (show_nat (n div 10)) \<or> c = digit_char (n mod 10)"
      using "1.prems" by (subst (asm) show_nat.simps) auto
    then show ?thesis using "1.IH" [OF False] by (metis mod_less_divisor zero_less_numeral)
  qed
qed

lemma parse_uint_show: "n < m \<Longrightarrow> parse_uint m (show_nat n) = Some n"
proof -
  assume "n < m"
  obtain c cs where s: "show_nat n = c # cs" by (cases "show_nat n") auto
  have "c \<in> set (show_nat n)" by (simp add: s)
  then obtain d where "d < 10" "c = digit_char d" using show_nat_digits by blast
  then have "c \<noteq> CHR ''+''" using digit_char_range [of d] by auto
  then show ?thesis
    using digits_acc_show [of n] \<open>n < m\<close> by (simp add: parse_uint_def s Let_def del: digits_acc.simps)
qed

section \<open>The lines of a text\<close>

type_synonym line = string

abbreviation newline :: char where
  "newline \<equiv> CHR 0x0A"

text \<open>\<open>split_inclusive\<close> and \<open>str::lines\<close>, which also strips the carriage return of a CRLF.\<close>

fun split_inclusive :: "char \<Rightarrow> string \<Rightarrow> string list" where
  "split_inclusive c [] = []"
| "split_inclusive c (x # xs) =
     (if x = c then [x] # split_inclusive c xs
      else (case split_inclusive c xs of [] \<Rightarrow> [[x]] | y # ys \<Rightarrow> (x # y) # ys))"

definition strip_newline :: "string \<Rightarrow> string" where
  "strip_newline ln = (if ln \<noteq> [] \<and> last ln = newline then butlast ln else ln)"

definition strip_line_end :: "string \<Rightarrow> string" where
  "strip_line_end ln =
     (if ln \<noteq> [] \<and> last ln = newline
      then (let l = butlast ln in if l \<noteq> [] \<and> last l = CHR 0x0D then butlast l else l)
      else ln)"

definition str_lines :: "string \<Rightarrow> line list" where
  "str_lines s = map strip_line_end (split_inclusive newline s)"

lemma concat_split_inclusive [simp]: "concat (split_inclusive c s) = s"
  by (induction s) (auto split: list.splits)

lemma split_inclusive_eq_Nil [simp]: "split_inclusive c s = [] \<longleftrightarrow> s = []"
  by (cases s) (auto split: list.splits)

lemma split_inclusive_append_sep:
  "c \<notin> set s \<Longrightarrow> split_inclusive c (s @ c # t) = (s @ [c]) # split_inclusive c t"
  by (induction s) auto

lemma split_inclusive_free: "c \<notin> set s \<Longrightarrow> s \<noteq> [] \<Longrightarrow> split_inclusive c s = [s]"
proof (induction s)
  case (Cons x s)
  then show ?case by (cases s) auto
qed simp

text \<open>A text given by its lines, each ended by a newline.\<close>

definition unlines :: "line list \<Rightarrow> string" where
  "unlines ls = concat (map (\<lambda>l. l @ [newline]) ls)"

lemma unlines_simps [simp]:
  "unlines [] = []" "unlines (l # ls) = l @ newline # unlines ls" "unlines (ls @ ks) = unlines ls @ unlines ks"
  by (simp_all add: unlines_def)

definition plain_line :: "line \<Rightarrow> bool" where
  "plain_line l \<longleftrightarrow> newline \<notin> set l \<and> (l \<noteq> [] \<longrightarrow> last l \<noteq> CHR 0x0D)"

lemma str_lines_unlines: "list_all plain_line ls \<Longrightarrow> str_lines (unlines ls) = ls"
  by (induction ls) (auto simp: str_lines_def split_inclusive_append_sep strip_line_end_def plain_line_def Let_def)

text \<open>A list without two values for a key, as a map.\<close>

lemma map_of_functional:
  assumes "\<And>n b b'. (n, b) \<in> set kvs \<Longrightarrow> (n, b') \<in> set kvs \<Longrightarrow> b' = b"
  shows "map_of kvs n = Some b \<longleftrightarrow> (n, b) \<in> set kvs"
proof
  assume "(n, b) \<in> set kvs"
  then obtain b' where "map_of kvs n = Some b'" by (metis weak_map_of_SomeI)
  then show "map_of kvs n = Some b" using assms \<open>(n, b) \<in> set kvs\<close> by (metis map_of_SomeD)
qed (rule map_of_SomeD)

end
