(* ===== verification/Patch.thy ===== *)
theory Patch
  imports Prelude
begin

text \<open>
  The line layer of \<open>omoplata-algebra\<close>: \<open>doc.rs\<close> (documents as sequences of lines) and
  \<open>patch.rs\<close> (hunks, patches, the LCS alignment with its dynamic-programming table,
  \<open>diff\<close> and \<open>apply\<close>). The lemmas show that the table computes the reference LCS length,
  that the alignment is a longest common subsequence, and the round trip I1b.
\<close>

section \<open>Documents (\<open>doc.rs\<close>)\<close>

record doc =
  lines :: "line list"

definition from_lines :: "line list \<Rightarrow> doc" where
  "from_lines ls = \<lparr>lines = ls\<rparr>"

definition from_str :: "string \<Rightarrow> doc" where
  "from_str s = \<lparr>lines = split_on newline s\<rparr>"

definition doc_to_string :: "doc \<Rightarrow> string" where
  "doc_to_string d = join_with newline (lines d)"

lemma lines_from_lines [simp]: "lines (from_lines ls) = ls"
  by (simp add: from_lines_def)

lemma from_lines_lines [simp]: "from_lines (lines d) = d"
  by (simp add: from_lines_def)

lemma from_lines_inject [simp]: "from_lines xs = from_lines ys \<longleftrightarrow> xs = ys"
  by (simp add: from_lines_def)

lemma doc_eqI: "lines d = lines d' \<Longrightarrow> d = (d' :: doc)"
  by simp

lemma doc_string_roundtrip [simp]: "doc_to_string (from_str s) = s"
  by (simp add: doc_to_string_def from_str_def)

lemma doc_parse_roundtrip:
  "lines d \<noteq> [] \<Longrightarrow> \<forall>l\<in>set (lines d). newline \<notin> set l \<Longrightarrow> from_str (doc_to_string d) = d"
  by (simp add: doc_to_string_def from_str_def split_join_on)

section \<open>Hunks and patches\<close>

record hunk =
  base_start :: nat
  hremove :: "line list"
  hinsert :: "line list"

record patch =
  hunks :: "hunk list"

definition hunk_end :: "hunk \<Rightarrow> nat" where
  "hunk_end h = base_start h + length (hremove h)"

definition hunk_support :: "hunk \<Rightarrow> nat \<times> nat" where
  "hunk_support h = (base_start h, base_start h + length (hremove h))"

definition hunk_delta :: "hunk \<Rightarrow> int" where
  "hunk_delta h = int (length (hinsert h)) - int (length (hremove h))"

definition from_hunks :: "hunk list \<Rightarrow> patch" where
  "from_hunks hs = \<lparr>hunks = hs\<rparr>"

definition patch_is_empty :: "patch \<Rightarrow> bool" where
  "patch_is_empty p \<longleftrightarrow> hunks p = []"

definition patch_support :: "patch \<Rightarrow> (nat \<times> nat) list" where
  "patch_support p = map hunk_support (hunks p)"

definition delta_before :: "patch \<Rightarrow> nat \<Rightarrow> int" where
  "delta_before p pos =
     sum_list (map hunk_delta (filter (\<lambda>h. base_start h + length (hremove h) \<le> pos) (hunks p)))"

datatype apply_error =
    OutOfRange nat nat nat
  | ContextMismatch nat
  | OverlappingHunks nat nat

lemma hunks_from_hunks [simp]: "hunks (from_hunks hs) = hs"
  by (simp add: from_hunks_def)

lemma from_hunks_hunks [simp]: "from_hunks (hunks p) = p"
  by (simp add: from_hunks_def)

section \<open>The LCS alignment\<close>

text \<open>One inner-loop assignment \<open>dp[i][j] = \<dots>\<close>, the two nested reversed loops, and the walk.\<close>

definition dp_cell :: "line list \<Rightarrow> line list \<Rightarrow> nat \<Rightarrow> nat \<Rightarrow> nat list list \<Rightarrow> nat list list" where
  "dp_cell a b i j dp =
     dp[i := (dp ! i)[j := (if a ! i = b ! j then dp ! (i + 1) ! (j + 1) + 1
                            else max (dp ! (i + 1) ! j) (dp ! i ! (j + 1)))]]"

definition dp_row :: "line list \<Rightarrow> line list \<Rightarrow> nat \<Rightarrow> nat list list \<Rightarrow> nat list list" where
  "dp_row a b i dp = fold (dp_cell a b i) (rev [0..<length b]) dp"

definition dp_table :: "line list \<Rightarrow> line list \<Rightarrow> nat list list" where
  "dp_table a b =
     fold (dp_row a b) (rev [0..<length a])
       (replicate (length a + 1) (replicate (length b + 1) 0))"

function lcs_walk :: "line list \<Rightarrow> line list \<Rightarrow> nat list list \<Rightarrow> nat \<Rightarrow> nat \<Rightarrow> (nat \<times> nat) list" where
  "lcs_walk a b dp i j =
     (if i < length a \<and> j < length b then
        if a ! i = b ! j then (i, j) # lcs_walk a b dp (i + 1) (j + 1)
        else if dp ! i ! (j + 1) \<le> dp ! (i + 1) ! j then lcs_walk a b dp (i + 1) j
        else lcs_walk a b dp i (j + 1)
      else [])"
  by pat_completeness auto
termination
  by (relation "measure (\<lambda>(a, b, dp, i, j). (length a - i) + (length b - j))") auto

declare lcs_walk.simps [simp del]

definition lcs_matches :: "line list \<Rightarrow> line list \<Rightarrow> (nat \<times> nat) list" where
  "lcs_matches a b = lcs_walk a b (dp_table a b) 0 0"

section \<open>\<open>diff\<close> and \<open>apply\<close>\<close>

text \<open>
  The loop over the matches followed by the sentinel. The two slices of the code are in range
  at every iteration (\<open>diff_ranges_ok\<close> below), so the total \<open>slice_of\<close> models them.
\<close>

fun diff_loop :: "line list \<Rightarrow> line list \<Rightarrow> nat \<Rightarrow> nat \<Rightarrow> (nat \<times> nat) list \<Rightarrow> hunk list" where
  "diff_loop b t bi ti [] = []"
| "diff_loop b t bi ti ((mb, mt) # ms) =
     (if bi < mb \<or> ti < mt
      then [\<lparr>base_start = bi, hremove = slice_of bi mb b, hinsert = slice_of ti mt t\<rparr>] else [])
     @ diff_loop b t (mb + 1) (mt + 1) ms"

definition diff :: "doc \<Rightarrow> doc \<Rightarrow> patch" where
  "diff base target =
     \<lparr>hunks = diff_loop (lines base) (lines target) 0 0
        (lcs_matches (lines base) (lines target) @ [(length (lines base), length (lines target))])\<rparr>"

fun apply_loop :: "line list \<Rightarrow> hunk list \<Rightarrow> nat \<Rightarrow> line list \<Rightarrow> apply_error + line list" where
  "apply_loop b [] pos out = Inr (out @ drop pos b)"
| "apply_loop b (h # hs) pos out =
     (if base_start h < pos then Inl (OverlappingHunks (base_start h) pos)
      else let e = base_start h + length (hremove h) in
        if length b < e then Inl (OutOfRange (base_start h) (length (hremove h)) (length b))
        else if slice_of (base_start h) e b \<noteq> hremove h then Inl (ContextMismatch (base_start h))
        else apply_loop b hs e (out @ slice_of pos (base_start h) b @ hinsert h))"

definition apply_patch :: "patch \<Rightarrow> doc \<Rightarrow> apply_error + doc" where
  "apply_patch p base =
     (case apply_loop (lines base) (hunks p) 0 [] of
        Inl e \<Rightarrow> Inl e
      | Inr out \<Rightarrow> Inr (from_lines out))"


section \<open>The table computes the reference LCS length\<close>

fun lcs_len :: "'a list \<Rightarrow> 'a list \<Rightarrow> nat" where
  "lcs_len [] ys = 0"
| "lcs_len (x # xs) [] = 0"
| "lcs_len (x # xs) (y # ys) =
     (if x = y then lcs_len xs ys + 1 else max (lcs_len xs (y # ys)) (lcs_len (x # xs) ys))"

lemma lcs_len_Nil2 [simp]: "lcs_len xs [] = 0"
  by (cases xs) auto

lemma lcs_len_drop:
  assumes "i < length a" "j < length b"
  shows "lcs_len (drop i a) (drop j b) =
    (if a ! i = b ! j then lcs_len (drop (Suc i) a) (drop (Suc j) b) + 1
     else max (lcs_len (drop (Suc i) a) (drop j b)) (lcs_len (drop i a) (drop (Suc j) b)))"
  using assms by (simp add: Cons_nth_drop_Suc [symmetric])

definition dp_dims :: "line list \<Rightarrow> line list \<Rightarrow> nat list list \<Rightarrow> bool" where
  "dp_dims a b dp \<longleftrightarrow> length dp = length a + 1 \<and> (\<forall>r\<in>set dp. length r = length b + 1)"

definition dp_row_ok :: "line list \<Rightarrow> line list \<Rightarrow> nat list list \<Rightarrow> nat \<Rightarrow> bool" where
  "dp_row_ok a b dp i \<longleftrightarrow> (\<forall>j\<le>length b. dp ! i ! j = lcs_len (drop i a) (drop j b))"

lemma dp_dims_nth: "dp_dims a b dp \<Longrightarrow> i \<le> length a \<Longrightarrow> length (dp ! i) = length b + 1"
  by (auto simp: dp_dims_def)

lemma dp_dims_cell:
  assumes "dp_dims a b dp" "i < length a"
  shows "dp_dims a b (dp_cell a b i j dp)"
proof -
  have "length (dp ! i) = length b + 1" using assms by (simp add: dp_dims_nth)
  then show ?thesis
    using assms by (auto simp: dp_dims_def dp_cell_def dest!: set_update_subset_insert [THEN subsetD])
qed

lemma dp_inner:
  assumes "dp_dims a b dp" "i < length a" "dp_row_ok a b dp (Suc i)" "dp ! i ! length b = 0"
    and "k \<le> length b"
  shows "let dp' = fold (dp_cell a b i) (rev [k..<length b]) dp in
           dp_dims a b dp' \<and> (\<forall>i'. i' \<noteq> i \<longrightarrow> dp' ! i' = dp ! i') \<and>
           (\<forall>j. k \<le> j \<and> j \<le> length b \<longrightarrow> dp' ! i ! j = lcs_len (drop i a) (drop j b))"
  using assms(5)
proof (induction "length b - k" arbitrary: k)
  case 0
  then show ?case using assms by (auto simp: Let_def)
next
  case (Suc n)
  define dp' where "dp' = fold (dp_cell a b i) (rev [Suc k..<length b]) dp"
  have k: "k < length b" using Suc.hyps by simp
  then have "n = length b - Suc k" using Suc.hyps by simp
  from Suc.hyps(1) [OF this] k
  have IH: "dp_dims a b dp'" "\<forall>i'. i' \<noteq> i \<longrightarrow> dp' ! i' = dp ! i'"
    "\<forall>j. Suc k \<le> j \<and> j \<le> length b \<longrightarrow> dp' ! i ! j = lcs_len (drop i a) (drop j b)"
    by (auto simp: dp'_def Let_def)
  have eq: "fold (dp_cell a b i) (rev [k..<length b]) dp = dp_cell a b i k dp'"
    using k by (simp add: dp'_def upt_conv_Cons)
  have len: "length dp' = length a + 1" "length (dp' ! i) = length b + 1"
    using IH(1) assms(2) by (auto simp: dp_dims_def)
  have below: "dp' ! Suc i ! j = lcs_len (drop (Suc i) a) (drop j b)" if "j \<le> length b" for j
    using IH(2) assms(3) that by (simp add: dp_row_ok_def)
  have cell: "dp_cell a b i k dp' ! i ! k = lcs_len (drop i a) (drop k b)"
    using k assms(2) len IH(3)
    by (simp add: dp_cell_def below lcs_len_drop)
  have "dp_cell a b i k dp' ! i ! j = lcs_len (drop i a) (drop j b)" if "k \<le> j" "j \<le> length b" for j
    using that cell IH(3) assms(2) len by (cases "j = k") (auto simp: dp_cell_def)
  moreover have "dp_dims a b (dp_cell a b i k dp')"
    using IH(1) assms(2) by (rule dp_dims_cell)
  moreover have "\<forall>i'. i' \<noteq> i \<longrightarrow> dp_cell a b i k dp' ! i' = dp ! i'"
    using IH(2) by (simp add: dp_cell_def)
  ultimately show ?case by (simp add: eq Let_def)
qed

lemma dp_outer:
  assumes "k \<le> length a"
  shows "let dp' = fold (dp_row a b) (rev [k..<length a])
              (replicate (length a + 1) (replicate (length b + 1) 0)) in
           dp_dims a b dp' \<and> (\<forall>i. k \<le> i \<and> i \<le> length a \<longrightarrow> dp_row_ok a b dp' i) \<and>
           (\<forall>i<k. dp' ! i = replicate (length b + 1) 0)"
  using assms
proof (induction "length a - k" arbitrary: k)
  case 0
  then show ?case by (auto simp: Let_def dp_dims_def dp_row_ok_def nth_append simp del: replicate_Suc)
next
  case (Suc n)
  define dp' where "dp' = fold (dp_row a b) (rev [Suc k..<length a])
    (replicate (length a + 1) (replicate (length b + 1) 0))"
  have k: "k < length a" using Suc.hyps by simp
  then have "n = length a - Suc k" using Suc.hyps by simp
  from Suc.hyps(1) [OF this] k
  have IH: "dp_dims a b dp'" "\<forall>i. Suc k \<le> i \<and> i \<le> length a \<longrightarrow> dp_row_ok a b dp' i"
    "\<forall>i<Suc k. dp' ! i = replicate (length b + 1) 0"
    by (auto simp: dp'_def Let_def)
  have eq: "fold (dp_row a b) (rev [k..<length a])
      (replicate (length a + 1) (replicate (length b + 1) 0)) = dp_row a b k dp'"
    using k by (simp add: dp'_def upt_conv_Cons)
  have "dp_row_ok a b dp' (Suc k)" "dp' ! k ! length b = 0"
    using IH k by (auto simp: nth_append simp del: replicate_Suc)
  from dp_inner [OF IH(1) k this, of 0]
  have R: "dp_dims a b (dp_row a b k dp')"
    "\<forall>i'. i' \<noteq> k \<longrightarrow> dp_row a b k dp' ! i' = dp' ! i'"
    "\<forall>j\<le>length b. dp_row a b k dp' ! k ! j = lcs_len (drop k a) (drop j b)"
    by (auto simp: dp_row_def Let_def)
  have "dp_row_ok a b (dp_row a b k dp') i" if "k \<le> i" "i \<le> length a" for i
    using that R IH(2) by (cases "i = k") (auto simp: dp_row_ok_def)
  then show ?case using R IH(3) unfolding eq Let_def by simp
qed

lemma dp_table_correct:
  "i \<le> length a \<Longrightarrow> j \<le> length b \<Longrightarrow> dp_table a b ! i ! j = lcs_len (drop i a) (drop j b)"
  using dp_outer [of 0 a b] by (auto simp: dp_table_def Let_def dp_row_ok_def)

section \<open>The alignment is a longest common subsequence\<close>

fun alignment :: "line list \<Rightarrow> line list \<Rightarrow> nat \<Rightarrow> nat \<Rightarrow> (nat \<times> nat) list \<Rightarrow> bool" where
  "alignment a b i j [] \<longleftrightarrow> True"
| "alignment a b i j ((x, y) # ms) \<longleftrightarrow>
     i \<le> x \<and> j \<le> y \<and> x < length a \<and> y < length b \<and> a ! x = b ! y \<and>
     alignment a b (x + 1) (y + 1) ms"

lemma alignment_mono:
  "alignment a b i j ms \<Longrightarrow> i' \<le> i \<Longrightarrow> j' \<le> j \<Longrightarrow> alignment a b i' j' ms"
  by (cases ms) auto

lemma lcs_walk_alignment: "alignment a b i j (lcs_walk a b dp i j)"
proof (induction a b dp i j rule: lcs_walk.induct)
  case (1 a b dp i j)
  then show ?case
    by (subst lcs_walk.simps) (auto intro: alignment_mono)
qed

lemma lcs_matches_alignment: "alignment a b 0 0 (lcs_matches a b)"
  by (simp add: lcs_matches_def lcs_walk_alignment)

lemma lcs_walk_length:
  "i \<le> length a \<Longrightarrow> j \<le> length b \<Longrightarrow>
   length (lcs_walk a b (dp_table a b) i j) = lcs_len (drop i a) (drop j b)"
proof (induction a b "dp_table a b" i j rule: lcs_walk.induct)
  case (1 a b i j)
  show ?case
  proof (cases "i < length a \<and> j < length b")
    case True
    then show ?thesis
      using 1 by (subst lcs_walk.simps) (auto simp: lcs_len_drop dp_table_correct)
  next
    case False
    then have "i = length a \<or> j = length b" using "1.prems" by auto
    then show ?thesis by (subst lcs_walk.simps) auto
  qed
qed

lemma lcs_matches_length: "length (lcs_matches a b) = lcs_len a b"
  by (simp add: lcs_matches_def lcs_walk_length)

lemma subseq_lcs_len: "subseq zs xs \<Longrightarrow> subseq zs ys \<Longrightarrow> length zs \<le> lcs_len xs ys"
proof (induction xs ys arbitrary: zs rule: lcs_len.induct)
  case (3 x xs y ys)
  show ?case
  proof (cases "x = y")
    case True
    show ?thesis
    proof (cases zs)
      case (Cons z zs')
      have "subseq zs' xs" "subseq zs' ys"
        using "3.prems" Cons by (metis subseq_Cons2_iff subseq_Cons')+
      then show ?thesis using "3.IH"(1) [OF True] Cons True by simp
    qed simp
  next
    case False
    then have "subseq zs xs \<or> subseq zs ys"
      using "3.prems" by (cases zs) (auto split: if_splits)
    then show ?thesis
      using "3.IH"(2,3) [OF False] "3.prems" False by fastforce
  qed
qed auto

lemma alignment_subseq:
  "alignment a b i j ms \<Longrightarrow>
   subseq (map (\<lambda>(x, y). a ! x) ms) (drop i a) \<and> subseq (map (\<lambda>(x, y). a ! x) ms) (drop j b)"
proof (induction ms arbitrary: i j)
  case Nil
  then show ?case by simp
next
  case (Cons m ms)
  obtain x y where m: "m = (x, y)" by (cases m)
  from Cons m have IH: "subseq (map (\<lambda>(x, y). a ! x) ms) (drop (Suc x) a)"
    "subseq (map (\<lambda>(x, y). a ! x) ms) (drop (Suc y) b)" by auto
  have xy: "x < length a" "y < length b" "i \<le> x" "j \<le> y" "a ! x = b ! y"
    using Cons.prems m by auto
  then have "drop i a = slice_of i x a @ a ! x # drop (Suc x) a"
    "drop j b = slice_of j y b @ b ! y # drop (Suc y) b"
    by (metis Cons_nth_drop_Suc slice_of_append_drop)+
  then show ?case using IH Cons.prems m
    by (auto intro!: list_emb_append2)
qed


section \<open>Shape of a diff\<close>

text \<open>Sorted, non-overlapping hunks from \<open>pos\<close> on, and hunks whose context matches the base.\<close>

fun hunks_sorted :: "nat \<Rightarrow> hunk list \<Rightarrow> bool" where
  "hunks_sorted pos [] \<longleftrightarrow> True"
| "hunks_sorted pos (h # hs) \<longleftrightarrow> pos \<le> base_start h \<and> hunks_sorted (hunk_end h) hs"

definition hunk_fits :: "line list \<Rightarrow> hunk \<Rightarrow> bool" where
  "hunk_fits b h \<longleftrightarrow> hunk_end h \<le> length b \<and> slice_of (base_start h) (hunk_end h) b = hremove h"

definition patch_fits :: "patch \<Rightarrow> doc \<Rightarrow> bool" where
  "patch_fits p d \<longleftrightarrow> hunks_sorted 0 (hunks p) \<and> (\<forall>h\<in>set (hunks p). hunk_fits (lines d) h)"

lemma hunks_sorted_mono: "hunks_sorted pos hs \<Longrightarrow> pos' \<le> pos \<Longrightarrow> hunks_sorted pos' hs"
  by (cases hs) auto

lemma hunks_sorted_bound: "hunks_sorted pos hs \<Longrightarrow> h \<in> set hs \<Longrightarrow> pos \<le> base_start h"
proof (induction hs arbitrary: pos)
  case (Cons k hs)
  then have "base_start h = base_start k \<or> hunk_end k \<le> base_start h" by auto
  then show ?case using Cons.prems by (auto simp: hunk_end_def)
qed simp

text \<open>The slices that \<open>diff\<close> takes are in range at every iteration: \<open>diff\<close> does not panic.\<close>

fun diff_ranges_ok :: "nat \<Rightarrow> nat \<Rightarrow> nat \<Rightarrow> nat \<Rightarrow> (nat \<times> nat) list \<Rightarrow> bool" where
  "diff_ranges_ok m n bi ti [] \<longleftrightarrow> True"
| "diff_ranges_ok m n bi ti ((mb, mt) # ms) \<longleftrightarrow>
     (bi < mb \<or> ti < mt \<longrightarrow> bi \<le> mb \<and> mb \<le> m \<and> ti \<le> mt \<and> mt \<le> n) \<and>
     diff_ranges_ok m n (mb + 1) (mt + 1) ms"

lemma alignment_ranges:
  "alignment b t bi ti ms \<Longrightarrow> bi \<le> length b \<Longrightarrow> ti \<le> length t \<Longrightarrow>
   diff_ranges_ok (length b) (length t) bi ti (ms @ [(length b, length t)])"
  by (induction ms arbitrary: bi ti) auto

lemma diff_loop_sorted:
  "alignment b t bi ti ms \<Longrightarrow> bi \<le> length b \<Longrightarrow> ti \<le> length t \<Longrightarrow>
   hunks_sorted bi (diff_loop b t bi ti (ms @ [(length b, length t)]))"
proof (induction ms arbitrary: bi ti)
  case Nil
  then show ?case by simp
next
  case (Cons m ms)
  obtain x y where m: "m = (x, y)" by (cases m)
  have "hunks_sorted (Suc x) (diff_loop b t (Suc x) (Suc y) (ms @ [(length b, length t)]))"
    using Cons m by simp
  then show ?case using Cons.prems m
    by (auto simp: hunk_end_def intro: hunks_sorted_mono)
qed

lemma diff_loop_fits:
  "alignment b t bi ti ms \<Longrightarrow> bi \<le> length b \<Longrightarrow> ti \<le> length t \<Longrightarrow>
   h \<in> set (diff_loop b t bi ti (ms @ [(length b, length t)])) \<Longrightarrow> hunk_fits b h"
proof (induction ms arbitrary: bi ti)
  case Nil
  then show ?case by (auto simp: hunk_fits_def hunk_end_def split: if_splits)
next
  case (Cons m ms)
  then show ?case by (cases m) (auto simp: hunk_fits_def hunk_end_def split: if_splits)
qed

lemma diff_fits: "patch_fits (diff base target) base"
  by (simp add: patch_fits_def diff_def diff_loop_sorted diff_loop_fits lcs_matches_alignment
      del: diff_loop.simps)
     (blast intro: diff_loop_fits lcs_matches_alignment)

section \<open>\<open>apply\<close>\<close>

definition prefix_out :: "line list \<Rightarrow> apply_error + line list \<Rightarrow> apply_error + line list" where
  "prefix_out out r = (case r of Inl e \<Rightarrow> Inl e | Inr x \<Rightarrow> Inr (out @ x))"

lemma prefix_out_simps [simp]:
  "prefix_out out (Inl e) = Inl e" "prefix_out out (Inr x) = Inr (out @ x)"
  "prefix_out [] r = r"
  by (auto simp: prefix_out_def split: sum.splits)

lemma prefix_out_append: "prefix_out (xs @ ys) r = prefix_out xs (prefix_out ys r)"
  by (cases r) auto

lemma prefix_out_Inr_iff: "prefix_out out r = Inr y \<longleftrightarrow> (\<exists>x. r = Inr x \<and> y = out @ x)"
  by (cases r) auto

lemma apply_loop_acc: "apply_loop b hs pos out = prefix_out out (apply_loop b hs pos [])"
proof (induction hs arbitrary: pos out)
  case Nil
  then show ?case by simp
next
  case (Cons h hs)
  define e where "e = base_start h + length (hremove h)"
  define x where "x = slice_of pos (base_start h) b @ hinsert h"
  have "apply_loop b hs e (out @ x) = prefix_out (out @ x) (apply_loop b hs e [])"
    "apply_loop b hs e x = prefix_out x (apply_loop b hs e [])"
    by (rule Cons.IH)+
  then have "apply_loop b hs e (out @ x) = prefix_out out (apply_loop b hs e x)"
    by (simp add: prefix_out_append)
  then show ?case by (simp add: Let_def e_def x_def)
qed

lemma apply_loop_diff:
  "alignment b t bi ti ms \<Longrightarrow> pos \<le> bi \<Longrightarrow> bi \<le> length b \<Longrightarrow> ti \<le> length t \<Longrightarrow>
   apply_loop b (diff_loop b t bi ti (ms @ [(length b, length t)])) pos out
     = Inr (out @ slice_of pos bi b @ drop ti t)"
proof (induction ms arbitrary: bi ti pos out)
  case Nil
  then show ?case by (auto simp: Let_def slice_of_to_end)
next
  case (Cons m ms)
  obtain x y where m: "m = (x, y)" by (cases m)
  note prems = Cons.prems [unfolded m alignment.simps]
  have b: "slice_of pos (Suc x) b = slice_of pos bi b @ slice_of bi x b @ [b ! x]"
    using prems slice_of_split [of pos bi "Suc x" b] slice_of_split [of bi x "Suc x" b]
    by (simp add: slice_of_Suc)
  have t: "drop ti t = slice_of ti y t @ t ! y # drop (Suc y) t"
    using prems by (simp add: Cons_nth_drop_Suc slice_of_append_drop)
  have IH: "apply_loop b (diff_loop b t (x + 1) (y + 1) (ms @ [(length b, length t)])) p o'
      = Inr (o' @ slice_of p (x + 1) b @ drop (y + 1) t)" if "p \<le> x + 1" for p o'
    using prems that by (intro Cons.IH) auto
  have x: "slice_of x (Suc x) b = [b ! x]" using prems by (simp add: slice_of_Suc)
  show ?case
  proof (cases "bi < x \<or> ti < y")
    case True
    moreover have "bi + min (x - bi) (length b - bi) = x" using prems by linarith
    ultimately show ?thesis using prems m IH [of x] t x by (simp add: Let_def)
  next
    case False
    then have "bi = x" "ti = y" using prems by auto
    then show ?thesis using prems m IH [of pos] t b by simp
  qed
qed

lemma apply_diff: "apply_patch (diff base target) base = Inr target"
  by (simp add: apply_patch_def diff_def apply_loop_diff lcs_matches_alignment)

lemma apply_loop_ok_iff:
  "(\<exists>r. apply_loop b hs pos out = Inr r) \<longleftrightarrow> hunks_sorted pos hs \<and> (\<forall>h\<in>set hs. hunk_fits b h)"
  by (induction hs arbitrary: pos out) (auto simp: Let_def hunk_fits_def hunk_end_def)

lemma apply_ok_iff: "is_ok (apply_patch p d) \<longleftrightarrow> patch_fits p d"
  using apply_loop_ok_iff [of "lines d" "hunks p" 0 "[]"]
  by (auto simp: apply_patch_def patch_fits_def is_ok_iff split: sum.splits)

lemma apply_loop_length:
  "apply_loop b hs pos out = Inr r \<Longrightarrow> pos \<le> length b \<Longrightarrow>
   int (length r) = int (length out) + int (length b) - int pos + sum_list (map hunk_delta hs)"
  by (induction hs arbitrary: pos out)
     (fastforce simp: Let_def hunk_delta_def split: if_splits)+

lemma diff_loop_self:
  "diff_loop b b bi bi (map (\<lambda>k. (k, k)) [bi..<length b] @ [(length b, length b)]) = []"
proof (induction "length b - bi" arbitrary: bi)
  case (Suc n)
  then have "bi < length b" by simp
  with Suc show ?case by (simp add: upt_conv_Cons)
qed simp

lemma lcs_walk_self:
  "lcs_walk b b dp i i = map (\<lambda>k. (k, k)) [i..<length b]"
proof (induction "length b - i" arbitrary: i)
  case 0
  then show ?case by (subst lcs_walk.simps) simp
next
  case (Suc n)
  then have "i < length b" by simp
  with Suc show ?case by (subst lcs_walk.simps) (simp add: upt_conv_Cons)
qed

lemma diff_self: "patch_is_empty (diff d d)"
  using diff_loop_self [of "lines d" 0]
  by (simp add: patch_is_empty_def diff_def lcs_matches_def lcs_walk_self)

lemma diff_empty_iff: "patch_is_empty (diff a b) \<longleftrightarrow> a = b"
proof
  assume e: "patch_is_empty (diff a b)"
  then have "apply_patch (diff a b) a = Inr a"
    by (simp add: patch_is_empty_def apply_patch_def)
  then show "a = b" by (simp add: apply_diff)
next
  assume "a = b"
  then show "patch_is_empty (diff a b)" by (simp add: diff_self)
qed

section \<open>Properties\<close>

text \<open>C4: Faithfulness of diffs (I1b): applying \<open>diff(base, target)\<close> to the base always succeeds
and gives the target; the hunks are sorted, do not overlap and carry the base's own lines, and
the diff is empty exactly on equal documents.\<close>

theorem diff_faithful:
  "apply_patch (diff base target) base = Inr target \<and> patch_fits (diff base target) base \<and>
   (patch_is_empty (diff base target) \<longleftrightarrow> base = target)"
  by (simp add: apply_diff diff_fits diff_empty_iff)

text \<open>The dynamic-programming alignment is a longest common subsequence: it pairs equal lines at
strictly increasing positions of both documents, and its length is the maximum over all common
subsequences.\<close>

theorem lcs_matches_optimal:
  "alignment a b 0 0 (lcs_matches a b) \<and>
   length (lcs_matches a b) = Max (length ` {zs. subseq zs a \<and> subseq zs b})"
proof -
  let ?S = "{zs. subseq zs a \<and> subseq zs b}"
  have bound: "length zs \<le> lcs_len a b" if "zs \<in> ?S" for zs using that by (simp add: subseq_lcs_len)
  have "finite ?S"
    by (rule finite_subset [of _ "set (subseqs a)"]) auto
  moreover have "map (\<lambda>(x, y). a ! x) (lcs_matches a b) \<in> ?S"
    using alignment_subseq [OF lcs_matches_alignment] by simp
  then have "lcs_len a b \<in> length ` ?S"
    by (rule rev_image_eqI) (simp add: lcs_matches_length)
  ultimately have "Max (length ` ?S) = lcs_len a b"
    using bound by (intro Max_eqI) blast+
  then show ?thesis by (simp add: lcs_matches_alignment lcs_matches_length)
qed

text \<open>\<open>apply\<close> accepts exactly the patches whose hunks are sorted, disjoint, within the
document and whose removed lines are the document's lines, and then the number of lines grows by
the sum of the hunks' deltas; every other patch is an error.\<close>

theorem apply_accepts_exactly:
  "case apply_patch p d of
     Inr d' \<Rightarrow> patch_fits p d \<and>
       int (length (lines d')) = int (length (lines d)) + sum_list (map hunk_delta (hunks p))
   | Inl e \<Rightarrow> \<not> patch_fits p d"
proof (cases "apply_patch p d")
  case (Inl e)
  then show ?thesis using apply_ok_iff [of p d] by simp
next
  case (Inr d')
  then have "apply_loop (lines d) (hunks p) 0 [] = Inr (lines d')"
    by (auto simp: apply_patch_def split: sum.splits)
  from apply_loop_length [OF this] show ?thesis using apply_ok_iff [of p d] Inr by simp
qed

end
