(* ===== verification/Commute.thy ===== *)
theory Commute
  imports Patch
begin

text \<open>
  The commutation checker, \<open>commute.rs\<close>: \<open>hunks_conflict\<close>, \<open>rebase\<close>, \<open>commute\<close> and
  \<open>combine\<close>. The lemmas relate the two application orders of an independent pair to one
  interleaved patch over the common base, which gives I5 and I10.
\<close>

section \<open>The checker\<close>

datatype commutation =
    Independent (p_rebased: patch) (q_rebased: patch)
  | Overlap

definition hunks_conflict :: "hunk \<Rightarrow> hunk \<Rightarrow> bool" where
  "hunks_conflict h k \<longleftrightarrow>
     (let before = base_start h + length (hremove h) \<le> base_start k;
          after = base_start k + length (hremove k) \<le> base_start h
      in before = after)"

definition rebase_hunk :: "patch \<Rightarrow> hunk \<Rightarrow> hunk" where
  "rebase_hunk other h =
     (let shift = delta_before other (base_start h);
          new_start = nat (max (int (base_start h) + shift) 0)
      in \<lparr>base_start = new_start, hremove = hremove h, hinsert = hinsert h\<rparr>)"

definition rebase_patch :: "patch \<Rightarrow> patch \<Rightarrow> patch" where
  "rebase_patch p other = from_hunks (map (rebase_hunk other) (hunks p))"

definition commute :: "patch \<Rightarrow> patch \<Rightarrow> commutation" where
  "commute p q =
     (if list_all (\<lambda>h. list_all (\<lambda>k. \<not> hunks_conflict h k) (hunks q)) (hunks p)
      then Independent (rebase_patch p q) (rebase_patch q p)
      else Overlap)"

definition combine :: "doc \<Rightarrow> patch \<Rightarrow> patch \<Rightarrow> apply_error + doc" where
  "combine base p q_reb = and_then (apply_patch p base) (\<lambda>after_p. apply_patch q_reb after_p)"

definition separable :: "hunk list \<Rightarrow> hunk list \<Rightarrow> bool" where
  "separable ps qs \<longleftrightarrow> (\<forall>h\<in>set ps. \<forall>k\<in>set qs. \<not> hunks_conflict h k)"

lemma hunks_conflict_sym: "hunks_conflict h k \<longleftrightarrow> hunks_conflict k h"
  by (auto simp: hunks_conflict_def Let_def)

lemma separable_sym: "separable ps qs \<longleftrightarrow> separable qs ps"
  unfolding separable_def using hunks_conflict_sym by blast

lemma commute_eq:
  "commute p q = (if separable (hunks p) (hunks q)
     then Independent (rebase_patch p q) (rebase_patch q p) else Overlap)"
  by (simp add: commute_def separable_def list_all_iff)

lemma commute_swap:
  "commute q p = (case commute p q of Independent p' q' \<Rightarrow> Independent q' p' | Overlap \<Rightarrow> Overlap)"
  by (simp add: commute_eq separable_sym)

lemma not_conflict_iff:
  "\<not> hunks_conflict h k \<longleftrightarrow> (hunk_end h \<le> base_start k) \<noteq> (hunk_end k \<le> base_start h)"
  by (auto simp: hunks_conflict_def hunk_end_def Let_def)

section \<open>Applying hunks to the rest of a document\<close>

text \<open>
  \<open>run pos hs b\<close> applies the hunks to the suffix \<open>b\<close> of the base that starts at line
  \<open>pos\<close>; \<open>None\<close> where \<open>apply\<close> reports an error. It relates to the accumulator loop of the
  code by \<open>apply_loop_run\<close>.
\<close>

fun run :: "nat \<Rightarrow> hunk list \<Rightarrow> line list \<Rightarrow> line list option" where
  "run pos [] b = Some b"
| "run pos (h # hs) b =
     (if pos \<le> base_start h \<and> hunk_end h \<le> pos + length b \<and>
         take (length (hremove h)) (drop (base_start h - pos) b) = hremove h
      then map_option (\<lambda>r. take (base_start h - pos) b @ hinsert h @ r)
             (run (hunk_end h) hs (drop (hunk_end h - pos) b))
      else None)"

lemma apply_loop_run:
  "pos \<le> length b \<Longrightarrow> apply_loop b hs pos [] = Inr r \<longleftrightarrow> run pos hs (drop pos b) = Some r"
proof (induction hs arbitrary: pos r)
  case Nil
  then show ?case by simp
next
  case (Cons h hs)
  have IH: "apply_loop b hs (hunk_end h) [] = Inr r' \<longleftrightarrow>
      run (hunk_end h) hs (drop (hunk_end h) b) = Some r'" if "hunk_end h \<le> length b" for r'
    using that by (rule Cons.IH)
  show ?case
  proof (cases "pos \<le> base_start h \<and> hunk_end h \<le> length b")
    case True
    then have "hunk_end h - pos + pos = hunk_end h" "base_start h - pos + pos = base_start h"
      by (auto simp: hunk_end_def)
    then show ?thesis
      using True IH Cons.prems
      by (subst apply_loop.simps(2), subst apply_loop_acc)
         (auto simp: Let_def hunk_end_def slice_of_def prefix_out_Inr_iff)
  next
    case False
    then show ?thesis using Cons.prems by (auto simp: Let_def hunk_end_def)
  qed
qed

lemma apply_patch_run:
  "apply_patch p d = Inr d' \<longleftrightarrow> run 0 (hunks p) (lines d) = Some (lines d')"
  using apply_loop_run [of 0 "lines d" "hunks p" "lines d'"]
  by (cases "apply_loop (lines d) (hunks p) 0 []")
     (auto simp: apply_patch_def from_lines_def)

lemma run_sorted: "run pos hs b = Some r \<Longrightarrow> hunks_sorted pos hs"
  by (induction hs arbitrary: pos b r) (auto split: if_splits)

lemma run_skip:
  "hunks_sorted (pos + length x) hs \<Longrightarrow>
   run pos hs (x @ y) = map_option ((@) x) (run (pos + length x) hs y)"
  by (cases hs) (auto simp: option.map_comp comp_def hunk_end_def)

lemma run_split:
  assumes "pos \<le> e" "e \<le> pos + length b" "hunks_sorted e hs"
  shows "run pos hs b = map_option ((@) (take (e - pos) b)) (run e hs (drop (e - pos) b))"
proof -
  have "min (length b) (e - pos) = e - pos" using assms by auto
  then show ?thesis
    using assms run_skip [of pos "take (e - pos) b" hs "drop (e - pos) b"] by simp
qed

section \<open>Interleaving two separable patches\<close>

fun interleave :: "hunk list \<Rightarrow> hunk list \<Rightarrow> hunk list" where
  "interleave [] qs = qs"
| "interleave (h # ps) [] = h # ps"
| "interleave (h # ps) (k # qs) =
     (if hunk_end h \<le> base_start k then h # interleave ps (k # qs)
      else k # interleave (h # ps) qs)"

lemma interleave_Nil2 [simp]: "interleave ps [] = ps"
  by (cases ps) auto

lemma mset_interleave: "mset (interleave ps qs) = mset ps + mset qs"
  by (induction ps qs rule: interleave.induct) auto

lemma interleave_commute: "separable ps qs \<Longrightarrow> interleave ps qs = interleave qs ps"
proof (induction ps qs rule: interleave.induct)
  case (3 h ps k qs)
  then have "\<not> hunks_conflict h k" by (simp add: separable_def)
  with 3 show ?case by (auto simp: separable_def not_conflict_iff)
qed auto

definition delta_sum :: "hunk list \<Rightarrow> nat \<Rightarrow> int" where
  "delta_sum ps pos = sum_list (map hunk_delta (filter (\<lambda>h. hunk_end h \<le> pos) ps))"

definition shift_hunk :: "int \<Rightarrow> hunk list \<Rightarrow> hunk \<Rightarrow> hunk" where
  "shift_hunk d ps k = k\<lparr>base_start := nat (max (int (base_start k) + d + delta_sum ps (base_start k)) 0)\<rparr>"

lemma shift_hunk_simps [simp]:
  "hremove (shift_hunk d ps k) = hremove k" "hinsert (shift_hunk d ps k) = hinsert k"
  "base_start (shift_hunk d ps k) = nat (max (int (base_start k) + d + delta_sum ps (base_start k)) 0)"
  by (simp_all add: shift_hunk_def)

lemma rebase_hunk_shift: "rebase_hunk p k = shift_hunk 0 (hunks p) k"
  by (simp add: rebase_hunk_def shift_hunk_def delta_before_def delta_sum_def hunk_end_def Let_def)

lemma rebase_patch_shift: "rebase_patch q p = from_hunks (map (shift_hunk 0 (hunks p)) (hunks q))"
  by (simp add: rebase_patch_def rebase_hunk_shift cong: map_cong)

lemma run_shift_Nil:
  "hunks_sorted pos qs \<Longrightarrow> 0 \<le> int pos + d \<Longrightarrow>
   run (nat (int pos + d)) (map (shift_hunk d []) qs) b = run pos qs b"
proof (induction qs arbitrary: pos b)
  case Nil
  then show ?case by simp
next
  case (Cons k qs)
  have e: "hunk_end (shift_hunk d [] k) = nat (int (hunk_end k) + d)"
    and s: "base_start (shift_hunk d [] k) = nat (int (base_start k) + d)"
    using Cons.prems by (auto simp: hunk_end_def delta_sum_def)
  have "nat (int (base_start k) + d) - nat (int pos + d) = base_start k - pos"
    "nat (int (hunk_end k) + d) - nat (int pos + d) = hunk_end k - pos"
    "(nat (int pos + d) \<le> nat (int (base_start k) + d)) = (pos \<le> base_start k)"
    "(nat (int (hunk_end k) + d) \<le> nat (int pos + d) + length b) = (hunk_end k \<le> pos + length b)"
    using Cons.prems by (auto simp: hunk_end_def)
  moreover have "run (nat (int (hunk_end k) + d)) (map (shift_hunk d []) qs) b' = run (hunk_end k) qs b'"
    for b' using Cons.prems by (intro Cons.IH) (auto simp: hunk_end_def)
  ultimately show ?case by (simp add: e s del: shift_hunk_simps(3))
qed

lemma delta_sum_Cons:
  "delta_sum (h # ps) pos = (if hunk_end h \<le> pos then hunk_delta h else 0) + delta_sum ps pos"
  by (simp add: delta_sum_def)

lemma delta_sum_after:
  assumes "hunks_sorted (hunk_end k) ps" "separable ps qs" "k \<in> set qs"
  shows "delta_sum ps (base_start k) = 0"
proof -
  have "\<not> hunk_end h \<le> base_start k" if "h \<in> set ps" for h
    using that assms hunks_sorted_bound [OF assms(1) that]
    by (auto simp: separable_def not_conflict_iff)
  then have "filter (\<lambda>h. hunk_end h \<le> base_start k) ps = []"
    by (simp add: filter_empty_conv)
  then show ?thesis by (simp add: delta_sum_def)
qed

lemma shift_before:
  assumes "hunk_end h \<le> base_start k" "hunks_sorted (base_start k) (k # qs)" "k' \<in> set (k # qs)"
  shows "shift_hunk d (h # ps) k' = shift_hunk (d + hunk_delta h) ps k'"
proof -
  have "hunk_end h \<le> base_start k'"
    using assms hunks_sorted_bound [OF assms(2,3)] by simp
  then show ?thesis by (simp add: shift_hunk_def delta_sum_Cons algebra_simps)
qed

lemma run_interleave_before:
  assumes ps: "run pos (h # ps) b = Some r" and qs: "run pos (k # qs) b = Some s"
    and before: "hunk_end h \<le> base_start k" and d: "0 \<le> int pos + d"
    and IH: "\<And>r' s'. run (hunk_end h) ps (drop (hunk_end h - pos) b) = Some r' \<Longrightarrow>
       run (hunk_end h) (k # qs) (drop (hunk_end h - pos) b) = Some s' \<Longrightarrow>
       \<exists>u. run (hunk_end h) (interleave ps (k # qs)) (drop (hunk_end h - pos) b) = Some u \<and>
         run (nat (int (hunk_end h) + (d + hunk_delta h)))
           (map (shift_hunk (d + hunk_delta h) ps) (k # qs)) r' = Some u"
  shows "\<exists>u. run pos (interleave (h # ps) (k # qs)) b = Some u \<and>
     run (nat (int pos + d)) (map (shift_hunk d (h # ps)) (k # qs)) r = Some u"
proof -
  let ?e = "hunk_end h" and ?b = "drop (hunk_end h - pos) b"
  let ?x = "take (base_start h - pos) b @ hinsert h"
  from ps obtain r' where r': "run ?e ps ?b = Some r'" and r: "r = ?x @ r'"
    and h: "pos \<le> base_start h" "?e \<le> pos + length b"
    by (auto split: if_splits)
  have "hunks_sorted ?e (k # qs)" using run_sorted [OF qs] before by simp
  then have "run pos (k # qs) b = map_option ((@) (take (?e - pos) b)) (run ?e (k # qs) ?b)"
    using h by (intro run_split) (auto simp: hunk_end_def)
  with qs obtain s' where "run ?e (k # qs) ?b = Some s'" by (auto simp del: run.simps(2))
  from IH [OF r' this] obtain u where
    u: "run ?e (interleave ps (k # qs)) ?b = Some u"
    and v: "run (nat (int ?e + (d + hunk_delta h)))
      (map (shift_hunk (d + hunk_delta h) ps) (k # qs)) r' = Some u" by blast
  have eq: "map (shift_hunk d (h # ps)) (k # qs) = map (shift_hunk (d + hunk_delta h) ps) (k # qs)"
    using before run_sorted [OF qs] by (intro map_cong refl shift_before) auto
  have len: "nat (int pos + d) + length ?x = nat (int ?e + (d + hunk_delta h))"
    using h d by (auto simp: hunk_end_def hunk_delta_def)
  have "run (nat (int pos + d)) (map (shift_hunk d (h # ps)) (k # qs)) (?x @ r') = Some (?x @ u)"
    using run_skip [of "nat (int pos + d)" ?x "map (shift_hunk d (h # ps)) (k # qs)" r']
      run_sorted [OF v] v unfolding len eq by simp
  moreover have "run pos (interleave (h # ps) (k # qs)) b = Some (?x @ u)"
    using ps before u by (auto split: if_splits)
  ultimately show ?thesis using r by blast
qed

lemma run_interleave_after:
  assumes ps: "run pos (h # ps) b = Some r" and qs: "run pos (k # qs) b = Some s"
    and sep: "separable (h # ps) (k # qs)"
    and after: "\<not> hunk_end h \<le> base_start k" and d: "0 \<le> int pos + d"
    and IH: "\<And>r' s'. run (hunk_end k) (h # ps) (drop (hunk_end k - pos) b) = Some r' \<Longrightarrow>
       run (hunk_end k) qs (drop (hunk_end k - pos) b) = Some s' \<Longrightarrow>
       \<exists>u. run (hunk_end k) (interleave (h # ps) qs) (drop (hunk_end k - pos) b) = Some u \<and>
         run (nat (int (hunk_end k) + d)) (map (shift_hunk d (h # ps)) qs) r' = Some u"
  shows "\<exists>u. run pos (interleave (h # ps) (k # qs)) b = Some u \<and>
     run (nat (int pos + d)) (map (shift_hunk d (h # ps)) (k # qs)) r = Some u"
proof -
  let ?e = "hunk_end k" and ?b = "drop (hunk_end k - pos) b" and ?x = "take (hunk_end k - pos) b"
  from qs obtain s' where s': "run ?e qs ?b = Some s'"
    and k: "pos \<le> base_start k" "?e \<le> pos + length b"
    "take (length (hremove k)) (drop (base_start k - pos) b) = hremove k"
    by (auto split: if_splits)
  have "?e \<le> base_start h" using sep after by (auto simp: separable_def not_conflict_iff)
  then have sorted: "hunks_sorted ?e (h # ps)" using run_sorted [OF ps] by simp
  then have "run pos (h # ps) b = map_option ((@) ?x) (run ?e (h # ps) ?b)"
    using k by (intro run_split) (auto simp: hunk_end_def)
  with ps obtain r' where r': "run ?e (h # ps) ?b = Some r'" and r: "r = ?x @ r'"
    by (auto simp del: run.simps(2))
  from IH [OF r' s'] obtain u where u: "run ?e (interleave (h # ps) qs) ?b = Some u"
    and v: "run (nat (int ?e + d)) (map (shift_hunk d (h # ps)) qs) r' = Some u" by blast
  have "delta_sum (h # ps) (base_start k) = 0"
    using delta_sum_after [OF sorted sep] by simp
  then have bs: "base_start (shift_hunk d (h # ps) k) = nat (int (base_start k) + d)"
    using k d by simp
  then have he: "hunk_end (shift_hunk d (h # ps) k) = nat (int ?e + d)"
    using k d by (simp add: hunk_end_def)
  have lx: "length ?x = ?e - pos" using k(2) by (simp add: min_def) linarith
  have diffs: "nat (int (base_start k) + d) - nat (int pos + d) = base_start k - pos"
    "nat (int ?e + d) - nat (int pos + d) = ?e - pos"
    using k d by (auto simp: hunk_end_def)
  have ctx: "take (length (hremove k)) (drop (base_start k - pos) (?x @ r')) = hremove k"
    "take (base_start k - pos) (?x @ r') = take (base_start k - pos) b"
    using k lx by (auto simp: hunk_end_def drop_take min_def)
  have dr: "drop (?e - pos) (?x @ r') = r'" using lx by simp
  have "run (nat (int pos + d)) (map (shift_hunk d (h # ps)) (k # qs)) r
      = Some (take (base_start k - pos) b @ hinsert k @ u)"
    using v k d lx ctx dr
    unfolding r list.map run.simps bs he shift_hunk_simps(1,2) diffs
    by (auto simp: hunk_end_def simp del: drop_append take_append)
  moreover have "run pos (interleave (h # ps) (k # qs)) b = Some (take (base_start k - pos) b @ hinsert k @ u)"
    using k after u by auto
  ultimately show ?thesis by blast
qed

lemma run_interleave:
  "separable ps qs \<Longrightarrow> run pos ps b = Some r \<Longrightarrow> run pos qs b = Some s \<Longrightarrow> 0 \<le> int pos + d \<Longrightarrow>
   \<exists>u. run pos (interleave ps qs) b = Some u \<and>
     run (nat (int pos + d)) (map (shift_hunk d ps) qs) r = Some u"
proof (induction ps qs arbitrary: pos b r s d rule: interleave.induct)
  case (1 qs)
  then show ?case using run_sorted by (auto simp: run_shift_Nil)
next
  case (2 h ps)
  then show ?case by (auto simp del: run.simps(2))
next
  case (3 h ps k qs)
  show ?case
  proof (cases "hunk_end h \<le> base_start k")
    case True
    have "0 \<le> int (hunk_end h) + (d + hunk_delta h)"
      using "3.prems" by (auto simp: hunk_end_def hunk_delta_def split: if_splits)
    with True show ?thesis
      using "3.prems" by (intro run_interleave_before "3.IH"(1)) (auto simp: separable_def)
  next
    case False
    have "0 \<le> int (hunk_end k) + d"
      using "3.prems" by (auto simp: hunk_end_def split: if_splits)
    with False show ?thesis
      using "3.prems" by (intro run_interleave_after "3.IH"(2)) (auto simp: separable_def)
  qed
qed

section \<open>Both orders of an independent pair\<close>

lemma combine_interleave:
  assumes "patch_fits p base" "patch_fits q base" "commute p q = Independent p' q'"
  shows "\<exists>m. combine base p q' = Inr m \<and> apply_patch (from_hunks (interleave (hunks p) (hunks q))) base = Inr m"
proof -
  from assms(1,2) obtain dp dq where a: "apply_patch p base = Inr dp" "apply_patch q base = Inr dq"
    by (auto simp: apply_ok_iff [symmetric] is_ok_iff)
  from assms(3) have sep: "separable (hunks p) (hunks q)" and q': "q' = rebase_patch q p"
    by (auto simp: commute_eq split: if_splits)
  from run_interleave [OF sep, of 0 "lines base" "lines dp" "lines dq" 0] a
  obtain u where "run 0 (interleave (hunks p) (hunks q)) (lines base) = Some u"
    "run 0 (map (shift_hunk 0 (hunks p)) (hunks q)) (lines dp) = Some u"
    by (auto simp: apply_patch_run)
  then have "apply_patch (from_hunks (interleave (hunks p) (hunks q))) base = Inr (from_lines u)"
    "apply_patch q' dp = Inr (from_lines u)"
    by (simp_all add: apply_patch_run q' rebase_patch_shift)
  with a show ?thesis by (auto simp: combine_def)
qed

lemma combine_both_orders:
  assumes "patch_fits p base" "patch_fits q base" "commute p q = Independent p' q'"
  shows "\<exists>m. combine base p q' = Inr m \<and> combine base q p' = Inr m \<and>
     apply_patch (from_hunks (interleave (hunks p) (hunks q))) base = Inr m"
proof -
  have "commute q p = Independent q' p'" using assms(3) commute_swap [of q p] by simp
  moreover have "interleave (hunks q) (hunks p) = interleave (hunks p) (hunks q)"
    using assms(3) interleave_commute by (metis commutation.distinct(1) commute_eq)
  ultimately show ?thesis
    using combine_interleave [OF assms] combine_interleave [OF assms(2,1)] by force
qed

section \<open>Properties\<close>

text \<open>C3: Commutation soundness (I5, with I10 for disjoint supports): two patches that apply to the
base and that \<open>commute\<close> judges independent give the same document in both application orders,
and that document is what one patch with the hunks of both, in order, produces.\<close>

theorem commute_sound:
  assumes "apply_patch p base = Inr l" "apply_patch q base = Inr r"
    and "commute p q = Independent p' q'"
  shows "\<exists>m. combine base p q' = Inr m \<and> combine base q p' = Inr m \<and>
     apply_patch q' l = Inr m \<and> apply_patch p' r = Inr m \<and>
     apply_patch (from_hunks (interleave (hunks p) (hunks q))) base = Inr m"
proof -
  have "patch_fits p base" "patch_fits q base"
    using assms(1,2) by (simp_all add: apply_ok_iff [symmetric])
  from combine_both_orders [OF this assms(3)] show ?thesis
    using assms(1,2) by (auto simp: combine_def)
qed

definition ex_base :: doc where "ex_base = from_lines [''a'', ''b'', ''c'']"
definition ex_p :: patch where
  "ex_p = from_hunks [\<lparr>base_start = 0, hremove = [''a''], hinsert = [''x'', ''y'']\<rparr>]"
definition ex_q :: patch where
  "ex_q = from_hunks [\<lparr>base_start = 2, hremove = [''c''], hinsert = []\<rparr>]"

lemma commute_sound_witness:
  "\<exists>m. combine ex_base ex_p (rebase_patch ex_q ex_p) = Inr m \<and>
       combine ex_base ex_q (rebase_patch ex_p ex_q) = Inr m \<and> m = from_lines [''x'', ''y'', ''b'']"
proof -
  have "apply_patch ex_p ex_base = Inr (from_lines [''x'', ''y'', ''b'', ''c''])"
    "apply_patch ex_q ex_base = Inr (from_lines [''a'', ''b''])"
    "commute ex_p ex_q = Independent (rebase_patch ex_p ex_q) (rebase_patch ex_q ex_p)"
    by (simp_all add: apply_patch_def ex_p_def ex_q_def ex_base_def slice_of_def commute_def
        hunks_conflict_def Let_def)
  from commute_sound [OF this] obtain m where m:
    "combine ex_base ex_p (rebase_patch ex_q ex_p) = Inr m"
    "combine ex_base ex_q (rebase_patch ex_p ex_q) = Inr m"
    "apply_patch (from_hunks (interleave (hunks ex_p) (hunks ex_q))) ex_base = Inr m" by blast
  from m(3) have "m = from_lines [''x'', ''y'', ''b'']"
    by (simp add: apply_patch_def ex_p_def ex_q_def ex_base_def slice_of_def Let_def hunk_end_def)
  with m show ?thesis by blast
qed

text \<open>The checker is symmetric, and it reports an overlap exactly when some hunk of one patch is
neither strictly before nor strictly after some hunk of the other.\<close>

theorem commute_overlap_iff:
  "(commute p q = Overlap \<longleftrightarrow>
      (\<exists>h k. h \<in> set (hunks p) \<and> k \<in> set (hunks q) \<and>
         (hunk_end h \<le> base_start k \<longleftrightarrow> hunk_end k \<le> base_start h))) \<and>
   commute q p = (case commute p q of Independent p' q' \<Rightarrow> Independent q' p' | Overlap \<Rightarrow> Overlap)"
  using not_conflict_iff by (auto simp: commute_swap [of q p]) (auto simp: commute_eq separable_def split: if_split_asm)

end
