(* ===== verification/Merge3.thy ===== *)
theory Merge3
  imports Patch
begin

text \<open>
  The three-way line merge, \<open>merge.rs\<close>. The loop of \<open>merge3\<close> is modelled with its cursors; a
  slice out of range, which panics in Rust, is \<open>None\<close>. The lemmas show that no slice is out of
  range, that the result is the region-wise emission of a decomposition of the three inputs
  (I8), the symmetry in the two sides and the take-one-side identities.
\<close>

section \<open>Data\<close>

definition CONFLICT_START :: line where "CONFLICT_START = ''<<<<<<< left''"
definition CONFLICT_SEP :: line where "CONFLICT_SEP = ''=======''"
definition CONFLICT_END :: line where "CONFLICT_END = ''>>>>>>> right''"

record conflict =
  cbase :: "line list"
  cleft :: "line list"
  cright :: "line list"

record merge =
  merged :: doc
  conflicts :: "conflict list"

definition is_clean :: "merge \<Rightarrow> bool" where
  "is_clean m \<longleftrightarrow> conflicts m = []"

section \<open>The merge loop\<close>

type_synonym merge_acc = "line list \<times> conflict list"

definition emit_region :: "line list \<Rightarrow> line list \<Rightarrow> line list \<Rightarrow> merge_acc \<Rightarrow> merge_acc" where
  "emit_region o' lft rgt acc =
     (case acc of (m, cs) \<Rightarrow>
        if lft = o' then (m @ rgt, cs)
        else if rgt = o' \<or> lft = rgt then (m @ lft, cs)
        else (m @ [CONFLICT_START] @ lft @ [CONFLICT_SEP] @ rgt @ [CONFLICT_END],
              cs @ [\<lparr>cbase = o', cleft = lft, cright = rgt\<rparr>]))"

definition match_table :: "nat \<Rightarrow> (nat \<times> nat) list \<Rightarrow> nat option list" where
  "match_table n ms = fold (\<lambda>(o', a) t. t[o' := Some a]) ms (replicate n None)"

function stable_run ::
  "line list \<Rightarrow> nat option list \<Rightarrow> nat option list \<Rightarrow> nat \<Rightarrow> nat \<Rightarrow> nat \<Rightarrow> line list \<Rightarrow>
   nat \<times> nat \<times> nat \<times> line list" where
  "stable_run b la lb i a bx m =
     (if i < length b \<and> la ! i = Some a \<and> lb ! i = Some bx
      then stable_run b la lb (i + 1) (a + 1) (bx + 1) (m @ [b ! i])
      else (i, a, bx, m))"
  by pat_completeness auto
termination by (relation "measure (\<lambda>(b, la, lb, i, a, bx, m). length b - i)") auto

function find_anchor :: "nat \<Rightarrow> nat option list \<Rightarrow> nat option list \<Rightarrow> nat \<Rightarrow> nat" where
  "find_anchor n la lb j =
     (if j < n \<and> \<not> (la ! j \<noteq> None \<and> lb ! j \<noteq> None) then find_anchor n la lb (j + 1) else j)"
  by pat_completeness auto
termination by (relation "measure (\<lambda>(n, la, lb, j). n - j)") auto

declare stable_run.simps [simp del] find_anchor.simps [simp del]

definition anchor_ends ::
  "nat \<Rightarrow> line list \<Rightarrow> line list \<Rightarrow> nat option list \<Rightarrow> nat option list \<Rightarrow> nat \<Rightarrow> nat \<Rightarrow> nat \<Rightarrow> nat \<times> nat" where
  "anchor_ends n l r la lb j a bx =
     (if j < n then (case la ! j of Some x \<Rightarrow> x | None \<Rightarrow> a, case lb ! j of Some y \<Rightarrow> y | None \<Rightarrow> bx)
      else (length l, length r))"

lemma stable_run_le: "stable_run b la lb i a bx m = (i', a', bx', m') \<Longrightarrow> i \<le> i' \<and> (i \<le> length b \<longrightarrow> i' \<le> length b)"
proof (induction b la lb i a bx m rule: stable_run.induct)
  case (1 b la lb i a bx m)
  show ?case
  proof (cases "i < length b \<and> la ! i = Some a \<and> lb ! i = Some bx")
    case True
    then have "stable_run b la lb (i + 1) (a + 1) (bx + 1) (m @ [b ! i]) = (i', a', bx', m')"
      using "1.prems" by (subst (asm) stable_run.simps) simp
    from "1.IH" [OF True this] True show ?thesis by simp
  next
    case False
    then show ?thesis using "1.prems" by (subst (asm) stable_run.simps) auto
  qed
qed

lemma stable_run_moves:
  "stable_run b la lb i a bx m = (i', a', bx', m') \<Longrightarrow>
   i < length b \<Longrightarrow> la ! i = Some a \<Longrightarrow> lb ! i = Some bx \<Longrightarrow> i < i'"
  by (subst (asm) stable_run.simps) (auto dest: stable_run_le)

lemma find_anchor_le: "j \<le> find_anchor n la lb j \<and> (j \<le> n \<longrightarrow> find_anchor n la lb j \<le> n)"
proof (induction n la lb j rule: find_anchor.induct)
  case (1 n la lb j)
  then show ?case by (subst (1 2) find_anchor.simps) auto
qed

lemma find_anchor_stop:
  "find_anchor n la lb j < n \<Longrightarrow>
   la ! (find_anchor n la lb j) \<noteq> None \<and> lb ! (find_anchor n la lb j) \<noteq> None"
proof (induction n la lb j rule: find_anchor.induct)
  case (1 n la lb j)
  show ?case
  proof (cases "j < n \<and> \<not> (la ! j \<noteq> None \<and> lb ! j \<noteq> None)")
    case True
    then have "find_anchor n la lb j = find_anchor n la lb (j + 1)"
      by (subst find_anchor.simps) simp
    then show ?thesis using "1.IH" [OF True] "1.prems" by simp
  next
    case False
    then have "find_anchor n la lb j = j" by (subst find_anchor.simps) auto
    then show ?thesis using False "1.prems" by auto
  qed
qed

definition loop_size :: "line list \<Rightarrow> nat option list \<Rightarrow> nat option list \<Rightarrow> nat \<Rightarrow> nat \<Rightarrow> nat \<Rightarrow> nat" where
  "loop_size b la lb i a bx =
     2 * (length b - i) + (if i < length b \<and> \<not> (la ! i = Some a \<and> lb ! i = Some bx) then 1 else 0)"

lemma loop_size_step:
  assumes "stable_run b la lb i a bx m = (i', a', bx', m')" "i' < length b"
    and "anchor_ends (length b) l r la lb (find_anchor (length b) la lb i') a' bx' = (a2, b2)"
  shows "loop_size b la lb (find_anchor (length b) la lb i') a2 b2 < loop_size b la lb i a bx"
proof -
  let ?j = "find_anchor (length b) la lb i'"
  have j: "i' \<le> ?j" "?j \<le> length b" using find_anchor_le assms(2) by (auto simp: less_imp_le)
  have i: "i \<le> i'" using stable_run_le [OF assms(1)] by simp
  have m: "?j < length b \<longrightarrow> la ! ?j = Some a2 \<and> lb ! ?j = Some b2"
    using assms(3) find_anchor_stop [of "length b" la lb i'] by (auto simp: anchor_ends_def)
  show ?thesis
  proof (cases "la ! i = Some a \<and> lb ! i = Some bx")
    case True
    then have "i < i'" using stable_run_moves [OF assms(1)] i assms(2) by auto
    then show ?thesis using j m assms(2) by (auto simp: loop_size_def)
  next
    case False
    then show ?thesis using i j m assms(2) by (auto simp: loop_size_def)
  qed
qed

function merge_loop ::
  "line list \<Rightarrow> line list \<Rightarrow> line list \<Rightarrow> nat option list \<Rightarrow> nat option list \<Rightarrow>
   nat \<Rightarrow> nat \<Rightarrow> nat \<Rightarrow> merge_acc \<Rightarrow> merge_acc option" where
  "merge_loop b l r la lb i a bx acc =
     (let (i', a', bx', m') = stable_run b la lb i a bx (fst acc); acc' = (m', snd acc) in
      if length b \<le> i' then
        (case (get_range a' (length l) l, get_range bx' (length r) r) of
           (Some lft, Some rgt) \<Rightarrow> Some (emit_region [] lft rgt acc')
         | _ \<Rightarrow> None)
      else
        let j = find_anchor (length b) la lb i';
            (a2, b2) = anchor_ends (length b) l r la lb j a' bx' in
        (case (get_range i' j b, get_range a' a2 l, get_range bx' b2 r) of
           (Some o', Some lft, Some rgt) \<Rightarrow>
             merge_loop b l r la lb j a2 b2 (emit_region o' lft rgt acc')
         | _ \<Rightarrow> None))"
  by pat_completeness auto
termination
  by (relation "measure (\<lambda>(b, l, r, la, lb, i, a, bx, acc). loop_size b la lb i a bx)")
     (auto simp: Let_def not_le intro: loop_size_step [OF sym _ sym])

declare merge_loop.simps [simp del]

definition merge3_run :: "doc \<Rightarrow> doc \<Rightarrow> doc \<Rightarrow> merge option" where
  "merge3_run base left right =
     (let b = lines base; l = lines left; r = lines right;
          la = match_table (length b) (lcs_matches b l);
          lb = match_table (length b) (lcs_matches b r) in
      map_option (\<lambda>(m, cs). \<lparr>merged = from_lines m, conflicts = cs\<rparr>)
        (merge_loop b l r la lb 0 0 0 ([], [])))"

text \<open>\<open>merge3_run\<close> never panics (\<open>merge3_run_eq\<close> below), so callers use its value.\<close>

definition merge3 :: "doc \<Rightarrow> doc \<Rightarrow> doc \<Rightarrow> merge" where
  "merge3 base left right = the (merge3_run base left right)"

section \<open>Regions\<close>

text \<open>
  The decomposition that the loop walks through: each region holds the slices of the base, the
  left and the right document between two cursors.
\<close>

record region =
  rbase :: "line list"
  rleft :: "line list"
  rright :: "line list"

definition emit :: "merge_acc \<Rightarrow> region \<Rightarrow> merge_acc" where
  "emit acc g = emit_region (rbase g) (rleft g) (rright g) acc"

definition region_text :: "region \<Rightarrow> line list" where
  "region_text g =
     (if rleft g = rbase g then rright g
      else if rright g = rbase g \<or> rleft g = rright g then rleft g
      else [CONFLICT_START] @ rleft g @ [CONFLICT_SEP] @ rright g @ [CONFLICT_END])"

definition region_conflict :: "region \<Rightarrow> conflict list" where
  "region_conflict g =
     (if rleft g = rbase g \<or> rright g = rbase g \<or> rleft g = rright g then []
      else [\<lparr>cbase = rbase g, cleft = rleft g, cright = rright g\<rparr>])"

lemma emit_eq: "emit (m, cs) g = (m @ region_text g, cs @ region_conflict g)"
  by (simp add: emit_def emit_region_def region_text_def region_conflict_def)

lemma foldl_emit:
  "foldl emit (m, cs) gs = (m @ concat (map region_text gs), cs @ concat (map region_conflict gs))"
  by (induction gs arbitrary: m cs) (auto simp: emit_eq)

definition table_ok :: "line list \<Rightarrow> line list \<Rightarrow> nat option list \<Rightarrow> bool" where
  "table_ok b l la \<longleftrightarrow> length la = length b \<and>
     (\<forall>k<length b. \<forall>x. la ! k = Some x \<longrightarrow> x < length l \<and> b ! k = l ! x) \<and>
     (\<forall>k<length b. \<forall>k'<length b. \<forall>x y. k < k' \<longrightarrow> la ! k = Some x \<longrightarrow> la ! k' = Some y \<longrightarrow> x < y)"

definition cursor_ok :: "line list \<Rightarrow> line list \<Rightarrow> nat option list \<Rightarrow> nat \<Rightarrow> nat \<Rightarrow> bool" where
  "cursor_ok b l la i a \<longleftrightarrow> i \<le> length b \<and> a \<le> length l \<and>
     (\<forall>k<length b. \<forall>x. i \<le> k \<longrightarrow> la ! k = Some x \<longrightarrow> a \<le> x)"

lemma table_ok_nth:
  "table_ok b l la \<Longrightarrow> k < length b \<Longrightarrow> la ! k = Some x \<Longrightarrow> x < length l \<and> b ! k = l ! x"
  unfolding table_ok_def by blast

lemma table_ok_less:
  "table_ok b l la \<Longrightarrow> k' < length b \<Longrightarrow> k < k' \<Longrightarrow> la ! k = Some x \<Longrightarrow> la ! k' = Some y \<Longrightarrow> x < y"
  unfolding table_ok_def using less_trans by blast

lemma cursor_ok_le:
  "cursor_ok b l la i a \<Longrightarrow> i \<le> k \<Longrightarrow> k < length b \<Longrightarrow> la ! k = Some x \<Longrightarrow> a \<le> x"
  unfolding cursor_ok_def by blast

lemma match_table_aux:
  assumes "alignment b l i j ms" "length t = length b" "\<forall>k x. i \<le> k \<and> k < length b \<longrightarrow> t ! k = None"
    and "table_ok b l t" "\<forall>k<length b. \<forall>x. t ! k = Some x \<longrightarrow> x < j"
  shows "table_ok b l (fold (\<lambda>(o', a) t. t[o' := Some a]) ms t)"
  using assms
proof (induction ms arbitrary: i j t)
  case Nil
  then show ?case by simp
next
  case (Cons m ms)
  obtain x y where m: "m = (x, y)" by (cases m)
  have xy: "i \<le> x" "j \<le> y" "x < length b" "y < length l" "b ! x = l ! y"
    and al: "alignment b l (x + 1) (y + 1) ms"
    using Cons.prems(1) m by auto
  let ?t = "t[x := Some y]"
  have "table_ok b l ?t"
    unfolding table_ok_def
  proof (intro conjI allI impI)
    show "length ?t = length b" using Cons.prems(2) by simp
  next
    fix k z assume k: "k < length b" "?t ! k = Some z"
    have "z < length l \<and> b ! k = l ! z"
    proof (cases "k = x")
      case True
      then show ?thesis using k Cons.prems(2) xy by simp
    next
      case False
      then have "t ! k = Some z" using k by simp
      then show ?thesis using Cons.prems(4) k unfolding table_ok_def by blast
    qed
    then show "z < length l" "b ! k = l ! z" by blast+
  next
    fix k k' z z' assume k: "k < length b" "k' < length b" "k < k'" "?t ! k = Some z" "?t ! k' = Some z'"
    have "k' \<le> x"
    proof (rule ccontr)
      assume "\<not> k' \<le> x"
      then have "t ! k' = None" using Cons.prems(3) xy k by simp
      then show False using k \<open>\<not> k' \<le> x\<close> by simp
    qed
    then have z: "t ! k = Some z" using k by simp
    show "z < z'"
    proof (cases "k' = x")
      case True
      then have "z' = y" using k Cons.prems(2) by simp
      moreover have "z < j" using Cons.prems(5) z k by blast
      ultimately show ?thesis using xy by simp
    next
      case False
      then have "t ! k' = Some z'" using k by simp
      then show ?thesis using Cons.prems(4) z k unfolding table_ok_def by blast
    qed
  qed
  moreover have "\<forall>k<length b. \<forall>z. ?t ! k = Some z \<longrightarrow> z < y + 1"
    using Cons.prems(2,5) xy by (auto simp: nth_list_update split: if_splits)
  ultimately show ?case
    using Cons.IH [OF al, of ?t] Cons.prems(2,3) xy m by (auto simp: nth_list_update)
qed

lemma match_table_ok: "table_ok b l (match_table (length b) (lcs_matches b l))"
  unfolding match_table_def
  by (rule match_table_aux [OF lcs_matches_alignment]) (auto simp: table_ok_def)

lemma cursor_ok_0: "cursor_ok b l la 0 0"
  by (simp add: cursor_ok_def)

lemma cursor_ok_step:
  assumes "table_ok b l la" "i < length b" "la ! i = Some a"
  shows "cursor_ok b l la (i + 1) (a + 1)"
proof -
  have "a + 1 \<le> x" if "k < length b" "i + 1 \<le> k" "la ! k = Some x" for k x
    using table_ok_less [OF assms(1) that(1) _ assms(3) that(3)] that(2) by simp
  then show ?thesis
    using table_ok_nth [OF assms] assms(2) unfolding cursor_ok_def by auto
qed

lemma cursor_ok_jump:
  assumes "table_ok b l la" "cursor_ok b l la i a" "i \<le> j" "j \<le> length b"
    and "j < length b \<longrightarrow> la ! j = Some a2" "j = length b \<longrightarrow> a2 = length l"
  shows "cursor_ok b l la j a2 \<and> a \<le> a2 \<and> a2 \<le> length l"
proof (cases "j = length b")
  case True
  then show ?thesis using assms by (auto simp: cursor_ok_def)
next
  case False
  then have j: "j < length b" "la ! j = Some a2" using assms by auto
  then have "a2 < length l" "a \<le> a2"
    using table_ok_nth [OF assms(1)] cursor_ok_le [OF assms(2,3)] by blast+
  moreover have "a2 \<le> x" if "k < length b" "j \<le> k" "la ! k = Some x" for k x
    using table_ok_less [OF assms(1) that(1) _ j(2) that(3)] that j by (cases "j = k") auto
  ultimately show ?thesis using assms(4) unfolding cursor_ok_def by auto
qed

lemma stable_run_spec:
  assumes "table_ok b l la" "table_ok b r lb" "cursor_ok b l la i a" "cursor_ok b r lb i bx"
    and "stable_run b la lb i a bx m = (i', a', bx', m')"
  shows "\<exists>n. i' = i + n \<and> a' = a + n \<and> bx' = bx + n \<and> m' = m @ slice_of i i' b \<and>
     slice_of a a' l = slice_of i i' b \<and> slice_of bx bx' r = slice_of i i' b \<and>
     cursor_ok b l la i' a' \<and> cursor_ok b r lb i' bx'"
  using assms
proof (induction b la lb i a bx m rule: stable_run.induct)
  case (1 b la lb i a bx m)
  show ?case
  proof (cases "i < length b \<and> la ! i = Some a \<and> lb ! i = Some bx")
    case True
    then have run: "stable_run b la lb (i + 1) (a + 1) (bx + 1) (m @ [b ! i]) = (i', a', bx', m')"
      using "1.prems" by (subst (asm) stable_run.simps) simp
    have eqs: "b ! i = l ! a" "b ! i = r ! bx" "a < length l" "bx < length r"
      using True table_ok_nth [OF "1.prems"(1), of i a] table_ok_nth [OF "1.prems"(2), of i bx] by simp_all
    have "cursor_ok b l la (i + 1) (a + 1)" "cursor_ok b r lb (i + 1) (bx + 1)"
      using cursor_ok_step "1.prems"(1,2) True by blast+
    from "1.IH" [OF True "1.prems"(1,2) this run] obtain n where n:
      "i' = i + 1 + n" "a' = a + 1 + n" "bx' = bx + 1 + n" "m' = (m @ [b ! i]) @ slice_of (i + 1) i' b"
      "slice_of (a + 1) a' l = slice_of (i + 1) i' b" "slice_of (bx + 1) bx' r = slice_of (i + 1) i' b"
      "cursor_ok b l la i' a'" "cursor_ok b r lb i' bx'" by blast
    then show ?thesis
      using True eqs by (intro exI [of _ "n + 1"]) (simp add: slice_of_Suc)
  next
    case False
    then show ?thesis using "1.prems" by (subst (asm) stable_run.simps) auto
  qed
qed

function merge_regions ::
  "line list \<Rightarrow> line list \<Rightarrow> line list \<Rightarrow> nat option list \<Rightarrow> nat option list \<Rightarrow>
   nat \<Rightarrow> nat \<Rightarrow> nat \<Rightarrow> region list" where
  "merge_regions b l r la lb i a bx =
     (let (i', a', bx', m') = stable_run b la lb i a bx []; s = slice_of i i' b in
      \<lparr>rbase = s, rleft = s, rright = s\<rparr> #
      (if length b \<le> i' then [\<lparr>rbase = [], rleft = drop a' l, rright = drop bx' r\<rparr>]
       else
         let j = find_anchor (length b) la lb i';
             (a2, b2) = anchor_ends (length b) l r la lb j a' bx' in
         \<lparr>rbase = slice_of i' j b, rleft = slice_of a' a2 l, rright = slice_of bx' b2 r\<rparr> #
         merge_regions b l r la lb j a2 b2))"
  by pat_completeness auto
termination
  by (relation "measure (\<lambda>(b, l, r, la, lb, i, a, bx). loop_size b la lb i a bx)")
     (auto simp: not_le split: prod.splits intro: loop_size_step [OF sym _ sym] dest: sym)

declare merge_regions.simps [simp del]

lemma stable_run_cursors:
  "stable_run b la lb i a bx m = (i', a', bx', m') \<Longrightarrow>
   \<exists>n'. stable_run b la lb i a bx n = (i', a', bx', n')"
proof (induction b la lb i a bx m arbitrary: n rule: stable_run.induct)
  case (1 b la lb i a bx m)
  show ?case
  proof (cases "i < length b \<and> la ! i = Some a \<and> lb ! i = Some bx")
    case True
    then have "stable_run b la lb (i + 1) (a + 1) (bx + 1) (m @ [b ! i]) = (i', a', bx', m')"
      using "1.prems" by (subst (asm) stable_run.simps) simp
    from "1.IH" [OF True this, of "n @ [b ! i]"] True show ?thesis
      by (subst stable_run.simps) simp
  next
    case False
    then show ?thesis using "1.prems" by (subst stable_run.simps, subst (asm) stable_run.simps) auto
  qed
qed

lemma get_range_ok: "i \<le> j \<Longrightarrow> j \<le> length xs \<Longrightarrow> get_range i j xs = Some (slice_of i j xs)"
  by (simp add: get_range_def)

lemma merge_loop_regions:
  assumes "table_ok b l la" "table_ok b r lb" "cursor_ok b l la i a" "cursor_ok b r lb i bx"
  shows "merge_loop b l r la lb i a bx acc = Some (foldl emit acc (merge_regions b l r la lb i a bx)) \<and>
     concat (map rbase (merge_regions b l r la lb i a bx)) = drop i b \<and>
     concat (map rleft (merge_regions b l r la lb i a bx)) = drop a l \<and>
     concat (map rright (merge_regions b l r la lb i a bx)) = drop bx r"
  using assms(3,4)
proof (induction "loop_size b la lb i a bx" arbitrary: i a bx acc rule: less_induct)
  case less
  obtain i' a' bx' m' where run: "stable_run b la lb i a bx (fst acc) = (i', a', bx', m')"
    by (metis prod_cases4)
  then obtain n' where run0: "stable_run b la lb i a bx [] = (i', a', bx', n')"
    using stable_run_cursors by blast
  let ?s = "slice_of i i' b"
  from stable_run_spec [OF assms(1,2) less.prems run]
  have le: "i \<le> i'" "a \<le> a'" "bx \<le> bx'" and m': "m' = fst acc @ ?s"
    and sl: "slice_of a a' l = ?s" "slice_of bx bx' r = ?s"
    and ok: "cursor_ok b l la i' a'" "cursor_ok b r lb i' bx'" by auto
  have bounds: "i' \<le> length b" "a' \<le> length l" "bx' \<le> length r"
    using ok by (auto simp: cursor_ok_def)
  have d: "drop i b = ?s @ drop i' b" "drop a l = ?s @ drop a' l" "drop bx r = ?s @ drop bx' r"
    using slice_of_append_drop [OF le(1), of b] slice_of_append_drop [OF le(2), of l]
      slice_of_append_drop [OF le(3), of r] sl by simp_all
  have e: "emit acc \<lparr>rbase = ?s, rleft = ?s, rright = ?s\<rparr> = (m', snd acc)"
    by (cases acc) (simp add: emit_eq region_text_def region_conflict_def m')
  show ?case
  proof (cases "length b \<le> i'")
    case True
    let ?g = "\<lparr>rbase = [], rleft = drop a' l, rright = drop bx' r\<rparr>"
    have R: "merge_regions b l r la lb i a bx = [\<lparr>rbase = ?s, rleft = ?s, rright = ?s\<rparr>, ?g]"
      using True by (subst merge_regions.simps) (simp add: run0 Let_def)
    have L: "merge_loop b l r la lb i a bx acc = Some (emit (m', snd acc) ?g)"
      using True bounds
      by (subst merge_loop.simps) (simp add: run get_range_ok slice_of_to_end emit_def)
    have "drop i' b = []" using True by simp
    then show ?thesis using d unfolding R L by (simp add: e)
  next
    case False
    define j where "j = find_anchor (length b) la lb i'"
    obtain a2 b2 where ab: "anchor_ends (length b) l r la lb j a' bx' = (a2, b2)" by fastforce
    have j: "i' \<le> j" "j \<le> length b" using find_anchor_le bounds unfolding j_def by blast+
    have sz: "loop_size b la lb j a2 b2 < loop_size b la lb i a bx"
      using loop_size_step [OF run] False ab by (simp add: j_def)
    have anch: "j < length b \<longrightarrow> la ! j = Some a2 \<and> lb ! j = Some b2"
      "j = length b \<longrightarrow> a2 = length l \<and> b2 = length r"
      using ab find_anchor_stop [of "length b" la lb i'] by (auto simp: anchor_ends_def j_def)
    have ok2: "cursor_ok b l la j a2" "a' \<le> a2" "a2 \<le> length l"
      "cursor_ok b r lb j b2" "bx' \<le> b2" "b2 \<le> length r"
      using cursor_ok_jump [OF assms(1) ok(1) j, of a2] cursor_ok_jump [OF assms(2) ok(2) j, of b2] anch
      by auto
    have d2: "drop i' b = slice_of i' j b @ drop j b" "drop a' l = slice_of a' a2 l @ drop a2 l"
      "drop bx' r = slice_of bx' b2 r @ drop b2 r"
      using slice_of_append_drop [OF j(1), of b] slice_of_append_drop [OF ok2(2), of l]
        slice_of_append_drop [OF ok2(5), of r] by simp_all
    let ?g = "\<lparr>rbase = slice_of i' j b, rleft = slice_of a' a2 l, rright = slice_of bx' b2 r\<rparr>"
    note IH = less.hyps [OF sz ok2(1,4), of "emit (m', snd acc) ?g"]
    have R: "merge_regions b l r la lb i a bx
        = \<lparr>rbase = ?s, rleft = ?s, rright = ?s\<rparr> # ?g # merge_regions b l r la lb j a2 b2"
      using False ab by (subst merge_regions.simps) (simp add: run0 Let_def j_def)
    have L: "merge_loop b l r la lb i a bx acc = merge_loop b l r la lb j a2 b2 (emit (m', snd acc) ?g)"
      using False ab j ok2
      by (subst merge_loop.simps) (simp add: run get_range_ok Let_def j_def [symmetric] emit_def)
    show ?thesis using IH d d2 unfolding R L by (simp add: e)
  qed
qed

section \<open>Symmetry and identities\<close>

definition swap_region :: "region \<Rightarrow> region" where
  "swap_region g = \<lparr>rbase = rbase g, rleft = rright g, rright = rleft g\<rparr>"

definition swap_conflict :: "conflict \<Rightarrow> conflict" where
  "swap_conflict c = \<lparr>cbase = cbase c, cleft = cright c, cright = cleft c\<rparr>"

lemma find_anchor_swap: "find_anchor n lb la j = find_anchor n la lb j"
proof (induction n la lb j rule: find_anchor.induct)
  case (1 n la lb j)
  then show ?case by (subst (1 2) find_anchor.simps) auto
qed

lemma anchor_ends_swap:
  "anchor_ends n r l lb la j bx a = (case anchor_ends n l r la lb j a bx of (x, y) \<Rightarrow> (y, x))"
  by (simp add: anchor_ends_def)

lemma stable_run_swap:
  "stable_run b lb la i bx a m = (case stable_run b la lb i a bx m of (i', a', bx', m') \<Rightarrow> (i', bx', a', m'))"
proof (induction b la lb i a bx m rule: stable_run.induct)
  case (1 b la lb i a bx m)
  show ?case
  proof (cases "i < length b \<and> la ! i = Some a \<and> lb ! i = Some bx")
    case True
    then show ?thesis using "1.IH" [OF True] by (subst (1 2) stable_run.simps) simp
  next
    case False
    then show ?thesis by (subst (1 2) stable_run.simps) auto
  qed
qed

text \<open>One unfolding of the decomposition, with the cursors of the iteration named.\<close>

lemma merge_regions_unfold:
  assumes "stable_run b la lb i a bx [] = (i', a', bx', m')"
    and "j = find_anchor (length b) la lb i'"
    and "anchor_ends (length b) l r la lb j a' bx' = (a2, b2)"
  shows "merge_regions b l r la lb i a bx =
     \<lparr>rbase = slice_of i i' b, rleft = slice_of i i' b, rright = slice_of i i' b\<rparr> #
     (if length b \<le> i' then [\<lparr>rbase = [], rleft = drop a' l, rright = drop bx' r\<rparr>]
      else \<lparr>rbase = slice_of i' j b, rleft = slice_of a' a2 l, rright = slice_of bx' b2 r\<rparr> #
           merge_regions b l r la lb j a2 b2)"
  using assms(1,3) unfolding assms(2)
  by (subst merge_regions.simps) (simp add: Let_def)

lemma merge_regions_swap:
  "merge_regions b r l lb la i bx a = map swap_region (merge_regions b l r la lb i a bx)"
proof (induction b l r la lb i a bx rule: merge_regions.induct)
  case (1 b l r la lb i a bx)
  obtain i' a' bx' m' where run: "stable_run b la lb i a bx [] = (i', a', bx', m')"
    by (metis prod_cases4)
  define j where "j = find_anchor (length b) la lb i'"
  obtain a2 b2 where ab: "anchor_ends (length b) l r la lb j a' bx' = (a2, b2)" by fastforce
  have IH: "merge_regions b r l lb la j b2 a2 = map swap_region (merge_regions b l r la lb j a2 b2)"
    if "\<not> length b \<le> i'"
    using 1 [OF run [symmetric] refl refl refl refl that j_def ab [symmetric] refl] by simp
  have run': "stable_run b lb la i bx a [] = (i', bx', a', m')"
    using run stable_run_swap [of b lb la i bx a "[]"] by simp
  have j': "j = find_anchor (length b) lb la i'" by (simp add: j_def find_anchor_swap)
  have ab': "anchor_ends (length b) r l lb la j bx' a' = (b2, a2)"
    using ab anchor_ends_swap [of "length b" r l lb la j bx' a'] by simp
  show ?case
    using merge_regions_unfold [OF run j_def ab] merge_regions_unfold [OF run' j' ab'] IH
    by (simp add: swap_region_def)
qed

lemma merge_regions_same:
  "g \<in> set (merge_regions b l l la la i a a) \<Longrightarrow> rleft g = rright g"
proof (induction "loop_size b la la i a a" arbitrary: i a rule: less_induct)
  case less
  obtain i' a' bx' m' where run: "stable_run b la la i a a [] = (i', a', bx', m')"
    by (metis prod_cases4)
  have eq: "bx' = a'" using stable_run_swap [of b la la i a a "[]"]
    unfolding run prod.case prod.inject by blast
  define j where "j = find_anchor (length b) la la i'"
  obtain a2 b2 where ab: "anchor_ends (length b) l l la la j a' bx' = (a2, b2)" by fastforce
  have eq2: "b2 = a2" using ab eq by (auto simp: anchor_ends_def split: if_splits)
  have sz: "\<not> length b \<le> i' \<Longrightarrow> loop_size b la la j a2 a2 < loop_size b la la i a a"
    using loop_size_step [OF run] ab eq2 by (simp add: j_def)
  from less.prems have "(g = \<lparr>rbase = slice_of i i' b, rleft = slice_of i i' b, rright = slice_of i i' b\<rparr> \<or>
      g = \<lparr>rbase = [], rleft = drop a' l, rright = drop a' l\<rparr> \<or>
      g = \<lparr>rbase = slice_of i' j b, rleft = slice_of a' a2 l, rright = slice_of a' a2 l\<rparr>) \<or>
      \<not> length b \<le> i' \<and> g \<in> set (merge_regions b l l la la j a2 a2)"
    unfolding merge_regions_unfold [OF run j_def ab] eq eq2 by (simp split: if_split_asm) blast+
  then show ?case using less.hyps [OF sz] by (elim disjE conjE) simp_all
qed

text \<open>With the right document equal to the base the right cursor stays on the base cursor.\<close>

lemma stable_run_identity:
  "stable_run b la (map Some [0..<length b]) i a i m = (i', a', bx', m') \<Longrightarrow> bx' = i'"
proof (induction "length b - i" arbitrary: i a m)
  case 0
  then show ?case by (subst (asm) stable_run.simps) auto
next
  case (Suc n)
  then have n: "n = length b - (i + 1)" by simp
  show ?case
    using Suc.hyps(1) [OF n] Suc.prems by (subst (asm) (2) stable_run.simps) (auto split: if_splits)
qed

lemma merge_regions_base:
  assumes "lb = map Some [0..<length b]"
  shows "i \<le> length b \<Longrightarrow> g \<in> set (merge_regions b l b la lb i a i) \<Longrightarrow> rright g = rbase g"
proof (induction "loop_size b la lb i a i" arbitrary: i a rule: less_induct)
  case less
  obtain i' a' bx' m' where run: "stable_run b la lb i a i [] = (i', a', bx', m')"
    by (metis prod_cases4)
  have eq: "bx' = i'" using run stable_run_identity assms by blast
  define j where "j = find_anchor (length b) la lb i'"
  obtain a2 b2 where ab: "anchor_ends (length b) l b la lb j a' bx' = (a2, b2)" by fastforce
  have jb: "i' \<le> length b \<Longrightarrow> j \<le> length b" using find_anchor_le unfolding j_def by blast
  have eq2: "\<not> length b \<le> i' \<Longrightarrow> b2 = j"
    using ab jb assms by (auto simp: anchor_ends_def split: if_splits)
  have sz: "\<not> length b \<le> i' \<Longrightarrow> loop_size b la lb j a2 j < loop_size b la lb i a i"
    using loop_size_step [OF run] ab eq2 by (simp add: j_def)
  show ?case
  proof (cases "length b \<le> i'")
    case True
    then have "drop i' b = []" by simp
    then show ?thesis
      using less.prems(2) True unfolding merge_regions_unfold [OF run j_def ab] eq by auto
  next
    case False
    then have "g \<in> set (merge_regions b l b la lb j a2 j) \<or> rright g = rbase g"
      using less.prems(2) eq2 unfolding merge_regions_unfold [OF run j_def ab] eq by auto
    moreover have "j \<le> length b" using jb False by simp
    ultimately show ?thesis using less.hyps [OF sz] False by blast
  qed
qed

section \<open>The merge\<close>

definition regions_of :: "doc \<Rightarrow> doc \<Rightarrow> doc \<Rightarrow> region list" where
  "regions_of base left right =
     merge_regions (lines base) (lines left) (lines right)
       (match_table (length (lines base)) (lcs_matches (lines base) (lines left)))
       (match_table (length (lines base)) (lcs_matches (lines base) (lines right))) 0 0 0"

lemma merge3_run_regions:
  "merge3_run base left right =
     Some \<lparr>merged = from_lines (concat (map region_text (regions_of base left right))),
           conflicts = concat (map region_conflict (regions_of base left right))\<rparr>"
  using merge_loop_regions [OF match_table_ok match_table_ok cursor_ok_0 cursor_ok_0,
      of "lines base" "lines left" "lines right" "([], [])"]
  by (simp add: merge3_run_def regions_of_def foldl_emit Let_def)

lemma merge3_run_eq: "merge3_run base left right = Some (merge3 base left right)"
  by (simp add: merge3_def merge3_run_regions)

lemma merge3_regions:
  "merge3 base left right =
     \<lparr>merged = from_lines (concat (map region_text (regions_of base left right))),
      conflicts = concat (map region_conflict (regions_of base left right))\<rparr>"
  by (simp add: merge3_def merge3_run_regions)

lemma regions_of_concat:
  "concat (map rbase (regions_of base left right)) = lines base"
  "concat (map rleft (regions_of base left right)) = lines left"
  "concat (map rright (regions_of base left right)) = lines right"
  using merge_loop_regions [OF match_table_ok match_table_ok cursor_ok_0 cursor_ok_0,
      of "lines base" "lines left" "lines right" "([], [])"]
  by (simp_all add: regions_of_def)

lemma regions_of_swap: "regions_of base right left = map swap_region (regions_of base left right)"
  by (simp add: regions_of_def merge_regions_swap [of "lines base" "lines right" "lines left"])

lemma region_conflict_swap:
  "region_conflict (swap_region g) = map swap_conflict (region_conflict g)"
  by (auto simp: region_conflict_def swap_region_def swap_conflict_def)

lemma region_text_swap:
  "region_conflict g = [] \<Longrightarrow> region_text (swap_region g) = region_text g"
  by (auto simp: region_conflict_def region_text_def swap_region_def split: if_splits)

lemma region_same:
  "rleft g = rright g \<Longrightarrow> region_text g = rleft g \<and> region_conflict g = []"
  by (auto simp: region_text_def region_conflict_def)

lemma region_base_right:
  "rright g = rbase g \<Longrightarrow> region_text g = rleft g \<and> region_conflict g = []"
  by (auto simp: region_text_def region_conflict_def)

lemma fold_identity_table:
  "fold (\<lambda>(o', a) t. t[o' := Some a]) (map (\<lambda>k. (k, k)) [m..<n]) (map Some [0..<m] @ replicate (n - m) None)
     = map Some [0..<n]" if "m \<le> n"
  using that
proof (induction "n - m" arbitrary: m)
  case 0
  then show ?case by simp
next
  case (Suc k)
  then have m: "m < n" "k = n - Suc m" by simp_all
  have "(map Some [0..<m] @ replicate (n - m) None)[m := Some m]
      = map Some [0..<Suc m] @ replicate (n - Suc m) None"
    using m by (cases "n - m") (simp_all add: list_update_append)
  then show ?case using Suc.hyps(1) [OF m(2)] m by (simp add: upt_conv_Cons)
qed

lemma match_table_self: "match_table (length b) (lcs_matches b b) = map Some [0..<length b]"
  using fold_identity_table [of 0 "length b"]
  by (simp add: match_table_def lcs_matches_def lcs_walk_self)

lemma regions_same: "g \<in> set (regions_of base a a) \<Longrightarrow> rleft g = rright g"
  by (simp add: regions_of_def merge_regions_same)

lemma regions_base: "g \<in> set (regions_of base a base) \<Longrightarrow> rright g = rbase g"
  using merge_regions_base [of _ "lines base" 0 g "lines a"]
  by (simp add: regions_of_def match_table_self)

lemma merge3_from_left:
  assumes "\<And>g. g \<in> set (regions_of base left right) \<Longrightarrow>
     region_text g = rleft g \<and> region_conflict g = []"
  shows "merge3 base left right = \<lparr>merged = left, conflicts = []\<rparr>"
proof -
  have "map region_text (regions_of base left right) = map rleft (regions_of base left right)"
    "concat (map region_conflict (regions_of base left right)) = []"
    using assms by auto
  then show ?thesis by (simp only: merge3_regions regions_of_concat from_lines_lines)
qed

lemma merge3_same: "merge3 base a a = \<lparr>merged = a, conflicts = []\<rparr>"
  using regions_same region_same by (intro merge3_from_left) blast

lemma merge3_right_base: "merge3 base a base = \<lparr>merged = a, conflicts = []\<rparr>"
  using regions_base region_base_right by (intro merge3_from_left) blast

lemma merge3_swap:
  "conflicts (merge3 base right left) = map swap_conflict (conflicts (merge3 base left right))"
  "is_clean (merge3 base left right) \<Longrightarrow> merge3 base right left = merge3 base left right"
  by (auto simp: merge3_regions regions_of_swap [of base right left] region_conflict_swap is_clean_def
      map_concat comp_def region_text_swap cong: map_cong)

lemma merge3_left_base: "merge3 base base b = \<lparr>merged = b, conflicts = []\<rparr>"
  using merge3_swap(2) [of base b base] by (simp add: is_clean_def merge3_right_base)

section \<open>Properties\<close>

text \<open>C2: \<open>merge3\<close> never takes a slice out of range, and its result is the emission, region by
region, of one decomposition of the base, the left and the right document: the regions
concatenate to the three inputs, a region changed by one side only or identically by both
contributes that text and no conflict, and every other region is stored as a \<open>Conflict\<close> value
(I8, no silent wrong answer).\<close>

theorem merge3_decomposition:
  "\<exists>gs. merge3_run base left right = Some \<lparr>merged = from_lines (concat (map region_text gs)),
       conflicts = concat (map region_conflict gs)\<rparr> \<and>
     concat (map rbase gs) = lines base \<and> concat (map rleft gs) = lines left \<and>
     concat (map rright gs) = lines right"
  by (intro exI [of _ "regions_of base left right"]) (simp add: merge3_run_regions regions_of_concat)

text \<open>\<open>merge3\<close> is symmetric in the two sides: swapping them swaps the sides of every stored
conflict, and whenever the merge has no conflict it does not change the merged document.\<close>

theorem merge3_symmetric:
  "conflicts (merge3 base right left) = map swap_conflict (conflicts (merge3 base left right)) \<and>
   (if is_clean (merge3 base left right) then merge3 base right left = merge3 base left right
    else \<not> is_clean (merge3 base right left))"
  using merge3_swap [of base right left] by (simp add: is_clean_def)

text \<open>The take-one-side identities of \<open>merge3\<close>: with one side equal to the base the merge is the
other side without conflicts, and two identical edits merge to that edit without conflicts.\<close>

theorem merge3_identities:
  "merge3 base a base = \<lparr>merged = a, conflicts = []\<rparr> \<and>
   merge3 base base a = \<lparr>merged = a, conflicts = []\<rparr> \<and>
   merge3 base a a = \<lparr>merged = a, conflicts = []\<rparr>"
  by (simp add: merge3_right_base merge3_left_base merge3_same)

end
