(* ===== verification/Kernel.thy ===== *)
theory Kernel
  imports Commute Merge3
begin

text \<open>
  The admission boundary, \<open>kernel.rs\<close>, and the validation policy on top of it,
  \<open>validation.rs\<close>: \<open>admit\<close>, the witness checker, the gate for proposals and the demotion of a
  merge that fails its validation.
\<close>

section \<open>Admission\<close>

record witness =
  wp :: patch
  wq :: patch

datatype admission =
    Merged doc witness
  | Conflicted "conflict list"

definition admit :: "doc \<Rightarrow> doc \<Rightarrow> doc \<Rightarrow> admission" where
  "admit base left right =
     (let p = diff base left; q = diff base right in
      case commute p q of
        Independent _ q_reb \<Rightarrow>
          (case combine base p q_reb of
             Inr result \<Rightarrow> Merged result \<lparr>wp = p, wq = q\<rparr>
           | Inl _ \<Rightarrow> Conflicted (conflicts (merge3 base left right)))
      | Overlap \<Rightarrow> Conflicted (conflicts (merge3 base left right)))"

definition verify_witness :: "doc \<Rightarrow> witness \<Rightarrow> doc \<Rightarrow> bool" where
  "verify_witness base w result =
     (case apply_patch (wp w) base of
        Inl _ \<Rightarrow> False
      | Inr left \<Rightarrow>
        (case apply_patch (wq w) base of
           Inl _ \<Rightarrow> False
         | Inr right \<Rightarrow>
           if diff base left \<noteq> wp w \<or> diff base right \<noteq> wq w then False
           else (case commute (wp w) (wq w) of
               Overlap \<Rightarrow> False
             | Independent _ q_reb \<Rightarrow>
               (case combine base (wp w) q_reb of
                  Inr m \<Rightarrow> m = result
                | Inl _ \<Rightarrow> False))))"

definition certify :: "doc \<Rightarrow> doc \<Rightarrow> doc \<Rightarrow> doc \<Rightarrow> admission" where
  "certify base left right proposed =
     (case admit base left right of
        Merged result w \<Rightarrow>
          if result = proposed then Merged result w
          else Conflicted [\<lparr>cbase = lines base, cleft = lines result, cright = lines proposed\<rparr>]
      | Conflicted cs \<Rightarrow> Conflicted cs)"

section \<open>Dynamic validation\<close>

datatype validated =
    Accepted doc
  | Demoted conflict string

definition already_conflicted :: string where
  "already_conflicted = ''merge already conflicted; nothing provisional to validate''"

definition dynamic_validate ::
  "doc \<Rightarrow> doc \<Rightarrow> doc \<Rightarrow> admission \<Rightarrow> bool \<Rightarrow> string \<Rightarrow> validated" where
  "dynamic_validate base left right adm passed reason =
     (case adm of
        Merged result _ \<Rightarrow>
          if passed then Accepted result
          else Demoted \<lparr>cbase = lines base, cleft = lines left, cright = lines right\<rparr> reason
      | Conflicted cs \<Rightarrow>
          Demoted (case cs of
              c # _ \<Rightarrow> c
            | [] \<Rightarrow> \<lparr>cbase = lines base, cleft = lines left, cright = lines right\<rparr>) already_conflicted)"

section \<open>Lemmas\<close>

lemma diffs_combine:
  assumes "commute (diff base left) (diff base right) = Independent p' q'"
  shows "\<exists>m. combine base (diff base left) q' = Inr m \<and> combine base (diff base right) p' = Inr m"
  using combine_both_orders [OF diff_fits diff_fits assms] by blast

lemma admit_Merged_iff:
  "admit base left right = Merged result w \<longleftrightarrow>
     w = \<lparr>wp = diff base left, wq = diff base right\<rparr> \<and>
     (\<exists>p' q'. commute (diff base left) (diff base right) = Independent p' q' \<and>
        combine base (diff base left) q' = Inr result \<and> combine base (diff base right) p' = Inr result)"
  using diffs_combine [of base left right]
  by (auto simp: admit_def Let_def split: commutation.splits sum.splits)

lemma admit_Conflicted_iff:
  "admit base left right = Conflicted cs \<longleftrightarrow>
     commute (diff base left) (diff base right) = Overlap \<and> cs = conflicts (merge3 base left right)"
  using diffs_combine [of base left right]
  by (auto simp: admit_def Let_def split: commutation.splits sum.splits)

lemma admit_swap_Merged:
  "admit base left right = Merged result w \<Longrightarrow>
   admit base right left = Merged result \<lparr>wp = wq w, wq = wp w\<rparr>"
  using commute_swap [of "diff base right" "diff base left"]
  by (auto simp: admit_Merged_iff)

lemma verify_witness_iff:
  "verify_witness base w result \<longleftrightarrow> (\<exists>left right. admit base left right = Merged result w)"
proof
  assume "verify_witness base w result"
  then obtain left right p' q' where
    "diff base left = wp w" "diff base right = wq w"
    "commute (wp w) (wq w) = Independent p' q'" "combine base (wp w) q' = Inr result"
    by (auto simp: verify_witness_def split: sum.split_asm commutation.split_asm if_split_asm)
       (metis sum.exhaust)
  then have "admit base left right = Merged result w"
    by (simp add: admit_def Let_def)
  then show "\<exists>left right. admit base left right = Merged result w" by blast
next
  assume "\<exists>left right. admit base left right = Merged result w"
  then show "verify_witness base w result"
    by (auto simp: admit_Merged_iff verify_witness_def apply_diff)
qed

lemma commute_refl: "commute p p = (if patch_is_empty p then Independent p p else Overlap)"
proof (cases "hunks p = []")
  case True
  then have "rebase_patch p p = p" using from_hunks_hunks [of p] by (simp add: rebase_patch_def)
  with True show ?thesis by (simp add: commute_eq separable_def patch_is_empty_def)
next
  case False
  have "hunks_conflict h h" for h by (simp add: hunks_conflict_def)
  with False have "\<not> separable (hunks p) (hunks p)"
    by (auto simp: separable_def neq_Nil_conv)
  with False show ?thesis by (simp add: commute_eq patch_is_empty_def)
qed

section \<open>Properties\<close>

text \<open>C1: Kernel admission has no third output: an admitted merge carries the two real diffs as a
witness that \<open>verify_witness\<close> accepts, and its document is what both application orders of the
pair produce; every other answer is the conflict list of \<open>merge3\<close> for an overlapping pair. The
error branch of \<open>combine\<close> inside \<open>admit\<close> is unreachable.\<close>

theorem admit_witnessed:
  "case admit base left right of
     Merged result w \<Rightarrow>
       w = \<lparr>wp = diff base left, wq = diff base right\<rparr> \<and> verify_witness base w result \<and>
       (\<exists>p' q'. commute (wp w) (wq w) = Independent p' q' \<and>
          apply_patch q' left = Inr result \<and> apply_patch p' right = Inr result)
   | Conflicted cs \<Rightarrow>
       commute (diff base left) (diff base right) = Overlap \<and> cs = conflicts (merge3 base left right)"
proof (cases "admit base left right")
  case (Merged result w)
  then have "verify_witness base w result" using verify_witness_iff by blast
  moreover note admit_Merged_iff [THEN iffD1, OF Merged]
  ultimately show ?thesis by (auto simp: Merged combine_def apply_diff)
next
  case (Conflicted cs)
  from admit_Conflicted_iff [THEN iffD1, OF Conflicted] show ?thesis by (simp add: Conflicted)
qed

text \<open>The witness checker accepts exactly the pairs of a witness and a document that \<open>admit\<close>
emits for some two sides: no forged patch, non-commuting pair or altered document passes, and
nothing the kernel emits is refused.\<close>

theorem verify_witness_exact:
  "verify_witness base w result \<longleftrightarrow>
   (\<exists>left right. apply_patch (wp w) base = Inr left \<and> apply_patch (wq w) base = Inr right \<and>
      admit base left right = Merged result w)"
  using verify_witness_iff [of base w result] by (auto simp: admit_Merged_iff apply_diff)

text \<open>A proposal is accepted at the end of the pipeline (the gate of \<open>certify\<close>, then dynamic
validation) exactly when its validation passed and it is the document that the kernel derived
itself; a proposal the kernel did not derive is never accepted.\<close>

theorem certify_validate_gate:
  "dynamic_validate base left right (certify base left right proposed) passed reason = Accepted d
     \<longleftrightarrow> passed \<and> d = proposed \<and>
         admit base left right = Merged proposed \<lparr>wp = diff base left, wq = diff base right\<rparr>"
proof (cases "admit base left right")
  case (Merged result w)
  then have "w = \<lparr>wp = diff base left, wq = diff base right\<rparr>" by (simp add: admit_Merged_iff)
  with Merged show ?thesis by (auto simp: certify_def dynamic_validate_def)
next
  case (Conflicted cs)
  then show ?thesis by (simp add: certify_def dynamic_validate_def)
qed

text \<open>On two identical edits the kernel refuses with an empty list of conflicts (the merge of
\<open>merge3\<close> is clean although the two diffs overlap), so the validation step synthesises the
conflict from the three documents.\<close>

theorem admit_identical_edits:
  "admit base a a =
     (if a = base then Merged base \<lparr>wp = diff base base, wq = diff base base\<rparr> else Conflicted [])"
  using diff_empty_iff [of base a]
  by (auto simp: admit_def Let_def commute_refl merge3_same combine_def apply_diff patch_is_empty_def
      apply_patch_def)

end
