(* ===== verification/Rebase.thy ===== *)
theory Rebase
  imports Commute Merge3
begin

text \<open>
  Rebase over conflict values, \<open>rebase.rs\<close>: \<open>rebase\<close>, \<open>rebase_merge\<close>, \<open>rebase_stack\<close>, the
  resolution of rendered conflicts and the scan for marker regions.
\<close>

section \<open>Rebasing one change\<close>

definition REBASE_MINE :: line where "REBASE_MINE = ''<<<<<<< mine''"
definition REBASE_ONTO :: line where "REBASE_ONTO = ''>>>>>>> onto''"

record rebased =
  result :: doc
  rconflicts :: "conflict list"
  rclean :: bool

definition as_merge :: "rebased \<Rightarrow> merge" where
  "as_merge r = \<lparr>merged = result r, conflicts = rconflicts r\<rparr>"

definition relabel_line :: "line \<Rightarrow> line" where
  "relabel_line l = (if l = CONFLICT_START then REBASE_MINE else if l = CONFLICT_END then REBASE_ONTO else l)"

definition relabel_to_rebase_markers :: "doc \<Rightarrow> doc" where
  "relabel_to_rebase_markers d = from_lines (map relabel_line (lines d))"

definition rebase :: "doc \<Rightarrow> doc \<Rightarrow> doc \<Rightarrow> rebased" where
  "rebase base mine onto =
     (let m = merge3 base mine onto in
      \<lparr>result = relabel_to_rebase_markers (merged m), rconflicts = conflicts m,
       rclean = (conflicts m = [])\<rparr>)"

primrec rebase_stack_loop :: "doc list \<Rightarrow> doc \<Rightarrow> doc \<Rightarrow> rebased list" where
  "rebase_stack_loop [] prev acc = []"
| "rebase_stack_loop (v # vs) prev acc =
     (let step = rebase prev v acc in step # rebase_stack_loop vs v (result step))"

definition rebase_stack :: "doc \<Rightarrow> doc list \<Rightarrow> doc \<Rightarrow> rebased list" where
  "rebase_stack base stack onto = rebase_stack_loop stack base onto"

section \<open>Marker regions\<close>

definition is_conflict_start :: "line \<Rightarrow> bool" where
  "is_conflict_start l \<longleftrightarrow> l = CONFLICT_START \<or> l = REBASE_MINE"

definition is_conflict_end :: "line \<Rightarrow> bool" where
  "is_conflict_end l \<longleftrightarrow> l = CONFLICT_END \<or> l = REBASE_ONTO"

text \<open>The inner loop: the index of the first end marker from \<open>j\<close> on, or the number of lines.\<close>

function find_end :: "line list \<Rightarrow> nat \<Rightarrow> nat" where
  "find_end ls j = (if j < length ls \<and> \<not> is_conflict_end (ls ! j) then find_end ls (j + 1) else j)"
  by pat_completeness auto
termination by (relation "measure (\<lambda>(ls, j). length ls - j)") auto

declare find_end.simps [simp del]

lemma find_end_le: "j \<le> find_end ls j"
proof (induction ls j rule: find_end.induct)
  case (1 ls j)
  then show ?case by (subst find_end.simps) auto
qed

function regions_loop :: "line list \<Rightarrow> nat \<Rightarrow> (nat \<times> nat) list" where
  "regions_loop ls i =
     (if i < length ls then
        let j = find_end ls (i + 1) in
        if is_conflict_start (ls ! i) \<and> j < length ls then (i, j + 1) # regions_loop ls (j + 1)
        else regions_loop ls (i + 1)
      else [])"
  by pat_completeness auto
termination
proof (relation "measure (\<lambda>(ls, i). length ls - i)", goal_cases)
  case (2 ls i j)
  then show ?case using find_end_le [of "i + 1" ls] by auto
qed auto

definition conflict_marker_regions :: "doc \<Rightarrow> (nat \<times> nat) list" where
  "conflict_marker_regions d = regions_loop (lines d) 0"

definition overlaps_any_region :: "hunk \<Rightarrow> (nat \<times> nat) list \<Rightarrow> bool" where
  "overlaps_any_region h regions =
     (case hunk_support h of (s, e) \<Rightarrow>
        list_ex (\<lambda>(rs, re). if s = e then rs < s \<and> s < re else s < re \<and> rs < e) regions)"

definition rebase_merge :: "merge \<Rightarrow> patch \<Rightarrow> merge" where
  "rebase_merge prior onto_patch =
     (let regions = conflict_marker_regions (merged prior);
          safe = from_hunks (filter (\<lambda>h. \<not> overlaps_any_region h regions) (hunks onto_patch)) in
      \<lparr>merged = (case apply_patch safe (merged prior) of Inr d \<Rightarrow> d | Inl _ \<Rightarrow> merged prior),
       conflicts = conflicts prior\<rparr>)"

section \<open>Resolution\<close>

definition resolve :: "conflict \<Rightarrow> line list \<Rightarrow> line list" where
  "resolve c chosen = chosen"

function resolve_loop :: "line list \<Rightarrow> line list list \<Rightarrow> nat \<Rightarrow> nat \<Rightarrow> line list \<Rightarrow> line list" where
  "resolve_loop ls rs i region out =
     (if i < length ls then
        let j = find_end ls (i + 1) in
        if is_conflict_start (ls ! i) \<and> j < length ls then
          resolve_loop ls rs (j + 1) (region + 1)
            (out @ (case nth_opt rs region of Some chosen \<Rightarrow> chosen | None \<Rightarrow> slice_of i (j + 1) ls))
        else resolve_loop ls rs (i + 1) region (out @ [ls ! i])
      else out)"
  by pat_completeness auto
termination
proof (relation "measure (\<lambda>(ls, rs, i, region, out). length ls - i)", goal_cases)
  case (2 ls rs i region out j)
  then show ?case using find_end_le [of "i + 1" ls] by auto
qed auto

declare regions_loop.simps [simp del] resolve_loop.simps [simp del]

definition resolve_all :: "doc \<Rightarrow> line list list \<Rightarrow> doc" where
  "resolve_all rendered resolutions = from_lines (resolve_loop (lines rendered) resolutions 0 0 [])"

section \<open>Rebase maps over conflict regions\<close>

lemma run_keeps:
  "run pos hs b = Some r \<Longrightarrow> pos \<le> s \<Longrightarrow> s \<le> e \<Longrightarrow> e \<le> pos + length b \<Longrightarrow>
   \<forall>h\<in>set hs. hunk_end h \<le> s \<or> e \<le> base_start h \<Longrightarrow>
   sublist (slice_of (s - pos) (e - pos) b) r"
proof (induction hs arbitrary: pos b r)
  case Nil
  then show ?case
    by (metis run.simps(1) option.inject append_take_drop_id slice_of_append_drop diff_le_mono sublist_def)
next
  case (Cons h hs)
  from Cons.prems(1) obtain r' where r': "run (hunk_end h) hs (drop (hunk_end h - pos) b) = Some r'"
    and r: "r = take (base_start h - pos) b @ hinsert h @ r'"
    and h: "pos \<le> base_start h" "hunk_end h \<le> pos + length b"
    by (auto split: if_splits)
  show ?case
  proof (cases "hunk_end h \<le> s")
    case True
    have p: "pos \<le> hunk_end h" using h by (simp add: hunk_end_def)
    have "sublist (slice_of (s - hunk_end h) (e - hunk_end h) (drop (hunk_end h - pos) b)) r'"
      using Cons.prems(2-5) True p h(2) by (intro Cons.IH [OF r']) auto
    moreover have "hunk_end h - pos + (s - hunk_end h) = s - pos" "hunk_end h - pos + (e - hunk_end h) = e - pos"
      using p True Cons.prems(3) by auto
    ultimately have "sublist (slice_of (s - pos) (e - pos) b) r'"
      by (simp only: slice_of_drop)
    then obtain x y where "r' = x @ slice_of (s - pos) (e - pos) b @ y" by (auto simp: sublist_def)
    then have "r = (take (base_start h - pos) b @ hinsert h @ x) @ slice_of (s - pos) (e - pos) b @ y"
      unfolding r by simp
    then show ?thesis unfolding sublist_def by blast
  next
    case False
    then have "e \<le> base_start h" using Cons.prems(5) by simp
    then have "take (base_start h - pos) b
        = take (s - pos) b @ slice_of (s - pos) (e - pos) b @ slice_of (e - pos) (base_start h - pos) b"
      using Cons.prems(2,3) slice_of_split [of "s - pos" "e - pos" "base_start h - pos" b]
        slice_of_split [of 0 "s - pos" "base_start h - pos" b]
      by (simp add: slice_of_def)
    then show ?thesis unfolding r by (auto simp: sublist_def)
  qed
qed

lemma regions_loop_bounds: "(s, e) \<in> set (regions_loop ls i) \<Longrightarrow> i \<le> s \<and> s < e \<and> e \<le> length ls"
proof (induction ls i rule: regions_loop.induct)
  case (1 ls i)
  define j where "j = find_end ls (i + 1)"
  have j: "i + 1 \<le> j" using find_end_le unfolding j_def by blast
  show ?case
  proof (cases "i < length ls")
    case True
    note unfold = regions_loop.simps [of ls i, unfolded Let_def, folded j_def]
    show ?thesis
    proof (cases "is_conflict_start (ls ! i) \<and> j < length ls")
      case reg: True
      then have "(s, e) = (i, j + 1) \<or> (s, e) \<in> set (regions_loop ls (j + 1))"
        using "1.prems" True by (subst (asm) unfold) simp
      then show ?thesis using "1.IH"(1) [OF True j_def reg] j reg by auto
    next
      case False
      then have "(s, e) \<in> set (regions_loop ls (i + 1))"
        using "1.prems" True by (subst (asm) unfold) auto
      then show ?thesis using "1.IH"(2) [OF True j_def False] by auto
    qed
  next
    case False
    then show ?thesis using "1.prems" by (subst (asm) regions_loop.simps) simp
  qed
qed

lemma not_overlaps:
  "\<not> overlaps_any_region h regions \<Longrightarrow> (s, e) \<in> set regions \<Longrightarrow> hunk_end h \<le> s \<or> e \<le> base_start h"
  by (fastforce simp: overlaps_any_region_def hunk_support_def hunk_end_def list_ex_iff split: if_splits)

lemma hunks_sorted_filter: "hunks_sorted pos hs \<Longrightarrow> hunks_sorted pos (filter P hs)"
proof (induction hs arbitrary: pos)
  case (Cons h hs)
  then have "hunks_sorted (hunk_end h) (filter P hs)" "pos \<le> hunk_end h"
    by (auto simp: hunk_end_def)
  then show ?case using Cons.prems hunks_sorted_mono by auto
qed simp

lemma patch_fits_filter: "patch_fits p d \<Longrightarrow> patch_fits (from_hunks (filter P (hunks p))) d"
  by (simp add: patch_fits_def hunks_sorted_filter)

definition safe_part :: "merge \<Rightarrow> patch \<Rightarrow> patch" where
  "safe_part m p =
     from_hunks (filter (\<lambda>h. \<not> overlaps_any_region h (conflict_marker_regions (merged m))) (hunks p))"

lemma rebase_merge_safe:
  "rebase_merge m p =
     \<lparr>merged = (case apply_patch (safe_part m p) (merged m) of Inr d \<Rightarrow> d | Inl _ \<Rightarrow> merged m),
      conflicts = conflicts m\<rparr>"
  by (simp add: rebase_merge_def safe_part_def Let_def)

lemma rebase_merge_region:
  assumes "(s, e) \<in> set (conflict_marker_regions (merged m))"
  shows "sublist (slice_of s e (lines (merged m))) (lines (merged (rebase_merge m p)))"
proof (cases "apply_patch (safe_part m p) (merged m)")
  case (Inl err)
  have "s \<le> e" using assms regions_loop_bounds by (fastforce simp: conflict_marker_regions_def)
  then show ?thesis
    by (simp add: rebase_merge_safe Inl)
       (metis append_take_drop_id slice_of_append_drop sublist_def)
next
  case (Inr d)
  have se: "s \<le> e" "e \<le> length (lines (merged m))"
    using assms regions_loop_bounds by (fastforce simp: conflict_marker_regions_def)+
  have "\<forall>h\<in>set (hunks (safe_part m p)). hunk_end h \<le> s \<or> e \<le> base_start h"
    using not_overlaps assms by (auto simp: safe_part_def)
  from run_keeps [OF Inr [unfolded apply_patch_run] _ se(1) _ this] se
  show ?thesis by (simp add: rebase_merge_safe Inr)
qed

section \<open>Resolution removes the regions\<close>

text \<open>No start marker is followed by an end marker: the document renders no conflict region.\<close>

primrec tail_clean :: "line list \<Rightarrow> bool" where
  "tail_clean [] = True"
| "tail_clean (l # ls) =
     ((is_conflict_start l \<longrightarrow> list_all (\<lambda>x. \<not> is_conflict_end x) ls) \<and> tail_clean ls)"

lemma find_end_spec: "find_end ls i < length ls \<longleftrightarrow> (\<exists>j. i \<le> j \<and> j < length ls \<and> is_conflict_end (ls ! j))"
proof (induction ls i rule: find_end.induct)
  case (1 ls i)
  show ?case
  proof (cases "i < length ls \<and> \<not> is_conflict_end (ls ! i)")
    case True
    then have "find_end ls i = find_end ls (i + 1)" by (subst find_end.simps) simp
    moreover have "i \<le> j \<longleftrightarrow> j = i \<or> i + 1 \<le> j" for j by auto
    ultimately show ?thesis using "1.IH" [OF True] True by auto
  next
    case False
    then have "find_end ls i = i" by (subst find_end.simps) auto
    then show ?thesis using False by auto
  qed
qed

lemma resolve_loop_acc: "resolve_loop ls rs i region out = out @ resolve_loop ls rs i region []"
proof (induction "length ls - i" arbitrary: i region out rule: less_induct)
  case less
  define e where "e = find_end ls (i + 1)"
  have e: "i + 1 \<le> e" using find_end_le unfolding e_def by blast
  note unfold = resolve_loop.simps [of ls rs i region, unfolded Let_def, folded e_def]
  have IH0: "resolve_loop ls rs (k + 1) r x = x @ resolve_loop ls rs (k + 1) r []"
    if "i < length ls" "i \<le> k" for k r x
    using that by (intro less) simp
  have IH: "resolve_loop ls rs (k + 1) r (out @ x) = out @ resolve_loop ls rs (k + 1) r x"
    if "i < length ls" "i \<le> k" for k r x
    using IH0 [OF that, of r "out @ x"] IH0 [OF that, of r x] by (simp only: append_assoc)
  show ?case
  proof (cases "i < length ls")
    case True
    show ?thesis
    proof (cases "is_conflict_start (ls ! i) \<and> e < length ls")
      case reg: True
      have "i \<le> e" using e by simp
      then show ?thesis
        unfolding unfold by (simp only: True reg IH if_True append_Nil simp_thms)
    next
      case False
      then show ?thesis
        unfolding unfold by (simp only: True IH [OF True order_refl] if_True if_False append_Nil simp_thms)
    qed
  next
    case False
    then show ?thesis unfolding unfold by simp
  qed
qed

lemma resolve_loop_end: "\<not> i < length ls \<Longrightarrow> resolve_loop ls rs i g [] = []"
  by (subst resolve_loop.simps) simp

lemma resolve_loop_region:
  "i < length ls \<Longrightarrow> is_conflict_start (ls ! i) \<Longrightarrow> find_end ls (i + 1) < length ls \<Longrightarrow>
   resolve_loop ls rs i g [] =
     (case nth_opt rs g of Some c \<Rightarrow> c | None \<Rightarrow> slice_of i (find_end ls (i + 1) + 1) ls) @
     resolve_loop ls rs (find_end ls (i + 1) + 1) (g + 1) []"
  by (subst resolve_loop.simps, subst resolve_loop_acc) (simp add: Let_def split: option.split)

lemma resolve_loop_line:
  "i < length ls \<Longrightarrow> \<not> (is_conflict_start (ls ! i) \<and> find_end ls (i + 1) < length ls) \<Longrightarrow>
   resolve_loop ls rs i g [] = ls ! i # resolve_loop ls rs (i + 1) g []"
  by (subst resolve_loop.simps, subst resolve_loop_acc) auto

lemma regions_loop_region:
  "i < length ls \<Longrightarrow> is_conflict_start (ls ! i) \<Longrightarrow> find_end ls (i + 1) < length ls \<Longrightarrow>
   regions_loop ls i = (i, find_end ls (i + 1) + 1) # regions_loop ls (find_end ls (i + 1) + 1)"
  by (subst regions_loop.simps) (simp add: Let_def)

lemma regions_loop_line:
  "i < length ls \<Longrightarrow> \<not> (is_conflict_start (ls ! i) \<and> find_end ls (i + 1) < length ls) \<Longrightarrow>
   regions_loop ls i = regions_loop ls (i + 1)"
  by (subst regions_loop.simps) auto

lemma marker_induct [case_names stop region line]:
  assumes "\<And>i. \<not> i < length ls \<Longrightarrow> P i"
    and "\<And>i. i < length ls \<Longrightarrow> is_conflict_start (ls ! i) \<Longrightarrow> find_end ls (i + 1) < length ls \<Longrightarrow>
           P (find_end ls (i + 1) + 1) \<Longrightarrow> P i"
    and "\<And>i. i < length ls \<Longrightarrow> \<not> (is_conflict_start (ls ! i) \<and> find_end ls (i + 1) < length ls) \<Longrightarrow>
           P (i + 1) \<Longrightarrow> P i"
  shows "P i"
  using assms by (induction ls i rule: regions_loop.induct) metis

lemma list_all_drop: "list_all P (drop n xs) \<longleftrightarrow> (\<forall>j. n \<le> j \<longrightarrow> j < length xs \<longrightarrow> P (xs ! j))"
proof
  assume P: "list_all P (drop n xs)"
  have "P (xs ! j)" if "n \<le> j" "j < length xs" for j
    using P [unfolded list_all_length, rule_format, of "j - n"] that by simp
  then show "\<forall>j. n \<le> j \<longrightarrow> j < length xs \<longrightarrow> P (xs ! j)" by blast
qed (simp add: list_all_length)

lemma no_end_after:
  "\<not> find_end ls (i + 1) < length ls \<longleftrightarrow> list_all (\<lambda>x. \<not> is_conflict_end x) (drop (i + 1) ls)"
  by (auto simp: find_end_spec list_all_drop)

lemma tail_clean_no_end: "list_all (\<lambda>x. \<not> is_conflict_end x) ls \<Longrightarrow> tail_clean ls"
  by (induction ls) auto

lemma regions_loop_Nil_iff: "regions_loop ls i = [] \<longleftrightarrow> tail_clean (drop i ls)"
proof (induction i rule: marker_induct [of ls])
  case (stop i)
  then show ?case by (subst regions_loop.simps) simp
next
  case (region i)
  then show ?case using no_end_after [of ls i]
    by (simp add: regions_loop_region Cons_nth_drop_Suc [symmetric])
next
  case (line i)
  then show ?case using no_end_after [of ls i]
    by (auto simp: regions_loop_line Cons_nth_drop_Suc [symmetric])
qed

lemma conflict_regions_Nil_iff: "conflict_marker_regions d = [] \<longleftrightarrow> tail_clean (lines d)"
  by (simp add: conflict_marker_regions_def regions_loop_Nil_iff)

lemma resolve_no_regions: "regions_loop ls i = [] \<Longrightarrow> resolve_loop ls rs i g [] = drop i ls"
proof (induction i rule: marker_induct [of ls])
  case (stop i)
  then show ?case by (simp add: resolve_loop_end)
next
  case (region i)
  then show ?case by (simp add: regions_loop_region)
next
  case (line i)
  then show ?case by (simp add: regions_loop_line resolve_loop_line Cons_nth_drop_Suc)
qed

lemma resolve_loop_none: "resolve_loop ls [] i g [] = drop i ls"
proof (induction i arbitrary: g rule: marker_induct [of ls])
  case (stop i)
  then show ?case by (simp add: resolve_loop_end)
next
  case (region i)
  have "i \<le> find_end ls (i + 1) + 1" using find_end_le [of "i + 1" ls] by simp
  from slice_of_append_drop [OF this] region show ?case by (simp add: resolve_loop_region nth_opt_def)
next
  case (line i)
  then show ?case by (simp add: resolve_loop_line Cons_nth_drop_Suc)
qed

definition marker_free :: "line list \<Rightarrow> bool" where
  "marker_free ls \<longleftrightarrow> list_all (\<lambda>l. \<not> is_conflict_start l \<and> \<not> is_conflict_end l) ls"

lemma tail_clean_append: "marker_free c \<Longrightarrow> tail_clean s \<Longrightarrow> tail_clean (c @ s)"
  unfolding marker_free_def by (induction c) auto

lemma resolve_tail_clean:
  "g + length (regions_loop ls i) \<le> length rs \<Longrightarrow> list_all marker_free rs \<Longrightarrow>
   tail_clean (resolve_loop ls rs i g [])"
proof (induction i arbitrary: g rule: marker_induct [of ls])
  case (stop i)
  then show ?case by (simp add: resolve_loop_end)
next
  case (region i)
  then have "nth_opt rs g = Some (rs ! g)" "marker_free (rs ! g)"
    by (auto simp: regions_loop_region nth_opt_def list_all_length)
  with region show ?case by (simp add: resolve_loop_region regions_loop_region tail_clean_append)
next
  case (line i)
  show ?case
  proof (cases "is_conflict_start (ls ! i)")
    case False
    with line show ?thesis by (simp add: resolve_loop_line regions_loop_line)
  next
    case True
    then have no: "list_all (\<lambda>x. \<not> is_conflict_end x) (drop (i + 1) ls)"
      using line no_end_after [of ls i] by blast
    then have "resolve_loop ls rs (i + 1) g [] = drop (i + 1) ls"
      by (intro resolve_no_regions) (simp add: regions_loop_Nil_iff tail_clean_no_end)
    then show ?thesis using line no by (simp add: resolve_loop_line tail_clean_no_end)
  qed
qed

section \<open>Replaying without a concurrent change\<close>

definition no_merge_markers :: "doc \<Rightarrow> bool" where
  "no_merge_markers d \<longleftrightarrow> list_all (\<lambda>l. l \<noteq> CONFLICT_START \<and> l \<noteq> CONFLICT_END) (lines d)"

lemma relabel_line_id: "relabel_line l = l \<longleftrightarrow> l \<noteq> CONFLICT_START \<and> l \<noteq> CONFLICT_END"
  by (auto simp: relabel_line_def CONFLICT_START_def CONFLICT_END_def REBASE_MINE_def REBASE_ONTO_def)

lemma relabel_id_iff: "relabel_to_rebase_markers d = d \<longleftrightarrow> no_merge_markers d"
proof -
  have "map relabel_line ls = ls \<longleftrightarrow> list_all (\<lambda>l. l \<noteq> CONFLICT_START \<and> l \<noteq> CONFLICT_END) ls" for ls
    by (induction ls) (auto simp: relabel_line_id)
  then show ?thesis
    by (metis from_lines_inject from_lines_lines no_merge_markers_def relabel_to_rebase_markers_def)
qed

lemma rebase_own_base: "rebase base mine base = \<lparr>result = relabel_to_rebase_markers mine, rconflicts = [], rclean = True\<rparr>"
  by (simp add: rebase_def Let_def merge3_right_base)

lemma rebase_stack_loop_own:
  "no_merge_markers prev \<Longrightarrow> list_all no_merge_markers vs \<Longrightarrow>
   rebase_stack_loop vs prev prev = map (\<lambda>v. \<lparr>result = v, rconflicts = [], rclean = True\<rparr>) vs"
  by (induction vs arbitrary: prev) (simp_all add: rebase_own_base Let_def relabel_id_iff [THEN iffD2])

section \<open>Properties\<close>

text \<open>C7: Rebase maps over conflicts: \<open>rebase_merge\<close> keeps the list of stored conflicts unchanged,
and every conflict region rendered in the prior document, with all its marker and content lines,
is still a contiguous block of the rebased document, whatever the patch.\<close>

theorem rebase_merge_maps_over:
  "conflicts (rebase_merge m p) = conflicts m \<and>
   list_all (\<lambda>(s, e). sublist (slice_of s e (lines (merged m))) (lines (merged (rebase_merge m p))))
     (conflict_marker_regions (merged m))"
  by (auto simp: list_all_iff rebase_merge_region) (simp add: rebase_merge_safe)

text \<open>When the patch is one against the prior document, the hunks outside the conflict regions
always apply, so the fallback of \<open>rebase_merge\<close> to the unchanged document is unreachable.\<close>

theorem rebase_merge_applies:
  assumes "apply_patch p (merged m) = Inr d"
  shows "apply_patch (safe_part m p) (merged m) = Inr (merged (rebase_merge m p))"
proof -
  have "patch_fits p (merged m)" using assms by (simp add: apply_ok_iff [symmetric])
  then have "is_ok (apply_patch (safe_part m p) (merged m))"
    by (simp add: apply_ok_iff safe_part_def patch_fits_filter)
  then show ?thesis by (auto simp: rebase_merge_safe is_ok_iff)
qed

lemma rebase_merge_applies_witness:
  "apply_patch (safe_part \<lparr>merged = from_lines [''a''], conflicts = []\<rparr> (diff (from_lines [''a'']) (from_lines [''b''])))
     (from_lines [''a''])
   = Inr (merged (rebase_merge \<lparr>merged = from_lines [''a''], conflicts = []\<rparr>
       (diff (from_lines [''a'']) (from_lines [''b'']))))"
  using rebase_merge_applies [of "diff (from_lines [''a'']) (from_lines [''b''])"
      "\<lparr>merged = from_lines [''a''], conflicts = []\<rparr>", simplified, OF apply_diff] .

text \<open>Resolution collapses the term: with a marker-free resolution for every rendered region the
document that \<open>resolve_all\<close> produces renders no conflict region any more.\<close>

theorem resolve_all_collapses:
  assumes "length (conflict_marker_regions d) \<le> length rs" "list_all marker_free rs"
  shows "conflict_marker_regions (resolve_all d rs) = []"
  using resolve_tail_clean [of 0 "lines d" 0 rs] assms [unfolded conflict_marker_regions_def]
  by (simp add: conflict_regions_Nil_iff resolve_all_def)

lemma resolve_all_collapses_witness:
  "conflict_marker_regions
     (resolve_all (from_lines [''a'', CONFLICT_START, ''l'', CONFLICT_SEP, ''r'', CONFLICT_END, ''b'']) [[''m'']]) = []"
proof (rule resolve_all_collapses)
  show "length (conflict_marker_regions
      (from_lines [''a'', CONFLICT_START, ''l'', CONFLICT_SEP, ''r'', CONFLICT_END, ''b''])) \<le> length [[''m'']]"
    by code_simp
  show "list_all marker_free [[''m'']]" by code_simp
qed

text \<open>Without resolutions \<open>resolve_all\<close> changes nothing, and replaying a stack of versions whose lines
are not merge markers on its own base gives back the versions, each clean.\<close>

theorem rebase_stack_own_base:
  assumes "list_all no_merge_markers (base # vs)"
  shows "rebase_stack base vs base = map (\<lambda>v. \<lparr>result = v, rconflicts = [], rclean = True\<rparr>) vs \<and>
     resolve_all base [] = base"
  using assms by (simp add: rebase_stack_def rebase_stack_loop_own resolve_all_def resolve_loop_none)

lemma rebase_stack_own_base_witness:
  "rebase_stack (from_lines [''a'']) [from_lines [''b''], from_lines []] (from_lines [''a''])
     = [\<lparr>result = from_lines [''b''], rconflicts = [], rclean = True\<rparr>,
        \<lparr>result = from_lines [], rconflicts = [], rclean = True\<rparr>]"
  using rebase_stack_own_base [of "from_lines [''a'']" "[from_lines [''b''], from_lines []]"]
  by (simp add: no_merge_markers_def CONFLICT_START_def CONFLICT_END_def)

text \<open>A clean rebase on the change's own base reproduces the change exactly when no line of it
reads like a merge marker: a content line equal to \<open><<<<<<< left\<close> or \<open>>>>>>>> right\<close> is rewritten
although the rebase is reported clean.\<close>

theorem rebase_own_base_exact:
  "rclean (rebase base mine base) \<and> rconflicts (rebase base mine base) = [] \<and>
   (result (rebase base mine base) = mine \<longleftrightarrow>
      list_all (\<lambda>l. l \<noteq> CONFLICT_START \<and> l \<noteq> CONFLICT_END) (lines mine))"
  using relabel_id_iff [of mine] by (simp add: rebase_own_base no_merge_markers_def)

text \<open>Independence of the two patches does not make the replay clean: for edits of two adjacent
lines the checker judges the diffs independent, and the rebase still stores a conflict.\<close>

theorem rebase_adjacent_edits_conflict:
  "commute (diff (from_lines [''a'', ''b'']) (from_lines [''A'', ''b'']))
      (diff (from_lines [''a'', ''b'']) (from_lines [''a'', ''B''])) \<noteq> Overlap \<and>
   rconflicts (rebase (from_lines [''a'', ''b'']) (from_lines [''A'', ''b'']) (from_lines [''a'', ''B'']))
     = [\<lparr>cbase = [''a'', ''b''], cleft = [''A'', ''b''], cright = [''a'', ''B'']\<rparr>]"
  by code_simp

end
