(* ===== verification/ChangeGraph.thy ===== *)
theory ChangeGraph
  imports Prelude "HOL-Library.AList"
begin

text \<open>
  The change graph of \<open>omoplata-identity\<close>, \<open>change.rs\<close>: changes with their revisions and
  phases, the owner of every commit and the supersession edges. A \<open>HashMap\<close> is an association
  list with distinct keys (\<open>AList.update\<close> inserts, \<open>map_of\<close> looks up; the code never iterates
  over one), a \<open>HashSet\<close> of seen commits a list. The lemmas give I6: the supersession relation of
  every reachable graph is acyclic and relates registered commits only.
\<close>

section \<open>State\<close>

type_synonym change_id = string
type_synonym commit_id = string

datatype phase = Draft | Public

record change =
  change_id :: change_id
  revisions :: "commit_id list"
  phase_of :: phase

record change_graph =
  changes :: "(change_id \<times> change) list"
  commit_owner :: "(commit_id \<times> change_id) list"
  superseded_by :: "(commit_id \<times> commit_id) list"

datatype identity_error =
    UnknownChange string
  | UnknownCommit string
  | SupersessionCycle string string
  | PublicImmutable string
  | PhaseRegression string
  | Grammar string
  | ParseTree
  | UnknownOccurrence nat

definition change_draft :: "change_id \<Rightarrow> change" where
  "change_draft i = \<lparr>change_id = i, revisions = [], phase_of = Draft\<rparr>"

definition new_graph :: change_graph where
  "new_graph = \<lparr>changes = [], commit_owner = [], superseded_by = []\<rparr>"

section \<open>Operations\<close>

definition add_change :: "change_graph \<Rightarrow> change \<Rightarrow> change_graph" where
  "add_change g c =
     g\<lparr>commit_owner := fold (\<lambda>commit m. AList.update commit (change_id c) m) (revisions c) (commit_owner g),
       changes := AList.update (change_id c) c (changes g)\<rparr>"

definition add_revision ::
  "change_graph \<Rightarrow> change_id \<Rightarrow> commit_id \<Rightarrow> identity_error + change_graph" where
  "add_revision g cid commit =
     (case map_of (changes g) cid of
        None \<Rightarrow> Inl (UnknownChange cid)
      | Some c \<Rightarrow> Inr (g\<lparr>commit_owner := AList.update commit cid (commit_owner g),
          changes := AList.update cid (c\<lparr>revisions := revisions c @ [commit]\<rparr>) (changes g)\<rparr>))"

definition change_of :: "change_graph \<Rightarrow> change_id \<Rightarrow> change option" where
  "change_of g cid = map_of (changes g) cid"

lemma seen_grows:
  assumes "map_of sb c = Some n" "n \<notin> set seen"
  shows "card (set (map snd sb) - set (n # seen)) < card (set (map snd sb) - set seen)"
proof -
  have "n \<in> set (map snd sb)" using map_of_SomeD [OF assms(1)] by force
  then show ?thesis using assms(2) by (intro psubset_card_mono) auto
qed

function reaches_loop ::
  "(commit_id \<times> commit_id) list \<Rightarrow> commit_id \<Rightarrow> commit_id \<Rightarrow> commit_id list \<Rightarrow> bool" where
  "reaches_loop sb target cursor seen =
     (case map_of sb cursor of
        None \<Rightarrow> False
      | Some n \<Rightarrow>
          if n = target then True
          else if n \<in> set seen then False
          else reaches_loop sb target n (n # seen))"
  by pat_completeness auto
termination
  by (relation "measure (\<lambda>(sb, target, cursor, seen). card (set (map snd sb) - set seen))")
     (use seen_grows in auto)

definition reaches :: "change_graph \<Rightarrow> commit_id \<Rightarrow> commit_id \<Rightarrow> bool" where
  "reaches g from' target =
     (if from' = target then True else reaches_loop (superseded_by g) target from' [])"

definition supersede ::
  "change_graph \<Rightarrow> commit_id \<Rightarrow> commit_id \<Rightarrow> identity_error + change_graph" where
  "supersede g old new =
     (case map_of (commit_owner g) old of
        None \<Rightarrow> Inl (UnknownCommit old)
      | Some owner \<Rightarrow>
          if map_of (commit_owner g) new = None then Inl (UnknownCommit new)
          else
            let ph = (case map_of (changes g) owner of Some c \<Rightarrow> phase_of c | None \<Rightarrow> Draft) in
            if ph = Public then Inl (PublicImmutable old)
            else if reaches g new old then Inl (SupersessionCycle old new)
            else Inr (g\<lparr>superseded_by := AList.update old new (superseded_by g)\<rparr>))"

function tip_loop :: "(commit_id \<times> commit_id) list \<Rightarrow> commit_id \<Rightarrow> commit_id list \<Rightarrow> commit_id" where
  "tip_loop sb cursor seen =
     (case map_of sb cursor of
        None \<Rightarrow> cursor
      | Some n \<Rightarrow> if n \<in> set seen then cursor else tip_loop sb n (n # seen))"
  by pat_completeness auto
termination
  by (relation "measure (\<lambda>(sb, cursor, seen). card (set (map snd sb) - set seen))")
     (use seen_grows in auto)

declare reaches_loop.simps [simp del] tip_loop.simps [simp del]

definition tip :: "change_graph \<Rightarrow> change_id \<Rightarrow> commit_id option" where
  "tip g cid =
     (case map_of (changes g) cid of
        None \<Rightarrow> None
      | Some c \<Rightarrow>
          (case revisions c of
             [] \<Rightarrow> None
           | r # _ \<Rightarrow> Some (tip_loop (superseded_by g) r [r])))"

definition set_phase :: "change_graph \<Rightarrow> change_id \<Rightarrow> phase \<Rightarrow> identity_error + change_graph" where
  "set_phase g cid ph =
     (case map_of (changes g) cid of
        None \<Rightarrow> Inl (UnknownChange cid)
      | Some c \<Rightarrow>
          if phase_of c = Public \<and> ph = Draft then Inl (PhaseRegression cid)
          else Inr (g\<lparr>changes := AList.update cid (c\<lparr>phase_of := ph\<rparr>) (changes g)\<rparr>))"

section \<open>The supersession relation\<close>

definition edges :: "(commit_id \<times> commit_id) list \<Rightarrow> (commit_id \<times> commit_id) set" where
  "edges sb = {(a, b). map_of sb a = Some b}"

lemma edges_iff [simp]: "(a, b) \<in> edges sb \<longleftrightarrow> map_of sb a = Some b"
  by (simp add: edges_def)

lemma map_of_update: "map_of (AList.update k v al) = (map_of al)(k \<mapsto> v)"
  by (simp add: update_conv')

lemma closed_trancl:
  assumes "(a, b) \<in> r\<^sup>+" "a \<in> S" "\<And>x y. x \<in> S \<Longrightarrow> (x, y) \<in> r \<Longrightarrow> y \<in> S"
  shows "b \<in> S"
  using assms(1,2) by (induction rule: trancl_induct) (auto intro: assms(3))

lemma reaches_loop_iff:
  assumes "target \<notin> set seen" "cursor \<in> set seen \<or> seen = []"
    and "\<And>s. s \<in> set seen \<Longrightarrow> s \<noteq> cursor \<Longrightarrow> \<exists>n. map_of sb s = Some n \<and> n \<in> set seen"
  shows "reaches_loop sb target cursor seen \<longleftrightarrow> (cursor, target) \<in> (edges sb)\<^sup>+"
  using assms
proof (induction sb target cursor seen rule: reaches_loop.induct)
  case (1 sb target cursor seen)
  show ?case
  proof (cases "map_of sb cursor")
    case None
    then show ?thesis by (subst reaches_loop.simps) (auto elim: converse_tranclE)
  next
    case (Some n)
    have step: "(cursor, target) \<in> (edges sb)\<^sup>+ \<longleftrightarrow> n = target \<or> (n, target) \<in> (edges sb)\<^sup>+"
      using Some by (auto elim: converse_tranclE intro: trancl_into_trancl2)
    consider "n = target" | "n \<noteq> target" "n \<in> set seen" | "n \<noteq> target" "n \<notin> set seen" by blast
    then show ?thesis
    proof cases
      case 1
      then show ?thesis using Some step by (subst reaches_loop.simps) simp
    next
      case 2
      have "y \<in> set seen" if "x \<in> set seen" "(x, y) \<in> edges sb" for x y
        using that "1.prems"(3) [of x] 2 Some by (cases "x = cursor") auto
      then have "(n, target) \<notin> (edges sb)\<^sup>+"
        using closed_trancl [of n target "edges sb" "set seen"] 2 "1.prems"(1) by blast
      then show ?thesis using Some step 2 by (subst reaches_loop.simps) simp
    next
      case 3
      have "reaches_loop sb target n (n # seen) \<longleftrightarrow> (n, target) \<in> (edges sb)\<^sup>+"
        using "1.prems" 3 Some by (intro "1.IH") auto
      then show ?thesis using Some step 3 by (subst reaches_loop.simps) simp
    qed
  qed
qed

lemma reaches_iff: "reaches g a b \<longleftrightarrow> (a, b) \<in> (edges (superseded_by g))\<^sup>*"
  using reaches_loop_iff [of b "[]" a "superseded_by g"]
  by (auto simp: reaches_def rtrancl_eq_or_trancl)

lemma tip_loop_terminal:
  assumes "acyclic (edges sb)" "cursor \<in> set seen" "\<And>s. s \<in> set seen \<Longrightarrow> (s, cursor) \<in> (edges sb)\<^sup>*"
  shows "map_of sb (tip_loop sb cursor seen) = None \<and> (cursor, tip_loop sb cursor seen) \<in> (edges sb)\<^sup>*"
  using assms
proof (induction sb cursor seen rule: tip_loop.induct)
  case (1 sb cursor seen)
  show ?case
  proof (cases "map_of sb cursor")
    case None
    then show ?thesis by (subst (1 2) tip_loop.simps) simp
  next
    case (Some n)
    have "n \<notin> set seen"
    proof
      assume "n \<in> set seen"
      then have "(n, cursor) \<in> (edges sb)\<^sup>*" by (rule "1.prems"(3))
      then have "(cursor, cursor) \<in> (edges sb)\<^sup>+" using Some by (meson edges_iff rtrancl_into_trancl2)
      then show False using "1.prems"(1) by (simp add: acyclic_def)
    qed
    moreover have e: "(cursor, n) \<in> edges sb" using Some by simp
    moreover have "(s, n) \<in> (edges sb)\<^sup>*" if "s \<in> set seen" for s
      using "1.prems"(3) [OF that] e by (rule rtrancl_into_rtrancl)
    ultimately have "map_of sb (tip_loop sb n (n # seen)) = None \<and>
        (n, tip_loop sb n (n # seen)) \<in> (edges sb)\<^sup>*"
      using "1.prems"(1) Some by (intro "1.IH") auto
    with Some \<open>n \<notin> set seen\<close> show ?thesis
      by (subst (1 2) tip_loop.simps) (auto intro: converse_rtrancl_into_rtrancl)
  qed
qed

lemma terminal_unique:
  "(a, t) \<in> (edges sb)\<^sup>* \<Longrightarrow> map_of sb t = None \<Longrightarrow> (a, t') \<in> (edges sb)\<^sup>* \<Longrightarrow> map_of sb t' = None \<Longrightarrow> t = t'"
proof (induction rule: converse_rtrancl_induct)
  case base
  then show ?case by (auto elim: converse_rtranclE)
next
  case (step y z)
  then have "(z, t') \<in> (edges sb)\<^sup>*" by (auto elim: converse_rtranclE)
  with step show ?case by blast
qed

section \<open>Reachable graphs\<close>

datatype graph_op =
    AddChange change
  | AddRevision change_id commit_id
  | Supersede commit_id commit_id
  | SetPhase change_id phase

inductive graph_step :: "change_graph \<Rightarrow> graph_op \<Rightarrow> change_graph \<Rightarrow> bool" where
  add: "graph_step g (AddChange c) (add_change g c)"
| rev: "add_revision g cid commit = Inr g' \<Longrightarrow> graph_step g (AddRevision cid commit) g'"
| sup: "supersede g old new = Inr g' \<Longrightarrow> graph_step g (Supersede old new) g'"
| phs: "set_phase g cid ph = Inr g' \<Longrightarrow> graph_step g (SetPhase cid ph) g'"

inductive_cases graph_stepE: "graph_step g op g'"
inductive_simps graph_step_simps:
  "graph_step g (AddChange c) g'" "graph_step g (AddRevision cid commit) g'"
  "graph_step g (Supersede old new) g'" "graph_step g (SetPhase cid ph) g'"

inductive reachable :: "change_graph \<Rightarrow> bool" where
  start: "reachable new_graph"
| step: "reachable g \<Longrightarrow> graph_step g op g' \<Longrightarrow> reachable g'"

definition graph_ok :: "change_graph \<Rightarrow> bool" where
  "graph_ok g \<longleftrightarrow>
     acyclic (edges (superseded_by g)) \<and>
     (\<forall>a b. map_of (superseded_by g) a = Some b \<longrightarrow>
        a \<in> dom (map_of (commit_owner g)) \<and> b \<in> dom (map_of (commit_owner g))) \<and>
     ran (map_of (commit_owner g)) \<subseteq> dom (map_of (changes g)) \<and>
     (\<forall>cid c. map_of (changes g) cid = Some c \<longrightarrow>
        change_id c = cid \<and> set (revisions c) \<subseteq> dom (map_of (commit_owner g)))"

lemma map_of_fold_update:
  "map_of (fold (\<lambda>k m. AList.update k v m) ks m) = (\<lambda>k. if k \<in> set ks then Some v else map_of m k)"
  by (induction ks arbitrary: m) (auto simp: map_of_update fun_eq_iff)

lemma graph_ok_new: "graph_ok new_graph"
  by (simp add: graph_ok_def new_graph_def edges_def acyclic_def)

lemma graph_ok_add_change: "graph_ok g \<Longrightarrow> graph_ok (add_change g c)"
  unfolding graph_ok_def add_change_def
  by (auto simp: map_of_update map_of_fold_update ran_def dom_def subset_iff split: if_splits)

lemma graph_ok_add_revision: "graph_ok g \<Longrightarrow> add_revision g cid commit = Inr g' \<Longrightarrow> graph_ok g'"
  unfolding graph_ok_def add_revision_def
  by (auto simp: map_of_update ran_def dom_def subset_iff split: if_splits option.splits) blast+

lemma graph_ok_set_phase: "graph_ok g \<Longrightarrow> set_phase g cid ph = Inr g' \<Longrightarrow> graph_ok g'"
  unfolding graph_ok_def set_phase_def
  by (auto simp: map_of_update ran_def dom_def subset_iff split: if_splits option.splits) blast+

lemma supersede_Inr_iff:
  "supersede g old new = Inr g' \<longleftrightarrow>
     (\<exists>owner. map_of (commit_owner g) old = Some owner \<and>
        (\<forall>c. map_of (changes g) owner = Some c \<longrightarrow> phase_of c = Draft)) \<and>
     new \<in> dom (map_of (commit_owner g)) \<and> (new, old) \<notin> (edges (superseded_by g))\<^sup>* \<and>
     g' = g\<lparr>superseded_by := AList.update old new (superseded_by g)\<rparr>"
proof (cases "map_of (commit_owner g) old")
  case None
  then show ?thesis by (simp add: supersede_def)
next
  case (Some owner)
  have "ph \<noteq> Public \<longleftrightarrow> ph = Draft" for ph by (cases ph) simp_all
  then show ?thesis using Some
    by (cases "map_of (changes g) owner"; cases "map_of (commit_owner g) new")
       (auto simp: supersede_def Let_def reaches_iff)
qed

lemma edges_update: "edges (AList.update a b sb) \<subseteq> insert (a, b) (edges sb)"
  by (auto simp: edges_def map_of_update split: if_splits)

lemma graph_ok_supersede: "graph_ok g \<Longrightarrow> supersede g old new = Inr g' \<Longrightarrow> graph_ok g'"
proof -
  assume ok: "graph_ok g" and s: "supersede g old new = Inr g'"
  then have "acyclic (insert (old, new) (edges (superseded_by g)))"
    by (simp add: supersede_Inr_iff acyclic_insert graph_ok_def)
  then have "acyclic (edges (AList.update old new (superseded_by g)))"
    using edges_update by (rule acyclic_subset)
  moreover have g': "changes g' = changes g" "commit_owner g' = commit_owner g"
      "superseded_by g' = AList.update old new (superseded_by g)"
    using s by (auto simp: supersede_Inr_iff)
  moreover have "old \<in> dom (map_of (commit_owner g))" "new \<in> dom (map_of (commit_owner g))"
    using s by (auto simp: supersede_Inr_iff)
  ultimately show "graph_ok g'"
    using ok unfolding graph_ok_def g' by (simp add: map_of_update)
qed

lemma graph_ok_step: "graph_step g op g' \<Longrightarrow> graph_ok g \<Longrightarrow> graph_ok g'"
  by (auto elim!: graph_stepE
      intro: graph_ok_add_change graph_ok_add_revision graph_ok_supersede graph_ok_set_phase)

lemma reachable_ok: "reachable g \<Longrightarrow> graph_ok g"
  by (induction rule: reachable.induct) (auto intro: graph_ok_new graph_ok_step)

lemma tip_spec:
  assumes "acyclic (edges (superseded_by g))" "map_of (changes g) cid = Some c" "revisions c = r # rs"
  shows "\<exists>t. tip g cid = Some t \<and> map_of (superseded_by g) t = None \<and> (r, t) \<in> (edges (superseded_by g))\<^sup>*"
  using tip_loop_terminal [OF assms(1), of r "[r]"] assms(2,3) by (auto simp: tip_def)

lemma phase_not_draft: "ph \<noteq> Draft \<longleftrightarrow> ph = Public"
  by (cases ph) simp_all

lemma step_public:
  assumes "graph_step g op g'" "\<And>c. op \<noteq> AddChange c" "map_of (changes g) cid = Some c" "phase_of c = Public"
  shows "\<exists>c'. map_of (changes g') cid = Some c' \<and> phase_of c' = Public"
  using assms
  by (cases rule: graph_stepE)
     (auto simp: add_revision_def set_phase_def supersede_Inr_iff map_of_update phase_not_draft
       split: option.splits if_splits)

lemma step_public_edges:
  assumes "graph_step g op g'" "map_of (commit_owner g) a = Some cid"
    and "map_of (changes g) cid = Some c" "phase_of c = Public"
  shows "map_of (superseded_by g') a = map_of (superseded_by g) a"
  using assms
  by (cases rule: graph_stepE)
     (auto simp: add_revision_def add_change_def set_phase_def supersede_Inr_iff map_of_update
       split: option.splits if_splits)

section \<open>Properties\<close>

text \<open>C5: Invariant I6 of every graph that the operations can build from the empty one: the
supersession relation is acyclic, and both ends of every edge are registered commits whose owner
is a change of the graph (no orphaned obsolescence).\<close>

theorem change_graph_I6:
  assumes "reachable g"
  shows "acyclic {(a, b). map_of (superseded_by g) a = Some b} \<and>
    dom (map_of (superseded_by g)) \<union> ran (map_of (superseded_by g)) \<subseteq> dom (map_of (commit_owner g)) \<and>
    ran (map_of (commit_owner g)) \<subseteq> dom (map_of (changes g))"
  using reachable_ok [OF assms] by (auto simp: graph_ok_def edges_def ran_def)

definition ex_graph :: change_graph where
  "ex_graph = add_change new_graph \<lparr>change_id = ''c1'', revisions = [''r1'', ''r2''], phase_of = Draft\<rparr>"

definition ex_graph2 :: change_graph where
  "ex_graph2 = ex_graph\<lparr>superseded_by := [(''r1'', ''r2'')]\<rparr>"

lemma ex_graph2_reachable: "reachable ex_graph2"
proof (rule reachable.step)
  show "reachable ex_graph"
    unfolding ex_graph_def by (rule reachable.step [OF reachable.start graph_step.add])
  have "supersede ex_graph ''r1'' ''r2'' = Inr ex_graph2" by code_simp
  then show "graph_step ex_graph (Supersede ''r1'' ''r2'') ex_graph2" by (rule graph_step.sup)
qed

lemma change_graph_I6_witness:
  "acyclic {(a, b). map_of (superseded_by ex_graph2) a = Some b} \<and> map_of (superseded_by ex_graph2) ''r1'' = Some ''r2''"
  using change_graph_I6 [OF ex_graph2_reachable] by (simp add: ex_graph2_def)

text \<open>The tip of every change with a revision exists, is not superseded, and is the only
non-superseded commit that supersession edges reach from the change's first revision; the guard of
the walk against cycles never cuts it short.\<close>

theorem tip_is_unique_head:
  assumes "reachable g" "change_of g cid = Some c" "revisions c \<noteq> []"
  shows "\<exists>t. tip g cid = Some t \<and>
    {h. (hd (revisions c), h) \<in> (edges (superseded_by g))\<^sup>* \<and> map_of (superseded_by g) h = None} = {t}"
proof -
  from reachable_ok [OF assms(1)] have "acyclic (edges (superseded_by g))" by (simp add: graph_ok_def)
  with assms obtain t where "tip g cid = Some t" "map_of (superseded_by g) t = None"
    "(hd (revisions c), t) \<in> (edges (superseded_by g))\<^sup>*"
    using tip_spec [of g cid c] by (cases "revisions c") (auto simp: change_of_def)
  then show ?thesis using terminal_unique by blast
qed

lemma tip_is_unique_head_witness: "tip ex_graph2 ''c1'' = Some ''r2''"
proof -
  let ?H = "{h. (''r1'', h) \<in> (edges (superseded_by ex_graph2))\<^sup>* \<and> map_of (superseded_by ex_graph2) h = None}"
  obtain t where t: "tip ex_graph2 ''c1'' = Some t" "?H = {t}"
    using tip_is_unique_head [OF ex_graph2_reachable, of "''c1''"
        "\<lparr>change_id = ''c1'', revisions = [''r1'', ''r2''], phase_of = Draft\<rparr>"]
    by (auto simp: change_of_def ex_graph2_def ex_graph_def add_change_def new_graph_def)
  have "''r2'' \<in> ?H" by (auto simp: ex_graph2_def)
  then show ?thesis unfolding t(2) using t(1) by simp
qed

text \<open>\<open>supersede\<close> decides exactly: on a reachable graph it fails with
\<open>SupersessionCycle\<close> precisely when both commits are registered, the old one is not of a public
change, and the new edge would make the relation cyclic (a self edge included).\<close>

theorem supersede_cycle_exact:
  assumes "reachable g"
  shows "(\<exists>a b. supersede g old new = Inl (SupersessionCycle a b)) \<longleftrightarrow>
    (\<exists>owner. map_of (commit_owner g) old = Some owner \<and> map_of (commit_owner g) new \<noteq> None \<and>
       (case map_of (changes g) owner of Some c \<Rightarrow> phase_of c = Draft | None \<Rightarrow> True)) \<and>
    \<not> acyclic (insert (old, new) (edges (superseded_by g)))"
proof -
  have "acyclic (edges (superseded_by g))" using reachable_ok [OF assms] by (simp add: graph_ok_def)
  moreover have "ph \<noteq> Public \<longleftrightarrow> ph = Draft" for ph by (cases ph) simp_all
  ultimately show ?thesis
    by (cases "map_of (commit_owner g) old"; cases "map_of (commit_owner g) new")
       (auto simp: supersede_def Let_def reaches_iff acyclic_insert split: option.splits)
qed

lemma supersede_cycle_exact_witness:
  "\<exists>a b. supersede ex_graph2 ''r2'' ''r1'' = Inl (SupersessionCycle a b)"
proof -
  have "\<exists>a b. supersede ex_graph2 ''r2'' ''r1'' = Inl (SupersessionCycle a b)"
    by (subst supersede_cycle_exact [OF ex_graph2_reachable])
       (auto simp: ex_graph2_def ex_graph_def add_change_def new_graph_def acyclic_insert edges_def
         intro: r_into_rtrancl)
  then show ?thesis .
qed

text \<open>Public changes are immutable under every operation other than re-adding a change: they stay
public, and no operation at all changes what supersedes a commit that a public change owns.\<close>

theorem public_change_immutable:
  assumes "graph_step g op g'" "map_of (changes g) cid = Some c" "phase_of c = Public"
  shows "(case op of AddChange _ \<Rightarrow> True
      | _ \<Rightarrow> map_option phase_of (map_of (changes g') cid) = Some Public) \<and>
    (\<forall>a. map_of (commit_owner g) a = Some cid \<longrightarrow>
       map_of (superseded_by g') a = map_of (superseded_by g) a)"
  using step_public [OF assms(1) _ assms(2,3)] step_public_edges [OF assms(1) _ assms(2,3)]
  by (cases op) auto

lemma public_change_immutable_witness:
  "map_option phase_of
     (map_of (changes (add_change new_graph \<lparr>change_id = ''p'', revisions = [''r'', ''s''], phase_of = Public\<rparr>)) ''p'')
   = Some Public"
proof -
  let ?g = "add_change new_graph \<lparr>change_id = ''p'', revisions = [''r''], phase_of = Public\<rparr>"
  let ?g' = "add_change new_graph \<lparr>change_id = ''p'', revisions = [''r'', ''s''], phase_of = Public\<rparr>"
  have "add_revision ?g ''p'' ''s'' = Inr ?g'" by code_simp
  then have "graph_step ?g (AddRevision ''p'' ''s'') ?g'" by (rule graph_step.rev)
  from public_change_immutable [OF this, of "''p''"] show ?thesis
    by (simp add: add_change_def new_graph_def)
qed

text \<open>Re-adding a change is the exception: \<open>add_change\<close> replaces a public change by a draft one,
and the commits it had published can be superseded afterwards.\<close>

theorem add_change_phase_regression:
  "let g = add_change new_graph \<lparr>change_id = ''p'', revisions = [''r'', ''s''], phase_of = Public\<rparr>;
       g' = add_change g (change_draft ''p'') in
   supersede g ''r'' ''s'' = Inl (PublicImmutable ''r'') \<and>
   set_phase g ''p'' Draft = Inl (PhaseRegression ''p'') \<and>
   is_ok (supersede g' ''r'' ''s'') \<and> tip g' ''p'' = None"
  by code_simp

end
