(* ===== verification/Codec.thy ===== *)
theory Codec
  imports Prelude
begin

text \<open>
  The contract of the encodings of the program: a partial decoder inverts the encoder on
  well-formed values. \<open>codec\<close> is the contract of a whole text (objects, object ids, refs),
  \<open>stream_codec\<close> that of a self-delimiting one (pkt-lines, pack varints), which gives the former.
  The components interpret them on their own encoders.
\<close>

section \<open>UTF-8\<close>

text \<open>\<open>str::from_utf8\<close>: the well-formed byte sequences of the Unicode standard.\<close>

abbreviation byte :: "char \<Rightarrow> nat" where
  "byte c \<equiv> of_char c"

definition cont :: "char \<Rightarrow> bool" where
  "cont c \<longleftrightarrow> 128 \<le> byte c \<and> byte c < 192"

function utf8_valid :: "string \<Rightarrow> bool" where
  "utf8_valid s =
     (case s of
        [] \<Rightarrow> True
      | a # s1 \<Rightarrow>
        if byte a < 128 then utf8_valid s1
        else (case s1 of
            [] \<Rightarrow> False
          | b # s2 \<Rightarrow>
            if 194 \<le> byte a \<and> byte a < 224 then cont b \<and> utf8_valid s2
            else (case s2 of
                [] \<Rightarrow> False
              | c # s3 \<Rightarrow>
                if 224 \<le> byte a \<and> byte a < 240 then
                  cont b \<and> (byte a = 224 \<longrightarrow> 160 \<le> byte b) \<and> (byte a = 237 \<longrightarrow> byte b < 160) \<and>
                  cont c \<and> utf8_valid s3
                else (case s3 of
                    [] \<Rightarrow> False
                  | d # s4 \<Rightarrow>
                    240 \<le> byte a \<and> byte a < 245 \<and>
                    cont b \<and> (byte a = 240 \<longrightarrow> 144 \<le> byte b) \<and> (byte a = 244 \<longrightarrow> byte b < 144) \<and>
                    cont c \<and> cont d \<and> utf8_valid s4))))"
  by pat_completeness auto
termination by (relation "measure length") auto

declare utf8_valid.simps [simp del]

lemma utf8_valid_Nil [simp]: "utf8_valid []"
  by (subst utf8_valid.simps) simp

lemma utf8_valid_ascii [simp]: "byte c < 128 \<Longrightarrow> utf8_valid (c # s) = utf8_valid s"
  by (subst utf8_valid.simps) simp

lemma utf8_valid_append [simp]: "utf8_valid s \<Longrightarrow> utf8_valid t \<Longrightarrow> utf8_valid (s @ t)"
proof (induction s rule: utf8_valid.induct)
  case (1 s)
  show ?case
  proof (cases s)
    case (Cons a s')
    then show ?thesis using "1.prems"
      by (subst (asm) utf8_valid.simps)
         (subst utf8_valid.simps, auto simp: "1.IH" split: list.split_asm if_split_asm)
  qed (use "1.prems" in simp)
qed

lemma utf8_valid_all_ascii: "list_all (\<lambda>c. byte c < 128) s \<Longrightarrow> utf8_valid s"
  by (induction s) auto

section \<open>White space\<close>

text \<open>The UTF-8 encodings of the Unicode white space characters, and \<open>str::trim\<close>.\<close>

definition ws_chars :: "string list" where
  "ws_chars =
     map (\<lambda>n. [char_of (n :: nat)]) [9, 10, 11, 12, 13, 32] @
     [[CHR 0xC2, CHR 0x85], [CHR 0xC2, CHR 0xA0], [CHR 0xE1, CHR 0x9A, CHR 0x80]] @
     map (\<lambda>n. [CHR 0xE2, CHR 0x80, char_of (n :: nat)]) ([128..<139] @ [168, 169, 175]) @
     [[CHR 0xE2, CHR 0x81, CHR 0x9F], [CHR 0xE3, CHR 0x80, CHR 0x80]]"

function strip_pats :: "string list \<Rightarrow> string \<Rightarrow> string" where
  "strip_pats ps s =
     (case find (\<lambda>p. p \<noteq> [] \<and> prefix p s) ps of
        None \<Rightarrow> s
      | Some p \<Rightarrow> strip_pats ps (drop (length p) s))"
  by pat_completeness auto
termination
proof (relation "measure (\<lambda>(ps, s). length s)", goal_cases)
  case (2 ps s p)
  then have "p \<noteq> [] \<and> prefix p s" by (auto simp: find_Some_iff)
  then show ?case by (cases p; cases s) auto
qed simp

declare strip_pats.simps [simp del]

definition trim :: "string \<Rightarrow> string" where
  "trim s = rev (strip_pats (map rev ws_chars) (rev (strip_pats ws_chars s)))"

lemma strip_pats_none: "\<forall>p\<in>set ps. p = [] \<or> \<not> prefix p s \<Longrightarrow> strip_pats ps s = s"
proof -
  assume "\<forall>p\<in>set ps. p = [] \<or> \<not> prefix p s"
  then have "find (\<lambda>p. p \<noteq> [] \<and> prefix p s) ps = None" unfolding find_None_iff by blast
  then show ?thesis by (subst strip_pats.simps) simp
qed

text \<open>Characters that begin or end no white space character.\<close>

definition solid :: "char \<Rightarrow> bool" where
  "solid c \<longleftrightarrow> 33 \<le> byte c \<and> byte c < 128"

lemma ws_chars_solid: "p \<in> set ws_chars \<Longrightarrow> p \<noteq> [] \<and> \<not> solid (hd p) \<and> \<not> solid (last p)"
  by (auto simp: ws_chars_def solid_def upt_rec)

lemma trim_solid: "solid (hd s) \<Longrightarrow> solid (last s) \<Longrightarrow> s \<noteq> [] \<Longrightarrow> trim s = s"
proof -
  assume a: "solid (hd s)" "solid (last s)" "s \<noteq> []"
  have "p \<in> set ws_chars \<Longrightarrow> \<not> prefix p s" for p
    using ws_chars_solid [of p] a by (cases p; cases s) auto
  then have 1: "strip_pats ws_chars s = s" by (intro strip_pats_none) blast
  have "p \<in> set ws_chars \<Longrightarrow> \<not> prefix (rev p) (rev s)" for p
    using ws_chars_solid [of p] a by (cases p rule: rev_cases; cases s rule: rev_cases) auto
  then have "strip_pats (map rev ws_chars) (rev s) = rev s" by (intro strip_pats_none) auto
  with 1 show ?thesis by (simp add: trim_def)
qed

text \<open>\<open>str::split_whitespace\<close>, with the characters of the word that is being read.\<close>

function words_from :: "string \<Rightarrow> string \<Rightarrow> string list" where
  "words_from cur s =
     (let done = (if cur = [] then [] else [cur]) in
      if s = [] then done
      else (case find (\<lambda>w. w \<noteq> [] \<and> prefix w s) ws_chars of
          Some w \<Rightarrow> done @ words_from [] (drop (length w) s)
        | None \<Rightarrow> words_from (cur @ [hd s]) (tl s)))"
  by pat_completeness auto
termination
proof (relation "measure (\<lambda>(cur, s). length s)")
  fix s :: string and w
  assume "s \<noteq> []" "find (\<lambda>w. w \<noteq> [] \<and> prefix w s) ws_chars = Some w"
  then have "w \<noteq> []" by (auto simp: find_Some_iff)
  then show "(([], drop (length w) s), (cur, s)) \<in> measure (\<lambda>(cur, s). length s)" for cur :: string
    using \<open>s \<noteq> []\<close> by (cases w) auto
qed auto

declare words_from.simps [simp del]

definition split_whitespace :: "string \<Rightarrow> string list" where
  "split_whitespace s = words_from [] s"

text \<open>\<open>to_ascii_lowercase\<close> of one byte.\<close>

definition ascii_lower :: "char \<Rightarrow> char" where
  "ascii_lower c = (if 65 \<le> byte c \<and> byte c \<le> 90 then char_of (byte c + 32) else c)"

section \<open>Hexadecimal\<close>

definition hex_digit :: "nat \<Rightarrow> char" where
  "hex_digit n = (if n < 10 then char_of (48 + n) else char_of (87 + n))"

definition hex_value :: "char \<Rightarrow> nat option" where
  "hex_value c =
     (let n = byte c in
      if 48 \<le> n \<and> n \<le> 57 then Some (n - 48)
      else if 97 \<le> n \<and> n \<le> 102 then Some (n - 87)
      else if 65 \<le> n \<and> n \<le> 70 then Some (n - 55)
      else None)"

primrec hex_acc :: "nat \<Rightarrow> string \<Rightarrow> nat option" where
  "hex_acc acc [] = Some acc"
| "hex_acc acc (c # cs) =
     (case hex_value c of None \<Rightarrow> None | Some d \<Rightarrow> hex_acc (16 * acc + d) cs)"

text \<open>\<open>from_str_radix(_, 16)\<close> of an unsigned integer below the limit \<open>m\<close>.\<close>

definition from_radix16 :: "nat \<Rightarrow> string \<Rightarrow> nat option" where
  "from_radix16 m s =
     (let ds = (case s of c # cs \<Rightarrow> if c = CHR ''+'' \<and> cs \<noteq> [] then cs else s | [] \<Rightarrow> s) in
      if ds = [] then None
      else (case hex_acc 0 ds of Some n \<Rightarrow> if n < m then Some n else None | None \<Rightarrow> None))"

definition hex_byte :: "char \<Rightarrow> string" where
  "hex_byte c = [hex_digit (byte c div 16), hex_digit (byte c mod 16)]"

definition hex_encode :: "string \<Rightarrow> string" where
  "hex_encode s = concat (map hex_byte s)"

lemma hex_value_digit [simp]: "n < 16 \<Longrightarrow> hex_value (hex_digit n) = Some n"
  by (auto simp: hex_value_def hex_digit_def Let_def)

lemma hex_digit_byte: "n < 16 \<Longrightarrow> byte (hex_digit n) = (if n < 10 then 48 + n else 87 + n)"
  by (simp add: hex_digit_def)

lemma byte_less [simp]: "byte c < 256"
  by (cases c) (simp add: of_char_def horner_sum_simps)

lemma byte_div [simp]: "byte c div 16 < 16"
  using byte_less [of c] by linarith

lemma from_radix16_byte: "from_radix16 256 (hex_byte c) = Some (byte c)"
proof -
  have "hex_digit (byte c div 16) \<noteq> CHR ''+''"
    using hex_digit_byte [of "byte c div 16"] by (auto split: if_splits)
  then show ?thesis by (simp add: from_radix16_def hex_byte_def Let_def)
qed

lemma length_hex_encode [simp]: "length (hex_encode s) = 2 * length s"
  by (induction s) (auto simp: hex_encode_def hex_byte_def)

lemma hex_encode_simps [simp]:
  "hex_encode [] = []" "hex_encode (c # s) = hex_byte c @ hex_encode s"
  "hex_encode (s @ t) = hex_encode s @ hex_encode t"
  by (simp_all add: hex_encode_def)

lemma hex_digit_ascii: "n < 16 \<Longrightarrow> byte (hex_digit n) < 128"
  by (simp add: hex_digit_byte)

lemma hex_encode_range: "c \<in> set (hex_encode s) \<Longrightarrow> \<exists>n<16. c = hex_digit n"
proof (induction s)
  case (Cons a s)
  have "byte a mod 16 < 16" by simp
  moreover have "c = hex_digit (byte a div 16) \<or> c = hex_digit (byte a mod 16) \<or> c \<in> set (hex_encode s)"
    using Cons.prems by (auto simp: hex_byte_def)
  ultimately show ?case using byte_div [of a] Cons.IH by blast
qed simp

lemma is_char_boundary_ascii: "list_all (\<lambda>c. byte c < 128) s \<Longrightarrow> i \<le> length s \<Longrightarrow> is_char_boundary s i"
  by (auto simp: is_char_boundary_def list_all_length)

lemma hex_encode_ascii: "list_all (\<lambda>c. byte c < 128) (hex_encode s)"
  using hex_encode_range hex_digit_ascii by (fastforce simp: list_all_iff)

lemma str_get_hex:
  "str_get (2 * length s) (2 * length s + 2) (hex_encode (s @ c # t)) = Some (hex_byte c)"
proof -
  have "slice_of (2 * length s) (2 * length s + 2) (hex_encode (s @ c # t)) = hex_byte c"
    by (simp add: slice_of_def) (simp add: hex_byte_def)
  then show ?thesis
    by (simp add: str_get_def is_char_boundary_ascii [OF hex_encode_ascii] del: hex_encode_simps)
qed

section \<open>Codecs\<close>

locale codec =
  fixes enc :: "'a \<Rightarrow> string"
    and dec :: "string \<Rightarrow> 'a option"
    and ok :: "'a \<Rightarrow> bool"
  assumes dec_enc: "ok x \<Longrightarrow> dec (enc x) = Some x"
begin

lemma enc_inject: "ok x \<Longrightarrow> ok y \<Longrightarrow> enc x = enc y \<longleftrightarrow> x = y"
  using dec_enc by (metis option.inject)

lemma dec_enc_iff: "ok x \<Longrightarrow> dec (enc x) = Some y \<longleftrightarrow> y = x"
  using dec_enc by auto

end

locale stream_codec =
  fixes senc :: "'a \<Rightarrow> string"
    and sdec :: "string \<Rightarrow> ('a \<times> string) option"
    and sok :: "'a \<Rightarrow> bool"
  assumes sdec_senc: "sok x \<Longrightarrow> sdec (senc x @ rest) = Some (x, rest)"
begin

definition whole :: "string \<Rightarrow> 'a option" where
  "whole s = (case sdec s of Some (x, []) \<Rightarrow> Some x | _ \<Rightarrow> None)"

lemma prefix_free: "sok x \<Longrightarrow> sok y \<Longrightarrow> senc x @ s = senc y @ t \<longleftrightarrow> x = y \<and> s = t"
  using sdec_senc by (metis option.inject prod.inject)

lemma whole_senc: "sok x \<Longrightarrow> whole (senc x) = Some x"
  using sdec_senc [of x "[]"] by (simp add: whole_def)

end

sublocale stream_codec \<subseteq> codec senc whole sok
  by unfold_locales (rule whole_senc)

end
