(* ===== verification/ObjectStore.thy ===== *)
theory ObjectStore
  imports Codec
begin

text \<open>
  The content-addressed object store of \<open>omoplata-store\<close>: \<open>object.rs\<close> (ids, trees, the canonical
  serialization and its parser) and the object half of \<open>lib.rs\<close> (\<open>write_object\<close>,
  \<open>read_object\<close>). SHA-256 is a parameter \<open>sha\<close>; the file system is the map of the object files.
  A computation that can panic has an option around its result, \<open>None\<close> for the panic: the only
  panic is the byte slice in \<open>hex_decode\<close>, which need not fall on a character boundary.
\<close>

section \<open>Ids\<close>

datatype hash_alg = Sha256

definition alg_str :: "hash_alg \<Rightarrow> string" where
  "alg_str a = (case a of Sha256 \<Rightarrow> ''sha256'')"

definition digest_len :: "hash_alg \<Rightarrow> nat" where
  "digest_len a = (case a of Sha256 \<Rightarrow> 32)"

datatype object_error =
    UnknownHashAlg string
  | MalformedId string
  | InvalidName string
  | Corrupt string

definition alg_from_str :: "string \<Rightarrow> object_error + hash_alg" where
  "alg_from_str s = (if s = ''sha256'' then Inr Sha256 else Inl (UnknownHashAlg s))"

record object_id =
  alg :: hash_alg
  digest :: string

definition id_hex :: "object_id \<Rightarrow> string" where
  "id_hex i = hex_encode (digest i)"

definition id_to_string :: "object_id \<Rightarrow> string" where
  "id_to_string i = alg_str (alg i) @ '':'' @ id_hex i"

function hex_decode_loop :: "string \<Rightarrow> nat \<Rightarrow> string option option" where
  "hex_decode_loop s i =
     (if i < length s then
        (case str_get i (i + 2) s of
           None \<Rightarrow> None
         | Some pair \<Rightarrow>
             (case from_radix16 256 pair of
                None \<Rightarrow> Some None
              | Some n \<Rightarrow> map_option (map_option ((#) (char_of n))) (hex_decode_loop s (i + 2))))
      else Some (Some []))"
  by pat_completeness auto
termination by (relation "measure (\<lambda>(s, i). length s - i)") auto

declare hex_decode_loop.simps [simp del]

definition hex_decode :: "string \<Rightarrow> string option option" where
  "hex_decode s = (if s = [] \<or> length s mod 2 \<noteq> 0 then Some None else hex_decode_loop s 0)"

fun split_once :: "char \<Rightarrow> string \<Rightarrow> (string \<times> string) option" where
  "split_once c [] = None"
| "split_once c (x # xs) =
     (if x = c then Some ([], xs) else map_option (\<lambda>(a, b). (x # a, b)) (split_once c xs))"

text \<open>\<open>rsplit_once\<close>: the text split at the last occurrence of a character.\<close>

definition rsplit_once :: "char \<Rightarrow> string \<Rightarrow> (string \<times> string) option" where
  "rsplit_once c s = map_option (\<lambda>(a, b). (rev b, rev a)) (split_once c (rev s))"

definition id_from_str :: "string \<Rightarrow> (object_error + object_id) option" where
  "id_from_str s =
     (case split_once CHR '':'' s of
        None \<Rightarrow> Some (Inl (MalformedId s))
      | Some (a, hex) \<Rightarrow>
        (case alg_from_str a of
           Inl e \<Rightarrow> Some (Inl e)
         | Inr al \<Rightarrow>
           (case hex_decode hex of
              None \<Rightarrow> None
            | Some None \<Rightarrow> Some (Inl (MalformedId s))
            | Some (Some d) \<Rightarrow>
                if length d \<noteq> digest_len al then Some (Inl (MalformedId s))
                else Some (Inr \<lparr>alg = al, digest = d\<rparr>))))"

section \<open>Trees\<close>

datatype object_kind = KBlob | KTree

definition kind_str :: "object_kind \<Rightarrow> string" where
  "kind_str k = (case k of KBlob \<Rightarrow> ''blob'' | KTree \<Rightarrow> ''tree'')"

definition kind_parse :: "string \<Rightarrow> object_kind option" where
  "kind_parse s = (if s = ''blob'' then Some KBlob else if s = ''tree'' then Some KTree else None)"

datatype entry_kind = EBlob | ETree

definition entry_kind_str :: "entry_kind \<Rightarrow> string" where
  "entry_kind_str k = (case k of EBlob \<Rightarrow> ''blob'' | ETree \<Rightarrow> ''tree'')"

definition entry_kind_parse :: "string \<Rightarrow> entry_kind option" where
  "entry_kind_parse s = (if s = ''blob'' then Some EBlob else if s = ''tree'' then Some ETree else None)"

record tree_entry =
  ename :: string
  ekind :: entry_kind
  eid :: object_id

record tree =
  entries :: "tree_entry list"

definition new_tree :: tree where
  "new_tree = \<lparr>entries = []\<rparr>"

text \<open>
  \<open>binary_search_by\<close> of the standard library: bisection between the bounds, \<open>Inr i\<close> for the index
  of a match and \<open>Inl i\<close> for the insertion point.
\<close>

function bisect :: "tree_entry list \<Rightarrow> string \<Rightarrow> nat \<Rightarrow> nat \<Rightarrow> nat + nat" where
  "bisect es name lo hi =
     (if lo < hi then
        let mid = lo + (hi - lo) div 2; n = ename (es ! mid) in
        if n = name then Inr mid
        else if n < name then bisect es name (mid + 1) hi
        else bisect es name lo mid
      else Inl lo)"
  by pat_completeness auto
termination by (relation "measure (\<lambda>(es, name, lo, hi). hi - lo)") auto

declare bisect.simps [simp del]

definition binary_search :: "tree_entry list \<Rightarrow> string \<Rightarrow> nat + nat" where
  "binary_search es name = bisect es name 0 (length es)"

definition validate_name :: "string \<Rightarrow> bool" where
  "validate_name name \<longleftrightarrow>
     \<not> (name = [] \<or> name = ''.'' \<or> name = ''..'' \<or> CHR ''/'' \<in> set name \<or> CHR 0x00 \<in> set name \<or>
        CHR 0x0A \<in> set name)"

definition tree_insert :: "tree \<Rightarrow> string \<Rightarrow> entry_kind \<Rightarrow> object_id \<Rightarrow> object_error + tree" where
  "tree_insert t name k i =
     (if \<not> validate_name name then Inl (InvalidName name)
      else let e = \<lparr>ename = name, ekind = k, eid = i\<rparr> in
        (case binary_search (entries t) name of
           Inr p \<Rightarrow> Inr (t\<lparr>entries := (entries t)[p := e]\<rparr>)
         | Inl p \<Rightarrow> Inr (t\<lparr>entries := take p (entries t) @ e # drop p (entries t)\<rparr>)))"

definition tree_get :: "tree \<Rightarrow> string \<Rightarrow> tree_entry option" where
  "tree_get t name =
     (case binary_search (entries t) name of Inr p \<Rightarrow> Some (entries t ! p) | Inl _ \<Rightarrow> None)"

section \<open>Objects\<close>

datatype object = BlobObj string | TreeObj tree

definition obj_kind :: "object \<Rightarrow> object_kind" where
  "obj_kind ob = (case ob of BlobObj _ \<Rightarrow> KBlob | TreeObj _ \<Rightarrow> KTree)"

definition entry_line :: "tree_entry \<Rightarrow> string" where
  "entry_line e = entry_kind_str (ekind e) @ '' '' @ id_to_string (eid e) @ '' '' @ ename e @ [CHR 0x0A]"

definition payload :: "object \<Rightarrow> string" where
  "payload ob = (case ob of BlobObj b \<Rightarrow> b | TreeObj t \<Rightarrow> concat (map entry_line (entries t)))"

definition serialize :: "object \<Rightarrow> string" where
  "serialize ob =
     kind_str (obj_kind ob) @ '' '' @ show_nat (length (payload ob)) @ [CHR 0x00] @ payload ob"

text \<open>\<open>split_terminator\<close>: as \<open>split\<close>, without the empty piece after a final separator.\<close>

definition split_terminator :: "char \<Rightarrow> string \<Rightarrow> string list" where
  "split_terminator c s = (let ps = split_on c s in if last ps = [] then butlast ps else ps)"

definition splitn3 :: "string \<Rightarrow> (string \<times> (string \<times> string option) option)" where
  "splitn3 line =
     (case split_once CHR '' '' line of
        None \<Rightarrow> (line, None)
      | Some (a, r) \<Rightarrow>
          (a, Some (case split_once CHR '' '' r of None \<Rightarrow> (r, None) | Some (b, c) \<Rightarrow> (b, Some c))))"

definition parse_entry :: "tree \<Rightarrow> string \<Rightarrow> (object_error + tree) option" where
  "parse_entry t line =
     (case splitn3 line of
        (_, None) \<Rightarrow> Some (Inl (Corrupt ''tree entry: no id''))
      | (_, Some (_, None)) \<Rightarrow> Some (Inl (Corrupt ''tree entry: no name''))
      | (kind_s, Some (id_s, Some name)) \<Rightarrow>
        (case entry_kind_parse kind_s of
           None \<Rightarrow> Some (Inl (Corrupt ''tree entry: bad kind''))
         | Some k \<Rightarrow>
           (case id_from_str id_s of
              None \<Rightarrow> None
            | Some (Inl _) \<Rightarrow> Some (Inl (Corrupt ''tree entry: bad id''))
            | Some (Inr i) \<Rightarrow>
              (case tree_insert t name k i of
                 Inl _ \<Rightarrow> Some (Inl (Corrupt ''tree entry: bad name''))
               | Inr t' \<Rightarrow> Some (Inr t')))))"

fun parse_entries :: "tree \<Rightarrow> string list \<Rightarrow> (object_error + tree) option" where
  "parse_entries t [] = Some (Inr t)"
| "parse_entries t (l # ls) =
     (case parse_entry t l of
        None \<Rightarrow> None
      | Some (Inl e) \<Rightarrow> Some (Inl e)
      | Some (Inr t') \<Rightarrow> parse_entries t' ls)"

definition parse_tree :: "string \<Rightarrow> (object_error + tree) option" where
  "parse_tree payl =
     (if payl = [] then Some (Inr new_tree)
      else if \<not> utf8_valid payl then Some (Inl (Corrupt ''non-utf8 tree payload''))
      else parse_entries new_tree (split_terminator CHR 0x0A payl))"

abbreviation usize_limit :: nat where
  "usize_limit \<equiv> 2 ^ 64"

definition deserialize :: "string \<Rightarrow> (object_error + object) option" where
  "deserialize bytes =
     (case position (\<lambda>c. c = CHR 0x00) bytes of
        None \<Rightarrow> Some (Inl (Corrupt ''missing header terminator''))
      | Some nul \<Rightarrow>
        let header = take nul bytes in
        if \<not> utf8_valid header then Some (Inl (Corrupt ''non-utf8 header''))
        else (case split_once CHR '' '' header of
            None \<Rightarrow> Some (Inl (Corrupt ''malformed header''))
          | Some (kind_s, len_s) \<Rightarrow>
            (case kind_parse kind_s of
               None \<Rightarrow> Some (Inl (Corrupt ''unknown kind''))
             | Some k \<Rightarrow>
               (case parse_uint usize_limit len_s of
                  None \<Rightarrow> Some (Inl (Corrupt ''bad length''))
                | Some len \<Rightarrow>
                  let payl = drop (nul + 1) bytes in
                  if length payl \<noteq> len then Some (Inl (Corrupt ''length mismatch''))
                  else (case k of
                      KBlob \<Rightarrow> Some (Inr (BlobObj payl))
                    | KTree \<Rightarrow> map_option (map_sum id TreeObj) (parse_tree payl))))))"

section \<open>The object files of a repository\<close>

type_synonym object_files = "string \<rightharpoonup> string"

datatype store_error =
    AlreadyInitialized string
  | NotInitialized string
  | ObjectNotFound object_id
  | Integrity object_id
  | ObjectErr object_error
  | StoreIo string

definition id_with :: "(string \<Rightarrow> string) \<Rightarrow> object \<Rightarrow> hash_alg \<Rightarrow> object_id" where
  "id_with sha ob al = \<lparr>alg = al, digest = (case al of Sha256 \<Rightarrow> sha (serialize ob))\<rparr>"

definition obj_id :: "(string \<Rightarrow> string) \<Rightarrow> object \<Rightarrow> object_id" where
  "obj_id sha ob = id_with sha ob Sha256"

definition object_path :: "object_id \<Rightarrow> string" where
  "object_path i =
     ''objects/'' @ alg_str (alg i) @ ''/'' @ take 2 (id_hex i) @ ''/'' @ drop 2 (id_hex i)"

definition write_object :: "(string \<Rightarrow> string) \<Rightarrow> object_files \<Rightarrow> object \<Rightarrow> object_id \<times> object_files" where
  "write_object sha fs ob =
     (let i = obj_id sha ob in
      if fs (object_path i) \<noteq> None then (i, fs)
      else (i, fs(object_path i \<mapsto> serialize ob)))"

definition read_object :: "(string \<Rightarrow> string) \<Rightarrow> object_files \<Rightarrow> object_id \<Rightarrow> (store_error + object) option" where
  "read_object sha fs i =
     (case fs (object_path i) of
        None \<Rightarrow> Some (Inl (ObjectNotFound i))
      | Some bytes \<Rightarrow>
        (case deserialize bytes of
           None \<Rightarrow> None
         | Some (Inl e) \<Rightarrow> Some (Inl (ObjectErr e))
         | Some (Inr ob) \<Rightarrow>
             if id_with sha ob (alg i) \<noteq> i then Some (Inl (Integrity i)) else Some (Inr ob)))"

definition has_object :: "object_files \<Rightarrow> object_id \<Rightarrow> bool" where
  "has_object fs i \<longleftrightarrow> fs (object_path i) \<noteq> None"

definition write_blob :: "(string \<Rightarrow> string) \<Rightarrow> object_files \<Rightarrow> string \<Rightarrow> object_id \<times> object_files" where
  "write_blob sha fs bytes = write_object sha fs (BlobObj bytes)"

section \<open>Ids round trip\<close>

lemma split_once_append: "c \<notin> set a \<Longrightarrow> split_once c (a @ c # b) = Some (a, b)"
  by (induction a) auto

lemma hex_decode_loop_encode:
  "hex_decode_loop (hex_encode (s @ t)) (2 * length s) = Some (Some t)"
proof (induction t arbitrary: s)
  case Nil
  then show ?case by (subst hex_decode_loop.simps) simp
next
  case (Cons c t)
  have "hex_decode_loop (hex_encode (s @ c # t)) (2 * length s + 2) = Some (Some t)"
    using Cons.IH [of "s @ [c]"] by simp
  then show ?case
    by (subst hex_decode_loop.simps)
       (simp add: str_get_hex from_radix16_byte del: hex_encode_simps add_2_eq_Suc add_2_eq_Suc')
qed

lemma hex_decode_encode: "s \<noteq> [] \<Longrightarrow> hex_decode (hex_encode s) = Some (Some s)"
  using hex_decode_loop_encode [of "[]" s] by (cases s) (auto simp: hex_decode_def hex_byte_def)

definition id_ok :: "object_id \<Rightarrow> bool" where
  "id_ok i \<longleftrightarrow> length (digest i) = digest_len (alg i)"

lemma id_from_to_string: "id_ok i \<Longrightarrow> id_from_str (id_to_string i) = Some (Inr i)"
proof -
  assume ok: "id_ok i"
  have a: "alg i = Sha256" by (cases "alg i") simp
  have "digest i \<noteq> []" using ok by (auto simp: id_ok_def digest_len_def split: hash_alg.splits)
  then show ?thesis
    using ok by (simp add: id_from_str_def id_to_string_def a alg_str_def alg_from_str_def id_hex_def
        hex_decode_encode id_ok_def)
qed

definition parse_id :: "string \<Rightarrow> object_id option" where
  "parse_id s = (case id_from_str s of Some (Inr i) \<Rightarrow> Some i | _ \<Rightarrow> None)"

interpretation id_codec: codec id_to_string parse_id id_ok
  by unfold_locales (simp add: parse_id_def id_from_to_string)

lemma hex_char_free: "c \<in> set (hex_encode s) \<Longrightarrow> 48 \<le> byte c \<and> byte c < 103"
  using hex_encode_range [of c s] hex_digit_byte by fastforce

lemma id_string_chars: "c \<in> set (id_to_string i) \<Longrightarrow> 48 \<le> byte c \<and> byte c < 128"
  by (auto simp: id_to_string_def id_hex_def alg_str_def dest: hex_char_free split: hash_alg.splits)

section \<open>Bisection and trees\<close>

definition sorted_names :: "tree_entry list \<Rightarrow> bool" where
  "sorted_names es \<longleftrightarrow> sorted_wrt (\<lambda>a b. ename a < ename b) es"

lemma sorted_names_nth:
  "sorted_names es \<Longrightarrow> i < j \<Longrightarrow> j < length es \<Longrightarrow> ename (es ! i) < ename (es ! j)"
  by (simp add: sorted_names_def sorted_wrt_iff_nth_less)

lemma bisect_spec:
  assumes "sorted_names es" "hi \<le> length es" "lo \<le> hi"
    and "\<And>k. k < lo \<Longrightarrow> ename (es ! k) < name" "\<And>k. hi \<le> k \<Longrightarrow> k < length es \<Longrightarrow> name < ename (es ! k)"
  shows "case bisect es name lo hi of
      Inr p \<Rightarrow> p < length es \<and> ename (es ! p) = name
    | Inl p \<Rightarrow> p \<le> length es \<and> (\<forall>k<p. ename (es ! k) < name) \<and>
        (\<forall>k. p \<le> k \<longrightarrow> k < length es \<longrightarrow> name < ename (es ! k))"
  using assms
proof (induction es name lo hi rule: bisect.induct)
  case (1 es name lo hi)
  show ?case
  proof (cases "lo < hi")
    case False
    then have "lo = hi" using "1.prems" by simp
    then show ?thesis using "1.prems" by (subst bisect.simps) auto
  next
    case True
    define mid where "mid = lo + (hi - lo) div 2"
    have mid: "lo \<le> mid" "mid < hi" using True by (auto simp: mid_def)
    consider "ename (es ! mid) = name" | "ename (es ! mid) < name" | "name < ename (es ! mid)"
      by (metis not_less_iff_gr_or_eq)
    then show ?thesis
    proof cases
      case 1
      then show ?thesis using True mid "1.prems"(2) by (subst bisect.simps) (simp add: mid_def [symmetric] Let_def)
    next
      case 2
      have "ename (es ! k) < name" if "k < mid + 1" for k
        using that 2 sorted_names_nth [OF "1.prems"(1), of k mid] mid "1.prems"(2)
        by (cases "k = mid") auto
      then have "case bisect es name (mid + 1) hi of
          Inr p \<Rightarrow> p < length es \<and> ename (es ! p) = name
        | Inl p \<Rightarrow> p \<le> length es \<and> (\<forall>k<p. ename (es ! k) < name) \<and>
            (\<forall>k. p \<le> k \<longrightarrow> k < length es \<longrightarrow> name < ename (es ! k))"
        using "1.prems" mid 2 by (intro "1.IH"(1) [OF True mid_def refl]) auto
      then show ?thesis using True 2 by (subst bisect.simps) (auto simp: mid_def [symmetric] Let_def)
    next
      case 3
      have ne: "ename (es ! mid) \<noteq> name" "\<not> ename (es ! mid) < name" using 3 by auto
      have "name < ename (es ! k)" if "mid \<le> k" "k < length es" for k
        using that 3 sorted_names_nth [OF "1.prems"(1), of mid k] by (cases "k = mid") auto
      then have "case bisect es name lo mid of
          Inr p \<Rightarrow> p < length es \<and> ename (es ! p) = name
        | Inl p \<Rightarrow> p \<le> length es \<and> (\<forall>k<p. ename (es ! k) < name) \<and>
            (\<forall>k. p \<le> k \<longrightarrow> k < length es \<longrightarrow> name < ename (es ! k))"
        using "1.prems" mid ne by (intro "1.IH"(2) [OF True mid_def refl]) auto
      with ne show ?thesis using True by (subst bisect.simps) (auto simp: mid_def [symmetric] Let_def)
    qed
  qed
qed

lemma search_spec:
  "sorted_names es \<Longrightarrow> case binary_search es name of
      Inr p \<Rightarrow> p < length es \<and> ename (es ! p) = name
    | Inl p \<Rightarrow> p \<le> length es \<and> (\<forall>k<p. ename (es ! k) < name) \<and>
        (\<forall>k. p \<le> k \<longrightarrow> k < length es \<longrightarrow> name < ename (es ! k))"
  unfolding binary_search_def by (rule bisect_spec) auto

lemma sorted_names_inj:
  "sorted_names es \<Longrightarrow> a \<in> set es \<Longrightarrow> b \<in> set es \<Longrightarrow> ename a = ename b \<Longrightarrow> a = b"
  by (metis in_set_conv_nth less_irrefl linorder_neqE_nat sorted_names_nth)

lemma tree_get_iff:
  "sorted_names (entries t) \<Longrightarrow> tree_get t n = Some e \<longleftrightarrow> e \<in> set (entries t) \<and> ename e = n"
  using search_spec [of "entries t" n] sorted_names_inj [of "entries t"]
  by (auto simp: tree_get_def in_set_conv_nth split: sum.splits) (metis not_le less_irrefl)+

definition entry_ok :: "tree_entry \<Rightarrow> bool" where
  "entry_ok e \<longleftrightarrow> validate_name (ename e) \<and> utf8_valid (ename e) \<and> id_ok (eid e)"

definition tree_ok :: "tree \<Rightarrow> bool" where
  "tree_ok t \<longleftrightarrow> sorted_names (entries t) \<and> list_all entry_ok (entries t)"

lemma sorted_names_update:
  "sorted_names es \<Longrightarrow> p < length es \<Longrightarrow> ename e = ename (es ! p) \<Longrightarrow> sorted_names (es[p := e])"
  by (auto simp: sorted_names_def sorted_wrt_iff_nth_less nth_list_update)

lemma sorted_names_insert:
  assumes "sorted_names es" "p \<le> length es" "\<forall>k<p. ename (es ! k) < ename e"
    and "\<forall>k. p \<le> k \<longrightarrow> k < length es \<longrightarrow> ename e < ename (es ! k)"
  shows "sorted_names (take p es @ e # drop p es)"
proof -
  have "ename x < ename e" if "x \<in> set (take p es)" for x
    using that assms(2,3) by (auto simp: in_set_conv_nth)
  moreover have "ename e < ename y" if "y \<in> set (drop p es)" for y
    using that assms(4) by (auto simp: in_set_conv_nth)
  moreover have "sorted_wrt (\<lambda>a b. ename a < ename b) (take p es @ drop p es)"
    using assms(1) by (simp add: sorted_names_def)
  ultimately show ?thesis
    unfolding sorted_names_def sorted_wrt_append by (auto intro: less_trans)
qed

lemma tree_insert_spec:
  assumes "sorted_names (entries t)" "tree_insert t name k i = Inr t'"
  shows "sorted_names (entries t') \<and>
    set (entries t') = insert \<lparr>ename = name, ekind = k, eid = i\<rparr> {e \<in> set (entries t). ename e \<noteq> name}"
proof -
  let ?es = "entries t" and ?e = "\<lparr>ename = name, ekind = k, eid = i\<rparr>"
  note S = search_spec [OF assms(1), of name]
  show ?thesis
  proof (cases "binary_search ?es name")
    case (Inr p)
    with S have p: "p < length ?es" "ename (?es ! p) = name" by auto
    have t': "entries t' = ?es[p := ?e]"
      using assms(2) Inr by (auto simp: tree_insert_def Let_def split: if_splits)
    have only: "j = p" if "j < length ?es" "ename (?es ! j) = name" for j
      using that p sorted_names_nth [OF assms(1), of j p] sorted_names_nth [OF assms(1), of p j]
      by (cases j p rule: linorder_cases) auto
    have "x \<in> set (?es[p := ?e]) \<longleftrightarrow> x = ?e \<or> x \<in> set ?es \<and> ename x \<noteq> name" for x
    proof
      assume "x \<in> set (?es[p := ?e])"
      then obtain j where j: "j < length ?es" "x = ?es[p := ?e] ! j" by (auto simp: in_set_conv_nth)
      then show "x = ?e \<or> x \<in> set ?es \<and> ename x \<noteq> name"
        using only [OF j(1)] p(1) by (cases "j = p") auto
    next
      assume "x = ?e \<or> x \<in> set ?es \<and> ename x \<noteq> name"
      then show "x \<in> set (?es[p := ?e])"
      proof
        assume "x = ?e"
        then show ?thesis using set_update_memI [OF p(1)] by simp
      next
        assume x: "x \<in> set ?es \<and> ename x \<noteq> name"
        then obtain j where j: "j < length ?es" "x = ?es ! j" by (auto simp: in_set_conv_nth)
        then have "x = ?es[p := ?e] ! j" using x p by (cases "j = p") auto
        then show ?thesis using j(1) nth_mem [of j "?es[p := ?e]"] by simp
      qed
    qed
    then have "set (?es[p := ?e]) = insert ?e {e \<in> set ?es. ename e \<noteq> name}" by blast
    then show ?thesis using p assms(1) by (simp add: t' sorted_names_update)
  next
    case (Inl p)
    with S have p: "p \<le> length ?es" "\<forall>k<p. ename (?es ! k) < name"
      "\<forall>k. p \<le> k \<longrightarrow> k < length ?es \<longrightarrow> name < ename (?es ! k)" by auto
    have t': "entries t' = take p ?es @ ?e # drop p ?es"
      using assms(2) Inl by (auto simp: tree_insert_def Let_def split: if_splits)
    have "ename e \<noteq> name" if "e \<in> set ?es" for e
      using that p by (metis in_set_conv_nth less_irrefl not_le)
    moreover have "set (take p ?es) \<union> set (drop p ?es) = set ?es"
      by (metis append_take_drop_id set_append)
    ultimately have "set (take p ?es @ ?e # drop p ?es) = insert ?e {e \<in> set ?es. ename e \<noteq> name}"
      by auto
    then show ?thesis using p assms(1) by (simp add: t' sorted_names_insert)
  qed
qed

lemma tree_insert_Inr: "validate_name name \<longleftrightarrow> (\<exists>t'. tree_insert t name k i = Inr t')"
  by (auto simp: tree_insert_def Let_def split: sum.splits)

lemma tree_insert_ok:
  "tree_ok t \<Longrightarrow> utf8_valid name \<Longrightarrow> id_ok i \<Longrightarrow> tree_insert t name k i = Inr t' \<Longrightarrow> tree_ok t'"
  using tree_insert_spec [of t name k i t'] tree_insert_Inr [of name t k i]
  by (auto simp: tree_ok_def list_all_iff entry_ok_def)

lemma sorted_names_unique:
  "sorted_names xs \<Longrightarrow> sorted_names ys \<Longrightarrow> set xs = set ys \<Longrightarrow> xs = ys"
proof (induction xs arbitrary: ys)
  case Nil
  then show ?case by simp
next
  case (Cons x xs)
  then obtain y ys' where ys: "ys = y # ys'" by (cases ys) auto
  have x: "\<forall>z\<in>set xs. ename x < ename z" "sorted_names xs"
    and y: "\<forall>z\<in>set ys'. ename y < ename z" "sorted_names ys'"
    using Cons.prems ys by (auto simp: sorted_names_def)
  have "x = y"
  proof (rule ccontr)
    assume "x \<noteq> y"
    then have "x \<in> set ys'" "y \<in> set xs" using Cons.prems(3) ys by auto
    then show False using x(1) y(1) by (meson less_asym)
  qed
  moreover have "x \<notin> set xs" "y \<notin> set ys'" using x(1) y(1) by auto
  ultimately have "set xs = set ys'" using Cons.prems(3) ys by auto
  then show ?case using Cons.IH x(2) y(2) \<open>x = y\<close> ys by blast
qed

lemma tree_insert_last:
  assumes "sorted_names (es @ [e])" "validate_name (ename e)"
  shows "tree_insert \<lparr>entries = es\<rparr> (ename e) (ekind e) (eid e) = Inr \<lparr>entries = es @ [e]\<rparr>"
proof -
  obtain t' where t': "tree_insert \<lparr>entries = es\<rparr> (ename e) (ekind e) (eid e) = Inr t'"
    using tree_insert_Inr assms(2) by blast
  have es: "sorted_names es" "\<forall>x\<in>set es. ename x < ename e"
    using assms(1) by (auto simp: sorted_names_def sorted_wrt_append)
  have "\<lparr>ename = ename e, ekind = ekind e, eid = eid e\<rparr> = e" by simp
  then have "sorted_names (entries t')" "set (entries t') = set (es @ [e])"
    using tree_insert_spec [OF _ t'] es by auto
  then have "entries t' = es @ [e]" using sorted_names_unique assms(1) by blast
  then show ?thesis using t' by (cases t') simp
qed

section \<open>Objects round trip\<close>

definition obj_ok :: "object \<Rightarrow> bool" where
  "obj_ok ob \<longleftrightarrow> length (payload ob) < usize_limit \<and> (case ob of BlobObj _ \<Rightarrow> True | TreeObj t \<Rightarrow> tree_ok t)"

definition entry_text :: "tree_entry \<Rightarrow> string" where
  "entry_text e = entry_kind_str (ekind e) @ '' '' @ id_to_string (eid e) @ '' '' @ ename e"

lemma entry_line_text: "entry_line e = entry_text e @ [CHR 0x0A]"
  by (simp add: entry_line_def entry_text_def)

lemma id_string_no: "byte c < 48 \<Longrightarrow> c \<notin> set (id_to_string i)"
  using id_string_chars by fastforce

lemma entry_text_splitn3:
  "splitn3 (entry_text e) = (entry_kind_str (ekind e), Some (id_to_string (eid e), Some (ename e)))"
proof -
  have k: "CHR '' '' \<notin> set (entry_kind_str (ekind e))"
    by (simp add: entry_kind_str_def split: entry_kind.splits)
  have i: "CHR '' '' \<notin> set (id_to_string (eid e))" by (rule id_string_no) simp
  show ?thesis
    using split_once_append [OF k, of "id_to_string (eid e) @ CHR '' '' # ename e"]
      split_once_append [OF i, of "ename e"]
    by (simp add: splitn3_def entry_text_def)
qed

lemma entry_kind_parse_str [simp]: "entry_kind_parse (entry_kind_str k) = Some k"
  by (cases k) (simp_all add: entry_kind_parse_def entry_kind_str_def)

lemma entry_text_no_newline: "entry_ok e \<Longrightarrow> CHR 0x0A \<notin> set (entry_text e)"
  using id_string_no [of "CHR 0x0A" "eid e"]
  by (auto simp: entry_text_def entry_ok_def validate_name_def entry_kind_str_def split: entry_kind.splits)

lemma split_terminator_lines:
  "list_all (\<lambda>l. c \<notin> set l) ls \<Longrightarrow> split_terminator c (concat (map (\<lambda>l. l @ [c]) ls)) = ls"
proof -
  assume "list_all (\<lambda>l. c \<notin> set l) ls"
  then have "split_on c (concat (map (\<lambda>l. l @ [c]) ls)) = ls @ [[]]"
    by (induction ls) (simp_all add: split_on_append_sep)
  then show ?thesis by (simp add: split_terminator_def)
qed

lemma parse_entries_texts:
  "sorted_names (es0 @ es) \<Longrightarrow> list_all entry_ok es \<Longrightarrow>
   parse_entries \<lparr>entries = es0\<rparr> (map entry_text es) = Some (Inr \<lparr>entries = es0 @ es\<rparr>)"
proof (induction es arbitrary: es0)
  case Nil
  then show ?case by simp
next
  case (Cons e es)
  have s: "sorted_names (es0 @ [e])" "sorted_names ((es0 @ [e]) @ es)"
    using Cons.prems(1) by (auto simp: sorted_names_def sorted_wrt_append)
  have "validate_name (ename e)" "id_ok (eid e)" using Cons.prems(2) by (auto simp: entry_ok_def)
  then have "parse_entry \<lparr>entries = es0\<rparr> (entry_text e) = Some (Inr \<lparr>entries = es0 @ [e]\<rparr>)"
    using tree_insert_last [OF s(1)] by (simp add: parse_entry_def entry_text_splitn3 id_from_to_string)
  then show ?case using Cons.IH [OF s(2)] Cons.prems(2) by simp
qed

lemma utf8_entry_text: "entry_ok e \<Longrightarrow> utf8_valid (entry_text e)"
proof -
  have "list_all (\<lambda>c. byte c < 128) (id_to_string (eid e))"
    using id_string_chars by (auto simp: list_all_iff)
  then have "utf8_valid (id_to_string (eid e))" by (rule utf8_valid_all_ascii)
  moreover have "utf8_valid (entry_kind_str (ekind e))" "utf8_valid '' ''"
    by (simp_all add: entry_kind_str_def split: entry_kind.splits)
  ultimately show "entry_ok e \<Longrightarrow> utf8_valid (entry_text e)"
    unfolding entry_text_def entry_ok_def by (intro utf8_valid_append) auto
qed

lemma utf8_tree_payload: "list_all entry_ok es \<Longrightarrow> utf8_valid (concat (map entry_line es))"
  by (induction es) (auto simp: entry_line_text utf8_entry_text)

lemma parse_tree_payload:
  assumes "tree_ok t" shows "parse_tree (payload (TreeObj t)) = Some (Inr t)"
proof (cases "entries t")
  case Nil
  then show ?thesis by (cases t) (simp add: parse_tree_def payload_def new_tree_def)
next
  case (Cons e es)
  have lines: "split_terminator CHR 0x0A (concat (map entry_line (entries t))) = map entry_text (entries t)"
    using split_terminator_lines [of "CHR 0x0A" "map entry_text (entries t)"] assms
    by (simp add: tree_ok_def list_all_iff entry_text_no_newline entry_line_text comp_def cong: map_cong)
  have "payload (TreeObj t) \<noteq> []" using Cons by (simp add: payload_def entry_line_def)
  moreover have "utf8_valid (payload (TreeObj t))"
    using assms by (simp add: payload_def tree_ok_def utf8_tree_payload)
  ultimately show ?thesis
    using assms parse_entries_texts [of "[]" "entries t"]
    by (auto simp: parse_tree_def lines payload_def new_tree_def tree_ok_def)
qed

lemma show_nat_range: "c \<in> set (show_nat n) \<Longrightarrow> 48 \<le> byte c \<and> byte c < 58"
  using show_nat_digits [of c n] digit_char_range by fastforce

lemma deserialize_serialize: "obj_ok ob \<Longrightarrow> deserialize (serialize ob) = Some (Inr ob)"
proof -
  assume ok: "obj_ok ob"
  let ?h = "kind_str (obj_kind ob) @ '' '' @ show_nat (length (payload ob))"
  have kind: "list_all (\<lambda>c. 97 \<le> byte c \<and> byte c < 128) (kind_str (obj_kind ob))"
    by (simp add: kind_str_def split: object_kind.splits)
  have "list_all (\<lambda>c. 0 < byte c \<and> byte c < 128) ?h"
    using kind show_nat_range by (fastforce simp: list_all_iff)
  then have a: "\<forall>c\<in>set ?h. 0 < byte c \<and> byte c < 128" unfolding list_all_iff .
  have h: "CHR 0x00 \<notin> set ?h" using a [rule_format, of "CHR 0x00"] by auto
  have u: "utf8_valid ?h" using a by (intro utf8_valid_all_ascii) (simp only: list_all_iff, blast)
  have "position (\<lambda>c. c = CHR 0x00) ?h = None" using h unfolding position_None_iff by blast
  then have pos: "position (\<lambda>c. c = CHR 0x00) (serialize ob) = Some (length ?h)"
    using position_append [of "\<lambda>c. c = CHR 0x00" ?h "CHR 0x00 # payload ob"] by (simp add: serialize_def)
  have ser: "serialize ob = ?h @ CHR 0x00 # payload ob" by (simp add: serialize_def)
  have "CHR '' '' \<notin> set (kind_str (obj_kind ob))" using kind by (auto simp: list_all_iff)
  then have sp: "split_once CHR '' '' ?h = Some (kind_str (obj_kind ob), show_nat (length (payload ob)))"
    using split_once_append by simp
  have tk: "take (length ?h) (serialize ob) = ?h" and dr: "drop (length ?h + 1) (serialize ob) = payload ob"
    unfolding ser by simp_all
  have kp: "kind_parse (kind_str k) = Some k" for k
    by (cases k) (simp_all add: kind_parse_def kind_str_def)
  have len: "parse_uint usize_limit (show_nat (length (payload ob))) = Some (length (payload ob))"
    using ok by (intro parse_uint_show) (simp add: obj_ok_def)
  show ?thesis
    unfolding deserialize_def pos option.case Let_def tk dr using u sp kp len ok
    by (cases ob) (simp_all add: obj_kind_def obj_ok_def parse_tree_payload, simp add: payload_def)
qed

definition parse_object :: "string \<Rightarrow> object option" where
  "parse_object s = (case deserialize s of Some (Inr ob) \<Rightarrow> Some ob | _ \<Rightarrow> None)"

interpretation object_codec: codec serialize parse_object obj_ok
  by unfold_locales (simp add: parse_object_def deserialize_serialize)

section \<open>Trees built by insertion\<close>

inductive tree_built :: "tree \<Rightarrow> bool" where
  new: "tree_built new_tree"
| ins: "tree_built t \<Longrightarrow> tree_insert t name k i = Inr t' \<Longrightarrow> tree_built t'"

lemma tree_built_sorted: "tree_built t \<Longrightarrow> sorted_names (entries t)"
  by (induction rule: tree_built.induct) (auto simp: new_tree_def sorted_names_def dest: tree_insert_spec [unfolded sorted_names_def])

lemma tree_get_insert:
  assumes "sorted_names (entries t)" "tree_insert t name k i = Inr t'"
  shows "tree_get t' m = (if m = name then Some \<lparr>ename = name, ekind = k, eid = i\<rparr> else tree_get t m)"
proof -
  note S = tree_insert_spec [OF assms]
  show ?thesis
  proof (cases "m = name")
    case True
    then show ?thesis using S by (simp add: tree_get_iff)
  next
    case False
    have "tree_get t' m = Some e \<longleftrightarrow> tree_get t m = Some e" for e
      using S False by (auto simp: tree_get_iff assms(1))
    then have "tree_get t' m = tree_get t m" by (metis not_None_eq)
    with False show ?thesis by simp
  qed
qed

lemma tree_get_unique:
  assumes "sorted_names (entries t)" "sorted_names (entries t')" "\<And>n. tree_get t n = tree_get t' n"
  shows "t = t'"
proof -
  have "e \<in> set (entries t) \<longleftrightarrow> e \<in> set (entries t')" for e
    using tree_get_iff [OF assms(1), of "ename e" e] tree_get_iff [OF assms(2), of "ename e" e] assms(3)
    by simp
  then show ?thesis using sorted_names_unique assms(1,2) by (metis subsetI subset_antisym tree.equality unit.exhaust)
qed

section \<open>The store as an interface\<close>

text \<open>
  What a client of a content-addressed store relies on: an object it put can be read back under
  its id, and putting never changes what is read under another id.
\<close>

locale content_store =
  fixes put :: "'s \<Rightarrow> 'o \<Rightarrow> 'i \<times> 's"
    and get :: "'s \<Rightarrow> 'i \<Rightarrow> 'o option"
    and oid :: "'o \<Rightarrow> 'i"
    and ok :: "'o \<Rightarrow> bool"
    and inv :: "'s \<Rightarrow> bool"
  assumes put_id: "fst (put s x) = oid x"
    and put_inv: "inv s \<Longrightarrow> ok x \<Longrightarrow> inv (snd (put s x))"
    and get_put: "inv s \<Longrightarrow> ok x \<Longrightarrow> \<exists>y. get (snd (put s x)) (oid x) = Some y \<and> oid y = oid x"
    and get_stable: "inv s \<Longrightarrow> ok x \<Longrightarrow> get s i = Some y \<Longrightarrow> get (snd (put s x)) i = Some y"
begin

definition put_all :: "'s \<Rightarrow> 'o list \<Rightarrow> 's" where
  "put_all s xs = fold (\<lambda>x s. snd (put s x)) xs s"

lemma put_all_simps: "put_all s [] = s" "put_all s (x # xs) = put_all (snd (put s x)) xs"
  by (simp_all add: put_all_def)

lemma put_all_inv: "inv s \<Longrightarrow> list_all ok xs \<Longrightarrow> inv (put_all s xs)"
  by (induction xs arbitrary: s) (auto simp: put_all_simps put_inv)

lemma put_all_stable: "inv s \<Longrightarrow> list_all ok xs \<Longrightarrow> get s i = Some y \<Longrightarrow> get (put_all s xs) i = Some y"
  by (induction xs arbitrary: s) (auto simp: put_all_simps put_inv get_stable)

lemma put_all_get:
  "inv s \<Longrightarrow> list_all ok xs \<Longrightarrow> x \<in> set xs \<Longrightarrow> \<exists>y. get (put_all s xs) (oid x) = Some y \<and> oid y = oid x"
proof (induction xs arbitrary: s)
  case Nil
  then show ?case by simp
next
  case (Cons z xs)
  have z: "inv (snd (put s z))" "list_all ok xs" using Cons.prems by (auto simp: put_inv)
  show ?case
  proof (cases "x \<in> set xs")
    case True
    then show ?thesis using Cons.IH z by (simp add: put_all_simps)
  next
    case False
    then have "x = z" using Cons.prems(3) by simp
    then show ?thesis
      using get_put [of s z] Cons.prems put_all_stable [OF z] by (auto simp: put_all_simps)
  qed
qed

end

definition store_get :: "(string \<Rightarrow> string) \<Rightarrow> object_files \<Rightarrow> object_id \<Rightarrow> object option" where
  "store_get sha fs i = (case read_object sha fs i of Some (Inr ob) \<Rightarrow> Some ob | _ \<Rightarrow> None)"

definition store_ok :: "(string \<Rightarrow> string) \<Rightarrow> object_files \<Rightarrow> bool" where
  "store_ok sha fs \<longleftrightarrow>
     (\<forall>p bytes. fs p = Some bytes \<longrightarrow>
        (\<exists>ob. obj_ok ob \<and> p = object_path (obj_id sha ob) \<and> bytes = serialize ob))"

lemma object_path_inject: "object_path i = object_path j \<longleftrightarrow> i = j"
proof
  assume p: "object_path i = object_path j"
  have no: "CHR ''/'' \<notin> set (take 2 (id_hex k))" for k
    using hex_char_free [of "CHR ''/''" "digest k"] set_take_subset [of 2 "id_hex k"]
    by (auto simp: id_hex_def)
  have a: "alg i = alg j" by (cases "alg i"; cases "alg j") simp
  have "split_once CHR ''/'' (take 2 (id_hex i) @ CHR ''/'' # drop 2 (id_hex i))
      = split_once CHR ''/'' (take 2 (id_hex j) @ CHR ''/'' # drop 2 (id_hex j))"
    using p by (simp add: object_path_def a)
  then have "take 2 (id_hex i) = take 2 (id_hex j) \<and> drop 2 (id_hex i) = drop 2 (id_hex j)"
    using no split_once_append by simp
  then have h: "id_hex i = id_hex j" by (metis append_take_drop_id)
  have "digest i = digest j"
  proof (cases "digest i")
    case Nil
    then show ?thesis using h by (cases "digest j") (auto simp: id_hex_def hex_byte_def)
  next
    case (Cons c s)
    then have "digest j \<noteq> []" using h by (auto simp: id_hex_def hex_byte_def)
    then show ?thesis using h Cons hex_decode_encode by (metis id_hex_def list.discI option.inject)
  qed
  with a show "i = j" by simp
qed simp

lemma read_object_valid:
  "read_object sha fs i = Some (Inr ob) \<Longrightarrow> alg i = Sha256 \<Longrightarrow> obj_id sha ob = i"
  by (auto simp: read_object_def obj_id_def split: option.splits sum.splits if_splits)

lemma alg_Sha256: "alg i = Sha256"
  by (cases "alg i") simp

lemma read_stored:
  "fs (object_path i) = Some (serialize ob) \<Longrightarrow> obj_ok ob \<Longrightarrow> obj_id sha ob = i \<Longrightarrow>
   read_object sha fs i = Some (Inr ob)"
  by (auto simp: read_object_def deserialize_serialize obj_id_def id_with_def)

lemma store_ok_write: "store_ok sha fs \<Longrightarrow> obj_ok ob \<Longrightarrow> store_ok sha (snd (write_object sha fs ob))"
  by (auto simp: store_ok_def write_object_def Let_def)

lemma write_read:
  assumes "store_ok sha fs" "obj_ok ob"
  shows "\<exists>ob'. read_object sha (snd (write_object sha fs ob)) (obj_id sha ob) = Some (Inr ob') \<and>
    obj_id sha ob' = obj_id sha ob"
proof (cases "fs (object_path (obj_id sha ob))")
  case None
  then have "snd (write_object sha fs ob) (object_path (obj_id sha ob)) = Some (serialize ob)"
    by (simp add: write_object_def Let_def)
  then show ?thesis using read_stored assms(2) by blast
next
  case (Some bytes)
  then obtain ob' where ob': "obj_ok ob'" "object_path (obj_id sha ob) = object_path (obj_id sha ob')"
    "bytes = serialize ob'" using assms(1) unfolding store_ok_def by blast
  then have "obj_id sha ob' = obj_id sha ob" using object_path_inject by metis
  moreover have "snd (write_object sha fs ob) = fs" using Some by (simp add: write_object_def Let_def)
  ultimately show ?thesis using read_stored [of fs _ ob'] Some ob' by metis
qed

lemma write_stable:
  "read_object sha fs i = Some (Inr x) \<Longrightarrow> read_object sha (snd (write_object sha fs ob)) i = Some (Inr x)"
  by (auto simp: read_object_def write_object_def Let_def split: option.splits if_splits)

interpretation repo_store:
  content_store "write_object sha" "store_get sha" "obj_id sha" obj_ok "store_ok sha" for sha
proof (unfold_locales, goal_cases)
  case (1 s x)
  show ?case by (simp add: write_object_def Let_def)
next
  case (2 s x)
  then show ?case by (rule store_ok_write)
next
  case (3 s x)
  then show ?case using write_read [of sha s x] by (auto simp: store_get_def)
next
  case (4 s x i y)
  then have "read_object sha s i = Some (Inr y)" by (auto simp: store_get_def split: option.splits sum.splits)
  from write_stable [OF this] show ?case by (simp add: store_get_def)
qed

section \<open>Properties\<close>

text \<open>C6: The canonical serialization round-trips: every blob, and every tree with sorted valid UTF-8
names and full digests, parses back from its bytes to itself, and no two of them share their bytes.\<close>

theorem object_roundtrip:
  assumes "obj_ok ob" "obj_ok ob'"
  shows "deserialize (serialize ob) = Some (Inr ob) \<and> (serialize ob = serialize ob' \<longleftrightarrow> ob = ob')"
  using assms by (simp add: deserialize_serialize object_codec.enc_inject)

definition ex_oid :: object_id where
  "ex_oid = \<lparr>alg = Sha256, digest = replicate 32 CHR ''x''\<rparr>"

definition ex_tree :: tree where
  "ex_tree = \<lparr>entries = [\<lparr>ename = ''a b'', ekind = EBlob, eid = ex_oid\<rparr>, \<lparr>ename = ''c'', ekind = ETree, eid = ex_oid\<rparr>]\<rparr>"

lemma ex_tree_ok: "obj_ok (TreeObj ex_tree)"
  by code_simp

lemma object_roundtrip_witness:
  "deserialize (serialize (TreeObj ex_tree)) = Some (Inr (TreeObj ex_tree)) \<and>
   serialize (TreeObj ex_tree) \<noteq> serialize (BlobObj ''x'')"
proof -
  have "obj_ok (BlobObj ''x'')" by code_simp
  with object_roundtrip [OF ex_tree_ok this] show ?thesis by simp
qed

text \<open>A tree is canonical: a lookup after an insertion finds the inserted entry and is otherwise
unchanged, and two trees built by any sequences of insertions that answer every lookup alike are
the same value, so that their content address does not depend on the order of insertion.\<close>

theorem tree_insertion_canonical:
  assumes "tree_built t" "tree_insert t name k i = Inr t'"
  shows "tree_get t' m = (if m = name then Some \<lparr>ename = name, ekind = k, eid = i\<rparr> else tree_get t m) \<and>
    {u. tree_built u \<and> (\<forall>n. tree_get u n = tree_get t' n)} = {t'}"
proof -
  have t': "tree_built t'" using assms by (rule tree_built.ins)
  have "u = t'" if "tree_built u" "\<forall>n. tree_get u n = tree_get t' n" for u
    using tree_get_unique tree_built_sorted that t' by metis
  then have "{u. tree_built u \<and> (\<forall>n. tree_get u n = tree_get t' n)} = {t'}" using t' by blast
  with tree_get_insert [OF tree_built_sorted [OF assms(1)] assms(2)] show ?thesis by simp
qed

lemma tree_insertion_canonical_witness:
  "\<exists>t'. tree_insert new_tree ''a'' EBlob ex_oid = Inr t' \<and>
     tree_get t' ''a'' = Some \<lparr>ename = ''a'', ekind = EBlob, eid = ex_oid\<rparr>"
proof -
  obtain t' where t': "tree_insert new_tree ''a'' EBlob ex_oid = Inr t'"
    using tree_insert_Inr [of "''a''" new_tree EBlob ex_oid] by (auto simp: validate_name_def)
  with tree_insertion_canonical [OF tree_built.new t', of "''a''"] show ?thesis by simp
qed

text \<open>Whatever objects are written, in any order, each can be read back under the id that
\<open>write_object\<close> returned: the read gives an object with that id, for every hash function.\<close>

theorem store_write_read:
  assumes "list_all obj_ok obs" "ob \<in> set obs"
  shows "\<exists>ob'. read_object sha (fold (\<lambda>x fs. snd (write_object sha fs x)) obs Map.empty)
      (fst (write_object sha Map.empty ob)) = Some (Inr ob') \<and> obj_id sha ob' = obj_id sha ob"
proof -
  have "store_ok sha Map.empty" by (simp add: store_ok_def)
  from repo_store.put_all_get [OF this assms] show ?thesis
    by (auto simp: repo_store.put_all_def repo_store.put_id store_get_def split: option.split_asm sum.split_asm)
qed

lemma store_write_read_witness:
  "\<exists>ob'. read_object (\<lambda>s. take 32 s)
      (fold (\<lambda>x fs. snd (write_object (\<lambda>s. take 32 s) fs x)) [BlobObj ''x'', BlobObj ''y''] Map.empty)
      (fst (write_object (\<lambda>s. take 32 s) Map.empty (BlobObj ''y''))) = Some (Inr ob') \<and>
     obj_id (\<lambda>s. take 32 s) ob' = obj_id (\<lambda>s. take 32 s) (BlobObj ''y'')"
proof (rule store_write_read)
  show "list_all obj_ok [BlobObj ''x'', BlobObj ''y'']" by code_simp
qed simp

text \<open>A read is verified: an object that \<open>read_object\<close> returns has the id it was asked for, a
missing file is \<open>ObjectNotFound\<close>, and a later write changes no successful read.\<close>

theorem read_object_verified:
  "case read_object sha fs i of
     Some (Inr ob) \<Rightarrow> obj_id sha ob = i \<and> has_object fs i \<and>
       read_object sha (snd (write_object sha fs x)) i = Some (Inr ob)
   | Some (Inl (ObjectNotFound j)) \<Rightarrow> j = i \<and> \<not> has_object fs i
   | _ \<Rightarrow> has_object fs i"
proof (cases "fs (object_path i)")
  case None
  then show ?thesis by (simp add: read_object_def has_object_def)
next
  case (Some bytes)
  show ?thesis
  proof (cases "read_object sha fs i")
    case None
    then show ?thesis using Some by (simp add: has_object_def)
  next
    case read: (Some r)
    show ?thesis
    proof (cases r)
      case (Inl e)
      then show ?thesis using read Some
        by (auto simp: read_object_def has_object_def split: option.splits sum.splits if_splits)
    next
      case (Inr ob)
      then show ?thesis
        using read Some read_object_valid [of sha fs i ob] write_stable [of sha fs i ob x]
        by (simp add: has_object_def alg_Sha256)
    qed
  qed
qed

text \<open>The integrity check of a read hashes the re-serialized object, not the stored bytes: a file
whose length header is written non-canonically is accepted under an id its bytes do not have.\<close>

theorem read_object_non_canonical:
  "read_object sha [object_path (obj_id sha (BlobObj ''hello'')) \<mapsto> ''blob +5'' @ [CHR 0x00] @ ''hello'']
     (obj_id sha (BlobObj ''hello'')) = Some (Inr (BlobObj ''hello'')) \<and>
   ''blob +5'' @ [CHR 0x00] @ ''hello'' \<noteq> serialize (BlobObj ''hello'')"
proof -
  have "deserialize (''blob +5'' @ [CHR 0x00] @ ''hello'') = Some (Inr (BlobObj ''hello''))"
    "''blob +5'' @ [CHR 0x00] @ ''hello'' \<noteq> serialize (BlobObj ''hello'')"
    by code_simp+
  then show ?thesis by (simp add: read_object_def obj_id_def id_with_def)
qed

text \<open>Parsing an id can panic: on a digest text whose two-byte slices split a multi-byte character
\<open>id_from_str\<close> has no result at all, neither an id nor \<open>MalformedId\<close>, and so has the parser of a tree
object that carries such an id.\<close>

theorem id_from_str_panics:
  "id_from_str (''sha256:a'' @ [CHR 0xC3, CHR 0xA9] @ ''b'') = None \<and>
   deserialize (''tree 19'' @ [CHR 0x00] @ ''blob sha256:a'' @ [CHR 0xC3, CHR 0xA9] @ ''b n'' @ [CHR 0x0A]) = None"
  by code_simp

end
