(* ===== verification/WorkError.thy ===== *)
theory WorkError
  imports ChangeGraph ObjectStore
begin

text \<open>
  The error type of \<open>omoplata-work\<close>, \<open>error.rs\<close>. The names that the identity and store errors
  already use carry the suffix \<open>W\<close>; I/O errors are kept as text.
\<close>

datatype work_error =
    NothingToUndo
  | UnknownRef string
  | ParseErr string
  | IoErr string
  | Decode string
  | Store store_error
  | Identity identity_error
  | Content string
  | WorkspaceExists string
  | UnknownWorkspace string
  | UnknownChangeW string
  | InvalidStackIndex nat
  | SubmissionNotApproved string
  | QueueExists string
  | UnknownQueue string
  | RemoteExists string
  | UnknownRemote string
  | QueueCarriedRefused string nat
  | QueueValidationFailed string string
  | BatchOverlap string string "string list"
  | DirtyWorkingCopy string string string

end
