(* ===== verification/OpLog.thy ===== *)
theory OpLog
  imports WorkError
begin

text \<open>
  The bi-temporal operation log, \<open>oplog.rs\<close>: append-only operations, the activity of an operation
  under the undos that target it, the fold into the ref state, \<open>undo\<close> and the JSON-lines file.
  \<open>is_active\<close> recurses on the undos that target an operation and need not end on a malformed log,
  so it is a partial function with \<open>None\<close> for the divergence; on the logs that the operations
  build it is total. Sequence numbers (\<open>u64\<close>) are naturals: a log has fewer than \<open>2 ^ 64\<close>
  entries. A \<open>BTreeMap\<close> of refs is a map. Serde's encoding of one operation is a parameter.
\<close>

section \<open>State\<close>

datatype op_kind =
    SetRef (ref_name: string) (ref_old: "commit_id option") (ref_new: "commit_id option")
  | SetPhaseOp change_id phase phase
  | Rebase change_id commit_id commit_id commit_id nat
  | Commit string change_id commit_id "commit_id option" "string option"
  | Switch string change_id "commit_id option" commit_id
  | Undo nat

record operation =
  seq :: nat
  kind :: op_kind
  op_note :: "string option"
  op_time :: "string option"

record op_log =
  ops :: "operation list"

type_synonym refs = "string \<rightharpoonup> commit_id"

definition new_log :: op_log where
  "new_log = \<lparr>ops = []\<rparr>"

definition next_seq :: "op_log \<Rightarrow> nat" where
  "next_seq log = length (ops log)"

definition append_at :: "op_log \<Rightarrow> op_kind \<Rightarrow> string option \<Rightarrow> string option \<Rightarrow> op_log" where
  "append_at log k n t = log\<lparr>ops := ops log @ [\<lparr>seq = next_seq log, kind = k, op_note = n, op_time = t\<rparr>]\<rparr>"

definition append_op :: "op_log \<Rightarrow> op_kind \<Rightarrow> string option \<Rightarrow> op_log" where
  "append_op log k n = append_at log k n None"

section \<open>Activity and the ref state\<close>

text \<open>
  The loop of \<open>is_active\<close> over the rest of the log, with the number of active undos of \<open>s\<close>;
  \<open>all_ops\<close> is the whole log, for the recursive call.
\<close>

definition undo_target :: "op_kind \<Rightarrow> nat option" where
  "undo_target k = (case k of Undo target \<Rightarrow> Some target | _ \<Rightarrow> None)"

partial_function (option) active_undos ::
  "operation list \<Rightarrow> nat \<Rightarrow> nat \<Rightarrow> operation list \<Rightarrow> nat option" where
  "active_undos all_ops s limit rest =
     (if rest = [] then Some 0
      else if limit < seq (hd rest) then Some 0
      else if undo_target (kind (hd rest)) = Some s then
        Option.bind (active_undos all_ops (seq (hd rest)) limit all_ops) (\<lambda>n.
        Option.bind (active_undos all_ops s limit (tl rest)) (\<lambda>m.
          Some (if even n then m + 1 else m)))
      else active_undos all_ops s limit (tl rest))"

definition is_active :: "operation list \<Rightarrow> nat \<Rightarrow> nat \<Rightarrow> bool option" where
  "is_active os s limit = map_option even (active_undos os s limit os)"

definition apply_refs :: "op_kind \<Rightarrow> refs \<Rightarrow> refs" where
  "apply_refs k refs =
     (case k of
        SetRef name _ new \<Rightarrow> (case new of Some c \<Rightarrow> refs(name \<mapsto> c) | None \<Rightarrow> refs(name := None))
      | Rebase change _ new_tip _ _ \<Rightarrow> refs(change \<mapsto> new_tip)
      | Commit _ change tree _ _ \<Rightarrow> refs(change \<mapsto> tree)
      | Switch _ change _ to \<Rightarrow> refs(change \<mapsto> to)
      | SetPhaseOp _ _ _ \<Rightarrow> refs
      | Undo _ \<Rightarrow> refs)"

fun fold_loop :: "operation list \<Rightarrow> nat \<Rightarrow> operation list \<Rightarrow> refs \<Rightarrow> refs option" where
  "fold_loop all_ops limit [] refs = Some refs"
| "fold_loop all_ops limit (op # rest) refs =
     (if limit < seq op then Some refs
      else (case is_active all_ops (seq op) limit of
          None \<Rightarrow> None
        | Some False \<Rightarrow> fold_loop all_ops limit rest refs
        | Some True \<Rightarrow> fold_loop all_ops limit rest (apply_refs (kind op) refs)))"

definition fold_refs :: "op_log \<Rightarrow> nat \<Rightarrow> refs option" where
  "fold_refs log limit = fold_loop (ops log) limit (ops log) Map.empty"

abbreviation u64_max :: nat where
  "u64_max \<equiv> 2 ^ 64 - 1"

definition refs_now :: "op_log \<Rightarrow> refs option" where
  "refs_now log = fold_refs log u64_max"

definition refs_at :: "op_log \<Rightarrow> nat \<Rightarrow> refs option" where
  "refs_at log s = fold_refs log s"

definition set_ref :: "op_log \<Rightarrow> string \<Rightarrow> commit_id option \<Rightarrow> string option \<Rightarrow> op_log option" where
  "set_ref log name new n =
     map_option (\<lambda>refs. append_op log (SetRef name (refs name) new) n) (refs_now log)"

text \<open>The search of \<open>undo\<close> over the reversed log: the newest active operation.\<close>

fun newest_active :: "operation list \<Rightarrow> operation list \<Rightarrow> (operation option) option" where
  "newest_active all_ops [] = Some None"
| "newest_active all_ops (op # rest) =
     (case is_active all_ops (seq op) u64_max of
        None \<Rightarrow> None
      | Some True \<Rightarrow> Some (Some op)
      | Some False \<Rightarrow> newest_active all_ops rest)"

definition undo :: "op_log \<Rightarrow> (work_error + op_log) option" where
  "undo log =
     map_option (\<lambda>found. case found of
         None \<Rightarrow> Inl NothingToUndo
       | Some op \<Rightarrow> Inr (append_op log (Undo (seq op)) None))
       (newest_active (ops log) (rev (ops log)))"

section \<open>The log file\<close>

fun save_lines :: "(operation \<Rightarrow> string + string) \<Rightarrow> operation list \<Rightarrow> work_error + string" where
  "save_lines to_json [] = Inr []"
| "save_lines to_json (op # os) =
     (case to_json op of
        Inl e \<Rightarrow> Inl (Decode e)
      | Inr line \<Rightarrow> and_then (save_lines to_json os) (\<lambda>buf. Inr (line @ CHR 0x0A # buf)))"

definition save_log :: "(operation \<Rightarrow> string + string) \<Rightarrow> op_log \<Rightarrow> work_error + string" where
  "save_log to_json log = save_lines to_json (ops log)"

fun load_lines :: "(string \<Rightarrow> string + operation) \<Rightarrow> string list \<Rightarrow> work_error + operation list" where
  "load_lines from_json [] = Inr []"
| "load_lines from_json (l # ls) =
     (if trim l = [] then load_lines from_json ls
      else (case from_json l of
          Inl e \<Rightarrow> Inl (Decode e)
        | Inr op \<Rightarrow> and_then (load_lines from_json ls) (\<lambda>os. Inr (op # os))))"

text \<open>\<open>None\<close> is a file that does not exist.\<close>

definition load_log :: "(string \<Rightarrow> string + operation) \<Rightarrow> string option \<Rightarrow> work_error + op_log" where
  "load_log from_json file =
     (case file of
        None \<Rightarrow> Inr new_log
      | Some txt \<Rightarrow>
          if \<not> utf8_valid txt then Inl (IoErr ''stream did not contain valid UTF-8'')
          else and_then (load_lines from_json (str_lines txt)) (\<lambda>os. Inr \<lparr>ops = os\<rparr>))"

section \<open>Reference semantics of activity\<close>

definition log_ok :: "operation list \<Rightarrow> bool" where
  "log_ok os \<longleftrightarrow> (\<forall>i<length os. seq (os ! i) = i \<and> (\<forall>t. undo_target (kind (os ! i)) = Some t \<longrightarrow> t < i))"

text \<open>\<open>p\<close> holds the visible operations; an operation is active iff an even number of active ones undo it.\<close>

function act :: "operation list \<Rightarrow> nat \<Rightarrow> bool" where
  "act p i = even (length (filter (\<lambda>j. undo_target (kind (p ! j)) = Some i \<and> act p j) [Suc i..<length p]))"
  by pat_completeness auto
termination by (relation "measure (\<lambda>(p, i). length p - i)") auto

declare act.simps [simp del]

definition fold_act :: "operation list \<Rightarrow> refs" where
  "fold_act p = foldl (\<lambda>refs j. if act p j then apply_refs (kind (p ! j)) refs else refs) Map.empty [0..<length p]"

lemma log_ok_nth: "log_ok os \<Longrightarrow> i < length os \<Longrightarrow> seq (os ! i) = i"
  by (simp add: log_ok_def)

lemma log_ok_target: "log_ok os \<Longrightarrow> i < length os \<Longrightarrow> undo_target (kind (os ! i)) = Some t \<Longrightarrow> t < i"
  by (simp add: log_ok_def)

lemma log_ok_take: "log_ok os \<Longrightarrow> log_ok (take n os)"
  by (simp add: log_ok_def)

lemma filter_target_above:
  assumes "log_ok p"
  shows "filter (\<lambda>j. undo_target (kind (p ! j)) = Some s \<and> Q j) [0..<length p]
    = filter (\<lambda>j. undo_target (kind (p ! j)) = Some s \<and> Q j) [Suc s..<length p]"
proof -
  have low: "filter (\<lambda>j. undo_target (kind (p ! j)) = Some s \<and> Q j) [0..<n] = []"
    if "n \<le> length p" "n \<le> Suc s" for n
  proof -
    have "\<not> (undo_target (kind (p ! j)) = Some s \<and> Q j)" if "j < n" for j
      using log_ok_target [OF assms, of j s] \<open>j < n\<close> \<open>n \<le> length p\<close> \<open>n \<le> Suc s\<close> by linarith
    then show ?thesis by (simp add: filter_empty_conv)
  qed
  show ?thesis
  proof (cases "Suc s \<le> length p")
    case True
    have "[0..<length p] = [0..<Suc s] @ [Suc s..<length p]"
      using upt_add_eq_append [of 0 "Suc s" "length p - Suc s"] True by (metis le_add_diff_inverse le0)
    then show ?thesis using low [of "Suc s"] True by (simp del: upt_Suc)
  next
    case False
    then show ?thesis using low [of "length p"] by simp
  qed
qed

lemma active_undos_Nil: "active_undos a s l [] = Some 0"
  by (subst active_undos.simps) simp

lemma active_undos_Cons:
  "active_undos a s l (op # rest) =
     (if l < seq op then Some 0
      else if undo_target (kind op) = Some s then
        Option.bind (active_undos a (seq op) l a) (\<lambda>n.
        Option.bind (active_undos a s l rest) (\<lambda>m. Some (if even n then m + 1 else m)))
      else active_undos a s l rest)"
  by (subst active_undos.simps) simp

lemma active_undos_eq:
  assumes "log_ok os"
  shows "k \<le> length os \<Longrightarrow> active_undos os s limit (drop k os) =
     Some (length (filter (\<lambda>j. undo_target (kind (os ! j)) = Some s \<and> act (take (Suc limit) os) j)
       [k..<length (take (Suc limit) os)]))"
proof (induction "length os - s" arbitrary: s k rule: less_induct)
  case less
  note outer = less.hyps
  let ?p = "take (Suc limit) os"
  from less.prems show ?case
  proof (induction "length os - k" arbitrary: k)
    case 0
    then show ?case by (simp add: active_undos_Nil)
  next
    case (Suc n)
    then have k: "k < length os" "n = length os - Suc k" by simp_all
    have drop: "drop k os = os ! k # drop (Suc k) os" using k by (simp add: Cons_nth_drop_Suc)
    have sq: "seq (os ! k) = k" using log_ok_nth [OF assms k(1)] .
    show ?case
    proof (cases "limit < k")
      case True
      then show ?thesis by (simp add: drop active_undos_Cons sq)
    next
      case False
      have IH: "active_undos os s limit (drop (Suc k) os) =
          Some (length (filter (\<lambda>j. undo_target (kind (os ! j)) = Some s \<and> act ?p j) [Suc k..<length ?p]))"
        using Suc.hyps(1) [OF k(2)] k by simp
      have up: "[k..<length ?p] = k # [Suc k..<length ?p]" using False k by (simp add: upt_conv_Cons)
      show ?thesis
      proof (cases "undo_target (kind (os ! k)) = Some s")
        case True
        then have "s < k" by (rule log_ok_target [OF assms k(1)])
        then have "active_undos os k limit (drop 0 os) =
            Some (length (filter (\<lambda>j. undo_target (kind (os ! j)) = Some k \<and> act ?p j) [0..<length ?p]))"
          using k by (intro outer) auto
        moreover have "filter (\<lambda>j. undo_target (kind (os ! j)) = Some k \<and> act ?p j) [0..<length ?p]
            = filter (\<lambda>j. undo_target (kind (?p ! j)) = Some k \<and> act ?p j) [0..<length ?p]"
          by (rule filter_cong) auto
        moreover have "\<dots> = filter (\<lambda>j. undo_target (kind (?p ! j)) = Some k \<and> act ?p j) [Suc k..<length ?p]"
          by (rule filter_target_above) (rule log_ok_take [OF assms])
        ultimately have "\<exists>n. active_undos os k limit os = Some n \<and> (even n \<longleftrightarrow> act ?p k)"
          by (subst act.simps) simp
        then show ?thesis using True False IH
          by (auto simp: drop active_undos_Cons sq up simp del: length_take)
      next
        case False': False
        then show ?thesis using False IH by (simp add: drop active_undos_Cons sq up del: length_take)
      qed
    qed
  qed
qed

lemma is_active_eq:
  assumes "log_ok os"
  shows "is_active os s limit = Some (act (take (Suc limit) os) s)"
proof -
  let ?p = "take (Suc limit) os"
  have "filter (\<lambda>j. undo_target (kind (os ! j)) = Some s \<and> act ?p j) [0..<length ?p]
      = filter (\<lambda>j. undo_target (kind (?p ! j)) = Some s \<and> act ?p j) [0..<length ?p]"
    by (rule filter_cong) auto
  also have "\<dots> = filter (\<lambda>j. undo_target (kind (?p ! j)) = Some s \<and> act ?p j) [Suc s..<length ?p]"
    by (rule filter_target_above) (rule log_ok_take [OF assms])
  finally show ?thesis
    using active_undos_eq [OF assms le0, of s limit] by (simp add: is_active_def act.simps [of ?p s])
qed

lemma fold_loop_eq:
  assumes "log_ok os" "k \<le> length os"
  shows "fold_loop os limit (drop k os) refs =
    Some (foldl (\<lambda>refs j. if act (take (Suc limit) os) j then apply_refs (kind (os ! j)) refs else refs)
      refs [k..<length (take (Suc limit) os)])"
  using assms(2)
proof (induction "length os - k" arbitrary: k refs)
  case 0
  then show ?case by simp
next
  case (Suc n)
  then have k: "k < length os" "n = length os - Suc k" by simp_all
  have drop: "drop k os = os ! k # drop (Suc k) os" using k by (simp add: Cons_nth_drop_Suc)
  have IH: "fold_loop os limit (drop (Suc k) os) r =
      Some (foldl (\<lambda>refs j. if act (take (Suc limit) os) j then apply_refs (kind (os ! j)) refs else refs)
        r [Suc k..<length (take (Suc limit) os)])" for r
    using Suc.hyps(1) [OF k(2)] k by simp
  show ?case
  proof (cases "limit < k")
    case True
    then show ?thesis by (simp add: drop log_ok_nth [OF assms(1) k(1)])
  next
    case False
    then have up: "[k..<length (take (Suc limit) os)] = k # [Suc k..<length (take (Suc limit) os)]"
      using k by (simp add: upt_conv_Cons)
    show ?thesis using False IH
      by (simp add: drop up log_ok_nth [OF assms(1) k(1)] is_active_eq [OF assms(1)] del: length_take)
  qed
qed

lemma foldl_upt_cong:
  "(\<And>r j. j < n \<Longrightarrow> f r j = g r j) \<Longrightarrow> foldl f r [0..<n] = foldl g r [0..<n]"
  by (rule foldl_cong) auto

lemma fold_refs_eq: "log_ok (ops log) \<Longrightarrow> fold_refs log limit = Some (fold_act (take (Suc limit) (ops log)))"
  using fold_loop_eq [of "ops log" 0 limit Map.empty]
  by (auto simp: fold_refs_def fold_act_def intro!: foldl_upt_cong)

lemma refs_now_eq:
  "log_ok (ops log) \<Longrightarrow> length (ops log) < 2 ^ 64 \<Longrightarrow> refs_now log = Some (fold_act (ops log))"
  by (simp add: refs_now_def fold_refs_eq)

section \<open>The effect of one more operation\<close>

lemma fold_act_simps:
  "fold_act p = foldl (\<lambda>refs j. if act p j then apply_refs (kind (p ! j)) refs else refs) Map.empty [0..<length p]"
  by (rule fold_act_def)

lemma act_beyond: "length p \<le> Suc i \<Longrightarrow> act p i"
  by (subst act.simps) simp

lemma act_last: "act (p @ [x]) (length p)"
  by (rule act_beyond) simp

lemma act_append_plain:
  assumes "undo_target (kind x) = None"
  shows "i < length P \<Longrightarrow> act (P @ [x]) i = act P i"
proof (induction "length P - i" arbitrary: i rule: less_induct)
  case less
  have up: "[Suc i..<length (P @ [x])] = [Suc i..<length P] @ [length P]" using less.prems by simp
  have "filter (\<lambda>j. undo_target (kind ((P @ [x]) ! j)) = Some i \<and> act (P @ [x]) j) [Suc i..<length P]
      = filter (\<lambda>j. undo_target (kind (P ! j)) = Some i \<and> act P j) [Suc i..<length P]"
    using less.hyps by (intro filter_cong) (auto simp: nth_append)
  then show ?case
    unfolding act.simps [of _ i] up using assms by (simp add: nth_append)
qed

lemma act_cancel:
  assumes "undo_target (kind u) = Some (length P)" "undo_target (kind x) \<noteq> Some (length P)"
  shows "i < length P \<Longrightarrow> act (P @ [x, u]) i = act P i"
    and "\<not> act (P @ [x, u]) (length P)"
proof -
  have u: "act (P @ [x, u]) (Suc (length P))" by (rule act_beyond) simp
  have "[Suc (length P)..<length (P @ [x, u])] = [Suc (length P)]" by simp
  then show x: "\<not> act (P @ [x, u]) (length P)"
    unfolding act.simps [of _ "length P"] using assms u by (simp add: nth_append)
  show "i < length P \<Longrightarrow> act (P @ [x, u]) i = act P i"
  proof (induction "length P - i" arbitrary: i rule: less_induct)
    case less
    have up: "[Suc i..<length (P @ [x, u])] = [Suc i..<length P] @ [length P, Suc (length P)]"
      using less.prems by (simp add: upt_rec [of "length P"])
    have "filter (\<lambda>j. undo_target (kind ((P @ [x, u]) ! j)) = Some i \<and> act (P @ [x, u]) j) [Suc i..<length P]
        = filter (\<lambda>j. undo_target (kind (P ! j)) = Some i \<and> act P j) [Suc i..<length P]"
      using less.hyps by (intro filter_cong) (auto simp: nth_append)
    then show ?case
      unfolding act.simps [of _ i] up using assms x less.prems by (simp add: nth_append)
  qed
qed

lemma fold_act_plain:
  assumes "undo_target (kind x) = None"
  shows "fold_act (P @ [x]) = apply_refs (kind x) (fold_act P)"
proof -
  have "foldl (\<lambda>refs j. if act (P @ [x]) j then apply_refs (kind ((P @ [x]) ! j)) refs else refs) Map.empty [0..<length P]
      = fold_act P"
    unfolding fold_act_def by (rule foldl_upt_cong) (simp add: act_append_plain [OF assms] nth_append)
  then show ?thesis by (simp add: fold_act_def [of "P @ [x]"] act_last)
qed

lemma apply_refs_undo: "undo_target k \<noteq> None \<Longrightarrow> apply_refs k refs = refs"
  by (cases k) (simp_all add: undo_target_def apply_refs_def)

lemma fold_act_cancel:
  assumes "undo_target (kind u) = Some (length P)" "undo_target (kind x) \<noteq> Some (length P)"
  shows "fold_act (P @ [x, u]) = fold_act P"
proof -
  have "foldl (\<lambda>refs j. if act (P @ [x, u]) j then apply_refs (kind ((P @ [x, u]) ! j)) refs else refs) Map.empty [0..<length P]
      = fold_act P"
    unfolding fold_act_def by (rule foldl_upt_cong) (simp add: act_cancel(1) [OF assms] nth_append)
  then show ?thesis using assms(1)
    by (simp add: fold_act_def [of "P @ [x, u]"] act_cancel(2) [OF assms] apply_refs_undo nth_append)
qed

section \<open>The logs that the operations build\<close>

inductive log_built :: "op_log \<Rightarrow> bool" where
  log_empty: "log_built new_log"
| log_append: "log_built log \<Longrightarrow> undo_target k = None \<Longrightarrow> log_built (append_at log k n t)"
| log_undo: "log_built log \<Longrightarrow> undo log = Some (Inr log') \<Longrightarrow> log_built log'"

lemma log_ok_Nil [simp]: "log_ok []"
  by (simp add: log_ok_def)

lemma log_ok_snoc:
  "log_ok (os @ [x]) \<longleftrightarrow> log_ok os \<and> seq x = length os \<and> (\<forall>t. undo_target (kind x) = Some t \<longrightarrow> t < length os)"
  by (auto simp: log_ok_def nth_append less_Suc_eq)

lemma newest_active_last:
  assumes "log_ok (os @ [x])" "length os < 2 ^ 64"
  shows "newest_active (os @ [x]) (rev (os @ [x])) = Some (Some x)"
proof -
  have "is_active (os @ [x]) (seq x) u64_max = Some (act (os @ [x]) (length os))"
    using assms by (simp add: is_active_eq log_ok_snoc)
  then show ?thesis by (simp add: act_last)
qed

lemma undo_last:
  assumes "log_ok (ops log)" "ops log \<noteq> []" "length (ops log) \<le> 2 ^ 64"
  shows "undo log = Some (Inr (append_op log (Undo (length (ops log) - 1)) None))"
proof -
  obtain os x where os: "ops log = os @ [x]" using assms(2) by (cases "ops log" rule: rev_cases) auto
  have "newest_active (ops log) (rev (ops log)) = Some (Some x)"
    unfolding os using assms(1,3) os by (intro newest_active_last) auto
  then show ?thesis using assms(1) os by (simp add: undo_def log_ok_snoc)
qed

lemma undo_empty: "ops log = [] \<Longrightarrow> undo log = Some (Inl NothingToUndo)"
  by (simp add: undo_def)

lemma newest_active_mem: "newest_active a os = Some (Some op) \<Longrightarrow> op \<in> set os"
  by (induction os) (auto split: option.splits bool.splits)

lemma append_at_log_ok:
  "log_ok (ops log) \<Longrightarrow> (\<forall>s. undo_target k = Some s \<longrightarrow> s < length (ops log)) \<Longrightarrow> log_ok (ops (append_at log k n t))"
  by (simp add: append_at_def log_ok_snoc next_seq_def)

lemma undo_log_ok:
  assumes "log_ok (ops log)" "undo log = Some (Inr log')"
  shows "log_ok (ops log')"
proof -
  obtain op where op: "newest_active (ops log) (rev (ops log)) = Some (Some op)"
    "log' = append_op log (Undo (seq op)) None"
    using assms(2) by (auto simp: undo_def split: option.splits)
  then obtain i where "i < length (ops log)" "ops log ! i = op"
    using newest_active_mem by (fastforce simp: in_set_conv_nth)
  then have "seq op < length (ops log)" using log_ok_nth [OF assms(1)] by auto
  then show ?thesis using assms(1) op(2)
    by (simp add: append_op_def append_at_log_ok undo_target_def)
qed

lemma log_built_ok: "log_built log \<Longrightarrow> log_ok (ops log)"
  by (induction rule: log_built.induct) (simp_all add: new_log_def append_at_log_ok undo_log_ok)

lemmas log_facts = append_at_def append_op_def next_seq_def undo_target_def

lemma length_append_at [simp]: "length (ops (append_at log k n t)) = Suc (length (ops log))"
  by (simp add: append_at_def)

lemma load_lines_encoded:
  assumes "\<And>op. op \<in> set os \<Longrightarrow> trim (enc op) \<noteq> [] \<and> dec (enc op) = Inr op"
  shows "load_lines dec (map enc os) = Inr os"
  using assms by (induction os) simp_all

lemma save_lines_encoded:
  "(\<And>op. op \<in> set os \<Longrightarrow> to_json op = Inr (enc op)) \<Longrightarrow>
   save_lines to_json os = Inr (concat (map (\<lambda>l. l @ [CHR 0x0A]) (map enc os)))"
  by (induction os) simp_all

lemma refs_now_append:
  assumes "log_built log" "undo_target k = None" "length (ops log) + 1 < 2 ^ 64"
  shows "\<exists>refs. refs_now log = Some refs \<and> refs_now (append_op log k n) = Some (apply_refs k refs)"
proof -
  have ok: "log_ok (ops log)" using log_built_ok [OF assms(1)] .
  then have "log_ok (ops (append_op log k n))"
    using assms(2) by (simp add: append_op_def append_at_log_ok)
  then have "refs_now (append_op log k n) = Some (fold_act (ops (append_op log k n)))"
    using assms(3) by (intro refs_now_eq) (simp_all add: append_op_def)
  also have "fold_act (ops (append_op log k n)) = apply_refs k (fold_act (ops log))"
    using assms(2) by (simp add: append_op_def append_at_def fold_act_plain)
  finally show ?thesis using ok assms(3) by (simp add: refs_now_eq)
qed

section \<open>Properties\<close>

text \<open>C8: The undo law (I7): on a log built by the operations, appending any operation that is not
  an undo and then undoing leaves the ref state as it was, and a second undo undoes the first: it
  restores the ref state that the operation produced. Nothing diverges and the log only grows.\<close>
theorem undo_inverts:
  assumes "log_built log" "undo_target k = None" "length (ops log) + 3 < 2 ^ 64"
  shows "\<exists>log1 log2. undo (append_at log k n t) = Some (Inr log1) \<and> undo log1 = Some (Inr log2) \<and>
     refs_now log \<noteq> None \<and> refs_now log1 = refs_now log \<and>
     refs_now log2 = refs_now (append_at log k n t) \<and>
     refs_now (append_at log k n t) = map_option (apply_refs k) (refs_now log) \<and>
     take (Suc (length (ops log))) (ops log2) = ops (append_at log k n t)"
proof -
  define x where "x = \<lparr>seq = length (ops log), kind = k, op_note = n, op_time = t\<rparr>"
  define u where "u i = \<lparr>seq = Suc i, kind = Undo i, op_note = None, op_time = None\<rparr>" for i
  let ?P = "ops log"
  define log0 where "log0 = append_at log k n t"
  define log1 where "log1 = append_op log0 (Undo (length ?P)) None"
  define log2 where "log2 = append_op log1 (Undo (Suc (length ?P))) None"
  have o0: "ops log0 = ?P @ [x]" by (simp add: log0_def x_def log_facts)
  have o1: "ops log1 = ?P @ [x, u (length ?P)]" by (simp add: log1_def o0 u_def log_facts)
  have o2: "ops log2 = (?P @ [x]) @ [u (length ?P), u (length (?P @ [x]))]"
    by (simp add: log2_def o1 u_def log_facts)
  have ok: "log_ok ?P" using log_built_ok [OF assms(1)] .
  have ok0: "log_ok (ops log0)" using ok assms(2) by (simp add: o0 log_ok_snoc x_def)
  have ok1: "log_ok (ops log1)"
    using ok0 log_ok_snoc [of "?P @ [x]" "u (length ?P)"] by (simp add: o0 o1 u_def undo_target_def)
  have ok2: "log_ok (ops log2)"
    using ok1 log_ok_snoc [of "?P @ [x, u (length ?P)]" "u (length (?P @ [x]))"]
    by (simp add: o1 o2 u_def undo_target_def)
  have u1: "undo log0 = Some (Inr log1)"
    using undo_last [OF ok0] assms(3) by (simp add: log1_def o0)
  have u2: "undo log1 = Some (Inr log2)"
    using undo_last [OF ok1] assms(3) by (simp add: log2_def o1)
  have f1: "fold_act (ops log1) = fold_act ?P"
    unfolding o1 by (rule fold_act_cancel) (simp_all add: u_def x_def assms(2), simp add: undo_target_def)
  have f2: "fold_act (ops log2) = fold_act (ops log0)"
    unfolding o2 o0 by (rule fold_act_cancel) (simp_all add: u_def undo_target_def)
  have f0: "fold_act (ops log0) = apply_refs k (fold_act ?P)"
    unfolding o0 using fold_act_plain [of x ?P] assms(2) by (simp add: x_def)
  have r: "refs_now log = Some (fold_act ?P)" "refs_now log0 = Some (fold_act (ops log0))"
    "refs_now log1 = Some (fold_act (ops log1))" "refs_now log2 = Some (fold_act (ops log2))"
    using refs_now_eq [OF ok] refs_now_eq [OF ok0] refs_now_eq [OF ok1] refs_now_eq [OF ok2] assms(3)
    by (simp_all add: o0 o1 o2)
  show ?thesis
    using u1 u2 r f0 f1 f2 by (intro exI [of _ log1] exI [of _ log2]) (simp add: log0_def [symmetric] o2 o0)
qed

lemma undo_inverts_witness:
  "\<exists>log1 log2. undo (append_at (append_op new_log (SetRef ''main'' None (Some ''c1'')) None) (SetRef ''main'' (Some ''c1'') (Some ''c2'')) None None) = Some (Inr log1)
     \<and> undo log1 = Some (Inr log2) \<and> refs_now log1 = Some [''main'' \<mapsto> ''c1'']
     \<and> refs_now log2 = Some [''main'' \<mapsto> ''c2'']"
proof -
  let ?log = "append_op new_log (SetRef ''main'' None (Some ''c1'')) None"
  have "log_built ?log"
    unfolding append_op_def by (intro log_append log_empty) (simp add: undo_target_def)
  from undo_inverts [OF this, of "SetRef ''main'' (Some ''c1'') (Some ''c2'')" None None]
  have "\<exists>log1 log2. undo (append_at ?log (SetRef ''main'' (Some ''c1'') (Some ''c2'')) None None) = Some (Inr log1)
     \<and> undo log1 = Some (Inr log2) \<and> refs_now log1 = refs_now ?log
     \<and> refs_now log2 = map_option (apply_refs (SetRef ''main'' (Some ''c1'') (Some ''c2''))) (refs_now ?log)"
    by (simp add: undo_target_def append_op_def new_log_def) metis
  moreover have "refs_now ?log = Some [''main'' \<mapsto> ''c1'']"
    using refs_now_eq [OF log_built_ok [OF \<open>log_built ?log\<close>]] fold_act_plain [of _ "[]"]
    by (simp add: append_op_def append_at_def new_log_def undo_target_def apply_refs_def fold_act_def act_last [of "[]", simplified])
  ultimately show ?thesis by (auto simp: apply_refs_def)
qed

text \<open>The bi-temporal law: the state as believed at a transaction time is the state of the log cut
  off after that transaction, and no later operation, an undo included, changes it.\<close>
theorem refs_at_stable:
  assumes "log_built log" "s < length (ops log)" "length (ops log) < 2 ^ 64"
    "\<forall>target. undo_target k = Some target \<longrightarrow> target < length (ops log)"
  shows "refs_at log s = refs_now \<lparr>ops = take (Suc s) (ops log)\<rparr> \<and> refs_at log s \<noteq> None \<and>
    refs_at (append_at log k n t) s = refs_at log s"
proof -
  have ok: "log_ok (ops log)" using log_built_ok [OF assms(1)] .
  have "refs_at log s = refs_now \<lparr>ops = take (Suc s) (ops log)\<rparr>"
    using assms(2,3) ok by (simp add: refs_at_def fold_refs_eq refs_now_eq log_ok_take)
  moreover have "refs_at (append_at log k n t) s = refs_at log s"
    using assms(2,4) ok
    by (simp add: refs_at_def fold_refs_eq append_at_log_ok) (simp add: append_at_def)
  moreover have "refs_at log s \<noteq> None" using ok by (simp add: refs_at_def fold_refs_eq)
  ultimately show ?thesis by blast
qed

lemma refs_at_stable_witness:
  "let log = append_op new_log (SetRef ''main'' None (Some ''c1'')) None in
     refs_at (append_at log (Undo 0) None None) 0 = refs_at log 0"
proof -
  have "log_built (append_op new_log (SetRef ''main'' None (Some ''c1'')) None)"
    unfolding append_op_def by (intro log_append log_empty) (simp add: undo_target_def)
  from refs_at_stable [OF this, of 0 "Undo 0" None None] show ?thesis
    by (simp add: undo_target_def append_op_def new_log_def)
qed

text \<open>\<open>undo\<close> of a built log always returns: it reports \<open>NothingToUndo\<close> exactly on the empty
  log, and on any other it undoes the last operation, whatever that operation is (an undo
  included), with a log that is built again.\<close>
theorem undo_total:
  assumes "log_built log" "length (ops log) < 2 ^ 64"
  shows "undo log = Some (if ops log = [] then Inl NothingToUndo
      else Inr (append_op log (Undo (length (ops log) - 1)) None))"
  using assms log_built_ok by (auto simp: undo_empty undo_last)

lemma undo_total_witness:
  "undo (append_op new_log (Switch ''main'' ''ch'' None ''c1'') None)
     = Some (Inr (append_op (append_op new_log (Switch ''main'' ''ch'' None ''c1'') None) (Undo 0) None))
   \<and> undo new_log = Some (Inl NothingToUndo)"
proof -
  have "log_built (append_op new_log (Switch ''main'' ''ch'' None ''c1'') None)"
    unfolding append_op_def by (intro log_append log_empty) (simp add: undo_target_def)
  from undo_total [OF this] undo_total [OF log_empty] show ?thesis
    by (simp add: append_op_def append_at_def new_log_def)
qed

text \<open>\<open>set_ref\<close> records the value it replaces and the new state differs from the old one in that
  ref only.\<close>
lemma set_ref_effect:
  assumes "log_built log" "length (ops log) + 1 < 2 ^ 64"
  shows "\<exists>refs log'. refs_now log = Some refs \<and> set_ref log name new n = Some log' \<and>
     log' = append_op log (SetRef name (refs name) new) n \<and> refs_now log' = Some (refs(name := new))"
proof -
  obtain refs where r: "refs_now log = Some refs"
    using refs_now_append [OF assms(1) _ assms(2), of "Switch name name None name" n] by (auto simp: undo_target_def)
  moreover have "refs_now (append_op log (SetRef name (refs name) new) n)
      = Some (apply_refs (SetRef name (refs name) new) refs)"
    using refs_now_append [OF assms(1) _ assms(2), of "SetRef name (refs name) new" n] r
    by (auto simp: undo_target_def)
  moreover have "apply_refs (SetRef name (refs name) new) refs = refs(name := new)"
    by (simp add: apply_refs_def split: option.splits)
  ultimately show ?thesis by (simp add: set_ref_def del: fun_upd_apply)
qed

text \<open>An \<open>Undo\<close> of its own sequence number can be appended, and \<open>is_active\<close> then never returns.\<close>
lemma self_undo_diverges:
  "is_active (ops (append_op new_log (Undo 0) None)) 0 u64_max = None"
proof -
  let ?op = "\<lparr>seq = 0, kind = Undo 0, op_note = None, op_time = None\<rparr>"
  have os: "ops (append_op new_log (Undo 0) None) = [?op]"
    by (simp add: append_op_def append_at_def new_log_def next_seq_def)
  have "active_undos [?op] 0 u64_max [?op] = Some m \<Longrightarrow> False" for m
    using active_undos_Cons [of "[?op]" 0 u64_max ?op "[]"]
    by (auto simp: active_undos_Nil undo_target_def split: if_splits)
  then show ?thesis
    by (cases "active_undos [?op] 0 u64_max [?op]") (simp_all add: is_active_def os)
qed

text \<open>The log file round trip: what \<open>save\<close> writes, \<open>load\<close> reads back, for any encoding of
  every operation as a line of UTF-8 text that its decoder inverts.\<close>
theorem log_file_roundtrip:
  assumes "\<forall>op\<in>set (ops log). to_json op = Inr (enc op) \<and> from_json (enc op) = Inr op"
    "\<forall>op\<in>set (ops log). CHR 0x0A \<notin> set (enc op) \<and> enc op \<noteq> [] \<and>
       solid (hd (enc op)) \<and> solid (last (enc op))"
    "utf8_valid (concat (map (\<lambda>op. enc op @ [CHR 0x0A]) (ops log)))"
  shows "and_then (save_log to_json log) (\<lambda>bytes. load_log from_json (Some bytes)) = Inr log"
proof -
  let ?txt = "concat (map (\<lambda>op. enc op @ [CHR 0x0A]) (ops log))"
  have save: "save_log to_json log = Inr ?txt"
    using save_lines_encoded [of "ops log" to_json enc] assms(1) by (simp add: save_log_def o_def)
  have "list_all plain_line (map enc (ops log))"
    using assms(2) by (auto simp: list_all_iff plain_line_def solid_def)
  then have "str_lines ?txt = map enc (ops log)"
    using str_lines_unlines [of "map enc (ops log)"] by (simp add: unlines_def o_def)
  moreover have "load_lines from_json (map enc (ops log)) = Inr (ops log)"
    using assms by (intro load_lines_encoded) (simp add: trim_solid)
  ultimately show ?thesis using assms(3)
    by (simp add: save load_log_def)
qed

lemma log_file_roundtrip_witness:
  "let enc = (\<lambda>op. ''{'' @ show_nat (seq op) @ ''}'');
       dec = (\<lambda>l. case parse_uint usize_limit (butlast (tl l)) of
                None \<Rightarrow> Inl ''number''
              | Some i \<Rightarrow> Inr \<lparr>seq = i, kind = Undo i, op_note = None, op_time = None\<rparr>);
       log = \<lparr>ops = [\<lparr>seq = 7, kind = Undo 7, op_note = None, op_time = None\<rparr>]\<rparr>
   in and_then (save_log (\<lambda>op. Inr (enc op)) log) (\<lambda>bytes. load_log dec (Some bytes)) = Inr log"
  unfolding Let_def
  by (rule log_file_roundtrip [where enc = "\<lambda>op. ''{'' @ show_nat (seq op) @ ''}''"]) (code_simp, code_simp, code_simp)

end
