(* ===== verification/Registry.thy ===== *)
theory Registry
  imports OpLog
begin

text \<open>
  The three named registries of \<open>omoplata-work\<close>: the landing queues (\<open>queue.rs\<close>), the
  workspaces (\<open>workspace.rs\<close>) and the remotes (\<open>remote.rs\<close>), with their \<open>load\<close>, \<open>save\<close> and
  \<open>mutate_locked\<close>. Each keeps a vector in registration order and finds an item by its name.
  \<open>add\<close> and \<open>remove\<close> return the item and the updated registry. The locale \<open>registry\<close> states the
  contract the three share; its client lemmas say that any sequence of requests acts on the
  registry as on a finite map. Serde's JSON encoding is a parameter; a file is its content, or
  \<open>None\<close> when it does not exist.
\<close>

section \<open>The landing queues\<close>

record queue_policy =
  queue_name :: string
  description :: "string option"
  validate :: "string option"
  require_approval :: bool
  allow_carried :: bool

definition trunk :: queue_policy where
  "trunk = \<lparr>queue_name = ''trunk'', description = Some ''the implicit fleet trunk'', validate = None,
     require_approval = True, allow_carried = True\<rparr>"

record queue_registry =
  queues :: "queue_policy list"

definition new_queues :: queue_registry where
  "new_queues = \<lparr>queues = []\<rparr>"

definition get_queue :: "queue_registry \<Rightarrow> string \<Rightarrow> queue_policy option" where
  "get_queue r name = find (\<lambda>q. queue_name q = name) (queues r)"

definition resolve_queue :: "queue_registry \<Rightarrow> string \<Rightarrow> work_error + queue_policy" where
  "resolve_queue r name =
     (case get_queue r name of
        Some q \<Rightarrow> Inr q
      | None \<Rightarrow> if name = ''trunk'' then Inr trunk else Inl (UnknownQueue name))"

definition add_queue :: "queue_registry \<Rightarrow> queue_policy \<Rightarrow> work_error + queue_policy \<times> queue_registry" where
  "add_queue r policy =
     (if get_queue r (queue_name policy) \<noteq> None then Inl (QueueExists (queue_name policy))
      else let r' = r\<lparr>queues := queues r @ [policy]\<rparr> in Inr (queues r' ! (length (queues r') - 1), r'))"

text \<open>\<open>Vec::remove\<close>: the element at an index and the vector without it.\<close>

definition vec_remove :: "nat \<Rightarrow> 'a list \<Rightarrow> 'a \<times> 'a list" where
  "vec_remove i xs = (xs ! i, take i xs @ drop (Suc i) xs)"

definition remove_queue :: "queue_registry \<Rightarrow> string \<Rightarrow> work_error + queue_policy \<times> queue_registry" where
  "remove_queue r name =
     and_then (ok_or (UnknownQueue name) (position (\<lambda>q. queue_name q = name) (queues r))) (\<lambda>idx.
       let (q, qs) = vec_remove idx (queues r) in Inr (q, r\<lparr>queues := qs\<rparr>))"

section \<open>The workspaces\<close>

record workspace =
  ws_name :: string
  working_dir :: string
  ws_change :: change_id

record workspace_registry =
  workspaces :: "workspace list"

definition new_workspaces :: workspace_registry where
  "new_workspaces = \<lparr>workspaces = []\<rparr>"

definition get_workspace :: "workspace_registry \<Rightarrow> string \<Rightarrow> workspace option" where
  "get_workspace r name = find (\<lambda>w. ws_name w = name) (workspaces r)"

definition add_workspace ::
  "workspace_registry \<Rightarrow> string \<Rightarrow> string \<Rightarrow> work_error + workspace \<times> workspace_registry" where
  "add_workspace r name dir =
     (if get_workspace r name \<noteq> None then Inl (WorkspaceExists name)
      else let r' = r\<lparr>workspaces := workspaces r @
                 [\<lparr>ws_name = name, working_dir = dir, ws_change = ''ws/'' @ name\<rparr>]\<rparr>
        in Inr (workspaces r' ! (length (workspaces r') - 1), r'))"

definition set_change ::
  "workspace_registry \<Rightarrow> string \<Rightarrow> change_id \<Rightarrow> work_error + workspace_registry" where
  "set_change r name c =
     (case position (\<lambda>w. ws_name w = name) (workspaces r) of
        None \<Rightarrow> Inl (UnknownWorkspace name)
      | Some i \<Rightarrow> Inr (r\<lparr>workspaces := (workspaces r)[i := (workspaces r ! i)\<lparr>ws_change := c\<rparr>]\<rparr>))"

definition remove_workspace ::
  "workspace_registry \<Rightarrow> string \<Rightarrow> work_error + workspace \<times> workspace_registry" where
  "remove_workspace r name =
     and_then (ok_or (UnknownWorkspace name) (position (\<lambda>w. ws_name w = name) (workspaces r))) (\<lambda>idx.
       let (w, ws) = vec_remove idx (workspaces r) in Inr (w, r\<lparr>workspaces := ws\<rparr>))"

section \<open>The remotes\<close>

record remote =
  remote_name :: string
  remote_path :: string
  token :: "string option"

record remote_registry =
  remotes :: "remote list"

definition new_remotes :: remote_registry where
  "new_remotes = \<lparr>remotes = []\<rparr>"

definition get_remote :: "remote_registry \<Rightarrow> string \<Rightarrow> remote option" where
  "get_remote r name = find (\<lambda>x. remote_name x = name) (remotes r)"

definition add_remote ::
  "remote_registry \<Rightarrow> string \<Rightarrow> string \<Rightarrow> string option \<Rightarrow> work_error + remote \<times> remote_registry" where
  "add_remote r name path tok =
     (if get_remote r name \<noteq> None then Inl (RemoteExists name)
      else let r' = r\<lparr>remotes := remotes r @ [\<lparr>remote_name = name, remote_path = path, token = tok\<rparr>]\<rparr>
        in Inr (remotes r' ! (length (remotes r') - 1), r'))"

definition remove_remote :: "remote_registry \<Rightarrow> string \<Rightarrow> work_error + remote \<times> remote_registry" where
  "remove_remote r name =
     and_then (ok_or (UnknownRemote name) (position (\<lambda>x. remote_name x = name) (remotes r))) (\<lambda>idx.
       let (x, xs) = vec_remove idx (remotes r) in Inr (x, r\<lparr>remotes := xs\<rparr>))"

section \<open>The files\<close>

text \<open>
  One load-mutate-save cycle over a file with content \<open>file\<close>, as the four \<open>mutate_locked\<close>
  functions run it while they hold the lock: an error of \<open>load\<close>, of the mutation or of \<open>save\<close>
  ends the cycle before the file is replaced. The result carries the new content.
\<close>

definition load_file :: "(string \<Rightarrow> string + 'r) \<Rightarrow> 'r \<Rightarrow> string option \<Rightarrow> work_error + 'r" where
  "load_file from_json empty_one file =
     (case file of
        None \<Rightarrow> Inr empty_one
      | Some bytes \<Rightarrow> (case from_json bytes of Inl e \<Rightarrow> Inl (Decode e) | Inr r \<Rightarrow> Inr r))"

definition save_file :: "('r \<Rightarrow> string + string) \<Rightarrow> 'r \<Rightarrow> work_error + string" where
  "save_file to_json r = (case to_json r of Inl e \<Rightarrow> Inl (Decode e) | Inr json \<Rightarrow> Inr json)"

definition mutate_file ::
  "(string option \<Rightarrow> work_error + 'r) \<Rightarrow> ('r \<Rightarrow> work_error + string) \<Rightarrow>
   ('r \<Rightarrow> work_error + 't \<times> 'r) \<Rightarrow> string option \<Rightarrow> work_error + 't \<times> string option" where
  "mutate_file load save f file =
     and_then (load file) (\<lambda>r. and_then (f r) (\<lambda>(out, r'). and_then (save r') (\<lambda>bytes. Inr (out, Some bytes))))"

definition load_queues :: "(string \<Rightarrow> string + queue_registry) \<Rightarrow> string option \<Rightarrow> work_error + queue_registry" where
  "load_queues from_json = load_file from_json new_queues"

definition save_queues :: "(queue_registry \<Rightarrow> string + string) \<Rightarrow> queue_registry \<Rightarrow> work_error + string" where
  "save_queues to_json = save_file to_json"

definition queues_mutate where
  "queues_mutate from_json to_json f file = mutate_file (load_queues from_json) (save_queues to_json) f file"

definition load_workspaces ::
  "(string \<Rightarrow> string + workspace_registry) \<Rightarrow> string option \<Rightarrow> work_error + workspace_registry" where
  "load_workspaces from_json = load_file from_json new_workspaces"

definition save_workspaces ::
  "(workspace_registry \<Rightarrow> string + string) \<Rightarrow> workspace_registry \<Rightarrow> work_error + string" where
  "save_workspaces to_json = save_file to_json"

definition workspaces_mutate where
  "workspaces_mutate from_json to_json f file =
     mutate_file (load_workspaces from_json) (save_workspaces to_json) f file"

definition load_remotes :: "(string \<Rightarrow> string + remote_registry) \<Rightarrow> string option \<Rightarrow> work_error + remote_registry" where
  "load_remotes from_json = load_file from_json new_remotes"

definition save_remotes :: "(remote_registry \<Rightarrow> string + string) \<Rightarrow> remote_registry \<Rightarrow> work_error + string" where
  "save_remotes to_json = save_file to_json"

definition remotes_mutate where
  "remotes_mutate from_json to_json f file = mutate_file (load_remotes from_json) (save_remotes to_json) f file"

definition log_mutate where
  "log_mutate from_json to_json f file =
     mutate_file (load_log from_json) (save_log to_json) f file"

section \<open>The contract of a registry\<close>

datatype 'a reg_request = Register 'a | Unregister string

fun reg_step :: "('r \<Rightarrow> 'a \<Rightarrow> 'e + 'i \<times> 'r) \<Rightarrow> ('r \<Rightarrow> string \<Rightarrow> 'e + 'i \<times> 'r) \<Rightarrow> 'r \<Rightarrow> 'a reg_request \<Rightarrow> 'r" where
  "reg_step add remove r (Register a) = (case add r a of Inl _ \<Rightarrow> r | Inr (_, r') \<Rightarrow> r')"
| "reg_step add remove r (Unregister n) = (case remove r n of Inl _ \<Rightarrow> r | Inr (_, r') \<Rightarrow> r')"

fun map_step :: "('i \<Rightarrow> string) \<Rightarrow> ('a \<Rightarrow> 'i) \<Rightarrow> (string \<rightharpoonup> 'i) \<Rightarrow> 'a reg_request \<Rightarrow> (string \<rightharpoonup> 'i)" where
  "map_step name_of mk m (Register a) =
     (if m (name_of (mk a)) = None then m(name_of (mk a) \<mapsto> mk a) else m)"
| "map_step name_of mk m (Unregister n) = m(n := None)"

locale registry =
  fixes items :: "'r \<Rightarrow> 'i list" and name_of :: "'i \<Rightarrow> string" and mk :: "'a \<Rightarrow> 'i"
    and get :: "'r \<Rightarrow> string \<Rightarrow> 'i option"
    and add :: "'r \<Rightarrow> 'a \<Rightarrow> 'e + 'i \<times> 'r" and remove :: "'r \<Rightarrow> string \<Rightarrow> 'e + 'i \<times> 'r"
  assumes get_first: "get r n = find (\<lambda>i. name_of i = n) (items r)"
    and add_new: "get r (name_of (mk a)) = None \<Longrightarrow>
      \<exists>r'. add r a = Inr (mk a, r') \<and> items r' = items r @ [mk a]"
    and add_taken: "get r (name_of (mk a)) \<noteq> None \<Longrightarrow> \<exists>e. add r a = Inl e"
    and remove_first: "items r = xs @ i # ys \<Longrightarrow> \<forall>x\<in>set xs. name_of x \<noteq> name_of i \<Longrightarrow>
      \<exists>r'. remove r (name_of i) = Inr (i, r') \<and> items r' = xs @ ys"
    and remove_unknown: "n \<notin> name_of ` set (items r) \<Longrightarrow> \<exists>e. remove r n = Inl e"
begin

definition names_unique :: "'r \<Rightarrow> bool" where
  "names_unique r \<longleftrightarrow> distinct (map name_of (items r))"

lemma find_unique:
  "distinct (map name_of xs) \<Longrightarrow> find (\<lambda>i. name_of i = n) xs = Some i \<longleftrightarrow> i \<in> set xs \<and> name_of i = n"
  by (induction xs) auto

lemma get_None_iff: "get r n = None \<longleftrightarrow> n \<notin> name_of ` set (items r)"
  by (auto simp: get_first find_None_iff)

lemma find_snoc:
  "name_of i \<notin> name_of ` set xs \<Longrightarrow>
   find (\<lambda>x. name_of x = n) (xs @ [i]) = (if n = name_of i then Some i else find (\<lambda>x. name_of x = n) xs)"
  by (induction xs) auto

lemma find_absent: "n \<notin> name_of ` set ys \<Longrightarrow> find (\<lambda>x. name_of x = n) ys = None"
  by (induction ys) auto

lemma find_middle:
  "name_of i \<notin> name_of ` set xs \<Longrightarrow> name_of i \<notin> name_of ` set ys \<Longrightarrow>
   find (\<lambda>x. name_of x = n) (xs @ ys) =
     (if n = name_of i then None else find (\<lambda>x. name_of x = n) (xs @ i # ys))"
  by (induction xs) (auto simp: find_absent)

lemma find_snoc_fresh:
  "name_of i \<notin> name_of ` set xs \<Longrightarrow>
   (\<lambda>n. find (\<lambda>x. name_of x = n) (xs @ [i])) = (\<lambda>n. find (\<lambda>x. name_of x = n) xs)(name_of i \<mapsto> i)"
  by (rule ext) (rule trans [OF find_snoc], assumption, simp)

lemma find_without:
  assumes "distinct (map name_of (xs @ i # ys))"
  shows "(\<lambda>n. find (\<lambda>x. name_of x = n) (xs @ ys)) = (\<lambda>n. find (\<lambda>x. name_of x = n) (xs @ i # ys))(name_of i := None)"
proof (rule ext)
  fix n
  have "name_of i \<notin> name_of ` set xs" "name_of i \<notin> name_of ` set ys" using assms by auto
  then show "find (\<lambda>x. name_of x = n) (xs @ ys) =
      ((\<lambda>n. find (\<lambda>x. name_of x = n) (xs @ i # ys))(name_of i := None)) n"
    by (rule trans [OF find_middle]) simp
qed

lemma get_fun: "get r = (\<lambda>n. find (\<lambda>i. name_of i = n) (items r))"
  by (rule ext) (rule get_first)

lemma register_step:
  assumes "names_unique r"
  shows "names_unique (reg_step add remove r (Register a)) \<and>
    get (reg_step add remove r (Register a)) = map_step name_of mk (get r) (Register a)"
proof (cases "get r (name_of (mk a))")
  case None
  then obtain r' where r': "add r a = Inr (mk a, r')" "items r' = items r @ [mk a]" using add_new by blast
  have fresh: "name_of (mk a) \<notin> name_of ` set (items r)" using None get_None_iff by blast
  have "get r' = (get r)(name_of (mk a) \<mapsto> mk a)"
    unfolding get_fun r'(2) by (rule find_snoc_fresh [OF fresh])
  then show ?thesis using None assms r' fresh by (simp add: names_unique_def)
next
  case (Some j)
  then obtain e where "add r a = Inl e" using add_taken by blast
  then show ?thesis using Some assms by simp
qed

lemma unregister_step:
  assumes "names_unique r"
  shows "names_unique (reg_step add remove r (Unregister n)) \<and>
    get (reg_step add remove r (Unregister n)) = map_step name_of mk (get r) (Unregister n)"
proof (cases "n \<in> name_of ` set (items r)")
  case True
  then obtain i xs ys where i: "n = name_of i" "items r = xs @ i # ys" by (metis imageE split_list)
  then have d: "distinct (map name_of (xs @ i # ys))" using assms by (simp add: names_unique_def)
  have "name_of x \<noteq> name_of i" if "x \<in> set xs" for x
    using d imageI [OF that, of name_of] by auto
  then obtain r' where r': "remove r (name_of i) = Inr (i, r')" "items r' = xs @ ys"
    using remove_first [OF i(2)] by metis
  have "get r' = (get r)(name_of i := None)"
    unfolding get_fun r'(2) i(2) by (rule find_without [OF d])
  then show ?thesis using d r' i(1) by (simp add: names_unique_def)
next
  case False
  then obtain e where "remove r n = Inl e" using remove_unknown by blast
  moreover have "(get r)(n := None) = get r" using False get_None_iff [of r n] by auto
  ultimately show ?thesis using assms by simp
qed

lemma step_refines:
  "names_unique r \<Longrightarrow> names_unique (reg_step add remove r q) \<and>
   get (reg_step add remove r q) = map_step name_of mk (get r) q"
  by (cases q) (simp_all only: register_step unregister_step)

lemma requests_refine_map:
  "names_unique r \<Longrightarrow> names_unique (foldl (reg_step add remove) r qs) \<and>
   get (foldl (reg_step add remove) r qs) = foldl (map_step name_of mk) (get r) qs"
proof (induction qs arbitrary: r)
  case (Cons q qs)
  then show ?case using step_refines [OF Cons.prems, of q] by auto
qed simp

lemma empty_registry: "items r = [] \<Longrightarrow> names_unique r \<and> get r = Map.empty"
  by (auto simp: names_unique_def get_first)

lemma requests_from_empty:
  "items r = [] \<Longrightarrow> distinct (map name_of (items (foldl (reg_step add remove) r qs))) \<and>
   get (foldl (reg_step add remove) r qs) = foldl (map_step name_of mk) Map.empty qs"
  using requests_refine_map [of r qs] empty_registry [of r] by (simp add: names_unique_def)

end

lemma position_first:
  "\<forall>x\<in>set xs. \<not> p x \<Longrightarrow> p i \<Longrightarrow> position p (xs @ i # ys) = Some (length xs)"
  by (induction xs) auto

lemma vec_remove_middle [simp]: "vec_remove (length xs) (xs @ i # ys) = (i, xs @ ys)"
  by (simp add: vec_remove_def)

lemma position_absent: "n \<notin> f ` set xs \<Longrightarrow> position (\<lambda>x. f x = n) xs = None"
  by (auto simp: position_None_iff)

interpretation queue_reg: registry queues queue_name "\<lambda>q. q" get_queue add_queue remove_queue
proof (unfold_locales, goal_cases)
  case (4 r xs i ys)
  then show ?case by (simp add: remove_queue_def position_first)
qed (simp_all add: get_queue_def add_queue_def remove_queue_def Let_def position_absent)

definition workspace_of :: "string \<times> string \<Rightarrow> workspace" where
  "workspace_of = (\<lambda>(name, dir). \<lparr>ws_name = name, working_dir = dir, ws_change = ''ws/'' @ name\<rparr>)"

interpretation workspace_reg: registry workspaces ws_name workspace_of get_workspace
  "\<lambda>r (name, dir). add_workspace r name dir" remove_workspace
proof (unfold_locales, goal_cases)
  case (4 r xs i ys)
  then show ?case by (simp add: remove_workspace_def position_first)
qed (auto simp: get_workspace_def add_workspace_def remove_workspace_def workspace_of_def Let_def position_absent)

definition remote_of :: "string \<times> string \<times> string option \<Rightarrow> remote" where
  "remote_of = (\<lambda>(name, path, tok). \<lparr>remote_name = name, remote_path = path, token = tok\<rparr>)"

interpretation remote_reg: registry remotes remote_name remote_of get_remote
  "\<lambda>r (name, path, tok). add_remote r name path tok" remove_remote
proof (unfold_locales, goal_cases)
  case (4 r xs i ys)
  then show ?case by (simp add: remove_remote_def position_first)
qed (auto simp: get_remote_def add_remote_def remove_remote_def remote_of_def Let_def position_absent)

section \<open>Properties\<close>

text \<open>The three registries implement finite maps: after any sequence of registrations and
  removals, refused ones included, the names are unique and a lookup answers as the map with the
  same requests does, in which the first registration of a name wins.\<close>
theorem registries_refine_maps:
  "distinct (map queue_name (queues (foldl (reg_step add_queue remove_queue) new_queues qs))) \<and>
   get_queue (foldl (reg_step add_queue remove_queue) new_queues qs)
     = foldl (map_step queue_name (\<lambda>q. q)) Map.empty qs \<and>
   distinct (map ws_name (workspaces
     (foldl (reg_step (\<lambda>r (name, dir). add_workspace r name dir) remove_workspace) new_workspaces ws))) \<and>
   get_workspace (foldl (reg_step (\<lambda>r (name, dir). add_workspace r name dir) remove_workspace) new_workspaces ws)
     = foldl (map_step ws_name workspace_of) Map.empty ws \<and>
   distinct (map remote_name (remotes
     (foldl (reg_step (\<lambda>r (name, path, tok). add_remote r name path tok) remove_remote) new_remotes rs))) \<and>
   get_remote (foldl (reg_step (\<lambda>r (name, path, tok). add_remote r name path tok) remove_remote) new_remotes rs)
     = foldl (map_step remote_name remote_of) Map.empty rs"
  using queue_reg.requests_from_empty [of new_queues qs]
    workspace_reg.requests_from_empty [of new_workspaces ws]
    remote_reg.requests_from_empty [of new_remotes rs]
  by (simp add: new_queues_def new_workspaces_def new_remotes_def)

lemma resolve_queue_iff:
  "resolve_queue r name = Inr q \<longleftrightarrow>
     get_queue r name = Some q \<or> get_queue r name = None \<and> name = ''trunk'' \<and> q = trunk"
  by (auto simp: resolve_queue_def split: option.splits)

lemma mutate_file_Inr:
  "mutate_file load save f file = Inr (out, file') \<longleftrightarrow>
     (\<exists>r r' bytes. load file = Inr r \<and> f r = Inr (out, r') \<and> save r' = Inr bytes \<and> file' = Some bytes)"
  by (auto simp: mutate_file_def res_simps)

end
