(* ===== verification/Workspace.thy ===== *)
theory Workspace
  imports Registry
begin

text \<open>
  Working copies, \<open>workspace.rs\<close>, and the replication of objects, \<open>copy_closure\<close> of \<open>remote.rs\<close>.
  A directory is the list of its entries in the order of the directory iterator: files, directories,
  special entries (symbolic links, devices) and entries whose file type cannot be determined; every
  other call of the file system succeeds. A name is its bytes. The object store and the log that the code mutates are passed and
  returned, on errors too. \<open>materialize\<close> and \<open>copy_closure\<close> follow ids through the store and are
  partial functions: \<open>None\<close> is an id that panics or a chain of trees that never ends.
\<close>

section \<open>Directories\<close>

datatype fs_node =
    FileN string
  | DirN "(string \<times> fs_node) list"
  | SpecialN
  | OpaqueN

type_synonym dir = "(string \<times> fs_node) list"

definition CONTROL_NAMES :: "string list" where
  "CONTROL_NAMES = [''.omoplata'', ''.git'']"

definition join_path :: "string \<Rightarrow> string \<Rightarrow> string" where
  "join_path p name = p @ ''/'' @ name"

section \<open>Snapshots\<close>

text \<open>The entries of one directory level, with the tree built so far. The text of an entry that
\<open>Tree::insert\<close> refuses is abbreviated to its name.\<close>

definition skipped :: "string \<Rightarrow> bool" where
  "skipped name \<longleftrightarrow> \<not> utf8_valid name \<or> name \<in> set CONTROL_NAMES"

definition invalid_entry :: "string \<Rightarrow> work_error" where
  "invalid_entry name = Content (''invalid entry name '' @ name)"

function snapshot_loop ::
  "(string \<Rightarrow> string) \<Rightarrow> string \<Rightarrow> dir \<Rightarrow> tree \<Rightarrow> object_files \<Rightarrow> (work_error + tree) \<times> object_files" where
  "snapshot_loop sha p [] t fs = (Inr t, fs)"
| "snapshot_loop sha p ((name, x) # es) t fs =
     (if skipped name then snapshot_loop sha p es t fs
      else case x of
        OpaqueN \<Rightarrow> (Inl (IoErr (join_path p name)), fs)
      | SpecialN \<Rightarrow> snapshot_loop sha p es t fs
      | DirN sub \<Rightarrow>
        (case snapshot_loop sha (join_path p name) sub new_tree fs of
           (Inl e, fs') \<Rightarrow> (Inl e, fs')
         | (Inr subtree, fs') \<Rightarrow>
           (case write_object sha fs' (TreeObj subtree) of (i, fs'') \<Rightarrow>
             (case tree_insert t name ETree i of
                Inl _ \<Rightarrow> (Inl (invalid_entry name), fs'')
              | Inr t' \<Rightarrow> snapshot_loop sha p es t' fs'')))
      | FileN bytes \<Rightarrow>
        (case write_blob sha fs bytes of (i, fs') \<Rightarrow>
          (case tree_insert t name EBlob i of
             Inl _ \<Rightarrow> (Inl (invalid_entry name), fs')
           | Inr t' \<Rightarrow> snapshot_loop sha p es t' fs')))"
  by pat_completeness auto
termination
  by (relation "measure (\<lambda>(sha, p, es, t, fs). size_list (size_prod (\<lambda>_. 0) size) es)") auto

definition snapshot_tree ::
  "(string \<Rightarrow> string) \<Rightarrow> string \<Rightarrow> dir \<Rightarrow> object_files \<Rightarrow> (work_error + tree) \<times> object_files" where
  "snapshot_tree sha p es fs = snapshot_loop sha p es new_tree fs"

definition snapshot ::
  "(string \<Rightarrow> string) \<Rightarrow> string \<Rightarrow> dir \<Rightarrow> object_files \<Rightarrow> (work_error + object_id) \<times> object_files" where
  "snapshot sha p es fs =
     (case snapshot_tree sha p es fs of
        (Inl e, fs') \<Rightarrow> (Inl e, fs')
      | (Inr t, fs') \<Rightarrow> (case write_object sha fs' (TreeObj t) of (i, fs'') \<Rightarrow> (Inr i, fs'')))"

definition is_dirty ::
  "(string \<Rightarrow> string) \<Rightarrow> string \<Rightarrow> dir \<Rightarrow> commit_id option \<Rightarrow> object_files \<Rightarrow>
   (work_error + bool \<times> commit_id) \<times> object_files" where
  "is_dirty sha p es expected fs =
     (case snapshot sha p es fs of
        (Inl e, fs') \<Rightarrow> (Inl e, fs')
      | (Inr i, fs') \<Rightarrow>
        (case (case expected of
             Some recorded \<Rightarrow> (recorded, fs')
           | None \<Rightarrow> (case write_object sha fs' (TreeObj new_tree) of (j, fs'') \<Rightarrow> (id_to_string j, fs'')))
         of (base, fs'') \<Rightarrow> (Inr (id_to_string i \<noteq> base, id_to_string i), fs'')))"

definition auto_snapshot ::
  "(string \<Rightarrow> string) \<Rightarrow> workspace \<Rightarrow> dir \<Rightarrow> object_files \<Rightarrow> op_log \<Rightarrow>
   ((work_error + commit_id \<times> bool) \<times> object_files \<times> op_log) option" where
  "auto_snapshot sha ws es fs log =
     map_option (\<lambda>refs.
       let parent = refs (ws_change ws) in
       case is_dirty sha (working_dir ws) es parent fs of
         (Inl e, fs') \<Rightarrow> (Inl e, fs', log)
       | (Inr (dirty, current), fs') \<Rightarrow>
           if dirty then
             (case snapshot sha (working_dir ws) es fs' of
                (Inl e, fs'') \<Rightarrow> (Inl e, fs'', log)
              | (Inr i, fs'') \<Rightarrow>
                  let new = id_to_string i; msg = ''auto-snapshot workspace '' @ ws_name ws in
                  (Inr (new, True), fs'', append_op log (Commit (ws_name ws) (ws_change ws) new parent (Some msg)) (Some msg)))
           else (Inr (current, False), fs', log)) (refs_now log)"

section \<open>Checkout\<close>

text \<open>Removal keeps the control names only; an entry that cannot be inspected is an error.\<close>

fun remove_working_content :: "string \<Rightarrow> dir \<Rightarrow> (work_error + unit) \<times> dir" where
  "remove_working_content p [] = (Inr (), [])"
| "remove_working_content p ((name, x) # es) =
     (if name \<in> set CONTROL_NAMES then
        (case remove_working_content p es of (r, d) \<Rightarrow> (r, (name, x) # d))
      else if x = OpaqueN then (Inl (IoErr (join_path p name)), (name, x) # es)
      else remove_working_content p es)"

text \<open>\<open>std::fs::write\<close> and \<open>create_dir_all\<close> of one name of a directory: an entry of the wrong sort
under that name is an error.\<close>

definition put_file :: "string \<Rightarrow> string \<Rightarrow> string \<Rightarrow> dir \<Rightarrow> work_error + dir" where
  "put_file p name bytes d =
     (case map_of d name of
        None \<Rightarrow> Inr (d @ [(name, FileN bytes)])
      | Some (FileN _) \<Rightarrow> Inr (AList.update name (FileN bytes) d)
      | Some _ \<Rightarrow> Inl (IoErr (join_path p name)))"

definition open_dir :: "string \<Rightarrow> string \<Rightarrow> dir \<Rightarrow> work_error + dir" where
  "open_dir p name d =
     (case map_of d name of
        None \<Rightarrow> Inr []
      | Some (DirN sub) \<Rightarrow> Inr sub
      | Some _ \<Rightarrow> Inl (IoErr (join_path p name)))"

partial_function (option) write_entries ::
  "(string \<Rightarrow> string) \<Rightarrow> object_files \<Rightarrow> string \<Rightarrow> tree_entry list \<Rightarrow> dir \<Rightarrow> ((work_error + unit) \<times> dir) option" where
  "write_entries sha fs p es d =
     (case es of
        [] \<Rightarrow> Some (Inr (), d)
      | e # rest \<Rightarrow>
        (case ekind e of
           EBlob \<Rightarrow>
             (case read_object sha fs (eid e) of
                None \<Rightarrow> None
              | Some (Inl err) \<Rightarrow> Some (Inl (Store err), d)
              | Some (Inr (TreeObj _)) \<Rightarrow>
                  Some (Inl (Content (''entry '' @ ename e @ '' claims blob but stored object is a tree'')), d)
              | Some (Inr (BlobObj bytes)) \<Rightarrow>
                  (case put_file p (ename e) bytes d of
                     Inl err \<Rightarrow> Some (Inl err, d)
                   | Inr d' \<Rightarrow> write_entries sha fs p rest d'))
         | ETree \<Rightarrow>
             (case read_object sha fs (eid e) of
                None \<Rightarrow> None
              | Some (Inl err) \<Rightarrow> Some (Inl (Store err), d)
              | Some (Inr (BlobObj _)) \<Rightarrow>
                  Some (Inl (Content (id_to_string (eid e) @ '' is not a tree object'')), d)
              | Some (Inr (TreeObj t)) \<Rightarrow>
                  (case open_dir p (ename e) d of
                     Inl err \<Rightarrow> Some (Inl err, d)
                   | Inr sub \<Rightarrow>
                       Option.bind (write_entries sha fs (join_path p (ename e)) (entries t) sub)
                         (\<lambda>r. case r of
                            (Inl err, sub') \<Rightarrow> Some (Inl err, AList.update (ename e) (DirN sub') d)
                          | (Inr _, sub') \<Rightarrow>
                              write_entries sha fs p rest (AList.update (ename e) (DirN sub') d))))))"

definition write_tree_into ::
  "(string \<Rightarrow> string) \<Rightarrow> object_files \<Rightarrow> object_id \<Rightarrow> string \<Rightarrow> dir \<Rightarrow> ((work_error + unit) \<times> dir) option" where
  "write_tree_into sha fs i p d =
     (case read_object sha fs i of
        None \<Rightarrow> None
      | Some (Inl err) \<Rightarrow> Some (Inl (Store err), d)
      | Some (Inr (BlobObj _)) \<Rightarrow> Some (Inl (Content (id_to_string i @ '' is not a tree object'')), d)
      | Some (Inr (TreeObj t)) \<Rightarrow> write_entries sha fs p (entries t) d)"

definition materialize ::
  "(string \<Rightarrow> string) \<Rightarrow> object_files \<Rightarrow> object_id \<Rightarrow> string \<Rightarrow> dir \<Rightarrow> ((work_error + unit) \<times> dir) option" where
  "materialize sha fs i p d =
     (case remove_working_content p d of
        (Inl e, d') \<Rightarrow> Some (Inl e, d')
      | (Inr _, d') \<Rightarrow> write_tree_into sha fs i p d')"

section \<open>Replication\<close>

partial_function (option) copy_loop ::
  "(string \<Rightarrow> string) \<Rightarrow> object_files \<Rightarrow> object_files \<Rightarrow> object_id list \<Rightarrow> nat \<Rightarrow>
   ((work_error + nat) \<times> object_files) option" where
  "copy_loop sha src dst stack copied =
     (case stack of
        [] \<Rightarrow> Some (Inr copied, dst)
      | i # rest \<Rightarrow>
        (case read_object sha src i of
           None \<Rightarrow> None
         | Some (Inl err) \<Rightarrow> Some (Inl (Store err), dst)
         | Some (Inr ob) \<Rightarrow>
             (let stack' = (case ob of TreeObj t \<Rightarrow> rev (map eid (entries t)) @ rest | BlobObj _ \<Rightarrow> rest) in
              if has_object dst i then copy_loop sha src dst stack' copied
              else copy_loop sha src (snd (write_object sha dst ob)) stack' (copied + 1))))"

definition copy_closure ::
  "(string \<Rightarrow> string) \<Rightarrow> object_files \<Rightarrow> object_files \<Rightarrow> object_id \<Rightarrow> ((work_error + nat) \<times> object_files) option" where
  "copy_closure sha src dst root = copy_loop sha src dst [root] 0"

section \<open>The content a snapshot records\<close>

text \<open>The tracked content of a directory, with the entries of every level in the order of their
names; a directory is \<open>readable\<close> when no two entries share a name and every tracked entry can be
inspected and has a name that a tree can hold.\<close>

function tracked :: "dir \<Rightarrow> dir" where
  "tracked [] = []"
| "tracked ((n, x) # es) =
     (if skipped n then tracked es
      else case x of
        FileN b \<Rightarrow> (n, FileN b) # tracked es
      | DirN sub \<Rightarrow> (n, DirN (sort_key fst (tracked sub))) # tracked es
      | _ \<Rightarrow> tracked es)"
  by pat_completeness auto
termination by (relation "measure (size_list (size_prod (\<lambda>_. 0) size))") auto

definition canon :: "dir \<Rightarrow> dir" where
  "canon es = sort_key fst (tracked es)"

function readable :: "dir \<Rightarrow> bool" where
  "readable [] = True"
| "readable ((n, x) # es) =
     (n \<notin> fst ` set es \<and>
      (skipped n \<or>
       (case x of
          FileN _ \<Rightarrow> validate_name n
        | DirN sub \<Rightarrow> validate_name n \<and> readable sub
        | SpecialN \<Rightarrow> True
        | OpaqueN \<Rightarrow> False)) \<and>
      readable es)"
  by pat_completeness auto
termination by (relation "measure (size_list (size_prod (\<lambda>_. 0) size))") auto

function node_obj :: "(string \<Rightarrow> string) \<Rightarrow> fs_node \<Rightarrow> object" where
  "node_obj sha (FileN b) = BlobObj b"
| "node_obj sha (DirN es) =
     TreeObj \<lparr>entries = map (\<lambda>(n, x). \<lparr>ename = n, ekind = (case x of DirN _ \<Rightarrow> ETree | _ \<Rightarrow> EBlob),
        eid = obj_id sha (node_obj sha x)\<rparr>) es\<rparr>"
| "node_obj sha SpecialN = BlobObj []"
| "node_obj sha OpaqueN = BlobObj []"
  by pat_completeness auto
termination
proof (relation "measure (\<lambda>(sha, x). size x)", goal_cases)
  case (2 sha es z n x)
  then show ?case by (induction es) auto
qed simp

definition entry_of :: "(string \<Rightarrow> string) \<Rightarrow> string \<times> fs_node \<Rightarrow> tree_entry" where
  "entry_of sha p =
     \<lparr>ename = fst p, ekind = (case snd p of DirN _ \<Rightarrow> ETree | _ \<Rightarrow> EBlob), eid = obj_id sha (node_obj sha (snd p))\<rparr>"

lemma node_obj_dir: "node_obj sha (DirN es) = TreeObj \<lparr>entries = map (entry_of sha) es\<rparr>"
  by (auto simp: entry_of_def)

declare node_obj.simps(2) [simp del]
declare node_obj_dir [simp]

lemma entry_of_simps [simp]:
  "ename (entry_of sha p) = fst p" "eid (entry_of sha p) = obj_id sha (node_obj sha (snd p))"
  "ekind (entry_of sha (n, FileN b)) = EBlob" "ekind (entry_of sha (n, DirN es)) = ETree"
  by (simp_all add: entry_of_def)

text \<open>The objects that a snapshot writes below the root, in order.\<close>

function snapshot_objs :: "(string \<Rightarrow> string) \<Rightarrow> dir \<Rightarrow> object list" where
  "snapshot_objs sha [] = []"
| "snapshot_objs sha ((n, x) # es) =
     (if skipped n then snapshot_objs sha es
      else case x of
        FileN b \<Rightarrow> BlobObj b # snapshot_objs sha es
      | DirN sub \<Rightarrow> snapshot_objs sha sub @ node_obj sha (DirN (canon sub)) # snapshot_objs sha es
      | _ \<Rightarrow> snapshot_objs sha es)"
  by pat_completeness auto
termination by (relation "measure (\<lambda>(sha, es). size_list (size_prod (\<lambda>_. 0) size) es)") auto

definition store_all :: "(string \<Rightarrow> string) \<Rightarrow> object list \<Rightarrow> object_files \<Rightarrow> object_files" where
  "store_all sha obs fs = fold (\<lambda>x fs. snd (write_object sha fs x)) obs fs"

lemma store_all_simps [simp]:
  "store_all sha [] fs = fs"
  "store_all sha (x # xs) fs = store_all sha xs (snd (write_object sha fs x))"
  "store_all sha (xs @ ys) fs = store_all sha ys (store_all sha xs fs)"
  by (simp_all add: store_all_def)

lemma write_object_id: "write_object sha fs x = (obj_id sha x, snd (write_object sha fs x))"
  by (simp add: write_object_def Let_def)

lemma case_write_object [simp]:
  "(case write_object sha fs x of (i, fs') \<Rightarrow> f i fs') = f (obj_id sha x) (snd (write_object sha fs x))"
  by (subst write_object_id) simp

lemma sorted_tracked: "distinct (map fst es) \<Longrightarrow> sorted_names (map (entry_of sha) (sort_key fst es))"
proof -
  assume d: "distinct (map fst es)"
  have "sorted (map fst (sort_key fst es))" by simp
  moreover have "distinct (map fst (sort_key fst es))"
    using d by (metis distinct_map distinct_sort set_sort)
  ultimately have "sorted_wrt (<) (map fst (sort_key fst es))" by (simp add: strict_sorted_iff)
  then show ?thesis by (simp add: sorted_names_def sorted_wrt_map)
qed

lemma tracked_names: "fst ` set (tracked es) \<subseteq> fst ` set es"
proof (induction es rule: tracked.induct)
  case (2 n x es)
  show ?case
  proof (cases "skipped n")
    case False
    then show ?thesis using "2.IH" by (cases x) auto
  qed (use "2.IH" in auto)
qed simp

lemma tracked_distinct: "readable es \<Longrightarrow> distinct (map fst (tracked es))"
proof (induction es rule: tracked.induct)
  case (2 n x es)
  then show ?case using tracked_names [of es] by (auto split: fs_node.splits if_splits)
qed simp

lemma sorted_entries_eq:
  assumes "sorted_names (entries t)" "set (entries t) = entry_of sha ` set es" "distinct (map fst es)"
  shows "t = \<lparr>entries = map (entry_of sha) (sort_key fst es)\<rparr>"
proof -
  have "entries t = map (entry_of sha) (sort_key fst es)"
    using assms by (intro sorted_names_unique sorted_tracked) auto
  then show ?thesis by (cases t) simp
qed

lemma snapshot_loop_ok:
  assumes "readable es" "sorted_names (entries t)" "ename ` set (entries t) \<inter> fst ` set es = {}"
  shows "\<exists>t'. snapshot_loop sha p es t fs = (Inr t', store_all sha (snapshot_objs sha es) fs) \<and>
    sorted_names (entries t') \<and> set (entries t') = set (entries t) \<union> entry_of sha ` set (tracked es)"
  using assms
proof (induction sha p es t fs rule: snapshot_loop.induct)
  case (1 sha p t fs)
  then show ?case by simp
next
  case (2 sha p n x es t fs)
  show ?case
  proof (cases "skipped n")
    case True
    then show ?thesis using 2 by auto
  next
    case False
    have insert: "\<exists>t'. tree_insert t n k i = Inr t' \<and> sorted_names (entries t') \<and>
        set (entries t') = insert \<lparr>ename = n, ekind = k, eid = i\<rparr> (set (entries t))" if valid: "validate_name n" for k i
    proof -
      obtain t' where t': "tree_insert t n k i = Inr t'" using tree_insert_Inr [of n t k i] valid by blast
      have "e \<in> set (entries t) \<Longrightarrow> ename e \<noteq> n" for e using "2.prems"(3) by auto
      then show ?thesis using tree_insert_spec [OF "2.prems"(2) t'] t' by blast
    qed
    show ?thesis
    proof (cases x)
      case (FileN b)
      then obtain t' where t': "tree_insert t n EBlob (obj_id sha (BlobObj b)) = Inr t'"
        "sorted_names (entries t')" "set (entries t') = insert (entry_of sha (n, FileN b)) (set (entries t))"
        using insert [of EBlob "obj_id sha (BlobObj b)"] "2.prems"(1) False by (auto simp: entry_of_def)
      have rest: "readable es" "ename ` set (entries t') \<inter> fst ` set es = {}"
        using "2.prems" False FileN t'(3) by (auto simp: entry_of_def)
      have w: "write_blob sha fs b = (obj_id sha (BlobObj b), snd (write_object sha fs (BlobObj b)))"
        unfolding write_blob_def by (rule write_object_id)
      obtain t'' where t'': "snapshot_loop sha p es t' (snd (write_object sha fs (BlobObj b)))
          = (Inr t'', store_all sha (snapshot_objs sha es) (snd (write_object sha fs (BlobObj b))))"
        "sorted_names (entries t'')" "set (entries t'') = set (entries t') \<union> entry_of sha ` set (tracked es)"
        using "2.IH"(2) [OF False FileN w [symmetric] t'(1) rest(1) t'(2) rest(2)] by blast
      then have "snapshot_loop sha p ((n, x) # es) t fs = (Inr t'', store_all sha (snapshot_objs sha ((n, x) # es)) fs)"
        using False FileN t'(1) by (simp add: write_blob_def)
      then show ?thesis using t''(2,3) t'(3) False FileN by auto
    next
      case (DirN sub)
      have sub: "readable sub" "validate_name n" using "2.prems"(1) False DirN by auto
      have new: "sorted_names (entries new_tree)" "ename ` set (entries new_tree) \<inter> fst ` set sub = {}"
        by (simp_all add: new_tree_def sorted_names_def)
      obtain st where st: "snapshot_loop sha (join_path p n) sub new_tree fs = (Inr st, store_all sha (snapshot_objs sha sub) fs)"
        "sorted_names (entries st)" "set (entries st) = entry_of sha ` set (tracked sub)"
        using "2.IH"(3) [OF False DirN sub(1) new] by (auto simp: new_tree_def)
      have obj: "TreeObj st = node_obj sha (DirN (canon sub))"
        using sorted_entries_eq [OF st(2,3) tracked_distinct [OF sub(1)]] by (simp add: canon_def)
      let ?fs = "store_all sha (snapshot_objs sha sub) fs"
      obtain t' where t': "tree_insert t n ETree (obj_id sha (TreeObj st)) = Inr t'"
        "sorted_names (entries t')" "set (entries t') = insert (entry_of sha (n, DirN (canon sub))) (set (entries t))"
        using insert [OF sub(2), of ETree "obj_id sha (TreeObj st)"] obj by (auto simp: entry_of_def)
      have rest: "readable es" "ename ` set (entries t') \<inter> fst ` set es = {}"
        using "2.prems" False DirN t'(3) by (auto simp: entry_of_def)
      have w: "write_object sha ?fs (TreeObj st) = (obj_id sha (TreeObj st), snd (write_object sha ?fs (TreeObj st)))"
        by (rule write_object_id)
      let ?fs' = "snd (write_object sha ?fs (TreeObj st))"
      obtain t'' where t'': "snapshot_loop sha p es t' ?fs' = (Inr t'', store_all sha (snapshot_objs sha es) ?fs')"
        "sorted_names (entries t'')" "set (entries t'') = set (entries t') \<union> entry_of sha ` set (tracked es)"
        using "2.IH"(4) [OF False DirN st(1) [symmetric] refl w [symmetric] t'(1) rest(1) t'(2) rest(2)]
        by blast
      then have "snapshot_loop sha p ((n, x) # es) t fs = (Inr t'', store_all sha (snapshot_objs sha ((n, x) # es)) fs)"
        using False DirN t'(1) st(1) obj by simp
      then show ?thesis using t''(2,3) t'(3) False DirN by (auto simp: canon_def)
    qed (use 2 False in auto)
  qed
qed

abbreviation root_obj :: "(string \<Rightarrow> string) \<Rightarrow> dir \<Rightarrow> object" where
  "root_obj sha es \<equiv> node_obj sha (DirN (canon es))"

lemma snapshot_ok:
  assumes "readable es"
  shows "snapshot sha p es fs =
    (Inr (obj_id sha (root_obj sha es)), store_all sha (snapshot_objs sha es @ [root_obj sha es]) fs)"
proof -
  have "sorted_names (entries new_tree)" "ename ` set (entries new_tree) \<inter> fst ` set es = {}"
    by (simp_all add: new_tree_def sorted_names_def)
  from snapshot_loop_ok [OF assms this] obtain t where
    t: "snapshot_loop sha p es new_tree fs = (Inr t, store_all sha (snapshot_objs sha es) fs)"
      "sorted_names (entries t)" "set (entries t) = entry_of sha ` set (tracked es)"
    by (force simp: new_tree_def)
  have "TreeObj t = root_obj sha es"
    using sorted_entries_eq [OF t(2,3) tracked_distinct [OF assms]] by (simp add: canon_def)
  then show ?thesis using t(1) by (simp add: snapshot_def snapshot_tree_def)
qed

section \<open>Content and its objects\<close>

text \<open>Content with files and directories only and one entry per name, and the objects it consists of.\<close>

function plain :: "dir \<Rightarrow> bool" where
  "plain [] = True"
| "plain ((n, x) # es) =
     (n \<notin> fst ` set es \<and> (case x of FileN _ \<Rightarrow> True | DirN sub \<Rightarrow> plain sub | _ \<Rightarrow> False) \<and> plain es)"
  by pat_completeness auto
termination by (relation "measure (size_list (size_prod (\<lambda>_. 0) size))") auto

function sub_objs :: "(string \<Rightarrow> string) \<Rightarrow> dir \<Rightarrow> object set" where
  "sub_objs sha [] = {}"
| "sub_objs sha ((n, x) # es) =
     insert (node_obj sha x) (case x of DirN sub \<Rightarrow> sub_objs sha sub | _ \<Rightarrow> {}) \<union> sub_objs sha es"
  by pat_completeness auto
termination by (relation "measure (\<lambda>(sha, es). size_list (size_prod (\<lambda>_. 0) size) es)") auto

lemma plain_iff:
  "plain es \<longleftrightarrow> distinct (map fst es) \<and>
     (\<forall>p\<in>set es. case snd p of FileN _ \<Rightarrow> True | DirN sub \<Rightarrow> plain sub | _ \<Rightarrow> False)"
proof (induction es)
  case (Cons p es)
  then show ?case by (cases p) (simp, blast)
qed simp

lemma sub_objs_Union:
  "sub_objs sha es =
     (\<Union>p\<in>set es. insert (node_obj sha (snd p)) (case snd p of DirN sub \<Rightarrow> sub_objs sha sub | _ \<Rightarrow> {}))"
proof (induction es)
  case (Cons p es)
  then show ?case by (cases p) simp
qed simp

lemma plain_canon: "readable es \<Longrightarrow> plain (canon es)"
proof -
  assume r: "readable es"
  have "readable es \<Longrightarrow> plain (tracked es)"
  proof (induction es rule: tracked.induct)
    case (2 n x es)
    have sort: "plain cs \<Longrightarrow> plain (sort_key fst cs)" for cs
      by (simp add: plain_iff [of cs] plain_iff [of "sort_key fst cs"] distinct_map)
    show ?case
    proof (cases "skipped n")
      case False
      then show ?thesis using 2 sort tracked_names [of es] by (cases x) auto
    qed (use 2 in auto)
  qed simp
  then show ?thesis using r by (simp add: canon_def plain_iff [of "tracked es"] plain_iff [of "sort_key fst _"] distinct_map)
qed

lemma sub_objs_sort [simp]: "sub_objs sha (sort_key fst es) = sub_objs sha es"
  by (simp add: sub_objs_Union [of sha es] sub_objs_Union [of sha "sort_key fst es"])

lemma snapshot_objs_set: "set (snapshot_objs sha es) = sub_objs sha (canon es)"
  unfolding canon_def sub_objs_sort
proof (induction sha es rule: snapshot_objs.induct)
  case (2 sha n x es)
  show ?case
  proof (cases "skipped n")
    case False
    then show ?thesis using "2.IH" by (cases x) (auto simp: canon_def)
  qed (use "2.IH" in auto)
qed simp

lemma entry_of_content_inject:
  "map (entry_of sha) cs = map (entry_of sha) ds \<Longrightarrow> plain cs \<Longrightarrow> plain ds \<Longrightarrow>
   inj_on (obj_id sha) (sub_objs sha cs \<union> sub_objs sha ds) \<Longrightarrow> cs = ds"
proof (induction cs arbitrary: ds rule: plain.induct)
  case 1
  then show ?case by simp
next
  case (2 n x es)
  then obtain y rest where ds: "ds = (n, y) # rest" by (cases ds) (auto simp: entry_of_def)
  have "inj_on (obj_id sha) (sub_objs sha es \<union> sub_objs sha rest)"
    using "2.prems"(4) by (rule inj_on_subset) (auto simp: ds)
  then have tails: "es = rest" using "2.IH"(2) [of rest] "2.prems"(1-3) by (simp add: ds)
  have eq: "obj_id sha (node_obj sha x) = obj_id sha (node_obj sha y)"
    using "2.prems"(1) by (simp add: ds entry_of_def)
  have "node_obj sha x = node_obj sha y"
    by (rule inj_onD [OF "2.prems"(4) eq]) (simp_all add: ds)
  then have "x = y"
  proof (cases x)
    case (FileN b)
    with \<open>node_obj sha x = _\<close> show ?thesis using "2.prems"(3) by (cases y) (auto simp: ds)
  next
    case (DirN sub)
    with \<open>node_obj sha x = _\<close> obtain sub' where y: "y = DirN sub'" "map (entry_of sha) sub = map (entry_of sha) sub'"
      using "2.prems"(3) by (cases y) (auto simp: ds)
    have "inj_on (obj_id sha) (sub_objs sha sub \<union> sub_objs sha sub')"
      using "2.prems"(4) by (rule inj_on_subset) (auto simp: ds DirN y)
    then have "sub = sub'" using "2.IH"(1) [OF DirN y(2)] "2.prems"(2,3) by (simp add: DirN ds y)
    then show ?thesis by (simp add: DirN y)
  qed (use "2.prems"(2) in auto)
  then show ?case using ds tails by simp
qed

section \<open>What the store holds after a snapshot\<close>

definition held :: "(string \<Rightarrow> string) \<Rightarrow> object_files \<Rightarrow> object set" where
  "held sha fs = {ob. obj_ok ob \<and> fs (object_path (obj_id sha ob)) = Some (serialize ob)}"

abbreviation readable_obj :: "(string \<Rightarrow> string) \<Rightarrow> object_files \<Rightarrow> object \<Rightarrow> bool" where
  "readable_obj sha fs ob \<equiv> read_object sha fs (obj_id sha ob) = Some (Inr ob)"

lemma store_all_put: "store_all sha obs fs = repo_store.put_all sha fs obs"
  by (simp add: store_all_def repo_store.put_all_def)

lemma store_all_ok: "store_ok sha fs \<Longrightarrow> list_all obj_ok obs \<Longrightarrow> store_ok sha (store_all sha obs fs)"
  unfolding store_all_put by (rule repo_store.put_all_inv)

lemma held_write: "obj_ok x \<Longrightarrow> held sha (snd (write_object sha fs x)) \<subseteq> insert x (held sha fs)"
proof
  fix ob assume x: "obj_ok x" and ob: "ob \<in> held sha (snd (write_object sha fs x))"
  show "ob \<in> insert x (held sha fs)"
  proof (cases "object_path (obj_id sha ob) = object_path (obj_id sha x) \<and> fs (object_path (obj_id sha x)) = None")
    case True
    then have "serialize ob = serialize x" using ob by (simp add: held_def write_object_def Let_def)
    then show ?thesis using x ob object_codec.enc_inject by (auto simp: held_def)
  next
    case False
    then show ?thesis using ob by (auto simp: held_def write_object_def Let_def split: if_splits)
  qed
qed

lemma held_store_all: "list_all obj_ok obs \<Longrightarrow> held sha (store_all sha obs fs) \<subseteq> set obs \<union> held sha fs"
proof (induction obs arbitrary: fs)
  case (Cons x obs)
  then show ?case using held_write [of x sha fs] by fastforce
qed simp

lemma stored_readable:
  assumes "store_ok sha fs" "list_all obj_ok obs" "inj_on (obj_id sha) (set obs \<union> held sha fs)" "x \<in> set obs"
  shows "readable_obj sha (store_all sha obs fs) x"
proof -
  let ?fs = "store_all sha obs fs"
  obtain y where y: "read_object sha ?fs (obj_id sha x) = Some (Inr y)" "obj_id sha y = obj_id sha x"
    using repo_store.put_all_get [OF assms(1,2,4)] unfolding store_all_put
    by (auto simp: store_get_def split: option.splits sum.splits)
  then obtain bytes where b: "?fs (object_path (obj_id sha x)) = Some bytes" "deserialize bytes = Some (Inr y)"
    by (auto simp: read_object_def split: option.splits sum.splits if_splits)
  then obtain z where z: "obj_ok z" "object_path (obj_id sha x) = object_path (obj_id sha z)" "bytes = serialize z"
    using store_all_ok [OF assms(1,2)] unfolding store_ok_def by blast
  then have "y = z" using b deserialize_serialize by simp
  then have "y \<in> held sha ?fs" using z b y(2) by (simp add: held_def)
  then have "y \<in> set obs \<union> held sha fs" using held_store_all [OF assms(2)] by blast
  then have "y = x" using assms(3,4) y(2) by (auto simp: inj_on_def)
  then show ?thesis using y by simp
qed

definition full_digest :: "(string \<Rightarrow> string) \<Rightarrow> bool" where
  "full_digest sha \<longleftrightarrow> (\<forall>s. length (sha s) = 32)"

lemma obj_id_ok: "full_digest sha \<Longrightarrow> id_ok (obj_id sha ob)"
  by (simp add: full_digest_def id_ok_def obj_id_def id_with_def digest_len_def split: hash_alg.splits)

definition named :: "dir \<Rightarrow> bool" where
  "named es \<longleftrightarrow> (\<forall>p\<in>set es. validate_name (fst p) \<and> \<not> skipped (fst p))"

lemma named_tracked: "readable es \<Longrightarrow> named (tracked es)"
proof (induction es rule: tracked.induct)
  case (2 n x es)
  show ?case
  proof (cases "skipped n")
    case False
    then show ?thesis using 2 by (cases x) (auto simp: named_def)
  qed (use 2 in \<open>auto simp: named_def\<close>)
qed (simp add: named_def)

definition shape_ok :: "object \<Rightarrow> bool" where
  "shape_ok ob \<longleftrightarrow> (case ob of BlobObj _ \<Rightarrow> True | TreeObj t \<Rightarrow> tree_ok t)"

lemma root_shape_ok: "full_digest sha \<Longrightarrow> readable es \<Longrightarrow> shape_ok (root_obj sha es)"
proof -
  assume f: "full_digest sha" and r: "readable es"
  have "list_all entry_ok (map (entry_of sha) (canon es))"
    using named_tracked [OF r] obj_id_ok [OF f]
    by (auto simp: list_all_iff canon_def named_def entry_ok_def entry_of_def skipped_def)
  then show ?thesis using sorted_tracked [OF tracked_distinct [OF r]]
    by (simp add: shape_ok_def tree_ok_def canon_def)
qed

lemma snapshot_shapes_ok: "full_digest sha \<Longrightarrow> readable es \<Longrightarrow> list_all shape_ok (snapshot_objs sha es)"
proof (induction sha es rule: snapshot_objs.induct)
  case (2 sha n x es)
  show ?case
  proof (cases "skipped n")
    case False
    then show ?thesis using 2 root_shape_ok by (cases x) (auto simp: shape_ok_def)
  qed (use 2 in auto)
qed simp

text \<open>The objects of a snapshot, and that each of them has a length a \<open>usize\<close> can count.\<close>

definition all_objs :: "(string \<Rightarrow> string) \<Rightarrow> dir \<Rightarrow> object list" where
  "all_objs sha es = snapshot_objs sha es @ [root_obj sha es]"

definition countable_objs :: "(string \<Rightarrow> string) \<Rightarrow> dir \<Rightarrow> bool" where
  "countable_objs sha es \<longleftrightarrow> list_all (\<lambda>ob. length (payload ob) < usize_limit) (all_objs sha es)"

lemma all_objs_ok:
  "full_digest sha \<Longrightarrow> readable es \<Longrightarrow> countable_objs sha es \<Longrightarrow> list_all obj_ok (all_objs sha es)"
  using snapshot_shapes_ok [of sha es] root_shape_ok [of sha es]
  by (auto simp: countable_objs_def all_objs_def list_all_iff obj_ok_def shape_ok_def)

section \<open>Checkout restores what was recorded\<close>

lemmas write_entries_simps = write_entries.simps [of _ _ _ "[]"] write_entries.simps [of _ _ _ "_ # _"]

lemma update_snoc: "n \<notin> fst ` set d \<Longrightarrow> AList.update n x d = d @ [(n, x)]"
  by (induction d) auto

lemma map_of_absent: "n \<notin> fst ` set d \<Longrightarrow> map_of d n = None"
  by (simp add: map_of_eq_None_iff)

lemma write_entries_ok:
  "plain cs \<Longrightarrow> fst ` set cs \<inter> fst ` set d = {} \<Longrightarrow> \<forall>ob\<in>sub_objs sha cs. readable_obj sha fs ob \<Longrightarrow>
   write_entries sha fs p (map (entry_of sha) cs) d = Some (Inr (), d @ cs)"
proof (induction cs arbitrary: p d rule: plain.induct)
  case 1
  then show ?case by (simp add: write_entries_simps)
next
  case (2 n x es)
  have absent: "map_of d n = None" "n \<notin> fst ` set d" using "2.prems"(2) by (auto simp: map_of_eq_None_iff)
  have "fst ` set es \<inter> fst ` set (d @ [(n, x)]) = {}" "plain es" "\<forall>ob\<in>sub_objs sha es. readable_obj sha fs ob"
    using "2.prems" by auto
  from "2.IH"(2) [OF this(2,1,3)] have rest:
    "write_entries sha fs p (map (entry_of sha) es) (d @ [(n, x)]) = Some (Inr (), d @ (n, x) # es)" by simp
  have r: "readable_obj sha fs (node_obj sha x)" using "2.prems"(3) by simp
  show ?case
  proof (cases x)
    case (FileN b)
    then have "put_file p n b d = Inr (d @ [(n, x)])" using absent by (simp add: put_file_def)
    then show ?thesis using r rest by (simp add: write_entries_simps(2) FileN)
  next
    case (DirN sub)
    have "write_entries sha fs (join_path p n) (map (entry_of sha) sub) [] = Some (Inr (), sub)"
      using "2.IH"(1) [OF DirN, of "[]"] "2.prems" by (simp add: DirN)
    moreover have "open_dir p n d = Inr []" using absent by (simp add: open_dir_def)
    ultimately show ?thesis using r rest absent
      by (simp add: DirN write_entries_simps(2) update_snoc)
  qed (use "2.prems" in auto)
qed

text \<open>A directory in which every entry that is not a control name can be inspected; what a removal
leaves of it.\<close>

definition control_part :: "dir \<Rightarrow> dir" where
  "control_part d = filter (\<lambda>(n, _). n \<in> set CONTROL_NAMES) d"

definition removable :: "dir \<Rightarrow> bool" where
  "removable d \<longleftrightarrow> list_all (\<lambda>(n, x). n \<in> set CONTROL_NAMES \<or> x \<noteq> OpaqueN) d"

lemma remove_working_content_ok: "removable d \<Longrightarrow> remove_working_content p d = (Inr (), control_part d)"
  by (induction p d rule: remove_working_content.induct) (auto simp: removable_def control_part_def)

definition no_clash :: "(string \<Rightarrow> string) \<Rightarrow> object_files \<Rightarrow> dir list \<Rightarrow> bool" where
  "no_clash sha fs ds \<longleftrightarrow> inj_on (obj_id sha) ((\<Union>es\<in>set ds. set (all_objs sha es)) \<union> held sha fs)"

lemma snapshot_all_objs:
  "readable es \<Longrightarrow> snapshot sha p es fs = (Inr (obj_id sha (root_obj sha es)), store_all sha (all_objs sha es) fs)"
  by (simp add: snapshot_ok all_objs_def)

lemma all_objs_set: "set (all_objs sha es) = insert (root_obj sha es) (sub_objs sha (canon es))"
  by (simp add: all_objs_def snapshot_objs_set)

lemma canon_names: "readable es \<Longrightarrow> fst ` set (canon es) \<inter> set CONTROL_NAMES = {}"
  using named_tracked [of es] by (auto simp: canon_def named_def skipped_def)

lemma materialize_ok:
  assumes "readable es" "removable d" "\<forall>ob\<in>set (all_objs sha es). readable_obj sha fs ob"
  shows "materialize sha fs (obj_id sha (root_obj sha es)) p d = Some (Inr (), control_part d @ canon es)"
proof -
  have "fst ` set (canon es) \<inter> fst ` set (control_part d) = {}"
    using canon_names [OF assms(1)] by (auto simp: control_part_def)
  moreover have "\<forall>ob\<in>sub_objs sha (canon es). readable_obj sha fs ob" "readable_obj sha fs (root_obj sha es)"
    using assms(3) by (auto simp: all_objs_set simp del: node_obj_dir)
  ultimately show ?thesis
    using write_entries_ok [OF plain_canon [OF assms(1)], of "control_part d" sha fs p]
    by (simp add: materialize_def remove_working_content_ok [OF assms(2)] write_tree_into_def)
qed

lemma snapshot_readable:
  assumes "full_digest sha" "store_ok sha fs" "readable es" "countable_objs sha es" "no_clash sha fs [es]"
  shows "\<forall>ob\<in>set (all_objs sha es). readable_obj sha (snd (snapshot sha p es fs)) ob"
  using stored_readable [OF assms(2) all_objs_ok [OF assms(1,3,4)]] assms(5)
  by (simp add: snapshot_all_objs assms(3) no_clash_def)

lemma tracked_append: "tracked (xs @ ys) = tracked xs @ tracked ys"
  by (induction xs rule: tracked.induct) (auto split: fs_node.splits)

lemma tracked_control: "tracked (control_part d) = []"
  by (induction d) (auto simp: control_part_def skipped_def)

lemma tracked_fixed: "\<forall>p\<in>set cs. tracked [p] = [p] \<Longrightarrow> tracked cs = cs"
proof (induction cs)
  case (Cons p cs)
  then show ?case using tracked_append [of "[p]" cs] by simp
qed simp

lemma canon_fixed: "(\<forall>p\<in>set cs. tracked [p] = [p]) \<Longrightarrow> sorted (map fst cs) \<Longrightarrow> canon cs = cs"
  unfolding canon_def by (subst tracked_fixed) (auto intro: sort_key_id_if_sorted simp del: tracked.simps)

lemma tracked_entries_fixed: "p \<in> set (tracked es) \<Longrightarrow> tracked [p] = [p]"
proof (induction es arbitrary: p rule: tracked.induct)
  case (2 n x es)
  show ?case
  proof (cases "skipped n")
    case False
    show ?thesis
    proof (cases x)
      case (FileN b)
      have "p = (n, FileN b) \<or> p \<in> set (tracked es)" using "2.prems" False by (simp add: FileN)
      moreover have "tracked [(n, FileN b)] = [(n, FileN b)]" using False by simp
      ultimately show ?thesis using "2.IH"(2) [OF False FileN] by blast
    next
      case (DirN sub)
      have "canon (canon sub) = canon sub"
        using "2.IH"(3) [OF False DirN] by (intro canon_fixed) (auto simp: canon_def)
      then have "sort_key fst (tracked (canon sub)) = canon sub" by (simp add: canon_def)
      moreover have "p = (n, DirN (canon sub)) \<or> p \<in> set (tracked es)"
        using "2.prems" False by (simp add: DirN canon_def)
      moreover have "tracked [(n, DirN (canon sub))] = [(n, DirN (sort_key fst (tracked (canon sub))))]"
        using False by simp
      ultimately show ?thesis using "2.IH"(4) [OF False DirN] by metis
    qed (use 2 False in auto)
  qed (use 2 in auto)
qed simp

lemma canon_canon [simp]: "canon (canon es) = canon es"
  using tracked_entries_fixed by (intro canon_fixed) (auto simp: canon_def)

lemma canon_checkout: "canon (control_part d @ canon es) = canon es"
  using canon_canon [of es] by (simp add: canon_def tracked_append tracked_control)

lemma id_to_string_inject: "id_ok i \<Longrightarrow> id_ok j \<Longrightarrow> id_to_string i = id_to_string j \<longleftrightarrow> i = j"
  using id_from_to_string by (metis option.inject sum.inject(2))

lemma root_obj_inject:
  assumes "readable a" "readable b" "no_clash sha fs [a, b]"
  shows "obj_id sha (root_obj sha a) = obj_id sha (root_obj sha b) \<longleftrightarrow> canon a = canon b"
proof
  assume "obj_id sha (root_obj sha a) = obj_id sha (root_obj sha b)"
  then have "root_obj sha a = root_obj sha b"
    by (rule inj_onD [OF assms(3) [unfolded no_clash_def]]) (simp_all add: all_objs_def)
  moreover have "inj_on (obj_id sha) (sub_objs sha (canon a) \<union> sub_objs sha (canon b))"
    using assms(3) unfolding no_clash_def by (rule inj_on_subset) (auto simp: all_objs_set)
  ultimately show "canon a = canon b"
    using entry_of_content_inject [of sha "canon a" "canon b"] plain_canon assms(1,2) by simp
qed simp

section \<open>Properties\<close>

text \<open>A snapshot is canonical and \<open>is_dirty\<close> is exact: two working copies have one snapshot id
exactly when their tracked content is the same, whatever the order of the directory iterator and
whatever lies under the control names; a working copy is dirty against a recorded snapshot exactly
when its content differs from the recorded one.\<close>
theorem snapshot_canonical:
  assumes "readable a" "readable b" "full_digest sha" "no_clash sha Map.empty [a, b]"
  shows "\<exists>i j. fst (snapshot sha p a fs) = Inr i \<and> fst (snapshot sha q b gs) = Inr j \<and>
    (i = j \<longleftrightarrow> canon a = canon b) \<and>
    fst (is_dirty sha q b (Some (id_to_string i)) gs) = Inr (canon a \<noteq> canon b, id_to_string j)"
proof -
  note root_obj_inject [OF assms(1,2,4)]
  moreover have "id_to_string (obj_id sha (root_obj sha b)) = id_to_string (obj_id sha (root_obj sha a)) \<longleftrightarrow>
      obj_id sha (root_obj sha b) = obj_id sha (root_obj sha a)"
    using obj_id_ok [OF assms(3)] by (intro id_to_string_inject)
  ultimately show ?thesis
    using assms(1,2) by (auto simp: snapshot_all_objs is_dirty_def simp del: node_obj_dir)
qed

definition ex_sha :: "string \<Rightarrow> string" where
  "ex_sha s = take 32 (s @ replicate 32 (CHR 0x00))"

definition ex_dir1 :: dir where
  "ex_dir1 = [(''b'', FileN ''2''), (''.git'', DirN [(''HEAD'', OpaqueN)]), (''a'', DirN [(''c'', FileN ''1'')])]"

definition ex_dir2 :: dir where
  "ex_dir2 = [(''a'', DirN [(''l'', SpecialN), (''c'', FileN ''1'')]), (''b'', FileN ''2'')]"

lemma ex_sha_full: "full_digest ex_sha"
  by (auto simp: full_digest_def ex_sha_def)

lemma ex_dirs: "readable ex_dir1" "readable ex_dir2" "canon ex_dir1 = canon ex_dir2"
  "canon ex_dir1 = [(''a'', DirN [(''c'', FileN ''1'')]), (''b'', FileN ''2'')]"
  by code_simp+

lemma no_clash_list:
  "distinct (map (obj_id sha) (remdups (concat (map (all_objs sha) ds)))) \<Longrightarrow> no_clash sha Map.empty ds"
  by (simp add: no_clash_def held_def distinct_map)

lemma ex_no_clash: "no_clash ex_sha Map.empty [ex_dir1, ex_dir2]" "no_clash ex_sha Map.empty [ex_dir1]"
  by (rule no_clash_list, code_simp)+

lemma snapshot_canonical_witness:
  "fst (snapshot ex_sha [] ex_dir1 Map.empty) = fst (snapshot ex_sha [] ex_dir2 Map.empty)"
  using snapshot_canonical [OF ex_dirs(1,2) ex_sha_full ex_no_clash(1), of "[]" Map.empty "[]" Map.empty] ex_dirs(3)
  by auto

text \<open>Checkout restores what a snapshot recorded: materializing the snapshot of a working copy
into any directory leaves exactly the control entries of that directory and the recorded content,
and the result is clean against the snapshot.\<close>
theorem checkout_restores_snapshot:
  assumes "readable es" "full_digest sha" "store_ok sha fs" "countable_objs sha es" "no_clash sha fs [es]" "removable d"
  shows "\<exists>i fs'. snapshot sha p es fs = (Inr i, fs') \<and>
    materialize sha fs' i q d = Some (Inr (), control_part d @ canon es) \<and>
    canon (control_part d @ canon es) = canon es \<and>
    (\<forall>e ob. read_object sha fs e = Some (Inr ob) \<longrightarrow> read_object sha fs' e = Some (Inr ob))"
proof -
  let ?i = "obj_id sha (root_obj sha es)" and ?fs = "store_all sha (all_objs sha es) fs"
  have s: "snapshot sha p es fs = (Inr ?i, ?fs)" by (rule snapshot_all_objs [OF assms(1)])
  have "materialize sha ?fs ?i q d = Some (Inr (), control_part d @ canon es)"
    using snapshot_readable [OF assms(2,3,1,4,5), of p] s by (intro materialize_ok [OF assms(1,6)]) simp
  moreover have "read_object sha fs e = Some (Inr ob) \<Longrightarrow> read_object sha (store_all sha obs fs) e = Some (Inr ob)" for e ob obs
    by (induction obs arbitrary: fs) (simp_all add: write_stable)
  ultimately show ?thesis using s canon_checkout by blast
qed

lemma checkout_restores_snapshot_witness:
  "\<exists>i fs'. snapshot ex_sha ''w'' ex_dir1 Map.empty = (Inr i, fs') \<and>
     materialize ex_sha fs' i ''v'' [(''.git'', FileN ''x''), (''old'', FileN ''y'')]
       = Some (Inr (), (''.git'', FileN ''x'') # canon ex_dir2)"
proof -
  have "store_ok ex_sha Map.empty" by (simp add: store_ok_def)
  moreover have "countable_objs ex_sha ex_dir1" "removable [(''.git'', FileN ''x''), (''old'', FileN ''y'')]"
    "control_part [(''.git'', FileN ''x''), (''old'', FileN ''y'')] = [(''.git'', FileN ''x'')]"
    by code_simp+
  ultimately show ?thesis
    using checkout_restores_snapshot [OF ex_dirs(1) ex_sha_full, where fs = Map.empty and p = "''w''" and q = "''v''"
        and d = "[(''.git'', FileN ''x''), (''old'', FileN ''y'')]"] ex_no_clash(2) ex_dirs(3)
    by auto
qed

text \<open>The auto-snapshot: it appends one commit operation exactly when the content of the working
copy is not the recorded one (an unborn change records the empty tree), after it the ref of the
change is the snapshot and no other ref moved, and a second auto-snapshot does nothing.\<close>
theorem auto_snapshot_exact:
  assumes "log_built log" "length (ops log) + 1 < 2 ^ 64" "readable es"
  shows "\<exists>refs i dirty fs' log'. refs_now log = Some refs \<and>
    fst (snapshot sha (working_dir ws) es fs) = Inr i \<and>
    auto_snapshot sha ws es fs log = Some (Inr (id_to_string i, dirty), fs', log') \<and>
    (dirty \<longleftrightarrow> id_to_string i \<noteq>
       (case refs (ws_change ws) of Some c \<Rightarrow> c | None \<Rightarrow> id_to_string (obj_id sha (TreeObj new_tree)))) \<and>
    (if dirty then log_built log' \<and> ops log' = ops log @ [last (ops log')] \<and>
        refs_now log' = Some (refs(ws_change ws \<mapsto> id_to_string i))
     else log' = log) \<and>
    (\<exists>gs. auto_snapshot sha ws es fs' log' = Some (Inr (id_to_string i, False), gs, log'))"
proof -
  let ?i = "obj_id sha (root_obj sha es)" and ?id = "id_to_string (obj_id sha (root_obj sha es))"
  let ?base = "\<lambda>r. case r of Some c \<Rightarrow> c | None \<Rightarrow> id_to_string (obj_id sha (TreeObj new_tree))"
  let ?c = "ws_change ws" and ?p = "working_dir ws"
  have s: "snapshot sha ?p es gs = (Inr ?i, store_all sha (all_objs sha es) gs)" for gs
    by (rule snapshot_all_objs [OF assms(3)])
  have d: "\<exists>gs'. is_dirty sha ?p es r gs = (Inr (?id \<noteq> ?base r, ?id), gs')" for r gs
    by (cases r) (auto simp: is_dirty_def s)
  have clean: "\<exists>gs. auto_snapshot sha ws es fs' log' = Some (Inr (?id, False), gs, log')"
    if "refs_now log' = Some refs'" "?id = ?base (refs' ?c)" for fs' log' refs'
    using d [of "refs' ?c" fs'] that by (auto simp: auto_snapshot_def Let_def)
  let ?k = "\<lambda>refs. Commit (ws_name ws) ?c ?id (refs ?c) (Some (''auto-snapshot workspace '' @ ws_name ws))"
  let ?log = "\<lambda>refs. append_op log (?k refs) (Some (''auto-snapshot workspace '' @ ws_name ws))"
  have "undo_target (?k refs) = None" for refs by (simp add: undo_target_def)
  from refs_now_append [OF assms(1) this assms(2)] obtain refs where r: "refs_now log = Some refs"
    by blast
  have r': "refs_now (?log refs) = Some (refs(?c \<mapsto> ?id))"
    using refs_now_append [OF assms(1) _ assms(2), of "?k refs" "Some (''auto-snapshot workspace '' @ ws_name ws)"] r
    by (auto simp: undo_target_def apply_refs_def)
  obtain gs where gs: "is_dirty sha ?p es (refs ?c) fs = (Inr (?id \<noteq> ?base (refs ?c), ?id), gs)" using d by blast
  show ?thesis
  proof (cases "?id = ?base (refs ?c)")
    case True
    then have a: "auto_snapshot sha ws es fs log = Some (Inr (?id, False), gs, log)"
      by (simp add: auto_snapshot_def r gs Let_def)
    from clean [OF r True, of gs] show ?thesis using a r s True by auto
  next
    case False
    let ?gs = "store_all sha (all_objs sha es) gs"
    have a: "auto_snapshot sha ws es fs log = Some (Inr (?id, True), ?gs, ?log refs)"
      using False by (simp add: auto_snapshot_def r gs s Let_def)
    have "log_built (?log refs)"
      unfolding append_op_def by (rule log_append [OF assms(1)]) (simp add: undo_target_def)
    moreover have "ops (?log refs) = ops log @ [last (ops (?log refs))]" by (simp add: append_op_def append_at_def)
    moreover have "\<exists>hs. auto_snapshot sha ws es ?gs (?log refs) = Some (Inr (?id, False), hs, ?log refs)"
      by (rule clean [OF r']) simp
    ultimately show ?thesis using a r r' s False by auto
  qed
qed

lemma auto_snapshot_exact_witness:
  "\<exists>i fs' log'. auto_snapshot ex_sha \<lparr>ws_name = ''w'', working_dir = ''/w'', ws_change = ''ws/w''\<rparr> ex_dir1 Map.empty new_log
     = Some (Inr (i, True), fs', log') \<and> refs_now log' = Some [''ws/w'' \<mapsto> i]"
proof -
  have "obj_id ex_sha (root_obj ex_sha ex_dir1) \<noteq> obj_id ex_sha (TreeObj new_tree)" by code_simp
  then have "id_to_string (obj_id ex_sha (root_obj ex_sha ex_dir1)) \<noteq> id_to_string (obj_id ex_sha (TreeObj new_tree))"
    using id_to_string_inject obj_id_ok [OF ex_sha_full] by metis
  moreover have "refs_now new_log = Some Map.empty"
    by (simp add: refs_now_def fold_refs_def new_log_def)
  moreover have "length (ops new_log) + 1 < 2 ^ 64" by (simp add: new_log_def)
  ultimately show ?thesis
    using auto_snapshot_exact [OF log_empty _ ex_dirs(1), of ex_sha "\<lparr>ws_name = ''w'', working_dir = ''/w'', ws_change = ''ws/w''\<rparr>" Map.empty]
    by (auto simp: snapshot_all_objs ex_dirs(1) split: if_splits)
qed

text \<open>The control directory is not safe from a checkout: a stored tree may hold an entry under a
control name, and materializing it overwrites the files of the control directory.\<close>
theorem checkout_overwrites_control:
  "\<exists>sha fs i. materialize sha fs i ''w'' [(''.omoplata'', DirN [(''config'', FileN ''good'')])]
     = Some (Inr (), [(''.omoplata'', DirN [(''config'', FileN ''evil'')])])"
proof -
  define inner where "inner = TreeObj \<lparr>entries = [\<lparr>ename = ''config'', ekind = EBlob, eid = obj_id ex_sha (BlobObj ''evil'')\<rparr>]\<rparr>"
  define outer where "outer = TreeObj \<lparr>entries = [\<lparr>ename = ''.omoplata'', ekind = ETree, eid = obj_id ex_sha inner\<rparr>]\<rparr>"
  let ?obs = "[BlobObj ''evil'', inner, outer]" and ?fs = "store_all ex_sha [BlobObj ''evil'', inner, outer] Map.empty"
  have "list_all obj_ok ?obs" "distinct (map (obj_id ex_sha) ?obs)"
    unfolding inner_def outer_def by code_simp+
  then have "list_all obj_ok ?obs" "inj_on (obj_id ex_sha) (set ?obs \<union> held ex_sha Map.empty)"
    unfolding distinct_map by (simp_all add: held_def del: list.set)
  then have "readable_obj ex_sha ?fs ob" if "ob \<in> set ?obs" for ob
    using that by (intro stored_readable) (simp_all add: store_ok_def)
  then have "readable_obj ex_sha ?fs (BlobObj ''evil'')" "readable_obj ex_sha ?fs inner" "readable_obj ex_sha ?fs outer"
    by simp_all
  then have "materialize ex_sha ?fs (obj_id ex_sha outer) ''w'' [(''.omoplata'', DirN [(''config'', FileN ''good'')])]
     = Some (Inr (), [(''.omoplata'', DirN [(''config'', FileN ''evil'')])])"
    by (simp add: materialize_def CONTROL_NAMES_def write_tree_into_def outer_def inner_def write_entries_simps
        open_dir_def put_file_def del: store_all_simps)
  then show ?thesis by blast
qed

section \<open>Replication copies the closure\<close>

text \<open>The ids a root reaches through trees, and the roots below which everything can be read and no
chain of trees is infinite.\<close>

inductive reach :: "(string \<Rightarrow> string) \<Rightarrow> object_files \<Rightarrow> object_id \<Rightarrow> object_id \<Rightarrow> bool" for sha fs root where
  reach_root: "reach sha fs root root"
| reach_entry: "reach sha fs root i \<Longrightarrow> read_object sha fs i = Some (Inr (TreeObj t)) \<Longrightarrow> e \<in> set (entries t) \<Longrightarrow>
    reach sha fs root (eid e)"

inductive closed :: "(string \<Rightarrow> string) \<Rightarrow> object_files \<Rightarrow> object_id \<Rightarrow> bool" for sha fs where
  closed_blob: "read_object sha fs i = Some (Inr (BlobObj b)) \<Longrightarrow> closed sha fs i"
| closed_tree: "read_object sha fs i = Some (Inr (TreeObj t)) \<Longrightarrow> \<forall>e\<in>set (entries t). closed sha fs (eid e) \<Longrightarrow>
    closed sha fs i"

lemma reach_trans: "reach sha fs j k \<Longrightarrow> reach sha fs i j \<Longrightarrow> reach sha fs i k"
  by (induction rule: reach.induct) (auto intro: reach.intros)

lemma reach_cases_root:
  "reach sha fs i j \<Longrightarrow> j = i \<or>
     (\<exists>t e. read_object sha fs i = Some (Inr (TreeObj t)) \<and> e \<in> set (entries t) \<and> reach sha fs (eid e) j)"
  by (induction rule: reach.induct) (auto intro: reach.intros)

abbreviation closure :: "(string \<Rightarrow> string) \<Rightarrow> object_files \<Rightarrow> object_id \<Rightarrow> object_id set" where
  "closure sha fs i \<equiv> {j. reach sha fs i j}"

lemma closure_blob: "read_object sha fs i = Some (Inr (BlobObj b)) \<Longrightarrow> closure sha fs i = {i}"
  using reach_cases_root reach_root by fastforce

lemma closure_tree:
  "read_object sha fs i = Some (Inr (TreeObj t)) \<Longrightarrow>
   closure sha fs i = insert i (\<Union>e\<in>set (entries t). closure sha fs (eid e))"
  using reach_cases_root [of sha fs i] reach_trans [of sha fs _ _ i] reach_root [of sha fs i]
    reach_entry [OF reach_root [of sha fs i]] by fastforce

text \<open>The effect on the destination: nothing is overwritten, every id of \<open>S\<close> is present, what is new
is the canonical text of an object of \<open>S\<close>, and \<open>k\<close> counts what is new.\<close>

definition replicated ::
  "(string \<Rightarrow> string) \<Rightarrow> object_files \<Rightarrow> object_id set \<Rightarrow> object_files \<Rightarrow> object_files \<Rightarrow> nat \<Rightarrow> bool" where
  "replicated sha src S dst dst' k \<longleftrightarrow>
     dst \<subseteq>\<^sub>m dst' \<and> (\<forall>j\<in>S. has_object dst' j) \<and>
     (\<forall>p\<in>dom dst' - dom dst. \<exists>j\<in>S. \<exists>ob. p = object_path j \<and> read_object sha src j = Some (Inr ob) \<and>
        dst' p = Some (serialize ob)) \<and>
     finite (dom dst' - dom dst) \<and> k = card (dom dst' - dom dst)"

lemma replicatedD:
  assumes "replicated sha src S dst dst' k"
  shows "dst \<subseteq>\<^sub>m dst'" "j \<in> S \<Longrightarrow> object_path j \<in> dom dst'"
    "p \<in> dom dst' \<Longrightarrow> p \<notin> dom dst \<Longrightarrow>
       \<exists>j\<in>S. \<exists>ob. p = object_path j \<and> read_object sha src j = Some (Inr ob) \<and> dst' p = Some (serialize ob)"
    "finite (dom dst' - dom dst)" "k = card (dom dst' - dom dst)"
  using assms by (auto simp: replicated_def has_object_def)

lemma replicated_refl: "replicated sha src {} dst dst 0"
  by (simp add: replicated_def)

lemma replicated_present: "has_object dst i \<Longrightarrow> replicated sha src {i} dst dst 0"
  by (simp add: replicated_def)

lemma replicated_write:
  assumes "read_object sha src i = Some (Inr ob)" "\<not> has_object dst i"
  shows "replicated sha src {i} dst (snd (write_object sha dst ob)) 1"
proof -
  have i: "obj_id sha ob = i" using read_object_valid [OF assms(1) alg_Sha256] .
  then have w: "snd (write_object sha dst ob) = dst(object_path i \<mapsto> serialize ob)"
    using assms(2) by (simp add: write_object_def Let_def has_object_def)
  moreover have "insert (object_path i) (dom dst) - dom dst = {object_path i}"
    using assms(2) by (auto simp: has_object_def)
  ultimately show ?thesis
    using assms by (auto simp: replicated_def has_object_def map_le_def)
qed

lemma replicated_trans:
  assumes "replicated sha src I d0 d1 k1" "replicated sha src J d1 d2 k2"
  shows "replicated sha src (I \<union> J) d0 d2 (k1 + k2)"
proof -
  have m: "d0 \<subseteq>\<^sub>m d1" "d1 \<subseteq>\<^sub>m d2" using assms by (auto simp: replicated_def)
  then have dom: "dom d2 - dom d0 = (dom d1 - dom d0) \<union> (dom d2 - dom d1)"
    using map_le_implies_dom_le by blast
  have "card (dom d2 - dom d0) = card (dom d1 - dom d0) + card (dom d2 - dom d1)"
    unfolding dom using assms by (intro card_Un_disjoint) (auto simp: replicated_def)
  moreover have same: "d2 p = d1 p" if "p \<in> dom d1" for p using m(2) that by (simp add: map_le_def)
  moreover have "has_object d2 j" if "has_object d1 j" for j
    using that same [of "object_path j"] by (simp add: has_object_def domIff)
  moreover have "finite (dom d2 - dom d0)" using assms unfolding dom by (auto simp: replicated_def)
  moreover have "d0 \<subseteq>\<^sub>m d2" using m by (rule map_le_trans)
  moreover have "\<exists>j\<in>I \<union> J. \<exists>ob. p = object_path j \<and> read_object sha src j = Some (Inr ob) \<and> d2 p = Some (serialize ob)"
    if "p \<in> dom d2 - dom d0" for p
  proof (cases "p \<in> dom d1")
    case True
    then show ?thesis using replicatedD(3) [OF assms(1) True] that same [OF True] by (metis DiffD2 UnI1)
  next
    case False
    then show ?thesis using replicatedD(3) [OF assms(2) _ False] that by blast
  qed
  moreover have "\<forall>j\<in>I. has_object d1 j" "\<forall>j\<in>J. has_object d2 j" "k1 = card (dom d1 - dom d0)" "k2 = card (dom d2 - dom d1)"
    using assms by (simp_all add: replicated_def)
  ultimately show ?thesis unfolding replicated_def by (intro conjI ballI) (blast | simp)+
qed

lemma copy_loop_Nil [simp]: "copy_loop sha src dst [] n = Some (Inr n, dst)"
  by (subst copy_loop.simps) simp

definition copies_to ::
  "(string \<Rightarrow> string) \<Rightarrow> object_files \<Rightarrow> object_id list \<Rightarrow> object_id set \<Rightarrow> bool" where
  "copies_to sha src ids S \<longleftrightarrow>
     (\<forall>dst rest. \<exists>dst' k. (\<forall>n. copy_loop sha src dst (ids @ rest) n = copy_loop sha src dst' rest (n + k)) \<and>
        replicated sha src S dst dst' k)"

lemma copies_to_Nil: "copies_to sha src [] {}"
  unfolding copies_to_def using replicated_refl by (metis add_0_right append_Nil)

lemma copies_to_append:
  assumes "copies_to sha src xs S" "copies_to sha src ys T"
  shows "copies_to sha src (xs @ ys) (S \<union> T)"
  unfolding copies_to_def
proof (intro allI)
  fix dst rest
  obtain d1 k1 where 1: "\<And>n. copy_loop sha src dst (xs @ ys @ rest) n = copy_loop sha src d1 (ys @ rest) (n + k1)"
    "replicated sha src S dst d1 k1" using assms(1) unfolding copies_to_def by blast
  obtain d2 k2 where 2: "\<And>n. copy_loop sha src d1 (ys @ rest) n = copy_loop sha src d2 rest (n + k2)"
    "replicated sha src T d1 d2 k2" using assms(2) unfolding copies_to_def by blast
  show "\<exists>dst' k. (\<forall>n. copy_loop sha src dst ((xs @ ys) @ rest) n = copy_loop sha src dst' rest (n + k)) \<and>
      replicated sha src (S \<union> T) dst dst' k"
    using 1(1) 2(1) replicated_trans [OF 1(2) 2(2)] by (metis add.assoc append_assoc)
qed

lemma copies_to_list:
  "\<forall>i\<in>set ids. copies_to sha src [i] (closure sha src i) \<Longrightarrow>
   copies_to sha src ids (\<Union>i\<in>set ids. closure sha src i)"
proof (induction ids)
  case (Cons i ids)
  then show ?case using copies_to_append [of sha src "[i]" "closure sha src i" ids] by simp
qed (simp add: copies_to_Nil)

text \<open>One round of the loop: the object at the top of the stack is written when it is missing.\<close>

lemma copy_loop_step:
  assumes "read_object sha src i = Some (Inr ob)"
  shows "\<exists>d1 k1. replicated sha src {i} dst d1 k1 \<and>
    (\<forall>rest n. copy_loop sha src dst (i # rest) n =
      copy_loop sha src d1 (case ob of TreeObj t \<Rightarrow> rev (map eid (entries t)) @ rest | BlobObj _ \<Rightarrow> rest) (n + k1))"
proof (cases "has_object dst i")
  case True
  then show ?thesis using replicated_present [of dst i sha src] assms
    by (intro exI [of _ dst] exI [of _ 0]) (auto simp: copy_loop.simps [of sha src dst "i # _"])
next
  case False
  from replicated_write [OF assms this] show ?thesis using False assms
    by (intro exI [of _ "snd (write_object sha dst ob)"] exI [of _ 1])
      (auto simp: copy_loop.simps [of sha src dst "i # _"])
qed

lemma copies_closed: "closed sha src i \<Longrightarrow> copies_to sha src [i] (closure sha src i)"
proof (induction rule: closed.induct)
  case (closed_blob i b)
  show ?case unfolding copies_to_def closure_blob [OF closed_blob]
    using copy_loop_step [OF closed_blob] by simp blast
next
  case (closed_tree i t)
  let ?ids = "rev (map eid (entries t))"
  have ids: "copies_to sha src ?ids (\<Union>e\<in>set (entries t). closure sha src (eid e))"
    using copies_to_list [of ?ids sha src] closed_tree.IH by auto
  show ?case unfolding copies_to_def closure_tree [OF closed_tree.hyps(1)]
  proof (intro allI)
    fix dst rest
    obtain d1 k1 where 1: "replicated sha src {i} dst d1 k1"
      "\<And>n. copy_loop sha src dst (i # rest) n = copy_loop sha src d1 (?ids @ rest) (n + k1)"
      using copy_loop_step [OF closed_tree.hyps(1), of dst] by auto
    obtain d2 k2 where 2: "\<And>n. copy_loop sha src d1 (?ids @ rest) n = copy_loop sha src d2 rest (n + k2)"
      "replicated sha src (\<Union>e\<in>set (entries t). closure sha src (eid e)) d1 d2 k2"
      using ids unfolding copies_to_def by blast
    show "\<exists>dst' k. (\<forall>n. copy_loop sha src dst ([i] @ rest) n = copy_loop sha src dst' rest (n + k)) \<and>
        replicated sha src (insert i (\<Union>e\<in>set (entries t). closure sha src (eid e))) dst dst' k"
      using 1(2) 2(1) replicated_trans [OF 1(1) 2(2)] by (metis add.assoc append_Cons append_Nil insert_is_Un)
  qed
qed

lemma copy_closure_closed:
  assumes "closed sha src root"
  shows "\<exists>dst' k. copy_closure sha src dst root = Some (Inr k, dst') \<and> replicated sha src (closure sha src root) dst dst' k"
proof -
  obtain dst' k where "\<And>n. copy_loop sha src dst ([root] @ []) n = copy_loop sha src dst' [] (n + k)"
    "replicated sha src (closure sha src root) dst dst' k"
    using copies_closed [OF assms] unfolding copies_to_def by blast
  then show ?thesis by (auto simp: copy_closure_def)
qed

text \<open>Replication: when everything below a root can be read at the source, \<open>copy_closure\<close> ends; it
overwrites nothing at the destination, adds nothing but objects the root reaches, reports how many
it added, and leaves every reached object present; a second copy adds nothing.\<close>
theorem copy_closure_complete:
  assumes "closed sha src root"
  shows "\<exists>dst'. copy_closure sha src dst root = Some (Inr (card (dom dst' - dom dst)), dst') \<and>
    dst \<subseteq>\<^sub>m dst' \<and> (\<forall>j\<in>closure sha src root. has_object dst' j) \<and>
    dom dst' - dom dst \<subseteq> object_path ` closure sha src root \<and>
    copy_closure sha src dst' root = Some (Inr 0, dst')"
proof -
  obtain d1 k1 where 1: "copy_closure sha src dst root = Some (Inr k1, d1)"
    "replicated sha src (closure sha src root) dst d1 k1" using copy_closure_closed [OF assms] by blast
  obtain d2 k2 where 2: "copy_closure sha src d1 root = Some (Inr k2, d2)"
    "replicated sha src (closure sha src root) d1 d2 k2" using copy_closure_closed [OF assms] by blast
  have "p \<in> dom d1" if in2: "p \<in> dom d2" for p
  proof (rule ccontr)
    assume new: "p \<notin> dom d1"
    then obtain j where "j \<in> closure sha src root" "p = object_path j"
      using replicatedD(3) [OF 2(2) in2] by blast
    then show False using replicatedD(2) [OF 1(2)] new by blast
  qed
  then have dom: "dom d2 \<subseteq> dom d1" by blast
  have "d1 \<subseteq>\<^sub>m d2" using 2(2) by (simp add: replicated_def)
  then have "d2 \<subseteq>\<^sub>m d1" using dom unfolding map_le_def by (metis subsetD)
  then have "d2 = d1" using \<open>d1 \<subseteq>\<^sub>m d2\<close> by (intro map_le_antisym)
  then have "copy_closure sha src d1 root = Some (Inr 0, d1)" using 2 by (simp add: replicated_def)
  moreover have "dom d1 - dom dst \<subseteq> object_path ` closure sha src root" "k1 = card (dom d1 - dom dst)"
    "dst \<subseteq>\<^sub>m d1" "\<forall>j\<in>closure sha src root. has_object d1 j"
    using replicatedD [OF 1(2)] 1(2) by (blast, simp_all add: replicated_def)
  ultimately show ?thesis using 1(1) by blast
qed

section \<open>A clone of a snapshot\<close>

lemma content_member: "q \<in> set es \<Longrightarrow> node_obj sha (snd q) \<in> sub_objs sha es"
  by (auto simp: sub_objs_Union)

lemma content_children:
  "TreeObj t \<in> sub_objs sha cs \<Longrightarrow> e \<in> set (entries t) \<Longrightarrow> \<exists>ob\<in>sub_objs sha cs. eid e = obj_id sha ob"
proof (induction sha cs rule: sub_objs.induct)
  case (2 sha n x es)
  have own: "\<exists>ob\<in>sub_objs sha sub. eid e = obj_id sha ob" if x: "x = DirN sub" "TreeObj t = node_obj sha x" for sub
  proof -
    obtain q where "q \<in> set sub" "e = entry_of sha q" using x "2.prems"(2) by auto
    then show ?thesis using content_member [of q sub sha] by auto
  qed
  show ?case using 2 own by (cases x) auto
qed simp

lemma content_closed:
  "plain cs \<Longrightarrow> \<forall>ob\<in>sub_objs sha cs. readable_obj sha fs ob \<Longrightarrow> p \<in> set cs \<Longrightarrow>
   closed sha fs (obj_id sha (node_obj sha (snd p)))"
proof (induction cs arbitrary: p rule: plain.induct)
  case (2 n x es)
  have head: "closed sha fs (obj_id sha (node_obj sha x))"
  proof (cases x)
    case (FileN b)
    then show ?thesis using "2.prems"(2) by (intro closed_blob) auto
  next
    case (DirN sub)
    have "closed sha fs (obj_id sha (node_obj sha (snd q)))" if "q \<in> set sub" for q
      using "2.IH"(1) [OF DirN _ _ that] "2.prems"(1,2) by (simp add: DirN)
    then show ?thesis using "2.prems"(2) by (intro closed_tree) (auto simp: DirN)
  qed (use "2.prems"(1) in auto)
  then show ?case using "2.IH"(2) [of p] "2.prems" by (cases "p = (n, x)") simp_all
qed simp

lemma content_reached:
  "plain cs \<Longrightarrow> \<forall>ob\<in>sub_objs sha cs. readable_obj sha fs ob \<Longrightarrow>
   \<forall>p\<in>set cs. reach sha fs root (obj_id sha (node_obj sha (snd p))) \<Longrightarrow> ob \<in> sub_objs sha cs \<Longrightarrow>
   reach sha fs root (obj_id sha ob)"
proof (induction cs arbitrary: ob rule: plain.induct)
  case (2 n x es)
  show ?case
  proof (cases x)
    case (DirN sub)
    have "reach sha fs root (obj_id sha (node_obj sha (snd p)))" if "p \<in> set sub" for p
    proof -
      have "readable_obj sha fs (node_obj sha x)" "reach sha fs root (obj_id sha (node_obj sha x))"
        using "2.prems" by auto
      then show ?thesis using reach_entry [of sha fs root _ "\<lparr>entries = map (entry_of sha) sub\<rparr>" "entry_of sha p"] that
        by (simp add: DirN)
    qed
    then show ?thesis using "2.IH"(1) [OF DirN] "2.IH"(2) "2.prems" by (auto simp: DirN)
  qed (use 2 in auto)
qed simp

lemma content_closure:
  assumes "readable es" "\<forall>ob\<in>set (all_objs sha es). readable_obj sha fs ob"
  shows "closed sha fs (obj_id sha (root_obj sha es))"
    and "ob \<in> set (all_objs sha es) \<Longrightarrow> reach sha fs (obj_id sha (root_obj sha es)) (obj_id sha ob)"
proof -
  have plain: "plain (canon es)" using plain_canon assms(1) by blast
  have sub: "\<forall>ob\<in>sub_objs sha (canon es). readable_obj sha fs ob"
    and root: "read_object sha fs (obj_id sha (root_obj sha es)) = Some (Inr (TreeObj \<lparr>entries = map (entry_of sha) (canon es)\<rparr>))"
    using assms(2) by (simp_all add: all_objs_set del: node_obj_dir, simp)
  have kids: "reach sha fs (obj_id sha (root_obj sha es)) (obj_id sha (node_obj sha (snd p)))" if "p \<in> set (canon es)" for p
    using reach_entry [OF reach_root root, of "entry_of sha p"] that by simp
  show "closed sha fs (obj_id sha (root_obj sha es))"
    using content_closed [OF plain sub] by (intro closed_tree [OF root]) auto
  show "reach sha fs (obj_id sha (root_obj sha es)) (obj_id sha ob)" if "ob \<in> set (all_objs sha es)"
    using that content_reached [OF plain sub, of "obj_id sha (root_obj sha es)" ob] kids reach_root
    by (auto simp: all_objs_set simp del: node_obj_dir)
qed

text \<open>C28: A clone of a snapshot is the snapshot: snapshotting a working copy into one store, copying
the closure of its id into another store and checking that id out there gives the recorded content.\<close>
theorem clone_restores_snapshot:
  assumes "readable es" "full_digest sha" "store_ok sha fs" "store_ok sha dst" "countable_objs sha es"
    and "inj_on (obj_id sha) (set (all_objs sha es) \<union> held sha fs \<union> held sha dst)" "removable d"
  shows "\<exists>i fs' k dst'. snapshot sha p es fs = (Inr i, fs') \<and> copy_closure sha fs' dst i = Some (Inr k, dst') \<and>
    materialize sha dst' i q d = Some (Inr (), control_part d @ canon es)"
proof -
  let ?i = "obj_id sha (root_obj sha es)" and ?fs = "store_all sha (all_objs sha es) fs"
  have s: "snapshot sha p es fs = (Inr ?i, ?fs)" by (rule snapshot_all_objs [OF assms(1)])
  have ok: "list_all obj_ok (all_objs sha es)" using all_objs_ok assms(1,2,5) by blast
  have "no_clash sha fs [es]" using assms(6) unfolding no_clash_def by (rule inj_on_subset) auto
  then have r: "\<forall>ob\<in>set (all_objs sha es). readable_obj sha ?fs ob"
    using snapshot_readable [OF assms(2,3,1,5), of p] s by simp
  obtain dst' k where c: "copy_closure sha ?fs dst ?i = Some (Inr k, dst')"
    "replicated sha ?fs (closure sha ?fs ?i) dst dst' k"
    using copy_closure_closed [OF content_closure(1) [OF assms(1) r]] by blast
  have "readable_obj sha dst' ob" if ob: "ob \<in> set (all_objs sha es)" for ob
  proof (rule read_stored)
    show "obj_ok ob" using ok ob by (simp add: list_all_iff)
    let ?p = "object_path (obj_id sha ob)"
    have p: "?p \<in> dom dst'" using replicatedD(2) [OF c(2)] content_closure(2) [OF assms(1) r ob] by blast
    show "dst' ?p = Some (serialize ob)"
    proof (cases "?p \<in> dom dst")
      case True
      then obtain z where z: "obj_ok z" "?p = object_path (obj_id sha z)" "dst ?p = Some (serialize z)"
        using assms(4) unfolding store_ok_def by blast
      then have "z = ob" using assms(6) ob unfolding object_path_inject
        by (auto simp: held_def elim!: inj_onD)
      then show ?thesis using z True replicatedD(1) [OF c(2)] by (auto simp: map_le_def)
    next
      case False
      then show ?thesis using replicatedD(3) [OF c(2) p] r ob by (auto simp: object_path_inject)
    qed
  qed simp
  then show ?thesis using s c(1) materialize_ok [OF assms(1,7)] by blast
qed

lemma clone_restores_snapshot_witness:
  "\<exists>i fs' k dst'. snapshot ex_sha ''w'' ex_dir1 Map.empty = (Inr i, fs') \<and>
     copy_closure ex_sha fs' Map.empty i = Some (Inr k, dst') \<and>
     materialize ex_sha dst' i ''v'' [] = Some (Inr (), canon ex_dir2)"
proof -
  have "store_ok ex_sha Map.empty" by (simp add: store_ok_def)
  moreover have "inj_on (obj_id ex_sha) (set (all_objs ex_sha ex_dir1) \<union> held ex_sha Map.empty \<union> held ex_sha Map.empty)"
    using ex_no_clash(2) by (simp add: no_clash_def held_def)
  moreover have "countable_objs ex_sha ex_dir1" "removable []" "control_part [] = []" by code_simp+
  ultimately show ?thesis
    using clone_restores_snapshot [OF ex_dirs(1) ex_sha_full, where fs = Map.empty and dst = Map.empty
        and p = "''w''" and q = "''v''" and d = "[]"] ex_dirs(3) by auto
qed

lemma copy_closure_complete_witness:
  "\<exists>dst'. copy_closure ex_sha [object_path (obj_id ex_sha (BlobObj ''x'')) \<mapsto> serialize (BlobObj ''x'')] Map.empty
     (obj_id ex_sha (BlobObj ''x'')) = Some (Inr (card (dom dst')), dst')"
proof -
  have "obj_ok (BlobObj ''x'')" by code_simp
  then have "read_object ex_sha [object_path (obj_id ex_sha (BlobObj ''x'')) \<mapsto> serialize (BlobObj ''x'')]
      (obj_id ex_sha (BlobObj ''x'')) = Some (Inr (BlobObj ''x''))"
    by (intro read_stored) simp_all
  from copy_closure_complete [OF closed_blob [OF this], of Map.empty] show ?thesis by auto
qed

end
