(* ===== verification/Autorebase.thy ===== *)
theory Autorebase
  imports Rebase Workspace
begin

text \<open>
  The auto-rebase engine, \<open>autorebase.rs\<close>: it loads three documents from the object store, replays a
  change with \<open>rebase\<close>, stores the result and records the move twice, as an operation of the log
  (transaction time) and as a supersession edge of the change graph (valid time). An operation
  returns the engine on errors too, since the code may have stored, logged or registered something
  before the error; \<open>None\<close> is the panic of an id with a multi-byte character. The texts of the
  content errors are abbreviated.
\<close>

section \<open>State\<close>

record rebase_engine =
  eng_files :: object_files
  eng_log :: op_log
  eng_graph :: change_graph

record rebase_outcome =
  new_tip :: commit_id
  out_conflicts :: "conflict list"
  clean :: bool

record stack_item =
  item_change :: change_id
  item_base :: commit_id
  item_tip :: commit_id



definition new_engine :: "object_files \<Rightarrow> rebase_engine" where
  "new_engine fs = \<lparr>eng_files = fs, eng_log = new_log, eng_graph = new_graph\<rparr>"

definition with_log :: "object_files \<Rightarrow> op_log \<Rightarrow> rebase_engine" where
  "with_log fs log = \<lparr>eng_files = fs, eng_log = log, eng_graph = new_graph\<rparr>"

definition into_parts :: "rebase_engine \<Rightarrow> op_log \<times> change_graph" where
  "into_parts en = (eng_log en, eng_graph en)"

section \<open>Operations\<close>

definition load_doc :: "(string \<Rightarrow> string) \<Rightarrow> object_files \<Rightarrow> commit_id \<Rightarrow> (work_error + doc) option" where
  "load_doc sha fs commit =
     (case id_from_str commit of
        None \<Rightarrow> None
      | Some (Inl _) \<Rightarrow> Some (Inl (Content (''malformed commit id '' @ commit)))
      | Some (Inr i) \<Rightarrow>
        (case read_object sha fs i of
           None \<Rightarrow> None
         | Some (Inl e) \<Rightarrow> Some (Inl (Store e))
         | Some (Inr (BlobObj bytes)) \<Rightarrow>
             if utf8_valid bytes then Some (Inr (from_str bytes))
             else Some (Inl (Content (''commit '' @ commit @ '' is not UTF-8'')))
         | Some (Inr (TreeObj _)) \<Rightarrow>
             Some (Inl (Content (''commit '' @ commit @ '' is a tree, not text content'')))))"

definition store_doc :: "(string \<Rightarrow> string) \<Rightarrow> object_files \<Rightarrow> doc \<Rightarrow> commit_id \<times> object_files" where
  "store_doc sha fs d = (case write_blob sha fs (doc_to_string d) of (i, fs') \<Rightarrow> (id_to_string i, fs'))"

definition ensure_revision ::
  "change_graph \<Rightarrow> change_id \<Rightarrow> commit_id \<Rightarrow> identity_error + change_graph" where
  "ensure_revision g change commit =
     (case change_of g change of
        None \<Rightarrow> Inr (add_change g \<lparr>change_id = change, revisions = [commit], phase_of = Draft\<rparr>)
      | Some c \<Rightarrow> if commit \<notin> set (revisions c) then add_revision g change commit else Inr g)"

text \<open>The valid-time half of \<open>auto_rebase\<close>: both commits become revisions, then the edge.\<close>

definition record_move ::
  "change_graph \<Rightarrow> change_id \<Rightarrow> commit_id \<Rightarrow> commit_id \<Rightarrow> (identity_error + unit) \<times> change_graph" where
  "record_move g change old new =
     (case ensure_revision g change old of
        Inl e \<Rightarrow> (Inl e, g)
      | Inr g1 \<Rightarrow>
          if new = old then (Inr (), g1)
          else (case ensure_revision g1 change new of
              Inl e \<Rightarrow> (Inl e, g1)
            | Inr g2 \<Rightarrow> (case supersede g2 old new of Inl e \<Rightarrow> (Inl e, g2) | Inr g3 \<Rightarrow> (Inr (), g3))))"

definition replay_move ::
  "(string \<Rightarrow> string) \<Rightarrow> rebase_engine \<Rightarrow> change_id \<Rightarrow> commit_id \<Rightarrow> commit_id \<Rightarrow> rebased \<Rightarrow>
   (work_error + rebase_outcome) \<times> rebase_engine" where
  "replay_move sha en change old onto r =
     (case store_doc sha (eng_files en) (result r) of (new, fs') \<Rightarrow>
       (let log' = append_op (eng_log en) (Rebase change old new onto (length (rconflicts r))) None in
        case record_move (eng_graph en) change old new of (res, g') \<Rightarrow>
          ((case res of
              Inl e \<Rightarrow> Inl (Identity e)
            | Inr _ \<Rightarrow> Inr \<lparr>new_tip = new, out_conflicts = rconflicts r, clean = (rconflicts r = [])\<rparr>),
           \<lparr>eng_files = fs', eng_log = log', eng_graph = g'\<rparr>)))"

definition auto_rebase ::
  "(string \<Rightarrow> string) \<Rightarrow> rebase_engine \<Rightarrow> change_id \<Rightarrow> commit_id \<Rightarrow> commit_id \<Rightarrow> commit_id \<Rightarrow>
   ((work_error + rebase_outcome) \<times> rebase_engine) option" where
  "auto_rebase sha en change base old onto =
     (case load_doc sha (eng_files en) base of
        None \<Rightarrow> None
      | Some (Inl e) \<Rightarrow> Some (Inl e, en)
      | Some (Inr base_doc) \<Rightarrow>
        (case load_doc sha (eng_files en) old of
           None \<Rightarrow> None
         | Some (Inl e) \<Rightarrow> Some (Inl e, en)
         | Some (Inr mine) \<Rightarrow>
           (case load_doc sha (eng_files en) onto of
              None \<Rightarrow> None
            | Some (Inl e) \<Rightarrow> Some (Inl e, en)
            | Some (Inr onto_doc) \<Rightarrow>
                Some (replay_move sha en change old onto (rebase base_doc mine onto_doc)))))"

fun auto_rebase_loop ::
  "(string \<Rightarrow> string) \<Rightarrow> rebase_engine \<Rightarrow> stack_item list \<Rightarrow> commit_id \<Rightarrow> rebase_outcome list \<Rightarrow>
   ((work_error + rebase_outcome list) \<times> rebase_engine) option" where
  "auto_rebase_loop sha en [] acc out = Some (Inr out, en)"
| "auto_rebase_loop sha en (it # its) acc out =
     (case auto_rebase sha en (item_change it) (item_base it) (item_tip it) acc of
        None \<Rightarrow> None
      | Some (Inl e, en') \<Rightarrow> Some (Inl e, en')
      | Some (Inr o1, en') \<Rightarrow> auto_rebase_loop sha en' its (new_tip o1) (out @ [o1]))"

definition auto_rebase_stack ::
  "(string \<Rightarrow> string) \<Rightarrow> rebase_engine \<Rightarrow> stack_item list \<Rightarrow> commit_id \<Rightarrow>
   ((work_error + rebase_outcome list) \<times> rebase_engine) option" where
  "auto_rebase_stack sha en stack onto = auto_rebase_loop sha en stack onto []"




section \<open>Loading what was stored\<close>

lemma load_stored:
  assumes "full_digest sha" "readable_obj sha fs (BlobObj s)" "utf8_valid s"
  shows "load_doc sha fs (id_to_string (obj_id sha (BlobObj s))) = Some (Inr (from_str s))"
  using assms by (simp add: load_doc_def id_from_to_string obj_id_ok)

section \<open>The move in the change graph\<close>









section \<open>Properties\<close>

definition rebased_tip :: "(string \<Rightarrow> string) \<Rightarrow> rebased \<Rightarrow> commit_id" where
  "rebased_tip sha r = id_to_string (obj_id sha (BlobObj (doc_to_string (result r))))"

abbreviation text_obj :: "rebased \<Rightarrow> object" where
  "text_obj r \<equiv> BlobObj (doc_to_string (result r))"

lemma load_stable:
  "load_doc sha fs c = Some (Inr d) \<Longrightarrow> load_doc sha (snd (write_object sha fs ob)) c = Some (Inr d)"
  by (auto simp: load_doc_def split: option.splits sum.splits dest: write_stable [of _ _ _ _ ob])

lemma write_readable:
  assumes "store_ok sha fs" "obj_ok x" "inj_on (obj_id sha) (insert x (held sha fs))"
  shows "readable_obj sha (snd (write_object sha fs x)) x"
  using stored_readable [of sha fs "[x]" x] assms by simp

lemma store_doc_eq:
  "store_doc sha fs d = (id_to_string (obj_id sha (BlobObj (doc_to_string d))), snd (write_object sha fs (BlobObj (doc_to_string d))))"
  by (simp add: store_doc_def write_blob_def)


section \<open>Stacks\<close>

text \<open>The reference of the stack loop on documents: a rebased document is written and read back as
text before the next change lands on it.\<close>

fun replay :: "(doc \<times> doc) list \<Rightarrow> doc \<Rightarrow> rebased list" where
  "replay [] acc = []"
| "replay ((b, m) # ds) acc = (let r = rebase b m acc in r # replay ds (from_str (doc_to_string (result r))))"

fun move_all ::
  "change_graph \<Rightarrow> (change_id \<times> commit_id \<times> commit_id) list \<Rightarrow> (identity_error + unit) \<times> change_graph" where
  "move_all g [] = (Inr (), g)"
| "move_all g ((c, old, new) # ms) =
     (case record_move g c old new of (Inl e, g') \<Rightarrow> (Inl e, g') | (Inr _, g') \<Rightarrow> move_all g' ms)"

definition outcome_of :: "(string \<Rightarrow> string) \<Rightarrow> rebased \<Rightarrow> rebase_outcome" where
  "outcome_of sha r = \<lparr>new_tip = rebased_tip sha r, out_conflicts = rconflicts r, clean = (rconflicts r = [])\<rparr>"

definition item_move :: "(string \<Rightarrow> string) \<Rightarrow> stack_item \<Rightarrow> rebased \<Rightarrow> change_id \<times> commit_id \<times> commit_id" where
  "item_move sha it r = (item_change it, item_tip it, rebased_tip sha r)"

definition item_loads :: "(string \<Rightarrow> string) \<Rightarrow> object_files \<Rightarrow> stack_item \<Rightarrow> doc \<times> doc \<Rightarrow> bool" where
  "item_loads sha fs it d \<longleftrightarrow>
     load_doc sha fs (item_base it) = Some (Inr (fst d)) \<and> load_doc sha fs (item_tip it) = Some (Inr (snd d))"

lemma auto_rebase_loop_exact:
  assumes "full_digest sha" "store_ok sha (eng_files en)" "list_all2 (item_loads sha (eng_files en)) its ds"
    and "load_doc sha (eng_files en) acc = Some (Inr d)"
    and "inj_on (obj_id sha) (held sha (eng_files en) \<union> text_obj ` set (replay ds d))"
    and "list_all (\<lambda>r. obj_ok (text_obj r) \<and> utf8_valid (doc_to_string (result r))) (replay ds d)"
  shows "\<exists>en'. auto_rebase_loop sha en its acc out =
      Some (case fst (move_all (eng_graph en) (map2 (item_move sha) its (replay ds d))) of
          Inl e \<Rightarrow> Inl (Identity e)
        | Inr _ \<Rightarrow> Inr (out @ map (outcome_of sha) (replay ds d)), en') \<and>
    eng_graph en' = snd (move_all (eng_graph en) (map2 (item_move sha) its (replay ds d)))"
  using assms
proof (induction its arbitrary: en ds d acc out)
  case Nil
  then show ?case by simp
next
  case (Cons it its)
  obtain b m ds' where ds: "ds = (b, m) # ds'" using Cons.prems(3) by (cases ds) auto
  define r where "r = rebase b m d"
  let ?d = "from_str (doc_to_string (result r))" and ?fs = "eng_files en"
  let ?fs' = "snd (write_object sha ?fs (text_obj r))" and ?g = "eng_graph en"
  have replay: "replay ds d = r # replay ds' ?d" by (simp add: ds r_def Let_def)
  have "item_loads sha ?fs it (b, m)" "list_all2 (item_loads sha ?fs) its ds'"
    using Cons.prems(3) by (simp_all add: ds)
  then have loads: "load_doc sha ?fs (item_base it) = Some (Inr b)" "load_doc sha ?fs (item_tip it) = Some (Inr m)"
    "list_all2 (item_loads sha ?fs) its ds'" by (simp_all add: item_loads_def)
  have r_ok: "obj_ok (text_obj r)" "utf8_valid (doc_to_string (result r))" using Cons.prems(6) by (simp_all add: replay)
  obtain res g' where mv: "record_move ?g (item_change it) (item_tip it) (rebased_tip sha r) = (res, g')" by force
  define en1 where "en1 = \<lparr>eng_files = ?fs', eng_log = append_op (eng_log en)
     (Rebase (item_change it) (item_tip it) (rebased_tip sha r) acc (length (rconflicts r))) None, eng_graph = g'\<rparr>"
  have step: "auto_rebase sha en (item_change it) (item_base it) (item_tip it) acc =
      Some ((case res of Inl e \<Rightarrow> Inl (Identity e) | Inr _ \<Rightarrow> Inr (outcome_of sha r)), en1)"
    using loads Cons.prems(4) mv
    by (cases res) (simp_all add: auto_rebase_def replay_move_def store_doc_eq rebased_tip_def [symmetric]
        r_def [symmetric] en1_def outcome_of_def Let_def)
  show ?case
  proof (cases res)
    case (Inl e)
    then show ?thesis using step mv by (simp add: replay item_move_def en1_def)
  next
    case (Inr u)
    have inj: "inj_on (obj_id sha) (insert (text_obj r) (held sha ?fs))"
      using Cons.prems(5) by (rule inj_on_subset) (auto simp: replay)
    have "list_all2 (item_loads sha ?fs') its ds'"
      using loads(3) by (rule list_all2_mono) (auto simp: item_loads_def load_stable)
    moreover have "load_doc sha ?fs' (rebased_tip sha r) = Some (Inr ?d)"
      unfolding rebased_tip_def
      using load_stored [OF Cons.prems(1) write_readable [OF Cons.prems(2) r_ok(1) inj] r_ok(2)] .
    moreover have "inj_on (obj_id sha) (held sha ?fs' \<union> text_obj ` set (replay ds' ?d))"
      by (rule inj_on_subset [OF Cons.prems(5)]) (use held_write [OF r_ok(1), of sha ?fs] in \<open>auto simp: replay\<close>)
    moreover have "list_all (\<lambda>r. obj_ok (text_obj r) \<and> utf8_valid (doc_to_string (result r))) (replay ds' ?d)"
      using Cons.prems(6) by (simp add: replay)
    ultimately obtain en' where "auto_rebase_loop sha en1 its (rebased_tip sha r) (out @ [outcome_of sha r]) =
        Some (case fst (move_all g' (map2 (item_move sha) its (replay ds' ?d))) of
            Inl e \<Rightarrow> Inl (Identity e)
          | Inr _ \<Rightarrow> Inr ((out @ [outcome_of sha r]) @ map (outcome_of sha) (replay ds' ?d)), en')"
      "eng_graph en' = snd (move_all g' (map2 (item_move sha) its (replay ds' ?d)))"
      using Cons.IH [of en1 ds' "rebased_tip sha r" ?d "out @ [outcome_of sha r]"] Cons.prems(1)
        store_ok_write [OF Cons.prems(2) r_ok(1)] by (auto simp: en1_def)
    moreover have "move_all ?g (map2 (item_move sha) (it # its) (replay ds d)) =
        move_all g' (map2 (item_move sha) its (replay ds' ?d))"
      using mv Inr by (simp add: replay item_move_def [of sha it])
    moreover have "auto_rebase_loop sha en (it # its) acc out =
        auto_rebase_loop sha en1 its (rebased_tip sha r) (out @ [outcome_of sha r])"
      using step Inr by (simp add: outcome_of_def)
    ultimately show ?thesis
      by (cases "fst (move_all g' (map2 (item_move sha) its (replay ds' ?d)))") (simp_all add: replay)
  qed
qed

lemma replay_rebase_stack:
  "\<forall>r\<in>set (rebase_stack base vs onto). from_str (doc_to_string (result r)) = result r \<Longrightarrow>
   replay (zip (base # butlast vs) vs) onto = rebase_stack base vs onto"
proof (induction vs arbitrary: base onto)
  case (Cons v vs)
  then show ?case
    by (cases vs) (auto simp: rebase_stack_def Let_def)
qed (simp add: rebase_stack_def)

text \<open>C30: A conflict never stops a stack: when every document of the stack loads, \<open>auto_rebase_stack\<close>
produces one outcome per item, the replay of the items in order with each result landing on the one
before, conflicted or not; the only error it can report is one of the change graph, the first that
the moves of the items meet there in order.\<close>
theorem auto_rebase_stack_exact:
  assumes "full_digest sha" "store_ok sha (eng_files en)" "list_all2 (item_loads sha (eng_files en)) stack ds"
    and "load_doc sha (eng_files en) onto = Some (Inr d)"
    and "inj_on (obj_id sha) (held sha (eng_files en) \<union> text_obj ` set (replay ds d))"
    and "list_all (\<lambda>r. obj_ok (text_obj r) \<and> utf8_valid (doc_to_string (result r))) (replay ds d)"
  shows "\<exists>en'. auto_rebase_stack sha en stack onto =
      Some (case fst (move_all (eng_graph en) (map2 (item_move sha) stack (replay ds d))) of
          Inl e \<Rightarrow> Inl (Identity e)
        | Inr _ \<Rightarrow> Inr (map (outcome_of sha) (replay ds d)), en') \<and>
    length (replay ds d) = length stack \<and>
    eng_graph en' = snd (move_all (eng_graph en) (map2 (item_move sha) stack (replay ds d)))"
proof -
  have "length (replay ds d) = length ds" for d by (induction ds d rule: replay.induct) (simp_all add: Let_def)
  then show ?thesis
    using auto_rebase_loop_exact [OF assms, of "[]", unfolded append_Nil] list_all2_lengthD [OF assms(3)]
    by (simp add: auto_rebase_stack_def)
qed

section \<open>What the engine does not do\<close>

definition ex_commit :: "string \<Rightarrow> commit_id" where
  "ex_commit s = id_to_string (obj_id ex_sha (BlobObj s))"

definition ex_files :: "string list \<Rightarrow> object_files" where
  "ex_files ss = store_all ex_sha (map BlobObj ss) Map.empty"

abbreviation ex_texts :: "string list" where
  "ex_texts \<equiv> [''one'', ''two'']"

lemma ex_texts_ok: "list_all utf8_valid ex_texts" "list_all obj_ok (map BlobObj ex_texts)"
  "distinct (map (obj_id ex_sha) (map BlobObj ex_texts))"
  by (code_simp, code_simp, code_simp)

lemma rebase_no_edit:
  "list_all (\<lambda>l. l \<noteq> CONFLICT_START \<and> l \<noteq> CONFLICT_END) (lines onto) \<Longrightarrow>
   rebase b b onto = \<lparr>result = onto, rconflicts = [], rclean = True\<rparr>"
  using relabel_id_iff [of onto] by (simp add: rebase_def merge3_left_base no_merge_markers_def)

lemma ex_no_markers:
  "s \<in> set ex_texts \<Longrightarrow> list_all (\<lambda>l. l \<noteq> CONFLICT_START \<and> l \<noteq> CONFLICT_END) (lines (from_str s))"
proof -
  have "list_all (\<lambda>s. list_all (\<lambda>l. l \<noteq> CONFLICT_START \<and> l \<noteq> CONFLICT_END) (lines (from_str s))) ex_texts"
    by code_simp
  then show "s \<in> set ex_texts \<Longrightarrow> ?thesis" unfolding list_all_iff by blast
qed

lemma ex_load:
  assumes "s \<in> set ex_texts" "s \<in> set ss" "set ss \<subseteq> set ex_texts"
  shows "load_doc ex_sha (ex_files ss) (ex_commit s) = Some (Inr (from_str s))"
  unfolding ex_commit_def
proof (rule load_stored [OF ex_sha_full])
  have "inj_on (obj_id ex_sha) (set (map BlobObj ex_texts))" using ex_texts_ok(3) unfolding distinct_map by blast
  then have "inj_on (obj_id ex_sha) (set (map BlobObj ss) \<union> held ex_sha Map.empty)"
    by (rule inj_on_subset) (use assms(3) in \<open>auto simp: held_def\<close>)
  moreover have "list_all obj_ok (map BlobObj ss)" using ex_texts_ok(2) assms(3) unfolding list_all_iff by auto
  ultimately show "readable_obj ex_sha (ex_files ss) (BlobObj s)"
    unfolding ex_files_def using assms(2) by (intro stored_readable) (simp_all add: store_ok_def)
  show "utf8_valid s" using ex_texts_ok(1) assms(1) unfolding list_all_iff by blast
qed

lemma ex_commit_inject: "s \<in> set ex_texts \<Longrightarrow> s' \<in> set ex_texts \<Longrightarrow> ex_commit s = ex_commit s' \<longleftrightarrow> s = s'"
proof -
  assume s: "s \<in> set ex_texts" "s' \<in> set ex_texts"
  have "inj_on (obj_id ex_sha) (set (map BlobObj ex_texts))" using ex_texts_ok(3) unfolding distinct_map by blast
  then have "obj_id ex_sha (BlobObj s) = obj_id ex_sha (BlobObj s') \<longleftrightarrow> s = s'"
    using s by (auto simp: inj_on_def)
  then show ?thesis using id_to_string_inject obj_id_ok [OF ex_sha_full] unfolding ex_commit_def by metis
qed

lemma auto_rebase_eq:
  "load_doc sha (eng_files en) base = Some (Inr b) \<Longrightarrow> load_doc sha (eng_files en) old = Some (Inr m) \<Longrightarrow>
   load_doc sha (eng_files en) onto = Some (Inr d) \<Longrightarrow>
   auto_rebase sha en c base old onto = Some (replay_move sha en c old onto (rebase b m d))"
  by (simp add: auto_rebase_def)

lemmas move_simps =
  record_move_def ensure_revision_def change_of_def new_graph_def add_change_def add_revision_def
  supersede_def reaches_def reaches_loop.simps tip_def tip_loop.simps

lemma record_move_first:
  "a \<noteq> b \<Longrightarrow> record_move new_graph c a b =
     (Inr (), \<lparr>changes = [(c, \<lparr>change_id = c, revisions = [a, b], phase_of = Draft\<rparr>)],
        commit_owner = [(a, c), (b, c)], superseded_by = [(a, b)]\<rparr>)"
  by (auto simp: move_simps)

lemma record_move_back:
  "a \<noteq> b \<Longrightarrow> record_move (snd (record_move new_graph c a b)) c b a =
     (Inl (SupersessionCycle b a), snd (record_move new_graph c a b)) \<and>
   tip (snd (record_move new_graph c a b)) c = Some b"
  by (auto simp: record_move_first move_simps)

text \<open>Two changes whose tips have the same content share the commit, and the second move redirects
the chain of the first: the change graph then gives the tip of the other change.\<close>
theorem shared_content_redirects_tip:
  assumes "distinct [a, b, d]"
  shows "tip (snd (record_move (snd (record_move new_graph ''c1'' a b)) ''c2'' a d)) ''c1'' = Some d"
  using assms by (auto simp: record_move_first move_simps)

text \<open>A change that is moved to a new base and back again is stopped by the change graph, after the
log has recorded the move: the two time axes then disagree on its tip.\<close>
theorem rebase_back_diverges:
  "\<exists>en1 en2 out. auto_rebase ex_sha (new_engine (ex_files ex_texts)) ''c'' (ex_commit ''one'') (ex_commit ''one'') (ex_commit ''two'')
     = Some (Inr out, en1) \<and>
   auto_rebase ex_sha en1 ''c'' (ex_commit ''two'') (new_tip out) (ex_commit ''one'')
     = Some (Inl (Identity (SupersessionCycle (ex_commit ''two'') (ex_commit ''one''))), en2) \<and>
   tip (eng_graph en2) ''c'' = Some (ex_commit ''two'') \<and>
   refs_now (eng_log en2) = Some [''c'' \<mapsto> ex_commit ''one'']"
proof -
  let ?a = "ex_commit ''one''" and ?b = "ex_commit ''two''" and ?fs = "ex_files ex_texts"
  let ?one = "from_str ''one''" and ?two = "from_str ''two''"
  have ne: "?a \<noteq> ?b" using ex_commit_inject [of "''one''" "''two''"] by simp
  have load: "load_doc ex_sha ?fs ?a = Some (Inr ?one)" "load_doc ex_sha ?fs ?b = Some (Inr ?two)"
    by (rule ex_load; simp)+
  have r: "rebase ?one ?one ?two = \<lparr>result = ?two, rconflicts = [], rclean = True\<rparr>"
    "rebase ?two ?two ?one = \<lparr>result = ?one, rconflicts = [], rclean = True\<rparr>"
    using rebase_no_edit ex_no_markers by simp_all
  define en1 where "en1 = \<lparr>eng_files = snd (write_object ex_sha ?fs (BlobObj ''two'')),
    eng_log = append_op new_log (Rebase ''c'' ?a ?b ?b 0) None, eng_graph = snd (record_move new_graph ''c'' ?a ?b)\<rparr>"
  define en2 where "en2 = \<lparr>eng_files = snd (write_object ex_sha (eng_files en1) (BlobObj ''one'')),
    eng_log = append_op (eng_log en1) (Rebase ''c'' ?b ?a ?a 0) None, eng_graph = eng_graph en1\<rparr>"
  have 1: "auto_rebase ex_sha (new_engine ?fs) ''c'' ?a ?a ?b = Some (Inr \<lparr>new_tip = ?b, out_conflicts = [], clean = True\<rparr>, en1)"
    using auto_rebase_eq [of ex_sha "new_engine ?fs" ?a ?one ?a ?one ?b ?two "''c''"] load r(1) ne
    by (simp add: new_engine_def replay_move_def store_doc_eq ex_commit_def [symmetric] record_move_first en1_def)
  have "load_doc ex_sha (eng_files en1) ?a = Some (Inr ?one)" "load_doc ex_sha (eng_files en1) ?b = Some (Inr ?two)"
    using load load_stable by (simp_all add: en1_def)
  then have 2: "auto_rebase ex_sha en1 ''c'' ?b ?b ?a = Some (Inl (Identity (SupersessionCycle ?b ?a)), en2)"
    using auto_rebase_eq [of ex_sha en1 ?b ?two ?b ?two ?a ?one "''c''"] r(2) record_move_back [OF ne, of "''c''"]
    by (simp add: replay_move_def store_doc_eq ex_commit_def [symmetric] en2_def en1_def)
  have "log_built (eng_log en1)"
    unfolding en1_def append_op_def rebase_engine.simps by (rule log_append [OF log_empty]) (simp add: undo_target_def)
  from refs_now_append [OF this, of "Rebase ''c'' ?b ?a ?a 0" None]
    refs_now_append [OF log_empty, of "Rebase ''c'' ?a ?b ?b 0" None]
  have "refs_now (eng_log en2) = Some [''c'' \<mapsto> ?a]"
    by (simp add: en2_def en1_def undo_target_def apply_refs_def append_op_def append_at_def new_log_def)
      (simp add: refs_now_def fold_refs_def)
  moreover have "tip (eng_graph en2) ''c'' = Some ?b"
    using record_move_back [OF ne, of "''c''"] by (simp add: en2_def en1_def)
  moreover have "new_tip \<lparr>new_tip = ?b, out_conflicts = [], clean = True\<rparr> = ?b" by simp
  ultimately show ?thesis using 1 2 by metis
qed

section \<open>Witnesses\<close>


lemma ex_texts_stored: "store_ok ex_sha (ex_files ex_texts)"
  "A \<subseteq> set (map BlobObj ex_texts) \<Longrightarrow> inj_on (obj_id ex_sha) (A \<union> held ex_sha (ex_files ex_texts))"
proof -
  have ok: "list_all obj_ok (map BlobObj ex_texts)" by (rule ex_texts_ok)
  show "store_ok ex_sha (ex_files ex_texts)"
    unfolding ex_files_def by (rule store_all_ok [OF _ ok]) (simp add: store_ok_def)
  have "held ex_sha (ex_files ex_texts) \<subseteq> set (map BlobObj ex_texts)"
    unfolding ex_files_def using held_store_all [OF ok, of ex_sha Map.empty]
    by (simp add: held_def [of _ Map.empty] del: store_all_simps)
  moreover have "inj_on (obj_id ex_sha) (set (map BlobObj ex_texts))" using ex_texts_ok(3) unfolding distinct_map by blast
  ultimately show "A \<subseteq> set (map BlobObj ex_texts) \<Longrightarrow> inj_on (obj_id ex_sha) (A \<union> held ex_sha (ex_files ex_texts))"
    by (blast intro: inj_on_subset)
qed


lemma auto_rebase_stack_exact_witness:
  "\<exists>en'. auto_rebase_stack ex_sha (new_engine (ex_files ex_texts))
       [\<lparr>item_change = ''c'', item_base = ex_commit ''one'', item_tip = ex_commit ''one''\<rparr>] (ex_commit ''two'')
     = Some (Inr [\<lparr>new_tip = ex_commit ''two'', out_conflicts = [], clean = True\<rparr>], en')"
proof -
  let ?en = "new_engine (ex_files ex_texts)" and ?one = "from_str ''one''" and ?two = "from_str ''two''"
  let ?it = "\<lparr>item_change = ''c'', item_base = ex_commit ''one'', item_tip = ex_commit ''one''\<rparr>"
  have files: "eng_files ?en = ex_files ex_texts" by (simp add: new_engine_def)
  have load: "load_doc ex_sha (eng_files ?en) (ex_commit ''one'') = Some (Inr ?one)"
    "load_doc ex_sha (eng_files ?en) (ex_commit ''two'') = Some (Inr ?two)"
    unfolding files by (rule ex_load; simp)+
  have r: "replay [(?one, ?one)] ?two = [\<lparr>result = ?two, rconflicts = [], rclean = True\<rparr>]"
    using rebase_no_edit ex_no_markers by (simp add: Let_def)
  have ok: "list_all obj_ok (map BlobObj ex_texts)" by (rule ex_texts_ok)
  have inj: "inj_on (obj_id ex_sha) (held ex_sha (eng_files ?en) \<union> text_obj ` set (replay [(?one, ?one)] ?two))"
    unfolding r files using ex_texts_stored(2) [of "{BlobObj ''two''}"] by (simp add: Un_commute)
  have store: "store_ok ex_sha (eng_files ?en)" unfolding files by (rule ex_texts_stored)
  have "list_all2 (item_loads ex_sha (eng_files ?en)) [?it] [(?one, ?one)]" using load by (simp add: item_loads_def)
  moreover have "list_all (\<lambda>r. obj_ok (text_obj r) \<and> utf8_valid (doc_to_string (result r))) (replay [(?one, ?one)] ?two)"
    unfolding r using ok ex_texts_ok(1) by simp
  moreover have "move_all (eng_graph ?en) (map2 (item_move ex_sha) [?it] (replay [(?one, ?one)] ?two))
      = (Inr (), snd (record_move new_graph ''c'' (ex_commit ''one'') (ex_commit ''two'')))"
    unfolding r using ex_commit_inject [of "''one''" "''two''"]
    by (simp add: item_move_def rebased_tip_def ex_commit_def [symmetric] new_engine_def record_move_first)
  ultimately show ?thesis
    using auto_rebase_stack_exact [OF ex_sha_full store _ load(2) inj, of "[?it]"] unfolding r
    by (simp add: outcome_of_def rebased_tip_def ex_commit_def [symmetric]) blast
qed

end
