(* ===== verification/Review.thy ===== *)
theory Review
  imports WorkError "HOL-Library.Multiset"
begin

text \<open>
  The review unit, \<open>submission.rs\<close>, and the surgery of a stack of changes, \<open>stack.rs\<close>. A
  \<open>Vec\<close> is a list, an index a natural number (an index near \<open>2 ^ 64\<close> is beyond any vector).
\<close>

section \<open>Submissions\<close>

type_synonym submission_id = string

record approval_certificate =
  cert_change :: change_id
  original_commit :: commit_id
  rebased_commit :: commit_id
  approved_by :: string
  proof_witness :: string

datatype approval =
    Pending
  | Approved (reviewer: string) (certificates: "approval_certificate list")
  | Rejected (reject_reason: string)

record submission =
  sub_id :: submission_id
  title :: string
  sub_changes :: "change_id list"
  author :: string
  approval :: approval

definition new_submission :: "submission_id \<Rightarrow> string \<Rightarrow> change_id list \<Rightarrow> string \<Rightarrow> submission" where
  "new_submission i t cs a =
     \<lparr>sub_id = i, title = t, sub_changes = cs, author = a, approval = Pending\<rparr>"

definition approve :: "submission \<Rightarrow> string \<Rightarrow> submission" where
  "approve s rev_name = s\<lparr>approval := Approved rev_name []\<rparr>"

definition add_certificate :: "submission \<Rightarrow> approval_certificate \<Rightarrow> submission" where
  "add_certificate s cert =
     (case approval s of
        Approved r certs \<Rightarrow> s\<lparr>approval := Approved r (certs @ [cert])\<rparr>
      | _ \<Rightarrow> s)"

definition is_approved :: "submission \<Rightarrow> bool" where
  "is_approved s = (case approval s of Approved _ _ \<Rightarrow> True | _ \<Rightarrow> False)"

section \<open>Stacks\<close>

record stack =
  stack_name :: string
  stack_changes :: "change_id list"

definition new_stack :: "string \<Rightarrow> change_id list \<Rightarrow> stack" where
  "new_stack n cs = \<lparr>stack_name = n, stack_changes = cs\<rparr>"

definition stack_contains :: "stack \<Rightarrow> change_id \<Rightarrow> bool" where
  "stack_contains s c = List.member (stack_changes s) c"

definition push :: "stack \<Rightarrow> change_id \<Rightarrow> stack" where
  "push s c = (if \<not> stack_contains s c then s\<lparr>stack_changes := stack_changes s @ [c]\<rparr> else s)"

definition reorder :: "stack \<Rightarrow> nat \<Rightarrow> work_error + stack" where
  "reorder s i =
     (if length (stack_changes s) \<le> i + 1 then Inl (InvalidStackIndex i)
      else let cs = stack_changes s in
        Inr (s\<lparr>stack_changes := cs[i := cs ! (i + 1), i + 1 := cs ! i]\<rparr>))"

definition fold_changes :: "stack \<Rightarrow> nat \<Rightarrow> change_id \<Rightarrow> work_error + stack" where
  "fold_changes s i into =
     (if length (stack_changes s) \<le> i + 1 then Inl (InvalidStackIndex i)
      else let cs = stack_changes s; cs = take (i + 1) cs @ drop (i + 2) cs in
        Inr (s\<lparr>stack_changes := cs[i := into]\<rparr>))"

definition split_change :: "stack \<Rightarrow> nat \<Rightarrow> change_id \<Rightarrow> change_id \<Rightarrow> work_error + stack" where
  "split_change s i first second =
     (if length (stack_changes s) \<le> i then Inl (InvalidStackIndex i)
      else let cs = (stack_changes s)[i := first] in
        Inr (s\<lparr>stack_changes := take (i + 1) cs @ second # drop (i + 1) cs\<rparr>))"

fun absorb_loop :: "stack \<Rightarrow> change_id list \<Rightarrow> nat \<Rightarrow> work_error + nat" where
  "absorb_loop s [] n = Inr n"
| "absorb_loop s (c # cs) n =
     (if \<not> stack_contains s c then Inl (UnknownChangeW c) else absorb_loop s cs (n + 1))"

definition absorb :: "stack \<Rightarrow> change_id list \<Rightarrow> work_error + nat" where
  "absorb s targets = absorb_loop s targets 0"

section \<open>Lemmas\<close>

lemma is_approved_add_certificate [simp]: "is_approved (add_certificate s c) = is_approved s"
  by (simp add: is_approved_def add_certificate_def split: approval.split)

lemma is_approved_approve [simp]: "is_approved (approve s r)"
  by (simp add: is_approved_def approve_def)

lemma stack_contains_iff [simp]: "stack_contains s c \<longleftrightarrow> c \<in> set (stack_changes s)"
  by (simp add: stack_contains_def)

lemma absorb_loop_eq:
  "absorb_loop s cs n = (case find (\<lambda>c. c \<notin> set (stack_changes s)) cs of
     Some c \<Rightarrow> Inl (UnknownChangeW c) | None \<Rightarrow> Inr (n + length cs))"
  by (induction cs arbitrary: n) (simp_all split: option.splits)

lemma push_distinct: "distinct (stack_changes s) \<Longrightarrow> distinct (stack_changes (push s c))"
  by (simp add: push_def)

section \<open>Properties\<close>

text \<open>Stack surgery: a successful \<open>reorder\<close> keeps the multiset of changes and undoes itself,
  \<open>split\<close> followed by \<open>fold\<close> into the original change restores the stack, and each verb fails
  with the offending index exactly when that index is out of range.\<close>
theorem stack_surgery:
  "(\<forall>s'. reorder s i = Inr s' \<longrightarrow> mset (stack_changes s') = mset (stack_changes s) \<and> reorder s' i = Inr s) \<and>
   (i < length (stack_changes s) \<longrightarrow>
     and_then (split_change s i a b) (\<lambda>s'. fold_changes s' i (stack_changes s ! i)) = Inr s) \<and>
   (reorder s i = Inl (InvalidStackIndex i) \<longleftrightarrow> length (stack_changes s) \<le> i + 1) \<and>
   (fold_changes s i a = Inl (InvalidStackIndex i) \<longleftrightarrow> length (stack_changes s) \<le> i + 1) \<and>
   (split_change s i a b = Inl (InvalidStackIndex i) \<longleftrightarrow> length (stack_changes s) \<le> i)"
proof -
  let ?cs = "stack_changes s"
  have "mset (stack_changes s') = mset ?cs \<and> reorder s' i = Inr s" if r: "reorder s i = Inr s'" for s'
  proof -
    have len: "i + 1 < length ?cs" using r by (auto simp: reorder_def Let_def split: if_splits)
    have s': "s' = s\<lparr>stack_changes := ?cs[i := ?cs ! (i + 1), i + 1 := ?cs ! i]\<rparr>"
      using r len by (simp add: reorder_def Let_def)
    have "mset (?cs[i := ?cs ! (i + 1), i + 1 := ?cs ! i]) = mset ?cs"
      using mset_swap [of "i + 1" ?cs i] len by simp
    moreover have "?cs[i := ?cs ! (i + 1), i + 1 := ?cs ! i, i := ?cs ! i, i + 1 := ?cs ! (i + 1)] = ?cs"
      using len by (intro nth_equalityI) (auto simp: nth_list_update)
    ultimately show ?thesis using len by (simp add: s' reorder_def Let_def)
  qed
  moreover have "and_then (split_change s i a b) (\<lambda>s'. fold_changes s' i (?cs ! i)) = Inr s"
    if "i < length ?cs"
  proof -
    have "(take (i + 1) (?cs[i := a]) @ drop (i + 1) (?cs[i := a]))[i := ?cs ! i] = ?cs"
      by (simp only: append_take_drop_id list_update_overwrite list_update_id)
    with that show ?thesis by (simp add: split_change_def fold_changes_def Let_def min_absorb2)
  qed
  ultimately show ?thesis by (auto simp: reorder_def fold_changes_def split_change_def Let_def)
qed

lemma stack_surgery_witness:
  "and_then (split_change (new_stack ''s'' [''a'', ''b'']) 0 ''x'' ''y'')
     (\<lambda>s'. fold_changes s' 0 ''a'') = Inr (new_stack ''s'' [''a'', ''b''])"
  using stack_surgery [of "new_stack ''s'' [''a'', ''b'']" 0 "''x''" "''y''"] by (simp add: new_stack_def)

end
