(* ===== verification/DefMatch.thy ===== *)
theory DefMatch
  imports ChangeGraph
begin

text \<open>
  Definition identity, \<open>definition.rs\<close>: extraction of definitions from a syntax tree, the tiered
  matcher \<open>match_definitions\<close> and the definition graph with \<open>join\<close> and \<open>sever\<close>. The tree-sitter
  parser is not part of the repository: the extraction works on the tree it returns, and SHA-256
  is a parameter.
\<close>

section \<open>Definitions and their extraction\<close>

datatype definition_kind =
    Function | Struct | Enum | Trait | Impl | Module | TypeAlias | Const | Static

definition from_node_kind :: "string \<Rightarrow> definition_kind option" where
  "from_node_kind k =
     (if k = ''function_item'' then Some Function
      else if k = ''struct_item'' then Some Struct
      else if k = ''enum_item'' then Some Enum
      else if k = ''trait_item'' then Some Trait
      else if k = ''impl_item'' then Some Impl
      else if k = ''mod_item'' then Some Module
      else if k = ''type_item'' then Some TypeAlias
      else if k = ''const_item'' then Some Const
      else if k = ''static_item'' then Some Static
      else None)"

definition is_container :: "definition_kind \<Rightarrow> bool" where
  "is_container k \<longleftrightarrow> (case k of Module \<Rightarrow> True | Impl \<Rightarrow> True | Trait \<Rightarrow> True | Function \<Rightarrow> True | _ \<Rightarrow> False)"

definition kind_label :: "definition_kind \<Rightarrow> string" where
  "kind_label k =
     (case k of Function \<Rightarrow> ''fn'' | Struct \<Rightarrow> ''struct'' | Enum \<Rightarrow> ''enum'' | Trait \<Rightarrow> ''trait''
      | Impl \<Rightarrow> ''impl'' | Module \<Rightarrow> ''mod'' | TypeAlias \<Rightarrow> ''type'' | Const \<Rightarrow> ''const'' | Static \<Rightarrow> ''static'')"

record defn =
  dkind :: definition_kind
  dpath :: string
  dname :: string
  byte_range :: "nat \<times> nat"
  dhash :: string

datatype node =
  Node (node_kind: string) (start_byte: nat) (end_byte: nat)
    (node_fields: "(string \<times> node) list") (named_children: "node list")

definition node_text :: "node \<Rightarrow> string \<Rightarrow> string" where
  "node_text n source = (case str_get (start_byte n) (end_byte n) source of Some t \<Rightarrow> t | None \<Rightarrow> [])"

definition child_by_field_name :: "node \<Rightarrow> string \<Rightarrow> node option" where
  "child_by_field_name n f = map_of (node_fields n) f"

definition field_text :: "node \<Rightarrow> string \<Rightarrow> string \<Rightarrow> string option" where
  "field_text n source f = map_option (\<lambda>c. node_text c source) (child_by_field_name n f)"

definition body_hash :: "(string \<Rightarrow> string) \<Rightarrow> node \<Rightarrow> string \<Rightarrow> string" where
  "body_hash sha256_hex n source =
     (let text = node_text n source in
      case child_by_field_name n ''name'' of
        Some name \<Rightarrow>
          let lo = start_byte name - start_byte n; hi = end_byte name - start_byte n in
          if lo \<le> hi \<and> hi \<le> length text \<and> is_char_boundary text lo \<and> is_char_boundary text hi
          then sha256_hex (take lo text @ [CHR 0x00] @ drop hi text)
          else sha256_hex text
      | None \<Rightarrow> sha256_hex text)"

definition definition_name :: "node \<Rightarrow> string \<Rightarrow> definition_kind \<Rightarrow> string" where
  "definition_name n source k =
     (case k of
        Impl \<Rightarrow> (case field_text n source ''type'' of Some t \<Rightarrow> t | None \<Rightarrow> ''<impl>'')
      | _ \<Rightarrow> (case field_text n source ''name'' of Some t \<Rightarrow> t | None \<Rightarrow> ''<anon>''))"

definition qualify :: "string \<Rightarrow> string \<Rightarrow> string" where
  "qualify pre name = (if pre = [] then name else pre @ ''::'' @ name)"

lemma named_children_size: "size_list size (named_children c) < size c"
  by (cases c) simp

function collect :: "(string \<Rightarrow> string) \<Rightarrow> string \<Rightarrow> string \<Rightarrow> node list \<Rightarrow> defn list" where
  "collect sha source pre [] = []"
| "collect sha source pre (c # cs) =
     (case from_node_kind (node_kind c) of
        Some k \<Rightarrow>
          let name = definition_name c source k; path = qualify pre name in
          \<lparr>dkind = k, dpath = path, dname = name, byte_range = (start_byte c, end_byte c),
           dhash = body_hash sha c source\<rparr>
          # (if is_container k then collect sha source path (named_children c) else [])
      | None \<Rightarrow> collect sha source pre (named_children c))
     @ collect sha source pre cs"
  by pat_completeness auto
termination
  by (relation "measure (\<lambda>(sha, source, pre, ns). size_list size ns)")
     (use named_children_size in \<open>auto simp: less_Suc_eq trans_less_add1\<close>)

text \<open>
  \<open>set_language\<close> and \<open>parse\<close> are tree-sitter: the error of loading the grammar, if any, and the
  root node of the tree of a source text, if it yields one.
\<close>

definition extract_definitions ::
  "(string \<Rightarrow> string) \<Rightarrow> string option \<Rightarrow> (string \<Rightarrow> node option) \<Rightarrow> string \<Rightarrow> identity_error + defn list" where
  "extract_definitions sha set_language parse source =
     (case set_language of
        Some e \<Rightarrow> Inl (Grammar e)
      | None \<Rightarrow>
          and_then (ok_or ParseTree (parse source)) (\<lambda>root. Inr (collect sha source [] (named_children root))))"

section \<open>The tiered matcher\<close>

datatype match_status = Added | Deleted | Unchanged | Modified | Renamed

record def_match =
  mold :: "nat option"
  mnew :: "nat option"
  status :: match_status
  reason :: string

definition tier1_same where "tier1_same = ''tier1: exact (kind,path), body identical''"
definition tier1_edited where "tier1_edited = ''tier1: exact (kind,path), body edited''"
definition tier2_reason where "tier2_reason = ''tier2: identical body, path changed (rename)''"
definition tier3_reason where "tier3_reason = ''tier3: same name and body, container moved''"
definition deleted_reason where "deleted_reason = ''no surviving match in new version''"
definition added_reason where "added_reason = ''first appearance: mint new identity''"

type_synonym match_state = "bool list \<times> bool list \<times> def_match list"

definition find_old :: "bool list \<Rightarrow> (defn \<Rightarrow> bool) \<Rightarrow> defn list \<Rightarrow> nat option" where
  "find_old mo P old = position (\<lambda>(i, od). \<not> mo ! i \<and> P od) (enumerate 0 old)"

definition claim :: "nat \<Rightarrow> nat \<Rightarrow> match_status \<times> string \<Rightarrow> match_state \<Rightarrow> match_state" where
  "claim i j sr st =
     (case st of (mo, mn, ms) \<Rightarrow>
        (mo[i := True], mn[j := True],
         ms @ [\<lparr>mold = Some i, mnew = Some j, status = fst sr, reason = snd sr\<rparr>]))"

definition tier1_cond :: "defn \<Rightarrow> defn \<Rightarrow> bool" where
  "tier1_cond nd od \<longleftrightarrow> dkind od = dkind nd \<and> dpath od = dpath nd"

definition tier2_cond :: "defn \<Rightarrow> defn \<Rightarrow> bool" where
  "tier2_cond nd od \<longleftrightarrow> dkind od = dkind nd \<and> dhash od = dhash nd \<and> dpath od \<noteq> dpath nd"

definition tier3_cond :: "defn \<Rightarrow> defn \<Rightarrow> bool" where
  "tier3_cond nd od \<longleftrightarrow> dkind od = dkind nd \<and> dname od = dname nd \<and> dhash od = dhash nd \<and> dpath od \<noteq> dpath nd"

definition tier1_step :: "defn list \<Rightarrow> defn list \<Rightarrow> nat \<Rightarrow> match_state \<Rightarrow> match_state" where
  "tier1_step old new j st =
     (case st of (mo, mn, ms) \<Rightarrow>
        case find_old mo (tier1_cond (new ! j)) old of
          Some i \<Rightarrow>
            claim i j (if dhash (old ! i) = dhash (new ! j) then (Unchanged, tier1_same)
                       else (Modified, tier1_edited)) st
        | None \<Rightarrow> st)"

definition tier2_step :: "defn list \<Rightarrow> defn list \<Rightarrow> nat \<Rightarrow> match_state \<Rightarrow> match_state" where
  "tier2_step old new j st =
     (case st of (mo, mn, ms) \<Rightarrow>
        if mn ! j then st
        else case find_old mo (tier2_cond (new ! j)) old of
          Some i \<Rightarrow> claim i j (Renamed, tier2_reason) st
        | None \<Rightarrow> st)"

definition tier3_step :: "defn list \<Rightarrow> defn list \<Rightarrow> nat \<Rightarrow> match_state \<Rightarrow> match_state" where
  "tier3_step old new j st =
     (case st of (mo, mn, ms) \<Rightarrow>
        if mn ! j then st
        else case find_old mo (tier3_cond (new ! j)) old of
          Some i \<Rightarrow> claim i j (Renamed, tier3_reason) st
        | None \<Rightarrow> st)"

definition match_definitions :: "defn list \<Rightarrow> defn list \<Rightarrow> def_match list" where
  "match_definitions old new =
     (let js = [0..<length new];
          st0 = (replicate (length old) False, replicate (length new) False, []);
          st1 = fold (tier1_step old new) js st0;
          st2 = fold (tier2_step old new) js st1;
          (mo, mn, ms) = fold (tier3_step old new) js st2 in
      ms
      @ map (\<lambda>i. \<lparr>mold = Some i, mnew = None, status = Deleted, reason = deleted_reason\<rparr>)
          (filter (\<lambda>i. \<not> mo ! i) [0..<length old])
      @ map (\<lambda>j. \<lparr>mold = None, mnew = Some j, status = Added, reason = added_reason\<rparr>)
          (filter (\<lambda>j. \<not> mn ! j) js))"

section \<open>The definition graph\<close>

type_synonym definition_id = string
type_synonym occurrence_id = nat

record def_graph =
  next_occ :: nat
  next_id :: nat
  occurrences :: "(occurrence_id \<times> defn) list"
  identity :: "(occurrence_id \<times> definition_id) list"

definition new_def_graph :: def_graph where
  "new_def_graph = \<lparr>next_occ = 0, next_id = 0, occurrences = [], identity = []\<rparr>"

definition mint_id :: "def_graph \<Rightarrow> definition_id \<times> def_graph" where
  "mint_id g = (let g' = g\<lparr>next_id := next_id g + 1\<rparr> in (''def-'' @ show_nat (next_id g'), g'))"

definition add_def :: "def_graph \<Rightarrow> defn \<Rightarrow> occurrence_id \<times> def_graph" where
  "add_def g d =
     (let occ = next_occ g; g1 = g\<lparr>next_occ := next_occ g + 1\<rparr>; (i, g2) = mint_id g1 in
      (occ, g2\<lparr>occurrences := AList.update occ d (occurrences g2),
               identity := AList.update occ i (identity g2)\<rparr>))"

definition definition_of :: "def_graph \<Rightarrow> occurrence_id \<Rightarrow> defn option" where
  "definition_of g occ = map_of (occurrences g) occ"

definition identity_of :: "def_graph \<Rightarrow> occurrence_id \<Rightarrow> definition_id option" where
  "identity_of g occ = map_of (identity g) occ"

definition members :: "def_graph \<Rightarrow> definition_id \<Rightarrow> occurrence_id list" where
  "members g i = sort (map fst (filter (\<lambda>(_, d). d = i) (identity g)))"

definition join :: "def_graph \<Rightarrow> occurrence_id \<Rightarrow> occurrence_id \<Rightarrow> identity_error + def_graph" where
  "join g a b =
     and_then (ok_or (UnknownOccurrence a) (map_of (identity g) a)) (\<lambda>target.
     and_then (ok_or (UnknownOccurrence b) (map_of (identity g) b)) (\<lambda>source.
       if source = target then Inr g
       else Inr (g\<lparr>identity := map (\<lambda>(occ, d). (occ, if d = source then target else d)) (identity g)\<rparr>)))"

definition sever :: "def_graph \<Rightarrow> occurrence_id \<Rightarrow> identity_error + (definition_id \<times> def_graph)" where
  "sever g occ =
     (if map_of (identity g) occ = None then Inl (UnknownOccurrence occ)
      else let (fresh, g') = mint_id g in
        Inr (fresh, g'\<lparr>identity := AList.update occ fresh (identity g')\<rparr>))"

section \<open>The state of the matcher\<close>

definition olds :: "def_match list \<Rightarrow> nat list" where
  "olds ms = List.map_filter mold ms"

definition news :: "def_match list \<Rightarrow> nat list" where
  "news ms = List.map_filter mnew ms"

lemma olds_simps [simp]:
  "olds [] = []" "olds (m # ms) = (case mold m of Some i \<Rightarrow> [i] | None \<Rightarrow> []) @ olds ms"
  "olds (ms @ ns) = olds ms @ olds ns"
  by (auto simp: olds_def map_filter_def split: option.splits)

lemma news_simps [simp]:
  "news [] = []" "news (m # ms) = (case mnew m of Some i \<Rightarrow> [i] | None \<Rightarrow> []) @ news ms"
  "news (ms @ ns) = news ms @ news ns"
  by (auto simp: news_def map_filter_def split: option.splits)

text \<open>The evidence that an entry of the report must have.\<close>

definition evidence :: "defn list \<Rightarrow> defn list \<Rightarrow> def_match \<Rightarrow> bool" where
  "evidence old new m =
     (case (mold m, mnew m) of
        (Some i, Some j) \<Rightarrow>
          i < length old \<and> j < length new \<and> dkind (old ! i) = dkind (new ! j) \<and>
          (case status m of
             Unchanged \<Rightarrow> dpath (old ! i) = dpath (new ! j) \<and> dhash (old ! i) = dhash (new ! j)
           | Modified \<Rightarrow> dpath (old ! i) = dpath (new ! j) \<and> dhash (old ! i) \<noteq> dhash (new ! j)
           | Renamed \<Rightarrow> dpath (old ! i) \<noteq> dpath (new ! j) \<and> dhash (old ! i) = dhash (new ! j)
           | _ \<Rightarrow> False)
      | (Some i, None) \<Rightarrow> status m = Deleted \<and> i < length old
      | (None, Some j) \<Rightarrow> status m = Added \<and> j < length new
      | (None, None) \<Rightarrow> False)"

definition match_ok :: "defn list \<Rightarrow> defn list \<Rightarrow> match_state \<Rightarrow> bool" where
  "match_ok old new st =
     (case st of (mo, mn, ms) \<Rightarrow>
        length mo = length old \<and> length mn = length new \<and>
        distinct (olds ms) \<and> distinct (news ms) \<and>
        set (olds ms) = {i. i < length old \<and> mo ! i} \<and>
        set (news ms) = {j. j < length new \<and> mn ! j} \<and>
        list_all (evidence old new) ms)"

definition grows :: "match_state \<Rightarrow> match_state \<Rightarrow> bool" where
  "grows st st' =
     (case (st, st') of ((mo, mn, ms), (mo', mn', ms')) \<Rightarrow>
        (\<forall>i. mo ! i \<longrightarrow> mo' ! i) \<and> (\<forall>j. mn ! j \<longrightarrow> mn' ! j))"

definition settled :: "(defn \<Rightarrow> defn \<Rightarrow> bool) \<Rightarrow> defn list \<Rightarrow> defn list \<Rightarrow> nat \<Rightarrow> match_state \<Rightarrow> bool" where
  "settled cond old new j st =
     (case st of (mo, mn, ms) \<Rightarrow>
        mn ! j \<or> (\<forall>i<length old. \<not> mo ! i \<longrightarrow> \<not> cond (new ! j) (old ! i)))"

lemma grows_refl [simp]: "grows st st"
  by (simp add: grows_def split: prod.splits)

lemma grows_trans: "grows st st' \<Longrightarrow> grows st' st'' \<Longrightarrow> grows st st''"
  by (auto simp: grows_def split: prod.splits)

lemma settled_grows: "settled cond old new j st \<Longrightarrow> grows st st' \<Longrightarrow> settled cond old new j st'"
  by (fastforce simp: settled_def grows_def split: prod.splits)

lemma find_old_Some:
  "length mo = length old \<Longrightarrow> find_old mo P old = Some i \<Longrightarrow> i < length old \<and> \<not> mo ! i \<and> P (old ! i)"
  by (auto simp: find_old_def position_Some_iff nth_enumerate_eq)

lemma find_old_None:
  "length mo = length old \<Longrightarrow> find_old mo P old = None \<Longrightarrow> i < length old \<Longrightarrow> \<not> mo ! i \<Longrightarrow> \<not> P (old ! i)"
  by (fastforce simp: find_old_def position_None_iff in_set_enumerate_eq)

lemma claim_ok:
  assumes "match_ok old new (mo, mn, ms)" "i < length old" "\<not> mo ! i" "j < length new" "\<not> mn ! j"
    and "evidence old new \<lparr>mold = Some i, mnew = Some j, status = fst sr, reason = snd sr\<rparr>"
  shows "match_ok old new (claim i j sr (mo, mn, ms)) \<and> grows (mo, mn, ms) (claim i j sr (mo, mn, ms)) \<and>
    settled cond old new j (claim i j sr (mo, mn, ms))"
proof -
  have len: "length mo = length old" "length mn = length new" using assms(1) by (auto simp: match_ok_def)
  have "{k. k < length old \<and> mo[i := True] ! k} = insert i {k. k < length old \<and> mo ! k}"
    using assms(2) len by (auto simp: nth_list_update)
  moreover have "{k. k < length new \<and> mn[j := True] ! k} = insert j {k. k < length new \<and> mn ! k}"
    using assms(4) len by (auto simp: nth_list_update)
  ultimately have "match_ok old new (claim i j sr (mo, mn, ms))"
    using assms by (simp add: match_ok_def claim_def)
  moreover have "grows (mo, mn, ms) (claim i j sr (mo, mn, ms))"
    by (auto simp: grows_def claim_def) (metis nth_list_update_eq nth_list_update_neq list_update_beyond not_le)+
  moreover have "settled cond old new j (claim i j sr (mo, mn, ms))"
    using assms(4) len by (simp add: settled_def claim_def)
  ultimately show ?thesis by blast
qed

section \<open>One pass over the new definitions\<close>

text \<open>
  The contract the three passes share: a step at a ready index keeps the state well formed,
  only adds matches and settles its index with respect to the condition of the tier.
\<close>

locale tier_pass =
  fixes old new :: "defn list"
    and step :: "nat \<Rightarrow> match_state \<Rightarrow> match_state"
    and cond :: "defn \<Rightarrow> defn \<Rightarrow> bool"
    and ready :: "nat \<Rightarrow> match_state \<Rightarrow> bool"
  assumes step_ok: "match_ok old new st \<Longrightarrow> j < length new \<Longrightarrow> ready j st \<Longrightarrow>
      match_ok old new (step j st) \<and> grows st (step j st) \<and> settled cond old new j (step j st)"
    and step_ready: "match_ok old new st \<Longrightarrow> j < length new \<Longrightarrow> ready j st \<Longrightarrow> ready (Suc j) (step j st)"
begin

lemma pass:
  assumes "match_ok old new st" "ready 0 st" "n \<le> length new"
  shows "match_ok old new (fold step [0..<n] st) \<and> grows st (fold step [0..<n] st) \<and>
    (\<forall>j<n. settled cond old new j (fold step [0..<n] st)) \<and> ready n (fold step [0..<n] st)"
  using assms(3)
proof (induction n)
  case 0
  then show ?case using assms by simp
next
  case (Suc n)
  let ?st = "fold step [0..<n] st"
  from Suc have IH: "match_ok old new ?st" "grows st ?st" "\<forall>j<n. settled cond old new j ?st" "ready n ?st"
    and n: "n < length new" by auto
  have "fold step [0..<Suc n] st = step n ?st" by simp
  moreover note S = step_ok [OF IH(1) n IH(4)] step_ready [OF IH(1) n IH(4)]
  moreover have "settled cond old new j (step n ?st)" if "j < Suc n" for j
    using that S IH(3) settled_grows [of cond old new j ?st "step n ?st"] by (cases "j = n") simp_all
  moreover have "grows st (step n ?st)" using IH(2) S(1) grows_trans by blast
  ultimately show ?case by simp
qed

end

definition fresh_from :: "defn list \<Rightarrow> nat \<Rightarrow> match_state \<Rightarrow> bool" where
  "fresh_from new j st = (case st of (mo, mn, ms) \<Rightarrow> \<forall>k. j \<le> k \<longrightarrow> k < length new \<longrightarrow> \<not> mn ! k)"

interpretation t1: tier_pass old new "tier1_step old new" tier1_cond "fresh_from new" for old new
proof (unfold_locales, goal_cases)
  case (1 st j)
  obtain mo mn ms where st: "st = (mo, mn, ms)" by (cases st)
  have len: "length mo = length old" using 1(1) by (simp add: match_ok_def st)
  show ?case
  proof (cases "find_old mo (tier1_cond (new ! j)) old")
    case None
    then show ?thesis using 1 find_old_None [OF len None]
      by (auto simp: st tier1_step_def settled_def)
  next
    case (Some i)
    show ?thesis
      using claim_ok [of old new mo mn ms i j _ tier1_cond] find_old_Some [OF len Some] 1 Some
      by (auto simp: st tier1_step_def fresh_from_def evidence_def tier1_cond_def)
  qed
next
  case (2 st j)
  then show ?case
    by (auto simp: tier1_step_def fresh_from_def claim_def split: option.splits prod.splits)
qed

lemma tier_guarded:
  assumes "match_ok old new (mo, mn, ms)" "j < length new"
    and "\<And>i. cond (new ! j) (old ! i) \<Longrightarrow> i < length old \<Longrightarrow>
       evidence old new \<lparr>mold = Some i, mnew = Some j, status = fst sr, reason = snd sr\<rparr>"
    and "st' = (if mn ! j then (mo, mn, ms)
       else case find_old mo (cond (new ! j)) old of
         Some i \<Rightarrow> claim i j sr (mo, mn, ms) | None \<Rightarrow> (mo, mn, ms))"
  shows "match_ok old new st' \<and> grows (mo, mn, ms) st' \<and> settled cond old new j st'"
proof -
  have len: "length mo = length old" using assms(1) by (simp add: match_ok_def)
  consider "mn ! j" | "\<not> mn ! j" "find_old mo (cond (new ! j)) old = None"
    | i where "\<not> mn ! j" "find_old mo (cond (new ! j)) old = Some i" by fastforce
  then show ?thesis
  proof cases
    case 1
    then show ?thesis using assms by (simp add: settled_def)
  next
    case 2
    then show ?thesis using assms find_old_None [OF len 2(2)] by (auto simp: settled_def)
  next
    case 3
    then show ?thesis
      using claim_ok [of old new mo mn ms i j sr cond] find_old_Some [OF len 3(2)] assms by simp
  qed
qed

interpretation t2: tier_pass old new "tier2_step old new" tier2_cond "\<lambda>_ _. True" for old new
proof (unfold_locales, goal_cases)
  case (1 st j)
  obtain mo mn ms where st: "st = (mo, mn, ms)" by (cases st)
  show ?case unfolding st
    using 1 by (intro tier_guarded [where sr = "(Renamed, tier2_reason)"])
      (auto simp: st tier2_step_def evidence_def tier2_cond_def)
qed simp

interpretation t3: tier_pass old new "tier3_step old new" tier3_cond "\<lambda>_ _. True" for old new
proof (unfold_locales, goal_cases)
  case (1 st j)
  obtain mo mn ms where st: "st = (mo, mn, ms)" by (cases st)
  show ?case unfolding st
    using 1 by (intro tier_guarded [where sr = "(Renamed, tier3_reason)"])
      (auto simp: st tier3_step_def evidence_def tier3_cond_def)
qed simp

section \<open>The report\<close>

definition passes :: "defn list \<Rightarrow> defn list \<Rightarrow> match_state" where
  "passes old new =
     (let js = [0..<length new] in
      fold (tier3_step old new) js (fold (tier2_step old new) js (fold (tier1_step old new) js
        (replicate (length old) False, replicate (length new) False, []))))"

lemma passes_ok:
  "match_ok old new (passes old new) \<and>
   (\<forall>j<length new. settled tier1_cond old new j (passes old new) \<and>
      settled tier2_cond old new j (passes old new))"
proof -
  let ?js = "[0..<length new]"
  let ?s0 = "(replicate (length old) False, replicate (length new) False, [])"
  let ?s1 = "fold (tier1_step old new) ?js ?s0"
  let ?s2 = "fold (tier2_step old new) ?js ?s1"
  let ?s3 = "fold (tier3_step old new) ?js ?s2"
  have "match_ok old new ?s0" "fresh_from new 0 ?s0" by (auto simp: match_ok_def fresh_from_def)
  from t1.pass [OF this order_refl] have s1: "match_ok old new ?s1"
    "\<forall>j<length new. settled tier1_cond old new j ?s1" by blast+
  from t2.pass [OF s1(1) TrueI order_refl] have s2: "match_ok old new ?s2" "grows ?s1 ?s2"
    "\<forall>j<length new. settled tier2_cond old new j ?s2" by blast+
  from t3.pass [OF s2(1) TrueI order_refl] have s3: "match_ok old new ?s3" "grows ?s2 ?s3" by blast+
  have "passes old new = ?s3" by (simp add: passes_def Let_def)
  moreover have "grows ?s1 ?s3" using s2(2) s3(2) by (rule grows_trans)
  then have "\<forall>j<length new. settled tier1_cond old new j ?s3" using s1(2) settled_grows by blast
  moreover have "\<forall>j<length new. settled tier2_cond old new j ?s3" using s2(3) s3(2) settled_grows by blast
  ultimately show ?thesis using s3(1) by simp
qed

lemma match_definitions_passes:
  "passes old new = (mo, mn, ms) \<Longrightarrow>
   match_definitions old new = ms
      @ map (\<lambda>i. \<lparr>mold = Some i, mnew = None, status = Deleted, reason = deleted_reason\<rparr>)
          (filter (\<lambda>i. \<not> mo ! i) [0..<length old])
      @ map (\<lambda>j. \<lparr>mold = None, mnew = Some j, status = Added, reason = added_reason\<rparr>)
          (filter (\<lambda>j. \<not> mn ! j) [0..<length new])"
  by (simp add: match_definitions_def passes_def Let_def)

lemma olds_map_Some: "olds (map (\<lambda>i. \<lparr>mold = Some i, mnew = None, status = s, reason = r\<rparr>) is) = is"
  by (induction "is") auto

lemma olds_map_None: "olds (map (\<lambda>j. \<lparr>mold = None, mnew = Some j, status = s, reason = r\<rparr>) js) = []"
  by (induction js) auto

lemma news_map_Some: "news (map (\<lambda>j. \<lparr>mold = None, mnew = Some j, status = s, reason = r\<rparr>) js) = js"
  by (induction js) auto

lemma news_map_None: "news (map (\<lambda>i. \<lparr>mold = Some i, mnew = None, status = s, reason = r\<rparr>) is) = []"
  by (induction "is") auto

text \<open>The third pass changes nothing: its condition is a special case of the second tier's.\<close>

lemma tier3_settled: "settled tier2_cond old new j st \<Longrightarrow> settled tier3_cond old new j st"
  by (auto simp: settled_def tier2_cond_def tier3_cond_def split: prod.splits)

lemma tier3_noop:
  assumes "match_ok old new st" "settled tier2_cond old new j st"
  shows "tier3_step old new j st = st"
proof -
  obtain mo mn ms where st: "st = (mo, mn, ms)" by (cases st)
  have len: "length mo = length old" using assms(1) by (simp add: match_ok_def st)
  show ?thesis
    using tier3_settled [OF assms(2)] find_old_Some [OF len]
    by (auto simp: st tier3_step_def settled_def split: option.split)
qed

lemma tier3_fold_noop:
  "match_ok old new st \<Longrightarrow> \<forall>j\<in>set js. settled tier2_cond old new j st \<Longrightarrow> fold (tier3_step old new) js st = st"
  by (induction js) (auto simp: tier3_noop)

lemma passes_two:
  "passes old new = fold (tier2_step old new) [0..<length new] (fold (tier1_step old new) [0..<length new]
     (replicate (length old) False, replicate (length new) False, []))"
proof -
  let ?js = "[0..<length new]"
  let ?s0 = "(replicate (length old) False, replicate (length new) False, [])"
  let ?s1 = "fold (tier1_step old new) ?js ?s0"
  have "match_ok old new ?s0" "fresh_from new 0 ?s0" by (auto simp: match_ok_def fresh_from_def)
  from t1.pass [OF this order_refl] have "match_ok old new ?s1" by blast
  from t2.pass [OF this TrueI order_refl] show ?thesis
    by (simp add: passes_def Let_def tier3_fold_noop)
qed

lemma mset_filter_split: "mset (filter P xs) + mset (filter (\<lambda>x. \<not> P x) xs) = mset xs"
  by (induction xs) auto

lemma report_ok:
  "mset (olds (match_definitions old new)) = mset [0..<length old]"
  "mset (news (match_definitions old new)) = mset [0..<length new]"
  "list_all (evidence old new) (match_definitions old new)"
proof -
  obtain mo mn ms where p: "passes old new = (mo, mn, ms)" by (metis prod_cases3)
  note eq = match_definitions_passes [OF p]
  from passes_ok [of old new] have ok: "distinct (olds ms)" "distinct (news ms)"
    "set (olds ms) = {i. i < length old \<and> mo ! i}" "set (news ms) = {j. j < length new \<and> mn ! j}"
    "list_all (evidence old new) ms"
    by (auto simp: p match_ok_def)
  have "mset (olds ms) = mset (filter (\<lambda>i. mo ! i) [0..<length old])"
    "mset (news ms) = mset (filter (\<lambda>j. mn ! j) [0..<length new])"
    using mset_set_set [OF ok(1)] mset_set_set [OF ok(2)] ok(3,4) by simp_all
  then show "mset (olds (match_definitions old new)) = mset [0..<length old]"
    "mset (news (match_definitions old new)) = mset [0..<length new]"
    unfolding eq olds_simps news_simps olds_map_Some olds_map_None news_map_Some news_map_None
    by (simp_all add: mset_filter_split del: mset_filter)
  show "list_all (evidence old new) (match_definitions old new)"
    using ok(5) unfolding eq list_all_append by (auto simp: list_all_iff evidence_def)
qed

text \<open>What the passes append: pairs, with a reason of the first two tiers.\<close>

definition pair_entry :: "def_match \<Rightarrow> bool" where
  "pair_entry m \<longleftrightarrow> mold m \<noteq> None \<and> mnew m \<noteq> None \<and>
     reason m \<in> {tier1_same, tier1_edited, tier2_reason}"

definition pairs_only :: "match_state \<Rightarrow> bool" where
  "pairs_only st \<longleftrightarrow> list_all pair_entry (snd (snd st))"

lemma pairs_only_claim:
  "pairs_only st \<Longrightarrow> snd sr \<in> {tier1_same, tier1_edited, tier2_reason} \<Longrightarrow> pairs_only (claim i j sr st)"
  by (cases st) (simp add: pairs_only_def claim_def pair_entry_def)

lemma tier1_pairs: "pairs_only st \<Longrightarrow> pairs_only (tier1_step old new j st)"
  by (cases st) (auto simp: tier1_step_def intro!: pairs_only_claim split: option.split)

lemma tier2_pairs: "pairs_only st \<Longrightarrow> pairs_only (tier2_step old new j st)"
  by (cases st) (auto simp: tier2_step_def intro!: pairs_only_claim split: option.split)

lemma fold_pairs:
  "(\<And>j st. pairs_only st \<Longrightarrow> pairs_only (f j st)) \<Longrightarrow> pairs_only st \<Longrightarrow> pairs_only (fold f js st)"
  by (induction js arbitrary: st) auto

lemma passes_pairs: "pairs_only (passes old new)"
  unfolding passes_two by (intro fold_pairs tier2_pairs tier1_pairs) (simp_all add: pairs_only_def)

lemma report_maximal:
  assumes "\<lparr>mold = Some i, mnew = None, status = Deleted, reason = r\<rparr> \<in> set (match_definitions old new)"
    and "\<lparr>mold = None, mnew = Some j, status = Added, reason = r'\<rparr> \<in> set (match_definitions old new)"
  shows "dkind (old ! i) \<noteq> dkind (new ! j) \<or>
    dpath (old ! i) \<noteq> dpath (new ! j) \<and> dhash (old ! i) \<noteq> dhash (new ! j)"
proof -
  obtain mo mn ms where p: "passes old new = (mo, mn, ms)" by (metis prod_cases3)
  note eq = match_definitions_passes [OF p]
  from passes_ok [of old new] have ok: "set (olds ms) = {i. i < length old \<and> mo ! i}"
    "set (news ms) = {j. j < length new \<and> mn ! j}" "list_all (evidence old new) ms"
    "\<forall>j<length new. settled tier1_cond old new j (mo, mn, ms) \<and> settled tier2_cond old new j (mo, mn, ms)"
    by (auto simp: p match_ok_def)
  have pairs: "m \<in> set ms \<Longrightarrow> mold m \<noteq> None \<and> mnew m \<noteq> None" for m
    using passes_pairs [of old new] by (simp add: p pairs_only_def list_all_iff pair_entry_def)
  have "i < length old \<and> \<not> mo ! i" "j < length new \<and> \<not> mn ! j"
    using assms pairs unfolding eq by fastforce+
  then show ?thesis using ok(4) by (auto simp: settled_def tier1_cond_def tier2_cond_def)
qed

section \<open>Identities of the definition graph\<close>

datatype def_op = AddDef defn | Join occurrence_id occurrence_id | Sever occurrence_id

fun def_apply :: "def_graph \<Rightarrow> def_op \<Rightarrow> def_graph" where
  "def_apply g (AddDef d) = snd (add_def g d)"
| "def_apply g (Join a b) = (case join g a b of Inr g' \<Rightarrow> g' | Inl _ \<Rightarrow> g)"
| "def_apply g (Sever occ) = (case sever g occ of Inr (_, g') \<Rightarrow> g' | Inl _ \<Rightarrow> g)"

definition def_run :: "def_op list \<Rightarrow> def_graph" where
  "def_run ops = foldl def_apply new_def_graph ops"

definition minted :: "nat \<Rightarrow> definition_id" where
  "minted n = ''def-'' @ show_nat n"

lemma minted_inject [simp]: "minted m = minted n \<longleftrightarrow> m = n"
  by (simp add: minted_def)

definition def_ok :: "def_graph \<Rightarrow> bool" where
  "def_ok g \<longleftrightarrow>
     (\<forall>occ i. map_of (identity g) occ = Some i \<longrightarrow> occ < next_occ g \<and> (\<exists>n\<le>next_id g. i = minted n)) \<and>
     distinct (map fst (identity g))"

lemma mint_id_eq: "mint_id g = (minted (next_id g + 1), g\<lparr>next_id := next_id g + 1\<rparr>)"
  by (simp add: mint_id_def minted_def Let_def)

lemma add_def_eq:
  "add_def g d = (next_occ g, g\<lparr>next_occ := next_occ g + 1, next_id := next_id g + 1,
     occurrences := AList.update (next_occ g) d (occurrences g),
     identity := AList.update (next_occ g) (minted (next_id g + 1)) (identity g)\<rparr>)"
  by (simp add: add_def_def mint_id_eq Let_def)

lemma sever_Inr_iff:
  "sever g occ = Inr (i, g') \<longleftrightarrow>
     map_of (identity g) occ \<noteq> None \<and> i = minted (next_id g + 1) \<and>
     g' = g\<lparr>next_id := next_id g + 1, identity := AList.update occ i (identity g)\<rparr>"
  by (auto simp: sever_def mint_id_eq)

lemma map_of_relabel:
  "map_of (map (\<lambda>(k, d). (k, f d)) al) k = map_option f (map_of al k)"
  by (induction al) auto

lemma join_Inr_iff:
  "join g a b = Inr g' \<longleftrightarrow>
     (\<exists>target source. map_of (identity g) a = Some target \<and> map_of (identity g) b = Some source \<and>
        g' = (if source = target then g
          else g\<lparr>identity := map (\<lambda>(occ, d). (occ, if d = source then target else d)) (identity g)\<rparr>))"
  by (auto simp: join_def res_simps)

lemma def_ok_add: "def_ok g \<Longrightarrow> def_ok (snd (add_def g d))"
  by (fastforce simp: def_ok_def add_def_eq map_of_update distinct_update intro: less_SucI le_SucI split: if_splits)

lemma def_ok_join: "def_ok g \<Longrightarrow> join g a b = Inr g' \<Longrightarrow> def_ok g'"
  by (fastforce simp: def_ok_def join_Inr_iff map_of_relabel comp_def case_prod_unfold split: if_splits)

lemma def_ok_sever: "def_ok g \<Longrightarrow> sever g occ = Inr (i, g') \<Longrightarrow> def_ok g'"
  by (fastforce simp: def_ok_def sever_Inr_iff map_of_update distinct_update intro: le_SucI split: if_splits)

lemma def_ok_apply: "def_ok g \<Longrightarrow> def_ok (def_apply g op)"
  by (cases op) (auto split: sum.split intro: def_ok_add def_ok_join def_ok_sever)

lemma def_run_ok: "def_ok (def_run ops)"
proof -
  have "def_ok g \<Longrightarrow> def_ok (foldl def_apply g ops)" for g
    by (induction ops arbitrary: g) (auto intro: def_ok_apply)
  then show ?thesis by (simp add: def_run_def def_ok_def new_def_graph_def)
qed

lemma members_eq: "def_ok g \<Longrightarrow> set (members g i) = {occ. identity_of g occ = Some i} \<and> distinct (members g i)"
  by (auto simp: members_def identity_of_def def_ok_def map_of_eq_Some_iff distinct_map_filter
      intro: rev_image_eqI)

lemma identity_of_join:
  "join g a b = Inr g' \<Longrightarrow>
   identity_of g' occ = (if identity_of g occ = identity_of g b then identity_of g a else identity_of g occ)"
  by (auto simp: join_Inr_iff identity_of_def map_of_relabel split: if_splits) (cases "map_of (identity g) occ"; auto)+

lemma identity_of_sever:
  "sever g occ = Inr (i, g') \<Longrightarrow> identity_of g' occ' = (if occ' = occ then Some i else identity_of g occ')"
  by (auto simp: sever_Inr_iff identity_of_def map_of_update)

lemma minted_fresh: "def_ok g \<Longrightarrow> identity_of g occ \<noteq> Some (minted (next_id g + 1))"
  unfolding def_ok_def identity_of_def by (metis Suc_eq_plus1 Suc_n_not_le_n minted_inject)

lemma distinct_singleton: "set xs = {x} \<Longrightarrow> distinct xs \<Longrightarrow> xs = [x]"
  by (cases xs; cases "tl xs") auto

section \<open>Properties\<close>

text \<open>The report of the tiered matcher is a partition with evidence: every old and every new
definition occurs in exactly one entry; an Unchanged, Modified or Renamed entry pairs definitions of
one kind with the path and body-hash relation that its status names, and Deleted and Added entries
have one side only.\<close>

theorem match_report_partition:
  "mset (List.map_filter mold (match_definitions old new)) = mset [0..<length old] \<and>
   mset (List.map_filter mnew (match_definitions old new)) = mset [0..<length new] \<and>
   list_all (evidence old new) (match_definitions old new)"
  using report_ok [of old new] by (simp add: olds_def news_def)

text \<open>Nothing with evidence is left over: no definition reported Deleted shares its kind and its
path, or its kind and its body hash, with one reported Added.\<close>

theorem match_report_maximal:
  "\<not> (\<exists>i j r r'.
     \<lparr>mold = Some i, mnew = None, status = Deleted, reason = r\<rparr> \<in> set (match_definitions old new) \<and>
     \<lparr>mold = None, mnew = Some j, status = Added, reason = r'\<rparr> \<in> set (match_definitions old new) \<and>
     dkind (old ! i) = dkind (new ! j) \<and>
     (dpath (old ! i) = dpath (new ! j) \<or> dhash (old ! i) = dhash (new ! j)))"
  using report_maximal by blast

text \<open>The third tier of the matcher never matches: no entry carries its reason, and leaving the
pass out gives the same state, because its condition is a special case of the second tier's.\<close>

theorem match_tier3_dead:
  "list_all (\<lambda>m. reason m \<noteq> tier3_reason) (match_definitions old new) \<and>
   (let st = fold (tier2_step old new) [0..<length new] (fold (tier1_step old new) [0..<length new]
      (replicate (length old) False, replicate (length new) False, [])) in
    fold (tier3_step old new) [0..<length new] st = st)"
proof -
  obtain mo mn ms where p: "passes old new = (mo, mn, ms)" by (metis prod_cases3)
  have "list_all pair_entry ms" using passes_pairs [of old new] by (simp add: p pairs_only_def)
  then have "list_all (\<lambda>m. reason m \<noteq> tier3_reason) ms"
    by (auto simp: list_all_iff pair_entry_def tier1_same_def tier1_edited_def tier2_reason_def tier3_reason_def)
  then show ?thesis
    using passes_two [of old new] unfolding match_definitions_passes [OF p]
    by (auto simp: passes_def Let_def list_all_iff deleted_reason_def added_reason_def tier3_reason_def)
qed

text \<open>\<open>join\<close> and \<open>sever\<close> correct identities exactly: a join relabels the members of the second
identity to the first and changes nothing else, and severing an occurrence of any graph built by the
operations gives it an identity that no other occurrence has and leaves the others alone.\<close>

theorem join_sever_exact:
  assumes "g = def_run ops" "join g a b = Inr g1" "sever g occ = Inr (i, g2)"
  shows "identity_of g1 o1 =
      (if identity_of g o1 = identity_of g b then identity_of g a else identity_of g o1) \<and>
    identity_of g2 o1 = (if o1 = occ then Some i else identity_of g o1) \<and> members g2 i = [occ]"
proof -
  have ok: "def_ok g" using assms(1) by (simp add: def_run_ok)
  then have "def_ok g2" using assms(3) by (rule def_ok_sever)
  moreover have "{occ'. identity_of g2 occ' = Some i} = {occ}"
    using minted_fresh [OF ok] identity_of_sever [OF assms(3)] assms(3) [unfolded sever_Inr_iff]
    by (auto split: if_split_asm)
  ultimately have "set (members g2 i) = {occ}" "distinct (members g2 i)" using members_eq by simp_all
  then have "members g2 i = [occ]" by (rule distinct_singleton)
  then show ?thesis using assms identity_of_join identity_of_sever by blast
qed

definition ex_defn :: "string \<Rightarrow> defn" where
  "ex_defn p = \<lparr>dkind = Function, dpath = p, dname = p, byte_range = (0, 1), dhash = ''h''\<rparr>"

lemma join_sever_exact_witness:
  "\<exists>g g1 g2 i. g = def_run [AddDef (ex_defn ''f''), AddDef (ex_defn ''g''), AddDef (ex_defn ''h'')] \<and>
     join g 0 2 = Inr g1 \<and> sever g 1 = Inr (i, g2) \<and>
     identity_of g1 2 = identity_of g 0 \<and> members g2 i = [1]"
proof -
  let ?g = "def_run [AddDef (ex_defn ''f''), AddDef (ex_defn ''g''), AddDef (ex_defn ''h'')]"
  have "map_of (identity ?g) 0 = Some (minted 1)" "map_of (identity ?g) 1 = Some (minted 2)"
    "map_of (identity ?g) 2 = Some (minted 3)"
    by (simp_all add: def_run_def add_def_eq map_of_update new_def_graph_def numeral_2_eq_2 numeral_3_eq_3)
  then obtain g1 g2 i where "join ?g 0 2 = Inr g1" "sever ?g 1 = Inr (i, g2)"
    by (auto simp: join_Inr_iff sever_Inr_iff)
  with join_sever_exact [OF refl this, of 2] show ?thesis by auto
qed

end
