(* ===== verification/Queue.thy ===== *)
theory Queue
  imports Registry Review DefMatch
begin

text \<open>
  Landing, \<open>queue.rs\<close>: the definition-granular support of an edit, the gates of a queue policy and
  the landing of a submission or of a batch. The change graph and the operation log that the code
  mutates are passed and returned, on errors too; \<open>None\<close> is a fold of the log that never returns.
  A \<open>BTreeSet\<close> is a set, a \<open>BTreeMap\<close> an association list in key order. The tree-sitter parse of
  a text and its error flag are parameters, as in \<open>DefMatch\<close>.
\<close>

section \<open>The support of an edit\<close>

definition WHOLE_FILE_SUPPORT :: string where
  "WHOLE_FILE_SUPPORT = CHR 0x00 # ''whole-file''"

definition parses_cleanly ::
  "string option \<Rightarrow> (string \<Rightarrow> node option) \<Rightarrow> (node \<Rightarrow> bool) \<Rightarrow> string \<Rightarrow> identity_error + bool" where
  "parses_cleanly set_language parse has_error source =
     (case set_language of
        Some e \<Rightarrow> Inl (Grammar e)
      | None \<Rightarrow> and_then (ok_or ParseTree (parse source)) (\<lambda>root. Inr (\<not> has_error root)))"

definition rfind :: "char \<Rightarrow> string \<Rightarrow> nat option" where
  "rfind c s = map_option (\<lambda>i. length s - 1 - i) (position (\<lambda>x. x = c) (rev s))"

definition container_shell :: "string \<Rightarrow> string" where
  "container_shell txt =
     (case (position (\<lambda>x. x = CHR ''{'') txt, rfind CHR ''}'' txt) of
        (Some op, Some cl) \<Rightarrow> if op \<le> cl then take (Suc op) txt @ drop cl txt else txt
      | _ \<Rightarrow> txt)"

definition effective_text :: "string \<Rightarrow> defn \<Rightarrow> string" where
  "effective_text src d =
     (let txt = (case str_get (fst (byte_range d)) (snd (byte_range d)) src of Some t \<Rightarrow> t | None \<Rightarrow> []) in
      case dkind d of
        Impl \<Rightarrow> container_shell txt
      | Module \<Rightarrow> container_shell txt
      | Trait \<Rightarrow> container_shell txt
      | _ \<Rightarrow> txt)"

definition effective_texts :: "string \<Rightarrow> defn list \<Rightarrow> (string \<times> string) list" where
  "effective_texts src defs =
     fold (\<lambda>d m. AList.update (kind_label (dkind d) @ '' '' @ dpath d) (effective_text src d) m) defs []"

definition support_of :: "(string \<times> string) list \<Rightarrow> (string \<times> string) list \<Rightarrow> string set" where
  "support_of base_eff new_eff =
     set (map fst (filter (\<lambda>(key, txt). map_of base_eff key \<noteq> Some txt) new_eff)) \<union>
     set (filter (\<lambda>key. map_of new_eff key = None) (map fst base_eff))"

definition rust_support ::
  "(string \<Rightarrow> string) \<Rightarrow> string option \<Rightarrow> (string \<Rightarrow> node option) \<Rightarrow> (node \<Rightarrow> bool) \<Rightarrow>
   string \<Rightarrow> string \<Rightarrow> string set option" where
  "rust_support sha set_language parse has_error base new =
     (if parses_cleanly set_language parse has_error base \<noteq> Inr True \<or>
         parses_cleanly set_language parse has_error new \<noteq> Inr True then None
      else (case extract_definitions sha set_language parse base of
          Inl _ \<Rightarrow> None
        | Inr base_defs \<Rightarrow>
          (case extract_definitions sha set_language parse new of
             Inl _ \<Rightarrow> None
           | Inr new_defs \<Rightarrow>
             Some (support_of (effective_texts base base_defs) (effective_texts new new_defs)))))"

section \<open>Landing\<close>

record queue_gates =
  carried_values :: nat
  validated :: "bool option"

record land_result =
  submission_id :: submission_id
  landed_changes :: "change_id list"
  message :: string

definition queue_ref :: "string \<Rightarrow> change_id \<Rightarrow> string" where
  "queue_ref queue c =
     (if queue = ''trunk'' then ''public/'' @ c else ''public/'' @ queue @ ''/'' @ c)"

type_synonym 'a landing = "(work_error + 'a) \<times> change_graph \<times> op_log"

text \<open>
  The loop that both landing functions share in shape, with the ref of a change and the
  note of its operation: look the change up, publish a draft, record the tip under the ref.
\<close>

fun land_loop ::
  "(change_id \<Rightarrow> string) \<Rightarrow> (change_id \<Rightarrow> string) \<Rightarrow> change_id list \<Rightarrow> change_graph \<Rightarrow> op_log \<Rightarrow>
   change_id list \<Rightarrow> (change_id list) landing option" where
  "land_loop ref_of note_of [] g log landed = Some (Inr landed, g, log)"
| "land_loop ref_of note_of (c # cs) g log landed =
     (case change_of g c of
        None \<Rightarrow> Some (Inl (UnknownChangeW c), g, log)
      | Some ch \<Rightarrow>
        (case (if phase_of ch = Draft then set_phase g c Public else Inr g) of
           Inl e \<Rightarrow> Some (Inl (Identity e), g, log)
         | Inr g' \<Rightarrow>
           (case refs_now log of
              None \<Rightarrow> None
            | Some refs \<Rightarrow>
                land_loop ref_of note_of cs g'
                  (append_op log (SetRef (ref_of c) (refs (ref_of c)) (tip g' c)) (Some (note_of c)))
                  (landed @ [c]))))"

definition land_submission ::
  "submission \<Rightarrow> change_graph \<Rightarrow> op_log \<Rightarrow> land_result landing option" where
  "land_submission s g log =
     (if \<not> is_approved s then Some (Inl (SubmissionNotApproved (sub_id s)), g, log)
      else map_option (\<lambda>(res, g', log').
          (and_then res (\<lambda>landed. Inr \<lparr>submission_id = sub_id s, landed_changes = landed,
             message = ''Submission '' @ sub_id s @ '' landed successfully''\<rparr>), g', log'))
        (land_loop (\<lambda>c. ''public/'' @ c) (\<lambda>c. ''land change '' @ c) (sub_changes s) g log []))"

definition validation_reason :: "bool option \<Rightarrow> string" where
  "validation_reason v = (case v of Some False \<Rightarrow> ''validator exited non-zero'' | _ \<Rightarrow> ''validator was not run'')"

definition queue_note :: "string \<Rightarrow> change_id \<Rightarrow> string" where
  "queue_note queue c =
     (if queue = ''trunk'' then ''land change '' @ c
      else ''land change '' @ c @ '' (queue '' @ queue @ '')'')"

definition carried_note :: "nat \<Rightarrow> string" where
  "carried_note n = (if 0 < n then '', carrying '' @ show_nat n @ '' conflict value(s)'' else [])"

definition land_submission_in_queue ::
  "submission \<Rightarrow> queue_policy \<Rightarrow> queue_gates \<Rightarrow> change_graph \<Rightarrow> op_log \<Rightarrow> land_result landing option" where
  "land_submission_in_queue s policy gates g log =
     (if require_approval policy \<and> \<not> is_approved s then
        Some (Inl (SubmissionNotApproved (sub_id s)), g, log)
      else if 0 < carried_values gates \<and> \<not> allow_carried policy then
        Some (Inl (QueueCarriedRefused (queue_name policy) (carried_values gates)), g, log)
      else if validate policy \<noteq> None \<and> validated gates \<noteq> Some True then
        Some (Inl (QueueValidationFailed (queue_name policy) (validation_reason (validated gates))), g, log)
      else map_option (\<lambda>(res, g', log').
          (and_then res (\<lambda>landed. Inr \<lparr>submission_id = sub_id s, landed_changes = landed,
             message = ''Submission '' @ sub_id s @ '' landed in queue '' @ queue_name policy
               @ carried_note (carried_values gates)\<rparr>), g', log'))
        (land_loop (queue_ref (queue_name policy)) (queue_note (queue_name policy)) (sub_changes s) g log []))"

section \<open>Batches\<close>

type_synonym manifest = "(string \<times> string set) list"

record batch_gates =
  manifests :: "(submission_id \<times> manifest) list"
  batch_carried :: nat
  batch_validated :: "bool option"

definition colliding :: "manifest \<Rightarrow> manifest \<Rightarrow> string list" where
  "colliding man_a man_b =
     concat (map (\<lambda>(path, support_a).
       (case map_of man_b path of
          None \<Rightarrow> []
        | Some support_b \<Rightarrow>
            map (\<lambda>d. if d = WHOLE_FILE_SUPPORT then path else path @ '' ('' @ d @ '')'')
              (sorted_list_of_set (support_a \<inter> support_b)))) man_a)"

fun overlap_with :: "submission_id \<Rightarrow> manifest \<Rightarrow> (submission_id \<times> manifest) list \<Rightarrow> work_error option" where
  "overlap_with id_a man_a [] = None"
| "overlap_with id_a man_a ((id_b, man_b) # rest) =
     (if colliding man_a man_b \<noteq> [] then Some (BatchOverlap id_a id_b (sort (colliding man_a man_b)))
      else overlap_with id_a man_a rest)"

fun first_overlap :: "(submission_id \<times> manifest) list \<Rightarrow> work_error option" where
  "first_overlap [] = None"
| "first_overlap ((id_a, man_a) # rest) =
     (case overlap_with id_a man_a rest of Some e \<Rightarrow> Some e | None \<Rightarrow> first_overlap rest)"

fun land_all ::
  "submission list \<Rightarrow> queue_policy \<Rightarrow> queue_gates \<Rightarrow> change_graph \<Rightarrow> op_log \<Rightarrow> land_result list \<Rightarrow>
   (land_result list) landing option" where
  "land_all [] policy gates g log results = Some (Inr results, g, log)"
| "land_all (s # ss) policy gates g log results =
     (case land_submission_in_queue s policy gates g log of
        None \<Rightarrow> None
      | Some (Inl e, g', log') \<Rightarrow> Some (Inl e, g', log')
      | Some (Inr r, g', log') \<Rightarrow> land_all ss policy gates g' log' (results @ [r]))"

definition land_batch_in_queue ::
  "submission list \<Rightarrow> queue_policy \<Rightarrow> batch_gates \<Rightarrow> change_graph \<Rightarrow> op_log \<Rightarrow>
   (land_result list) landing option" where
  "land_batch_in_queue ss policy gates g log =
     (case (if require_approval policy then find (\<lambda>s. \<not> is_approved s) ss else None) of
        Some s \<Rightarrow> Some (Inl (SubmissionNotApproved (sub_id s)), g, log)
      | None \<Rightarrow>
        (case first_overlap (manifests gates) of
           Some e \<Rightarrow> Some (Inl e, g, log)
         | None \<Rightarrow>
           if 0 < batch_carried gates \<and> \<not> allow_carried policy then
             Some (Inl (QueueCarriedRefused (queue_name policy) (batch_carried gates)), g, log)
           else if validate policy \<noteq> None \<and> batch_validated gates \<noteq> Some True then
             Some (Inl (QueueValidationFailed (queue_name policy) (validation_reason (batch_validated gates))), g, log)
           else land_all ss policy
             \<lparr>carried_values = batch_carried gates, validated = batch_validated gates\<rparr> g log []))"

section \<open>Lemmas\<close>

lemma set_phase_Public:
  assumes "change_of g c = Some ch"
  shows "set_phase g c Public = Inr (g\<lparr>changes := AList.update c (ch\<lparr>phase_of := Public\<rparr>) (changes g)\<rparr>)"
  using assms by (simp add: set_phase_def change_of_def)

lemma publish_step:
  assumes "change_of g c = Some ch"
  shows "\<exists>g'. (if phase_of ch = Draft then set_phase g c Public else Inr g) = Inr g' \<and>
    change_of g' = (change_of g)(c \<mapsto> ch\<lparr>phase_of := Public\<rparr>) \<and> tip g' = tip g \<and>
    superseded_by g' = superseded_by g \<and> commit_owner g' = commit_owner g"
proof (cases "phase_of ch")
  case Draft
  let ?g = "g\<lparr>changes := AList.update c (ch\<lparr>phase_of := Public\<rparr>) (changes g)\<rparr>"
  have "tip ?g = tip g"
    using assms by (auto simp: tip_def change_of_def map_of_update fun_eq_iff split: option.splits list.splits)
  moreover have "change_of ?g = (change_of g)(c \<mapsto> ch\<lparr>phase_of := Public\<rparr>)"
    by (auto simp: change_of_def map_of_update)
  ultimately show ?thesis using Draft set_phase_Public [OF assms] by auto
next
  case Public
  then have "change_of g = (change_of g)(c \<mapsto> ch\<lparr>phase_of := Public\<rparr>)" using assms by auto
  then show ?thesis using Public by auto
qed

definition publish :: "change_id set \<Rightarrow> (change_id \<rightharpoonup> change) \<Rightarrow> change_id \<rightharpoonup> change" where
  "publish cs m = (\<lambda>c. if c \<in> cs then map_option (\<lambda>ch. ch\<lparr>phase_of := Public\<rparr>) (m c) else m c)"

lemma land_loop_ok:
  assumes "log_built log" "\<forall>c\<in>set cs. change_of g c \<noteq> None" "length (ops log) + length cs < 2 ^ 64"
    "refs_now log = Some refs"
  shows "\<exists>g' log'. land_loop ref_of note_of cs g log acc = Some (Inr (acc @ cs), g', log') \<and>
    log_built log' \<and> length (ops log') = length (ops log) + length cs \<and>
    take (length (ops log)) (ops log') = ops log \<and>
    change_of g' = publish (set cs) (change_of g) \<and> tip g' = tip g \<and>
    refs_now log' = Some (fold (\<lambda>c r. r(ref_of c := tip g c)) cs refs)"
  using assms
proof (induction cs arbitrary: g log acc refs)
  case Nil
  then show ?case by (simp add: publish_def)
next
  case (Cons c cs)
  obtain ch where ch: "change_of g c = Some ch" using Cons.prems(2) by auto
  obtain g1 where g1: "(if phase_of ch = Draft then set_phase g c Public else Inr g) = Inr g1"
    "change_of g1 = (change_of g)(c \<mapsto> ch\<lparr>phase_of := Public\<rparr>)" "tip g1 = tip g"
    using publish_step [OF ch] by blast
  let ?k = "SetRef (ref_of c) (refs (ref_of c)) (tip g1 c)"
  let ?log1 = "append_op log ?k (Some (note_of c))"
  have built: "log_built ?log1"
    unfolding append_op_def by (intro log_append Cons.prems(1)) (simp add: undo_target_def)
  have len: "length (ops ?log1) = Suc (length (ops log))" by (simp add: append_op_def)
  have pre: "take (length (ops log)) (ops ?log1) = ops log" by (simp add: append_op_def append_at_def)
  have "apply_refs ?k refs = refs(ref_of c := tip g1 c)"
    by (simp add: apply_refs_def split: option.splits)
  then have refs1: "refs_now ?log1 = Some (refs(ref_of c := tip g1 c))"
    using refs_now_append [OF Cons.prems(1), of ?k "Some (note_of c)"] Cons.prems(3,4)
    by (auto simp: undo_target_def simp del: fun_upd_apply)
  have known: "\<forall>c\<in>set cs. change_of g1 c \<noteq> None" using Cons.prems(2) by (simp add: g1(2))
  from Cons.IH [OF built known _ refs1, of "acc @ [c]"] Cons.prems(3) len
  obtain g' log' where IH: "land_loop ref_of note_of cs g1 ?log1 (acc @ [c]) = Some (Inr ((acc @ [c]) @ cs), g', log')"
    "log_built log'" "length (ops log') = length (ops ?log1) + length cs"
    "take (length (ops ?log1)) (ops log') = ops ?log1"
    "change_of g' = publish (set cs) (change_of g1)" "tip g' = tip g1"
    "refs_now log' = Some (fold (\<lambda>c r. r(ref_of c := tip g1 c)) cs (refs(ref_of c := tip g1 c)))"
    by (auto simp del: fun_upd_apply)
  have "take (length (ops log)) (ops log') = ops log"
    using arg_cong [OF IH(4), of "take (length (ops log))"] by (simp add: len pre)
  moreover have "publish (set cs) (change_of g1) = publish (set (c # cs)) (change_of g)"
    by (auto simp: publish_def g1(2) ch)
  ultimately show ?case
    using IH g1(1,3) ch Cons.prems(4) len by (simp del: fun_upd_apply)
qed

lemma fold_refs_other:
  "x \<notin> f ` set cs \<Longrightarrow> fold (\<lambda>c r. r(f c := v c)) cs r x = r x"
  by (induction cs arbitrary: r) auto

lemma fold_refs_landed:
  "inj f \<Longrightarrow> c \<in> set cs \<Longrightarrow> fold (\<lambda>c r. r(f c := v c)) cs r (f c) = v c"
proof (induction cs arbitrary: r)
  case (Cons d cs)
  show ?case
  proof (cases "c \<in> set cs")
    case False
    then have "f c \<notin> f ` set cs" using Cons.prems(1) by (auto dest: injD)
    then show ?thesis using Cons.prems(2) False by (simp add: fold_refs_other del: fun_upd_apply) simp
  qed (simp add: Cons del: fun_upd_apply)
qed simp

lemma queue_ref_inj: "inj (queue_ref q)"
  by (rule injI) (auto simp: queue_ref_def split: if_splits)

definition landed_refs :: "string \<Rightarrow> change_id set \<Rightarrow> (change_id \<Rightarrow> commit_id option) \<Rightarrow> refs \<Rightarrow> refs" where
  "landed_refs q cs tips r = (\<lambda>x. if x \<in> queue_ref q ` cs then tips (the_inv (queue_ref q) x) else r x)"

lemma fold_landed_refs:
  "fold (\<lambda>c r. r(queue_ref q c := tips c)) cs r = landed_refs q (set cs) tips r"
  by (rule ext) (auto simp: landed_refs_def fold_refs_other fold_refs_landed queue_ref_inj the_inv_f_f)

lemma landed_refs_Un: "landed_refs q A t (landed_refs q B t r) = landed_refs q (A \<union> B) t r"
  by (rule ext) (auto simp: landed_refs_def)

lemma publish_Un: "publish A (publish B m) = publish (A \<union> B) m"
  by (rule ext) (auto simp: publish_def option.map_comp o_def)

lemma publish_None_iff [simp]: "publish A m c = None \<longleftrightarrow> m c = None"
  by (simp add: publish_def)

lemma landed_refs_at [simp]: "c \<in> cs \<Longrightarrow> landed_refs q cs t r (queue_ref q c) = t c"
  by (simp add: landed_refs_def the_inv_f_f queue_ref_inj)

lemma landed_refs_elsewhere: "x \<notin> queue_ref q ` cs \<Longrightarrow> landed_refs q cs t r x = r x"
  by (simp add: landed_refs_def)

definition gates_pass :: "queue_policy \<Rightarrow> nat \<Rightarrow> bool option \<Rightarrow> bool" where
  "gates_pass policy carried verdict \<longleftrightarrow>
     (carried = 0 \<or> allow_carried policy) \<and> (validate policy = None \<or> verdict = Some True)"

lemma land_in_queue_ok:
  assumes "require_approval policy \<longrightarrow> is_approved s" "gates_pass policy (carried_values gates) (validated gates)"
    and "log_built log" "\<forall>c\<in>set (sub_changes s). change_of g c \<noteq> None"
    and "length (ops log) + length (sub_changes s) < 2 ^ 64" "refs_now log = Some refs"
  shows "\<exists>r g' log'. land_submission_in_queue s policy gates g log = Some (Inr r, g', log') \<and>
    submission_id r = sub_id s \<and> landed_changes r = sub_changes s \<and>
    log_built log' \<and> length (ops log') = length (ops log) + length (sub_changes s) \<and>
    take (length (ops log)) (ops log') = ops log \<and>
    change_of g' = publish (set (sub_changes s)) (change_of g) \<and> tip g' = tip g \<and>
    refs_now log' = Some (landed_refs (queue_name policy) (set (sub_changes s)) (tip g) refs)"
proof -
  obtain g' log' where l: "land_loop (queue_ref (queue_name policy)) (queue_note (queue_name policy))
      (sub_changes s) g log [] = Some (Inr (sub_changes s), g', log')"
    "log_built log'" "length (ops log') = length (ops log) + length (sub_changes s)"
    "take (length (ops log)) (ops log') = ops log"
    "change_of g' = publish (set (sub_changes s)) (change_of g)" "tip g' = tip g"
    "refs_now log' = Some (landed_refs (queue_name policy) (set (sub_changes s)) (tip g) refs)"
    using land_loop_ok [OF assms(3-6), of "queue_ref (queue_name policy)" "queue_note (queue_name policy)" "[]"]
    by (auto simp: fold_landed_refs simp del: fun_upd_apply)
  have "\<not> (require_approval policy \<and> \<not> is_approved s)"
    "\<not> (0 < carried_values gates \<and> \<not> allow_carried policy)"
    "\<not> (validate policy \<noteq> None \<and> validated gates \<noteq> Some True)"
    using assms(1,2) by (auto simp: gates_pass_def)
  then show ?thesis using l by (simp add: land_submission_in_queue_def)
qed

lemma land_all_ok:
  assumes "\<forall>s\<in>set ss. require_approval policy \<longrightarrow> is_approved s"
    "gates_pass policy (carried_values gates) (validated gates)"
    and "log_built log" "\<forall>s\<in>set ss. \<forall>c\<in>set (sub_changes s). change_of g c \<noteq> None"
    and "length (ops log) + length (concat (map sub_changes ss)) < 2 ^ 64" "refs_now log = Some refs"
  shows "\<exists>rs g' log'. land_all ss policy gates g log acc = Some (Inr (acc @ rs), g', log') \<and>
    map submission_id rs = map sub_id ss \<and> map landed_changes rs = map sub_changes ss \<and>
    log_built log' \<and> take (length (ops log)) (ops log') = ops log \<and>
    change_of g' = publish (set (concat (map sub_changes ss))) (change_of g) \<and> tip g' = tip g \<and>
    refs_now log' = Some (landed_refs (queue_name policy) (set (concat (map sub_changes ss))) (tip g) refs)"
  using assms
proof (induction ss arbitrary: g log acc refs)
  case Nil
  then show ?case by (simp add: publish_def landed_refs_def)
next
  case (Cons s ss)
  have "require_approval policy \<longrightarrow> is_approved s" "\<forall>c\<in>set (sub_changes s). change_of g c \<noteq> None"
    "length (ops log) + length (sub_changes s) < 2 ^ 64"
    using Cons.prems(1,4,5) by auto
  then obtain r g1 log1 where r: "land_submission_in_queue s policy gates g log = Some (Inr r, g1, log1)"
    "submission_id r = sub_id s" "landed_changes r = sub_changes s" "log_built log1"
    "length (ops log1) = length (ops log) + length (sub_changes s)"
    "take (length (ops log)) (ops log1) = ops log"
    "change_of g1 = publish (set (sub_changes s)) (change_of g)" "tip g1 = tip g"
    "refs_now log1 = Some (landed_refs (queue_name policy) (set (sub_changes s)) (tip g) refs)"
    using land_in_queue_ok [of policy s gates log g refs] Cons.prems(2,3,6) by blast
  have "\<forall>s\<in>set ss. \<forall>c\<in>set (sub_changes s). change_of g1 c \<noteq> None"
    "\<forall>s\<in>set ss. require_approval policy \<longrightarrow> is_approved s"
    "length (ops log1) + length (concat (map sub_changes ss)) < 2 ^ 64"
    using Cons.prems(1,4,5) r(5,7) by auto
  then obtain rs g' log' where rs: "land_all ss policy gates g1 log1 (acc @ [r]) = Some (Inr ((acc @ [r]) @ rs), g', log')"
    "map submission_id rs = map sub_id ss" "map landed_changes rs = map sub_changes ss"
    "log_built log'" "take (length (ops log1)) (ops log') = ops log1"
    "change_of g' = publish (set (concat (map sub_changes ss))) (change_of g1)" "tip g' = tip g1"
    "refs_now log' = Some (landed_refs (queue_name policy) (set (concat (map sub_changes ss))) (tip g1)
       (landed_refs (queue_name policy) (set (sub_changes s)) (tip g) refs))"
    using Cons.IH [of log1 g1 _ "acc @ [r]"] Cons.prems(2) r(4,9) by blast
  have "take (length (ops log)) (ops log') = ops log"
    using arg_cong [OF rs(5), of "take (length (ops log))"] r(5,6) by (simp add: min_absorb1)
  then show ?case using r rs
    by (simp add: landed_refs_Un publish_Un Un_commute)
qed

lemma colliding_Nil_iff:
  assumes "\<forall>(p, sup)\<in>set man_a. finite sup"
  shows "colliding man_a man_b = [] \<longleftrightarrow>
    (\<forall>(p, sa)\<in>set man_a. \<forall>sb. map_of man_b p = Some sb \<longrightarrow> sa \<inter> sb = {})"
  using assms by (fastforce simp: colliding_def split: option.splits)

lemma overlap_with_None_iff:
  "overlap_with i man_a rest = None \<longleftrightarrow> (\<forall>m\<in>set rest. colliding man_a (snd m) = [])"
  by (induction rest) (auto split: if_splits)

lemma first_overlap_None_iff:
  "first_overlap ms = None \<longleftrightarrow> sorted_wrt (\<lambda>a b. colliding (snd a) (snd b) = []) ms"
proof (induction ms)
  case (Cons m ms)
  obtain i man where m: "m = (i, man)" by (cases m)
  show ?case
    using Cons overlap_with_None_iff [of i man ms] by (cases "overlap_with i man ms") (auto simp: m)
qed simp

lemma land_batch_Some:
  assumes "land_batch_in_queue ss policy gates g log = Some (res, g', log')"
    and "is_ok res \<or> (g', log') \<noteq> (g, log)"
  shows "(require_approval policy \<longrightarrow> (\<forall>s\<in>set ss. is_approved s)) \<and> first_overlap (manifests gates) = None \<and>
    gates_pass policy (batch_carried gates) (batch_validated gates)"
  using assms
  by (auto simp: land_batch_in_queue_def gates_pass_def is_ok_iff find_None_iff split: option.splits if_splits)

lemma batch_approved:
  "\<forall>s\<in>set ss. require_approval policy \<longrightarrow> is_approved s \<Longrightarrow>
   (if require_approval policy then find (\<lambda>s. \<not> is_approved s) ss else None) = None"
  by (auto simp: find_None_iff)

lemma land_batch_passes:
  assumes "\<forall>s\<in>set ss. require_approval policy \<longrightarrow> is_approved s" "first_overlap (manifests gates) = None"
    "gates_pass policy (batch_carried gates) (batch_validated gates)"
  shows "land_batch_in_queue ss policy gates g log =
    land_all ss policy \<lparr>carried_values = batch_carried gates, validated = batch_validated gates\<rparr> g log []"
  unfolding land_batch_in_queue_def batch_approved [OF assms(1)]
  using assms(2,3) by (auto simp: gates_pass_def)

lemma overlap_with_error: "overlap_with i man rest = Some e \<Longrightarrow> \<exists>a b paths. e = BatchOverlap a b paths"
  by (induction rest) (auto split: if_splits)

lemma first_overlap_error: "first_overlap ms = Some e \<Longrightarrow> \<exists>a b paths. e = BatchOverlap a b paths"
  by (induction ms rule: first_overlap.induct) (auto split: option.splits dest: overlap_with_error)

section \<open>Properties\<close>

text \<open>C9: Nothing lands past a gate: when a landing into a queue succeeds, or changes the graph
  or the log at all, the submission is approved if the policy asks for it, no conflict value is
  carried into a strict queue and a configured validator has passed. A refusal by a gate leaves
  both as they were.\<close>
theorem no_ungated_landing:
  assumes "land_submission_in_queue s policy gates g log = Some (res, g', log')"
    and "is_ok res \<or> (g', log') \<noteq> (g, log)"
  shows "(require_approval policy \<longrightarrow> is_approved s) \<and>
    (allow_carried policy \<or> carried_values gates = 0) \<and>
    (validate policy = None \<or> validated gates = Some True)"
  using assms
  by (auto simp: land_submission_in_queue_def is_ok_iff split: if_splits)

definition ch1 :: change_graph where
  "ch1 = \<lparr>changes = [(''c1'', \<lparr>change_id = ''c1'', revisions = [''r1''], phase_of = Draft\<rparr>)],
     commit_owner = [(''r1'', ''c1'')], superseded_by = []\<rparr>"

definition sub1 :: submission where
  "sub1 = approve (new_submission ''s1'' ''t'' [''c1''] ''a'') ''bob''"

lemma new_log_refs: "refs_now new_log = Some Map.empty"
  by (simp add: refs_now_eq new_log_def fold_act_def)

lemma sub1_facts:
  "is_approved sub1" "sub_changes sub1 = [''c1'']" "queue_name trunk = ''trunk''"
  "require_approval trunk" "allow_carried trunk" "validate trunk = None"
  "tip ch1 ''c1'' = Some ''r1''" "change_of ch1 ''c1'' \<noteq> None" "ops new_log = []"
  "queue_ref ''trunk'' ''c1'' = ''public/c1''"
  by code_simp+

lemma sub1_lands:
  "\<exists>r g' log'. land_submission_in_queue sub1 trunk \<lparr>carried_values = 2, validated = None\<rparr> ch1 new_log
     = Some (Inr r, g', log')"
  using land_in_queue_ok [of trunk sub1 "\<lparr>carried_values = 2, validated = None\<rparr>" new_log ch1 Map.empty]
    log_empty new_log_refs sub1_facts
  by (auto simp: gates_pass_def)

lemma no_ungated_landing_witness: "is_approved sub1"
proof -
  obtain r g' log' where "land_submission_in_queue sub1 trunk \<lparr>carried_values = 2, validated = None\<rparr> ch1 new_log
     = Some (Inr r, g', log')" using sub1_lands by blast
  from no_ungated_landing [OF this] show ?thesis by (simp add: is_ok_iff sub1_facts)
qed

text \<open>What a landing does: when the gates pass and every change is known, the landing of a
  submission into a queue succeeds; the changes of the submission, and no others, become public,
  the tip of each is recorded under its ref in that queue, every other ref keeps its value, and
  the log only grows.\<close>
theorem landing_effect:
  assumes "require_approval policy \<longrightarrow> is_approved s"
    and "(carried_values gates = 0 \<or> allow_carried policy) \<and> (validate policy = None \<or> validated gates = Some True)"
    and "log_built log" "\<forall>c\<in>set (sub_changes s). change_of g c \<noteq> None"
    and "length (ops log) + length (sub_changes s) < 2 ^ 64"
  shows "\<exists>r g' log' refs refs'.
    land_submission_in_queue s policy gates g log = Some (Inr r, g', log') \<and>
    landed_changes r = sub_changes s \<and>
    (\<forall>c. change_of g' c = (if c \<in> set (sub_changes s)
        then map_option (\<lambda>ch. ch\<lparr>phase_of := Public\<rparr>) (change_of g c) else change_of g c)) \<and>
    log_built log' \<and> take (length (ops log)) (ops log') = ops log \<and>
    refs_now log = Some refs \<and> refs_now log' = Some refs' \<and>
    (\<forall>c\<in>set (sub_changes s). refs' (queue_ref (queue_name policy) c) = tip g c) \<and>
    (\<forall>x. x \<notin> queue_ref (queue_name policy) ` set (sub_changes s) \<longrightarrow> refs' x = refs x)"
proof -
  have "refs_now log = Some (fold_act (ops log))"
    using log_built_ok [OF assms(3)] assms(5) by (simp add: refs_now_eq)
  moreover have "gates_pass policy (carried_values gates) (validated gates)"
    using assms(2) by (simp add: gates_pass_def)
  ultimately obtain r g' log' where
    "land_submission_in_queue s policy gates g log = Some (Inr r, g', log')"
    "landed_changes r = sub_changes s" "log_built log'"
    "take (length (ops log)) (ops log') = ops log"
    "change_of g' = publish (set (sub_changes s)) (change_of g)"
    "refs_now log' = Some (landed_refs (queue_name policy) (set (sub_changes s)) (tip g) (fold_act (ops log)))"
    using land_in_queue_ok [OF assms(1) _ assms(3-5)] by blast
  with \<open>refs_now log = _\<close> show ?thesis
    by (auto simp: publish_def landed_refs_elsewhere)
qed

lemma landing_effect_witness:
  "\<exists>r g' log' refs'. land_submission_in_queue sub1 trunk \<lparr>carried_values = 0, validated = None\<rparr> ch1 new_log
     = Some (Inr r, g', log') \<and> refs_now log' = Some refs' \<and> refs' ''public/c1'' = Some ''r1'' \<and>
     map_option phase_of (change_of g' ''c1'') = Some Public"
  using landing_effect [of trunk sub1 "\<lparr>carried_values = 0, validated = None\<rparr>" new_log ch1]
    log_empty sub1_facts by fastforce

text \<open>C10: Batch landing: the batch succeeds when every gate passes and no two manifests collide,
  its submissions land as one (all their changes public, all their tips recorded), and the
  order within the batch carries no meaning: any rearrangement of the submissions gives the same
  phases and the same refs.\<close>
theorem batch_landing_order:
  assumes "\<forall>s\<in>set ss. require_approval policy \<longrightarrow> is_approved s" "first_overlap (manifests gates) = None"
    and "batch_carried gates = 0 \<or> allow_carried policy" "validate policy = None \<or> batch_validated gates = Some True"
    and "log_built log" "\<forall>s\<in>set ss. \<forall>c\<in>set (sub_changes s). change_of g c \<noteq> None"
    and "length (ops log) + length (concat (map sub_changes ss)) < 2 ^ 64" "mset ss' = mset ss"
  shows "\<exists>rs g1 log1 rs' g2 log2.
    land_batch_in_queue ss policy gates g log = Some (Inr rs, g1, log1) \<and>
    land_batch_in_queue ss' policy gates g log = Some (Inr rs', g2, log2) \<and>
    map submission_id rs = map sub_id ss \<and> map submission_id rs' = map sub_id ss' \<and>
    (\<forall>s\<in>set ss. \<forall>c\<in>set (sub_changes s). map_option phase_of (change_of g1 c) = Some Public) \<and>
    change_of g2 = change_of g1 \<and> refs_now log1 \<noteq> None \<and> refs_now log2 = refs_now log1"
proof -
  let ?gates = "\<lparr>carried_values = batch_carried gates, validated = batch_validated gates\<rparr>"
  have refs: "refs_now log = Some (fold_act (ops log))"
    using log_built_ok [OF assms(5)] assms(7) by (simp add: refs_now_eq)
  have gp: "gates_pass policy (carried_values ?gates) (validated ?gates)"
    using assms(3,4) by (simp add: gates_pass_def)
  have sets: "set ss' = set ss" using assms(8) by (metis set_mset_mset)
  have "sum_mset (mset (map (\<lambda>s. length (sub_changes s)) ss')) = sum_mset (mset (map (\<lambda>s. length (sub_changes s)) ss))"
    using assms(8) by simp
  then have len: "length (concat (map sub_changes ss')) = length (concat (map sub_changes ss))"
    by (simp only: length_concat sum_mset_sum_list map_map o_def)
  have batch: "land_batch_in_queue qs policy gates g log = land_all qs policy ?gates g log []"
    if "set qs = set ss" for qs
    using land_batch_passes [of qs policy gates] assms(1,2) gp that by simp
  obtain rs g1 log1 where 1: "land_all ss policy ?gates g log [] = Some (Inr ([] @ rs), g1, log1)"
    "map submission_id rs = map sub_id ss"
    "change_of g1 = publish (set (concat (map sub_changes ss))) (change_of g)"
    "refs_now log1 = Some (landed_refs (queue_name policy) (set (concat (map sub_changes ss))) (tip g) (fold_act (ops log)))"
    using land_all_ok [OF assms(1) gp assms(5-7) refs] by blast
  have "\<forall>s\<in>set ss'. require_approval policy \<longrightarrow> is_approved s"
    "\<forall>s\<in>set ss'. \<forall>c\<in>set (sub_changes s). change_of g c \<noteq> None"
    "length (ops log) + length (concat (map sub_changes ss')) < 2 ^ 64"
    using assms(1,6,7) len sets by simp_all
  from land_all_ok [OF this(1) gp assms(5) this(2,3) refs]
  obtain rs' g2 log2 where 2: "land_all ss' policy ?gates g log [] = Some (Inr ([] @ rs'), g2, log2)"
    "map submission_id rs' = map sub_id ss'"
    "change_of g2 = publish (set (concat (map sub_changes ss'))) (change_of g)"
    "refs_now log2 = Some (landed_refs (queue_name policy) (set (concat (map sub_changes ss'))) (tip g) (fold_act (ops log)))"
    by blast
  have eq: "set (concat (map sub_changes ss')) = set (concat (map sub_changes ss))" by (simp add: sets)
  have public: "map_option phase_of (change_of g1 c) = Some Public"
    if "s \<in> set ss" "c \<in> set (sub_changes s)" for s c
  proof -
    have "change_of g c \<noteq> None" using bspec [OF bspec [OF assms(6) that(1)] that(2)] .
    then obtain ch where "change_of g c = Some ch" by blast
    moreover have "c \<in> set (concat (map sub_changes ss))" using that by auto
    ultimately show ?thesis by (simp only: 1(3) publish_def if_True) simp
  qed
  have "land_batch_in_queue ss policy gates g log = Some (Inr rs, g1, log1)"
    using 1(1) batch [OF refl] by simp
  moreover have "land_batch_in_queue ss' policy gates g log = Some (Inr rs', g2, log2)"
    using 2(1) batch [OF sets] by simp
  moreover have "change_of g2 = change_of g1" "refs_now log2 = refs_now log1" "refs_now log1 \<noteq> None"
    by (simp_all only: 1(3,4) 2(3,4) eq) simp
  ultimately show ?thesis using 1(2) 2(2) public by blast
qed

definition sub2 :: submission where
  "sub2 = new_submission ''s2'' ''t'' [''c1''] ''a''"

lemma batch_landing_order_witness:
  "\<exists>rs g1 log1. land_batch_in_queue [sub2, sub1] (trunk\<lparr>require_approval := False\<rparr>)
     \<lparr>manifests = [(''s1'', [(''a.rs'', {''fn f''})]), (''s2'', [(''a.rs'', {''fn g''})])],
      batch_carried = 0, batch_validated = None\<rparr> ch1 new_log = Some (Inr rs, g1, log1) \<and>
     map submission_id rs = [''s2'', ''s1'']"
proof -
  let ?gates = "\<lparr>manifests = [(''s1'', [(''a.rs'', {''fn f''})]), (''s2'', [(''a.rs'', {''fn g''})])],
      batch_carried = 0, batch_validated = None\<rparr>"
  have "first_overlap (manifests ?gates) = None" by (simp add: first_overlap_None_iff colliding_def)
  moreover have "sub_changes sub2 = [''c1'']" "sub_id sub2 = ''s2''" "sub_id sub1 = ''s1''"
    by (simp_all add: sub1_def sub2_def new_submission_def approve_def)
  ultimately show ?thesis
    using batch_landing_order [of "[sub1, sub2]" "trunk\<lparr>require_approval := False\<rparr>" ?gates new_log ch1 "[sub2, sub1]"]
      log_empty sub1_facts by force
qed

text \<open>A batch is refused with a named pair exactly when two manifests share a definition of a path.\<close>
lemma batch_overlap_iff:
  assumes "\<forall>s\<in>set ss. require_approval policy \<longrightarrow> is_approved s"
    and "\<forall>(i, man)\<in>set (manifests gates). \<forall>(p, sup)\<in>set man. finite sup"
  shows "(\<exists>a b paths. land_batch_in_queue ss policy gates g log = Some (Inl (BatchOverlap a b paths), g, log)) \<or>
    sorted_wrt (\<lambda>a b. \<forall>(p, sa)\<in>set (snd a). \<forall>sb. map_of (snd b) p = Some sb \<longrightarrow> sa \<inter> sb = {}) (manifests gates)"
proof (cases "first_overlap (manifests gates)")
  case None
  have "sorted_wrt (\<lambda>a b. \<forall>(p, sa)\<in>set (snd a). \<forall>sb. map_of (snd b) p = Some sb \<longrightarrow> sa \<inter> sb = {}) (manifests gates)"
    using None [unfolded first_overlap_None_iff]
  proof (rule sorted_wrt_mono_rel [rotated])
    fix a b assume "a \<in> set (manifests gates)" "colliding (snd a) (snd b) = []"
    moreover have "\<forall>(p, sup)\<in>set (snd a). finite sup"
      using assms(2) \<open>a \<in> set (manifests gates)\<close> by (cases a) auto
    ultimately show "\<forall>(p, sa)\<in>set (snd a). \<forall>sb. map_of (snd b) p = Some sb \<longrightarrow> sa \<inter> sb = {}"
      by (simp add: colliding_Nil_iff)
  qed
  then show ?thesis by blast
next
  case (Some e)
  then obtain a b paths where "e = BatchOverlap a b paths" using first_overlap_error by blast
  then have "land_batch_in_queue ss policy gates g log = Some (Inl (BatchOverlap a b paths), g, log)"
    unfolding land_batch_in_queue_def batch_approved [OF assms(1)] using Some by simp
  then show ?thesis by blast
qed

text \<open>
  A landing that fails on an unknown change has already published the changes before it and
  logged their refs, in the graph and the log of the caller.
\<close>
lemma refused_landing_mutates:
  "\<exists>g' log'. land_submission_in_queue (sub1\<lparr>sub_changes := [''c1'', ''zz'']\<rparr>) trunk
      \<lparr>carried_values = 0, validated = None\<rparr> ch1 new_log
    = Some (Inl (UnknownChangeW ''zz''), g', log') \<and> g' \<noteq> ch1 \<and> log' \<noteq> new_log"
  by (simp add: land_submission_in_queue_def sub1_def trunk_def approve_def new_submission_def
      is_approved_def ch1_def change_of_def set_phase_def new_log_refs append_op_def append_at_def)
    (simp add: new_log_def)

text \<open>The ref of a change in a named queue can be the trunk ref of another change.\<close>
lemma queue_ref_clash: "queue_ref ''ws'' ''alice'' = queue_ref ''trunk'' ''ws/alice''"
  by (simp add: queue_ref_def)

end
