(* ===== verification/Revset.thy ===== *)
theory Revset
  imports Queue
begin

text \<open>
  The revset query language, \<open>revset.rs\<close>: the tokenizer, the recursive-descent parser, the
  evaluation against a context and the in-memory context \<open>MapContext\<close>. A grammar and a meaning of
  expressions, one commit at a time, are the specifications. A method of \<open>Parser\<close> takes the tokens
  that are left and returns those that are left afterwards, which stands for the position; a
  \<open>BTreeSet\<close> is a set.
\<close>

section \<open>Expressions and tokens\<close>

datatype rev_expr =
    RefE string
  | IdE string
  | AllE
  | HeadsE
  | AndE rev_expr rev_expr
  | OrE rev_expr rev_expr
  | NotE rev_expr
  | DraftE
  | PublicE
  | LandedE string

datatype token = TAnd | TOr | TNot | TLParen | TRParen | TWord string

definition is_word_char :: "char \<Rightarrow> bool" where
  "is_word_char c \<longleftrightarrow>
     (let n = byte c in
      48 \<le> n \<and> n \<le> 57 \<or> 65 \<le> n \<and> n \<le> 90 \<or> 97 \<le> n \<and> n \<le> 122 \<or> c \<in> set ''_-./:'')"

text \<open>The first character of a text: a lead byte and its continuation bytes.\<close>

definition first_char :: "string \<Rightarrow> string" where
  "first_char s = hd s # takeWhile cont (tl s)"

function tokenize :: "string \<Rightarrow> work_error + token list" where
  "tokenize s =
     (case s of
        [] \<Rightarrow> Inr []
      | c # cs \<Rightarrow>
        if first_char s \<in> set ws_chars then tokenize (drop (length (first_char s)) s)
        else if c = CHR ''&'' then and_then (tokenize cs) (\<lambda>ts. Inr (TAnd # ts))
        else if c = CHR ''|'' then and_then (tokenize cs) (\<lambda>ts. Inr (TOr # ts))
        else if c = CHR ''~'' then and_then (tokenize cs) (\<lambda>ts. Inr (TNot # ts))
        else if c = CHR ''('' then and_then (tokenize cs) (\<lambda>ts. Inr (TLParen # ts))
        else if c = CHR '')'' then and_then (tokenize cs) (\<lambda>ts. Inr (TRParen # ts))
        else if is_word_char c then
          and_then (tokenize (dropWhile is_word_char s)) (\<lambda>ts. Inr (TWord (takeWhile is_word_char s) # ts))
        else Inl (ParseErr (''unexpected character '' @ [CHR 0x27] @ first_char s @ [CHR 0x27])))"
  by pat_completeness auto
termination
  by (relation "measure length") (auto simp: first_char_def less_Suc_eq_le length_dropWhile_le)

declare tokenize.simps [simp del]

definition token_debug :: "token \<Rightarrow> string" where
  "token_debug t =
     (case t of TAnd \<Rightarrow> ''And'' | TOr \<Rightarrow> ''Or'' | TNot \<Rightarrow> ''Not'' | TLParen \<Rightarrow> ''LParen''
      | TRParen \<Rightarrow> ''RParen'' | TWord w \<Rightarrow> ''Word('' @ [CHR 0x22] @ w @ [CHR 0x22] @ '')'')"

section \<open>The parser\<close>

text \<open>The function call of a primary, after the word and the opening parenthesis.\<close>

definition call_expr :: "string \<Rightarrow> string option \<Rightarrow> work_error + rev_expr" where
  "call_expr word arg =
     (if word = ''all'' \<and> arg = None then Inr AllE
      else if word = ''heads'' \<and> arg = None then Inr HeadsE
      else if word = ''draft'' \<and> arg = None then Inr DraftE
      else if word = ''public'' \<and> arg = None then Inr PublicE
      else if word = ''landed'' then
        Inr (LandedE (case arg of Some a \<Rightarrow> a | None \<Rightarrow> ''trunk''))
      else (case arg of
          Some a \<Rightarrow> Inl (ParseErr (''function '' @ [CHR 0x27] @ word @ [CHR 0x27] @
            '' takes no argument (got '' @ [CHR 0x27] @ a @ [CHR 0x27] @ '')''))
        | None \<Rightarrow> Inl (ParseErr (''unknown function '' @ [CHR 0x27] @ word @ [CHR 0x27]))))"

definition call_args :: "token list \<Rightarrow> string option \<times> token list" where
  "call_args ts = (case ts of TWord a # r \<Rightarrow> (Some a, r) | _ \<Rightarrow> (None, ts))"

definition expect_rparen :: "string \<Rightarrow> token list \<Rightarrow> work_error + token list" where
  "expect_rparen context_msg ts =
     (case ts of
        TRParen # r \<Rightarrow> Inr r
      | _ \<Rightarrow> Inl (ParseErr (''expected '' @ [CHR 0x27] @ '')'' @ [CHR 0x27] @ context_msg)))"

definition parse_call :: "string \<Rightarrow> token list \<Rightarrow> work_error + rev_expr \<times> token list" where
  "parse_call word ts =
     (case call_args ts of (arg, r) \<Rightarrow>
        and_then (expect_rparen ('' after '' @ word @ ''('') r) (\<lambda>r'.
        and_then (call_expr word arg) (\<lambda>e. Inr (e, r'))))"

definition parse_word :: "string \<Rightarrow> token list \<Rightarrow> work_error + rev_expr \<times> token list" where
  "parse_word word ts =
     (case ts of
        TLParen # r \<Rightarrow> parse_call word r
      | _ \<Rightarrow>
        if take 3 word = ''id:'' then
          if drop 3 word = [] then Inl (ParseErr ''empty id: literal'')
          else Inr (IdE (drop 3 word), ts)
        else Inr (RefE word, ts))"

lemma expect_rparen_Inr_iff [res_simps]: "expect_rparen m ts = Inr r \<longleftrightarrow> ts = TRParen # r"
  by (auto simp: expect_rparen_def split: list.splits token.splits)

lemma expect_rparen_close [simp]: "expect_rparen m (TRParen # r) = Inr r"
  by (simp add: expect_rparen_def)

lemma call_args_length: "call_args ts = (arg, r) \<Longrightarrow> length r \<le> length ts"
  by (auto simp: call_args_def split: list.splits token.splits)

lemma parse_word_length: "parse_word w ts = Inr (e, r) \<Longrightarrow> length r \<le> length ts"
  using call_args_length
  by (fastforce simp: parse_word_def parse_call_def res_simps
      split: list.splits token.splits prod.splits if_splits)

lemma and_then_pair_iff:
  "and_then m (\<lambda>(a, b). f a b) = Inr y \<longleftrightarrow> (\<exists>a b. m = Inr (a, b) \<and> f a b = Inr y)"
  by (cases m) auto

function parse_or :: "token list \<Rightarrow> work_error + rev_expr \<times> token list"
  and parse_or_loop :: "rev_expr \<Rightarrow> token list \<Rightarrow> work_error + rev_expr \<times> token list"
  and parse_and :: "token list \<Rightarrow> work_error + rev_expr \<times> token list"
  and parse_and_loop :: "rev_expr \<Rightarrow> token list \<Rightarrow> work_error + rev_expr \<times> token list"
  and parse_unary :: "token list \<Rightarrow> work_error + rev_expr \<times> token list"
  and parse_primary :: "token list \<Rightarrow> work_error + rev_expr \<times> token list" where
  "parse_or ts = and_then (parse_and ts) (\<lambda>(lhs, r). parse_or_loop lhs r)"
| "parse_or_loop lhs ts =
     (case ts of
        TOr # ts' \<Rightarrow> and_then (parse_and ts') (\<lambda>(rhs, r). parse_or_loop (OrE lhs rhs) r)
      | _ \<Rightarrow> Inr (lhs, ts))"
| "parse_and ts = and_then (parse_unary ts) (\<lambda>(lhs, r). parse_and_loop lhs r)"
| "parse_and_loop lhs ts =
     (case ts of
        TAnd # ts' \<Rightarrow> and_then (parse_unary ts') (\<lambda>(rhs, r). parse_and_loop (AndE lhs rhs) r)
      | _ \<Rightarrow> Inr (lhs, ts))"
| "parse_unary ts =
     (case ts of
        TNot # ts' \<Rightarrow> and_then (parse_unary ts') (\<lambda>(e, r). Inr (NotE e, r))
      | _ \<Rightarrow> parse_primary ts)"
| "parse_primary ts =
     (case ts of
        TLParen # ts' \<Rightarrow>
          and_then (parse_or ts') (\<lambda>(e, r). and_then (expect_rparen [] r) (\<lambda>r'. Inr (e, r')))
      | TWord word # ts' \<Rightarrow> parse_word word ts'
      | t # _ \<Rightarrow> Inl (ParseErr (''unexpected token '' @ token_debug t))
      | [] \<Rightarrow> Inl (ParseErr ''unexpected end of input''))"
  by pat_completeness auto
termination
proof -
  let ?D = "parse_or_parse_or_loop_parse_and_parse_and_loop_parse_unary_parse_primary_dom"
  have len: "?D (Inl (Inl ts)) \<Longrightarrow> parse_or ts = Inr (e, r) \<Longrightarrow> length r < length ts"
    "?D (Inl (Inr (Inl (lhs, ts)))) \<Longrightarrow> parse_or_loop lhs ts = Inr (e, r) \<Longrightarrow> length r \<le> length ts"
    "?D (Inl (Inr (Inr ts))) \<Longrightarrow> parse_and ts = Inr (e, r) \<Longrightarrow> length r < length ts"
    "?D (Inr (Inl (lhs, ts))) \<Longrightarrow> parse_and_loop lhs ts = Inr (e, r) \<Longrightarrow> length r \<le> length ts"
    "?D (Inr (Inr (Inl ts))) \<Longrightarrow> parse_unary ts = Inr (e, r) \<Longrightarrow> length r < length ts"
    "?D (Inr (Inr (Inr ts))) \<Longrightarrow> parse_primary ts = Inr (e, r) \<Longrightarrow> length r < length ts"
    for ts lhs e r
  proof (induction arbitrary: e r and e r and e r and e r and e r and e r
      rule: parse_or_parse_or_loop_parse_and_parse_and_loop_parse_unary_parse_primary.pinduct)
    case (1 ts)
    then show ?case by (fastforce simp: parse_or.psimps and_then_pair_iff)
  next
    case (2 lhs ts)
    then show ?case
      by (cases ts; cases "hd ts") (fastforce simp: parse_or_loop.psimps and_then_pair_iff)+
  next
    case (3 ts)
    then show ?case by (fastforce simp: parse_and.psimps and_then_pair_iff)
  next
    case (4 lhs ts)
    then show ?case
      by (cases ts; cases "hd ts") (fastforce simp: parse_and_loop.psimps and_then_pair_iff)+
  next
    case (5 ts)
    then show ?case
      by (cases ts; cases "hd ts") (fastforce simp: parse_unary.psimps and_then_pair_iff)+
  next
    case (6 ts)
    then show ?case
      by (cases ts; cases "hd ts")
        (fastforce simp: parse_primary.psimps and_then_pair_iff res_simps dest: parse_word_length)+
  qed
  show ?thesis
    by (relation "measure (case_sum
          (case_sum (\<lambda>ts. 6 * length ts + 5) (case_sum (\<lambda>(_, ts). 6 * length ts) (\<lambda>ts. 6 * length ts + 4)))
          (case_sum (\<lambda>(_, ts). 6 * length ts) (case_sum (\<lambda>ts. 6 * length ts + 2) (\<lambda>ts. 6 * length ts + 1))))")
      (auto dest!: len)
qed

lemmas parser_simps =
  parse_or.simps parse_or_loop.simps parse_and.simps parse_and_loop.simps
  parse_unary.simps parse_primary.simps

declare parser_simps [simp del]

definition parse :: "string \<Rightarrow> work_error + rev_expr" where
  "parse input =
     and_then (tokenize input) (\<lambda>ts.
       if ts = [] then Inl (ParseErr ''empty expression'')
       else and_then (parse_or ts) (\<lambda>(e, r).
         if r \<noteq> [] then Inl (ParseErr ''trailing tokens after expression'') else Inr e))"

section \<open>Evaluation\<close>

record revset_context =
  universe :: "commit_id set"
  resolve :: "string \<Rightarrow> commit_id option"
  ctx_heads :: "commit_id set"
  ctx_phase :: "commit_id \<Rightarrow> phase option"
  ctx_landed :: "string \<Rightarrow> commit_id set"

definition phase_filter :: "revset_context \<Rightarrow> phase \<Rightarrow> commit_id set" where
  "phase_filter ctx want = Set.filter (\<lambda>c. ctx_phase ctx c = Some want) (universe ctx)"

fun eval_rev :: "rev_expr \<Rightarrow> revset_context \<Rightarrow> work_error + commit_id set" where
  "eval_rev (RefE name) ctx =
     and_then (ok_or (UnknownRef name) (resolve ctx name)) (\<lambda>c. Inr {c})"
| "eval_rev (IdE hex) ctx = Inr (if hex \<in> universe ctx then {hex} else {})"
| "eval_rev AllE ctx = Inr (universe ctx)"
| "eval_rev HeadsE ctx = Inr (ctx_heads ctx)"
| "eval_rev (AndE a b) ctx =
     and_then (eval_rev a ctx) (\<lambda>l. and_then (eval_rev b ctx) (\<lambda>r. Inr (l \<inter> r)))"
| "eval_rev (OrE a b) ctx =
     and_then (eval_rev a ctx) (\<lambda>l. and_then (eval_rev b ctx) (\<lambda>r. Inr (l \<union> r)))"
| "eval_rev (NotE a) ctx = and_then (eval_rev a ctx) (\<lambda>inner. Inr (universe ctx - inner))"
| "eval_rev DraftE ctx = Inr (phase_filter ctx Draft)"
| "eval_rev PublicE ctx = Inr (phase_filter ctx Public)"
| "eval_rev (LandedE q) ctx = Inr (ctx_landed ctx q)"

definition query :: "string \<Rightarrow> revset_context \<Rightarrow> work_error + commit_id set" where
  "query input ctx = and_then (parse input) (\<lambda>e. eval_rev e ctx)"

subsection \<open>\<open>MapContext\<close>\<close>

record map_context =
  mc_refs :: "(string \<times> commit_id) list"
  mc_phases :: "(commit_id \<times> phase) list"
  mc_extra :: "commit_id set"
  mc_queues :: "string set"

definition new_context :: "(string \<times> commit_id) list \<Rightarrow> map_context" where
  "new_context rs = \<lparr>mc_refs = rs, mc_phases = [], mc_extra = {}, mc_queues = {}\<rparr>"

definition with_queues :: "map_context \<Rightarrow> string list \<Rightarrow> map_context" where
  "with_queues m names = m\<lparr>mc_queues := mc_queues m \<union> set names\<rparr>"

definition with_phase :: "map_context \<Rightarrow> commit_id \<Rightarrow> phase \<Rightarrow> map_context" where
  "with_phase m c p = m\<lparr>mc_phases := AList.update c p (mc_phases m)\<rparr>"

definition with_commits :: "map_context \<Rightarrow> commit_id list \<Rightarrow> map_context" where
  "with_commits m cs = m\<lparr>mc_extra := mc_extra m \<union> set cs\<rparr>"

definition mc_universe :: "map_context \<Rightarrow> commit_id set" where
  "mc_universe m = set (map snd (mc_refs m)) \<union> set (map fst (mc_phases m)) \<union> mc_extra m"

definition ref_owner :: "string set \<Rightarrow> string \<Rightarrow> string" where
  "ref_owner registered rest =
     (case split_once CHR ''/'' rest of
        Some (first, _) \<Rightarrow> if first \<in> registered then first else ''trunk''
      | None \<Rightarrow> ''trunk'')"

definition mc_landed :: "map_context \<Rightarrow> string \<Rightarrow> commit_id set" where
  "mc_landed m queue =
     set (map snd (filter (\<lambda>(name, _).
       prefix ''public/'' name \<and> ref_owner (mc_queues m) (drop 7 name) = queue) (mc_refs m)))"

definition map_ctx :: "map_context \<Rightarrow> revset_context" where
  "map_ctx m =
     \<lparr>universe = mc_universe m, resolve = map_of (mc_refs m), ctx_heads = set (map snd (mc_refs m)),
      ctx_phase = map_of (mc_phases m), ctx_landed = mc_landed m\<rparr>"

section \<open>The grammar\<close>

definition nullary :: "(string \<times> rev_expr) list" where
  "nullary = [(''all'', AllE), (''heads'', HeadsE), (''draft'', DraftE), (''public'', PublicE),
     (''landed'', LandedE ''trunk'')]"

inductive or_expr and and_expr and unary_expr and primary_expr :: "token list \<Rightarrow> rev_expr \<Rightarrow> bool" where
  or_one: "and_expr ts e \<Longrightarrow> or_expr ts e"
| or_more: "or_expr ts a \<Longrightarrow> and_expr us b \<Longrightarrow> or_expr (ts @ TOr # us) (OrE a b)"
| and_one: "unary_expr ts e \<Longrightarrow> and_expr ts e"
| and_more: "and_expr ts a \<Longrightarrow> unary_expr us b \<Longrightarrow> and_expr (ts @ TAnd # us) (AndE a b)"
| unary_one: "primary_expr ts e \<Longrightarrow> unary_expr ts e"
| unary_not: "unary_expr ts e \<Longrightarrow> unary_expr (TNot # ts) (NotE e)"
| paren: "or_expr ts e \<Longrightarrow> primary_expr (TLParen # ts @ [TRParen]) e"
| call: "(w, e) \<in> set nullary \<Longrightarrow> primary_expr [TWord w, TLParen, TRParen] e"
| call_landed: "primary_expr [TWord ''landed'', TLParen, TWord q, TRParen] (LandedE q)"
| id_literal: "h \<noteq> [] \<Longrightarrow> primary_expr [TWord (''id:'' @ h)] (IdE h)"
| ref_literal: "take 3 w \<noteq> ''id:'' \<Longrightarrow> primary_expr [TWord w] (RefE w)"

lemma call_expr_Inr_iff:
  "call_expr w arg = Inr e \<longleftrightarrow>
     (case arg of None \<Rightarrow> (w, e) \<in> set nullary | Some a \<Rightarrow> w = ''landed'' \<and> e = LandedE a)"
  by (cases arg) (auto simp: call_expr_def nullary_def)

lemma parse_word_sound: "parse_word w ts = Inr (e, r) \<Longrightarrow> \<exists>us. ts = us @ r \<and> primary_expr (TWord w # us) e"
proof -
  assume p: "parse_word w ts = Inr (e, r)"
  show ?thesis
  proof (cases "\<exists>q. ts = TLParen # q")
    case True
    then obtain q where q: "ts = TLParen # q" by blast
    obtain arg q' where a: "call_args q = (arg, q')" by force
    then have "q' = TRParen # r" "call_expr w arg = Inr e"
      using p by (auto simp: parse_word_def q parse_call_def res_simps)
    with a show ?thesis unfolding q
      by (auto simp: call_args_def call_expr_Inr_iff split: list.splits token.splits
          intro: call call_landed exI [of _ "[TLParen, TRParen]"] exI [of _ "[TLParen, TWord _, TRParen]"])
  next
    case False
    then have "parse_word w ts =
        (if take 3 w = ''id:'' then if drop 3 w = [] then Inl (ParseErr ''empty id: literal'')
         else Inr (IdE (drop 3 w), ts) else Inr (RefE w, ts))"
      by (auto simp: parse_word_def split: list.splits token.splits)
    moreover have "take 3 w = ''id:'' \<Longrightarrow> w = ''id:'' @ drop 3 w" using append_take_drop_id [of 3 w] by metis
    ultimately show ?thesis
      using p id_literal [of "drop 3 w"] ref_literal [of w] by (fastforce split: if_splits)
  qed
qed

lemma parser_sound:
  "parse_or ts = Inr (e, r) \<Longrightarrow> \<exists>us. ts = us @ r \<and> or_expr us e"
  "parse_or_loop lhs ts = Inr (e, r) \<Longrightarrow> or_expr ls lhs \<Longrightarrow> \<exists>us. ts = us @ r \<and> or_expr (ls @ us) e"
  "parse_and ts = Inr (e, r) \<Longrightarrow> \<exists>us. ts = us @ r \<and> and_expr us e"
  "parse_and_loop lhs ts = Inr (e, r) \<Longrightarrow> and_expr ls lhs \<Longrightarrow> \<exists>us. ts = us @ r \<and> and_expr (ls @ us) e"
  "parse_unary ts = Inr (e, r) \<Longrightarrow> \<exists>us. ts = us @ r \<and> unary_expr us e"
  "parse_primary ts = Inr (e, r) \<Longrightarrow> \<exists>us. ts = us @ r \<and> primary_expr us e"
proof (induction ts and lhs ts and ts and lhs ts and ts and ts
    arbitrary: e r and e r ls and e r and e r ls and e r and e r
    rule: parse_or_parse_or_loop_parse_and_parse_and_loop_parse_unary_parse_primary.induct)
  case (1 ts)
  then obtain lhs q where a: "parse_and ts = Inr (lhs, q)" "parse_or_loop lhs q = Inr (e, r)"
    by (auto simp: parser_simps(1) and_then_pair_iff)
  then obtain us where us: "ts = us @ q" "and_expr us lhs" using "1.IH"(1) by blast
  then show ?case using "1.IH"(2) [OF a(1) refl a(2)] or_one by fastforce
next
  case (2 lhs ts)
  show ?case
  proof (cases "\<exists>ts'. ts = TOr # ts'")
    case True
    then obtain ts' where ts: "ts = TOr # ts'" by blast
    obtain rhs q where a: "parse_and ts' = Inr (rhs, q)" "parse_or_loop (OrE lhs rhs) q = Inr (e, r)"
      using "2.prems"(1) unfolding ts parse_or_loop.simps [of lhs "TOr # ts'"]
      by (auto simp: and_then_pair_iff)
    then obtain us where us: "ts' = us @ q" "and_expr us rhs" using "2.IH"(1) [OF ts] by blast
    then have "or_expr (ls @ TOr # us) (OrE lhs rhs)" using "2.prems"(2) or_more by blast
    then obtain vs where "q = vs @ r" "or_expr ((ls @ TOr # us) @ vs) e"
      using "2.IH"(2) ts a by blast
    then show ?thesis using us ts by (intro exI [of _ "TOr # us @ vs"]) simp
  next
    case False
    then show ?thesis using "2.prems" by (subst (asm) parse_or_loop.simps) (auto split: list.splits token.splits)
  qed
next
  case (3 ts)
  then obtain lhs q where a: "parse_unary ts = Inr (lhs, q)" "parse_and_loop lhs q = Inr (e, r)"
    by (auto simp: parser_simps(3) and_then_pair_iff)
  then obtain us where us: "ts = us @ q" "unary_expr us lhs" using "3.IH"(1) by blast
  then show ?case using "3.IH"(2) [OF a(1) refl a(2)] and_one by fastforce
next
  case (4 lhs ts)
  show ?case
  proof (cases "\<exists>ts'. ts = TAnd # ts'")
    case True
    then obtain ts' where ts: "ts = TAnd # ts'" by blast
    obtain rhs q where a: "parse_unary ts' = Inr (rhs, q)" "parse_and_loop (AndE lhs rhs) q = Inr (e, r)"
      using "4.prems"(1) unfolding ts parse_and_loop.simps [of lhs "TAnd # ts'"]
      by (auto simp: and_then_pair_iff)
    then obtain us where us: "ts' = us @ q" "unary_expr us rhs" using "4.IH"(1) [OF ts] by blast
    then have "and_expr (ls @ TAnd # us) (AndE lhs rhs)" using "4.prems"(2) and_more by blast
    then obtain vs where "q = vs @ r" "and_expr ((ls @ TAnd # us) @ vs) e"
      using "4.IH"(2) ts a by blast
    then show ?thesis using us ts by (intro exI [of _ "TAnd # us @ vs"]) simp
  next
    case False
    then show ?thesis using "4.prems" by (subst (asm) parse_and_loop.simps) (auto split: list.splits token.splits)
  qed
next
  case (5 ts)
  show ?case
  proof (cases "\<exists>ts'. ts = TNot # ts'")
    case True
    then obtain ts' where ts: "ts = TNot # ts'" by blast
    then obtain e' where e: "e = NotE e'" "parse_unary ts' = Inr (e', r)"
      using "5.prems" unfolding ts parse_unary.simps [of "TNot # ts'"] by (auto simp: and_then_pair_iff)
    then obtain us where "ts' = us @ r" "unary_expr us e'"
      using "5.IH" unfolding ts by fastforce
    then show ?thesis using e ts unary_not by (intro exI [of _ "TNot # us"]) simp
  next
    case False
    then have "parse_unary ts = parse_primary ts"
      by (subst parse_unary.simps) (auto split: list.splits token.splits)
    then have "\<exists>us. ts = us @ r \<and> primary_expr us e"
      using False "5.prems" "5.IH" by (cases ts; cases "hd ts") auto
    then show ?thesis using unary_one by blast
  qed
next
  case (6 ts)
  show ?case
  proof (cases "\<exists>ts'. ts = TLParen # ts'")
    case True
    then obtain ts' where ts: "ts = TLParen # ts'" by blast
    then have "parse_or ts' = Inr (e, TRParen # r)"
      using "6.prems" unfolding ts parse_primary.simps [of "TLParen # ts'"]
      by (auto simp: and_then_pair_iff res_simps)
    then obtain us where "ts' = us @ TRParen # r" "or_expr us e"
      using "6.IH" unfolding ts by fastforce
    then show ?thesis using ts paren by (intro exI [of _ "TLParen # us @ [TRParen]"]) simp
  next
    case False
    then obtain w ts' where "ts = TWord w # ts'" "parse_word w ts' = Inr (e, r)"
      using "6.prems" by (subst (asm) parse_primary.simps) (auto split: list.splits token.splits)
    then show ?thesis using parse_word_sound [of w ts' e r] by auto
  qed
qed

lemma primary_tokens: "primary_expr us e \<Longrightarrow> us \<noteq> [] \<and> hd us \<noteq> TNot"
  by (cases rule: primary_expr.cases) auto

definition not_at :: "token set \<Rightarrow> token list \<Rightarrow> bool" where
  "not_at bad ts \<longleftrightarrow> (case ts of [] \<Rightarrow> True | t # _ \<Rightarrow> t \<notin> bad)"

lemma loops_stop:
  "not_at {TAnd} r \<Longrightarrow> parse_and_loop e r = Inr (e, r)"
  "not_at {TOr} r \<Longrightarrow> parse_or_loop e r = Inr (e, r)"
  by (subst parse_and_loop.simps parse_or_loop.simps, auto simp: not_at_def split: list.splits token.splits)+

lemma not_at_mono: "not_at bad ts \<Longrightarrow> good \<subseteq> bad \<Longrightarrow> not_at good ts"
  by (auto simp: not_at_def split: list.splits)

lemma not_at_Cons [simp]: "not_at bad (t # ts) \<longleftrightarrow> t \<notin> bad" "not_at bad []"
  by (simp_all add: not_at_def)

lemma parser_complete:
  "or_expr us e \<Longrightarrow> not_at {TLParen, TAnd} r \<Longrightarrow> parse_or (us @ r) = parse_or_loop e r"
  "and_expr us e \<Longrightarrow> not_at {TLParen} r \<Longrightarrow> parse_and (us @ r) = parse_and_loop e r"
  "unary_expr us e \<Longrightarrow> not_at {TLParen} r \<Longrightarrow> parse_unary (us @ r) = Inr (e, r)"
  "primary_expr us e \<Longrightarrow> not_at {TLParen} r \<Longrightarrow> parse_primary (us @ r) = Inr (e, r)"
proof (induction us e and us e and us e and us e arbitrary: r and r and r and r
    rule: or_expr_and_expr_unary_expr_primary_expr.inducts)
  case (or_one ts e)
  then show ?case
    by (subst parse_or.simps) (simp add: loops_stop(1) not_at_mono [of "{TLParen, TAnd}"])
next
  case (or_more ts a us b)
  have "parse_or ((ts @ TOr # us) @ r) = parse_or_loop a (TOr # us @ r)"
    using or_more.IH(1) [of "TOr # us @ r"] by simp
  also have "\<dots> = parse_or_loop (OrE a b) r"
    using or_more.IH(2) [of r] or_more.prems
    by (subst parse_or_loop.simps) (simp add: loops_stop(1) not_at_mono [of "{TLParen, TAnd}"])
  finally show ?case .
next
  case (and_one ts e)
  then show ?case by (subst parse_and.simps) simp
next
  case (and_more ts a us b)
  have "parse_and ((ts @ TAnd # us) @ r) = parse_and_loop a (TAnd # us @ r)"
    using and_more.IH(1) [of "TAnd # us @ r"] by simp
  also have "\<dots> = parse_and_loop (AndE a b) r"
    using and_more.IH(2) [of r] and_more.prems by (subst parse_and_loop.simps) simp
  finally show ?case .
next
  case (unary_one ts e)
  then show ?case using primary_tokens [OF unary_one.hyps]
    by (subst parse_unary.simps) (cases ts; cases "hd ts"; simp)
next
  case (unary_not ts e)
  then show ?case by (subst parse_unary.simps) simp
next
  case (paren ts e)
  have "parse_or (ts @ TRParen # r) = parse_or_loop e (TRParen # r)" using paren.IH by simp
  also have "\<dots> = Inr (e, TRParen # r)" by (rule loops_stop) simp
  finally show ?case by (subst parse_primary.simps) simp
next
  case (call w e)
  then have "call_expr w None = Inr e" by (simp add: call_expr_Inr_iff)
  then show ?case
    by (subst parse_primary.simps) (simp add: parse_word_def parse_call_def call_args_def)
next
  case (call_landed q)
  have "call_expr ''landed'' (Some q) = Inr (LandedE q)" by (simp add: call_expr_Inr_iff)
  then show ?case
    by (subst parse_primary.simps) (simp add: parse_word_def parse_call_def call_args_def)
next
  case (id_literal h)
  then show ?case
    by (subst parse_primary.simps) (auto simp: parse_word_def not_at_def split: list.splits token.splits)
next
  case (ref_literal w)
  then show ?case
    by (subst parse_primary.simps) (auto simp: parse_word_def not_at_def split: list.splits token.splits)
qed

lemma or_expr_nonempty: "\<not> or_expr [] e"
proof
  assume "or_expr [] e"
  then have "parse_or [] = Inr (e, [])"
    using parser_complete(1) [of "[]" e "[]"] loops_stop(2) [of "[]" e] by simp
  then show False by (simp add: parser_simps)
qed

text \<open>C27: The parser accepts exactly the texts whose tokens the grammar derives, with \<open>~\<close> binding
tighter than \<open>&\<close> and \<open>&\<close> tighter than \<open>|\<close>, both associating to the left, and it returns the
derived expression, of which there is one.\<close>
theorem parse_exact:
  "parse input = Inr e \<longleftrightarrow> (\<exists>ts. tokenize input = Inr ts \<and> {e'. or_expr ts e'} = {e})"
proof -
  have det: "parse_or ts = Inr (e', [])" if "or_expr ts e'" for ts e'
    using parser_complete(1) [of ts e' "[]"] loops_stop(2) [of "[]" e'] that by simp
  have "parse_or ts = Inr (e, []) \<longleftrightarrow> {e'. or_expr ts e'} = {e}" for ts
    using det parser_sound(1) [of ts e "[]"] by fastforce
  moreover have "parse input = Inr e \<longleftrightarrow> (\<exists>ts. tokenize input = Inr ts \<and> ts \<noteq> [] \<and> parse_or ts = Inr (e, []))"
    by (auto simp: parse_def and_then_pair_iff and_then_Inr_iff split: if_splits)
  ultimately show ?thesis using det or_expr_nonempty by fastforce
qed

section \<open>Layouts\<close>

text \<open>A layout of a token list: the text of every token, followed by any white space; two words in a
row are kept apart.\<close>

definition token_text :: "token \<Rightarrow> string" where
  "token_text t =
     (case t of TAnd \<Rightarrow> ''&'' | TOr \<Rightarrow> ''|'' | TNot \<Rightarrow> ''~'' | TLParen \<Rightarrow> ''('' | TRParen \<Rightarrow> '')'' | TWord w \<Rightarrow> w)"

definition layout_text :: "(token \<times> string list) list \<Rightarrow> string" where
  "layout_text ps = concat (map (\<lambda>(t, ws). token_text t @ concat ws) ps)"

definition is_word :: "token \<Rightarrow> bool" where
  "is_word t = (case t of TWord _ \<Rightarrow> True | _ \<Rightarrow> False)"

definition word_ok :: "string \<Rightarrow> bool" where
  "word_ok w \<longleftrightarrow> w \<noteq> [] \<and> list_all is_word_char w"

fun separated :: "(token \<times> string list) list \<Rightarrow> bool" where
  "separated [] = True"
| "separated ((t, ws) # ps) =
     ((case t of TWord w \<Rightarrow> word_ok w | _ \<Rightarrow> True) \<and> set ws \<subseteq> set ws_chars \<and>
      (is_word t \<and> ps \<noteq> [] \<and> is_word (fst (hd ps)) \<longrightarrow> ws \<noteq> []) \<and> separated ps)"

lemma word_char_solid: "is_word_char c \<Longrightarrow> solid c"
  by (auto simp: is_word_char_def solid_def Let_def)

lemma first_char_solid: "solid c \<Longrightarrow> first_char (c # s) \<notin> set ws_chars"
  using ws_chars_solid [of "first_char (c # s)"] by (auto simp: first_char_def)

lemma ws_chars_shape:
  "p \<in> set ws_chars \<Longrightarrow> p \<noteq> [] \<and> list_all cont (tl p) \<and> \<not> cont (hd p) \<and> \<not> is_word_char (hd p)"
proof -
  have "list_all (\<lambda>p. p \<noteq> [] \<and> list_all cont (tl p) \<and> \<not> cont (hd p) \<and> \<not> is_word_char (hd p)) ws_chars"
    by code_simp
  then show "p \<in> set ws_chars \<Longrightarrow> ?thesis" by (simp add: list_all_iff)
qed

lemma solid_not_cont: "solid c \<Longrightarrow> \<not> cont c"
  by (simp add: solid_def cont_def)

definition lead :: "string \<Rightarrow> bool" where
  "lead s \<longleftrightarrow> s = [] \<or> \<not> cont (hd s)"

lemma takeWhile_all_lead: "list_all P xs \<Longrightarrow> s = [] \<or> \<not> P (hd s) \<Longrightarrow> takeWhile P (xs @ s) = xs"
  by (induction xs) (auto simp: takeWhile_eq_Nil_iff)

lemma tokenize_ws: "w \<in> set ws_chars \<Longrightarrow> lead s \<Longrightarrow> tokenize (w @ s) = tokenize s"
proof -
  assume a: "w \<in> set ws_chars" "lead s"
  obtain c cs where w: "w = c # cs" using ws_chars_shape [OF a(1)] by (cases w) auto
  have "takeWhile cont (cs @ s) = cs"
    using ws_chars_shape [OF a(1)] a(2) by (intro takeWhile_all_lead) (auto simp: w lead_def)
  then have "first_char (w @ s) = w" by (simp add: first_char_def w)
  then show ?thesis using a(1) by (subst tokenize.simps) (simp add: w)
qed

lemma tokenize_word:
  assumes "is_word_char c"
  shows "tokenize (c # s) = and_then (tokenize (dropWhile is_word_char (c # s)))
    (\<lambda>ts. Inr (TWord (takeWhile is_word_char (c # s)) # ts))"
proof -
  have "first_char (c # s) \<notin> set ws_chars" using first_char_solid [OF word_char_solid [OF assms]] .
  moreover have "c \<noteq> CHR ''&''" "c \<noteq> CHR ''|''" "c \<noteq> CHR ''~''" "c \<noteq> CHR ''(''" "c \<noteq> CHR '')''"
    using assms by (auto simp: is_word_char_def Let_def)
  ultimately show ?thesis using assms by (subst tokenize.simps) simp
qed

lemma lead_ws: "set ws \<subseteq> set ws_chars \<Longrightarrow> lead s \<Longrightarrow> lead (concat ws @ s)"
  using ws_chars_shape [of "hd ws"] by (cases ws) (auto simp: lead_def)

lemma tokenize_spaces: "set ws \<subseteq> set ws_chars \<Longrightarrow> lead s \<Longrightarrow> tokenize (concat ws @ s) = tokenize s"
  by (induction ws) (auto simp: tokenize_ws lead_ws)

lemma lead_layout: "separated ps \<Longrightarrow> lead (layout_text ps)"
proof (cases ps)
  case (Cons p qs)
  obtain t ws where "p = (t, ws)" by force
  moreover assume "separated ps"
  ultimately show ?thesis
    using word_char_solid solid_not_cont
    by (cases t) (auto simp: Cons layout_text_def token_text_def lead_def word_ok_def cont_def hd_append
        list_all_iff)
qed (simp add: layout_text_def lead_def)

lemma tokenize_layout: "separated ps \<Longrightarrow> tokenize (layout_text ps) = Inr (map fst ps)"
proof (induction ps)
  case Nil
  show ?case by (subst tokenize.simps) (simp add: layout_text_def)
next
  case (Cons p ps)
  obtain t ws where p: "p = (t, ws)" by force
  let ?rest = "concat ws @ layout_text ps"
  have lay: "layout_text (p # ps) = token_text t @ ?rest" by (simp add: layout_text_def p)
  have ws: "set ws \<subseteq> set ws_chars" and s: "separated ps" using Cons.prems by (auto simp: p)
  have rest: "tokenize ?rest = Inr (map fst ps)"
    using tokenize_spaces [OF ws lead_layout [OF s]] Cons.IH [OF s] by simp
  show ?case
  proof (cases "is_word t")
    case False
    then obtain c where c: "token_text t = [c]" "c \<in> set ''&|~()''"
      by (cases t) (auto simp: is_word_def token_text_def)
    then have "solid c" by (auto simp: solid_def)
    then show ?thesis unfolding lay c
      using False c(2) c(1)
      by (subst tokenize.simps, cases t) (auto simp: first_char_solid rest p token_text_def is_word_def)
  next
    case True
    then obtain w where t: "t = TWord w" by (auto simp: is_word_def split: token.splits)
    then have w: "w \<noteq> []" "list_all is_word_char w" using Cons.prems by (auto simp: p word_ok_def)
    have "?rest = [] \<or> \<not> is_word_char (hd ?rest)"
    proof (cases ws)
      case Nil
      show ?thesis
      proof (cases ps)
        case Nil
        then show ?thesis using \<open>ws = []\<close> by (simp add: layout_text_def)
      next
        case (Cons q qs)
        then have "\<not> is_word (fst q)" using Cons.prems True Nil by (auto simp: p)
        then show ?thesis using \<open>ws = []\<close>
          by (cases q; cases "fst q")
            (auto simp: Cons layout_text_def token_text_def is_word_def is_word_char_def)
      qed
    next
      case (Cons v vs)
      then show ?thesis using ws ws_chars_shape [of v] by (auto simp: hd_append)
    qed
    then have "takeWhile is_word_char (w @ ?rest) = w" "dropWhile is_word_char (w @ ?rest) = ?rest"
      using w takeWhile_all_lead [OF w(2)] dropWhile_eq_drop [of is_word_char "w @ ?rest"] by auto
    moreover obtain c cs where "w = c # cs" "is_word_char c" using w by (cases w) auto
    ultimately show ?thesis unfolding lay
      using tokenize_word [of c "cs @ ?rest"] by (simp add: rest p t token_text_def)
  qed
qed

fun expr_tokens :: "rev_expr \<Rightarrow> token list" where
  "expr_tokens (RefE w) = [TWord w]"
| "expr_tokens (IdE h) = [TWord (''id:'' @ h)]"
| "expr_tokens AllE = [TWord ''all'', TLParen, TRParen]"
| "expr_tokens HeadsE = [TWord ''heads'', TLParen, TRParen]"
| "expr_tokens DraftE = [TWord ''draft'', TLParen, TRParen]"
| "expr_tokens PublicE = [TWord ''public'', TLParen, TRParen]"
| "expr_tokens (LandedE q) = [TWord ''landed'', TLParen, TWord q, TRParen]"
| "expr_tokens (NotE a) = TNot # TLParen # expr_tokens a @ [TRParen]"
| "expr_tokens (AndE a b) =
     TLParen # expr_tokens a @ [TRParen, TAnd, TLParen] @ expr_tokens b @ [TRParen]"
| "expr_tokens (OrE a b) =
     TLParen # expr_tokens a @ [TRParen, TOr, TLParen] @ expr_tokens b @ [TRParen]"

fun nameable :: "rev_expr \<Rightarrow> bool" where
  "nameable (RefE w) \<longleftrightarrow> take 3 w \<noteq> ''id:''"
| "nameable (IdE h) \<longleftrightarrow> h \<noteq> []"
| "nameable (NotE a) \<longleftrightarrow> nameable a"
| "nameable (AndE a b) \<longleftrightarrow> nameable a \<and> nameable b"
| "nameable (OrE a b) \<longleftrightarrow> nameable a \<and> nameable b"
| "nameable _ \<longleftrightarrow> True"

lemmas to_or = or_one [OF and_one [OF unary_one]]

lemma nullary_tokens:
  "(w, e) \<in> set nullary \<Longrightarrow> or_expr [TWord w, TLParen, TRParen] e"
  by (rule to_or) (rule call)

lemma expr_tokens_derives: "nameable e \<Longrightarrow> or_expr (expr_tokens e) e"
proof (induction e)
  case (AndE a b)
  have "primary_expr (TLParen # expr_tokens a @ [TRParen]) a" "primary_expr (TLParen # expr_tokens b @ [TRParen]) b"
    using AndE by (auto intro: paren)
  from or_one [OF and_more [OF and_one [OF unary_one [OF this(1)]] unary_one [OF this(2)]]]
  show ?case by simp
next
  case (OrE a b)
  have "primary_expr (TLParen # expr_tokens a @ [TRParen]) a" "primary_expr (TLParen # expr_tokens b @ [TRParen]) b"
    using OrE by (auto intro: paren)
  from or_more [OF to_or [OF this(1)] and_one [OF unary_one [OF this(2)]]]
  show ?case by simp
next
  case (NotE a)
  then show ?case using or_one [OF and_one [OF unary_not [OF unary_one [OF paren]]]] by simp
qed (auto intro!: to_or intro: id_literal [simplified] ref_literal call call_landed simp: nullary_def)

text \<open>Every expression can be written: any layout of its tokens, with any white space, parses
back to it, provided its names can be told from the literals.\<close>
theorem parse_layout_roundtrip:
  assumes "nameable e" "separated ps" "map fst ps = expr_tokens e"
  shows "parse (layout_text ps) = Inr e"
proof -
  have "tokenize (layout_text ps) = Inr (expr_tokens e)" using tokenize_layout [OF assms(2)] assms(3) by simp
  moreover have "parse_or (expr_tokens e) = Inr (e, [])"
    using parser_complete(1) [OF expr_tokens_derives [OF assms(1)], of "[]"] loops_stop(2) [of "[]" e] by simp
  moreover have "expr_tokens e \<noteq> []" by (cases e) auto
  ultimately show ?thesis by (simp add: parse_def)
qed

lemma parse_layout_roundtrip_witness:
  "parse (''(draft ( )) & ('' @ [CHR 0xC2, CHR 0xA0] @ ''~(main))'' @ [CHR 0x0A])
     = Inr (AndE DraftE (NotE (RefE ''main'')))"
proof -
  let ?sp = "['' '']"
  let ?ps = "[(TLParen, []), (TWord ''draft'', ?sp), (TLParen, ?sp), (TRParen, []), (TRParen, ?sp), (TAnd, ?sp),
    (TLParen, [[CHR 0xC2, CHR 0xA0]]), (TNot, []), (TLParen, []), (TWord ''main'', []), (TRParen, []), (TRParen, [[CHR 0x0A]])]"
  have "separated ?ps" by code_simp
  from parse_layout_roundtrip [of "AndE DraftE (NotE (RefE ''main''))", OF _ this]
  show ?thesis by (simp add: layout_text_def token_text_def)
qed

section \<open>The meaning of an expression\<close>

text \<open>The refs an expression names, in the order of the text, and whether a commit is in the set.\<close>

fun ref_names :: "rev_expr \<Rightarrow> string list" where
  "ref_names (RefE n) = [n]"
| "ref_names (AndE a b) = ref_names a @ ref_names b"
| "ref_names (OrE a b) = ref_names a @ ref_names b"
| "ref_names (NotE a) = ref_names a"
| "ref_names _ = []"

fun denotes :: "revset_context \<Rightarrow> rev_expr \<Rightarrow> commit_id \<Rightarrow> bool" where
  "denotes ctx (RefE n) c \<longleftrightarrow> resolve ctx n = Some c"
| "denotes ctx (IdE h) c \<longleftrightarrow> c = h \<and> c \<in> universe ctx"
| "denotes ctx AllE c \<longleftrightarrow> c \<in> universe ctx"
| "denotes ctx HeadsE c \<longleftrightarrow> c \<in> ctx_heads ctx"
| "denotes ctx (AndE a b) c \<longleftrightarrow> denotes ctx a c \<and> denotes ctx b c"
| "denotes ctx (OrE a b) c \<longleftrightarrow> denotes ctx a c \<or> denotes ctx b c"
| "denotes ctx (NotE a) c \<longleftrightarrow> c \<in> universe ctx \<and> \<not> denotes ctx a c"
| "denotes ctx DraftE c \<longleftrightarrow> c \<in> universe ctx \<and> ctx_phase ctx c = Some Draft"
| "denotes ctx PublicE c \<longleftrightarrow> c \<in> universe ctx \<and> ctx_phase ctx c = Some Public"
| "denotes ctx (LandedE q) c \<longleftrightarrow> c \<in> ctx_landed ctx q"

lemma eval_denotes:
  "eval_rev e ctx =
     (case find (\<lambda>n. resolve ctx n = None) (ref_names e) of
        Some n \<Rightarrow> Inl (UnknownRef n)
      | None \<Rightarrow> Inr {c. denotes ctx e c})"
proof -
  have f: "find P (xs @ ys) = (case find P xs of None \<Rightarrow> find P ys | Some x \<Rightarrow> Some x)"
    for P and xs ys :: "string list" by (induction xs) auto
  show ?thesis
    by (induction e) (auto simp: f phase_filter_def split: option.splits)
qed

locale commit_scope =
  fixes ctx :: revset_context
  assumes heads_in_scope: "ctx_heads ctx \<subseteq> universe ctx"
    and resolves_to_heads: "resolve ctx n = Some c \<Longrightarrow> c \<in> ctx_heads ctx"
    and landed_are_heads: "ctx_landed ctx q \<subseteq> ctx_heads ctx"
begin

lemma denotes_in_scope: "denotes ctx e c \<Longrightarrow> c \<in> universe ctx"
proof (induction e)
  case (LandedE q)
  then show ?case using heads_in_scope landed_are_heads [of q] by auto
qed (use heads_in_scope resolves_to_heads in auto)

lemma eval_in_scope: "eval_rev e ctx = Inr S \<Longrightarrow> S \<subseteq> universe ctx"
  using denotes_in_scope by (auto simp: eval_denotes split: option.splits)

lemma complement_laws:
  "eval_rev (NotE (NotE e)) ctx = eval_rev e ctx"
  "eval_rev (NotE (AndE a b)) ctx = eval_rev (OrE (NotE a) (NotE b)) ctx"
  "eval_rev (NotE (OrE a b)) ctx = eval_rev (AndE (NotE a) (NotE b)) ctx"
  using denotes_in_scope by (auto simp: eval_denotes split: option.splits)

end

interpretation map_scope: commit_scope "map_ctx m" for m
  by unfold_locales (auto simp: map_ctx_def mc_universe_def mc_landed_def dest!: map_of_SomeD, force)

text \<open>A query over an in-memory context answers with the set of the commits the expression
denotes, all of them in the universe, or with the first ref of the text that does not resolve; the
complement obeys the laws of a Boolean algebra over the universe.\<close>
theorem query_exact:
  "query input (map_ctx m) =
     and_then (parse input) (\<lambda>e.
       case find (\<lambda>n. map_of (mc_refs m) n = None) (ref_names e) of
         Some n \<Rightarrow> Inl (UnknownRef n)
       | None \<Rightarrow> Inr {c \<in> mc_universe m. denotes (map_ctx m) e c}) \<and>
   eval_rev (NotE (NotE e)) (map_ctx m) = eval_rev e (map_ctx m) \<and>
   eval_rev (NotE (AndE a b)) (map_ctx m) = eval_rev (OrE (NotE a) (NotE b)) (map_ctx m) \<and>
   eval_rev (NotE (OrE a b)) (map_ctx m) = eval_rev (AndE (NotE a) (NotE b)) (map_ctx m)"
proof -
  have "Collect (denotes (map_ctx m) e) = {c \<in> mc_universe m. denotes (map_ctx m) e c}" for e
    using map_scope.denotes_in_scope [where m = m and e = e] by (auto simp: map_ctx_def)
  moreover have "resolve (map_ctx m) = map_of (mc_refs m)" by (simp add: map_ctx_def)
  ultimately have "eval_rev e (map_ctx m) =
      (case find (\<lambda>n. map_of (mc_refs m) n = None) (ref_names e) of
         Some n \<Rightarrow> Inl (UnknownRef n)
       | None \<Rightarrow> Inr {c \<in> mc_universe m. denotes (map_ctx m) e c})" for e
    unfolding eval_denotes by (cases "find (\<lambda>n. map_of (mc_refs m) n = None) (ref_names e)") simp_all
  then have "query input (map_ctx m) =
     and_then (parse input) (\<lambda>e.
       case find (\<lambda>n. map_of (mc_refs m) n = None) (ref_names e) of
         Some n \<Rightarrow> Inl (UnknownRef n)
       | None \<Rightarrow> Inr {c \<in> mc_universe m. denotes (map_ctx m) e c})"
    unfolding query_def by simp
  then show ?thesis using map_scope.complement_laws [where m = m] by blast
qed

section \<open>Landings seen by a query\<close>

lemma ref_owner_queue: "q \<in> reg \<Longrightarrow> CHR ''/'' \<notin> set q \<Longrightarrow> ref_owner reg (q @ ''/'' @ c) = q"
  using split_once_append [of "CHR ''/''" q c] by (simp add: ref_owner_def)

definition own_ref :: "string set \<Rightarrow> string \<Rightarrow> change_id \<Rightarrow> bool" where
  "own_ref reg q c \<longleftrightarrow>
     (if q = ''trunk'' then ref_owner reg c = ''trunk'' else q \<in> reg \<and> CHR ''/'' \<notin> set q)"

lemma queue_ref_owner:
  "own_ref reg q c \<Longrightarrow> \<exists>rest. queue_ref q c = ''public/'' @ rest \<and> ref_owner reg rest = q"
  using ref_owner_queue [of q reg c] by (auto simp: own_ref_def queue_ref_def)

lemma mc_landed_iff:
  "distinct (map fst (mc_refs m)) \<Longrightarrow>
   x \<in> mc_landed m q \<longleftrightarrow> (\<exists>rest. map_of (mc_refs m) (''public/'' @ rest) = Some x \<and> ref_owner (mc_queues m) rest = q)"
  by (fastforce simp: mc_landed_def prefix_def image_iff)

text \<open>A landing shows in the query of its queue and in no other: when the registered names keep
the refs apart, after a submission has landed into a queue, \<open>landed\<close> of that queue contains the tip
of every change of the submission, and \<open>landed\<close> of every other queue answers as before.\<close>
theorem landing_seen_by_landed:
  assumes "require_approval policy \<longrightarrow> is_approved s"
    and "(carried_values gates = 0 \<or> allow_carried policy) \<and> (validate policy = None \<or> validated gates = Some True)"
    and "log_built log" "\<forall>c\<in>set (sub_changes s). change_of g c \<noteq> None"
    and "length (ops log) + length (sub_changes s) < 2 ^ 64"
    and "\<forall>c\<in>set (sub_changes s). own_ref (mc_queues m) (queue_name policy) c"
    and "refs_now log = Some (map_of (mc_refs m))" "distinct (map fst (mc_refs m))"
    and "land_submission_in_queue s policy gates g log = Some (res, g', log')"
    and "refs_now log' = Some (map_of rs)" "distinct (map fst rs)"
  shows "(\<forall>c\<in>set (sub_changes s). \<forall>t. tip g c = Some t \<longrightarrow> t \<in> mc_landed (m\<lparr>mc_refs := rs\<rparr>) (queue_name policy)) \<and>
   (\<forall>q. q \<noteq> queue_name policy \<longrightarrow> mc_landed (m\<lparr>mc_refs := rs\<rparr>) q = mc_landed m q)"
proof -
  let ?q = "queue_name policy" and ?m = "m\<lparr>mc_refs := rs\<rparr>"
  have gp: "gates_pass policy (carried_values gates) (validated gates)"
    using assms(2) by (simp add: gates_pass_def)
  have rs: "map_of rs = landed_refs ?q (set (sub_changes s)) (tip g) (map_of (mc_refs m))"
    using land_in_queue_ok [OF assms(1) gp assms(3-5,7)] assms(9,10) by auto
  have owner: "ref_owner (mc_queues m) rest = ?q"
    if "''public/'' @ rest \<in> queue_ref ?q ` set (sub_changes s)" for rest
    using that assms(6) queue_ref_owner by fastforce
  have same: "map_of rs (''public/'' @ rest) = map_of (mc_refs m) (''public/'' @ rest)"
    if "ref_owner (mc_queues m) rest \<noteq> ?q" for rest
    using owner that rs landed_refs_elsewhere by metis
  have at: "map_of rs (queue_ref ?q c) = tip g c" if "c \<in> set (sub_changes s)" for c
    using rs that by simp
  have landed: "x \<in> mc_landed ?m q \<longleftrightarrow> (\<exists>rest. map_of rs (''public/'' @ rest) = Some x \<and> ref_owner (mc_queues m) rest = q)"
    for x q using mc_landed_iff [of ?m] assms(11) by simp
  have "t \<in> mc_landed ?m ?q" if "c \<in> set (sub_changes s)" "tip g c = Some t" for c t
    using queue_ref_owner [of "mc_queues m" ?q c] assms(6) that at [OF that(1)] unfolding landed by metis
  moreover have "x \<in> mc_landed ?m q \<longleftrightarrow> x \<in> mc_landed m q" if "q \<noteq> ?q" for q x
    unfolding landed mc_landed_iff [OF assms(8)] using same that by metis
  ultimately show ?thesis by blast
qed

lemma landing_seen_by_landed_witness:
  "\<exists>res g' log'. land_submission_in_queue sub1 (trunk\<lparr>queue_name := ''rel''\<rparr>) \<lparr>carried_values = 0, validated = None\<rparr> ch1 new_log
     = Some (res, g', log') \<and> is_ok res \<and>
   ''r1'' \<in> mc_landed (with_queues (new_context [(''public/rel/c1'', ''r1'')]) [''rel'']) ''rel''"
proof -
  let ?policy = "trunk\<lparr>queue_name := ''rel''\<rparr>" and ?gates = "\<lparr>carried_values = 0, validated = None\<rparr>"
  let ?m = "with_queues (new_context []) [''rel'']"
  obtain r g' log' where l: "land_submission_in_queue sub1 ?policy ?gates ch1 new_log = Some (Inr r, g', log')"
    "refs_now log' = Some (landed_refs ''rel'' (set (sub_changes sub1)) (tip ch1) Map.empty)"
    using land_in_queue_ok [of ?policy sub1 ?gates new_log ch1 Map.empty] log_empty sub1_facts new_log_refs
    by (auto simp: gates_pass_def trunk_def)
  have "landed_refs ''rel'' (set (sub_changes sub1)) (tip ch1) Map.empty = map_of [(''public/rel/c1'', ''r1'')]"
    using landed_refs_at [of "''c1''" "{''c1''}" "''rel''" "tip ch1" Map.empty]
      landed_refs_elsewhere [of _ "''rel''" "{''c1''}" "tip ch1" Map.empty] sub1_facts
    by (auto simp: queue_ref_def fun_eq_iff)
  then have "(\<forall>c\<in>set (sub_changes sub1). \<forall>t. tip ch1 c = Some t \<longrightarrow> t \<in> mc_landed (?m\<lparr>mc_refs := [(''public/rel/c1'', ''r1'')]\<rparr>) ''rel'')"
    using landing_seen_by_landed [of ?policy sub1 ?gates new_log ch1 ?m "Inr r" g' log' "[(''public/rel/c1'', ''r1'')]"] l
      log_empty sub1_facts new_log_refs by (simp add: with_queues_def new_context_def own_ref_def trunk_def)
  then show ?thesis using l sub1_facts by (auto simp: with_queues_def new_context_def)
qed

end
