(* ===== verification/Locking.thy ===== *)
theory Locking
  imports Registry
begin

text \<open>
  Concurrent writers, \<open>lock.rs\<close> of the store with the \<open>mutate_locked\<close> functions: any number of
  processes, numbered by naturals, each run one load-mutate-save cycle on one file. A step is one
  system call of one process: taking the lock, reading the file, running the mutation, writing a
  part of the temporary file of \<open>atomic_write\<close>, renaming it over the file, releasing the lock.
  A process can die at every point; the kernel then drops its lock and its temporary file stays
  as it is. A reader needs no lock: what it sees is the content of the file at that moment.
\<close>

section \<open>The processes\<close>

datatype 'r pc =
    Start
  | Locked
  | Loaded 'r
  | Mutated 'r
  | Writing string nat
  | Published
  | Finished bool
  | Dead

record 'r system =
  data_file :: "string option"
  holder :: "nat option"
  temps :: "nat \<Rightarrow> string option"
  pcs :: "nat \<Rightarrow> 'r pc"
  published :: "nat list"

definition boot :: "string option \<Rightarrow> 'r system" where
  "boot content = \<lparr>data_file = content, holder = None, temps = (\<lambda>_. None), pcs = (\<lambda>_. Start), published = []\<rparr>"

text \<open>\<open>published\<close> is a ghost field: the processes in the order of their renames.\<close>

inductive writer_step ::
  "(string option \<Rightarrow> work_error + 'r) \<Rightarrow> ('r \<Rightarrow> work_error + string) \<Rightarrow>
   (nat \<Rightarrow> 'r \<Rightarrow> work_error + 't \<times> 'r) \<Rightarrow> 'r system \<Rightarrow> 'r system \<Rightarrow> bool"
  for load save f where
  take_lock: "pcs s i = Start \<Longrightarrow> holder s = None \<Longrightarrow>
    writer_step load save f s (s\<lparr>pcs := (pcs s)(i := Locked), holder := Some i\<rparr>)"
| read_file: "pcs s i = Locked \<Longrightarrow> load (data_file s) = Inr r \<Longrightarrow>
    writer_step load save f s (s\<lparr>pcs := (pcs s)(i := Loaded r)\<rparr>)"
| read_fails: "pcs s i = Locked \<Longrightarrow> load (data_file s) = Inl e \<Longrightarrow>
    writer_step load save f s (s\<lparr>pcs := (pcs s)(i := Finished False), holder := None\<rparr>)"
| mutate: "pcs s i = Loaded r \<Longrightarrow> f i r = Inr (out, r') \<Longrightarrow>
    writer_step load save f s (s\<lparr>pcs := (pcs s)(i := Mutated r')\<rparr>)"
| mutate_fails: "pcs s i = Loaded r \<Longrightarrow> f i r = Inl e \<Longrightarrow>
    writer_step load save f s (s\<lparr>pcs := (pcs s)(i := Finished False), holder := None\<rparr>)"
| create_temp: "pcs s i = Mutated r \<Longrightarrow> save r = Inr bytes \<Longrightarrow>
    writer_step load save f s (s\<lparr>pcs := (pcs s)(i := Writing bytes 0), temps := (temps s)(i := Some [])\<rparr>)"
| save_fails: "pcs s i = Mutated r \<Longrightarrow> save r = Inl e \<Longrightarrow>
    writer_step load save f s (s\<lparr>pcs := (pcs s)(i := Finished False), holder := None\<rparr>)"
| write_temp: "pcs s i = Writing bytes k \<Longrightarrow> k < length bytes \<Longrightarrow>
    writer_step load save f s
      (s\<lparr>pcs := (pcs s)(i := Writing bytes (Suc k)), temps := (temps s)(i := Some (take (Suc k) bytes))\<rparr>)"
| rename: "pcs s i = Writing bytes (length bytes) \<Longrightarrow>
    writer_step load save f s
      (s\<lparr>pcs := (pcs s)(i := Published), data_file := temps s i, temps := (temps s)(i := None),
         published := published s @ [i]\<rparr>)"
| write_fails: "pcs s i = Writing bytes k \<Longrightarrow>
    writer_step load save f s (s\<lparr>pcs := (pcs s)(i := Finished False), holder := None\<rparr>)"
| release: "pcs s i = Published \<Longrightarrow>
    writer_step load save f s (s\<lparr>pcs := (pcs s)(i := Finished True), holder := None\<rparr>)"
| die: "pcs s i \<notin> {Start, Finished True, Finished False, Dead} \<Longrightarrow>
    writer_step load save f s (s\<lparr>pcs := (pcs s)(i := Dead), holder := None\<rparr>)"

inductive writers_reach for load save f content where
  booted: "writers_reach load save f content (boot content)"
| steps: "writers_reach load save f content s \<Longrightarrow> writer_step load save f s t \<Longrightarrow>
    writers_reach load save f content t"

section \<open>The sequential reference\<close>

text \<open>The content after the cycles of \<open>is\<close>, one after another, each without interference.\<close>

definition after_cycle ::
  "(string option \<Rightarrow> work_error + 'r) \<Rightarrow> ('r \<Rightarrow> work_error + string) \<Rightarrow>
   (nat \<Rightarrow> 'r \<Rightarrow> work_error + 't \<times> 'r) \<Rightarrow> nat \<Rightarrow> string option \<Rightarrow> string option" where
  "after_cycle load save f i file =
     (case mutate_file load save (f i) file of Inl _ \<Rightarrow> file | Inr (_, file') \<Rightarrow> file')"

definition sequentially where
  "sequentially load save f is content = fold (after_cycle load save f) is content"

section \<open>The invariant\<close>

definition critical :: "'r pc \<Rightarrow> bool" where
  "critical p \<longleftrightarrow> (case p of Start \<Rightarrow> False | Finished _ \<Rightarrow> False | Dead \<Rightarrow> False | _ \<Rightarrow> True)"

text \<open>What a process has done so far, against the content that it found.\<close>

definition pc_ok where
  "pc_ok load save f i file tmp p \<longleftrightarrow>
     (case p of
        Loaded r \<Rightarrow> load file = Inr r
      | Mutated r' \<Rightarrow> (\<exists>r out. load file = Inr r \<and> f i r = Inr (out, r'))
      | Writing bytes k \<Rightarrow> tmp = Some (take k bytes) \<and> k \<le> length bytes \<and>
          (\<exists>r r' out. load file = Inr r \<and> f i r = Inr (out, r') \<and> save r' = Inr bytes)
      | _ \<Rightarrow> True)"

definition one_holder :: "(nat \<Rightarrow> 'r pc) \<Rightarrow> nat option \<Rightarrow> bool" where
  "one_holder ps h \<longleftrightarrow> (\<forall>i. critical (ps i) \<longleftrightarrow> h = Some i)"

definition cycles_ok where
  "cycles_ok load save f file tmps ps \<longleftrightarrow> (\<forall>i. pc_ok load save f i file (tmps i) (ps i))"

definition recorded :: "(nat \<Rightarrow> 'r pc) \<Rightarrow> nat list \<Rightarrow> bool" where
  "recorded ps done_list \<longleftrightarrow> distinct done_list \<and>
     (\<forall>i. ps i = Published \<or> ps i = Finished True \<longrightarrow> i \<in> set done_list) \<and>
     (\<forall>i\<in>set done_list. ps i \<in> {Published, Finished True, Dead})"

lemma critical_simps [simp]:
  "\<not> critical Start" "critical Locked" "critical (Loaded r)" "critical (Mutated r)"
  "critical (Writing b k)" "critical Published" "\<not> critical (Finished ok)" "\<not> critical Dead"
  by (simp_all add: critical_def)

lemma critical_iff: "critical p \<longleftrightarrow> p \<notin> {Start, Finished True, Finished False, Dead}"
  by (cases p) auto

lemma one_holder_D: "one_holder ps h \<Longrightarrow> critical (ps i) \<Longrightarrow> h = Some i"
  by (simp add: one_holder_def)

lemma one_holder_stay: "one_holder ps h \<Longrightarrow> critical (ps i) \<Longrightarrow> critical p \<Longrightarrow> one_holder (ps(i := p)) h"
  by (auto simp: one_holder_def)

lemma one_holder_drop:
  "one_holder ps h \<Longrightarrow> critical (ps i) \<Longrightarrow> \<not> critical p \<Longrightarrow> one_holder (ps(i := p)) None"
  by (auto simp: one_holder_def)

lemma one_holder_take: "one_holder ps None \<Longrightarrow> critical p \<Longrightarrow> one_holder (ps(i := p)) (Some i)"
  by (auto simp: one_holder_def)

lemma pc_ok_idle: "\<not> critical p \<Longrightarrow> pc_ok load save f i file tmp p"
  by (cases p) (simp_all add: pc_ok_def)

lemma pc_ok_simps [simp]:
  "pc_ok load save f i file tmp Locked" "pc_ok load save f i file tmp Published"
  "pc_ok load save f i file tmp (Loaded r) \<longleftrightarrow> load file = Inr r"
  "pc_ok load save f i file tmp (Mutated r') \<longleftrightarrow> (\<exists>r out. load file = Inr r \<and> f i r = Inr (out, r'))"
  "pc_ok load save f i file tmp (Writing bytes k) \<longleftrightarrow> tmp = Some (take k bytes) \<and> k \<le> length bytes \<and>
     (\<exists>r r' out. load file = Inr r \<and> f i r = Inr (out, r') \<and> save r' = Inr bytes)"
  by (simp_all add: pc_ok_def)

lemma cycles_ok_upd:
  assumes "one_holder ps h" "critical (ps i) \<or> h = None" "pc_ok load save f i file (tmps i) p"
  shows "cycles_ok load save f file tmps (ps(i := p))"
proof -
  have "pc_ok load save f j file (tmps j) (ps j)" if "j \<noteq> i" for j
    using assms(1,2) that by (intro pc_ok_idle) (auto simp: one_holder_def)
  then show ?thesis using assms(3) by (simp add: cycles_ok_def)
qed

lemma recorded_upd:
  "recorded ps ds \<Longrightarrow> ps i \<notin> {Published, Finished True, Dead} \<Longrightarrow> p \<notin> {Published, Finished True} \<Longrightarrow>
   recorded (ps(i := p)) ds"
  by (auto simp: recorded_def)

lemma recorded_finish:
  "recorded ps ds \<Longrightarrow> ps i = Published \<Longrightarrow> p \<in> {Finished True, Dead} \<Longrightarrow> recorded (ps(i := p)) ds"
  by (auto simp: recorded_def)

lemma recorded_publish:
  "recorded ps ds \<Longrightarrow> ps i = Writing b k \<Longrightarrow> recorded (ps(i := Published)) (ds @ [i])"
  by (auto simp: recorded_def)

definition writers_inv where
  "writers_inv load save f content s \<longleftrightarrow>
     one_holder (pcs s) (holder s) \<and> cycles_ok load save f (data_file s) (temps s) (pcs s) \<and>
     recorded (pcs s) (published s) \<and>
     data_file s = sequentially load save f (published s) content"

lemma cycles_ok_D: "cycles_ok load save f file tmps ps \<Longrightarrow> ps i = p \<Longrightarrow> pc_ok load save f i file (tmps i) p"
  by (auto simp: cycles_ok_def)

lemma writers_inv_step:
  assumes "writer_step load save f s t" "writers_inv load save f content s"
  shows "writers_inv load save f content t"
proof -
  have oh: "one_holder (pcs s) (holder s)"
    and cy: "cycles_ok load save f (data_file s) (temps s) (pcs s)"
    and rc: "recorded (pcs s) (published s)"
    and sq: "data_file s = sequentially load save f (published s) content"
    using assms(2) by (auto simp: writers_inv_def)
  note stay = one_holder_stay [OF oh] one_holder_drop [OF oh] cycles_ok_upd [OF oh] recorded_upd [OF rc]
  from assms(1) show ?thesis
  proof cases
    case (take_lock i)
    then show ?thesis using oh rc sq cycles_ok_upd [OF oh, of i load save f _ _ Locked] recorded_upd [OF rc, of i]
      by (simp add: writers_inv_def one_holder_take)
  next
    case (read_file i r)
    then show ?thesis using sq by (simp add: writers_inv_def stay)
  next
    case (read_fails i e)
    then show ?thesis using sq by (simp add: writers_inv_def stay pc_ok_idle)
  next
    case (mutate i r out r')
    then show ?thesis using sq cycles_ok_D [OF cy mutate(2)] by (auto simp: writers_inv_def stay)
  next
    case (mutate_fails i r e)
    then show ?thesis using sq by (simp add: writers_inv_def stay pc_ok_idle)
  next
    case (create_temp i r bytes)
    then show ?thesis using sq cycles_ok_D [OF cy create_temp(2)] by (auto simp: writers_inv_def stay)
  next
    case (save_fails i r e)
    then show ?thesis using sq by (simp add: writers_inv_def stay pc_ok_idle)
  next
    case (write_temp i bytes k)
    then show ?thesis using sq cycles_ok_D [OF cy write_temp(2)] by (auto simp: writers_inv_def stay)
  next
    case (rename i bytes)
    from cycles_ok_D [OF cy rename(2)] obtain r r' out where
      c: "temps s i = Some bytes" "load (data_file s) = Inr r" "f i r = Inr (out, r')" "save r' = Inr bytes"
      by auto
    then have "after_cycle load save f i (data_file s) = Some bytes"
      by (simp add: after_cycle_def mutate_file_def)
    then show ?thesis using rename sq c(1) recorded_publish [OF rc rename(2)]
      by (simp add: writers_inv_def stay sequentially_def)
  next
    case (write_fails i bytes k)
    then show ?thesis using sq by (simp add: writers_inv_def stay pc_ok_idle)
  next
    case (release i)
    then show ?thesis using sq recorded_finish [OF rc] by (simp add: writers_inv_def stay pc_ok_idle)
  next
    case (die i)
    then have "critical (pcs s i)" by (simp add: critical_iff)
    moreover have "recorded ((pcs s)(i := Dead)) (published s)"
      using die recorded_finish [OF rc, of i Dead] recorded_upd [OF rc, of i Dead]
      by (cases "pcs s i = Published") auto
    ultimately show ?thesis using die sq by (simp add: writers_inv_def stay pc_ok_idle)
  qed
qed

lemma writers_inv_boot: "writers_inv load save f content (boot content)"
  by (simp add: writers_inv_def boot_def one_holder_def cycles_ok_def recorded_def sequentially_def pc_ok_idle)

lemma writers_reach_inv: "writers_reach load save f content s \<Longrightarrow> writers_inv load save f content s"
  by (induction rule: writers_reach.induct) (auto intro: writers_inv_boot writers_inv_step)

section \<open>Properties\<close>

text \<open>C21: Locked updates are linearizable: in every reachable state, with any interleaving of the
  writers and any crashes, the file holds exactly what the cycles of the published processes give
  one after another in the order of their renames. It is never torn, no update is lost (a process
  that finished with success is in that order exactly once) and at most one process is in its
  critical section.\<close>
theorem writers_linearizable:
  assumes "writers_reach load save f content s"
  shows "data_file s = sequentially load save f (published s) content \<and>
    distinct (published s) \<and>
    (\<forall>i. pcs s i = Finished True \<longrightarrow> i \<in> set (published s)) \<and>
    (\<forall>i. pcs s i = Finished False \<longrightarrow> i \<notin> set (published s)) \<and>
    (\<forall>i j. critical (pcs s i) \<and> critical (pcs s j) \<longrightarrow> i = j)"
proof -
  have inv: "writers_inv load save f content s" using writers_reach_inv [OF assms] .
  have "i = j" if "critical (pcs s i)" "critical (pcs s j)" for i j
    using inv one_holder_D [of "pcs s" "holder s" i] one_holder_D [of "pcs s" "holder s" j] that
    by (simp add: writers_inv_def)
  then show ?thesis using inv by (force simp: writers_inv_def recorded_def)
qed

definition text_load :: "string option \<Rightarrow> work_error + string" where
  "text_load file = Inr (case file of None \<Rightarrow> [] | Some b \<Rightarrow> b)"

definition text_append :: "nat \<Rightarrow> string \<Rightarrow> work_error + unit \<times> string" where
  "text_append i r = Inr ((), r @ [CHR ''x''])"

text \<open>Process 1 dies after reading the file; process 0 then runs its whole cycle.\<close>
lemma writers_example:
  "\<exists>s. writers_reach text_load Inr text_append None s \<and> pcs s 0 = Finished True \<and> pcs s 1 = Dead \<and>
     published s = [0]"
proof -
  let ?R = "writers_reach text_load Inr text_append None"
  have read: "text_load None = Inr []" by (simp add: text_load_def)
  have app: "text_append i [] = Inr ((), ''x'')" for i by (simp add: text_append_def)
  have "?R (boot None)" by (rule booted)
  from steps [OF this take_lock [of _ 1]]
  obtain s where "?R s" "pcs s 0 = Start" "pcs s 1 = Locked" "data_file s = None" "published s = []"
    by (auto simp: boot_def)
  from steps [OF this(1) read_file [OF this(3)], of "[]"] this read
  obtain s where "?R s" "pcs s 0 = Start" "pcs s 1 = Loaded []" "data_file s = None" "published s = []"
    by auto
  from steps [OF this(1) die [of _ 1]] this
  obtain s where "?R s" "pcs s 0 = Start" "pcs s 1 = Dead" "data_file s = None" "published s = []" "holder s = None"
    by auto
  from steps [OF this(1) take_lock [of _ 0]] this
  obtain s where "?R s" "pcs s 0 = Locked" "pcs s 1 = Dead" "data_file s = None" "published s = []"
    by auto
  from steps [OF this(1) read_file [OF this(2)], of "[]"] this read
  obtain s where "?R s" "pcs s 0 = Loaded []" "pcs s 1 = Dead" "data_file s = None" "published s = []"
    by auto
  from steps [OF this(1) mutate [OF this(2), of text_append, OF app]] this
  obtain s where "?R s" "pcs s 0 = Mutated ''x''" "pcs s 1 = Dead" "published s = []"
    by auto
  from steps [OF this(1) create_temp [OF this(2) refl]] this
  obtain s where "?R s" "pcs s 0 = Writing ''x'' 0" "pcs s 1 = Dead" "published s = []"
    by auto
  from steps [OF this(1) write_temp [OF this(2)]] this
  obtain s where "?R s" "pcs s 0 = Writing ''x'' 1" "pcs s 1 = Dead" "published s = []"
    by auto
  from steps [OF this(1) rename [of _ 0 "''x''"]] this
  obtain s where "?R s" "pcs s 0 = Published" "pcs s 1 = Dead" "published s = [0]"
    by auto
  from steps [OF this(1) release [OF this(2)]] this show ?thesis by auto
qed

lemma writers_linearizable_witness:
  "\<exists>s. writers_reach text_load Inr text_append None s \<and> pcs s 0 = Finished True \<and>
     data_file s = Some ''x'' \<and> data_file s = sequentially text_load Inr text_append (published s) None"
proof -
  obtain s where s: "writers_reach text_load Inr text_append None s" "pcs s 0 = Finished True" "published s = [0]"
    using writers_example by blast
  from writers_linearizable [OF s(1)] have "data_file s = sequentially text_load Inr text_append [0] None"
    by (simp add: s(3))
  moreover have "sequentially text_load Inr text_append [0] None = Some ''x''" by code_simp
  ultimately show ?thesis using s by (intro exI [of _ s]) simp
qed

lemma step_alive:
  "writer_step load save f s t \<Longrightarrow> pcs t = (pcs s)(j := p) \<Longrightarrow> p \<noteq> Dead \<Longrightarrow>
   \<exists>t. writer_step load save f s t \<and> (\<forall>j. pcs t j = Dead \<longrightarrow> pcs s j = Dead)"
  by (rule exI [of _ t]) simp

lemma critical_progress:
  assumes "cycles_ok load save f (data_file s) (temps s) (pcs s)" "critical (pcs s j)"
  shows "\<exists>t. writer_step load save f s t \<and> (\<forall>j. pcs t j = Dead \<longrightarrow> pcs s j = Dead)"
proof (cases "pcs s j")
  case Locked
  show ?thesis
  proof (cases "load (data_file s)")
    case (Inl e)
    show ?thesis by (rule step_alive [OF read_fails [where load = load and save = save and f = f and s = s and i = j, OF Locked Inl]], simp, simp)
  next
    case (Inr r)
    show ?thesis by (rule step_alive [OF read_file [where load = load and save = save and f = f and s = s and i = j, OF Locked Inr]], simp, simp)
  qed
next
  case (Loaded r)
  show ?thesis
  proof (cases "f j r")
    case (Inl e)
    show ?thesis by (rule step_alive [OF mutate_fails [where load = load and save = save and f = f and s = s and i = j, OF Loaded Inl]], simp, simp)
  next
    case (Inr x)
    obtain out r' where x: "f j r = Inr (out, r')" using Inr by (cases x) auto
    show ?thesis by (rule step_alive [OF mutate [where load = load and save = save and f = f and s = s and i = j, OF Loaded x]], simp, simp)
  qed
next
  case (Mutated r)
  show ?thesis
  proof (cases "save r")
    case (Inl e)
    show ?thesis by (rule step_alive [OF save_fails [where load = load and save = save and f = f and s = s and i = j, OF Mutated Inl]], simp, simp)
  next
    case (Inr b)
    show ?thesis by (rule step_alive [OF create_temp [where load = load and save = save and f = f and s = s and i = j, OF Mutated Inr]], simp, simp)
  qed
next
  case (Writing b k)
  show ?thesis
  proof (cases "k < length b")
    case True
    show ?thesis by (rule step_alive [OF write_temp [where load = load and save = save and f = f and s = s and i = j, OF Writing True]], simp, simp)
  next
    case False
    then have "pcs s j = Writing b (length b)" using Writing cycles_ok_D [OF assms(1) Writing] by simp
    then show ?thesis by (rule step_alive [OF rename [where load = load and save = save and f = f and s = s and i = j and bytes = b]], simp, simp)
  qed
next
  case Published
  show ?thesis by (rule step_alive [OF release [where load = load and save = save and f = f and s = s and i = j, OF Published]], simp, simp)
qed (use assms(2) in auto)

text \<open>C22: No deadlock: in every reachable state in which some process has not ended, some process
  can take a step other than dying, whatever the loads, mutations and saves answer.\<close>
theorem writers_progress:
  assumes "writers_reach load save f content s" "pcs s i = Start \<or> critical (pcs s i)"
  shows "\<exists>t. writer_step load save f s t \<and> (\<forall>j. pcs t j = Dead \<longrightarrow> pcs s j = Dead)"
proof -
  have inv: "one_holder (pcs s) (holder s)" "cycles_ok load save f (data_file s) (temps s) (pcs s)"
    using writers_reach_inv [OF assms(1)] by (auto simp: writers_inv_def)
  show ?thesis
  proof (cases "holder s")
    case None
    then have "pcs s i = Start" using assms(2) inv(1) by (auto simp: one_holder_def)
    show ?thesis by (rule step_alive [OF take_lock [where load = load and save = save and f = f and s = s and i = i, OF \<open>pcs s i = Start\<close> None]], simp, simp)
  next
    case (Some j)
    then have "critical (pcs s j)" using inv(1) by (simp add: one_holder_def)
    then show ?thesis by (rule critical_progress [OF inv(2)])
  qed
qed

lemma writers_progress_witness:
  "\<exists>t. writer_step text_load Inr text_append (boot None) t \<and> (\<forall>j. pcs t j \<noteq> Dead)"
  using writers_progress [OF booted [of text_load Inr text_append None], of 0] by (simp add: boot_def)

end
