(* ===== verification/Drivers.thy ===== *)
theory Drivers
  imports Merge3 DefMatch ObjectStore
begin

text \<open>
  The driver layer of \<open>omoplata-drivers\<close>: \<open>lib.rs\<close> (inputs, outputs, the selection of a driver by
  file extension), \<open>line.rs\<close> and \<open>mergiraf.rs\<close>. The mergiraf binary is not part of the repository:
  its run is a parameter, and the availability probe a boolean.
\<close>

section \<open>Inputs and outputs\<close>

record merge_input =
  base_text :: string
  left_text :: string
  right_text :: string
  merge_path :: string

record driver_output =
  out_merged :: string
  new_conflicts :: "conflict list"
  carried :: "conflict list"
  driver :: string

datatype driver_error = Parse identity_error | Tool string

definition output_clean :: "driver_output \<Rightarrow> bool" where
  "output_clean d \<longleftrightarrow> new_conflicts d = [] \<and> carried d = []"

definition is_mergeable :: "driver_output \<Rightarrow> bool" where
  "is_mergeable d \<longleftrightarrow> new_conflicts d = []"

section \<open>The line driver\<close>

definition line_merge :: "merge_input \<Rightarrow> driver_error + driver_output" where
  "line_merge inp =
     (let m = merge3 (from_str (base_text inp)) (from_str (left_text inp)) (from_str (right_text inp)) in
      Inr \<lparr>out_merged = doc_to_string (merged m), new_conflicts = conflicts m, carried = [],
           driver = ''line''\<rparr>)"

section \<open>The mergiraf driver\<close>

definition extension_of :: "string \<Rightarrow> string option" where
  "extension_of path =
     (case rsplit_once CHR ''.'' (last (split_on CHR ''/'' path)) of
        Some (_, e) \<Rightarrow> if e \<noteq> [] then Some e else None
      | None \<Rightarrow> None)"

definition SUPPORTED_EXTENSIONS :: "string list" where
  "SUPPORTED_EXTENSIONS =
     [''c'', ''h'', ''cc'', ''hh'', ''cpp'', ''hpp'', ''cxx'', ''hxx'', ''c++'', ''h++'', ''mpp'', ''cppm'',
      ''ixx'', ''tcc'', ''cs'', ''go'', ''rs'', ''java'', ''kt'', ''kts'', ''scala'', ''sbt'', ''dart'',
      ''sol'', ''sv'', ''svh'', ''f'', ''for'', ''f90'', ''py'', ''rb'', ''php'', ''phtml'', ''php3'',
      ''php4'', ''php5'', ''phps'', ''phpt'', ''lua'', ''js'', ''jsx'', ''mjs'', ''cjs'', ''ts'', ''mts'',
      ''cts'', ''tsx'', ''sh'', ''bash'', ''r'', ''gleam'', ''ex'', ''exs'', ''json'', ''yaml'', ''yml'',
      ''toml'', ''xml'', ''xhtml'', ''html'', ''htm'', ''ini'', ''properties'', ''nix'', ''hcl'', ''tf'',
      ''tfvars'', ''md'', ''scm'', ''dts'', ''bzl'', ''bxl'', ''bazel'', ''star'', ''sky'', ''cmake'',
      ''mk'', ''ml'', ''mli'', ''hs'']"

definition supports_extension :: "string \<Rightarrow> bool" where
  "supports_extension path =
     (case extension_of path of
        Some ext \<Rightarrow> map ascii_lower ext \<in> set SUPPORTED_EXTENSIONS
      | None \<Rightarrow> False)"

definition is_marker :: "string \<Rightarrow> string \<Rightarrow> bool" where
  "is_marker ln sigil \<longleftrightarrow> ln = sigil \<or> prefix sigil ln \<and> prefix '' '' (drop (length sigil) ln)"

text \<open>
  The nested loops of \<open>parse_diff3_conflicts\<close> as one loop: outside a block, or inside one with its
  section (0 left, 1 base, 2 right) and the lines of the three sections.
\<close>

type_synonym diff3_block = "nat \<times> line list \<times> line list \<times> line list"

fun diff3_loop :: "line list \<Rightarrow> diff3_block option \<Rightarrow> conflict list \<Rightarrow> conflict list" where
  "diff3_loop [] cur acc = acc"
| "diff3_loop (l # ls) None acc =
     (if \<not> is_marker l ''<<<<<<<'' then diff3_loop ls None acc
      else diff3_loop ls (Some (0, [], [], [])) acc)"
| "diff3_loop (l # ls) (Some (section, lft, bse, rgt)) acc =
     (if is_marker l ''|||||||'' then
        diff3_loop ls (if section = 0 then Some (1, lft, bse, rgt) else None) acc
      else if is_marker l ''======='' then
        diff3_loop ls (if section \<le> 1 then Some (2, lft, bse, rgt) else None) acc
      else if is_marker l ''>>>>>>>'' then
        diff3_loop ls None (acc @ [\<lparr>cbase = bse, cleft = lft, cright = rgt\<rparr>])
      else if section = 0 then diff3_loop ls (Some (section, lft @ [l], bse, rgt)) acc
      else if section = 1 then diff3_loop ls (Some (section, lft, bse @ [l], rgt)) acc
      else diff3_loop ls (Some (section, lft, bse, rgt @ [l])) acc)"

definition parse_diff3_conflicts :: "string \<Rightarrow> conflict list" where
  "parse_diff3_conflicts s = diff3_loop (str_lines s) None []"

text \<open>
  A run of the binary on the three sides, given the extension of the temporary files: its exit code
  if it was not killed by a signal, its output file as \<open>read_out\<close> returns it, and its stderr. An
  error is one of the temporary directory, of writing a side or of spawning.
\<close>

record tool_run =
  exit_code :: "int option"
  out_file :: "driver_error + string"
  stderr_text :: string

definition show_int :: "int \<Rightarrow> string" where
  "show_int i = (if i < 0 then ''-'' @ show_nat (nat (- i)) else show_nat (nat i))"

definition mergiraf_merge ::
  "(string option \<Rightarrow> merge_input \<Rightarrow> driver_error + tool_run) \<Rightarrow> merge_input \<Rightarrow> driver_error + driver_output" where
  "mergiraf_merge run inp =
     and_then (run (extension_of (merge_path inp)) inp) (\<lambda>r.
       if exit_code r = Some 0 then
         and_then (out_file r) (\<lambda>m.
           Inr \<lparr>out_merged = m, new_conflicts = [], carried = [], driver = ''mergiraf''\<rparr>)
       else if exit_code r = Some 1 then
         and_then (out_file r) (\<lambda>m.
           Inr \<lparr>out_merged = m, new_conflicts = parse_diff3_conflicts m, carried = [],
                driver = ''mergiraf''\<rparr>)
       else
         Inl (Tool (''mergiraf failed ('' @
           (case exit_code r of Some c \<Rightarrow> ''exit '' @ show_int c | None \<Rightarrow> ''terminated by signal'') @
           ''): '' @ trim (stderr_text r))))"

section \<open>Selection\<close>

datatype merge_driver = RustStructuralDriver | MergirafDriver | LineDriver

definition driver_name :: "merge_driver \<Rightarrow> string" where
  "driver_name d =
     (case d of RustStructuralDriver \<Rightarrow> ''rust-structural'' | MergirafDriver \<Rightarrow> ''mergiraf''
      | LineDriver \<Rightarrow> ''line'')"

definition has_extension :: "string \<Rightarrow> string \<Rightarrow> bool" where
  "has_extension path ext =
     (case rsplit_once CHR ''.'' (last (split_on CHR ''/'' path)) of
        Some (_, e) \<Rightarrow> e = ext
      | None \<Rightarrow> False)"

definition select_driver :: "bool \<Rightarrow> string \<Rightarrow> merge_driver" where
  "select_driver mergiraf_available path =
     (if has_extension path ''rs'' then RustStructuralDriver
      else if mergiraf_available \<and> supports_extension path then MergirafDriver
      else LineDriver)"

section \<open>Marker blocks\<close>


definition any_marker :: "line \<Rightarrow> bool" where
  "any_marker l \<longleftrightarrow> list_ex (is_marker l) [''<<<<<<<'', ''|||||||'', ''======='', ''>>>>>>>'']"

lemma diff3_outside:
  "list_all (\<lambda>l. \<not> any_marker l) ls \<Longrightarrow> diff3_loop (ls @ rest) None acc = diff3_loop rest None acc"
  by (induction ls) (auto simp: any_marker_def)

lemma diff3_inside:
  assumes "list_all (\<lambda>l. \<not> any_marker l) ls"
  shows "diff3_loop (ls @ rest) (Some (0, lft, bse, rgt)) acc = diff3_loop rest (Some (0, lft @ ls, bse, rgt)) acc"
    and "diff3_loop (ls @ rest) (Some (Suc 0, lft, bse, rgt)) acc = diff3_loop rest (Some (Suc 0, lft, bse @ ls, rgt)) acc"
    and "diff3_loop (ls @ rest) (Some (2, lft, bse, rgt)) acc = diff3_loop rest (Some (2, lft, bse, rgt @ ls)) acc"
  using assms by (induction ls arbitrary: lft bse rgt) (auto simp: any_marker_def)

text \<open>A diff3 rendering: each conflict with the clean lines before it, then the remainder.\<close>

definition diff3_block_lines :: "conflict \<Rightarrow> line list" where
  "diff3_block_lines c =
     ''<<<<<<< left'' # cleft c @ ''||||||| base'' # cbase c @ ''======='' # cright c @ [''>>>>>>> right'']"

definition diff3_lines :: "(line list \<times> conflict) list \<Rightarrow> line list \<Rightarrow> line list" where
  "diff3_lines bs post = concat (map (\<lambda>(txt, c). txt @ diff3_block_lines c) bs) @ post"

definition side_line :: "line \<Rightarrow> bool" where
  "side_line l \<longleftrightarrow> plain_line l \<and> \<not> any_marker l"

definition sides_plain :: "line list \<times> conflict \<Rightarrow> bool" where
  "sides_plain b \<longleftrightarrow> list_all side_line (fst b @ cbase (snd b) @ cleft (snd b) @ cright (snd b))"

lemma list_all_side: "list_all side_line ls \<Longrightarrow> list_all (\<lambda>l. \<not> any_marker l) ls \<and> list_all plain_line ls"
  by (simp add: side_line_def list_all_iff)

lemma diff3_loop_block:
  assumes "sides_plain (txt, c)"
  shows "diff3_loop (txt @ diff3_block_lines c @ rest) None acc = diff3_loop rest None (acc @ [c])"
proof -
  have plain: "list_all (\<lambda>l. \<not> any_marker l) ls" if "ls \<in> {txt, cbase c, cleft c, cright c}" for ls
    using assms that by (auto simp: sides_plain_def list_all_iff side_line_def)
  have marks: "is_marker ''<<<<<<< left'' ''<<<<<<<''" "is_marker ''||||||| base'' ''|||||||''"
    "\<not> is_marker ''======='' ''|||||||''" "is_marker ''======='' ''=======''"
    "\<not> is_marker ''>>>>>>> right'' ''|||||||''" "\<not> is_marker ''>>>>>>> right'' ''=======''"
    "is_marker ''>>>>>>> right'' ''>>>>>>>''"
    by (simp_all add: is_marker_def)
  show ?thesis
    by (cases c) (use plain in \<open>simp add: diff3_block_lines_def diff3_outside diff3_inside marks\<close>)
qed

lemma diff3_loop_lines:
  "list_all sides_plain bs \<Longrightarrow> list_all side_line post \<Longrightarrow>
   diff3_loop (diff3_lines bs post) None acc = acc @ map snd bs"
proof (induction bs arbitrary: acc)
  case Nil
  then show ?case using diff3_outside [of post "[]"] by (simp add: diff3_lines_def list_all_side)
next
  case (Cons b bs)
  then show ?case using diff3_loop_block [of "fst b" "snd b"] by (cases b) (simp add: diff3_lines_def)
qed

lemma diff3_lines_plain:
  "list_all sides_plain bs \<Longrightarrow> list_all side_line post \<Longrightarrow> list_all plain_line (diff3_lines bs post)"
proof (induction bs)
  case Nil
  then show ?case by (simp add: diff3_lines_def list_all_side)
next
  case (Cons b bs)
  have "list_all plain_line [''<<<<<<< left'', ''||||||| base'', ''======='', ''>>>>>>> right'']"
    by (simp add: plain_line_def)
  then show ?case using Cons
    by (cases b) (simp add: diff3_lines_def diff3_block_lines_def sides_plain_def list_all_side)
qed

section \<open>Properties\<close>

text \<open>The structured conflicts are the source of truth for mergiraf too: from a diff3 rendering with
any clean text around and between the blocks, \<open>parse_diff3_conflicts\<close> recovers exactly the
conflicts, in order, with their three sides, whenever no line of the text is itself a marker.\<close>
theorem diff3_roundtrip:
  assumes "list_all sides_plain bs" "list_all side_line post"
  shows "parse_diff3_conflicts (unlines (diff3_lines bs post)) = map snd bs"
  using assms by (simp add: parse_diff3_conflicts_def str_lines_unlines diff3_lines_plain diff3_loop_lines)

lemma diff3_roundtrip_witness:
  "parse_diff3_conflicts (unlines (diff3_lines
     [([''fn a''], \<lparr>cbase = [''b''], cleft = [''l'', ''''], cright = []\<rparr>)] [''end'']))
   = [\<lparr>cbase = [''b''], cleft = [''l'', ''''], cright = []\<rparr>]"
  using diff3_roundtrip [of "[([''fn a''], \<lparr>cbase = [''b''], cleft = [''l'', ''''], cright = []\<rparr>)]" "[''end'']"]
  by (simp add: sides_plain_def side_line_def plain_line_def any_marker_def is_marker_def)

end
