(* ===== verification/ConflictValues.thy ===== *)
theory ConflictValues
  imports Drivers
begin

text \<open>
  Conflict values in the structural driver for Rust, \<open>rust.rs\<close>: marker blocks are scanned and
  sanitized out of a text so that it parses, the sanitized text is segmented into items and the gaps
  between them, and each value is pinned to the item that contains it and spliced back. \<open>None\<close> at
  the outer level is a panic of \<open>replace_range\<close> or of a string slice. The tree-sitter grammar, its
  parser and SHA-256 are the fields of a record.
\<close>

section \<open>Conflict values: scanning and sanitizing\<close>

record grammar =
  sha256_hex :: "string \<Rightarrow> string"
  language_error :: "string option"
  syntax_tree :: "string \<Rightarrow> node option"
  tree_has_error :: "node \<Rightarrow> bool"

abbreviation definitions_of :: "grammar \<Rightarrow> string \<Rightarrow> identity_error + defn list" where
  "definitions_of g \<equiv> extract_definitions (sha256_hex g) (language_error g) (syntax_tree g)"

record marker_block =
  mb_original :: string
  mb_left :: "line list"
  mb_right :: "line list"

type_synonym located_block = "nat \<times> nat \<times> marker_block"

definition START_PREFIX :: string where "START_PREFIX = ''<<<<<<<''"
definition END_PREFIX :: string where "END_PREFIX = ''>>>>>>>''"

definition trim_start :: "string \<Rightarrow> string" where
  "trim_start s = strip_pats ws_chars s"

text \<open>The open block \<open>cur\<close>: its start, its left lines and, after the separator, its right lines.\<close>

type_synonym open_block = "nat \<times> line list \<times> line list option"

fun scan_loop ::
  "string \<Rightarrow> string list \<Rightarrow> nat \<Rightarrow> open_block option \<Rightarrow> located_block list \<Rightarrow> located_block list option" where
  "scan_loop txt [] pos cur blocks = (if cur \<noteq> None then None else Some blocks)"
| "scan_loop txt (ln # lns) pos cur blocks =
     (let start = pos; pos' = pos + length ln; stripped = strip_newline ln; trimmed = trim_start stripped in
      if prefix START_PREFIX trimmed then
        (if cur \<noteq> None then None else scan_loop txt lns pos' (Some (start, [], None)) blocks)
      else if trimmed = CONFLICT_SEP then
        (case cur of
           Some (bstart, lft, None) \<Rightarrow> scan_loop txt lns pos' (Some (bstart, lft, Some [])) blocks
         | _ \<Rightarrow> None)
      else if prefix END_PREFIX trimmed then
        (case cur of
           Some (bstart, lft, Some rgt) \<Rightarrow>
             (let bend = start + length stripped in
              case str_get bstart bend txt of
                None \<Rightarrow> None
              | Some original \<Rightarrow>
                  scan_loop txt lns pos' None
                    (blocks @ [(bstart, bend, \<lparr>mb_original = original, mb_left = lft, mb_right = rgt\<rparr>)]))
         | _ \<Rightarrow> None)
      else
        (case cur of
           None \<Rightarrow> scan_loop txt lns pos' None blocks
         | Some (bstart, lft, None) \<Rightarrow> scan_loop txt lns pos' (Some (bstart, lft @ [stripped], None)) blocks
         | Some (bstart, lft, Some rgt) \<Rightarrow>
             scan_loop txt lns pos' (Some (bstart, lft, Some (rgt @ [stripped]))) blocks))"

definition scan_marker_blocks :: "string \<Rightarrow> located_block list option" where
  "scan_marker_blocks txt = scan_loop txt (split_inclusive newline txt) 0 None []"

record prepared =
  sanitized :: string
  pvalues :: "((nat \<times> nat) \<times> marker_block) list"

fun prepare_loop ::
  "string \<Rightarrow> located_block list \<Rightarrow> string \<Rightarrow> ((nat \<times> nat) \<times> marker_block) list \<Rightarrow> nat \<Rightarrow> prepared option" where
  "prepare_loop txt [] san vals cursor =
     (case str_get cursor (length txt) txt of
        None \<Rightarrow> None
      | Some rest \<Rightarrow> Some \<lparr>sanitized = san @ rest, pvalues = vals\<rparr>)"
| "prepare_loop txt ((bstart, bend, block) # bs) san vals cursor =
     (case str_get cursor bstart txt of
        None \<Rightarrow> None
      | Some pre \<Rightarrow>
          (let rstart = length (san @ pre); san' = san @ pre @ join_with newline (mb_left block) in
           prepare_loop txt bs san' (vals @ [((rstart, length san'), block)]) bend))"

definition prepared_of :: "string \<Rightarrow> prepared option" where
  "prepared_of txt =
     (case scan_marker_blocks txt of
        None \<Rightarrow> None
      | Some blocks \<Rightarrow>
          if blocks = [] then Some \<lparr>sanitized = txt, pvalues = []\<rparr>
          else prepare_loop txt blocks [] [] 0)"

section \<open>Segmentation\<close>

record item =
  idef :: defn
  itext :: string
  original_text :: string
  icarried :: "conflict list"
  irange :: "nat \<times> nat"

record segmentation =
  items :: "item list"
  gaps :: "string list"

definition conflict_free :: "defn \<Rightarrow> string \<Rightarrow> nat \<times> nat \<Rightarrow> item" where
  "conflict_free d t r = \<lparr>idef = d, itext = t, original_text = t, icarried = [], irange = r\<rparr>"

definition get_or_empty :: "nat \<Rightarrow> nat \<Rightarrow> string \<Rightarrow> string" where
  "get_or_empty i j s = (case str_get i j s of Some t \<Rightarrow> t | None \<Rightarrow> [])"

fun segment_loop ::
  "string \<Rightarrow> defn list \<Rightarrow> nat \<Rightarrow> nat \<Rightarrow> item list \<Rightarrow> string list \<Rightarrow> segmentation" where
  "segment_loop source [] covered_end cursor its gs =
     \<lparr>items = its, gaps = gs @ [get_or_empty cursor (length source) source]\<rparr>"
| "segment_loop source (d # ds) covered_end cursor its gs =
     (if fst (byte_range d) < covered_end then segment_loop source ds covered_end cursor its gs
      else (let start = fst (byte_range d); finish = snd (byte_range d) in
        segment_loop source ds finish finish
          (its @ [conflict_free d (get_or_empty start finish source) (start, finish)])
          (gs @ [get_or_empty cursor start source])))"

definition segmentation_of :: "grammar \<Rightarrow> string \<Rightarrow> driver_error + segmentation" where
  "segmentation_of g source =
     (case definitions_of g source of
        Inl e \<Rightarrow> Inl (Parse e)
      | Inr ds \<Rightarrow> Inr (segment_loop source ds 0 0 [] []))"

definition item_at :: "segmentation \<Rightarrow> nat \<Rightarrow> item option" where
  "item_at seg i = nth_opt (items seg) i"

text \<open>\<open>String::replace_range\<close> panics on a range that is not on character boundaries.\<close>

definition replace_range :: "nat \<Rightarrow> nat \<Rightarrow> string \<Rightarrow> string \<Rightarrow> string option" where
  "replace_range i j r s =
     (if i \<le> j \<and> is_char_boundary s i \<and> is_char_boundary s j then Some (take i s @ r @ drop j s) else None)"

type_synonym pin = "nat \<times> (nat \<times> nat) \<times> marker_block"

fun pin_values :: "item list \<Rightarrow> ((nat \<times> nat) \<times> marker_block) list \<Rightarrow> pin list option" where
  "pin_values its [] = Some []"
| "pin_values its (((lo, hi), block) # vs) =
     (case position (\<lambda>it. fst (irange it) \<le> lo \<and> hi \<le> snd (irange it)) its of
        None \<Rightarrow> None
      | Some idx \<Rightarrow>
          (let item_start = fst (irange (its ! idx)) in
           map_option ((#) (idx, (lo - item_start, hi - item_start), block)) (pin_values its vs)))"

definition block_conflict :: "marker_block \<Rightarrow> conflict" where
  "block_conflict b = \<lparr>cbase = [], cleft = mb_left b, cright = mb_right b\<rparr>"

fun splice_pins :: "pin list \<Rightarrow> item list \<Rightarrow> item list option" where
  "splice_pins [] its = Some its"
| "splice_pins ((idx, (lo, hi), block) # ps) its =
     (case replace_range lo hi (mb_original block) (original_text (its ! idx)) of
        None \<Rightarrow> None
      | Some t \<Rightarrow>
          splice_pins ps
            (its[idx := (its ! idx)\<lparr>original_text := t,
                                    icarried := block_conflict block # icarried (its ! idx)\<rparr>]))"

definition segment :: "grammar \<Rightarrow> prepared \<Rightarrow> segmentation option option" where
  "segment g p =
     (case segmentation_of g (sanitized p) of
        Inl _ \<Rightarrow> Some None
      | Inr seg \<Rightarrow>
        (case pin_values (items seg) (pvalues p) of
           None \<Rightarrow> Some None
         | Some pins \<Rightarrow> map_option (\<lambda>its. Some (seg\<lparr>items := its\<rparr>)) (splice_pins (rev pins) (items seg))))"

section \<open>The query of the conflict values\<close>

record conflict_value =
  cv_definition :: "string option"
  cv_line :: nat
  cv_left :: "line list"
  cv_right :: "line list"

text \<open>\<open>max_by_key\<close> returns the last maximum.\<close>

definition deepest :: "defn list \<Rightarrow> defn option" where
  "deepest ds =
     fold (\<lambda>d best. case best of None \<Rightarrow> Some d
        | Some m \<Rightarrow> if fst (byte_range m) \<le> fst (byte_range d) then Some d else best) ds None"

fun value_loop ::
  "string \<Rightarrow> defn list \<Rightarrow> ((nat \<times> nat) \<times> marker_block) list \<Rightarrow> located_block list \<Rightarrow> conflict_value list option" where
  "value_loop source ds (((lo, hi), _) # vs) ((bstart, _, block) # bs) =
     (case str_get 0 bstart source of
        None \<Rightarrow> None
      | Some pre \<Rightarrow>
          map_option ((#) \<lparr>cv_definition =
              map_option dpath (deepest (filter (\<lambda>d. fst (byte_range d) \<le> lo \<and> hi \<le> snd (byte_range d)) ds)),
            cv_line = length (filter (\<lambda>c. c = newline) pre) + 1,
            cv_left = mb_left block, cv_right = mb_right block\<rparr>) (value_loop source ds vs bs))"
| "value_loop source ds _ _ = Some []"

definition conflict_values :: "grammar \<Rightarrow> string \<Rightarrow> conflict_value list option option" where
  "conflict_values g source =
     (case prepared_of source of
        None \<Rightarrow> Some None
      | Some p \<Rightarrow>
        if pvalues p = [] then Some (Some [])
        else (case definitions_of g (sanitized p) of
            Inl _ \<Rightarrow> Some None
          | Inr ds \<Rightarrow>
            (case scan_marker_blocks source of
               None \<Rightarrow> Some None
             | Some blocks \<Rightarrow> map_option Some (value_loop source ds (pvalues p) blocks))))"

section \<open>What a scan finds\<close>

text \<open>Well-formed text: no line begins with a continuation byte, as in every UTF-8 text.\<close>

definition wf_text :: "string \<Rightarrow> bool" where
  "wf_text s \<longleftrightarrow> list_all (\<lambda>ln. ln = [] \<or> \<not> cont (hd ln)) (split_on newline s)"

definition line_ok :: "line \<Rightarrow> bool" where
  "line_ok l \<longleftrightarrow> newline \<notin> set l \<and> (l = [] \<or> \<not> cont (hd l))"

fun blocks_ok :: "string \<Rightarrow> nat \<Rightarrow> located_block list \<Rightarrow> bool" where
  "blocks_ok txt c [] = True"
| "blocks_ok txt c ((s, e, b) # bs) =
     (c \<le> s \<and> s < e \<and> str_get s e txt = Some (mb_original b) \<and> (e = length txt \<or> txt ! e = newline) \<and>
      list_all line_ok (mb_left b) \<and> blocks_ok txt (Suc e) bs)"

lemma split_inclusive_ConsD:
  "split_inclusive c s = ln # lns \<Longrightarrow>
     s = ln @ concat lns \<and> lns = split_inclusive c (concat lns) \<and> ln \<noteq> [] \<and> c \<notin> set (butlast ln) \<and>
     (last ln \<noteq> c \<longrightarrow> lns = [])"
proof (induction s arbitrary: ln lns)
  case (Cons x s)
  show ?case
  proof (cases "x = c")
    case True
    then show ?thesis using Cons.prems concat_split_inclusive [of c s] by auto
  next
    case False
    show ?thesis
    proof (cases "split_inclusive c s")
      case Nil
      then show ?thesis using Cons.prems False by auto
    next
      case (Cons y ys)
      then have "ln = x # y" "lns = ys" using Cons.prems False by auto
      then show ?thesis using Cons.IH [OF Cons] False by auto
    qed
  qed
qed simp

lemma strip_newline_snoc: "strip_newline (xs @ [newline]) = xs"
  by (simp add: strip_newline_def)

lemma strip_newline_free: "ln \<noteq> [] \<longrightarrow> last ln \<noteq> newline \<Longrightarrow> strip_newline ln = ln"
  by (auto simp: strip_newline_def)

text \<open>The lines that remain at a position of a well-formed text.\<close>

definition at_line :: "string \<Rightarrow> nat \<Rightarrow> string list \<Rightarrow> bool" where
  "at_line txt pos lns \<longleftrightarrow>
     pos \<le> length txt \<and> lns = split_inclusive newline (drop pos txt) \<and>
     list_all (\<lambda>ln. ln = [] \<or> \<not> cont (hd ln)) (split_on newline (drop pos txt))"

lemma at_line_start: "wf_text txt \<Longrightarrow> at_line txt 0 (split_inclusive newline txt)"
  by (simp add: at_line_def wf_text_def)

lemma at_line_Cons:
  assumes "at_line txt pos (ln # lns)"
  shows "at_line txt (pos + length ln) lns" "line_ok (strip_newline ln)" "ln \<noteq> []"
    "pos + length ln \<le> length txt"
    "if last ln = newline then txt ! (pos + length (strip_newline ln)) = newline \<and>
       Suc (pos + length (strip_newline ln)) = pos + length ln
     else lns = [] \<and> pos + length (strip_newline ln) = length txt"
proof -
  note split = split_inclusive_ConsD [of newline "drop pos txt" ln lns]
  have a: "pos \<le> length txt" "drop pos txt = ln @ concat lns" "lns = split_inclusive newline (concat lns)"
    "ln \<noteq> []" "newline \<notin> set (butlast ln)" "last ln \<noteq> newline \<longrightarrow> lns = []"
    "list_all (\<lambda>ln. ln = [] \<or> \<not> cont (hd ln)) (split_on newline (ln @ concat lns))"
    using assms split by (auto simp: at_line_def)
  have len: "pos + length ln + length (concat lns) = length txt"
    using arg_cong [OF a(2), of length] a(1) by simp
  have drop: "drop (pos + length ln) txt = concat lns"
    using arg_cong [OF a(2), of "drop (length ln)"] by (simp add: add.commute)
  show "ln \<noteq> []" "pos + length ln \<le> length txt" using a(4) len by simp_all
  obtain xs y where ln: "ln = xs @ [y]" using a(4) by (cases ln rule: rev_cases) auto
  have "at_line txt (pos + length ln) lns \<and> line_ok (strip_newline ln) \<and>
    (if last ln = newline then txt ! (pos + length (strip_newline ln)) = newline \<and>
       Suc (pos + length (strip_newline ln)) = pos + length ln
     else lns = [] \<and> pos + length (strip_newline ln) = length txt)"
  proof (cases "y = newline")
    case True
    have "newline \<notin> set xs" using a(5) ln by simp
    then have "split_on newline (ln @ concat lns) = xs # split_on newline (concat lns)"
      using split_on_append_sep [of newline xs "concat lns"] by (simp add: ln True)
    moreover have "txt ! (pos + length xs) = newline"
      using arg_cong [OF a(2), of "\<lambda>l. l ! length xs"] len by (simp add: ln True nth_append)
    ultimately show ?thesis
      using a len drop \<open>newline \<notin> set xs\<close>
      by (simp add: ln True strip_newline_snoc at_line_def line_ok_def)
  next
    case False
    then have lns: "lns = []" using a(6) ln by simp
    have "newline \<notin> set ln" using a(5) False by (simp add: ln)
    then have "split_on newline (ln @ concat lns) = [ln]" by (simp add: lns split_on_free)
    then show ?thesis using a len False \<open>newline \<notin> set ln\<close> lns
      by (simp add: at_line_def line_ok_def strip_newline_free) (simp add: ln)
  qed
  then show "at_line txt (pos + length ln) lns" "line_ok (strip_newline ln)"
    "if last ln = newline then txt ! (pos + length (strip_newline ln)) = newline \<and>
       Suc (pos + length (strip_newline ln)) = pos + length ln
     else lns = [] \<and> pos + length (strip_newline ln) = length txt" by blast+
qed

text \<open>An open block starts before the position; its lines are whole lines of the text.\<close>

definition open_ok :: "nat \<Rightarrow> open_block option \<Rightarrow> bool" where
  "open_ok pos cur \<longleftrightarrow>
     (case cur of None \<Rightarrow> True
      | Some (s, l, _) \<Rightarrow> s < pos \<and> list_all line_ok l)"

definition open_from :: "nat \<Rightarrow> open_block option \<Rightarrow> nat" where
  "open_from pos cur = (case cur of None \<Rightarrow> pos | Some (s, _) \<Rightarrow> s)"

lemma blocks_ok_mono: "blocks_ok txt c bs \<Longrightarrow> c' \<le> c \<Longrightarrow> blocks_ok txt c' bs"
  by (cases "(txt, c, bs)" rule: blocks_ok.cases) auto

lemma scan_loop_ok:
  "scan_loop txt lns pos cur blocks = Some res \<Longrightarrow> at_line txt pos lns \<Longrightarrow> open_ok pos cur \<Longrightarrow>
   \<exists>new. res = blocks @ new \<and> blocks_ok txt (open_from pos cur) new"
proof (induction lns arbitrary: pos cur blocks)
  case Nil
  then show ?case by (auto split: if_splits)
next
  case (Cons ln lns)
  note ln = at_line_Cons [OF Cons.prems(2)]
  define st trimmed pos' where "st = strip_newline ln" and "trimmed = trim_start st" and "pos' = pos + length ln"
  have step: "\<exists>new. res = blocks' @ new \<and> blocks_ok txt (open_from pos' cur') new"
    if "scan_loop txt lns pos' cur' blocks' = Some res" "open_ok pos' cur'" for cur' blocks'
    using Cons.IH [OF that(1) _ that(2)] ln(1) by (simp add: pos'_def)
  note run = Cons.prems(1) [unfolded scan_loop.simps Let_def, folded st_def, folded trimmed_def pos'_def]
  have st: "line_ok st" "pos < pos'" using ln by (simp_all add: st_def pos'_def)
  consider (start) "prefix START_PREFIX trimmed" | (sep) "\<not> prefix START_PREFIX trimmed" "trimmed = CONFLICT_SEP"
    | (fin) "\<not> prefix START_PREFIX trimmed" "trimmed \<noteq> CONFLICT_SEP" "prefix END_PREFIX trimmed"
    | (other) "\<not> prefix START_PREFIX trimmed" "trimmed \<noteq> CONFLICT_SEP" "\<not> prefix END_PREFIX trimmed"
    by blast
  then show ?case
  proof cases
    case start
    then have "cur = None" "scan_loop txt lns pos' (Some (pos, [], None)) blocks = Some res"
      using run by (cases cur; simp split: if_splits)+
    then show ?thesis using step [of "Some (pos, [], None)" blocks] st
      by (simp add: open_ok_def open_from_def)
  next
    case sep
    then obtain s l where "cur = Some (s, l, None)" "scan_loop txt lns pos' (Some (s, l, Some [])) blocks = Some res"
      using run by (auto split: option.splits)
    then show ?thesis using step [of "Some (s, l, Some [])" blocks] st Cons.prems(3)
      by (simp add: open_ok_def open_from_def)
  next
    case fin
    let ?e = "pos + length st"
    obtain s l r t where cur: "cur = Some (s, l, Some r)" and t: "str_get s ?e txt = Some t"
      and rest: "scan_loop txt lns pos' None
        (blocks @ [(s, ?e, \<lparr>mb_original = t, mb_left = l, mb_right = r\<rparr>)]) = Some res"
      using run fin by (auto split: option.splits prod.splits)
    obtain new where new: "res = blocks @ (s, ?e, \<lparr>mb_original = t, mb_left = l, mb_right = r\<rparr>) # new"
      "blocks_ok txt pos' new"
      using step [OF rest] by (auto simp: open_ok_def open_from_def)
    have "(?e = length txt \<or> txt ! ?e = newline) \<and> blocks_ok txt (Suc ?e) new"
    proof (cases "last ln = newline")
      case True
      then have "txt ! ?e = newline" "Suc ?e = pos'" using ln(5) by (simp_all add: st_def pos'_def)
      then show ?thesis using new(2) by simp
    next
      case False
      then have "lns = []" "?e = length txt" using ln(5) by (simp_all add: st_def)
      then show ?thesis using rest new by simp
    qed
    then show ?thesis using new t cur Cons.prems(3)
      by (intro exI [of _ "(s, ?e, \<lparr>mb_original = t, mb_left = l, mb_right = r\<rparr>) # new"])
        (simp add: open_ok_def open_from_def)
  next
    case other
    show ?thesis
    proof (cases cur)
      case None
      then show ?thesis using run other step [of None blocks]
        by (fastforce simp: open_ok_def open_from_def dest: blocks_ok_mono [OF _ less_imp_le [OF st(2)]])
    next
      case (Some c)
      obtain s l m where c: "c = (s, l, m)" by (cases c)
      obtain m' l' where "scan_loop txt lns pos' (Some (s, l', m')) blocks = Some res" "list_all line_ok l'"
        using run other st Cons.prems(3) by (cases m) (auto simp: Some c open_ok_def)
      then show ?thesis using step [of "Some (s, l', m')" blocks] st(2) Cons.prems(3)
        by (simp add: open_ok_def open_from_def Some c)
    qed
  qed
qed

lemma scan_ok: "scan_marker_blocks txt = Some bs \<Longrightarrow> wf_text txt \<Longrightarrow> blocks_ok txt 0 bs"
  using scan_loop_ok [of "txt" _ 0 None "[]" bs] at_line_start [of "txt"]
  by (auto simp: scan_marker_blocks_def open_ok_def open_from_def)

section \<open>Sanitizing and its inverse\<close>

fun values_ok :: "string \<Rightarrow> nat \<Rightarrow> ((nat \<times> nat) \<times> marker_block) list \<Rightarrow> bool" where
  "values_ok t c [] = True"
| "values_ok t c (((lo, hi), b) # vs) =
     (c \<le> lo \<and> lo \<le> hi \<and> hi \<le> length t \<and> (hi = length t \<or> t ! hi = newline) \<and>
      (lo < hi \<longrightarrow> \<not> cont (t ! lo)) \<and> values_ok t (Suc hi) vs)"

text \<open>Putting the originals back, from the last value to the first.\<close>

definition unsanitize :: "((nat \<times> nat) \<times> marker_block) list \<Rightarrow> string \<Rightarrow> string" where
  "unsanitize vs t = foldr (\<lambda>((lo, hi), b) w. take lo w @ mb_original b @ drop hi w) vs t"

lemma unsanitize_simps [simp]:
  "unsanitize [] t = t"
  "unsanitize (((lo, hi), b) # vs) t = take lo (unsanitize vs t) @ mb_original b @ drop hi (unsanitize vs t)"
  by (simp_all add: unsanitize_def)

lemma str_get_Some_iff:
  "str_get i j s = Some t \<longleftrightarrow> i \<le> j \<and> is_char_boundary s i \<and> is_char_boundary s j \<and> t = slice_of i j s"
  by (auto simp: str_get_def)

lemma boundary_le: "is_char_boundary s i \<Longrightarrow> i \<le> length s"
  by (auto simp: is_char_boundary_def)

lemma boundary_end [simp]: "is_char_boundary s (length s)" "is_char_boundary s 0"
  by (simp_all add: is_char_boundary_def)

lemma not_cont_newline [simp]: "\<not> cont newline"
  by (simp add: cont_def)

lemma join_lines_head:
  "list_all line_ok ls \<Longrightarrow> join_with newline ls \<noteq> [] \<Longrightarrow> \<not> cont (hd (join_with newline ls))"
proof (cases "(newline, ls)" rule: join_with.cases)
  case (3 c x y ys)
  then show "list_all line_ok ls \<Longrightarrow> ?thesis" by (cases x) (auto simp: line_ok_def)
qed (auto simp: line_ok_def)

lemma prepare_loop_ok:
  "blocks_ok tx c bs \<Longrightarrow> cursor \<le> c \<Longrightarrow> is_char_boundary tx cursor \<Longrightarrow>
   \<exists>t vs. prepare_loop tx bs san vals cursor = Some \<lparr>sanitized = san @ t, pvalues = vals @ vs\<rparr> \<and>
     map snd vs = map (snd \<circ> snd) bs \<and> unsanitize vs (san @ t) = san @ drop cursor tx \<and>
     (cursor < c \<longrightarrow> cursor = length tx \<and> t = [] \<or> t \<noteq> [] \<and> cursor < length tx \<and> hd t = tx ! cursor) \<and>
     values_ok (san @ t) (length san + (if cursor < c then 1 else 0)) vs"
proof (induction tx c bs arbitrary: cursor san vals rule: blocks_ok.induct)
  case (1 tx c)
  have le: "cursor \<le> length tx" using "1.prems"(3) boundary_le by blast
  then have "str_get cursor (length tx) tx = Some (drop cursor tx)"
    using "1.prems"(3) by (simp add: str_get_Some_iff slice_of_to_end)
  moreover have "cursor = length tx \<and> drop cursor tx = [] \<or>
      drop cursor tx \<noteq> [] \<and> cursor < length tx \<and> hd (drop cursor tx) = tx ! cursor"
    using le by (auto simp: hd_drop_conv_nth)
  ultimately show ?case by (intro exI [of _ "drop cursor tx"] exI [of _ "[]"]) simp
next
  case (2 tx c s e b bs)
  have a: "c \<le> s" "s < e" "mb_original b = slice_of s e tx" "is_char_boundary tx s" "is_char_boundary tx e"
    "e = length tx \<or> tx ! e = newline" "list_all line_ok (mb_left b)" "blocks_ok tx (Suc e) bs"
    using "2.prems"(1) by (auto simp: str_get_Some_iff)
  have le: "cursor \<le> s" "s < e" "e \<le> length tx" using a "2.prems"(2) boundary_le by auto
  let ?pre = "slice_of cursor s tx" and ?rep = "join_with newline (mb_left b)"
  have pre: "str_get cursor s tx = Some ?pre" using le a "2.prems"(3) by (simp add: str_get_Some_iff)
  let ?lo = "length (san @ ?pre)"
  let ?san = "san @ ?pre @ ?rep"
  let ?hi = "length ?san"
  obtain t vs where t: "prepare_loop tx bs ?san (vals @ [((?lo, ?hi), b)]) e =
      Some \<lparr>sanitized = ?san @ t, pvalues = (vals @ [((?lo, ?hi), b)]) @ vs\<rparr>"
    "map snd vs = map (snd \<circ> snd) bs" "unsanitize vs (?san @ t) = ?san @ drop e tx"
    "e = length tx \<and> t = [] \<or> t \<noteq> [] \<and> e < length tx \<and> hd t = tx ! e"
    "values_ok (?san @ t) (Suc ?hi) vs"
    using "2.IH" [OF a(8) _ a(5), of ?san "vals @ [((?lo, ?hi), b)]"] by auto
  have "?pre @ slice_of s e tx @ drop e tx = drop cursor tx"
    using le by (simp add: slice_of_append_drop less_imp_le)
  then have un: "unsanitize (((?lo, ?hi), b) # vs) (san @ (?pre @ ?rep @ t)) = san @ drop cursor tx"
    using t(3) a(3) by simp
  have hi: "?hi = length (?san @ t) \<or> (?san @ t) ! ?hi = newline"
    using t(4) a(6) by (auto simp: nth_append hd_conv_nth)
  have lo: "?lo < ?hi \<longrightarrow> \<not> cont ((?san @ t) ! ?lo)"
    using join_lines_head [OF a(7)] by (auto simp: nth_append hd_conv_nth)
  have first: "cursor < c \<longrightarrow> ?pre \<noteq> [] \<and> hd (?pre @ ?rep @ t) = tx ! cursor \<and> cursor < length tx"
    using a(1) le by (simp add: slice_of_Suc [of cursor s "tx"])
  show ?case
  proof (intro exI [of _ "?pre @ ?rep @ t"] exI [of _ "((?lo, ?hi), b) # vs"] conjI)
    show "prepare_loop tx ((s, e, b) # bs) san vals cursor =
        Some \<lparr>sanitized = san @ ?pre @ ?rep @ t, pvalues = vals @ ((?lo, ?hi), b) # vs\<rparr>"
      using t(1) by (simp add: pre Let_def)
    show "values_ok (san @ ?pre @ ?rep @ t) (length san + (if cursor < c then 1 else 0)) (((?lo, ?hi), b) # vs)"
      using hi lo first t(5) by (cases "?pre") simp_all
  qed (use t(2) un first in \<open>auto simp: hd_append\<close>)
qed

text \<open>Sanitizing never fails on a scanned text, and putting the originals back undoes it.\<close>

lemma prepared_ok:
  assumes "scan_marker_blocks tx = Some bs" "wf_text tx"
  obtains p where "prepared_of tx = Some p" "unsanitize (pvalues p) (sanitized p) = tx"
    "values_ok (sanitized p) 0 (pvalues p)" "map snd (pvalues p) = map (snd \<circ> snd) bs"
proof (cases "bs = []")
  case True
  then show thesis using assms that [of "\<lparr>sanitized = tx, pvalues = []\<rparr>"] by (simp add: prepared_of_def)
next
  case False
  then show thesis
    using prepare_loop_ok [OF scan_ok [OF assms], of 0 "[]" "[]"] assms that by (auto simp: prepared_of_def)
qed

section \<open>Segments and their reassembly\<close>

text \<open>Gaps and bodies woven together, a gap before each body and the last gap after them.\<close>

definition weave :: "string list \<Rightarrow> string list \<Rightarrow> string" where
  "weave gs ts = concat (map2 (@) gs ts) @ (if gs = [] then [] else last gs)"

definition offset_of :: "string list \<Rightarrow> string list \<Rightarrow> nat \<Rightarrow> nat" where
  "offset_of gs ts k = length (concat (map2 (@) (take k gs) (take k ts))) + length (gs ! k)"

lemma weave_simps [simp]:
  "weave [g] [] = g" "gs \<noteq> [] \<Longrightarrow> weave (g # gs) (t # ts) = g @ t @ weave gs ts"
  by (simp_all add: weave_def)

lemma offset_of_simps [simp]:
  "offset_of (g # gs) ts 0 = length g"
  "offset_of (g # gs) (t # ts) (Suc k) = length g + length t + offset_of gs ts k"
  by (simp_all add: offset_of_def)

lemma weave_update:
  "k < length ts \<Longrightarrow> length gs = Suc (length ts) \<Longrightarrow> i \<le> j \<Longrightarrow> j \<le> length (ts ! k) \<Longrightarrow>
   weave gs (ts[k := take i (ts ! k) @ x @ drop j (ts ! k)]) =
     take (offset_of gs ts k + i) (weave gs ts) @ x @ drop (offset_of gs ts k + j) (weave gs ts)"
proof (induction ts arbitrary: gs k)
  case (Cons t ts)
  obtain g gs' where gs: "gs = g # gs'" "gs' \<noteq> []" "length gs' = Suc (length ts)"
    using Cons.prems(2) by (cases gs) fastforce+
  show ?case
  proof (cases k)
    case 0
    then show ?thesis using Cons.prems gs by simp
  next
    case (Suc n)
    then show ?thesis using Cons.IH [of n gs'] Cons.prems gs by simp
  qed
qed simp

lemma offset_of_cong:
  "\<forall>n<k. length (ts ! n) = length (us ! n) \<Longrightarrow> k < length ts \<Longrightarrow> length us = length ts \<Longrightarrow>
   length gs = Suc (length ts) \<Longrightarrow> offset_of gs ts k = offset_of gs us k"
proof (induction k arbitrary: ts us gs)
  case (Suc k)
  obtain t ts' where ts: "ts = t # ts'" using Suc.prems by (cases ts) auto
  obtain u us' where us: "us = u # us'" using Suc.prems by (cases us) auto
  obtain g gs' where gs: "gs = g # gs'" using Suc.prems by (cases gs) auto
  have "length t = length u" "\<forall>n<k. length (ts' ! n) = length (us' ! n)" using Suc.prems(1) ts us by fastforce+
  then show ?case using Suc.IH [of ts' us' gs'] Suc.prems ts us gs by simp
qed (auto simp: offset_of_def)

definition defs_ok :: "string \<Rightarrow> defn list \<Rightarrow> bool" where
  "defs_ok src ds \<longleftrightarrow> list_all (\<lambda>d. fst (byte_range d) \<le> snd (byte_range d) \<and>
     is_char_boundary src (fst (byte_range d)) \<and> is_char_boundary src (snd (byte_range d))) ds"

fun laid_out :: "nat \<Rightarrow> string list \<Rightarrow> item list \<Rightarrow> bool" where
  "laid_out pos [g] [] = True"
| "laid_out pos (g # gs) (it # its) =
     (fst (irange it) = pos + length g \<and> snd (irange it) = fst (irange it) + length (itext it) \<and>
      laid_out (snd (irange it)) gs its)"
| "laid_out pos _ _ = False"

lemma laid_out_length: "laid_out pos gs its \<Longrightarrow> length gs = Suc (length its)"
  by (induction pos gs its rule: laid_out.induct) auto

lemma laid_out_nth:
  "laid_out pos gs its \<Longrightarrow> k < length its \<Longrightarrow>
     fst (irange (its ! k)) = pos + offset_of gs (map itext its) k \<and>
     snd (irange (its ! k)) = fst (irange (its ! k)) + length (itext (its ! k))"
proof (induction pos gs its arbitrary: k rule: laid_out.induct)
  case (2 pos g gs it its)
  then show ?case by (cases k) auto
qed simp_all

definition plain_item :: "item \<Rightarrow> bool" where
  "plain_item it \<longleftrightarrow> original_text it = itext it \<and> icarried it = []"

lemma plain_conflict_free [simp]:
  "plain_item (conflict_free d t r)" "itext (conflict_free d t r) = t" "irange (conflict_free d t r) = r"
  "idef (conflict_free d t r) = d"
  by (simp_all add: plain_item_def conflict_free_def)

lemma segment_loop_acc:
  "segment_loop src ds c cu its gs =
     \<lparr>items = its @ items (segment_loop src ds c cu [] []), gaps = gs @ gaps (segment_loop src ds c cu [] [])\<rparr>"
proof (induction ds arbitrary: c cu its gs)
  case (Cons d ds)
  show ?case
  proof (cases "fst (byte_range d) < c")
    case True
    then show ?thesis using Cons.IH [of c cu its gs] by simp
  next
    case False
    let ?it = "conflict_free d (get_or_empty (fst (byte_range d)) (snd (byte_range d)) src) (byte_range d)"
    show ?thesis using False
      Cons.IH [of "snd (byte_range d)" "snd (byte_range d)" "its @ [?it]" "gs @ [get_or_empty cu (fst (byte_range d)) src]"]
      Cons.IH [of "snd (byte_range d)" "snd (byte_range d)" "[?it]" "[get_or_empty cu (fst (byte_range d)) src]"]
      by (simp add: Let_def)
  qed
qed simp

lemma segment_loop_ok:
  assumes "defs_ok src ds" "is_char_boundary src cu"
  defines "seg \<equiv> segment_loop src ds cu cu [] []"
  shows "laid_out cu (gaps seg) (items seg) \<and> list_all plain_item (items seg) \<and>
    weave (gaps seg) (map itext (items seg)) = drop cu src \<and> set (map idef (items seg)) \<subseteq> set ds"
  using assms(1,2) unfolding seg_def
proof (induction ds arbitrary: cu)
  case Nil
  then show ?case using boundary_le
    by (simp add: get_or_empty_def str_get_def slice_of_to_end)
next
  case (Cons d ds)
  have ds: "defs_ok src ds" and le: "fst (byte_range d) \<le> snd (byte_range d)"
    and b: "is_char_boundary src (fst (byte_range d))" "is_char_boundary src (snd (byte_range d))"
    using Cons.prems(1) by (simp_all add: defs_ok_def)
  show ?case
  proof (cases "fst (byte_range d) < cu")
    case True
    then show ?thesis using Cons.IH [OF ds Cons.prems(2)] by auto
  next
    case False
    define s e where "s = fst (byte_range d)" and "e = snd (byte_range d)"
    have se: "cu \<le> s" "s \<le> e" "e \<le> length src" "is_char_boundary src s" "is_char_boundary src e"
      using False le b boundary_le [OF b(2)] by (simp_all add: s_def e_def)
    have texts: "get_or_empty cu s src = slice_of cu s src" "get_or_empty s e src = slice_of s e src"
      using se Cons.prems(2) by (simp_all add: get_or_empty_def str_get_def)
    let ?seg = "segment_loop src ds e e [] []"
    have IH: "laid_out e (gaps ?seg) (items ?seg)" "list_all plain_item (items ?seg)"
      "weave (gaps ?seg) (map itext (items ?seg)) = drop e src" "set (map idef (items ?seg)) \<subseteq> set ds"
      using Cons.IH [OF ds se(5)] by simp_all
    have seg: "segment_loop src (d # ds) cu cu [] [] =
      \<lparr>items = conflict_free d (slice_of s e src) (s, e) # items ?seg, gaps = slice_of cu s src # gaps ?seg\<rparr>"
      using False segment_loop_acc [of src ds e e "[conflict_free d (slice_of s e src) (s, e)]" "[slice_of cu s src]"]
      by (simp add: texts flip: s_def e_def)
    have "gaps ?seg \<noteq> []" using laid_out_length [OF IH(1)] by auto
    moreover have "slice_of cu s src @ slice_of s e src @ drop e src = drop cu src"
      using se by (simp add: slice_of_append_drop)
    ultimately show ?thesis unfolding seg using IH se by auto
  qed
qed

section \<open>Splicing the values back into the items\<close>

lemma weave_nth:
  "k < length ts \<Longrightarrow> length gs = Suc (length ts) \<Longrightarrow> i < length (ts ! k) \<Longrightarrow>
   offset_of gs ts k + i < length (weave gs ts) \<and> weave gs ts ! (offset_of gs ts k + i) = ts ! k ! i"
proof (induction ts arbitrary: gs k)
  case (Cons t ts)
  obtain g gs' where gs: "gs = g # gs'" "gs' \<noteq> []" "length gs' = Suc (length ts)"
    using Cons.prems(2) by (cases gs) fastforce+
  show ?case
  proof (cases k)
    case 0
    then show ?thesis using Cons.prems gs by (simp add: nth_append)
  next
    case (Suc n)
    then show ?thesis using Cons.IH [of n gs'] Cons.prems gs by (simp add: nth_append)
  qed
qed simp

lemma laid_out_mono:
  "laid_out pos gs its \<Longrightarrow> m < n \<Longrightarrow> n < length its \<Longrightarrow> snd (irange (its ! m)) \<le> fst (irange (its ! n))"
proof (induction pos gs its arbitrary: m n rule: laid_out.induct)
  case (2 pos g gs it its)
  obtain n' where n: "n = Suc n'" "n' < length its" using "2.prems" by (cases n) auto
  have lay: "laid_out (snd (irange it)) gs its" using "2.prems"(1) unfolding laid_out.simps by blast
  show ?case
  proof (cases m)
    case 0
    from laid_out_nth [OF lay n(2)] show ?thesis using 0 n by simp
  next
    case (Suc m')
    then show ?thesis using "2.IH" [OF lay, of m' n'] "2.prems"(2) n by simp
  qed
qed simp_all

lemma take_agree:
  assumes "take n xs = take n ys"
  shows "i < n \<Longrightarrow> i < length ys \<Longrightarrow> i < length xs \<and> xs ! i = ys ! i"
    and "length ys < n \<Longrightarrow> xs = ys"
    and "m \<le> n \<Longrightarrow> take m xs = take m ys"
proof -
  have len: "min (length xs) n = min (length ys) n" using arg_cong [OF assms, of length] by simp
  show "i < n \<Longrightarrow> i < length ys \<Longrightarrow> i < length xs \<and> xs ! i = ys ! i"
    using len arg_cong [OF assms, of "\<lambda>l. l ! i"] by auto
  show "length ys < n \<Longrightarrow> xs = ys" using len assms by auto
  show "m \<le> n \<Longrightarrow> take m xs = take m ys"
    using arg_cong [OF assms, of "take m"] by (simp add: min_absorb1)
qed

lemma concat_update_Cons:
  "k < length xs \<Longrightarrow> \<forall>n<k. xs ! n = [] \<Longrightarrow> concat (xs[k := y # xs ! k]) = y # concat xs"
proof (induction xs arbitrary: k)
  case (Cons x xs)
  show ?case
  proof (cases k)
    case (Suc n)
    have "x = []" "\<forall>m<n. xs ! m = []" using Cons.prems(2) Suc by fastforce+
    then show ?thesis using Cons.IH [of n] Cons.prems(1) Suc by simp
  qed simp
qed simp

text \<open>
  The items while the values at or above \<open>b\<close> have been spliced in: below \<open>b\<close> nothing has changed,
  and only items that reach \<open>b\<close> carry values.
\<close>

definition spliced :: "nat \<Rightarrow> item list \<Rightarrow> item list \<Rightarrow> bool" where
  "spliced b its cur \<longleftrightarrow>
     map idef cur = map idef its \<and> map itext cur = map itext its \<and> map irange cur = map irange its \<and>
     (\<forall>k<length its.
        take (b - fst (irange (its ! k))) (original_text (cur ! k)) = take (b - fst (irange (its ! k))) (itext (its ! k)) \<and>
        (icarried (cur ! k) \<noteq> [] \<longrightarrow> b \<le> snd (irange (its ! k))))"

definition bound_of :: "string \<Rightarrow> ((nat \<times> nat) \<times> marker_block) list \<Rightarrow> nat" where
  "bound_of t vs = (case vs of [] \<Rightarrow> Suc (length t) | ((lo, hi), _) # _ \<Rightarrow> lo)"

lemma bound_of_greater: "values_ok t (Suc hi) vs \<Longrightarrow> hi \<le> length t \<Longrightarrow> hi < bound_of t vs"
  by (cases "(t, Suc hi, vs)" rule: values_ok.cases) (auto simp: bound_of_def)

lemma splice_pins_append:
  "splice_pins (ps @ qs) its = Option.bind (splice_pins ps its) (splice_pins qs)"
  by (induction ps its rule: splice_pins.induct) (auto split: option.splits)

lemma spliced_item:
  assumes lay: "laid_out 0 gs its" and san: "weave gs (map itext its) = san"
    and cur: "spliced b its cur" and k: "k < length its"
    and r: "fst (irange (its ! k)) \<le> lo" "lo \<le> hi" "hi \<le> snd (irange (its ! k))" "hi < b"
    and ch: "hi = length san \<or> san ! hi = newline" "lo < hi \<longrightarrow> \<not> cont (san ! lo)"
  defines "s \<equiv> fst (irange (its ! k))" and "orig \<equiv> original_text (cur ! k)"
  shows "offset_of gs (map original_text cur) k = s" "hi - s \<le> length orig"
    "is_char_boundary orig (lo - s)" "is_char_boundary orig (hi - s)"
proof -
  have len: "length cur = length its" using cur map_eq_imp_length_eq [of idef cur idef its] by (simp add: spliced_def)
  note gs = laid_out_length [OF lay]
  have lay_k: "s = offset_of gs (map itext its) k" "snd (irange (its ! k)) = s + length (itext (its ! k))"
    using laid_out_nth [OF lay k] by (simp_all add: s_def)
  have agree: "take (b - fst (irange (its ! n))) (original_text (cur ! n)) = take (b - fst (irange (its ! n))) (itext (its ! n))"
    if "n < length its" for n using cur that by (simp add: spliced_def)
  have "original_text (cur ! n) = itext (its ! n)" if "n < k" for n
    using take_agree(2) [OF agree, of n] laid_out_mono [OF lay that k] laid_out_nth [OF lay, of n] k r that
    by simp
  then show "offset_of gs (map original_text cur) k = s"
    using offset_of_cong [of k "map original_text cur" "map itext its" gs] len gs k lay_k by simp
  have nth: "itext (its ! k) ! i = san ! (s + i) \<and> s + i < length san" if "i < length (itext (its ! k))" for i
    using weave_nth [of k "map itext its" gs i] k gs that lay_k san by simp
  have at: "i < length orig \<and> orig ! i = san ! (s + i)" if "i < length (itext (its ! k))" "s + i \<le> hi" for i
    using take_agree(1) [OF agree [OF k], of i] nth [OF that(1)] that r(4) by (simp add: s_def orig_def less_diff_conv2)
  have fin: "orig = itext (its ! k)" if "hi - s = length (itext (its ! k))"
    using take_agree(2) [OF agree [OF k]] that r by (simp add: s_def orig_def)
  have hi: "hi - s \<le> length (itext (its ! k))" "s + (hi - s) = hi" "s + (lo - s) = lo"
    using r lay_k by (simp_all add: s_def)
  have b_hi: "is_char_boundary orig (hi - s) \<and> hi - s \<le> length orig"
  proof (cases "hi - s = length (itext (its ! k))")
    case True
    then show ?thesis using fin by simp
  next
    case False
    then have "hi - s < length (itext (its ! k))" using hi by simp
    then show ?thesis using at [of "hi - s"] nth [of "hi - s"] hi ch by (auto simp: is_char_boundary_def)
  qed
  then show "hi - s \<le> length orig" "is_char_boundary orig (hi - s)" by simp_all
  show "is_char_boundary orig (lo - s)"
  proof (cases "lo = hi")
    case False
    then have "lo - s < length (itext (its ! k))" using hi r by simp
    then show ?thesis using at [of "lo - s"] hi ch r False by (auto simp: is_char_boundary_def cont_def)
  qed (use b_hi in simp)
qed

lemma spliced_update:
  assumes cur: "spliced b its cur" and k: "k < length its"
    and r: "fst (irange (its ! k)) \<le> lo" "lo \<le> b" "lo \<le> snd (irange (its ! k))"
    and orig: "lo - fst (irange (its ! k)) \<le> length (original_text (cur ! k))"
  shows "spliced lo its (cur[k := (cur ! k)\<lparr>original_text := take (lo - fst (irange (its ! k))) (original_text (cur ! k)) @ t,
    icarried := cs\<rparr>])"
proof -
  have len: "length cur = length its" using cur map_eq_imp_length_eq [of idef cur idef its] by (simp add: spliced_def)
  have agree: "take (lo - fst (irange (its ! n))) (original_text (cur ! n)) = take (lo - fst (irange (its ! n))) (itext (its ! n))"
    if "n < length its" for n
    using cur that r(2) take_agree(3) [of "b - fst (irange (its ! n))" "original_text (cur ! n)" "itext (its ! n)"]
    by (simp add: spliced_def)
  have same: "map f (cur[k := it]) = map f its" if "map f cur = map f its" "f it = f (cur ! k)"
    for f :: "item \<Rightarrow> 'a" and it
    using that k len by (metis list_update_id map_update nth_map)
  define u where "u = take (lo - fst (irange (its ! k))) (original_text (cur ! k)) @ t"
  have "take (lo - fst (irange (its ! k))) u = take (lo - fst (irange (its ! k))) (original_text (cur ! k))"
    using orig by (simp add: u_def)
  then show ?thesis unfolding u_def [symmetric]
    using cur k len agree r by (auto simp: spliced_def same nth_list_update)
qed

lemma splice_values:
  assumes lay: "laid_out 0 gs its" and plain: "list_all plain_item its" and san: "weave gs (map itext its) = san"
  shows "values_ok san c vs \<Longrightarrow> pin_values its vs = Some pins \<Longrightarrow>
    \<exists>cur. splice_pins (rev pins) its = Some cur \<and> spliced (bound_of san vs) its cur \<and>
      weave gs (map original_text cur) = unsanitize vs san \<and>
      concat (map icarried cur) = map (block_conflict \<circ> snd) vs"
proof (induction vs arbitrary: c pins)
  case Nil
  have orig: "map original_text its = map itext its" and "concat (map icarried its) = []"
    using plain by (auto simp: plain_item_def list_all_iff)
  then have "weave gs (map original_text its) = san" "concat (map icarried its) = []"
    unfolding orig by (simp_all add: san)
  then show ?case using Nil plain by (simp add: spliced_def plain_item_def list_all_length)
next
  case (Cons v vs)
  obtain lo hi b where v: "v = ((lo, hi), b)" by (metis surj_pair)
  have a: "lo \<le> hi" "hi \<le> length san" "hi = length san \<or> san ! hi = newline" "lo < hi \<longrightarrow> \<not> cont (san ! lo)"
    "values_ok san (Suc hi) vs" using Cons.prems(1) v by simp_all
  obtain k ps where pos: "position (\<lambda>it. fst (irange it) \<le> lo \<and> hi \<le> snd (irange it)) its = Some k"
    and ps: "pin_values its vs = Some ps"
    and pins: "pins = (k, (lo - fst (irange (its ! k)), hi - fst (irange (its ! k))), b) # ps"
    using Cons.prems(2) by (auto simp: v Let_def split: option.splits)
  have k: "k < length its" "fst (irange (its ! k)) \<le> lo" "hi \<le> snd (irange (its ! k))"
    using pos by (simp_all add: position_Some_iff)
  obtain cur where cur: "splice_pins (rev ps) its = Some cur" "spliced (bound_of san vs) its cur"
    "weave gs (map original_text cur) = unsanitize vs san"
    "concat (map icarried cur) = map (block_conflict \<circ> snd) vs"
    using Cons.IH [OF a(5) ps] by blast
  have bound: "hi < bound_of san vs" using bound_of_greater [OF a(5,2)] .
  have len: "length cur = length its" using cur(2) map_eq_imp_length_eq [of idef cur idef its] by (simp add: spliced_def)
  define s where "s = fst (irange (its ! k))"
  define orig where "orig = original_text (cur ! k)"
  note it = spliced_item [OF lay san cur(2) k(1,2) a(1) k(3) bound a(3,4), folded s_def orig_def]
  have lo_hi: "lo - s \<le> hi - s" "s + (lo - s) = lo" "s + (hi - s) = hi" "lo - s \<le> length orig"
    using a k it(2) by (simp_all add: s_def)
  let ?cur = "cur[k := (cur ! k)\<lparr>original_text := take (lo - s) orig @ mb_original b @ drop (hi - s) orig,
      icarried := block_conflict b # icarried (cur ! k)\<rparr>]"
  have "splice_pins (rev pins) its = Some ?cur"
    using it(3,4) lo_hi by (simp add: pins splice_pins_append cur(1) replace_range_def flip: s_def orig_def)
  moreover have "spliced (bound_of san (v # vs)) its ?cur"
    using spliced_update [OF cur(2) k(1,2), where t = "mb_original b @ drop (hi - s) orig"
        and cs = "block_conflict b # icarried (cur ! k)"]
      bound a(1) k(3) lo_hi by (simp add: v bound_of_def flip: s_def orig_def)
  moreover have "weave gs (map original_text ?cur) = unsanitize (v # vs) san"
    using weave_update [of k "map original_text cur" gs "lo - s" "hi - s" "mb_original b"]
      it lo_hi k(1) len laid_out_length [OF lay] by (simp add: v map_update cur(3) flip: orig_def)
  moreover have "icarried (cur ! n) = []" if "n < k" for n
  proof -
    have "icarried (cur ! n) \<noteq> [] \<Longrightarrow> bound_of san vs \<le> snd (irange (its ! n))"
      using cur(2) k(1) that by (simp add: spliced_def)
    then show ?thesis using laid_out_mono [OF lay that k(1)] k(2) a(1) bound by linarith
  qed
  then have "concat (map icarried ?cur) = map (block_conflict \<circ> snd) (v # vs)"
    using concat_update_Cons [of k "map icarried cur" "block_conflict b"] k(1) len by (simp add: v map_update cur(4))
  ultimately show ?case by blast
qed

section \<open>Well-formed text\<close>

definition wf_tail :: "string \<Rightarrow> bool" where
  "wf_tail s \<longleftrightarrow> list_all (\<lambda>ln. ln = [] \<or> \<not> cont (hd ln)) (tl (split_on newline s))"

lemma wf_text_steps:
  "wf_text (newline # s) = wf_text s"
  "c \<noteq> newline \<Longrightarrow> wf_text (c # s) \<longleftrightarrow> \<not> cont c \<and> wf_tail s"
  "c \<noteq> newline \<Longrightarrow> wf_tail (c # s) = wf_tail s"
  "wf_text s \<Longrightarrow> wf_tail s"
  by (cases "split_on newline s"; simp add: wf_text_def wf_tail_def)+

lemma utf8_valid_head:
  assumes "utf8_valid (a # s)" "128 \<le> byte a"
  shows "\<not> cont a \<and> (\<exists>us vs. s = us @ vs \<and> list_all cont us \<and> utf8_valid vs)"
proof
  show "\<not> cont a" using assms
    by (subst (asm) utf8_valid.simps) (auto simp: cont_def split: list.split_asm if_split_asm)
  have "(\<exists>b t. s = b # t \<and> cont b \<and> utf8_valid t) \<or>
    (\<exists>b c t. s = b # c # t \<and> cont b \<and> cont c \<and> utf8_valid t) \<or>
    (\<exists>b c d t. s = b # c # d # t \<and> cont b \<and> cont c \<and> cont d \<and> utf8_valid t)"
    using assms by (subst (asm) utf8_valid.simps) (auto split: list.split_asm if_split_asm)
  then obtain us vs where "s = us @ vs" "list_all cont us" "utf8_valid vs"
  proof (elim disjE exE conjE)
    fix b t assume "s = b # t" "cont b" "utf8_valid t"
    then show thesis using that [of "[b]" t] by simp
  next
    fix b c t assume "s = b # c # t" "cont b" "cont c" "utf8_valid t"
    then show thesis using that [of "[b, c]" t] by simp
  next
    fix b c d t assume "s = b # c # d # t" "cont b" "cont c" "cont d" "utf8_valid t"
    then show thesis using that [of "[b, c, d]" t] by simp
  qed
  then show "\<exists>us vs. s = us @ vs \<and> list_all cont us \<and> utf8_valid vs" by blast
qed

lemma utf8_valid_wf: "utf8_valid s \<Longrightarrow> wf_text s"
proof (induction s rule: length_induct)
  case (1 s)
  show ?case
  proof (cases s)
    case (Cons a t)
    show ?thesis
    proof (cases "byte a < 128")
      case True
      then have "wf_text t" using 1 Cons by simp
      then show ?thesis using True by (cases "a = newline") (simp_all add: Cons wf_text_steps cont_def)
    next
      case False
      then obtain us vs where a: "\<not> cont a" "t = us @ vs" "list_all cont us" "utf8_valid vs"
        using utf8_valid_head [of a t] "1.prems" Cons by auto
      then have "wf_text vs" using "1.IH" Cons by simp
      moreover have not_newline: "cont c \<Longrightarrow> c \<noteq> newline" for c by auto
      moreover have "wf_tail (us @ vs) = wf_tail vs"
        using a(3) not_newline by (induction us) (auto simp: wf_text_steps(3))
      moreover have "a \<noteq> newline" using False by auto
      ultimately show ?thesis using a by (simp add: Cons wf_text_steps)
    qed
  qed (simp add: wf_text_def)
qed

section \<open>Scanning by lines\<close>

text \<open>The scan without positions: for each value the number of its opening line, counted from 1
behind the first \<open>k\<close> lines, and its two variants.\<close>

definition starts_block :: "line \<Rightarrow> bool" where
  "starts_block l \<longleftrightarrow> prefix START_PREFIX (trim_start l)"

definition separates :: "line \<Rightarrow> bool" where
  "separates l \<longleftrightarrow> trim_start l = CONFLICT_SEP"

definition ends_block :: "line \<Rightarrow> bool" where
  "ends_block l \<longleftrightarrow> prefix END_PREFIX (trim_start l)"

definition unmarked :: "line \<Rightarrow> bool" where
  "unmarked l \<longleftrightarrow> \<not> starts_block l \<and> \<not> separates l \<and> \<not> ends_block l"

type_synonym line_value = "nat \<times> line list \<times> line list"

fun scan_lines ::
  "line list \<Rightarrow> nat \<Rightarrow> (nat \<times> line list \<times> line list option) option \<Rightarrow> line_value list option" where
  "scan_lines [] k cur = (if cur \<noteq> None then None else Some [])"
| "scan_lines (l # ls) k cur =
     (if starts_block l then (if cur \<noteq> None then None else scan_lines ls (Suc k) (Some (Suc k, [], None)))
      else if separates l then
        (case cur of Some (n, lft, None) \<Rightarrow> scan_lines ls (Suc k) (Some (n, lft, Some [])) | _ \<Rightarrow> None)
      else if ends_block l then
        (case cur of
           Some (n, lft, Some rgt) \<Rightarrow> map_option ((#) (n, lft, rgt)) (scan_lines ls (Suc k) None)
         | _ \<Rightarrow> None)
      else
        (case cur of
           None \<Rightarrow> scan_lines ls (Suc k) None
         | Some (n, lft, None) \<Rightarrow> scan_lines ls (Suc k) (Some (n, lft @ [l], None))
         | Some (n, lft, Some rgt) \<Rightarrow> scan_lines ls (Suc k) (Some (n, lft, Some (rgt @ [l])))))"

definition line_at :: "string \<Rightarrow> nat \<Rightarrow> nat" where
  "line_at tx pos = length (filter (\<lambda>c. c = newline) (take pos tx))"

definition view_of :: "string \<Rightarrow> located_block \<Rightarrow> line_value" where
  "view_of tx b = (Suc (line_at tx (fst b)), mb_left (snd (snd b)), mb_right (snd (snd b)))"

lemma view_of_simp [simp]: "view_of tx (s, e, b) = (Suc (line_at tx s), mb_left b, mb_right b)"
  by (simp add: view_of_def)

definition open_line :: "string \<Rightarrow> open_block \<Rightarrow> nat \<times> line list \<times> line list option" where
  "open_line tx c = (Suc (line_at tx (fst c)), snd c)"

lemma open_line_simp [simp]: "open_line tx (s, l, m) = (Suc (line_at tx s), l, m)"
  by (simp add: open_line_def)

definition open_at :: "string \<Rightarrow> nat \<Rightarrow> open_block option \<Rightarrow> bool" where
  "open_at tx pos cur \<longleftrightarrow> (case cur of None \<Rightarrow> True | Some (s, _) \<Rightarrow> s < pos \<and> is_char_boundary tx s)"

lemma at_line_boundary:
  assumes "at_line tx pos (ln # lns)"
  shows "is_char_boundary tx pos" "is_char_boundary tx (pos + length (strip_newline ln))"
proof -
  note ln = at_line_Cons [OF assms]
  have pos: "pos < length tx" using ln(3,4) by (cases ln) simp_all
  then have "drop pos tx = tx ! pos # drop (Suc pos) tx" by (simp add: Cons_nth_drop_Suc)
  moreover have "wf_text (drop pos tx)" using assms by (simp add: at_line_def wf_text_def)
  ultimately have "\<not> cont (tx ! pos)" by (cases "tx ! pos = newline") (simp_all add: wf_text_steps)
  then show "is_char_boundary tx pos" using pos by (auto simp: is_char_boundary_def cont_def)
  show "is_char_boundary tx (pos + length (strip_newline ln))"
    using ln(4,5) by (cases "last ln = newline") (auto simp: is_char_boundary_def)
qed

text \<open>One line further: its number counts unless it is the last and has no newline.\<close>

lemma line_at_step:
  assumes "at_line tx pos (ln # lns)"
  shows "scan_lines (map strip_newline lns) (line_at tx (pos + length ln)) cur
    = scan_lines (map strip_newline lns) (Suc (line_at tx pos)) cur"
proof (cases "last ln = newline")
  case False
  then have "lns = []" using at_line_Cons(5) [OF assms] by simp
  then show ?thesis by simp
next
  case True
  have "drop pos tx = ln @ concat lns" "newline \<notin> set (butlast ln)"
    using assms split_inclusive_ConsD [of newline "drop pos tx" ln lns] by (auto simp: at_line_def)
  moreover obtain xs where "ln = xs @ [newline]" using at_line_Cons(3) [OF assms] True by (metis append_butlast_last_id)
  ultimately have "take (length ln) (drop pos tx) = xs @ [newline]" "newline \<notin> set xs" by simp_all
  then have "take (pos + length ln) tx = take pos tx @ xs @ [newline]" "newline \<notin> set xs"
    by (simp_all add: take_add)
  then have "line_at tx (pos + length ln) = Suc (line_at tx pos)"
    by (auto simp: line_at_def filter_empty_conv)
  then show ?thesis by simp
qed

lemma scan_loop_lines:
  "at_line tx pos lns \<Longrightarrow> open_at tx pos cur \<Longrightarrow>
   map_option (map (view_of tx)) (scan_loop tx lns pos cur blocks) =
     map_option ((@) (map (view_of tx) blocks))
       (scan_lines (map strip_newline lns) (line_at tx pos) (map_option (open_line tx) cur))"
proof (induction lns arbitrary: pos cur blocks)
  case Nil
  then show ?case by simp
next
  case (Cons ln lns)
  note ln = at_line_Cons [OF Cons.prems(1)] and b = at_line_boundary [OF Cons.prems(1)]
  define st pos' where "st = strip_newline ln" and "pos' = pos + length ln"
  have step: "map_option (map (view_of tx)) (scan_loop tx lns pos' cur' blocks') =
     map_option ((@) (map (view_of tx) blocks'))
       (scan_lines (map strip_newline lns) (Suc (line_at tx pos)) (map_option (open_line tx) cur'))"
    if "open_at tx pos' cur'" for cur' blocks'
    using Cons.IH [OF _ that] ln(1) line_at_step [OF Cons.prems(1)] by (simp add: pos'_def)
  have pos': "pos < pos'" using ln(3) by (simp add: pos'_def)
  note simps = scan_loop.simps Let_def scan_lines.simps list.map st_def [symmetric] pos'_def [symmetric]
    starts_block_def [symmetric] separates_def [symmetric] ends_block_def [symmetric]
  show ?case
  proof (cases cur)
    case None
    then show ?thesis unfolding simps
      using step [of None blocks] step [of "Some (pos, [], None)" blocks] pos' b by (simp add: open_at_def)
  next
    case (Some c)
    obtain s l m where c: "c = (s, l, m)" by (cases c)
    have s: "s < pos" "is_char_boundary tx s" using Cons.prems(2) by (simp_all add: Some c open_at_def)
    have get: "str_get s (pos + length st) tx = Some (slice_of s (pos + length st) tx)"
      using s b(2) by (simp add: str_get_def st_def)
    have op: "open_at tx pos' (Some (s, l', m'))" for l' m' using s pos' by (simp add: open_at_def)
    show ?thesis unfolding simps Some c
      using step [OF op [of l "Some []"]] step [OF op [of "l @ [st]" None]] step [OF op]
        step [of None "blocks @ [(s, pos + length st, \<lparr>mb_original = slice_of s (pos + length st) tx, mb_left = l, mb_right = the m\<rparr>)]"]
      by (cases m; cases "scan_lines (map strip_newline lns) (Suc (line_at tx pos)) None")
        (auto simp: get open_at_def option.map_comp comp_def)
  qed
qed

lemma scan_lines_empty: "scan_lines (ls @ [[]]) k cur = scan_lines ls k cur"
proof -
  have "trim_start [] = []" by (simp add: trim_start_def strip_pats_none)
  then have "\<not> starts_block []" "\<not> separates []" "\<not> ends_block []"
    by (simp_all add: starts_block_def separates_def ends_block_def START_PREFIX_def END_PREFIX_def CONFLICT_SEP_def)
  then show ?thesis by (induction ls k cur rule: scan_lines.induct) (auto split: option.splits)
qed

text \<open>Every opening line of an accepted text opens one value, in order.\<close>

fun openings :: "nat \<Rightarrow> line list \<Rightarrow> nat list" where
  "openings k [] = []"
| "openings k (l # ls) = (if starts_block l then [Suc k] else []) @ openings (Suc k) ls"

lemma scan_lines_openings:
  "scan_lines ls k cur = Some vs \<Longrightarrow>
   map fst vs = (case cur of None \<Rightarrow> [] | Some c \<Rightarrow> [fst c]) @ openings k ls"
proof (induction ls k cur arbitrary: vs rule: scan_lines.induct)
  case (2 l ls k cur)
  then show ?case by (auto split: if_splits option.splits prod.splits)
qed (auto split: if_splits option.splits)

lemma openings_filter:
  "openings k ls = map (\<lambda>i. Suc (k + i)) (filter (\<lambda>i. starts_block (ls ! i)) [0..<length ls])"
proof (induction k ls rule: openings.induct)
  case (2 k l ls)
  have "[0..<length (l # ls)] = 0 # map Suc [0..<length ls]" by (simp add: upt_conv_Cons map_Suc_upt del: upt_Suc)
  then show ?case using 2 by (simp add: filter_map comp_def del: upt_Suc)
qed simp

lemma split_inclusive_lines:
  "split_on newline s =
     map strip_newline (split_inclusive newline s) @ (if s = [] \<or> last s = newline then [[]] else [])"
proof (induction s)
  case (Cons x s)
  show ?case
  proof (cases "x = newline \<or> s = []")
    case True
    then show ?thesis using Cons by (auto simp: strip_newline_def)
  next
    case False
    then obtain y ys where y: "split_inclusive newline s = y # ys" by (cases "split_inclusive newline s") auto
    have "y \<noteq> []" using split_inclusive_ConsD [OF y] by blast
    then have "strip_newline (x # y) = x # strip_newline y" by (simp add: strip_newline_def)
    then show ?thesis using Cons False y by simp
  qed
qed simp

lemma scan_blocks_lines:
  assumes "wf_text tx"
  shows "map_option (map (view_of tx)) (scan_marker_blocks tx) = scan_lines (split_on newline tx) 0 None"
proof -
  have "scan_lines (split_on newline tx) 0 None = scan_lines (map strip_newline (split_inclusive newline tx)) 0 None"
    by (subst split_inclusive_lines) (simp add: scan_lines_empty)
  moreover have "line_at tx 0 = 0" by (simp add: line_at_def)
  ultimately show ?thesis
    using scan_loop_lines [OF at_line_start [OF assms], of None "[]"]
    by (simp add: scan_marker_blocks_def open_at_def append_Nil [abs_def] option.map_ident)
qed

section \<open>Rendered conflicts\<close>

lemma trim_start_solid: "s \<noteq> [] \<Longrightarrow> solid (hd s) \<Longrightarrow> trim_start s = s"
proof -
  assume a: "s \<noteq> []" "solid (hd s)"
  have "p \<in> set ws_chars \<Longrightarrow> \<not> prefix p s" for p
    using ws_chars_solid [of p] a by (cases p; cases s) auto
  then show ?thesis unfolding trim_start_def by (intro strip_pats_none) blast
qed

lemma marker_lines:
  "starts_block CONFLICT_START" "\<not> starts_block CONFLICT_SEP" "separates CONFLICT_SEP"
  "\<not> starts_block CONFLICT_END" "\<not> separates CONFLICT_END" "ends_block CONFLICT_END"
  "line_ok CONFLICT_START" "line_ok CONFLICT_SEP" "line_ok CONFLICT_END"
  by (simp_all add: starts_block_def separates_def ends_block_def line_ok_def cont_def trim_start_solid solid_def
      CONFLICT_START_def CONFLICT_SEP_def CONFLICT_END_def START_PREFIX_def END_PREFIX_def)

lemma scan_lines_unmarked:
  assumes "list_all unmarked ls"
  shows "scan_lines (ls @ rest) k None = scan_lines rest (k + length ls) None"
    and "scan_lines (ls @ rest) k (Some (n, l, None)) = scan_lines rest (k + length ls) (Some (n, l @ ls, None))"
    and "scan_lines (ls @ rest) k (Some (n, l, Some r)) = scan_lines rest (k + length ls) (Some (n, l, Some (r @ ls)))"
  using assms by (induction ls arbitrary: k l r) (auto simp: unmarked_def)

lemma scan_lines_region:
  assumes "list_all unmarked (rbase g)" "list_all unmarked (rleft g)" "list_all unmarked (rright g)"
  shows "map_option (map snd) (scan_lines (region_text g @ rest) k None) =
    map_option ((@) (map (\<lambda>c. (cleft c, cright c)) (region_conflict g)))
      (map_option (map snd) (scan_lines rest (k + length (region_text g)) None))"
  using assms
  by (simp add: region_text_def region_conflict_def scan_lines_unmarked marker_lines append_Nil [abs_def]
      option.map_ident option.map_comp comp_def append_Cons [abs_def] add.assoc)

lemma scan_lines_regions:
  "list_all (\<lambda>g. list_all unmarked (rbase g) \<and> list_all unmarked (rleft g) \<and> list_all unmarked (rright g)) gs \<Longrightarrow>
   map_option (map snd) (scan_lines (concat (map region_text gs)) k None) =
     Some (map (\<lambda>c. (cleft c, cright c)) (concat (map region_conflict gs)))"
  by (induction gs arbitrary: k) (simp_all add: scan_lines_region)

lemma doc_lines:
  assumes "list_all line_ok (lines d)"
  shows "wf_text (doc_to_string d)" "split_on newline (doc_to_string d) = (if lines d = [] then [[]] else lines d)"
proof -
  show split: "split_on newline (doc_to_string d) = (if lines d = [] then [[]] else lines d)"
    using assms by (auto simp: doc_to_string_def split_join_on list_all_iff line_ok_def)
  show "wf_text (doc_to_string d)" unfolding wf_text_def split using assms by (auto simp: list_all_iff line_ok_def)
qed

lemma scan_doc:
  assumes "list_all line_ok (lines d)"
  shows "map_option (map (view_of (doc_to_string d))) (scan_marker_blocks (doc_to_string d)) = scan_lines (lines d) 0 None"
  using scan_blocks_lines [OF doc_lines(1) [OF assms]] doc_lines(2) [OF assms] scan_lines_empty [of "[]" 0 None] by simp

section \<open>The values of a scanned text\<close>

text \<open>The definition that a value is attributed to: of those that contain its range in the sanitized
text the one that starts last, and none only if there is none.\<close>

definition innermost :: "defn list \<Rightarrow> nat \<times> nat \<Rightarrow> string option \<Rightarrow> bool" where
  "innermost ds r owner \<longleftrightarrow>
     (let around = {d \<in> set ds. fst (byte_range d) \<le> fst r \<and> snd r \<le> snd (byte_range d)} in
      case owner of
        None \<Rightarrow> around = {}
      | Some path \<Rightarrow> \<exists>d\<in>around. dpath d = path \<and> (\<forall>e\<in>around. fst (byte_range e) \<le> fst (byte_range d)))"

lemma deepest_fold:
  "fold (\<lambda>d best. case best of None \<Rightarrow> Some d
      | Some m \<Rightarrow> if fst (byte_range m) \<le> fst (byte_range d) then Some d else best) ds (Some m) = Some d \<Longrightarrow>
   d \<in> set (m # ds) \<and> (\<forall>e\<in>set (m # ds). fst (byte_range e) \<le> fst (byte_range d))"
  by (induction ds arbitrary: m) (fastforce split: if_splits)+

lemma deepest_innermost:
  "innermost ds (lo, hi)
     (map_option dpath (deepest (filter (\<lambda>d. fst (byte_range d) \<le> lo \<and> hi \<le> snd (byte_range d)) ds)))"
proof (cases "filter (\<lambda>d. fst (byte_range d) \<le> lo \<and> hi \<le> snd (byte_range d)) ds")
  case Nil
  then show ?thesis by (auto simp: innermost_def deepest_def filter_empty_conv)
next
  case (Cons m ms)
  have some: "\<exists>d. fold (\<lambda>d best. case best of None \<Rightarrow> Some d
      | Some m \<Rightarrow> if fst (byte_range m) \<le> fst (byte_range d) then Some d else best) xs (Some m) = Some d" for xs m
    by (induction xs arbitrary: m) auto
  obtain d where d: "deepest (m # ms) = Some d" using some [of ms m] by (auto simp: deepest_def)
  have "{d \<in> set ds. fst (byte_range d) \<le> lo \<and> hi \<le> snd (byte_range d)} = set (m # ms)"
    unfolding Cons [symmetric] by auto
  then show ?thesis
    using deepest_fold [of ms m d] d unfolding Cons by (auto simp: innermost_def deepest_def)
qed

definition value_sides :: "conflict_value \<Rightarrow> line_value" where
  "value_sides v = (cv_line v, cv_left v, cv_right v)"

lemma value_loop_views:
  "list_all (\<lambda>b. is_char_boundary tx (fst b)) bs \<Longrightarrow> length vs = length bs \<Longrightarrow>
   \<exists>out. value_loop tx ds vs bs = Some out \<and> map value_sides out = map (view_of tx) bs \<and>
     list_all2 (\<lambda>v out. innermost ds (fst v) (cv_definition out)) vs out"
proof (induction tx ds vs bs rule: value_loop.induct)
  case (1 source ds lo hi uu vs bstart uv block bs)
  have get: "str_get 0 bstart source = Some (take bstart source)"
    using "1.prems"(1) by (simp add: str_get_def slice_of_def)
  obtain out where out: "value_loop source ds vs bs = Some out" "map value_sides out = map (view_of source) bs"
    "list_all2 (\<lambda>v out. innermost ds (fst v) (cv_definition out)) vs out"
    using "1.IH" [OF get] "1.prems" by auto
  then show ?case using deepest_innermost [of ds lo hi] by (simp add: get value_sides_def [abs_def] line_at_def)
qed auto

lemma blocks_ok_boundary: "blocks_ok tx c bs \<Longrightarrow> list_all (\<lambda>b. is_char_boundary tx (fst b)) bs"
  by (induction tx c bs rule: blocks_ok.induct) (auto simp: str_get_Some_iff)

lemma prepare_loop_left:
  "prepare_loop tx bs san vals cursor = Some p \<Longrightarrow>
   \<exists>t vs. sanitized p = san @ t \<and> pvalues p = vals @ vs \<and>
     list_all (\<lambda>((lo, hi), b). slice_of lo hi (san @ t) = join_with newline (mb_left b)) vs"
proof (induction tx bs san vals cursor rule: prepare_loop.induct)
  case (2 tx bstart bend block bs san vals cursor)
  then obtain pre where pre: "str_get cursor bstart tx = Some pre" by (auto split: option.splits)
  let ?rep = "join_with newline (mb_left block)"
  let ?v = "((length (san @ pre), length (san @ pre @ ?rep)), block)"
  obtain t vs where t: "sanitized p = (san @ pre @ ?rep) @ t" "pvalues p = (vals @ [?v]) @ vs"
    "list_all (\<lambda>((lo, hi), b). slice_of lo hi ((san @ pre @ ?rep) @ t) = join_with newline (mb_left b)) vs"
    using "2.IH" [OF pre refl refl] "2.prems" pre by (auto simp: Let_def)
  then show ?case
    by (intro exI [of _ "pre @ ?rep @ t"] exI [of _ "?v # vs"]) (simp add: slice_of_def)
qed (auto split: option.splits)

lemma prepared_left:
  assumes "prepared_of tx = Some p"
  shows "list_all (\<lambda>((lo, hi), b). slice_of lo hi (sanitized p) = join_with newline (mb_left b)) (pvalues p)"
  using assms prepare_loop_left [of tx _ "[]" "[]" 0 p] by (auto simp: prepared_of_def split: option.splits if_splits)

section \<open>Properties\<close>

text \<open>The ranges of the extracted definitions lie in the text on character boundaries, as the
byte ranges of a tree-sitter node do.\<close>

definition ranges_ok :: "grammar \<Rightarrow> string \<Rightarrow> bool" where
  "ranges_ok g s = (case definitions_of g s of Inl _ \<Rightarrow> True | Inr ds \<Rightarrow> defs_ok s ds)"

definition seg_laid_out :: "segmentation \<Rightarrow> bool" where
  "seg_laid_out seg \<longleftrightarrow> length (gaps seg) = Suc (length (items seg))"

text \<open>A segmentation that is exactly the text it was made from, with the values in its items.\<close>

definition restored :: "string \<Rightarrow> prepared \<Rightarrow> segmentation \<Rightarrow> bool" where
  "restored tx p seg \<longleftrightarrow>
     seg_laid_out seg \<and> weave (gaps seg) (map original_text (items seg)) = tx \<and>
     weave (gaps seg) (map itext (items seg)) = sanitized p \<and>
     concat (map icarried (items seg)) = map (block_conflict \<circ> snd) (pvalues p) \<and>
     (pvalues p = [] \<longrightarrow> list_all plain_item (items seg))"

lemma segment_result:
  assumes "wf_text tx" "prepared_of tx = Some p" "ranges_ok g (sanitized p)"
  shows "segment g p = Some None \<or> (\<exists>seg. segment g p = Some (Some seg) \<and> restored tx p seg)"
proof (cases "definitions_of g (sanitized p)")
  case (Inl e)
  then show ?thesis by (simp add: segment_def segmentation_of_def)
next
  case (Inr ds)
  define S where "S = segment_loop (sanitized p) ds 0 0 [] []"
  have S: "laid_out 0 (gaps S) (items S)" "list_all plain_item (items S)"
    "weave (gaps S) (map itext (items S)) = sanitized p"
    using segment_loop_ok [of "sanitized p" ds 0] assms(3) Inr by (simp_all add: S_def ranges_ok_def)
  obtain bs where "scan_marker_blocks tx = Some bs" using assms(2) by (auto simp: prepared_of_def split: option.splits)
  then have p: "unsanitize (pvalues p) (sanitized p) = tx" "values_ok (sanitized p) 0 (pvalues p)"
    using prepared_ok [OF _ assms(1)] assms(2) by (metis option.inject)+
  show ?thesis
  proof (cases "pin_values (items S) (pvalues p)")
    case None
    then show ?thesis using Inr by (simp add: segment_def segmentation_of_def flip: S_def)
  next
    case (Some pins)
    obtain cur where cur: "splice_pins (rev pins) (items S) = Some cur"
      "spliced (bound_of (sanitized p) (pvalues p)) (items S) cur"
      "weave (gaps S) (map original_text cur) = tx"
      "concat (map icarried cur) = map (block_conflict \<circ> snd) (pvalues p)"
      using splice_values [OF S p(2) Some] p(1) by auto
    have "pvalues p = [] \<Longrightarrow> cur = items S" using Some cur(1) by auto
    moreover have "length cur = length (items S)" "map itext cur = map itext (items S)"
      using cur(2) map_eq_imp_length_eq [of idef cur idef "items S"] by (simp_all add: spliced_def)
    ultimately have "restored tx p (S\<lparr>items := cur\<rparr>)"
      using cur S laid_out_length [OF S(1)] by (simp add: restored_def seg_laid_out_def)
    then show ?thesis using Inr Some cur(1) by (simp add: segment_def segmentation_of_def flip: S_def)
  qed
qed

text \<open>Sanitizing and segmenting lose nothing and never panic: for a well-formed text whose marker
structure is accepted, the segmentation either bails or gives items and gaps that, woven together
with the conflict values spliced back, are exactly the text, and with the left variants are exactly
the text that was parsed; the values the items carry are those of the text, in order.\<close>
theorem segment_restores:
  assumes "wf_text tx" "prepared_of tx = Some p" "ranges_ok g (sanitized p)"
  shows "(case segment g p of
      None \<Rightarrow> False
    | Some None \<Rightarrow> True
    | Some (Some seg) \<Rightarrow>
        weave (gaps seg) (map original_text (items seg)) = tx \<and>
        weave (gaps seg) (map itext (items seg)) = sanitized p \<and>
        concat (map icarried (items seg)) = map (block_conflict \<circ> snd) (pvalues p))"
  using segment_result [OF assms] by (elim disjE exE conjE) (simp_all add: restored_def)

text \<open>What a query answers for the text \<open>tx\<close> of a merge \<open>m\<close>: nothing for a clean one; otherwise it
gives up only when the grammar cannot parse the sanitized text, and else answers one value per
conflict, in order, with the two sides of the conflict, the number of the line of its opening marker,
and the innermost definition around its left variant in the sanitized text. The sanitized text is
the one from which putting the marker blocks back restores \<open>tx\<close>.\<close>

definition queried :: "grammar \<Rightarrow> merge \<Rightarrow> string \<Rightarrow> bool" where
  "queried g m tx \<longleftrightarrow>
     (if conflicts m = [] then conflict_values g tx = Some (Some [])
      else (\<exists>p. prepared_of tx = Some p \<and> unsanitize (pvalues p) (sanitized p) = tx \<and>
        (case definitions_of g (sanitized p) of
           Inl _ \<Rightarrow> conflict_values g tx = Some None
         | Inr ds \<Rightarrow> (\<exists>vs. conflict_values g tx = Some (Some vs) \<and>
             map cv_left vs = map cleft (conflicts m) \<and> map cv_right vs = map cright (conflicts m) \<and>
             map cv_line vs = map Suc (filter (\<lambda>i. lines (merged m) ! i = CONFLICT_START) [0..<length (lines (merged m))]) \<and>
             list_all2 (\<lambda>((lo, hi), _) v. slice_of lo hi (sanitized p) = join_with newline (cv_left v) \<and>
               innermost ds (lo, hi) (cv_definition v)) (pvalues p) vs))))"

lemma conflict_values_scanned:
  assumes "wf_text tx" "scan_marker_blocks tx = Some bs" "bs \<noteq> []"
  shows "\<exists>p. prepared_of tx = Some p \<and> unsanitize (pvalues p) (sanitized p) = tx \<and>
    (case definitions_of g (sanitized p) of
       Inl _ \<Rightarrow> conflict_values g tx = Some None
     | Inr ds \<Rightarrow> \<exists>vs. conflict_values g tx = Some (Some vs) \<and> map value_sides vs = map (view_of tx) bs \<and>
         list_all2 (\<lambda>((lo, hi), _) v. slice_of lo hi (sanitized p) = join_with newline (cv_left v) \<and>
           innermost ds (lo, hi) (cv_definition v)) (pvalues p) vs)"
proof -
  obtain p where p: "prepared_of tx = Some p" "unsanitize (pvalues p) (sanitized p) = tx"
    "map snd (pvalues p) = map (snd \<circ> snd) bs"
    by (rule prepared_ok [OF assms(2,1)])
  have len: "length (pvalues p) = length bs" using arg_cong [OF p(3), of length] by simp
  then have some: "pvalues p \<noteq> []" using assms(3) by auto
  show ?thesis
  proof (cases "definitions_of g (sanitized p)")
    case (Inl e)
    then show ?thesis using p(1,2) some by (intro exI [of _ p]) (simp add: conflict_values_def)
  next
    case (Inr ds)
    obtain vs where vs: "value_loop tx ds (pvalues p) bs = Some vs" "map value_sides vs = map (view_of tx) bs"
      "list_all2 (\<lambda>v out. innermost ds (fst v) (cv_definition out)) (pvalues p) vs"
      using value_loop_views [OF blocks_ok_boundary [OF scan_ok [OF assms(2,1)]] len] by blast
    have "slice_of (fst (fst (pvalues p ! i))) (snd (fst (pvalues p ! i))) (sanitized p) = join_with newline (cv_left (vs ! i))"
      if "i < length bs" for i
    proof -
      have "map snd (pvalues p) ! i = map (snd \<circ> snd) bs ! i" "map value_sides vs ! i = map (view_of tx) bs ! i"
        unfolding p(3) vs(2) by (rule refl)+
      moreover have "length vs = length bs" using arg_cong [OF vs(2), of length] by simp
      ultimately have "cv_left (vs ! i) = mb_left (snd (pvalues p ! i))"
        using that len by (simp add: value_sides_def view_of_def)
      then show ?thesis
        using prepared_left [OF p(1)] that len by (auto simp: list_all_length split: prod.splits)
    qed
    then have "list_all2 (\<lambda>((lo, hi), _) v. slice_of lo hi (sanitized p) = join_with newline (cv_left v) \<and>
        innermost ds (lo, hi) (cv_definition v)) (pvalues p) vs"
      using vs(3) len by (fastforce simp: list_all2_conv_all_nth split: prod.splits)
    then show ?thesis
      using p(1,2) vs(1,2) some Inr assms(2) by (intro exI [of _ p]) (simp add: conflict_values_def)
  qed
qed

lemma merge3_lines:
  assumes "list_all (\<lambda>l. line_ok l \<and> unmarked l) (lines base @ lines left @ lines right)"
  defines "m \<equiv> merge3 base left right"
  shows "list_all line_ok (lines (merged m))"
    "\<forall>l\<in>set (lines (merged m)). starts_block l \<longleftrightarrow> l = CONFLICT_START"
    "map_option (map snd) (scan_lines (lines (merged m)) 0 None) = Some (map (\<lambda>c. (cleft c, cright c)) (conflicts m))"
proof -
  let ?gs = "regions_of base left right"
  have all: "list_all P (rbase g) \<and> list_all P (rleft g) \<and> list_all P (rright g)"
    if "list_all P (lines base @ lines left @ lines right)" "g \<in> set ?gs" for P g
    using that by (auto simp: list_all_iff simp flip: regions_of_concat [of base left right])
  have "list_all line_ok (lines base @ lines left @ lines right)" "list_all unmarked (lines base @ lines left @ lines right)"
    using assms(1) by (auto simp: list_all_iff)
  note parts = all [OF this(1)] all [OF this(2)]
  have "list_all line_ok (region_text g)" if "g \<in> set ?gs" for g
    using parts(1) [OF that] marker_lines by (simp add: region_text_def)
  then show "list_all line_ok (lines (merged m))"
    by (auto simp: m_def merge3_regions list_all_iff)
  have "\<forall>l\<in>set (region_text g). starts_block l \<longleftrightarrow> l = CONFLICT_START" if "g \<in> set ?gs" for g
    using parts(2) [OF that] marker_lines by (auto simp: region_text_def list_all_iff unmarked_def)
  then show "\<forall>l\<in>set (lines (merged m)). starts_block l \<longleftrightarrow> l = CONFLICT_START"
    by (auto simp: m_def merge3_regions)
  show "map_option (map snd) (scan_lines (lines (merged m)) 0 None) = Some (map (\<lambda>c. (cleft c, cright c)) (conflicts m))"
    using scan_lines_regions [of ?gs 0] parts(2) by (simp add: m_def merge3_regions list_all_iff)
qed

text \<open>C33: The conflicts of one merge are the conflict values of the next: when no line of the three
documents looks like a marker, the query on the rendered result of \<open>merge3\<close> never panics and never
takes the text for malformed; it answers exactly one value per conflict, in order, with the two sides
that the conflict holds, the line of its opening marker and the innermost definition around it.\<close>
theorem merge3_conflicts_are_values:
  assumes "list_all (\<lambda>l. line_ok l \<and> unmarked l) (lines base @ lines left @ lines right)"
  shows "queried g (merge3 base left right) (doc_to_string (merged (merge3 base left right)))"
proof -
  define m tx where "m = merge3 base left right" and "tx = doc_to_string (merged m)"
  note ln = merge3_lines [OF assms, folded m_def]
  obtain bs where bs: "scan_marker_blocks tx = Some bs" "scan_lines (lines (merged m)) 0 None = Some (map (view_of tx) bs)"
    using scan_doc [OF ln(1)] ln(3) by (auto simp: tx_def)
  have sides: "map (snd \<circ> view_of tx) bs = map (\<lambda>c. (cleft c, cright c)) (conflicts m)" using ln(3) bs(2) by simp
  have "openings 0 (lines (merged m)) =
      map Suc (filter (\<lambda>i. lines (merged m) ! i = CONFLICT_START) [0..<length (lines (merged m))])"
    unfolding openings_filter using ln(2) marker_lines(1) by (auto intro!: arg_cong [of _ _ "map Suc"] filter_cong)
  then have nums: "map (fst \<circ> view_of tx) bs =
      map Suc (filter (\<lambda>i. lines (merged m) ! i = CONFLICT_START) [0..<length (lines (merged m))])"
    using scan_lines_openings [OF bs(2)] by simp
  have "queried g m tx"
  proof (cases "conflicts m = []")
    case True
    then have "bs = []" using sides by simp
    then show ?thesis using bs(1) True by (simp add: queried_def conflict_values_def prepared_of_def)
  next
    case False
    then have "bs \<noteq> []" using sides by auto
    note scanned = conflict_values_scanned [OF doc_lines(1) [OF ln(1), folded tx_def] bs(1) this, of g]
    have views: "map cv_left vs = map cleft (conflicts m) \<and> map cv_right vs = map cright (conflicts m) \<and>
        map cv_line vs = map Suc (filter (\<lambda>i. lines (merged m) ! i = CONFLICT_START) [0..<length (lines (merged m))])"
      if "map value_sides vs = map (view_of tx) bs" for vs
    proof -
      have "map (\<lambda>v. (cv_left v, cv_right v)) vs = map (\<lambda>c. (cleft c, cright c)) (conflicts m)"
        unfolding sides [symmetric] using arg_cong [OF that, of "map snd"] by (simp add: value_sides_def comp_def)
      from arg_cong [OF this, of "map fst"] arg_cong [OF this, of "map snd"]
      have "map cv_left vs = map cleft (conflicts m)" "map cv_right vs = map cright (conflicts m)" by (simp_all add: comp_def)
      moreover have "map cv_line vs = map (fst \<circ> view_of tx) bs"
        using arg_cong [OF that, of "map fst"] by (simp add: value_sides_def comp_def)
      ultimately show ?thesis using nums by simp
    qed
    show ?thesis
      unfolding queried_def if_not_P [OF False] using scanned views by (fastforce split: sum.splits)
  qed
  then show ?thesis unfolding tx_def m_def .
qed

section \<open>Witnesses\<close>

text \<open>A grammar that sees one function in every text that has at least two bytes.\<close>

definition ex_grammar :: grammar where
  "ex_grammar = \<lparr>sha256_hex = (\<lambda>s. s), language_error = None,
     syntax_tree = (\<lambda>s. Some (Node ''source_file'' 0 (length s) []
       (if length s < 2 then [] else [Node ''function_item'' 0 (length s - 1) [] []]))),
     tree_has_error = (\<lambda>n. False)\<rparr>"

definition ex_conflicted :: string where
  "ex_conflicted = unlines [''f{'', ''<<<<<<< left'', ''A'', ''======='', ''B'', ''>>>>>>> right'', ''}'']"

lemma ex_ascii: "list_all (\<lambda>c. byte c < 128) ex_conflicted"
  by code_simp

lemma segment_restores_witness:
  "\<exists>seg. segment ex_grammar \<lparr>sanitized = unlines [''f{'', ''A'', ''}''],
       pvalues = [((3, 4), \<lparr>mb_original = join_with newline [''<<<<<<< left'', ''A'', ''======='', ''B'', ''>>>>>>> right''],
         mb_left = [''A''], mb_right = [''B'']\<rparr>)]\<rparr> = Some (Some seg) \<and>
     weave (gaps seg) (map original_text (items seg)) = ex_conflicted"
proof -
  let ?p = "\<lparr>sanitized = unlines [''f{'', ''A'', ''}''],
       pvalues = [((3, 4), \<lparr>mb_original = join_with newline [''<<<<<<< left'', ''A'', ''======='', ''B'', ''>>>>>>> right''],
         mb_left = [''A''], mb_right = [''B'']\<rparr>)]\<rparr>"
  have p: "prepared_of ex_conflicted = Some ?p" by code_simp
  have r: "ranges_ok ex_grammar (sanitized ?p)" by code_simp
  have "(case segment ex_grammar ?p of Some (Some _) \<Rightarrow> True | _ \<Rightarrow> False)" by code_simp
  then show ?thesis
    using segment_restores [OF utf8_valid_wf [OF utf8_valid_all_ascii [OF ex_ascii]] p r]
    by (auto split: option.splits)
qed

lemma merge3_conflicts_are_values_witness:
  "queried ex_grammar (merge3 (from_lines [''b'']) (from_lines [''l'']) (from_lines [''r'']))
     (doc_to_string (merged (merge3 (from_lines [''b'']) (from_lines [''l'']) (from_lines [''r'']))))"
proof -
  have "list_all (\<lambda>l. line_ok l \<and> unmarked l) [''b'', ''l'', ''r'']"
    by (simp add: line_ok_def unmarked_def starts_block_def separates_def ends_block_def trim_start_solid solid_def
        cont_def START_PREFIX_def END_PREFIX_def CONFLICT_SEP_def)
  then show ?thesis
    using merge3_conflicts_are_values [of "from_lines [''b'']" "from_lines [''l'']" "from_lines [''r'']"] by simp
qed

text \<open>The answer for that merge: one value on line 1 with both sides. The grammar of the example sees no
definition in a sanitized text of one character.\<close>

lemma conflict_values_example:
  "conflict_values ex_grammar
     (doc_to_string (merged (merge3 (from_lines [''b'']) (from_lines [''l'']) (from_lines [''r'']))))
   = Some (Some [\<lparr>cv_definition = None, cv_line = 1, cv_left = [''l''], cv_right = [''r'']\<rparr>])"
  by code_simp

end
