(* ===== verification/RustMerge.thy ===== *)
theory RustMerge
  imports ConflictValues Queue
begin

text \<open>
  The structural driver for Rust, \<open>rust.rs\<close>: the items of the three segmented sides are paired by
  the identity matcher and resolved one by one, with recursion into containers, and the output is
  reassembled in a canonical order.
\<close>

section \<open>Pairing\<close>

record pairing =
  base_to_side :: "nat option list"
  added :: "nat list"

definition pair_step :: "def_match \<Rightarrow> pairing \<Rightarrow> pairing" where
  "pair_step m pr =
     (case status m of
        Added \<Rightarrow> (case mnew m of Some n \<Rightarrow> pr\<lparr>added := added pr @ [n]\<rparr> | None \<Rightarrow> pr)
      | Deleted \<Rightarrow> pr
      | _ \<Rightarrow>
        (case (mold m, mnew m) of
           (Some i, Some n) \<Rightarrow> pr\<lparr>base_to_side := (base_to_side pr)[i := Some n]\<rparr>
         | _ \<Rightarrow> pr))"

definition defs_of :: "segmentation \<Rightarrow> defn list" where
  "defs_of seg = map idef (items seg)"

definition pair_items :: "segmentation \<Rightarrow> segmentation \<Rightarrow> pairing" where
  "pair_items base side =
     fold pair_step (match_definitions (defs_of base) (defs_of side))
       \<lparr>base_to_side = replicate (length (items base)) None, added = []\<rparr>"

section \<open>Resolution of an item\<close>

datatype resolution =
    Keep string
  | Drop
  | Conflicted string "conflict list"
  | Carry string "conflict list"

definition text_lines :: "string \<Rightarrow> line list" where
  "text_lines t = split_on newline t"

definition render_conflict :: "string \<Rightarrow> string \<Rightarrow> string" where
  "render_conflict l r =
     CONFLICT_START @ [newline] @ l @ [newline] @ CONFLICT_SEP @ [newline] @ r @ [newline] @ CONFLICT_END"

definition keep_or_carry :: "item \<Rightarrow> resolution" where
  "keep_or_carry side =
     (if icarried side = [] then Keep (original_text side) else Carry (original_text side) (icarried side))"

text \<open>
  \<open>resolve_base_item\<close> over the container merge it calls, which recurses through the merge of the
  members; the recursion is closed below.
\<close>

definition resolve_with ::
  "(item \<Rightarrow> item \<Rightarrow> item \<Rightarrow> resolution option) \<Rightarrow> item \<Rightarrow> item option \<Rightarrow> item option \<Rightarrow> resolution" where
  "resolve_with container base lft rgt =
     (case (lft, rgt) of
        (Some l, Some r) \<Rightarrow>
          (if original_text l = original_text base then
             (if original_text r = original_text base then keep_or_carry base else keep_or_carry r)
           else if original_text r = original_text base then keep_or_carry l
           else if icarried l \<noteq> [] \<or> icarried r \<noteq> [] then
             Conflicted (render_conflict (original_text l) (original_text r))
               [\<lparr>cbase = text_lines (original_text base), cleft = text_lines (original_text l),
                 cright = text_lines (original_text r)\<rparr>]
           else (case container base l r of
               Some res \<Rightarrow> res
             | None \<Rightarrow>
                 (let m = merge3 (from_str (itext base)) (from_str (itext l)) (from_str (itext r)) in
                  if is_clean m then Keep (doc_to_string (merged m))
                  else Conflicted (doc_to_string (merged m)) (conflicts m))))
      | (Some l, None) \<Rightarrow>
          (if original_text l = original_text base then Drop
           else Conflicted (render_conflict (original_text l) [])
             [\<lparr>cbase = text_lines (original_text base), cleft = text_lines (original_text l), cright = []\<rparr>])
      | (None, Some r) \<Rightarrow>
          (if original_text r = original_text base then Drop
           else Conflicted (render_conflict [] (original_text r))
             [\<lparr>cbase = text_lines (original_text base), cleft = [], cright = text_lines (original_text r)\<rparr>])
      | (None, None) \<Rightarrow> Drop)"

section \<open>Assembly\<close>

text \<open>The pieces of the output, each a leading gap and a body, with the two lists of conflicts.\<close>

type_synonym pieces = "(string \<times> string) list \<times> conflict list \<times> conflict list"

definition gap_at :: "segmentation \<Rightarrow> nat \<Rightarrow> string" where
  "gap_at seg i = (case nth_opt (gaps seg) i of Some t \<Rightarrow> t | None \<Rightarrow> [])"

definition counterpart_of :: "pairing \<Rightarrow> segmentation \<Rightarrow> nat \<Rightarrow> item option" where
  "counterpart_of pr side i =
     (case nth_opt (base_to_side pr) i of Some (Some n) \<Rightarrow> item_at side n | _ \<Rightarrow> None)"

definition emit_resolution :: "string \<Rightarrow> resolution \<Rightarrow> pieces \<Rightarrow> pieces" where
  "emit_resolution leading res st =
     (case st of (out, cs, cv) \<Rightarrow>
        (case res of
           Keep body \<Rightarrow> (out @ [(leading, body)], cs, cv)
         | Drop \<Rightarrow> (out, cs, cv)
         | Conflicted rendered cs' \<Rightarrow> (out @ [(leading, rendered)], cs @ cs', cv)
         | Carry rendered cv' \<Rightarrow> (out @ [(leading, rendered)], cs, cv @ cv')))"

definition push_added :: "string \<Rightarrow> item \<Rightarrow> pieces \<Rightarrow> pieces" where
  "push_added leading it st =
     (case st of (out, cs, cv) \<Rightarrow> (out @ [(leading, original_text it)], cs, cv @ icarried it))"

definition same_key :: "item \<Rightarrow> item \<Rightarrow> bool" where
  "same_key li ri \<longleftrightarrow> dkind (idef ri) = dkind (idef li) \<and> dpath (idef ri) = dpath (idef li)"

definition find_counterpart :: "segmentation \<Rightarrow> nat list \<Rightarrow> bool list \<Rightarrow> item \<Rightarrow> nat option" where
  "find_counterpart right right_added consumed litem =
     find (\<lambda>rj. nth_opt consumed rj = Some False \<and>
        (case item_at right rj of Some ri \<Rightarrow> same_key litem ri | None \<Rightarrow> False)) right_added"

fun left_added_loop ::
  "segmentation \<Rightarrow> segmentation \<Rightarrow> nat list \<Rightarrow> nat list \<Rightarrow> bool list \<Rightarrow> pieces \<Rightarrow> bool list \<times> pieces" where
  "left_added_loop left right radded [] consumed st = (consumed, st)"
| "left_added_loop left right radded (lj # ljs) consumed st =
     (case item_at left lj of
        None \<Rightarrow> left_added_loop left right radded ljs consumed st
      | Some litem \<Rightarrow>
        (case find_counterpart right radded consumed litem of
           None \<Rightarrow>
             left_added_loop left right radded ljs consumed (push_added (gap_at left lj) litem st)
         | Some rj \<Rightarrow>
             (let rtext = (case item_at right rj of Some ri \<Rightarrow> original_text ri | None \<Rightarrow> []);
                  consumed' = consumed[rj := True] in
              if rtext = original_text litem then
                left_added_loop left right radded ljs consumed' (push_added (gap_at left lj) litem st)
              else
                left_added_loop left right radded ljs consumed'
                  (emit_resolution (gap_at left lj)
                    (Conflicted (render_conflict (original_text litem) rtext)
                      [\<lparr>cbase = [], cleft = text_lines (original_text litem), cright = text_lines rtext\<rparr>])
                    st))))"

fun right_added_loop :: "segmentation \<Rightarrow> nat list \<Rightarrow> bool list \<Rightarrow> pieces \<Rightarrow> pieces" where
  "right_added_loop right [] consumed st = st"
| "right_added_loop right (rj # rjs) consumed st =
     (if nth_opt consumed rj = Some True then right_added_loop right rjs consumed st
      else (case item_at right rj of
          None \<Rightarrow> right_added_loop right rjs consumed st
        | Some ritem \<Rightarrow> right_added_loop right rjs consumed (push_added (gap_at right rj) ritem st)))"

type_synonym resolver = "item \<Rightarrow> item option \<Rightarrow> item option \<Rightarrow> resolution"

definition base_pieces ::
  "resolver \<Rightarrow> segmentation \<Rightarrow> segmentation \<Rightarrow> segmentation \<Rightarrow> pairing \<Rightarrow> pairing \<Rightarrow> pieces" where
  "base_pieces res base left right lp rp =
     fold (\<lambda>(i, it). emit_resolution (gap_at base i) (res it (counterpart_of lp left i) (counterpart_of rp right i)))
       (enumerate 0 (items base)) ([], [], [])"

definition merge_pieces :: "resolver \<Rightarrow> segmentation \<Rightarrow> segmentation \<Rightarrow> segmentation \<Rightarrow> pieces" where
  "merge_pieces res base left right =
     (let lp = pair_items base left; rp = pair_items base right;
          st = base_pieces res base left right lp rp;
          (consumed, st') =
            left_added_loop left right (added rp) (added lp) (replicate (length (items right)) False) st in
      right_added_loop right (added rp) consumed st')"

definition assemble :: "segmentation \<Rightarrow> pieces \<Rightarrow> driver_output" where
  "assemble base st =
     (case st of (out, cs, cv) \<Rightarrow>
        \<lparr>out_merged = concat (map (\<lambda>(gap, body). gap @ body) out) @ (if gaps base = [] then [] else last (gaps base)),
         new_conflicts = cs, carried = cv, driver = ''rust-structural''\<rparr>)"

section \<open>Containers\<close>

definition MAX_CONTAINER_DEPTH :: nat where
  "MAX_CONTAINER_DEPTH = 3"

definition recursable :: "definition_kind \<Rightarrow> bool" where
  "recursable k \<longleftrightarrow> k = Impl \<or> k = Module \<or> k = Trait"

record container_parts =
  header :: string
  cmembers :: segmentation
  footer :: string

fun member_loop ::
  "string \<Rightarrow> nat \<Rightarrow> nat \<Rightarrow> defn list \<Rightarrow> nat \<Rightarrow> nat \<Rightarrow> item list \<Rightarrow> string list \<Rightarrow> segmentation option" where
  "member_loop txt header_end footer_start [] covered_end cursor its gs =
     (case str_get cursor footer_start txt of
        None \<Rightarrow> None
      | Some gap \<Rightarrow> Some \<lparr>items = its, gaps = gs @ [gap]\<rparr>)"
| "member_loop txt header_end footer_start (d # ds) covered_end cursor its gs =
     (let start = fst (byte_range d); finish = snd (byte_range d) in
      if start < covered_end then member_loop txt header_end footer_start ds covered_end cursor its gs
      else if start < header_end \<or> footer_start < finish then None
      else (case str_get cursor start txt of
          None \<Rightarrow> None
        | Some gap \<Rightarrow>
          (case str_get start finish txt of
             None \<Rightarrow> None
           | Some t \<Rightarrow>
               member_loop txt header_end footer_start ds finish finish
                 (its @ [conflict_free d t (start, finish)]) (gs @ [gap]))))"

definition split_container :: "grammar \<Rightarrow> string \<Rightarrow> container_parts option" where
  "split_container g txt =
     (case definitions_of g txt of
        Inl _ \<Rightarrow> None
      | Inr [] \<Rightarrow> None
      | Inr (container # ds) \<Rightarrow>
          if byte_range container \<noteq> (0, length txt) then None
          else
            (case (position (\<lambda>c. c = CHR ''{'') txt, rfind CHR ''}'' txt) of
               (Some open_brace, Some footer_start) \<Rightarrow>
                 (let header_end = open_brace + 1 in
                  if footer_start < header_end then None
                  else
                    (case member_loop txt header_end footer_start ds header_end header_end [] [] of
                       None \<Rightarrow> None
                     | Some seg \<Rightarrow>
                       (case (str_get 0 header_end txt, str_get footer_start (length txt) txt) of
                          (Some hd_text, Some ft_text) \<Rightarrow>
                            Some \<lparr>header = hd_text, cmembers = seg, footer = ft_text\<rparr>
                        | _ \<Rightarrow> None)))
             | _ \<Rightarrow> None))"

text \<open>What a container merge becomes: fresh member conflicts absorb the carried ones.\<close>

definition container_result :: "string \<Rightarrow> string \<Rightarrow> driver_output \<Rightarrow> resolution" where
  "container_result hd_text ft_text out =
     (let rendered = hd_text @ out_merged out @ ft_text in
      if new_conflicts out = [] \<and> carried out = [] then Keep rendered
      else if new_conflicts out = [] then Carry rendered (carried out)
      else Conflicted rendered (new_conflicts out @ carried out))"

primrec try_container_merge :: "nat \<Rightarrow> grammar \<Rightarrow> item \<Rightarrow> item \<Rightarrow> item \<Rightarrow> resolution option" where
  "try_container_merge 0 g base l r = None"
| "try_container_merge (Suc depth) g base l r =
     (if \<not> (recursable (dkind (idef base)) \<and> dkind (idef l) = dkind (idef base) \<and>
             dkind (idef r) = dkind (idef base)) then None
      else
        (case (split_container g (itext base), split_container g (itext l), split_container g (itext r)) of
           (Some bp, Some lp, Some rp) \<Rightarrow>
             if \<not> (header bp = header lp \<and> header bp = header rp) then None
             else if \<not> (footer bp = footer lp \<and> footer bp = footer rp) then None
             else Some (container_result (header bp) (footer bp)
               (assemble (cmembers bp)
                 (merge_pieces (resolve_with (try_container_merge depth g))
                   (cmembers bp) (cmembers lp) (cmembers rp))))
         | _ \<Rightarrow> None))"

definition resolve_base_item ::
  "grammar \<Rightarrow> nat \<Rightarrow> item \<Rightarrow> item option \<Rightarrow> item option \<Rightarrow> resolution" where
  "resolve_base_item g depth = resolve_with (try_container_merge depth g)"

definition structural_merge ::
  "grammar \<Rightarrow> segmentation \<Rightarrow> segmentation \<Rightarrow> segmentation \<Rightarrow> nat \<Rightarrow> driver_output" where
  "structural_merge g base left right depth =
     assemble base (merge_pieces (resolve_base_item g depth) base left right)"

section \<open>The driver\<close>

definition cleanly_parsed :: "grammar \<Rightarrow> string \<Rightarrow> bool" where
  "cleanly_parsed g source \<longleftrightarrow>
     parses_cleanly (language_error g) (syntax_tree g) (tree_has_error g) source = Inr True"

definition rust_merge :: "grammar \<Rightarrow> merge_input \<Rightarrow> (driver_error + driver_output) option" where
  "rust_merge g inp =
     (case (prepared_of (base_text inp), prepared_of (left_text inp), prepared_of (right_text inp)) of
        (Some bp, Some lp, Some rp) \<Rightarrow>
          if \<not> list_all (\<lambda>p. cleanly_parsed g (sanitized p)) [bp, lp, rp] then Some (line_merge inp)
          else
            (case (segment g bp, segment g lp, segment g rp) of
               (Some b, Some l, Some r) \<Rightarrow>
                 (case (b, l, r) of
                    (Some base, Some left, Some right) \<Rightarrow>
                      Some (Inr (structural_merge g base left right MAX_CONTAINER_DEPTH))
                  | _ \<Rightarrow> Some (line_merge inp))
             | _ \<Rightarrow> None)
      | _ \<Rightarrow> Some (line_merge inp))"

section \<open>The pairing is a matching\<close>

text \<open>The pairs and the additions of a match report.\<close>

definition pairs_of :: "def_match list \<Rightarrow> (nat \<times> nat) list" where
  "pairs_of ms = List.map_filter (\<lambda>m. case (mold m, mnew m) of (Some i, Some j) \<Rightarrow> Some (i, j) | _ \<Rightarrow> None) ms"

definition adds_of :: "def_match list \<Rightarrow> nat list" where
  "adds_of ms = List.map_filter (\<lambda>m. case mold m of None \<Rightarrow> mnew m | _ \<Rightarrow> None) ms"

lemma pairs_adds_simps [simp]:
  "pairs_of [] = []" "adds_of [] = []"
  "pairs_of (m # ms) = (case (mold m, mnew m) of (Some i, Some j) \<Rightarrow> [(i, j)] | _ \<Rightarrow> []) @ pairs_of ms"
  "adds_of (m # ms) = (case (mold m, mnew m) of (None, Some j) \<Rightarrow> [j] | _ \<Rightarrow> []) @ adds_of ms"
  by (simp_all add: pairs_of_def adds_of_def map_filter_def split: option.split)

lemma pair_step_evidence:
  "evidence old new m \<Longrightarrow> pair_step m pr =
     \<lparr>base_to_side = fold (\<lambda>(i, j) t. t[i := Some j]) (pairs_of [m]) (base_to_side pr),
      added = added pr @ adds_of [m]\<rparr>"
  by (cases "status m") (auto simp: evidence_def pair_step_def split: option.splits prod.splits match_status.splits)

lemma fold_pair_step:
  "list_all (evidence old new) ms \<Longrightarrow> fold pair_step ms pr =
     \<lparr>base_to_side = fold (\<lambda>(i, j) t. t[i := Some j]) (pairs_of ms) (base_to_side pr),
      added = added pr @ adds_of ms\<rparr>"
proof (induction ms arbitrary: pr)
  case (Cons m ms)
  then show ?case by (simp add: pair_step_evidence [of old new])
qed simp

lemma report_sides:
  "mset (map fst (pairs_of ms)) \<subseteq># mset (olds ms)"
  "mset (map snd (pairs_of ms)) + mset (adds_of ms) = mset (news ms)"
  by (induction ms) (auto split: option.split simp: subseteq_mset_def intro: le_SucI)

lemma distinct_submset:
  assumes "mset xs \<subseteq># mset ys" "distinct ys"
  shows "distinct xs"
proof -
  obtain zs where "mset ys = mset (xs @ zs)"
    using assms(1) by (metis ex_mset mset_append mset_subset_eq_exists_conv)
  then have "distinct (xs @ zs)" using assms(2) mset_eq_imp_distinct_iff by blast
  then show ?thesis by simp
qed

lemma fold_update_nth:
  "distinct (map fst ps) \<Longrightarrow> list_all (\<lambda>(i, j). i < length t) ps \<Longrightarrow> i < length t \<Longrightarrow>
   fold (\<lambda>(i, j) t. t[i := Some j]) ps t ! i = (case map_of ps i of Some j \<Rightarrow> Some j | None \<Rightarrow> t ! i)"
proof (induction ps arbitrary: t)
  case (Cons p ps)
  obtain a b where p: "p = (a, b)" by (cases p)
  have "map_of ps a = None" using Cons.prems(1) p by (simp add: map_of_eq_None_iff)
  then show ?case using Cons.IH [of "t[a := Some b]"] Cons.prems p by (auto split: option.split)
qed simp

lemma fold_update_length [simp]: "length (fold (\<lambda>(i, j) t. t[i := Some j]) ps t) = length t"
  by (induction ps arbitrary: t) auto

text \<open>Each item of a side is paired with one base item or added, exactly once.\<close>

definition paired :: "segmentation \<Rightarrow> segmentation \<Rightarrow> nat \<Rightarrow> nat \<Rightarrow> bool" where
  "paired base side i j \<longleftrightarrow> i < length (items base) \<and> j < length (items side) \<and>
     base_to_side (pair_items base side) ! i = Some j"

lemma pair_items_eq:
  "pair_items base side =
     \<lparr>base_to_side = fold (\<lambda>(i, j) t. t[i := Some j]) (pairs_of (match_definitions (defs_of base) (defs_of side)))
        (replicate (length (items base)) None),
      added = adds_of (match_definitions (defs_of base) (defs_of side))\<rparr>"
  unfolding pair_items_def using report_ok(3) [of "defs_of base" "defs_of side"]
  by (simp add: fold_pair_step)

lemma pair_items_sets:
  defines "ps \<equiv> \<lambda>base side. pairs_of (match_definitions (defs_of base) (defs_of side))"
  shows "distinct (map fst (ps base side))" "list_all (\<lambda>(i, j). i < length (items base)) (ps base side)"
    "mset (map snd (ps base side)) + mset (added (pair_items base side)) = mset [0..<length (items side)]"
proof -
  let ?ms = "match_definitions (defs_of base) (defs_of side)"
  have sub: "mset (map fst (ps base side)) \<subseteq># mset [0..<length (items base)]"
    using report_sides(1) [of ?ms] report_ok(1) [of "defs_of base" "defs_of side"] by (simp add: ps_def defs_of_def)
  then show "distinct (map fst (ps base side))"
    by (rule distinct_submset) simp
  show "list_all (\<lambda>(i, j). i < length (items base)) (ps base side)"
    using set_mset_mono [OF sub] by (auto simp: list_all_iff)
  show "mset (map snd (ps base side)) + mset (added (pair_items base side)) = mset [0..<length (items side)]"
    using report_sides(2) [of ?ms] report_ok(2) [of "defs_of base" "defs_of side"]
    by (simp add: ps_def defs_of_def pair_items_eq)
qed

definition pairs_between :: "segmentation \<Rightarrow> segmentation \<Rightarrow> (nat \<times> nat) list" where
  "pairs_between base side = pairs_of (match_definitions (defs_of base) (defs_of side))"

lemmas pairs_between_props = pair_items_sets [folded pairs_between_def]

lemma base_to_side_nth:
  "i < length (items base) \<Longrightarrow> base_to_side (pair_items base side) ! i = map_of (pairs_between base side) i"
  using fold_update_nth [OF pairs_between_props(1) [of base side], of "replicate (length (items base)) None" i]
    pairs_between_props(2) [of base side]
  by (simp add: pair_items_eq flip: pairs_between_def split: option.split)

lemma length_base_to_side [simp]: "length (base_to_side (pair_items base side)) = length (items base)"
  by (simp add: pair_items_eq)

lemma pairs_between_less:
  assumes "(i, j) \<in> set (pairs_between base side)"
  shows "i < length (items base) \<and> j < length (items side)"
proof -
  have "j \<in># mset (map snd (pairs_between base side)) + mset (added (pair_items base side))"
    using assms by force
  then have "j < length (items side)" unfolding pairs_between_props(3) by simp
  then show ?thesis using assms pairs_between_props(2) [of base side] by (auto simp: list_all_iff)
qed

lemma paired_iff: "paired base side i j \<longleftrightarrow> (i, j) \<in> set (pairs_between base side)"
  using pairs_between_less [of i j base side] pairs_between_props(1) [of base side]
  by (auto simp: paired_def base_to_side_nth)

lemma added_less: "j \<in> set (added (pair_items base side)) \<Longrightarrow> j < length (items side)"
proof -
  assume "j \<in> set (added (pair_items base side))"
  then have "j \<in># mset (map snd (pairs_between base side)) + mset (added (pair_items base side))" by simp
  then show ?thesis unfolding pairs_between_props(3) by simp
qed

lemma side_cases:
  assumes "j < length (items side)"
  shows "j \<in> set (added (pair_items base side)) \<or> (\<exists>i. paired base side i j)"
proof -
  have "j \<in># mset (map snd (pairs_between base side)) + mset (added (pair_items base side))"
    unfolding pairs_between_props(3) using assms by simp
  then show ?thesis by (auto simp: paired_iff)
qed

lemma counterpart_of_eq:
  "i < length (items base) \<Longrightarrow> counterpart_of (pair_items base side) side i =
     map_option ((!) (items side)) (map_of (pairs_between base side) i)"
  by (auto simp: counterpart_of_def nth_opt_def base_to_side_nth item_at_def dest!: map_of_SomeD pairs_between_less
      split: option.split)

lemma counterpart_paired:
  "paired base side i j \<Longrightarrow> counterpart_of (pair_items base side) side i = Some (items side ! j)"
  using pairs_between_less [of i j base side] pairs_between_props(1) [of base side]
  by (simp add: paired_iff counterpart_of_eq)

text \<open>A side identical to the base is paired index by index.\<close>

lemma tier1_self:
  "k \<le> length ds \<Longrightarrow>
   fold (tier1_step ds ds) [0..<k] (replicate (length ds) False, replicate (length ds) False, []) =
     (replicate k True @ replicate (length ds - k) False, replicate k True @ replicate (length ds - k) False,
      map (\<lambda>i. \<lparr>mold = Some i, mnew = Some i, status = Unchanged, reason = tier1_same\<rparr>) [0..<k])"
proof (induction k)
  case (Suc k)
  let ?mo = "replicate k True @ replicate (length ds - k) False"
  have "find_old ?mo (tier1_cond (ds ! k)) ds = Some k"
    using Suc.prems by (auto simp: find_old_def position_Some_iff nth_enumerate_eq tier1_cond_def nth_append)
  moreover have "?mo[k := True] = replicate (Suc k) True @ replicate (length ds - Suc k) False"
  proof -
    obtain m where m: "length ds - k = Suc m" "length ds - Suc k = m" using Suc.prems by (cases "length ds - k") auto
    have "replicate k True @ True # ys = replicate (Suc k) True @ ys" for ys by (induction k) auto
    then show ?thesis by (simp add: m list_update_append)
  qed
  ultimately show ?case using Suc by (simp add: tier1_step_def claim_def)
qed simp

lemma fold_noop: "\<forall>x\<in>set xs. f x s = s \<Longrightarrow> fold f xs s = s"
  by (induction xs) auto

lemma match_self:
  "match_definitions ds ds =
     map (\<lambda>i. \<lparr>mold = Some i, mnew = Some i, status = Unchanged, reason = tier1_same\<rparr>) [0..<length ds]"
proof -
  let ?n = "length ds"
  define st where "st = (replicate ?n True, replicate ?n True,
    map (\<lambda>i. \<lparr>mold = Some i, mnew = Some i, status = Unchanged, reason = tier1_same\<rparr>) [0..<?n])"
  have "fold (tier1_step ds ds) [0..<?n] (replicate ?n False, replicate ?n False, []) = st"
    using tier1_self [of ?n ds] by (simp add: st_def)
  moreover have "fold (tier2_step ds ds) [0..<?n] st = st" "fold (tier3_step ds ds) [0..<?n] st = st"
    by (rule fold_noop; simp add: st_def tier2_step_def tier3_step_def)+
  ultimately show ?thesis by (simp add: match_definitions_def Let_def) (simp add: st_def)
qed

lemma pairs_between_self:
  assumes "defs_of side = defs_of base"
  shows "pairs_between base side = map (\<lambda>i. (i, i)) [0..<length (items base)]" "added (pair_items base side) = []"
proof -
  have "pairs_of (map (\<lambda>i. \<lparr>mold = Some i, mnew = Some i, status = s, reason = r\<rparr>) is) = map (\<lambda>i. (i, i)) is"
    "adds_of (map (\<lambda>i. \<lparr>mold = Some i, mnew = Some i, status = s, reason = r\<rparr>) is) = []" for s r "is"
    by (induction "is") auto
  then show "pairs_between base side = map (\<lambda>i. (i, i)) [0..<length (items base)]" "added (pair_items base side) = []"
    using assms by (simp_all add: pairs_between_def pair_items_eq match_self) (simp_all add: defs_of_def)
qed

lemma counterpart_self:
  "defs_of side = defs_of base \<Longrightarrow> i < length (items base) \<Longrightarrow>
   counterpart_of (pair_items base side) side i = Some (items side ! i)"
  by (rule counterpart_paired) (simp add: paired_iff pairs_between_self)

section \<open>The pieces of a merge\<close>

definition res_pieces :: "string \<Rightarrow> resolution \<Rightarrow> (string \<times> string) list" where
  "res_pieces gap res = (case res of Keep b \<Rightarrow> [(gap, b)] | Drop \<Rightarrow> [] | Conflicted b _ \<Rightarrow> [(gap, b)] | Carry b _ \<Rightarrow> [(gap, b)])"

definition res_conflicts :: "resolution \<Rightarrow> conflict list" where
  "res_conflicts res = (case res of Conflicted _ cs \<Rightarrow> cs | _ \<Rightarrow> [])"

definition res_carried :: "resolution \<Rightarrow> conflict list" where
  "res_carried res = (case res of Carry _ cv \<Rightarrow> cv | _ \<Rightarrow> [])"

lemmas res_defs = res_pieces_def res_conflicts_def res_carried_def

lemma emit_resolution_eq:
  "emit_resolution gap res (out, cs, cv) = (out @ res_pieces gap res, cs @ res_conflicts res, cv @ res_carried res)"
  by (simp add: emit_resolution_def res_defs split: resolution.split)

lemma fold_emit:
  "fold (\<lambda>x. emit_resolution (gap x) (res x)) xs (out, cs, cv) =
     (out @ concat (map (\<lambda>x. res_pieces (gap x) (res x)) xs), cs @ concat (map (\<lambda>x. res_conflicts (res x)) xs),
      cv @ concat (map (\<lambda>x. res_carried (res x)) xs))"
  by (induction xs arbitrary: out cs cv) (simp_all add: emit_resolution_eq)

definition resolved ::
  "resolver \<Rightarrow> segmentation \<Rightarrow> segmentation \<Rightarrow> segmentation \<Rightarrow> nat \<Rightarrow> resolution" where
  "resolved res base left right i =
     res (items base ! i) (counterpart_of (pair_items base left) left i) (counterpart_of (pair_items base right) right i)"

lemma base_pieces_eq:
  "base_pieces res base left right (pair_items base left) (pair_items base right) =
     (let is = [0..<length (items base)]; R = resolved res base left right in
      (concat (map (\<lambda>i. res_pieces (gap_at base i) (R i)) is), concat (map (res_conflicts \<circ> R) is),
       concat (map (res_carried \<circ> R) is)))"
proof -
  have "enumerate 0 (items base) = map (\<lambda>i. (i, items base ! i)) [0..<length (items base)]"
    by (rule nth_equalityI) (simp_all add: nth_enumerate_eq)
  then have "base_pieces res base left right (pair_items base left) (pair_items base right) =
     fold (\<lambda>i. emit_resolution (gap_at base i) (resolved res base left right i)) [0..<length (items base)] ([], [], [])"
    by (simp add: base_pieces_def fold_map comp_def resolved_def)
  then show ?thesis by (simp add: fold_emit comp_def Let_def)
qed

section \<open>Merges that one side leaves alone\<close>

lemma keep_or_carry_parts:
  "res_pieces gap (keep_or_carry it) = [(gap, original_text it)]" "res_conflicts (keep_or_carry it) = []"
  "res_carried (keep_or_carry it) = icarried it" "res_pieces gap Drop = []" "res_conflicts Drop = []"
  "res_carried Drop = []"
  by (auto simp: keep_or_carry_def res_defs)

lemma resolve_unchanged:
  "resolve_with c b (Some l) (Some b) = keep_or_carry (if original_text l = original_text b then b else l)"
  "resolve_with c b (Some b) (Some r) = keep_or_carry (if original_text r = original_text b then b else r)"
  "resolve_with c b None (Some b) = Drop" "resolve_with c b (Some b) None = Drop"
  by (simp_all add: resolve_with_def)

lemma resolve_lone:
  assumes "u = map_option f v"
  shows "map snd (res_pieces gap (resolve_with c b u (Some b))) = (case v of None \<Rightarrow> [] | Some j \<Rightarrow> [original_text (f j)])"
    and "map snd (res_pieces gap (resolve_with c b (Some b) u)) = (case v of None \<Rightarrow> [] | Some j \<Rightarrow> [original_text (f j)])"
    and "res_conflicts (resolve_with c b u (Some b)) = []" "res_conflicts (resolve_with c b (Some b) u) = []"
  using assms by (cases v; simp add: resolve_unchanged keep_or_carry_parts)+

lemma mset_concat_upt: "mset (concat (map f [0..<n])) = (\<Sum>i<n. mset (f i))"
  by (induction n) simp_all

lemma sum_pairs:
  "distinct (map fst ps) \<Longrightarrow> fst ` set ps \<subseteq> S \<Longrightarrow> finite S \<Longrightarrow>
   (\<Sum>i\<in>S. mset (case map_of ps i of None \<Rightarrow> [] | Some j \<Rightarrow> [h j])) = mset (map (\<lambda>p. h (snd p)) ps)"
proof (induction ps)
  case (Cons p ps)
  obtain a b where p: "p = (a, b)" by (cases p)
  have a: "a \<in> S" "map_of ps a = None" using Cons.prems p by (auto simp: map_of_eq_None_iff)
  have "(\<Sum>i\<in>S - {a}. mset (case map_of (p # ps) i of None \<Rightarrow> [] | Some j \<Rightarrow> [h j]))
      = (\<Sum>i\<in>S - {a}. mset (case map_of ps i of None \<Rightarrow> [] | Some j \<Rightarrow> [h j]))"
    by (rule sum.cong) (auto simp: p)
  also have "\<dots> = mset (map (\<lambda>p. h (snd p)) ps)"
    using Cons.IH Cons.prems a sum.remove [of S a "\<lambda>i. mset (case map_of ps i of None \<Rightarrow> [] | Some j \<Rightarrow> [h j])"] by simp
  finally show ?case
    using sum.remove [of S a "\<lambda>i. mset (case map_of (p # ps) i of None \<Rightarrow> [] | Some j \<Rightarrow> [h j])"] a Cons.prems(3)
    by (simp add: p)
qed simp

lemma lone_bodies:
  assumes "\<And>i. i < length (items base) \<Longrightarrow>
    map snd (f i) = (case map_of (pairs_between base side) i of None \<Rightarrow> [] | Some j \<Rightarrow> [original_text (items side ! j)])"
  shows "mset (map snd (concat (map f [0..<length (items base)]))) +
      mset (map (\<lambda>j. original_text (items side ! j)) (added (pair_items base side))) =
    mset (map original_text (items side))"
proof -
  let ?h = "\<lambda>j. original_text (items side ! j)" and ?ps = "pairs_between base side"
  have "mset (map snd (concat (map f [0..<length (items base)]))) = (\<Sum>i<length (items base). mset (map snd (f i)))"
    by (simp add: map_concat comp_def mset_concat_upt del: mset_map)
  also have "\<dots> = (\<Sum>i<length (items base). mset (case map_of ?ps i of None \<Rightarrow> [] | Some j \<Rightarrow> [?h j]))"
    using assms by (intro sum.cong) simp_all
  also have "\<dots> = mset (map (\<lambda>p. ?h (snd p)) ?ps)"
    using pairs_between_props(1,2) [of base side] by (intro sum_pairs) (auto simp: list_all_iff)
  finally have "mset (map snd (concat (map f [0..<length (items base)]))) + mset (map ?h (added (pair_items base side)))
      = image_mset ?h (mset (map snd ?ps) + mset (added (pair_items base side)))"
    by (simp add: multiset.map_comp comp_def)
  also have "\<dots> = mset (map ?h [0..<length (items side)])" unfolding pairs_between_props(3) by simp
  also have "map ?h [0..<length (items side)] = map original_text (items side)"
    by (rule nth_equalityI) simp_all
  finally show ?thesis .
qed

lemma find_counterpart_none [simp]: "find_counterpart right [] consumed it = None"
  by (simp add: find_counterpart_def)

lemma left_added_lone:
  "\<forall>j\<in>set ljs. j < length (items left) \<Longrightarrow> left_added_loop left right [] ljs consumed (out, cs, cv) =
     (consumed, out @ map (\<lambda>j. (gap_at left j, original_text (items left ! j))) ljs, cs,
      cv @ concat (map (\<lambda>j. icarried (items left ! j)) ljs))"
  by (induction ljs arbitrary: out cv) (simp_all add: item_at_def nth_opt_def push_added_def)

lemma right_added_lone:
  "\<forall>j\<in>set rjs. j < length (items right) \<and> nth_opt consumed j = Some False \<Longrightarrow>
   right_added_loop right rjs consumed (out, cs, cv) =
     (out @ map (\<lambda>j. (gap_at right j, original_text (items right ! j))) rjs, cs,
      cv @ concat (map (\<lambda>j. icarried (items right ! j)) rjs))"
  by (induction rjs arbitrary: out cv) (simp_all add: item_at_def nth_opt_def push_added_def)

lemma merge_pieces_right_base:
  "merge_pieces res base left base =
     (case base_pieces res base left base (pair_items base left) (pair_items base base) of (out, cs, cv) \<Rightarrow>
       (out @ map (\<lambda>j. (gap_at left j, original_text (items left ! j))) (added (pair_items base left)), cs,
        cv @ concat (map (\<lambda>j. icarried (items left ! j)) (added (pair_items base left)))))"
  using added_less [of _ base left]
  by (simp add: merge_pieces_def Let_def pairs_between_self left_added_lone split: prod.split)

lemma merge_pieces_left_base:
  "merge_pieces res base base right =
     (case base_pieces res base base right (pair_items base base) (pair_items base right) of (out, cs, cv) \<Rightarrow>
       (out @ map (\<lambda>j. (gap_at right j, original_text (items right ! j))) (added (pair_items base right)), cs,
        cv @ concat (map (\<lambda>j. icarried (items right ! j)) (added (pair_items base right)))))"
  using added_less [of _ base right]
  by (simp add: merge_pieces_def Let_def pairs_between_self right_added_lone nth_opt_def split: prod.split)

lemma resolved_lone:
  assumes "i < length (items base)"
  shows "resolved (resolve_with c) base left base i =
      resolve_with c (items base ! i) (map_option ((!) (items left)) (map_of (pairs_between base left) i)) (Some (items base ! i))"
    and "resolved (resolve_with c) base base right i =
      resolve_with c (items base ! i) (Some (items base ! i)) (map_option ((!) (items right)) (map_of (pairs_between base right) i))"
  using assms counterpart_of_eq [OF assms, of left] counterpart_of_eq [OF assms, of right]
  by (simp_all add: resolved_def counterpart_self)

lemma one_sided_right_base:
  assumes "merge_pieces (resolve_with c) base left base = (out, cs, cv)"
  shows "cs = [] \<and> mset (map snd out) = mset (map original_text (items left))"
proof -
  let ?R = "resolved (resolve_with c) base left base"
  have R: "map snd (res_pieces (gap_at base i) (?R i)) =
      (case map_of (pairs_between base left) i of None \<Rightarrow> [] | Some j \<Rightarrow> [original_text (items left ! j)])"
    "res_conflicts (?R i) = []" if "i < length (items base)" for i
    using resolve_lone(1,3) [OF refl, where c = c and f = "(!) (items left)"] resolved_lone(1) [OF that] by simp_all
  have "concat (map (res_conflicts \<circ> ?R) [0..<length (items base)]) = []" using R(2) by simp
  then show ?thesis
    using assms lone_bodies [of base "\<lambda>i. res_pieces (gap_at base i) (?R i)" left, OF R(1)]
    by (auto simp: merge_pieces_right_base base_pieces_eq Let_def comp_def simp del: mset_map)
qed

lemma one_sided_left_base:
  assumes "merge_pieces (resolve_with c) base base right = (out, cs, cv)"
  shows "cs = [] \<and> mset (map snd out) = mset (map original_text (items right))"
proof -
  let ?R = "resolved (resolve_with c) base base right"
  have R: "map snd (res_pieces (gap_at base i) (?R i)) =
      (case map_of (pairs_between base right) i of None \<Rightarrow> [] | Some j \<Rightarrow> [original_text (items right ! j)])"
    "res_conflicts (?R i) = []" if "i < length (items base)" for i
    using resolve_lone(2,4) [OF refl, where c = c and f = "(!) (items right)"] resolved_lone(2) [OF that] by simp_all
  have "concat (map (res_conflicts \<circ> ?R) [0..<length (items base)]) = []" using R(2) by simp
  then show ?thesis
    using assms lone_bodies [of base "\<lambda>i. res_pieces (gap_at base i) (?R i)" right, OF R(1)]
    by (auto simp: merge_pieces_left_base base_pieces_eq Let_def comp_def simp del: mset_map)
qed

lemma weave_items:
  "seg_laid_out seg \<Longrightarrow>
   concat (map (\<lambda>(gap, body). gap @ body) (map (\<lambda>i. (gap_at seg i, f (items seg ! i))) [0..<length (items seg)])) @
     (if gaps seg = [] then [] else last (gaps seg)) = weave (gaps seg) (map f (items seg))"
proof -
  assume len: "seg_laid_out seg"
  have "map2 (@) (gaps seg) (map f (items seg)) = map (\<lambda>i. gap_at seg i @ f (items seg ! i)) [0..<length (items seg)]"
    by (rule nth_equalityI) (use len in \<open>simp_all add: seg_laid_out_def gap_at_def nth_opt_def\<close>)
  then show ?thesis by (simp add: weave_def comp_def)
qed

lemma structural_merge_same:
  assumes "seg_laid_out seg"
  shows "structural_merge g seg seg seg depth =
    \<lparr>out_merged = weave (gaps seg) (map original_text (items seg)), new_conflicts = [],
     carried = concat (map icarried (items seg)), driver = ''rust-structural''\<rparr>"
proof -
  let ?R = "resolved (resolve_with (try_container_merge depth g)) seg seg seg" and ?n = "length (items seg)"
  have R: "?R i = keep_or_carry (items seg ! i)" if "i < ?n" for i
    using that by (simp add: resolved_def counterpart_self resolve_unchanged)
  have "concat (map (\<lambda>i. res_pieces (gap_at seg i) (?R i)) [0..<?n]) =
      concat (map (\<lambda>i. [(gap_at seg i, original_text (items seg ! i))]) [0..<?n])"
    by (rule arg_cong [where f = concat], rule map_cong) (simp_all add: R keep_or_carry_parts)
  then have "concat (map (\<lambda>i. res_pieces (gap_at seg i) (?R i)) [0..<?n]) =
      map (\<lambda>i. (gap_at seg i, original_text (items seg ! i))) [0..<?n]" by (simp only: concat_map_singleton)
  moreover have "concat (map (res_conflicts \<circ> ?R) [0..<?n]) = []" by (simp add: R keep_or_carry_parts)
  moreover have "map (res_carried \<circ> ?R) [0..<?n] = map icarried (items seg)"
    by (rule nth_equalityI) (simp_all add: R keep_or_carry_parts)
  ultimately have "merge_pieces (resolve_base_item g depth) seg seg seg =
      (map (\<lambda>i. (gap_at seg i, original_text (items seg ! i))) [0..<?n], [], concat (map icarried (items seg)))"
    by (simp add: merge_pieces_right_base base_pieces_eq Let_def pairs_between_self resolve_base_item_def)
  then show ?thesis using weave_items [OF assms, of original_text] by (simp add: structural_merge_def assemble_def)
qed

section \<open>What a merge owes to the items of its sides\<close>

text \<open>
  The specification speaks of the answer only: the merged text, the new conflicts and the carried
  ones. An item is kept when its full text is a contiguous part of the merged text and the conflict
  values in it are reported; two items clash when the marker block with both full texts is a part of
  the merged text and the conflict with these sides is a new one.
\<close>

definition item_kept :: "driver_output \<Rightarrow> item \<Rightarrow> bool" where
  "item_kept out it \<longleftrightarrow> sublist (original_text it) (out_merged out) \<and>
     set (icarried it) \<subseteq> set (carried out) \<union> set (new_conflicts out)"

definition clash :: "driver_output \<Rightarrow> line list \<Rightarrow> string \<Rightarrow> line list \<Rightarrow> string \<Rightarrow> line list \<Rightarrow> bool" where
  "clash out b l ll r rl \<longleftrightarrow> sublist (render_conflict l r) (out_merged out) \<and>
     \<lparr>cbase = b, cleft = ll, cright = rl\<rparr> \<in> set (new_conflicts out)"

abbreviation clash_items :: "driver_output \<Rightarrow> line list \<Rightarrow> item \<Rightarrow> item \<Rightarrow> bool" where
  "clash_items out b l r \<equiv> clash out b (original_text l) (text_lines (original_text l))
     (original_text r) (text_lines (original_text r))"

text \<open>Both sides edited an item: its lines are merged, and the conflicts of that merge are new ones.\<close>

definition lines_merged :: "driver_output \<Rightarrow> item \<Rightarrow> item \<Rightarrow> item \<Rightarrow> bool" where
  "lines_merged out b l r \<longleftrightarrow>
     (let m = merge3 (from_str (itext b)) (from_str (itext l)) (from_str (itext r)) in
      sublist (doc_to_string (merged m)) (out_merged out) \<and> set (conflicts m) \<subseteq> set (new_conflicts out))"

text \<open>What an item of the base comes to, given its partners on the two sides and what \<open>both\<close> says
of an item that both sides edited.\<close>

fun item_outcome ::
  "(driver_output \<Rightarrow> item \<Rightarrow> item \<Rightarrow> item \<Rightarrow> bool) \<Rightarrow> driver_output \<Rightarrow> item \<Rightarrow> item option \<Rightarrow> item option \<Rightarrow> bool" where
  "item_outcome both out b None None \<longleftrightarrow> True"
| "item_outcome both out b (Some l) None \<longleftrightarrow> original_text l = original_text b \<or>
     clash out (text_lines (original_text b)) (original_text l) (text_lines (original_text l)) [] []"
| "item_outcome both out b None (Some r) \<longleftrightarrow> original_text r = original_text b \<or>
     clash out (text_lines (original_text b)) [] [] (original_text r) (text_lines (original_text r))"
| "item_outcome both out b (Some l) (Some r) \<longleftrightarrow>
     (if original_text l = original_text b then item_kept out (if original_text r = original_text b then b else r)
      else if original_text r = original_text b then item_kept out l
      else if icarried l \<noteq> [] \<or> icarried r \<noteq> [] then clash_items out (text_lines (original_text b)) l r
      else both out b l r)"

definition partner :: "segmentation \<Rightarrow> segmentation \<Rightarrow> nat \<Rightarrow> item option \<Rightarrow> bool" where
  "partner base side i it \<longleftrightarrow>
     (case it of None \<Rightarrow> \<forall>j. \<not> paired base side i j | Some x \<Rightarrow> \<exists>j. paired base side i j \<and> x = items side ! j)"

text \<open>The items of two sides: each is paired with an item of the base, which has an outcome, or it is
an addition, which is kept unless both sides added different texts under one name: these clash.\<close>

definition accounted ::
  "(driver_output \<Rightarrow> item \<Rightarrow> item \<Rightarrow> item \<Rightarrow> bool) \<Rightarrow> driver_output \<Rightarrow>
   segmentation \<Rightarrow> segmentation \<Rightarrow> segmentation \<Rightarrow> bool" where
  "accounted both out base left right \<longleftrightarrow>
     (\<forall>i<length (items base). \<forall>l r. partner base left i l \<and> partner base right i r \<longrightarrow>
        item_outcome both out (items base ! i) l r) \<and>
     (\<forall>j<length (items left). (\<exists>i. paired base left i j) \<or> item_kept out (items left ! j) \<or>
        (\<exists>k<length (items right). same_key (items left ! j) (items right ! k) \<and>
          clash_items out [] (items left ! j) (items right ! k))) \<and>
     (\<forall>k<length (items right). (\<exists>i. paired base right i k) \<or> item_kept out (items right ! k) \<or>
        (\<exists>j<length (items left). same_key (items left ! j) (items right ! k) \<and>
          (item_kept out (items left ! j) \<and> original_text (items left ! j) = original_text (items right ! k) \<or>
           clash_items out [] (items left ! j) (items right ! k))))"

text \<open>The three versions of a container that are merged member by member: of one kind, with equal
headers and equal footers.\<close>

definition split_three ::
  "grammar \<Rightarrow> item \<Rightarrow> item \<Rightarrow> item \<Rightarrow> (container_parts \<times> container_parts \<times> container_parts) option" where
  "split_three g b l r =
     (if recursable (dkind (idef b)) \<and> dkind (idef l) = dkind (idef b) \<and> dkind (idef r) = dkind (idef b) then
        (case (split_container g (itext b), split_container g (itext l), split_container g (itext r)) of
           (Some bp, Some lp, Some rp) \<Rightarrow>
             if header bp = header lp \<and> header bp = header rp \<and> footer bp = footer lp \<and> footer bp = footer rp
             then Some (bp, lp, rp) else None
         | _ \<Rightarrow> None)
      else None)"

text \<open>A part of an answer, between two texts.\<close>

definition part_of :: "string \<Rightarrow> driver_output \<Rightarrow> string \<Rightarrow> driver_output \<Rightarrow> bool" where
  "part_of before inner behind out \<longleftrightarrow>
     sublist (before @ out_merged inner @ behind) (out_merged out) \<and>
     set (new_conflicts inner) \<subseteq> set (new_conflicts out) \<and>
     set (carried inner) \<subseteq> set (carried out) \<union> set (new_conflicts out)"

text \<open>An item edited on both sides: a container is merged between its header and footer, and there
its members are accounted for in the same way, down to a depth of \<open>n\<close>; any other item, by lines.\<close>

primrec both_edited :: "nat \<Rightarrow> grammar \<Rightarrow> driver_output \<Rightarrow> item \<Rightarrow> item \<Rightarrow> item \<Rightarrow> bool" where
  "both_edited 0 g out b l r \<longleftrightarrow> lines_merged out b l r"
| "both_edited (Suc n) g out b l r \<longleftrightarrow>
     (case split_three g b l r of
        None \<Rightarrow> lines_merged out b l r
      | Some (bp, lp, rp) \<Rightarrow>
          (\<exists>inner. part_of (header bp) inner (footer bp) out \<and>
             accounted (both_edited n g) inner (cmembers bp) (cmembers lp) (cmembers rp)))"

section \<open>The pieces pay it\<close>

definition kept_in :: "pieces \<Rightarrow> item \<Rightarrow> bool" where
  "kept_in st it \<longleftrightarrow> original_text it \<in> snd ` set (fst st) \<and> set (icarried it) \<subseteq> set (snd (snd st))"

definition clash_in :: "pieces \<Rightarrow> item \<Rightarrow> item \<Rightarrow> bool" where
  "clash_in st l r \<longleftrightarrow> render_conflict (original_text l) (original_text r) \<in> snd ` set (fst st) \<and>
     \<lparr>cbase = [], cleft = text_lines (original_text l), cright = text_lines (original_text r)\<rparr> \<in> set (fst (snd st))"

definition extends :: "pieces \<Rightarrow> pieces \<Rightarrow> bool" where
  "extends st st' \<longleftrightarrow> set (fst st) \<subseteq> set (fst st') \<and> set (fst (snd st)) \<subseteq> set (fst (snd st')) \<and>
     set (snd (snd st)) \<subseteq> set (snd (snd st'))"

lemma extends_refl [simp]: "extends st st"
  by (simp add: extends_def)

lemma extends_trans: "extends st st' \<Longrightarrow> extends st' st'' \<Longrightarrow> extends st st''"
  by (auto simp: extends_def)

lemma in_extends:
  "kept_in st it \<Longrightarrow> extends st st' \<Longrightarrow> kept_in st' it"
  "clash_in st l r \<Longrightarrow> extends st st' \<Longrightarrow> clash_in st' l r"
  by (auto simp: kept_in_def clash_in_def extends_def)

lemma extends_steps:
  "extends st (push_added gap it st)" "extends st (emit_resolution gap res st)"
  by (cases st; auto simp: extends_def push_added_def emit_resolution_eq)+

lemma kept_push: "kept_in (push_added gap it st) it"
  by (cases st; simp add: kept_in_def push_added_def)

lemma clash_emit:
  "clash_in (emit_resolution gap (Conflicted (render_conflict (original_text l) (original_text r))
     [\<lparr>cbase = [], cleft = text_lines (original_text l), cright = text_lines (original_text r)\<rparr>]) st) l r"
  by (cases st) (simp add: clash_in_def emit_resolution_eq res_defs)

lemma find_counterpart_SomeD:
  assumes "find_counterpart right radded consumed it = Some j"
  shows "j < length (items right)" "same_key it (items right ! j)"
  using assms by (auto simp: find_counterpart_def find_Some_iff item_at_def nth_opt_def split: option.splits if_splits)

text \<open>An addition of the right side that the loop over the left ones has consumed.\<close>

definition consumed_ok :: "pieces \<Rightarrow> segmentation \<Rightarrow> item \<Rightarrow> bool" where
  "consumed_ok st left r \<longleftrightarrow> (\<exists>j<length (items left). same_key (items left ! j) r \<and>
     (kept_in st (items left ! j) \<and> original_text (items left ! j) = original_text r \<or> clash_in st (items left ! j) r))"

lemma consumed_ok_extends: "consumed_ok st left r \<Longrightarrow> extends st st' \<Longrightarrow> consumed_ok st' left r"
  unfolding consumed_ok_def using in_extends by blast

definition added_ok :: "pieces \<Rightarrow> segmentation \<Rightarrow> item \<Rightarrow> bool" where
  "added_ok st right l \<longleftrightarrow> kept_in st l \<or>
     (\<exists>k<length (items right). same_key l (items right ! k) \<and> clash_in st l (items right ! k))"

lemma added_ok_extends: "added_ok st right l \<Longrightarrow> extends st st' \<Longrightarrow> added_ok st' right l"
  unfolding added_ok_def using in_extends by blast

lemma left_added_accounted:
  "left_added_loop left right radded ljs consumed st = (consumed', st') \<Longrightarrow> \<forall>j\<in>set ljs. j < length (items left) \<Longrightarrow>
   extends st st' \<and> (\<forall>j\<in>set ljs. added_ok st' right (items left ! j)) \<and> length consumed' = length consumed \<and>
   (\<forall>k<length consumed. consumed' ! k \<longrightarrow> consumed ! k \<or> k < length (items right) \<and> consumed_ok st' left (items right ! k))"
proof (induction ljs arbitrary: consumed st)
  case (Cons lj ljs)
  define it where "it = items left ! lj"
  have lj: "lj < length (items left)" "item_at left lj = Some it"
    using Cons.prems(2) by (simp_all add: item_at_def nth_opt_def it_def)
  have step: ?case
    if run: "left_added_loop left right radded ljs consumed1 st1 = (consumed', st')"
      and ext: "extends st st1" and kept: "added_ok st1 right it" and len: "length consumed1 = length consumed"
      and con: "\<forall>k<length consumed. consumed1 ! k \<longrightarrow> consumed ! k \<or> k < length (items right) \<and> consumed_ok st1 left (items right ! k)"
    for consumed1 st1
  proof -
    have IH: "extends st1 st'" "\<forall>j\<in>set ljs. added_ok st' right (items left ! j)" "length consumed' = length consumed1"
      "\<forall>k<length consumed1. consumed' ! k \<longrightarrow> consumed1 ! k \<or> k < length (items right) \<and> consumed_ok st' left (items right ! k)"
      using Cons.IH [OF run] Cons.prems(2) by auto
    show ?thesis
      using IH ext kept con len added_ok_extends [OF _ IH(1)] consumed_ok_extends [OF _ IH(1)] extends_trans [OF ext IH(1)]
      by (auto simp: it_def)
  qed
  show ?case
  proof (cases "find_counterpart right radded consumed it")
    case None
    show ?thesis
      by (rule step [of consumed "push_added (gap_at left lj) it st"])
        (use Cons.prems(1) lj None in \<open>simp_all add: extends_steps kept_push added_ok_def\<close>)
  next
    case (Some rj)
    note rj = find_counterpart_SomeD [OF Some]
    have at: "item_at right rj = Some (items right ! rj)" using rj(1) by (simp add: item_at_def nth_opt_def)
    have upd: "k = rj \<or> consumed ! k" if "consumed[rj := True] ! k" for k using that by (cases "k = rj") auto
    show ?thesis
    proof (cases "original_text (items right ! rj) = original_text it")
      case True
      let ?st1 = "push_added (gap_at left lj) it st"
      have "consumed_ok ?st1 left (items right ! rj)"
        unfolding consumed_ok_def using lj(1) rj(2) True kept_push [of "gap_at left lj" it st] by (auto simp: it_def)
      then show ?thesis
        by (intro step [of "consumed[rj := True]" ?st1])
          (use Cons.prems(1) lj Some rj at True in \<open>auto simp: extends_steps kept_push added_ok_def dest: upd\<close>)
    next
      case False
      let ?c = "\<lparr>cbase = [], cleft = text_lines (original_text it), cright = text_lines (original_text (items right ! rj))\<rparr>"
      let ?res = "Conflicted (render_conflict (original_text it) (original_text (items right ! rj))) [?c]"
      let ?st1 = "emit_resolution (gap_at left lj) ?res st"
      have c: "clash_in ?st1 it (items right ! rj)" by (rule clash_emit)
      then have "consumed_ok ?st1 left (items right ! rj)" "added_ok ?st1 right it"
        unfolding consumed_ok_def added_ok_def using lj(1) rj by (auto simp: it_def)
      then show ?thesis
        by (intro step [of "consumed[rj := True]" ?st1])
          (use Cons.prems(1) lj Some rj at False in \<open>auto simp: Let_def extends_steps dest: upd\<close>)
    qed
  qed
qed simp

lemma right_added_accounted:
  "right_added_loop right rjs consumed st = st' \<Longrightarrow> \<forall>j\<in>set rjs. j < length (items right) \<Longrightarrow>
   extends st st' \<and> (\<forall>j\<in>set rjs. nth_opt consumed j \<noteq> Some True \<longrightarrow> kept_in st' (items right ! j))"
proof (induction rjs arbitrary: st)
  case (Cons rj rjs)
  let ?it = "items right ! rj"
  have it: "item_at right rj = Some ?it" using Cons.prems(2) by (simp add: item_at_def nth_opt_def)
  show ?case
  proof (cases "nth_opt consumed rj = Some True")
    case True
    then show ?thesis using Cons.IH [of st] Cons.prems by simp
  next
    case False
    let ?st1 = "push_added (gap_at right rj) ?it st"
    have IH: "extends ?st1 st'" "\<forall>j\<in>set rjs. nth_opt consumed j \<noteq> Some True \<longrightarrow> kept_in st' (items right ! j)"
      using Cons.IH [of ?st1] Cons.prems False it by simp_all
    then show ?thesis
      using in_extends(1) [OF kept_push IH(1)] extends_trans [OF extends_steps(1) IH(1)] by simp
  qed
qed simp

text \<open>A resolution whose body and conflicts are in an answer.\<close>

definition res_in :: "resolution \<Rightarrow> driver_output \<Rightarrow> bool" where
  "res_in res out \<longleftrightarrow> (\<forall>t\<in>snd ` set (res_pieces [] res). sublist t (out_merged out)) \<and>
     set (res_conflicts res) \<subseteq> set (new_conflicts out) \<and>
     set (res_carried res) \<subseteq> set (carried out) \<union> set (new_conflicts out)"

lemma res_in_simps [simp]:
  "res_in (Keep t) out \<longleftrightarrow> sublist t (out_merged out)"
  "res_in Drop out"
  "res_in (Conflicted t cs) out \<longleftrightarrow> sublist t (out_merged out) \<and> set cs \<subseteq> set (new_conflicts out)"
  "res_in (Carry t cv) out \<longleftrightarrow> sublist t (out_merged out) \<and> set cv \<subseteq> set (carried out) \<union> set (new_conflicts out)"
  "res_in (keep_or_carry it) out \<longleftrightarrow> item_kept out it"
  by (auto simp: res_in_def res_defs keep_or_carry_def item_kept_def)

lemma assemble_parts:
  "new_conflicts (assemble base st) = fst (snd st)" "carried (assemble base st) = snd (snd st)"
  by (simp_all add: assemble_def split: prod.split)

lemma sublist_concat_map: "x \<in> set xs \<Longrightarrow> sublist (f x) (concat (map f xs))"
  by (auto simp: in_set_conv_decomp)

lemma assemble_shows:
  assumes "t \<in> snd ` set (fst st)"
  shows "sublist t (out_merged (assemble base st))"
proof -
  obtain gap where gap: "(gap, t) \<in> set (fst st)" using assms by auto
  obtain ps cs cv where st: "st = (ps, cs, cv)" by (cases st)
  have "sublist t (gap @ t)" by simp
  also have "sublist (gap @ t) (concat (map (\<lambda>(gap, body). gap @ body) ps))"
    using sublist_concat_map [of "(gap, t)" ps "\<lambda>(gap, body). gap @ body"] gap st by simp
  also have "sublist \<dots> (out_merged (assemble base st))" by (simp add: assemble_def st)
  finally show ?thesis .
qed

lemma kept_assembled: "kept_in st it \<Longrightarrow> item_kept (assemble base st) it"
  using assemble_shows by (auto simp: kept_in_def item_kept_def assemble_parts)

lemma clash_assembled: "clash_in st l r \<Longrightarrow> clash_items (assemble base st) [] l r"
  using assemble_shows by (simp add: clash_in_def clash_def assemble_parts)

lemma resolved_in:
  assumes "i < length (items base)"
    and "extends (base_pieces res base left right (pair_items base left) (pair_items base right)) st"
  shows "res_in (resolved res base left right i) (assemble base st)"
proof -
  let ?R = "resolved res base left right i" and ?B = "base_pieces res base left right (pair_items base left) (pair_items base right)"
  have "snd ` set (res_pieces [] ?R) \<subseteq> snd ` set (fst ?B)" "set (res_conflicts ?R) \<subseteq> set (fst (snd ?B))"
    "set (res_carried ?R) \<subseteq> set (snd (snd ?B))"
    using assms(1) by (force simp: base_pieces_eq Let_def res_pieces_def split: resolution.splits)+
  then have "snd ` set (res_pieces [] ?R) \<subseteq> snd ` set (fst st)" "set (res_conflicts ?R) \<subseteq> set (fst (snd st))"
    "set (res_carried ?R) \<subseteq> set (snd (snd st))"
    using assms(2) unfolding extends_def by blast+
  then show ?thesis using assemble_shows unfolding res_in_def assemble_parts by blast
qed

text \<open>Both sides edited an item that carries no conflict: the container merge, or the line merge.\<close>

definition merge_both :: "grammar \<Rightarrow> nat \<Rightarrow> item \<Rightarrow> item \<Rightarrow> item \<Rightarrow> resolution" where
  "merge_both g depth b l r =
     (case try_container_merge depth g b l r of
        Some res \<Rightarrow> res
      | None \<Rightarrow>
          (let m = merge3 (from_str (itext b)) (from_str (itext l)) (from_str (itext r)) in
           if is_clean m then Keep (doc_to_string (merged m))
           else Conflicted (doc_to_string (merged m)) (conflicts m)))"

lemma resolve_both:
  "resolve_base_item g depth b (Some l) (Some r) =
     (if original_text l = original_text b then keep_or_carry (if original_text r = original_text b then b else r)
      else if original_text r = original_text b then keep_or_carry l
      else if icarried l \<noteq> [] \<or> icarried r \<noteq> [] then
        Conflicted (render_conflict (original_text l) (original_text r))
          [\<lparr>cbase = text_lines (original_text b), cleft = text_lines (original_text l),
            cright = text_lines (original_text r)\<rparr>]
      else merge_both g depth b l r)"
  by (simp add: resolve_base_item_def resolve_with_def merge_both_def Let_def split: option.split)

lemma resolve_outcome:
  assumes "res_in (resolve_base_item g depth b l r) out"
    and "\<And>l r. res_in (merge_both g depth b l r) out \<Longrightarrow> both out b l r"
  shows "item_outcome both out b l r"
proof (cases l; cases r)
  fix l' r'
  assume "l = Some l'" "r = Some r'"
  then show ?thesis using assms by (auto simp: resolve_both clash_def split: if_splits)
qed (use assms(1) in \<open>auto simp: resolve_base_item_def resolve_with_def clash_def split: if_splits\<close>)

lemma counterpart_partner:
  assumes "i < length (items base)" "partner base side i it"
  shows "counterpart_of (pair_items base side) side i = it"
proof (cases it)
  case None
  then have "map_of (pairs_between base side) i = None"
    using assms(2) by (fastforce simp: partner_def paired_iff map_of_eq_None_iff)
  then show ?thesis using None by (simp add: counterpart_of_eq [OF assms(1)])
next
  case (Some x)
  then show ?thesis using assms(2) by (auto simp: partner_def counterpart_paired)
qed

lemma structural_accounted:
  fixes base left right g depth
  defines "out \<equiv> structural_merge g base left right depth"
  assumes both: "\<And>b l r. res_in (merge_both g depth b l r) out \<Longrightarrow> both out b l r"
  shows "accounted both out base left right"
proof -
  let ?res = "resolve_base_item g depth" and ?lp = "pair_items base left" and ?rp = "pair_items base right"
  let ?bst = "base_pieces ?res base left right ?lp ?rp"
  define con where "con = replicate (length (items right)) False"
  obtain con' st1 where loop: "left_added_loop left right (added ?rp) (added ?lp) con ?bst = (con', st1)"
    by (metis surj_pair)
  define st where "st = right_added_loop right (added ?rp) con' st1"
  have out: "out = assemble base st"
    using loop by (simp add: out_def structural_merge_def merge_pieces_def Let_def con_def st_def)
  have l: "extends ?bst st1" "\<forall>j\<in>set (added ?lp). added_ok st1 right (items left ! j)" "length con' = length con"
    "\<forall>k<length con. con' ! k \<longrightarrow> con ! k \<or> k < length (items right) \<and> consumed_ok st1 left (items right ! k)"
    using left_added_accounted [OF loop] added_less by simp_all
  have r: "extends st1 st" "\<forall>j\<in>set (added ?rp). nth_opt con' j \<noteq> Some True \<longrightarrow> kept_in st (items right ! j)"
    using right_added_accounted [OF st_def [symmetric]] added_less by simp_all
  have "item_outcome both out (items base ! i) l' r'"
    if i: "i < length (items base)" and p: "partner base left i l'" "partner base right i r'" for i l' r'
  proof -
    have "res_in (resolve_base_item g depth (items base ! i) l' r') out"
      using resolved_in [OF i extends_trans [OF l(1) r(1)]] unfolding out
      by (simp add: resolved_def counterpart_partner [OF i p(1)] counterpart_partner [OF i p(2)])
    then show ?thesis by (rule resolve_outcome) (rule both)
  qed
  moreover have "(\<exists>i. paired base left i j) \<or> item_kept out (items left ! j) \<or>
      (\<exists>k<length (items right). same_key (items left ! j) (items right ! k) \<and> clash_items out [] (items left ! j) (items right ! k))"
    if "j < length (items left)" for j
  proof (cases "j \<in> set (added ?lp)")
    case True
    then have "added_ok st right (items left ! j)" using l(2) added_ok_extends [OF _ r(1)] by blast
    then show ?thesis unfolding added_ok_def out using kept_assembled clash_assembled by blast
  qed (use side_cases [OF that] in blast)
  moreover have "(\<exists>i. paired base right i k) \<or> item_kept out (items right ! k) \<or>
      (\<exists>j<length (items left). same_key (items left ! j) (items right ! k) \<and>
        (item_kept out (items left ! j) \<and> original_text (items left ! j) = original_text (items right ! k) \<or>
         clash_items out [] (items left ! j) (items right ! k)))"
    if k: "k < length (items right)" for k
  proof (cases "k \<in> set (added ?rp)")
    case True
    have "kept_in st (items right ! k) \<or> consumed_ok st left (items right ! k)"
    proof (cases "con' ! k")
      case True
      then have "consumed_ok st1 left (items right ! k)" using l(3,4) k by (simp add: con_def)
      then show ?thesis using consumed_ok_extends [OF _ r(1)] by blast
    next
      case False
      then have "nth_opt con' k \<noteq> Some True" by (simp add: nth_opt_def)
      then show ?thesis using r(2) True by blast
    qed
    then show ?thesis unfolding consumed_ok_def out using kept_assembled clash_assembled by blast
  qed (use side_cases [OF k] in blast)
  ultimately show ?thesis unfolding accounted_def by blast
qed

lemma try_container_None: "split_three g b l r = None \<Longrightarrow> try_container_merge n g b l r = None"
  by (cases n) (auto simp: split_three_def split: if_splits option.splits)

lemma try_container_Some:
  "split_three g b l r = Some (bp, lp, rp) \<Longrightarrow> try_container_merge (Suc n) g b l r =
     Some (container_result (header bp) (footer bp) (structural_merge g (cmembers bp) (cmembers lp) (cmembers rp) n))"
  by (auto simp: split_three_def structural_merge_def resolve_base_item_def split: if_splits option.splits)

lemma container_part: "res_in (container_result hd_text ft_text inner) out \<Longrightarrow> part_of hd_text inner ft_text out"
  by (auto simp: container_result_def part_of_def Let_def split: if_splits)

lemma merge_both_lines:
  "try_container_merge n g b l r = None \<Longrightarrow> res_in (merge_both g n b l r) out \<Longrightarrow> lines_merged out b l r"
  by (auto simp: merge_both_def lines_merged_def is_clean_def Let_def split: if_splits)

lemma merge_both_edited: "res_in (merge_both g n b l r) out \<Longrightarrow> both_edited n g out b l r"
proof (induction n arbitrary: out b l r)
  case 0
  then show ?case using merge_both_lines [of 0] by simp
next
  case (Suc n)
  show ?case
  proof (cases "split_three g b l r")
    case None
    then show ?thesis using merge_both_lines [OF try_container_None [OF None] Suc.prems] by simp
  next
    case (Some parts)
    obtain bp lp rp where parts: "parts = (bp, lp, rp)" by (cases parts)
    let ?inner = "structural_merge g (cmembers bp) (cmembers lp) (cmembers rp) n"
    have "part_of (header bp) ?inner (footer bp) out"
      using Suc.prems try_container_Some [OF Some [unfolded parts]] by (intro container_part) (simp add: merge_both_def)
    moreover have "accounted (both_edited n g) ?inner (cmembers bp) (cmembers lp) (cmembers rp)"
      by (rule structural_accounted) (rule Suc.IH)
    ultimately show ?thesis using Some parts by auto
  qed
qed

section \<open>Properties\<close>

text \<open>C31: No silent wrong answer at the level of items: in the answer of every structural merge, an item
that both sides left alone and an item that one side edited are kept with their full text; an item
that one side edited and the other deleted, and one that both edited while it carries conflict
values, are marker blocks and new conflicts with both full texts; of an item that both edited
otherwise, a container with unchanged header and footer is merged between them with its members
accounted for in the same way, and any other item is the line merge of the three texts with all its
conflicts reported; an item that a side added is kept, or clashes with the other side's addition of
the same kind and path. The line merge works on the sanitized texts, in which a conflict value of the
base reads as its left variant.\<close>
theorem no_item_dropped:
  "accounted (both_edited depth g) (structural_merge g base left right depth) base left right"
  by (rule structural_accounted) (rule merge_both_edited)

text \<open>A side that left the base alone gives way to the other: the merge reports no conflict, and
the bodies of its pieces are exactly the items of the edited side.\<close>
theorem one_sided_merge_exact:
  "(case merge_pieces (resolve_base_item g depth) base side base of (out, cs, cv) \<Rightarrow>
      cs = [] \<and> mset (map snd out) = mset (map original_text (items side))) \<and>
   (case merge_pieces (resolve_base_item g depth) base base side of (out, cs, cv) \<Rightarrow>
      cs = [] \<and> mset (map snd out) = mset (map original_text (items side)))"
proof -
  obtain o1 c1 v1 o2 c2 v2 where
    "merge_pieces (resolve_base_item g depth) base side base = (o1, c1, v1)"
    "merge_pieces (resolve_base_item g depth) base base side = (o2, c2, v2)" by (metis prod_cases3)
  then show ?thesis
    using one_sided_right_base [of _ base side o1 c1 v1] one_sided_left_base [of _ base side o2 c2 v2]
    unfolding resolve_base_item_def by simp
qed

text \<open>A side the driver can be given: UTF-8 text for which the parser returns ranges inside it.\<close>

definition side_ok :: "grammar \<Rightarrow> string \<Rightarrow> bool" where
  "side_ok g s \<longleftrightarrow> wf_text s \<and> (case prepared_of s of None \<Rightarrow> True | Some p \<Rightarrow> ranges_ok g (sanitized p))"

lemma side_segment:
  "side_ok g s \<Longrightarrow> prepared_of s = Some p \<Longrightarrow>
   segment g p = Some None \<or> (\<exists>seg. segment g p = Some (Some seg) \<and> restored s p seg)"
  using segment_result [of s p g] by (simp add: side_ok_def)

lemma line_merge_Inr: "\<exists>out. line_merge inp = Inr out"
  by (simp add: line_merge_def Let_def)

lemma driver_structural [simp]: "driver (structural_merge g b l r depth) = ''rust-structural''"
  by (simp add: structural_merge_def assemble_def split: prod.split)

text \<open>C32: The driver always answers: on well-formed sides it neither panics nor returns an error, and what
it returns is a structural merge or exactly the answer of the line driver.\<close>
theorem rust_merge_total:
  assumes "list_all (side_ok g) [base_text inp, left_text inp, right_text inp]"
  shows "\<exists>out. rust_merge g inp = Some (Inr out) \<and> (driver out = ''rust-structural'' \<or> line_merge inp = Inr out)"
proof -
  obtain ln where ln: "line_merge inp = Inr ln" using line_merge_Inr by blast
  have side: "prepared_of s = None \<or> (\<exists>p. prepared_of s = Some p \<and>
      (segment g p = Some None \<or> (\<exists>seg. segment g p = Some (Some seg))))" if "side_ok g s" for s
    using side_segment [OF that] by (cases "prepared_of s") auto
  have "side_ok g (base_text inp)" "side_ok g (left_text inp)" "side_ok g (right_text inp)" using assms by simp_all
  from side [OF this(1)] side [OF this(2)] side [OF this(3)] show ?thesis
    by (elim disjE exE conjE) (simp_all add: rust_merge_def ln driver_structural)
qed

text \<open>Merging a file with itself gives the file back, byte for byte and without a new conflict,
whatever conflict values it carries and whichever driver answers; when the structural driver answers
it reports the carried values of the file, all of them and in order.\<close>
theorem rust_merge_identity:
  assumes "side_ok g x"
  shows "\<exists>out. rust_merge g \<lparr>base_text = x, left_text = x, right_text = x, merge_path = path\<rparr> = Some (Inr out) \<and>
    out_merged out = x \<and> new_conflicts out = [] \<and>
    carried out = (if driver out = ''line'' then [] else map (block_conflict \<circ> snd) (pvalues (the (prepared_of x))))"
proof -
  let ?inp = "\<lparr>base_text = x, left_text = x, right_text = x, merge_path = path\<rparr>"
  have line: "line_merge ?inp = Inr \<lparr>out_merged = x, new_conflicts = [], carried = [], driver = ''line''\<rparr>"
    by (simp add: line_merge_def merge3_same)
  show ?thesis
  proof (cases "prepared_of x")
    case None
    then show ?thesis using line by (simp add: rust_merge_def)
  next
    case (Some p)
    from side_segment [OF assms this] show ?thesis
    proof (elim disjE exE conjE)
      assume "segment g p = Some None"
      then show ?thesis using Some line by (simp add: rust_merge_def)
    next
      fix seg assume seg: "segment g p = Some (Some seg)" "restored x p seg"
      then show ?thesis using Some line structural_merge_same [of seg g MAX_CONTAINER_DEPTH]
        by (cases "cleanly_parsed g (sanitized p)") (simp_all add: rust_merge_def restored_def)
    qed
  qed
qed

text \<open>Resolutions of a carried conflict can be dropped: when both sides resolved the conflict of the
base, one of them to its left variant, the merge is the other side's resolution without a conflict,
since the line merge sees the left variant as the base.\<close>
theorem carried_resolution_lost:
  assumes "icarried b \<noteq> []" "plain_item l" "plain_item r"
    and "itext l = itext b" "original_text l \<noteq> original_text b" "original_text r \<noteq> original_text b"
    and "\<not> recursable (dkind (idef b))"
  shows "resolve_base_item g depth b (Some l) (Some r) = Keep (original_text r)"
proof -
  have "try_container_merge depth g b l r = None" using assms(7) by (cases depth) simp_all
  then show ?thesis using assms
    by (simp add: resolve_both merge_both_def plain_item_def merge3_left_base is_clean_def Let_def)
qed

section \<open>Witnesses\<close>

lemma ex_side_ok: "side_ok ex_grammar ex_conflicted" "side_ok ex_grammar (unlines [''f{'', ''A'', ''}''])"
  using utf8_valid_wf [OF utf8_valid_all_ascii [OF ex_ascii]] by (auto simp: side_ok_def) code_simp+

lemma rust_merge_identity_witness:
  "\<exists>out. rust_merge ex_grammar \<lparr>base_text = ex_conflicted, left_text = ex_conflicted, right_text = ex_conflicted,
     merge_path = ''a.rs''\<rparr> = Some (Inr out) \<and> out_merged out = ex_conflicted"
  using rust_merge_identity [OF ex_side_ok(1)] by blast

lemma rust_merge_total_witness:
  "\<exists>out. rust_merge ex_grammar \<lparr>base_text = ex_conflicted, left_text = unlines [''f{'', ''A'', ''}''],
     right_text = ex_conflicted, merge_path = ''a.rs''\<rparr> = Some (Inr out)"
  using rust_merge_total [of ex_grammar "\<lparr>base_text = ex_conflicted, left_text = unlines [''f{'', ''A'', ''}''],
     right_text = ex_conflicted, merge_path = ''a.rs''\<rparr>"] ex_side_ok by auto

definition ex_seg :: "string \<Rightarrow> segmentation" where
  "ex_seg s = (case prepared_of s of
     Some p \<Rightarrow> (case segment ex_grammar p of Some (Some seg) \<Rightarrow> seg | _ \<Rightarrow> \<lparr>items = [], gaps = []\<rparr>)
   | None \<Rightarrow> \<lparr>items = [], gaps = []\<rparr>)"

abbreviation ex_item :: "string \<Rightarrow> item" where
  "ex_item s \<equiv> items (ex_seg s) ! 0"

lemma ex_items:
  "icarried (ex_item ex_conflicted) \<noteq> []" "plain_item (ex_item (unlines [''f{'', ''A'', ''}'']))"
  "plain_item (ex_item (unlines [''f{'', ''B'', ''}'']))"
  "itext (ex_item (unlines [''f{'', ''A'', ''}''])) = itext (ex_item ex_conflicted)"
  "original_text (ex_item (unlines [''f{'', ''A'', ''}''])) \<noteq> original_text (ex_item ex_conflicted)"
  "original_text (ex_item (unlines [''f{'', ''B'', ''}''])) \<noteq> original_text (ex_item ex_conflicted)"
  "\<not> recursable (dkind (idef (ex_item ex_conflicted)))"
  "original_text (ex_item (unlines [''f{'', ''B'', ''}''])) = ''f{'' @ [newline] @ ''B'' @ [newline] @ ''}''"
  by code_simp+

lemma carried_resolution_lost_witness:
  "resolve_base_item ex_grammar 3 (ex_item ex_conflicted) (Some (ex_item (unlines [''f{'', ''A'', ''}''])))
     (Some (ex_item (unlines [''f{'', ''B'', ''}'']))) = Keep (''f{'' @ [newline] @ ''B'' @ [newline] @ ''}'')"
  using carried_resolution_lost [OF ex_items(1-7)] by (simp only: ex_items(8))

text \<open>An edit between two items is dropped without a conflict: the left side changes the import in
front of a function, the right side changes nothing, and the merge is the unchanged base.\<close>

definition ex_import_grammar :: grammar where
  "ex_import_grammar = ex_grammar\<lparr>syntax_tree := (\<lambda>s. Some (Node ''source_file'' 0 (length s) []
     [Node ''function_item'' 7 (length s) [] []]))\<rparr>"

theorem gap_edit_dropped:
  "rust_merge ex_import_grammar
     \<lparr>base_text = unlines [''use a;'', ''fn f(){}''], left_text = unlines [''use b;'', ''fn f(){}''],
      right_text = unlines [''use a;'', ''fn f(){}''], merge_path = ''a.rs''\<rparr> =
   Some (Inr \<lparr>out_merged = unlines [''use a;'', ''fn f(){}''], new_conflicts = [], carried = [],
     driver = ''rust-structural''\<rparr>)"
  by code_simp

end
