(* ===== verification/GitObject.thy ===== *)
theory GitObject
  imports ObjectStore
begin

text \<open>
  Git's object model, \<open>object.rs\<close> of \<open>omoplata-git\<close>: object ids in hexadecimal, commits and tags
  with their headers, trees, the byte form of an object, and the round-trip gate of \<open>gate.rs\<close>.
  An id is a string of 20 bytes. Bytes and text are strings of 8-bit characters; \<open>decode\<close> keeps
  the raw body of a commit or tag, which is what \<open>encode\<close> writes back. SHA-1 is a parameter.
\<close>

section \<open>Errors and lossy text\<close>

datatype git_error =
    GitDecode string
  | Roundtrip string
  | OidMismatch (expected: string) (got: string)
  | BadLoosePath string
  | UnsupportedMode string
  | MissingObject string
  | PackErr string
  | BadRef string string
  | MalformedOid string
  | NotARepository string
  | EmptyRepository string
  | Zlib string
  | WireProto string
  | Wire string
  | GitIo string
  | GitStore store_error
  | GitObjectErr object_error

text \<open>
  \<open>String::from_utf8_lossy\<close>: the length of the next well-formed sequence, or of the longest
  prefix of one, which is replaced by U+FFFD.
\<close>

definition utf8_second :: "char \<Rightarrow> char \<Rightarrow> bool" where
  "utf8_second a b \<longleftrightarrow>
     (if byte a = 224 then 160 \<le> byte b \<and> byte b < 192
      else if byte a = 237 then 128 \<le> byte b \<and> byte b < 160
      else if byte a = 240 then 144 \<le> byte b \<and> byte b < 192
      else if byte a = 244 then 128 \<le> byte b \<and> byte b < 144
      else cont b)"

definition utf8_width :: "char \<Rightarrow> nat" where
  "utf8_width a =
     (if byte a < 128 then 1
      else if 194 \<le> byte a \<and> byte a < 224 then 2
      else if 224 \<le> byte a \<and> byte a < 240 then 3
      else if 240 \<le> byte a \<and> byte a < 245 then 4
      else 0)"

definition utf8_chunk :: "string \<Rightarrow> bool \<times> nat" where
  "utf8_chunk s =
     (let a = s ! 0; w = utf8_width a in
      if w = 1 then (True, 1)
      else if w = 0 \<or> length s < 2 \<or> \<not> utf8_second a (s ! 1) then (False, 1)
      else if w = 2 then (True, 2)
      else if length s < 3 \<or> \<not> cont (s ! 2) then (False, 2)
      else if w = 3 then (True, 3)
      else if length s < 4 \<or> \<not> cont (s ! 3) then (False, 3)
      else (True, 4))"

lemma utf8_chunk_pos [simp]: "0 < snd (utf8_chunk s)"
  by (simp add: utf8_chunk_def Let_def)

function utf8_lossy :: "string \<Rightarrow> string" where
  "utf8_lossy s =
     (if s = [] then []
      else (if fst (utf8_chunk s) then take (snd (utf8_chunk s)) s else [CHR 0xEF, CHR 0xBF, CHR 0xBD])
        @ utf8_lossy (drop (snd (utf8_chunk s)) s))"
  by pat_completeness auto
termination by (relation "measure length") (auto simp: diff_less)

declare utf8_lossy.simps [simp del]

lemma utf8_chunk_valid:
  assumes "utf8_valid s" "s \<noteq> []"
  shows "fst (utf8_chunk s) \<and> utf8_valid (drop (snd (utf8_chunk s)) s)"
  using assms
  by (subst (asm) utf8_valid.simps)
     (auto simp: utf8_chunk_def utf8_width_def utf8_second_def cont_def Let_def split: list.splits if_splits)

lemma utf8_lossy_valid: "utf8_valid s \<Longrightarrow> utf8_lossy s = s"
proof (induction s rule: utf8_lossy.induct)
  case (1 s)
  show ?case
  proof (cases "s = []")
    case False
    then show ?thesis using 1 utf8_chunk_valid [OF "1.prems" False] by (subst utf8_lossy.simps) simp
  qed (subst utf8_lossy.simps, simp)
qed

section \<open>Ids\<close>

type_synonym git_oid = string

text \<open>The pairs of digits at the even positions, each read by \<open>str::get\<close>, which does not panic.\<close>

fun hex_pairs :: "string \<Rightarrow> nat list \<Rightarrow> string option" where
  "hex_pairs s [] = Some []"
| "hex_pairs s (i # is) =
     (case str_get i (i + 2) s of
        None \<Rightarrow> None
      | Some pair \<Rightarrow>
        (case from_radix16 256 pair of
           None \<Rightarrow> None
         | Some n \<Rightarrow> map_option ((#) (char_of n)) (hex_pairs s is)))"

definition git_hex_decode :: "string \<Rightarrow> string option" where
  "git_hex_decode s =
     (if s = [] \<or> length s mod 2 \<noteq> 0 then None
      else hex_pairs s (map (\<lambda>i. 2 * i) [0..<length s div 2]))"

definition oid_from_hex :: "string \<Rightarrow> git_error + git_oid" where
  "oid_from_hex s =
     and_then (ok_or (MalformedOid s) (git_hex_decode s)) (\<lambda>bytes.
       if length bytes = 20 then Inr bytes else Inl (MalformedOid s))"

section \<open>Commits, tags and trees\<close>

record git_tree_entry =
  mode :: string
  gname :: string
  goid :: string

record git_commit =
  ctree :: git_oid
  cparents :: "git_oid list"
  cauthor :: string
  committer :: string
  cmessage :: string
  cbody :: string

record git_tag =
  tobject :: git_oid
  tkind :: string
  ttag :: string
  tagger :: string
  tmessage :: string
  tbody :: string

datatype git_object =
    Blob string
  | Tree "git_tree_entry list"
  | CommitObj git_commit
  | TagObj git_tag

fun split_headers_from :: "string \<Rightarrow> string \<Rightarrow> string \<times> string" where
  "split_headers_from pre (a # b # rest) =
     (if a = CHR 0x0A \<and> b = CHR 0x0A then (rev pre, rest) else split_headers_from (a # pre) (b # rest))"
| "split_headers_from pre rest = (rev pre @ rest, [])"

definition split_headers :: "string \<Rightarrow> string \<times> string" where
  "split_headers body = split_headers_from [] body"

definition header_line :: "(string \<times> string) list \<Rightarrow> string \<Rightarrow> (string \<times> string) list" where
  "header_line headers line =
     (case line of
        c # continued \<Rightarrow>
          if c = CHR '' '' then
            (if headers = [] then headers
             else butlast headers @ [(fst (last headers), snd (last headers) @ CHR 0x0A # continued)])
          else (case split_once CHR '' '' line of
              Some (k, v) \<Rightarrow> headers @ [(k, v)]
            | None \<Rightarrow> headers @ [(line, [])])
      | [] \<Rightarrow> headers @ [([], [])])"

definition parse_headers :: "string \<Rightarrow> git_error + (string \<times> string) list" where
  "parse_headers block =
     (if \<not> utf8_valid block then Inl (GitDecode ''non-utf8 commit/tag header'')
      else Inr (foldl header_line [] (split_on CHR 0x0A block)))"

definition header_oid :: "string \<Rightarrow> string \<Rightarrow> git_error + git_oid" where
  "header_oid msg value =
     (case oid_from_hex (trim value) of Inl _ \<Rightarrow> Inl (GitDecode msg) | Inr i \<Rightarrow> Inr i)"

fun commit_headers ::
  "(string \<times> string) list \<Rightarrow> git_oid option \<times> git_oid list \<times> string \<times> string \<Rightarrow>
   git_error + git_oid option \<times> git_oid list \<times> string \<times> string" where
  "commit_headers [] st = Inr st"
| "commit_headers ((key, value) # hs) (tr, ps, au, co) =
     (if key = ''tree'' then
        and_then (header_oid ''commit tree header is not a 40-hex oid'' value)
          (\<lambda>i. commit_headers hs (Some i, ps, au, co))
      else if key = ''parent'' then
        and_then (header_oid ''commit parent header is not a 40-hex oid'' value)
          (\<lambda>i. commit_headers hs (tr, ps @ [i], au, co))
      else if key = ''author'' then commit_headers hs (tr, ps, value, co)
      else if key = ''committer'' then commit_headers hs (tr, ps, au, value)
      else commit_headers hs (tr, ps, au, co))"

definition parse_commit :: "string \<Rightarrow> git_error + git_commit" where
  "parse_commit body =
     (let (header_block, message_bytes) = split_headers body in
      and_then (parse_headers header_block) (\<lambda>headers.
      and_then (commit_headers headers (None, [], [], [])) (\<lambda>(tr, ps, au, co).
      and_then (ok_or (GitDecode ''commit missing tree header'') tr) (\<lambda>t.
        Inr \<lparr>ctree = t, cparents = ps, cauthor = au, committer = co,
             cmessage = utf8_lossy message_bytes, cbody = body\<rparr>))))"

fun tag_headers ::
  "(string \<times> string) list \<Rightarrow> git_oid option \<times> string \<times> string \<times> string \<Rightarrow>
   git_error + git_oid option \<times> string \<times> string \<times> string" where
  "tag_headers [] st = Inr st"
| "tag_headers ((key, value) # hs) (ob, ty, tg, tr) =
     (if key = ''object'' then
        and_then (header_oid ''tag object header is not a 40-hex oid'' value)
          (\<lambda>i. tag_headers hs (Some i, ty, tg, tr))
      else if key = ''type'' then tag_headers hs (ob, value, tg, tr)
      else if key = ''tag'' then tag_headers hs (ob, ty, value, tr)
      else if key = ''tagger'' then tag_headers hs (ob, ty, tg, value)
      else tag_headers hs (ob, ty, tg, tr))"

definition parse_tag :: "string \<Rightarrow> git_error + git_tag" where
  "parse_tag body =
     (let (header_block, message_bytes) = split_headers body in
      and_then (parse_headers header_block) (\<lambda>headers.
      and_then (tag_headers headers (None, [], [], [])) (\<lambda>(ob, ty, tg, tr).
      and_then (ok_or (GitDecode ''tag missing object header'') ob) (\<lambda>i.
        Inr \<lparr>tobject = i, tkind = ty, ttag = tg, tagger = tr,
             tmessage = utf8_lossy message_bytes, tbody = body\<rparr>))))"

definition subject :: "git_commit \<Rightarrow> string" where
  "subject c = (case str_lines (cmessage c) of [] \<Rightarrow> [] | l # _ \<Rightarrow> l)"

section \<open>The byte form\<close>

definition type_str :: "git_object \<Rightarrow> string" where
  "type_str ob = (case ob of Blob _ \<Rightarrow> ''blob'' | Tree _ \<Rightarrow> ''tree'' | CommitObj _ \<Rightarrow> ''commit'' | TagObj _ \<Rightarrow> ''tag'')"

definition encode_tree :: "git_tree_entry list \<Rightarrow> string" where
  "encode_tree es = concat (map (\<lambda>e. mode e @ CHR '' '' # gname e @ CHR 0x00 # goid e) es)"

definition git_body :: "git_object \<Rightarrow> string" where
  "git_body ob = (case ob of Blob b \<Rightarrow> b | Tree es \<Rightarrow> encode_tree es | CommitObj c \<Rightarrow> cbody c | TagObj t \<Rightarrow> tbody t)"

definition encode :: "git_object \<Rightarrow> string" where
  "encode ob = type_str ob @ CHR '' '' # show_nat (length (git_body ob)) @ CHR 0x00 # git_body ob"

text \<open>The loop of \<open>decode_tree\<close> over the rest of the body.\<close>

function decode_tree :: "string \<Rightarrow> git_error + git_tree_entry list" where
  "decode_tree body =
     (if body = [] then Inr []
      else (case position (\<lambda>b. b = CHR '' '') body of
          None \<Rightarrow> Inl (GitDecode ''tree entry: missing mode separator'')
        | Some sp \<Rightarrow>
          if \<not> utf8_valid (take sp body) then Inl (GitDecode ''tree entry: non-utf8 mode'')
          else (case position (\<lambda>b. b = CHR 0x00) (drop (sp + 1) body) of
              None \<Rightarrow> Inl (GitDecode ''tree entry: missing name NUL'')
            | Some p \<Rightarrow>
              let nul = sp + 1 + p in
              if \<not> utf8_valid (slice_of (sp + 1) nul body) then Inl (GitDecode ''tree entry: non-utf8 name'')
              else if length body < nul + 1 + 20 then Inl (GitDecode ''tree entry: truncated oid'')
              else and_then (decode_tree (drop (nul + 1 + 20) body)) (\<lambda>es.
                Inr (\<lparr>mode = take sp body, gname = slice_of (sp + 1) nul body,
                      goid = slice_of (nul + 1) (nul + 1 + 20) body\<rparr> # es)))))"
  by pat_completeness auto
termination by (relation "measure length") auto

declare decode_tree.simps [simp del]

definition decode :: "string \<Rightarrow> git_error + git_object" where
  "decode bytes =
     (case position (\<lambda>b. b = CHR '' '') bytes of
        None \<Rightarrow> Inl (GitDecode ''missing type/size separator'')
      | Some sp \<Rightarrow>
        let ty = take sp bytes in
        (case position (\<lambda>b. b = CHR 0x00) (drop (sp + 1) bytes) of
           None \<Rightarrow> Inl (GitDecode ''missing header NUL'')
         | Some i \<Rightarrow>
           let nul = sp + 1 + i; size_s = slice_of (sp + 1) nul bytes in
           if \<not> utf8_valid size_s then Inl (GitDecode ''non-utf8 size'')
           else (case parse_uint usize_limit size_s of
               None \<Rightarrow> Inl (GitDecode ''bad size'')
             | Some n \<Rightarrow>
               let body = drop (nul + 1) bytes in
               if length body \<noteq> n then Inl (GitDecode ''declared size does not match body length'')
               else if ty = ''blob'' then Inr (Blob body)
               else if ty = ''tree'' then and_then (decode_tree body) (\<lambda>es. Inr (Tree es))
               else if ty = ''commit'' then and_then (parse_commit body) (\<lambda>c. Inr (CommitObj c))
               else if ty = ''tag'' then and_then (parse_tag body) (\<lambda>t. Inr (TagObj t))
               else Inl (GitDecode ''unknown object type''))))"

definition oid :: "(string \<Rightarrow> string) \<Rightarrow> git_object \<Rightarrow> git_oid" where
  "oid sha1 ob = sha1 (encode ob)"

section \<open>The gate\<close>

record git_report =
  blobs :: nat
  trees :: nat
  commits :: nat
  tags :: nat
  packfiles :: nat

definition total :: "git_report \<Rightarrow> nat" where
  "total r = blobs r + trees r + commits r + tags r"

definition tally :: "git_report \<Rightarrow> git_object \<Rightarrow> git_report" where
  "tally r ob =
     (case ob of
        Blob _ \<Rightarrow> r\<lparr>blobs := blobs r + 1\<rparr>
      | Tree _ \<Rightarrow> r\<lparr>trees := trees r + 1\<rparr>
      | CommitObj _ \<Rightarrow> r\<lparr>commits := commits r + 1\<rparr>
      | TagObj _ \<Rightarrow> r\<lparr>tags := tags r + 1\<rparr>)"

definition roundtrip_ok :: "(string \<Rightarrow> string) \<Rightarrow> string \<Rightarrow> git_error + git_oid" where
  "roundtrip_ok sha1 bytes =
     and_then (decode bytes) (\<lambda>ob.
       if encode ob \<noteq> bytes then Inl (Roundtrip (hex_encode (oid sha1 ob))) else Inr (oid sha1 ob))"

fun gate_all :: "(string \<Rightarrow> string) \<Rightarrow> (git_oid \<times> git_object) list \<Rightarrow> git_report \<Rightarrow> git_error + git_report" where
  "gate_all sha1 [] r = Inr r"
| "gate_all sha1 ((claimed, ob) # rest) r =
     and_then (roundtrip_ok sha1 (encode ob)) (\<lambda>gate_oid.
       if gate_oid \<noteq> claimed then Inl (OidMismatch (hex_encode claimed) (hex_encode gate_oid))
       else gate_all sha1 rest (tally r ob))"

section \<open>Lemmas\<close>

lemma position_char_split:
  assumes "position (\<lambda>b. b = c) xs = Some n"
  shows "take n xs @ c # drop (Suc n) xs = xs" "c \<notin> set (take n xs)"
proof -
  have n: "n < length xs" "xs ! n = c" "\<forall>j<n. xs ! j \<noteq> c" using assms by (auto simp: position_Some_iff)
  show "take n xs @ c # drop (Suc n) xs = xs" using id_take_nth_drop [OF n(1)] n(2) by simp
  show "c \<notin> set (take n xs)" using n by (auto simp: in_set_conv_nth)
qed

lemma position_after: "\<forall>x\<in>set xs. \<not> p x \<Longrightarrow> p y \<Longrightarrow> position p (xs @ y # ys) = Some (length xs)"
  by (induction xs) auto

definition entry_git_ok :: "git_tree_entry \<Rightarrow> bool" where
  "entry_git_ok e \<longleftrightarrow> utf8_valid (mode e) \<and> CHR '' '' \<notin> set (mode e) \<and>
     utf8_valid (gname e) \<and> CHR 0x00 \<notin> set (gname e) \<and> length (goid e) = 20"

lemma encode_tree_Cons [simp]:
  "encode_tree (e # es) = mode e @ CHR '' '' # gname e @ CHR 0x00 # goid e @ encode_tree es"
  "encode_tree [] = []"
  by (simp_all add: encode_tree_def)

lemma decode_tree_Nil [simp]: "decode_tree [] = Inr []"
  by (subst decode_tree.simps) simp

lemma decode_tree_sound:
  "decode_tree body = Inr es \<Longrightarrow> encode_tree es = body \<and> list_all entry_git_ok es"
proof (induction body arbitrary: es rule: decode_tree.induct)
  case (1 body)
  show ?case
  proof (cases "body = []")
    case True
    then show ?thesis using "1.prems" by simp
  next
    case False
    from "1.prems" False obtain sp p es' where
      sp: "position (\<lambda>b. b = CHR '' '') body = Some sp" "utf8_valid (take sp body)"
      and p: "position (\<lambda>b. b = CHR 0x00) (drop (sp + 1) body) = Some p"
      "utf8_valid (slice_of (sp + 1) (sp + 1 + p) body)" "sp + 1 + p + 1 + 20 \<le> length body"
      and es': "decode_tree (drop (sp + 1 + p + 1 + 20) body) = Inr es'"
      and es: "es = \<lparr>mode = take sp body, gname = slice_of (sp + 1) (sp + 1 + p) body,
          goid = slice_of (sp + 1 + p + 1) (sp + 1 + p + 1 + 20) body\<rparr> # es'"
      by (subst (asm) decode_tree.simps)
         (auto simp: Let_def res_simps not_less split: option.split_asm if_split_asm)
    have IH: "encode_tree es' = drop (sp + 1 + p + 1 + 20) body \<and> list_all entry_git_ok es'"
      using "1.IH" [OF False sp(1) _ p(1) refl _ _ es'] sp(2) p(2,3) by simp
    note b1 = position_char_split [OF sp(1)]
    have b2: "slice_of (sp + 1) (sp + 1 + p) body @ CHR 0x00 # drop (sp + 1 + p + 1) body = drop (Suc sp) body"
      "CHR 0x00 \<notin> set (slice_of (sp + 1) (sp + 1 + p) body)"
      using position_char_split [OF p(1)] by (simp_all add: slice_of_def add.commute)
    have b3: "drop (sp + 1 + p + 1) body = slice_of (sp + 1 + p + 1) (sp + 1 + p + 1 + 20) body
        @ drop (sp + 1 + p + 1 + 20) body"
      by (rule drop_slice) simp
    have "length (slice_of (sp + 1 + p + 1) (sp + 1 + p + 1 + 20) body) = 20" using p(3) by simp
    then have "list_all entry_git_ok es"
      using IH b1(2) b2(2) sp(2) p(2) by (simp add: es entry_git_ok_def)
    moreover have "encode_tree es = take sp body @ CHR '' '' # slice_of (sp + 1) (sp + 1 + p) body @ CHR 0x00
        # slice_of (sp + 1 + p + 1) (sp + 1 + p + 1 + 20) body @ drop (sp + 1 + p + 1 + 20) body"
      using IH by (simp add: es)
    moreover have "\<dots> = body"
      by (simp only: b3 [symmetric] b2(1) b1(1))
    ultimately show ?thesis by simp
  qed
qed

lemma decode_tree_encode: "list_all entry_git_ok es \<Longrightarrow> decode_tree (encode_tree es) = Inr es"
proof (induction es)
  case (Cons e es)
  let ?body = "encode_tree (e # es)"
  let ?rest = "gname e @ CHR 0x00 # goid e @ encode_tree es"
  have ok: "utf8_valid (mode e)" "CHR '' '' \<notin> set (mode e)" "utf8_valid (gname e)"
    "CHR 0x00 \<notin> set (gname e)" "length (goid e) = 20"
    using Cons.prems by (simp_all add: entry_git_ok_def)
  have body: "?body = mode e @ CHR '' '' # ?rest" by simp
  have sp: "position (\<lambda>b. b = CHR '' '') ?body = Some (length (mode e))"
    unfolding body using ok(2) by (intro position_after) auto
  have d1: "drop (length (mode e) + 1) ?body = ?rest" by simp
  have p: "position (\<lambda>b. b = CHR 0x00) ?rest = Some (length (gname e))"
    using ok(4) by (intro position_after) auto
  have nm: "slice_of (length (mode e) + 1) (length (mode e) + 1 + length (gname e)) ?body = gname e"
    by (simp add: slice_of_def)
  have ob: "slice_of (length (mode e) + 1 + length (gname e) + 1) (length (mode e) + 1 + length (gname e) + 1 + 20) ?body = goid e"
    using ok(5) by (simp add: slice_of_def)
  have rest: "drop (length (mode e) + 1 + length (gname e) + 1 + 20) ?body = encode_tree es"
  proof -
    let ?pre = "mode e @ CHR '' '' # gname e @ CHR 0x00 # goid e"
    have "?body = ?pre @ encode_tree es" by simp
    moreover have "length ?pre = length (mode e) + 1 + length (gname e) + 1 + 20" using ok(5) by simp
    ultimately show ?thesis by (metis append_eq_conv_conj)
  qed
  have len: "\<not> length ?body < length (mode e) + 1 + length (gname e) + 1 + 20" using ok(5) by simp
  show ?case
    unfolding decode_tree.simps [of ?body] sp d1 p option.case Let_def nm ob rest
    using Cons ok len by (simp del: encode_tree_Cons) simp
qed simp

definition git_ok :: "git_object \<Rightarrow> bool" where
  "git_ok ob \<longleftrightarrow> length (git_body ob) < usize_limit \<and>
     (case ob of
        Blob _ \<Rightarrow> True
      | Tree es \<Rightarrow> list_all entry_git_ok es
      | CommitObj c \<Rightarrow> parse_commit (cbody c) = Inr c
      | TagObj t \<Rightarrow> parse_tag (tbody t) = Inr t)"

lemma type_str_free: "CHR '' '' \<notin> set (type_str ob)"
  by (simp add: type_str_def split: git_object.split)

lemma show_nat_bytes: "c \<in> set (show_nat n) \<Longrightarrow> 48 \<le> byte c \<and> byte c < 58"
  using show_nat_digits [of c n] digit_char_range by fastforce

lemma show_nat_no_nul: "CHR 0x00 \<notin> set (show_nat n)"
  using show_nat_bytes [of "CHR 0x00" n] by auto

lemma show_nat_utf8: "utf8_valid (show_nat n)"
  by (rule utf8_valid_all_ascii) (use show_nat_bytes in \<open>fastforce simp: list_all_iff\<close>)

lemma decode_header:
  assumes "CHR '' '' \<notin> set ty" "CHR 0x00 \<notin> set sz" "utf8_valid sz" "parse_uint usize_limit sz = Some (length body)"
  shows "decode (ty @ CHR '' '' # sz @ CHR 0x00 # body) =
    (if ty = ''blob'' then Inr (Blob body)
     else if ty = ''tree'' then and_then (decode_tree body) (\<lambda>es. Inr (Tree es))
     else if ty = ''commit'' then and_then (parse_commit body) (\<lambda>c. Inr (CommitObj c))
     else if ty = ''tag'' then and_then (parse_tag body) (\<lambda>t. Inr (TagObj t))
     else Inl (GitDecode ''unknown object type''))"
proof -
  let ?bytes = "ty @ CHR '' '' # sz @ CHR 0x00 # body"
  have 1: "position (\<lambda>b. b = CHR '' '') ?bytes = Some (length ty)"
    using assms(1) by (intro position_after) auto
  have 2: "drop (length ty + 1) ?bytes = sz @ CHR 0x00 # body" by simp
  have 3: "position (\<lambda>b. b = CHR 0x00) (sz @ CHR 0x00 # body) = Some (length sz)"
    using assms(2) by (intro position_after) auto
  have 4: "slice_of (length ty + 1) (length ty + 1 + length sz) ?bytes = sz" by (simp add: slice_of_def)
  have 5: "drop (length ty + 1 + length sz + 1) ?bytes = body" by simp
  have 6: "take (length ty) ?bytes = ty" by simp
  show ?thesis
    unfolding decode_def 1 option.case Let_def 2 3 4 5 6 using assms(3,4) by simp
qed

lemma parse_commit_body: "parse_commit body = Inr c \<Longrightarrow> cbody c = body"
  by (auto simp: parse_commit_def res_simps split: prod.splits)

lemma parse_tag_body: "parse_tag body = Inr t \<Longrightarrow> tbody t = body"
  by (auto simp: parse_tag_def res_simps split: prod.splits)

lemma decode_Inr:
  assumes "decode bytes = Inr ob"
  shows "\<exists>sz. bytes = type_str ob @ CHR '' '' # sz @ CHR 0x00 # git_body ob \<and> CHR 0x00 \<notin> set sz \<and>
    parse_uint usize_limit sz = Some (length (git_body ob)) \<and> git_ok ob"
proof -
  from assms obtain sp i where
    sp: "position (\<lambda>b. b = CHR '' '') bytes = Some sp"
    and i: "position (\<lambda>b. b = CHR 0x00) (drop (sp + 1) bytes) = Some i"
    by (auto simp: decode_def Let_def split: option.split_asm)
  define sz where "sz = slice_of (sp + 1) (sp + 1 + i) bytes"
  define body where "body = drop (sp + 1 + i + 1) bytes"
  have b1: "take sp bytes @ CHR '' '' # drop (Suc sp) bytes = bytes" "CHR '' '' \<notin> set (take sp bytes)"
    using position_char_split [OF sp] .
  have b2: "sz @ CHR 0x00 # body = drop (Suc sp) bytes" "CHR 0x00 \<notin> set sz"
    using position_char_split [OF i] by (simp_all add: slice_of_def add.commute sz_def body_def)
  have bytes: "bytes = take sp bytes @ CHR '' '' # sz @ CHR 0x00 # body" using b1(1) b2(1) by simp
  have pos: "utf8_valid sz" "parse_uint usize_limit sz = Some (length body)"
    using assms sp i by (auto simp: decode_def Let_def sz_def body_def split: if_split_asm option.split_asm)
  have lt: "length body < usize_limit"
    using pos(2) by (auto simp: parse_uint_def Let_def split: if_split_asm option.split_asm)
  have "type_str ob = take sp bytes \<and> git_body ob = body \<and> git_ok ob"
    using assms decode_header [OF b1(2) b2(2) pos] lt unfolding bytes [symmetric]
    by (auto simp: type_str_def git_body_def git_ok_def res_simps decode_tree_sound parse_commit_body parse_tag_body
        split: if_split_asm)
  with bytes b2(2) pos(2) show ?thesis by metis
qed

lemma decode_encode: "git_ok ob \<Longrightarrow> decode (encode ob) = Inr ob"
proof -
  assume ok: "git_ok ob"
  have "decode (encode ob) =
    (if type_str ob = ''blob'' then Inr (Blob (git_body ob))
     else if type_str ob = ''tree'' then and_then (decode_tree (git_body ob)) (\<lambda>es. Inr (Tree es))
     else if type_str ob = ''commit'' then and_then (parse_commit (git_body ob)) (\<lambda>c. Inr (CommitObj c))
     else if type_str ob = ''tag'' then and_then (parse_tag (git_body ob)) (\<lambda>t. Inr (TagObj t))
     else Inl (GitDecode ''unknown object type''))"
    unfolding encode_def using ok
    by (intro decode_header) (simp_all add: type_str_free show_nat_no_nul show_nat_utf8 parse_uint_show git_ok_def)
  then show ?thesis using ok
    by (cases ob) (simp_all add: type_str_def git_body_def git_ok_def decode_tree_encode)
qed

definition decode_opt :: "string \<Rightarrow> git_object option" where
  "decode_opt bytes = (case decode bytes of Inl _ \<Rightarrow> None | Inr ob \<Rightarrow> Some ob)"

interpretation git_codec: codec encode decode_opt git_ok
  by unfold_locales (simp add: decode_opt_def decode_encode)

lemma roundtrip_ok_Inr:
  "roundtrip_ok sha1 bytes = Inr i \<longleftrightarrow> (\<exists>ob. decode bytes = Inr ob \<and> encode ob = bytes \<and> i = sha1 bytes)"
  by (auto simp: roundtrip_ok_def oid_def res_simps split: if_splits)

lemma gate_all_Inr:
  "gate_all sha1 os r = Inr r' \<Longrightarrow>
   (\<forall>(i, ob)\<in>set os. roundtrip_ok sha1 (encode ob) = Inr i) \<and> total r' = total r + length os \<and>
   packfiles r' = packfiles r"
proof (induction os arbitrary: r)
  case (Cons x os)
  obtain i ob where x: "x = (i, ob)" by (cases x)
  have "total (tally r ob) = Suc (total r)" "packfiles (tally r ob) = packfiles r"
    by (auto simp: total_def tally_def split: git_object.split)
  moreover from Cons.prems have "roundtrip_ok sha1 (encode ob) = Inr i" "gate_all sha1 os (tally r ob) = Inr r'"
    by (auto simp: x res_simps split: if_splits)
  ultimately show ?case using Cons.IH by (force simp: x)
qed simp

section \<open>Properties\<close>

text \<open>C23: Git interoperability (I9): the gate accepts exactly the byte strings that are the
  encoding of a well-formed object, and answers the hash of those very bytes.\<close>
theorem git_gate_exact:
  "roundtrip_ok sha1 bytes = Inr i \<longleftrightarrow> i = sha1 bytes \<and> (\<exists>ob. git_ok ob \<and> bytes = encode ob)"
proof
  assume "roundtrip_ok sha1 bytes = Inr i"
  then show "i = sha1 bytes \<and> (\<exists>ob. git_ok ob \<and> bytes = encode ob)"
    using decode_Inr unfolding roundtrip_ok_Inr by metis
next
  assume "i = sha1 bytes \<and> (\<exists>ob. git_ok ob \<and> bytes = encode ob)"
  then show "roundtrip_ok sha1 bytes = Inr i" using decode_encode unfolding roundtrip_ok_Inr by metis
qed

text \<open>Decoding loses nothing but the spelling of the size: a decoded object is well-formed, its
  body is the body of the input byte for byte (trees, commits and tags included), decoding its
  encoding gives it again, and the bytes differ from the encoding exactly when the size of the
  header is not written in its canonical decimal form.\<close>
theorem git_decode_faithful:
  assumes "decode bytes = Inr ob"
  shows "git_ok ob \<and> decode (encode ob) = Inr ob \<and>
    (\<exists>sz. bytes = type_str ob @ CHR '' '' # sz @ CHR 0x00 # git_body ob \<and>
      parse_uint usize_limit sz = Some (length (git_body ob)) \<and>
      (encode ob = bytes \<longleftrightarrow> sz = show_nat (length (git_body ob))))"
  using decode_Inr [OF assms] decode_encode [of ob] by (auto simp: encode_def)

lemma git_decode_faithful_witness:
  "\<exists>sz. ''blob +5'' @ CHR 0x00 # ''hello'' = ''blob'' @ CHR '' '' # sz @ CHR 0x00 # ''hello'' \<and> sz \<noteq> show_nat 5"
proof -
  let ?bytes = "''blob +5'' @ CHR 0x00 # ''hello''"
  have d: "decode ?bytes = Inr (Blob ''hello'')" and e: "encode (Blob ''hello'') \<noteq> ?bytes" by code_simp+
  from git_decode_faithful [OF d] e show ?thesis by (force simp: type_str_def git_body_def)
qed

text \<open>An oid in upper case, or with a plus sign in a pair, is read as well.\<close>
lemma oid_from_hex_lenient:
  "oid_from_hex (replicate 38 CHR ''0'' @ ''+F'') = Inr (replicate 19 (CHR 0x00) @ [CHR 0x0F])"
  by code_simp

lemma hex_pairs_encode:
  "hex_pairs (hex_encode (s @ t)) (map (\<lambda>i. 2 * i) [length s..<length (s @ t)]) = Some t"
proof (induction t arbitrary: s)
  case (Cons c t)
  have up: "[length s..<length (s @ c # t)] = length s # [length (s @ [c])..<length ((s @ [c]) @ t)]"
    by (simp add: upt_conv_Cons del: upt_Suc)
  have "hex_pairs (hex_encode (s @ c # t)) (map (\<lambda>i. 2 * i) [length (s @ [c])..<length ((s @ [c]) @ t)]) = Some t"
    using Cons.IH [of "s @ [c]"] by simp
  then show ?case
    unfolding up list.map hex_pairs.simps
    using str_get_hex [of s c t] by (simp add: from_radix16_byte del: hex_encode_simps)
qed simp

lemma oid_from_hex_encode: "length i = 20 \<Longrightarrow> oid_from_hex (hex_encode i) = Inr i"
  using hex_pairs_encode [of "[]" i] by (cases i) (auto simp: oid_from_hex_def git_hex_decode_def hex_byte_def)

definition oid_opt :: "string \<Rightarrow> git_oid option" where
  "oid_opt s = (case oid_from_hex s of Inl _ \<Rightarrow> None | Inr i \<Rightarrow> Some i)"

interpretation oid_codec: codec hex_encode oid_opt "\<lambda>i. length i = 20"
  by unfold_locales (simp add: oid_opt_def oid_from_hex_encode)

end
