(* ===== verification/PackDelta.thy ===== *)
theory PackDelta
  imports GitObject
begin

text \<open>
  The variable-length integers and the delta format of git packs, \<open>pack.rs\<close>. A cursor into the
  data (\<open>data\<close> with \<open>pos\<close>) is the rest of the data: every reader only moves forward. The masks
  and shifts of a byte are written with \<open>div\<close> and \<open>mod\<close> (\<open>c & 0x7f\<close> is \<open>low7\<close>, \<open>c & 0x80 != 0\<close>
  is \<open>more\<close>); a \<open>u64\<close> is a natural below \<open>2 ^ 64\<close>, and a left shift drops the bits beyond it, as
  \<open>checked_shl\<close> does: it only refuses a shift by 64 or more.
\<close>

unbundle bit_operations_syntax

definition MAX_OBJECT_SIZE :: nat where
  "MAX_OBJECT_SIZE = 2 ^ 34"

abbreviation low7 :: "char \<Rightarrow> nat" where
  "low7 c \<equiv> byte c mod 128"

abbreviation more :: "char \<Rightarrow> bool" where
  "more c \<equiv> 128 \<le> byte c"

definition take_byte :: "string \<Rightarrow> git_error + char \<times> string" where
  "take_byte data =
     (case data of [] \<Rightarrow> Inl (PackErr ''packfile: unexpected end of data'') | b # rest \<Rightarrow> Inr (b, rest))"

definition checked_shl :: "nat \<Rightarrow> nat \<Rightarrow> nat option" where
  "checked_shl x shift = (if shift < 64 then Some (x * 2 ^ shift mod 2 ^ 64) else None)"

section \<open>Variable-length integers\<close>

text \<open>The loop of \<open>read_entry_header\<close>, entered after a byte with its continuation bit set.\<close>

fun header_loop :: "nat \<Rightarrow> nat \<Rightarrow> string \<Rightarrow> git_error + nat \<times> string" where
  "header_loop sz shift [] = Inl (PackErr ''packfile: unexpected end of data'')"
| "header_loop sz shift (c # rest) =
     (case checked_shl (low7 c) shift of
        None \<Rightarrow> Inl (PackErr ''packfile: size varint overflow'')
      | Some x \<Rightarrow>
        let sz = sz OR x in
        if MAX_OBJECT_SIZE < sz then Inl (PackErr ''packfile: object size exceeds limit'')
        else if more c then header_loop sz (shift + 7) rest else Inr (sz, rest))"

definition read_entry_header :: "string \<Rightarrow> git_error + (nat \<times> nat) \<times> string" where
  "read_entry_header data =
     and_then (take_byte data) (\<lambda>(c, rest).
       let type_id = byte c div 16 mod 8; sz = byte c mod 16 in
       if more c then and_then (header_loop sz 4 rest) (\<lambda>(sz, rest). Inr ((type_id, sz), rest))
       else Inr ((type_id, sz), rest))"

fun ofs_loop :: "nat \<Rightarrow> string \<Rightarrow> git_error + nat \<times> string" where
  "ofs_loop off [] = Inl (PackErr ''packfile: unexpected end of data'')"
| "ofs_loop off (c # rest) =
     (case (if off + 1 < 2 ^ 64 then checked_shl (off + 1) 7 else None) of
        None \<Rightarrow> Inl (PackErr ''packfile: ofs-delta offset overflow'')
      | Some v \<Rightarrow>
        let off = v OR low7 c in
        if more c then ofs_loop off rest else Inr (off, rest))"

definition read_ofs_delta_offset :: "string \<Rightarrow> git_error + nat \<times> string" where
  "read_ofs_delta_offset data =
     and_then (take_byte data) (\<lambda>(c, rest).
       if more c then ofs_loop (low7 c) rest else Inr (low7 c, rest))"

fun delta_size_loop :: "nat \<Rightarrow> nat \<Rightarrow> string \<Rightarrow> git_error + nat \<times> string" where
  "delta_size_loop sz shift [] = Inl (PackErr ''packfile: unexpected end of data'')"
| "delta_size_loop sz shift (c # rest) =
     (case checked_shl (low7 c) shift of
        None \<Rightarrow> Inl (PackErr ''packfile: delta size varint overflow'')
      | Some x \<Rightarrow>
        let sz = sz OR x in
        if \<not> more c then Inr (sz, rest)
        else if MAX_OBJECT_SIZE < sz then Inl (PackErr ''packfile: delta size exceeds limit'')
        else delta_size_loop sz (shift + 7) rest)"

definition read_delta_size :: "string \<Rightarrow> git_error + nat \<times> string" where
  "read_delta_size data = delta_size_loop 0 0 data"

section \<open>Deltas\<close>

text \<open>
  The argument bytes of a copy: for each bit of the mask, lowest first, a byte of the stream at
  the next position of the little-endian number, or nothing.
\<close>

fun read_masked :: "bool list \<Rightarrow> nat \<Rightarrow> nat \<Rightarrow> string \<Rightarrow> git_error + nat \<times> string" where
  "read_masked [] shift acc rest = Inr (acc, rest)"
| "read_masked (b # bs) shift acc rest =
     (if b then and_then (take_byte rest) (\<lambda>(c, rest).
        read_masked bs (shift + 8) (acc OR (byte c * 2 ^ shift)) rest)
      else read_masked bs (shift + 8) acc rest)"

definition mask_bits :: "nat \<Rightarrow> nat list \<Rightarrow> bool list" where
  "mask_bits opcode is = map (\<lambda>i. odd (opcode div 2 ^ i)) is"

lemma take_byte_Inr: "take_byte data = Inr (c, rest) \<longleftrightarrow> data = c # rest"
  by (auto simp: take_byte_def split: list.splits)

lemma read_masked_length: "read_masked bs s a rest = Inr (x, rest') \<Longrightarrow> length rest' \<le> length rest"
proof (induction bs arbitrary: s a rest)
  case (Cons b bs)
  show ?case
  proof (cases b)
    case True
    then obtain c r where "rest = c # r" "read_masked bs (s + 8) (a OR (byte c * 2 ^ s)) r = Inr (x, rest')"
      using Cons.prems by (auto simp: res_simps take_byte_Inr)
    then show ?thesis using Cons.IH by fastforce
  qed (use Cons in auto)
qed simp

function delta_loop :: "string \<Rightarrow> string \<Rightarrow> string \<Rightarrow> git_error + string" where
  "delta_loop base [] out = Inr out"
| "delta_loop base (c # rest) out =
     (let opcode = byte c in
      if 128 \<le> opcode then
        (case read_masked (mask_bits opcode [0, 1, 2, 3]) 0 0 rest of
           Inl e \<Rightarrow> Inl e
         | Inr (cp_off, rest1) \<Rightarrow>
           (case read_masked (mask_bits opcode [4, 5, 6]) 0 0 rest1 of
              Inl e \<Rightarrow> Inl e
            | Inr (cp_size, rest2) \<Rightarrow>
              let cp_size = (if cp_size = 0 then 65536 else cp_size) in
              (case get_range cp_off (cp_off + cp_size) base of
                 None \<Rightarrow> Inl (PackErr ''delta: copy range out of base bounds'')
               | Some chunk \<Rightarrow> delta_loop base rest2 (out @ chunk))))
      else if opcode \<noteq> 0 then
        (case get_range 0 opcode rest of
           None \<Rightarrow> Inl (PackErr ''delta: insert runs past end of stream'')
         | Some chunk \<Rightarrow> delta_loop base (drop opcode rest) (out @ chunk))
      else Inl (PackErr ''delta: reserved opcode 0''))"
  by pat_completeness auto
termination
  by (relation "measure (\<lambda>(base, rest, out). length rest)")
     (auto dest!: read_masked_length simp: less_Suc_eq_le)

definition apply_delta :: "string \<Rightarrow> string \<Rightarrow> git_error + string" where
  "apply_delta base delta =
     and_then (read_delta_size delta) (\<lambda>(src_size, rest).
       if src_size \<noteq> length base then Inl (PackErr ''delta: source size does not match base'')
       else and_then (read_delta_size rest) (\<lambda>(tgt_size, rest).
         if MAX_OBJECT_SIZE < tgt_size then Inl (PackErr ''delta: target size exceeds limit'')
         else and_then (delta_loop base rest []) (\<lambda>out.
           if length out \<noteq> tgt_size then Inl (PackErr ''delta: reconstructed size does not match target'')
           else Inr out)))"

section \<open>The canonical integer\<close>

fun size_varint :: "nat \<Rightarrow> string" where
  "size_varint n = (if n < 128 then [char_of n] else char_of (128 + n mod 128) # size_varint (n div 128))"

declare size_varint.simps [simp del]

lemma or_high_add: "a < 2 ^ s \<Longrightarrow> a OR (b * 2 ^ s) = a + b * (2 ^ s :: nat)"
proof -
  assume a: "a < 2 ^ s"
  have "a AND (b * 2 ^ s) = 0"
  proof (rule bit_eqI)
    fix n
    have "\<not> bit a n" if "s \<le> n"
      using a that by (metis bit_take_bit_iff linorder_not_le take_bit_nat_eq_self_iff)
    then show "bit (a AND b * 2 ^ s) n = bit 0 n"
      by (auto simp: bit_and_iff bit_push_bit_iff push_bit_eq_mult [symmetric])
  qed
  then show ?thesis by (simp add: disjunctive_add_eq_or)
qed

lemma byte_char_of [simp]: "n < 256 \<Longrightarrow> byte (char_of n) = n"
  by simp

lemma checked_shl_small: "x * 2 ^ s < 2 ^ 64 \<Longrightarrow> s < 64 \<Longrightarrow> checked_shl x s = Some (x * 2 ^ s)"
  by (simp add: checked_shl_def)

lemma shift_lt_64:
  assumes "n * 2 ^ s \<le> MAX_OBJECT_SIZE" "0 < n"
  shows "s < 64"
proof (rule ccontr)
  assume "\<not> s < 64"
  then have "(2::nat) ^ 64 \<le> 2 ^ s" by (intro power_increasing) auto
  also have "\<dots> \<le> n * 2 ^ s" using assms(2) by simp
  finally show False using assms(1) by (simp add: MAX_OBJECT_SIZE_def)
qed

lemma delta_size_loop_varint:
  "sz < 2 ^ s \<Longrightarrow> sz + n * 2 ^ s \<le> MAX_OBJECT_SIZE \<Longrightarrow> 0 < n \<or> s < 64 \<Longrightarrow>
   delta_size_loop sz s (size_varint n @ rest) = Inr (sz + n * 2 ^ s, rest)"
proof (induction n arbitrary: sz s rule: size_varint.induct)
  case (1 n)
  have s64: "s < 64" using "1.prems" shift_lt_64 [of n s] by auto
  have le: "n * 2 ^ s \<le> MAX_OBJECT_SIZE" using "1.prems"(2) by simp
  have lim: "m * 2 ^ s < 2 ^ 64" if "m \<le> n" for m
  proof -
    have "m * 2 ^ s \<le> n * 2 ^ s" using that by simp
    also note le
    finally show ?thesis by (simp add: MAX_OBJECT_SIZE_def)
  qed
  show ?case
  proof (cases "n < 128")
    case True
    then show ?thesis
      using lim [of n] s64 or_high_add [OF "1.prems"(1), of n]
      by (simp add: size_varint.simps [of n] checked_shl_small)
  next
    case False
    let ?m = "n mod 128"
    have m: "?m \<le> n" "byte (char_of (128 + ?m)) = 128 + ?m" by simp_all
    have sz': "sz OR (?m * 2 ^ s) = sz + ?m * 2 ^ s" by (rule or_high_add [OF "1.prems"(1)])
    have split: "n * 2 ^ s = ?m * 2 ^ s + (n div 128) * 2 ^ (s + 7)"
    proof -
      have "n * 2 ^ s = (?m + n div 128 * 128) * 2 ^ s" by (simp add: add.commute)
      then show ?thesis by (simp only: add_mult_distrib power_add) simp
    qed
    have "sz + ?m * 2 ^ s < 2 ^ (s + 7)"
    proof -
      have "?m * 2 ^ s \<le> 127 * 2 ^ s" by (intro mult_right_mono) auto
      moreover have "(2 :: nat) ^ (s + 7) = 128 * 2 ^ s" by (simp add: power_add)
      ultimately show ?thesis using "1.prems"(1) by linarith
    qed
    moreover have "sz + ?m * 2 ^ s + (n div 128) * 2 ^ (s + 7) \<le> MAX_OBJECT_SIZE"
      using "1.prems"(2) split by simp
    moreover have "0 < n div 128" using False by simp
    ultimately have "delta_size_loop (sz + ?m * 2 ^ s) (s + 7) (size_varint (n div 128) @ rest)
        = Inr (sz + ?m * 2 ^ s + (n div 128) * 2 ^ (s + 7), rest)"
      using "1.IH" [OF False] by blast
    then show ?thesis
      using False lim [OF m(1)] s64 "1.prems"(2) split m(2)
      by (simp add: size_varint.simps [of n] checked_shl_small sz' Let_def)
  qed
qed

lemma read_delta_size_varint:
  "n \<le> MAX_OBJECT_SIZE \<Longrightarrow> read_delta_size (size_varint n @ rest) = Inr (n, rest)"
  using delta_size_loop_varint [of 0 0 n rest] by (simp add: read_delta_size_def)

section \<open>The instructions of a delta\<close>

text \<open>What a delta means: a list of copies from the base and of literal insertions.\<close>

datatype delta_op = Copy nat nat | Insert string

fun run_op :: "string \<Rightarrow> delta_op \<Rightarrow> string" where
  "run_op base (Copy off n) = slice_of off (off + n) base"
| "run_op base (Insert s) = s"

definition run_ops :: "string \<Rightarrow> delta_op list \<Rightarrow> string" where
  "run_ops base ops = concat (map (run_op base) ops)"

fun op_fits :: "string \<Rightarrow> delta_op \<Rightarrow> bool" where
  "op_fits base (Copy off n) \<longleftrightarrow> 0 < n \<and> off < 2 ^ 32 \<and> n < 2 ^ 24 \<and> off + n \<le> length base"
| "op_fits base (Insert s) \<longleftrightarrow> 0 < length s \<and> length s < 128"

text \<open>Git's encoding of an instruction: only the non-zero argument bytes are written.\<close>

fun nonzero_bytes :: "nat \<Rightarrow> nat \<Rightarrow> bool list" where
  "nonzero_bytes 0 n = []"
| "nonzero_bytes (Suc k) n = (n mod 256 \<noteq> 0) # nonzero_bytes k (n div 256)"

fun masked_bytes :: "nat \<Rightarrow> nat \<Rightarrow> string" where
  "masked_bytes 0 n = []"
| "masked_bytes (Suc k) n = (if n mod 256 \<noteq> 0 then [char_of (n mod 256)] else []) @ masked_bytes k (n div 256)"

fun bits_value :: "bool list \<Rightarrow> nat" where
  "bits_value [] = 0"
| "bits_value (b # bs) = (if b then 1 else 0) + 2 * bits_value bs"

fun enc_op :: "delta_op \<Rightarrow> string" where
  "enc_op (Copy off n) =
     char_of (128 + bits_value (nonzero_bytes 4 off @ nonzero_bytes 3 n)) # masked_bytes 4 off @ masked_bytes 3 n"
| "enc_op (Insert s) = char_of (length s) # s"

definition encode_delta :: "string \<Rightarrow> delta_op list \<Rightarrow> string" where
  "encode_delta base ops =
     size_varint (length base) @ size_varint (length (run_ops base ops)) @ concat (map enc_op ops)"

lemma read_masked_bytes:
  "acc < 2 ^ s \<Longrightarrow> n < 256 ^ k \<Longrightarrow>
   read_masked (nonzero_bytes k n) s acc (masked_bytes k n @ rest) = Inr (acc + n * 2 ^ s, rest)"
proof (induction k n arbitrary: acc s rule: masked_bytes.induct)
  case (2 k n)
  let ?m = "n mod 256"
  have lt: "n div 256 < 256 ^ k" using "2.prems"(2) by (simp add: less_mult_imp_div_less mult.commute)
  have split: "n * 2 ^ s = ?m * 2 ^ s + (n div 256) * 2 ^ (s + 8)"
  proof -
    have "n * 2 ^ s = (?m + n div 256 * 256) * 2 ^ s" by (simp add: add.commute)
    then show ?thesis by (simp only: add_mult_distrib power_add) simp
  qed
  have "?m * 2 ^ s \<le> 255 * 2 ^ s" by (intro mult_right_mono) auto
  moreover have p: "(2 :: nat) ^ (s + 8) = 256 * 2 ^ s" by (simp add: power_add)
  ultimately have "acc + ?m * 2 ^ s < 2 ^ (s + 8)" using "2.prems"(1) by linarith
  then have IH: "read_masked (nonzero_bytes k (n div 256)) (s + 8) (acc + ?m * 2 ^ s)
      (masked_bytes k (n div 256) @ rest) = Inr (acc + ?m * 2 ^ s + (n div 256) * 2 ^ (s + 8), rest)"
    using "2.IH" lt by blast
  have b: "byte (char_of ?m) = ?m" by simp
  show ?case
    using IH or_high_add [OF "2.prems"(1), of ?m] b split
    by (cases "?m = 0") (simp_all add: take_byte_def add.assoc)
qed simp

lemma length_nonzero_bytes [simp]: "length (nonzero_bytes k n) = k"
  by (induction k arbitrary: n) auto

lemma bits_value_less: "bits_value bs < 2 ^ length bs"
  by (induction bs) auto

lemma odd_bits_value: "i < length bs \<Longrightarrow> odd (bits_value bs div 2 ^ i) = bs ! i"
proof (induction bs arbitrary: i)
  case (Cons b bs)
  show ?case
  proof (cases i)
    case (Suc j)
    have "bits_value (b # bs) div 2 ^ Suc j = bits_value bs div 2 ^ j"
      by (simp add: div_mult2_eq)
    then show ?thesis using Cons Suc by simp
  qed simp
qed simp

lemma mask_bits_value:
  assumes "length bs = 7" "i < 7"
  shows "odd ((128 + bits_value bs) div 2 ^ i) = bs ! i"
proof -
  have "(128 + bits_value bs) = 2 ^ (7 - i) * 2 ^ i + bits_value bs" using assms(2)
    by (simp flip: power_add)
  moreover have "(2 ^ (7 - i) * 2 ^ i + x) div 2 ^ i = 2 ^ (7 - i) + x div 2 ^ i" for x :: nat by simp
  ultimately have "(128 + bits_value bs) div 2 ^ i = 2 ^ (7 - i) + bits_value bs div 2 ^ i" by metis
  moreover have "even (2 ^ (7 - i) :: nat)" using assms(2) by simp
  ultimately show ?thesis using odd_bits_value [of i bs] assms by simp
qed

lemma masks:
  assumes "length a = 4" "length b = 3"
  shows "mask_bits (128 + bits_value (a @ b)) [0, 1, 2, 3] = a"
    and "mask_bits (128 + bits_value (a @ b)) [4, 5, 6] = b"
proof -
  have "\<exists>a0 a1 a2 a3. a = [a0, a1, a2, a3]" "\<exists>b0 b1 b2. b = [b0, b1, b2]"
    using assms by (auto simp: length_Suc_conv numeral_eq_Suc)
  then obtain a0 a1 a2 a3 b0 b1 b2 where ab: "a = [a0, a1, a2, a3]" "b = [b0, b1, b2]" by blast
  have bit: "odd ((128 + bits_value (a @ b)) div 2 ^ i) = (a @ b) ! i" if "i < 7" for i
    using mask_bits_value [of "a @ b" i] assms that by simp
  show "mask_bits (128 + bits_value (a @ b)) [0, 1, 2, 3] = a"
    unfolding mask_bits_def list.map by (simp only: bit [of 0] bit [of 1] bit [of 2] bit [of 3]) (simp add: ab)
  show "mask_bits (128 + bits_value (a @ b)) [4, 5, 6] = b"
    unfolding mask_bits_def list.map by (simp only: bit [of 4] bit [of 5] bit [of 6]) (simp add: ab)
qed

lemma delta_loop_copy:
  assumes "op_fits base (Copy off n)"
  shows "delta_loop base (enc_op (Copy off n) @ rest) out = delta_loop base rest (out @ run_op base (Copy off n))"
proof -
  let ?a = "nonzero_bytes 4 off" and ?b = "nonzero_bytes 3 n"
  let ?op = "128 + bits_value (?a @ ?b)"
  have lt: "bits_value (?a @ ?b) < 128" using bits_value_less [of "?a @ ?b"] by simp
  have m: "mask_bits ?op [0, 1, 2, 3] = ?a" "mask_bits ?op [4, 5, 6] = ?b" by (rule masks; simp)+
  have off: "read_masked ?a 0 0 (masked_bytes 4 off @ masked_bytes 3 n @ rest) = Inr (off, masked_bytes 3 n @ rest)"
    using read_masked_bytes [of 0 0 off 4] assms by simp
  have n: "read_masked ?b 0 0 (masked_bytes 3 n @ rest) = Inr (n, rest)"
    using read_masked_bytes [of 0 0 n 3] assms by simp
  have op: "byte (char_of ?op) = ?op" using lt by simp
  have range: "get_range off (off + n) base = Some (slice_of off (off + n) base)"
    using assms by (simp add: get_range_def)
  show ?thesis
    unfolding enc_op.simps append_Cons append_assoc delta_loop.simps Let_def op m off n prod.case sum.case
    using assms range by simp
qed

lemma delta_loop_insert:
  assumes "op_fits base (Insert s)"
  shows "delta_loop base (enc_op (Insert s) @ rest) out = delta_loop base rest (out @ s)"
  using assms by (simp add: get_range_def slice_of_def)

lemma delta_loop_ops:
  "list_all (op_fits base) ops \<Longrightarrow> delta_loop base (concat (map enc_op ops)) out = Inr (out @ run_ops base ops)"
proof (induction ops arbitrary: out)
  case (Cons x ops)
  then show ?case
    by (cases x) (simp_all add: delta_loop_copy delta_loop_insert run_ops_def del: enc_op.simps op_fits.simps)
qed (simp add: run_ops_def)

text \<open>
  The grammar of a delta, written with sums and products instead of masks and shifts: a copy
  is an opcode \<open>128 + bits_value m\<close> with a byte for each set bit of \<open>m\<close>, the first four of
  them for the offset and the other three for the size, where a size of 0 stands for \<open>2 ^ 16\<close>; an
  insertion is a length below 128 with as many bytes. Nothing is said of the base here.
\<close>

fun masked_value :: "bool list \<Rightarrow> string \<Rightarrow> nat" where
  "masked_value (True # bs) (c # cs) = byte c + 256 * masked_value bs cs"
| "masked_value (False # bs) cs = 256 * masked_value bs cs"
| "masked_value _ _ = 0"

definition masked_args :: "bool list \<Rightarrow> string \<Rightarrow> nat \<Rightarrow> bool" where
  "masked_args m cs n \<longleftrightarrow> length cs = length (filter id m) \<and> n = masked_value m cs"

inductive delta_ops :: "string \<Rightarrow> delta_op list \<Rightarrow> bool" where
  delta_end: "delta_ops [] []"
| delta_copy: "byte c = 128 + bits_value (m @ k) \<Longrightarrow> length m = 4 \<Longrightarrow> length k = 3 \<Longrightarrow>
    masked_args m a off \<Longrightarrow> masked_args k b n \<Longrightarrow> delta_ops rest ops \<Longrightarrow>
    delta_ops (c # a @ b @ rest) (Copy off (if n = 0 then 65536 else n) # ops)"
| delta_insert: "byte c = length s \<Longrightarrow> 0 < length s \<Longrightarrow> length s < 128 \<Longrightarrow> delta_ops rest ops \<Longrightarrow>
    delta_ops (c # s @ rest) (Insert s # ops)"

inductive_cases delta_ops_NilE: "delta_ops [] ops"
inductive_cases delta_ops_ConsE: "delta_ops (c # rest) ops"

fun copy_in :: "string \<Rightarrow> delta_op \<Rightarrow> bool" where
  "copy_in base (Copy off n) \<longleftrightarrow> off + n \<le> length base"
| "copy_in base (Insert s) \<longleftrightarrow> True"

lemma byte_bound: "byte c < 256"
  by simp

lemma read_masked_iff:
  "acc < 2 ^ s \<Longrightarrow> read_masked m s acc rest = Inr (x, rest') \<longleftrightarrow>
     (\<exists>cs n. rest = cs @ rest' \<and> masked_args m cs n \<and> x = acc + n * 2 ^ s)"
proof (induction m arbitrary: s acc rest)
  case (Cons b m)
  have p: "(2 :: nat) ^ (s + 8) = 256 * 2 ^ s" by (simp add: power_add)
  show ?case
  proof (cases b)
    case False
    have "acc < 2 ^ (s + 8)" using Cons.prems p by simp
    from Cons.IH [OF this, of rest] show ?thesis
      using False p by (auto simp: masked_args_def algebra_simps)
  next
    case True
    have lt: "acc + byte c * 2 ^ s < 2 ^ (s + 8)" for c
    proof -
      have "byte c \<le> 255" using byte_bound [of c] by linarith
      then have "byte c * 2 ^ s \<le> 255 * 2 ^ s" by (rule mult_right_mono) simp
      then show ?thesis using Cons.prems p by linarith
    qed
    show ?thesis
    proof (cases rest)
      case Nil
      then show ?thesis using True by (auto simp: take_byte_def masked_args_def)
    next
      case (Cons c r)
      have "read_masked (b # m) s acc rest = read_masked m (s + 8) (acc + byte c * 2 ^ s) r"
        using True or_high_add [OF Cons.prems, of "byte c"] unfolding Cons by (simp add: take_byte_def)
      also have "\<dots> = Inr (x, rest') \<longleftrightarrow>
          (\<exists>cs n. r = cs @ rest' \<and> masked_args m cs n \<and> x = acc + byte c * 2 ^ s + n * 2 ^ (s + 8))"
        by (rule Cons.IH [OF lt])
      also have "\<dots> \<longleftrightarrow> (\<exists>cs n. rest = cs @ rest' \<and> masked_args (b # m) cs n \<and> x = acc + n * 2 ^ s)"
      proof
        assume "\<exists>cs n. r = cs @ rest' \<and> masked_args m cs n \<and> x = acc + byte c * 2 ^ s + n * 2 ^ (s + 8)"
        then obtain cs n where "r = cs @ rest'" "masked_args m cs n" "x = acc + byte c * 2 ^ s + n * 2 ^ (s + 8)" by blast
        then show "\<exists>cs n. rest = cs @ rest' \<and> masked_args (b # m) cs n \<and> x = acc + n * 2 ^ s"
          using True Cons p
          by (intro exI [of _ "c # cs"] exI [of _ "byte c + 256 * n"]) (auto simp: masked_args_def algebra_simps)
      next
        assume "\<exists>cs n. rest = cs @ rest' \<and> masked_args (b # m) cs n \<and> x = acc + n * 2 ^ s"
        then obtain cs n where cs: "rest = cs @ rest'" "masked_args (b # m) cs n" "x = acc + n * 2 ^ s" by blast
        then obtain cs' where "cs = c # cs'" "length cs' = length (filter id m)"
          using True Cons by (cases cs) (auto simp: masked_args_def)
        then show "\<exists>cs n. r = cs @ rest' \<and> masked_args m cs n \<and> x = acc + byte c * 2 ^ s + n * 2 ^ (s + 8)"
          using cs True Cons p
          by (intro exI [of _ cs'] exI [of _ "masked_value m cs'"]) (auto simp: masked_args_def algebra_simps)
      qed
      finally show ?thesis .
    qed
  qed
qed (auto simp: masked_args_def)

lemma bits_value_range: "bits_value (map (\<lambda>i. odd (n div 2 ^ i)) [0..<k]) = n mod 2 ^ k"
proof (induction k arbitrary: n)
  case (Suc k)
  have "bits_value (map (\<lambda>i. odd (n div 2 ^ i)) [0..<Suc k])
      = n mod 2 + 2 * bits_value (map (\<lambda>i. odd (n div 2 ^ Suc i)) [0..<k])"
    by (simp add: upt_conv_Cons map_Suc_upt [symmetric] odd_iff_mod_2_eq_one comp_def del: upt_Suc)
  also have "map (\<lambda>i. odd (n div 2 ^ Suc i)) [0..<k] = map (\<lambda>i. odd (n div 2 div 2 ^ i)) [0..<k]"
    by (simp add: div_mult2_eq)
  also have "n mod 2 + 2 * bits_value (map (\<lambda>i. odd (n div 2 div 2 ^ i)) [0..<k]) = n mod 2 + 2 * (n div 2 mod 2 ^ k)"
    unfolding Suc.IH ..
  also have "\<dots> = n mod 2 ^ Suc k" by (simp add: mod_mult2_eq)
  finally show ?case .
qed simp

lemma opcode_bits:
  assumes "128 \<le> op" "op < 256"
  shows "op = 128 + bits_value (mask_bits op [0, 1, 2, 3] @ mask_bits op [4, 5, 6])"
proof -
  have "mask_bits op [0, 1, 2, 3] @ mask_bits op [4, 5, 6] = map (\<lambda>i. odd (op div 2 ^ i)) [0..<7]"
    by (simp add: mask_bits_def upt_conv_Cons)
  then have "bits_value (mask_bits op [0, 1, 2, 3] @ mask_bits op [4, 5, 6]) = op mod 2 ^ 7"
    by (simp only: bits_value_range)
  moreover have "op mod 2 ^ 7 = op - 128"
    using assms le_mod_geq [of "2 ^ 7" op] by simp
  ultimately show ?thesis using assms by simp
qed

text \<open>A copy's opcode and arguments, as the loop reads them.\<close>

lemma copy_spelled:
  assumes "128 \<le> byte c" "read_masked (mask_bits (byte c) [0, 1, 2, 3]) 0 0 rest = Inr (off, rest1)"
    "read_masked (mask_bits (byte c) [4, 5, 6]) 0 0 rest1 = Inr (n, rest2)"
  obtains m k a b where "byte c = 128 + bits_value (m @ k)" "length m = 4" "length k = 3" "masked_args m a off"
    "masked_args k b n" "rest = a @ b @ rest2"
proof -
  obtain a b where ab: "rest = a @ rest1" "masked_args (mask_bits (byte c) [0, 1, 2, 3]) a off"
    "rest1 = b @ rest2" "masked_args (mask_bits (byte c) [4, 5, 6]) b n"
    using assms(2,3) by (auto simp: read_masked_iff)
  show thesis
    by (rule that [OF opcode_bits [OF assms(1) byte_bound] _ _ ab(2,4)]) (simp_all add: mask_bits_def ab(1,3))
qed

lemma copy_reads:
  assumes "byte c = 128 + bits_value (m @ k)" "length m = 4" "length k = 3" "masked_args m a off" "masked_args k b n"
  shows "read_masked (mask_bits (byte c) [0, 1, 2, 3]) 0 0 (a @ b @ rest) = Inr (off, b @ rest)"
    and "read_masked (mask_bits (byte c) [4, 5, 6]) 0 0 (b @ rest) = Inr (n, rest)"
proof -
  have mk: "mask_bits (byte c) [0, 1, 2, 3] = m" "mask_bits (byte c) [4, 5, 6] = k"
    unfolding assms(1) by (rule masks [OF assms(2,3)])+
  show "read_masked (mask_bits (byte c) [0, 1, 2, 3]) 0 0 (a @ b @ rest) = Inr (off, b @ rest)"
    "read_masked (mask_bits (byte c) [4, 5, 6]) 0 0 (b @ rest) = Inr (n, rest)"
    unfolding mk using assms(4,5) by (auto simp: read_masked_iff)
qed

lemma delta_loop_iff:
  "delta_loop base rest out = Inr res \<longleftrightarrow>
     (\<exists>ops. delta_ops rest ops \<and> list_all (copy_in base) ops \<and> res = out @ run_ops base ops)"
proof
  assume "delta_loop base rest out = Inr res"
  then show "\<exists>ops. delta_ops rest ops \<and> list_all (copy_in base) ops \<and> res = out @ run_ops base ops"
  proof (induction base rest out rule: delta_loop.induct)
    case (1 base out)
    then show ?case by (intro exI [of _ "[]"]) (simp add: run_ops_def delta_end)
  next
    case (2 base c rest out)
    consider (copy) cp_off rest1 cp_size rest2 where "128 \<le> byte c"
        "read_masked (mask_bits (byte c) [0, 1, 2, 3]) 0 0 rest = Inr (cp_off, rest1)"
        "read_masked (mask_bits (byte c) [4, 5, 6]) 0 0 rest1 = Inr (cp_size, rest2)"
      | (insert) "\<not> 128 \<le> byte c" "byte c \<noteq> 0" "byte c \<le> length rest"
      using "2.prems" by (force simp: Let_def get_range_def split: sum.splits if_splits prod.splits)
    then show ?case
    proof cases
      case copy
      let ?n = "if cp_size = 0 then 65536 else cp_size"
      have fit: "cp_off + ?n \<le> length base"
        and d: "delta_loop base rest2 (out @ slice_of cp_off (cp_off + ?n) base) = Inr res"
        using "2.prems" copy by (auto simp: Let_def get_range_def split: if_split_asm)
      then obtain ops where ops: "delta_ops rest2 ops" "list_all (copy_in base) ops"
        "res = (out @ slice_of cp_off (cp_off + ?n) base) @ run_ops base ops"
        using "2.IH"(1) [OF refl copy(1,2) refl copy(3) refl refl, of "slice_of cp_off (cp_off + ?n) base"]
        by (auto simp: get_range_def)
      obtain m k a b where r: "byte c = 128 + bits_value (m @ k)" "length m = 4" "length k = 3"
        "masked_args m a cp_off" "masked_args k b cp_size" "rest = a @ b @ rest2"
        by (rule copy_spelled [OF copy])
      have "delta_ops (c # rest) (Copy cp_off ?n # ops)"
        using delta_copy [OF r(1-5) ops(1)] unfolding r(6) by simp
      then show ?thesis using fit ops by (intro exI [of _ "Copy cp_off ?n # ops"]) (auto simp: run_ops_def)
    next
      case insert
      then have d: "delta_loop base (drop (byte c) rest) (out @ take (byte c) rest) = Inr res"
        using "2.prems" by (simp add: get_range_def slice_of_def Let_def)
      then obtain ops where ops: "delta_ops (drop (byte c) rest) ops" "list_all (copy_in base) ops"
        "res = (out @ take (byte c) rest) @ run_ops base ops"
        using "2.IH"(2) [OF refl insert(1,2), of "take (byte c) rest"] insert(3)
        by (auto simp: get_range_def slice_of_def)
      have "delta_ops (c # rest) (Insert (take (byte c) rest) # ops)"
        using delta_insert [OF _ _ _ ops(1), of c "take (byte c) rest"] insert by simp
      then show ?thesis using ops by (intro exI [of _ "Insert (take (byte c) rest) # ops"]) (auto simp: run_ops_def)
    qed
  qed
next
  assume "\<exists>ops. delta_ops rest ops \<and> list_all (copy_in base) ops \<and> res = out @ run_ops base ops"
  then obtain ops where "delta_ops rest ops" "list_all (copy_in base) ops" "res = out @ run_ops base ops" by blast
  then show "delta_loop base rest out = Inr res"
  proof (induction rest ops arbitrary: out rule: delta_ops.induct)
    case (delta_copy c m k a off b n rest ops)
    let ?n = "if n = 0 then 65536 else n"
    have c: "128 \<le> byte c" using delta_copy(1) by simp
    note r = copy_reads [OF delta_copy(1-5), of rest]
    have "get_range off (off + ?n) base = Some (slice_of off (off + ?n) base)"
      using delta_copy.prems(1) by (auto simp: get_range_def)
    then have "delta_loop base (c # a @ b @ rest) out = delta_loop base rest (out @ slice_of off (off + ?n) base)"
      using c by (simp add: r Let_def del: One_nat_def)
    also have "\<dots> = Inr res"
      by (rule delta_copy.IH) (use delta_copy.prems in \<open>simp_all add: run_ops_def\<close>)
    finally show ?case .
  next
    case (delta_insert c s rest ops)
    then have "delta_loop base (c # s @ rest) out = delta_loop base rest (out @ s)"
      by (simp add: get_range_def slice_of_def)
    also have "\<dots> = Inr res"
      by (rule delta_insert.IH) (use delta_insert.prems in \<open>simp_all add: run_ops_def\<close>)
    finally show ?case .
  qed (simp add: run_ops_def)
qed

lemma delta_ops_unique: "delta_ops rest ops \<Longrightarrow> delta_ops rest ops' \<Longrightarrow> ops' = ops"
proof (induction rest ops arbitrary: ops' rule: delta_ops.induct)
  case delta_end
  then show ?case by (rule delta_ops_NilE)
next
  case (delta_copy c m k a off b n rest ops)
  have c: "128 \<le> byte c" using delta_copy(1) by simp
  have mk: "mask_bits (byte c) [0, 1, 2, 3] = m" "mask_bits (byte c) [4, 5, 6] = k"
    unfolding delta_copy(1) by (rule masks [OF delta_copy(2,3)])+
  from delta_copy.prems show ?case
  proof (rule delta_ops_ConsE)
    fix m' k' a' off' b' n' rest' ops2
    assume o: "ops' = Copy off' (if n' = 0 then 65536 else n') # ops2" "a @ b @ rest = a' @ b' @ rest'"
      "byte c = 128 + bits_value (m' @ k')" "length m' = 4" "length k' = 3"
      "masked_args m' a' off'" "masked_args k' b' n'" "delta_ops rest' ops2"
    have "m' = m" "k' = k" using masks [OF o(4,5)] mk unfolding o(3) by metis+
    then have "a' = a" "b' = b" "rest' = rest" "off' = off" "n' = n"
      using o(2,6,7) delta_copy(4,5) by (auto simp: masked_args_def)
    then show ?case using o(1,8) delta_copy.IH by simp
  next
    fix s' :: string
    assume "byte c = length s'" "length s' < 128"
    then show ?case using c by linarith
  qed
next
  case (delta_insert c s rest ops)
  from delta_insert.prems show ?case
  proof (rule delta_ops_ConsE)
    fix s' rest' ops2
    assume o: "ops' = Insert s' # ops2" "s @ rest = s' @ rest'" "byte c = length s'" "delta_ops rest' ops2"
    have "s = s' \<and> rest = rest'" using o(2,3) delta_insert(1) append_eq_append_conv [of s s'] by metis
    then show ?case using o(1,4) delta_insert.IH by blast
  next
    fix m k :: "bool list"
    assume "byte c = 128 + bits_value (m @ k)"
    then show ?case using delta_insert(1,3) by linarith
  qed
qed

lemma delta_size_loop_header:
  "delta_size_loop sz s data = Inr (x, rest) \<Longrightarrow> x \<le> MAX_OBJECT_SIZE \<Longrightarrow> header_loop sz s data = Inr (x, rest)"
  by (induction sz s data rule: delta_size_loop.induct) (auto simp: Let_def split: option.splits if_splits)

text \<open>Git's encoding of an entry header and of the offset of an ofs-delta.\<close>

definition header_varint :: "nat \<times> nat \<Rightarrow> string" where
  "header_varint = (\<lambda>(ty, n).
     if n < 16 then [char_of (16 * ty + n)] else char_of (128 + 16 * ty + n mod 16) # size_varint (n div 16))"

lemma read_entry_header_varint:
  assumes "ty < 8" "n \<le> MAX_OBJECT_SIZE"
  shows "read_entry_header (header_varint (ty, n) @ rest) = Inr ((ty, n), rest)"
proof (cases "n < 16")
  case True
  then have "byte (char_of (16 * ty + n)) = 16 * ty + n" using assms by simp
  then show ?thesis using True assms(1)
    by (simp add: read_entry_header_def header_varint_def take_byte_def Let_def)
next
  case False
  have b: "byte (char_of (128 + 16 * ty + n mod 16)) = 128 + 16 * ty + n mod 16"
  proof (rule byte_char_of)
    have "n mod 16 < 16" by simp
    then show "128 + 16 * ty + n mod 16 < 256" using assms(1) by linarith
  qed
  have e: "(128 + 16 * ty + n mod 16) div 16 mod 8 = ty" "(128 + 16 * ty + n mod 16) mod 16 = n mod 16"
  proof -
    have sum: "128 + 16 * ty + n mod 16 = n mod 16 + 16 * (8 + ty)" by simp
    show "(128 + 16 * ty + n mod 16) mod 16 = n mod 16" unfolding sum by (simp only: mod_mult_self2 mod_mod_trivial)
    have "(n mod 16 + 16 * (8 + ty)) div 16 = 8 + ty" by (subst div_mult_self2) simp_all
    then show "(128 + 16 * ty + n mod 16) div 16 mod 8 = ty" unfolding sum using assms(1) by simp
  qed
  have n: "n mod 16 + n div 16 * 2 ^ 4 = n" by simp
  have "delta_size_loop (n mod 16) 4 (size_varint (n div 16) @ rest) = Inr (n mod 16 + n div 16 * 2 ^ 4, rest)"
    using assms(2) n by (intro delta_size_loop_varint) simp_all
  then have "header_loop (n mod 16) 4 (size_varint (n div 16) @ rest) = Inr (n, rest)"
    using delta_size_loop_header assms(2) unfolding n by blast
  then show ?thesis using False e
    by (simp add: read_entry_header_def header_varint_def take_byte_def Let_def b)
qed

fun ofs_high :: "nat \<Rightarrow> string" where
  "ofs_high n = (if n = 0 then [] else ofs_high ((n - 1) div 128) @ [char_of (128 + (n - 1) mod 128)])"

declare ofs_high.simps [simp del]

definition ofs_varint :: "nat \<Rightarrow> string" where
  "ofs_varint n = ofs_high (n div 128) @ [char_of (n mod 128)]"

lemma or_low: "b < 128 \<Longrightarrow> (k * 128) OR b = k * 128 + (b :: nat)"
  using or_high_add [of b 7 k] by (simp add: or.commute add.commute)

lemma read_ofs_high:
  "0 < n \<Longrightarrow> n * 128 < 2 ^ 64 \<Longrightarrow> read_ofs_delta_offset (ofs_high n @ rest) = ofs_loop (n - 1) rest"
proof (induction n arbitrary: rest rule: ofs_high.induct)
  case (1 n)
  let ?k = "(n - 1) div 128" and ?c = "char_of (128 + (n - 1) mod 128)"
  have c: "byte ?c = 128 + (n - 1) mod 128" by simp
  have n: "?k * 128 + (n - 1) mod 128 = n - 1" by simp
  show ?case
  proof (cases "?k = 0")
    case True
    then have "ofs_high n = [?c]" "(n - 1) mod 128 = n - 1" using "1.prems" by (simp_all add: ofs_high.simps [of n] ofs_high.simps [of 0])
    then show ?thesis using c by (simp add: read_ofs_delta_offset_def take_byte_def)
  next
    case False
    have k: "?k * 128 < 2 ^ 64" using n "1.prems"(2) by linarith
    have "ofs_high n @ rest = ofs_high ?k @ ?c # rest" using "1.prems"(1) by (simp add: ofs_high.simps [of n])
    then have "read_ofs_delta_offset (ofs_high n @ rest) = ofs_loop (?k - 1) (?c # rest)"
      using "1.IH" "1.prems"(1) False k by simp
    also have "\<dots> = ofs_loop (n - 1) rest"
    proof -
      have "?k - 1 + 1 = ?k" using False by simp
      moreover have "checked_shl ?k 7 = Some (?k * 128)" using k by (simp add: checked_shl_def)
      moreover have "(?k * 128) OR (128 + (n - 1) mod 128) mod 128 = n - 1" using or_low [of "(n - 1) mod 128" ?k] n by simp
      ultimately show ?thesis using k c False by (simp add: Let_def)
    qed
    finally show ?thesis .
  qed
qed

lemma read_ofs_varint:
  assumes "n < 2 ^ 64"
  shows "read_ofs_delta_offset (ofs_varint n @ rest) = Inr (n, rest)"
proof (cases "n div 128 = 0")
  case True
  then show ?thesis
    by (auto simp: ofs_varint_def ofs_high.simps [of 0] read_ofs_delta_offset_def take_byte_def div_eq_0_iff)
next
  case False
  have k: "n div 128 * 128 < 2 ^ 64" using assms div_times_less_eq_dividend [of n 128] by linarith
  then have "checked_shl (n div 128) 7 = Some (n div 128 * 128)" by (simp add: checked_shl_def)
  moreover have "(n div 128 * 128) OR n mod 128 = n" using or_low [of "n mod 128" "n div 128"] by simp
  moreover have "\<not> 128 \<le> n mod 128" by (simp add: not_le)
  ultimately have "ofs_loop (n div 128 - 1) (char_of (n mod 128) # rest) = Inr (n, rest)"
    using False k by (simp add: Let_def)
  then show ?thesis using read_ofs_high [of "n div 128"] False k by (simp add: ofs_varint_def)
qed

definition delta_size_opt :: "string \<Rightarrow> (nat \<times> string) option" where
  "delta_size_opt s = (case read_delta_size s of Inl _ \<Rightarrow> None | Inr r \<Rightarrow> Some r)"

definition header_opt :: "string \<Rightarrow> ((nat \<times> nat) \<times> string) option" where
  "header_opt s = (case read_entry_header s of Inl _ \<Rightarrow> None | Inr r \<Rightarrow> Some r)"

definition ofs_opt :: "string \<Rightarrow> (nat \<times> string) option" where
  "ofs_opt s = (case read_ofs_delta_offset s of Inl _ \<Rightarrow> None | Inr r \<Rightarrow> Some r)"

interpretation size_codec: stream_codec size_varint delta_size_opt "\<lambda>n. n \<le> MAX_OBJECT_SIZE"
  by unfold_locales (simp add: delta_size_opt_def read_delta_size_varint)

interpretation header_codec: stream_codec header_varint header_opt "\<lambda>(ty, n). ty < 8 \<and> n \<le> MAX_OBJECT_SIZE"
  by unfold_locales (auto simp: header_opt_def read_entry_header_varint)

interpretation ofs_codec: stream_codec ofs_varint ofs_opt "\<lambda>n. n < 2 ^ 64"
  by unfold_locales (simp add: ofs_opt_def read_ofs_varint)

section \<open>Properties\<close>

text \<open>The three variable-length integers of a pack round trip, from every position of a stream:
  the sizes of deltas and of entries up to the limit and the offsets of ofs-deltas over the whole
  range of a \<open>u64\<close> are read back as git writes them, and the reader stops right behind.\<close>
theorem pack_varints_roundtrip:
  "(n \<le> MAX_OBJECT_SIZE \<longrightarrow> read_delta_size (size_varint n @ rest) = Inr (n, rest)) \<and>
   (ty < 8 \<and> n \<le> MAX_OBJECT_SIZE \<longrightarrow>
     read_entry_header (header_varint (ty, n) @ rest) = Inr ((ty, n), rest)) \<and>
   (n < 2 ^ 64 \<longrightarrow> read_ofs_delta_offset (ofs_varint n @ rest) = Inr (n, rest))"
  using read_delta_size_varint read_entry_header_varint read_ofs_varint by blast

lemma pack_varints_roundtrip_witness:
  "read_ofs_delta_offset (ofs_varint 300 @ ''x'') = Inr (300, ''x'') \<and>
   read_entry_header (header_varint (3, 300) @ ''x'') = Inr ((3, 300), ''x'')"
  using pack_varints_roundtrip [of 300 "''x''" 3] by (simp add: MAX_OBJECT_SIZE_def)

text \<open>C24: Deltas: applying the encoding of a list of copies and insertions gives what the list means,
  for every list whose copies lie inside the base.\<close>
theorem delta_roundtrip:
  assumes "list_all (op_fits base) ops" "length base \<le> MAX_OBJECT_SIZE"
    "length (run_ops base ops) \<le> MAX_OBJECT_SIZE"
  shows "apply_delta base (encode_delta base ops) = Inr (run_ops base ops)"
  using assms
  by (simp add: apply_delta_def encode_delta_def read_delta_size_varint delta_loop_ops)

lemma delta_roundtrip_witness:
  "apply_delta ''hello world'' (encode_delta ''hello world'' [Copy 6 5, Insert '' and '', Copy 0 5])
     = Inr ''world and hello''"
proof -
  have "list_all (op_fits ''hello world'') [Copy 6 5, Insert '' and '', Copy 0 5]" by simp
  moreover have "run_ops ''hello world'' [Copy 6 5, Insert '' and '', Copy 0 5] = ''world and hello''" by code_simp
  ultimately show ?thesis
    using delta_roundtrip [of "''hello world''" "[Copy 6 5, Insert '' and '', Copy 0 5]"]
    by (simp add: MAX_OBJECT_SIZE_def)
qed

text \<open>C25: A hostile delta is harmless, exactly: whatever the bytes, a delta is accepted with a result
  precisely when it declares the size of its base and of the result, the result stays within the
  size limit, and the bytes behind the two sizes are a sequence of instructions (which is then the
  only one that they spell) whose copies all lie inside the base and that together give the result.
  Every other delta, one with a copy beyond the base, a cut-off insertion, the reserved opcode or a
  wrong size, is an error.\<close>
theorem delta_accepted_bounds:
  "apply_delta base delta = Inr out \<longleftrightarrow>
    (\<exists>sizes body ops. read_delta_size delta = Inr (length base, sizes) \<and>
      read_delta_size sizes = Inr (length out, body) \<and> length out \<le> MAX_OBJECT_SIZE \<and>
      {ops'. delta_ops body ops'} = {ops} \<and> list_all (copy_in base) ops \<and> out = run_ops base ops)"
proof
  assume "apply_delta base delta = Inr out"
  then obtain sizes body where a: "read_delta_size delta = Inr (length base, sizes)"
    "read_delta_size sizes = Inr (length out, body)" "length out \<le> MAX_OBJECT_SIZE" "delta_loop base body [] = Inr out"
    by (auto simp: apply_delta_def res_simps split: if_splits)
  then obtain ops where "delta_ops body ops" "list_all (copy_in base) ops" "out = run_ops base ops"
    unfolding delta_loop_iff by auto
  moreover have "{ops'. delta_ops body ops'} = {ops}" using calculation(1) delta_ops_unique by blast
  ultimately show "\<exists>sizes body ops. read_delta_size delta = Inr (length base, sizes) \<and>
      read_delta_size sizes = Inr (length out, body) \<and> length out \<le> MAX_OBJECT_SIZE \<and>
      {ops'. delta_ops body ops'} = {ops} \<and> list_all (copy_in base) ops \<and> out = run_ops base ops"
    using a(1-3) by blast
next
  assume "\<exists>sizes body ops. read_delta_size delta = Inr (length base, sizes) \<and>
      read_delta_size sizes = Inr (length out, body) \<and> length out \<le> MAX_OBJECT_SIZE \<and>
      {ops'. delta_ops body ops'} = {ops} \<and> list_all (copy_in base) ops \<and> out = run_ops base ops"
  then obtain sizes body ops where a: "read_delta_size delta = Inr (length base, sizes)"
    "read_delta_size sizes = Inr (length out, body)" "length out \<le> MAX_OBJECT_SIZE"
    "delta_ops body ops" "list_all (copy_in base) ops" "out = run_ops base ops" by blast
  have "delta_loop base body [] = Inr out" unfolding delta_loop_iff using a(4-6) by auto
  then show "apply_delta base delta = Inr out" using a(1-3) by (simp add: apply_delta_def)
qed

text \<open>Accepted and refused: a copy of bytes 1 to 5 of a base of 5 bytes, and one that runs past it.\<close>

lemma delta_bounds_example:
  "apply_delta ''hello'' [CHR 0x05, CHR 0x04, CHR 0x91, CHR 0x01, CHR 0x04] = Inr ''ello''"
  "apply_delta ''hello'' [CHR 0x05, CHR 0x05, CHR 0x91, CHR 0x01, CHR 0x05]
     = Inl (PackErr ''delta: copy range out of base bounds'')"
  by code_simp+

text \<open>
  \<open>checked_shl\<close> does not see the bits that it drops: a declared size of \<open>2 ^ 64\<close> is read as 0,
  and an ofs-delta offset beyond a \<open>u64\<close> is read modulo \<open>2 ^ 64\<close>, with no overflow error.
\<close>
lemma varint_overflow_unseen:
  "header_loop 0 4 (replicate 8 (CHR 0x80) @ [CHR 0x10]) = Inr (0, [])"
  "read_ofs_delta_offset (replicate 10 (CHR 0xFF) @ [CHR 0x7F]) = Inr (9295997013522923647, [])"
  by code_simp+

end
