(* ===== verification/PackFile.thy ===== *)
theory PackFile
  imports PackDelta
begin

text \<open>
  Pack files and their indices, \<open>pack.rs\<close>: the index tables, the entries, the resolution of delta
  chains with its memo and its depth limit, \<open>read_pack_detailed\<close> on the bytes of the two files and
  \<open>parse_pack_bytes\<close> on a received pack. zlib is a parameter: \<open>inflate\<close> answers the output of
  the stream at the start of its argument and the number of bytes that it consumed, or the text of
  an error. A \<open>HashMap\<close> is a map; offsets are naturals (\<open>usize\<close> and \<open>u64\<close> have the same width).
\<close>

type_synonym inflater = "string \<Rightarrow> string + string \<times> nat"

abbreviation (input) OBJ_COMMIT :: nat where "OBJ_COMMIT \<equiv> 1"
abbreviation (input) OBJ_TREE :: nat where "OBJ_TREE \<equiv> 2"
abbreviation (input) OBJ_BLOB :: nat where "OBJ_BLOB \<equiv> 3"
abbreviation (input) OBJ_TAG :: nat where "OBJ_TAG \<equiv> 4"
abbreviation (input) OBJ_OFS_DELTA :: nat where "OBJ_OFS_DELTA \<equiv> 6"
abbreviation (input) OBJ_REF_DELTA :: nat where "OBJ_REF_DELTA \<equiv> 7"

definition MAX_DELTA_DEPTH :: nat where
  "MAX_DELTA_DEPTH = 200"

definition IDX_MAGIC :: string where
  "IDX_MAGIC = [CHR 0xFF, CHR 0x74, CHR 0x4F, CHR 0x63]"

definition PACK_MAGIC :: string where
  "PACK_MAGIC = ''PACK''"

section \<open>Numbers of the index\<close>

definition be_value :: "string \<Rightarrow> nat" where
  "be_value bs = foldl (\<lambda>n b. 256 * n + byte b) 0 bs"

definition read_be_u32 :: "string \<Rightarrow> nat \<Rightarrow> git_error + nat" where
  "read_be_u32 data at =
     (if usize_limit \<le> at + 4 then Inl (PackErr ''read past end (u32)'')
      else (case get_range at (at + 4) data of
          None \<Rightarrow> Inl (PackErr ''read past end (u32)'')
        | Some b \<Rightarrow> Inr (be_value b)))"

definition read_be_u64 :: "string \<Rightarrow> nat \<Rightarrow> git_error + nat" where
  "read_be_u64 data at =
     (if usize_limit \<le> at + 8 then Inl (PackErr ''read past end (u64)'')
      else (case get_range at (at + 8) data of
          None \<Rightarrow> Inl (PackErr ''read past end (u64)'')
        | Some b \<Rightarrow> Inr (be_value b)))"

definition checked :: "nat \<Rightarrow> git_error + nat" where
  "checked n = (if n < usize_limit then Inr n else Inl (PackErr ''pack index: size arithmetic overflow''))"

text \<open>The loop over the entries \<open>i, i + 1, ...\<close> of the index, \<open>n\<close> of them.\<close>

fun idx_entries ::
  "string \<Rightarrow> nat \<Rightarrow> nat \<Rightarrow> nat \<Rightarrow> nat \<Rightarrow> nat \<Rightarrow> git_error + (git_oid \<times> nat) list" where
  "idx_entries bytes names_start offsets_start large_start i 0 = Inr []"
| "idx_entries bytes names_start offsets_start large_start i (Suc n) =
     (let name_at = names_start + i * 20 in
      and_then (ok_or (PackErr ''pack index: truncated (name table)'') (get_range name_at (name_at + 20) bytes)) (\<lambda>oid.
      and_then (read_be_u32 bytes (offsets_start + i * 4)) (\<lambda>raw_offset.
      and_then (if 2 ^ 31 \<le> raw_offset
        then and_then (checked ((raw_offset - 2 ^ 31) * 8)) (\<lambda>d.
             and_then (checked (large_start + d)) (\<lambda>at. read_be_u64 bytes at))
        else Inr raw_offset) (\<lambda>offset.
      and_then (idx_entries bytes names_start offsets_start large_start (Suc i) n) (\<lambda>es.
        Inr ((oid, offset) # es))))))"

definition parse_idx :: "string \<Rightarrow> git_error + (git_oid \<times> nat) list" where
  "parse_idx bytes =
     (if length bytes < 8 \<or> take 4 bytes \<noteq> IDX_MAGIC then Inl (PackErr ''pack index: bad magic (not v2)'')
      else and_then (read_be_u32 bytes 4) (\<lambda>version.
        if version \<noteq> 2 then Inl (PackErr ''pack index: unsupported version (expected 2)'')
        else let fanout_start = 8 in
          and_then (read_be_u32 bytes (fanout_start + 255 * 4)) (\<lambda>count.
          let names_start = fanout_start + 256 * 4 in
          and_then (checked (count * 20)) (\<lambda>d. and_then (checked (names_start + d)) (\<lambda>crcs_start.
          and_then (checked (count * 4)) (\<lambda>d. and_then (checked (crcs_start + d)) (\<lambda>offsets_start.
          and_then (checked (count * 4)) (\<lambda>d. and_then (checked (offsets_start + d)) (\<lambda>large_start.
            if length bytes < large_start then Inl (PackErr ''pack index: truncated (offset table)'')
            else idx_entries bytes names_start offsets_start large_start 0 count)))))))))"

definition parse_pack_header :: "string \<Rightarrow> git_error + nat" where
  "parse_pack_header bytes =
     (if length bytes < 12 \<or> take 4 bytes \<noteq> PACK_MAGIC then Inl (PackErr ''packfile: bad magic'')
      else and_then (read_be_u32 bytes 4) (\<lambda>version.
        if version \<noteq> 2 \<and> version \<noteq> 3 then Inl (PackErr ''packfile: unsupported version (expected 2 or 3)'')
        else read_be_u32 bytes 8))"

section \<open>Entries\<close>

datatype raw_entry =
    BaseEntry nat string
  | OfsDelta nat string
  | RefDelta git_oid string

definition inflate_at :: "inflater \<Rightarrow> string \<Rightarrow> git_error + string" where
  "inflate_at inflate rest = (case inflate rest of Inl e \<Rightarrow> Inl (Zlib e) | Inr (out, _) \<Rightarrow> Inr out)"

definition inflate_consumed :: "inflater \<Rightarrow> string \<Rightarrow> git_error + nat" where
  "inflate_consumed inflate rest = (case inflate rest of Inl e \<Rightarrow> Inl (Zlib e) | Inr (_, n) \<Rightarrow> Inr n)"

definition take_oid :: "string \<Rightarrow> git_error + git_oid \<times> string" where
  "take_oid rest =
     and_then (ok_or (PackErr ''packfile: truncated ref-delta base oid'') (get_range 0 20 rest)) (\<lambda>i.
       Inr (i, drop 20 rest))"

definition peek_type :: "string \<Rightarrow> nat \<Rightarrow> git_error + nat" where
  "peek_type pack offset = and_then (read_entry_header (drop offset pack)) (\<lambda>((type_id, _), _). Inr type_id)"

definition peek_ref_base :: "string \<Rightarrow> nat \<Rightarrow> git_error + git_oid option" where
  "peek_ref_base pack offset =
     and_then (read_entry_header (drop offset pack)) (\<lambda>((type_id, _), rest).
       if type_id \<noteq> OBJ_REF_DELTA then Inr None
       else and_then (take_oid rest) (\<lambda>(i, _). Inr (Some i)))"

definition parse_entry_at :: "inflater \<Rightarrow> string \<Rightarrow> nat \<Rightarrow> git_error + raw_entry" where
  "parse_entry_at inflate pack offset =
     and_then (read_entry_header (drop offset pack)) (\<lambda>((type_id, sz), rest).
       if type_id \<in> {OBJ_COMMIT, OBJ_TREE, OBJ_BLOB, OBJ_TAG} then
         and_then (inflate_at inflate rest) (\<lambda>data.
           if length data \<noteq> sz then Inl (PackErr ''packfile: object size mismatch'')
           else Inr (BaseEntry type_id data))
       else if type_id = OBJ_OFS_DELTA then
         and_then (read_ofs_delta_offset rest) (\<lambda>(neg, rest).
           if offset < neg then Inl (PackErr ''packfile: ofs-delta base before start of pack'')
           else and_then (inflate_at inflate rest) (\<lambda>delta.
             if length delta \<noteq> sz then Inl (PackErr ''packfile: delta size mismatch'')
             else Inr (OfsDelta (offset - neg) delta)))
       else if type_id = OBJ_REF_DELTA then
         and_then (take_oid rest) (\<lambda>(base_oid, rest).
         and_then (inflate_at inflate rest) (\<lambda>delta.
           if length delta \<noteq> sz then Inl (PackErr ''packfile: delta size mismatch'')
           else Inr (RefDelta base_oid delta)))
       else Inl (PackErr ''packfile: unknown object type''))"

text \<open>The position behind the entry at \<open>offset\<close>; \<open>length pack - length rest\<close> is the cursor.\<close>

definition skip_entry :: "inflater \<Rightarrow> string \<Rightarrow> nat \<Rightarrow> git_error + nat" where
  "skip_entry inflate pack offset =
     and_then (read_entry_header (drop offset pack)) (\<lambda>((type_id, _), rest).
     and_then (if type_id \<in> {OBJ_COMMIT, OBJ_TREE, OBJ_BLOB, OBJ_TAG} then Inr rest
        else if type_id = OBJ_OFS_DELTA then and_then (read_ofs_delta_offset rest) (\<lambda>(_, rest). Inr rest)
        else if type_id = OBJ_REF_DELTA then
          (if length rest < 20 then Inl (PackErr ''packfile: truncated ref-delta base oid'') else Inr (drop 20 rest))
        else Inl (PackErr ''packfile: unknown object type'')) (\<lambda>rest.
     and_then (inflate_consumed inflate rest) (\<lambda>consumed.
       let pos = length pack - length rest + consumed in
       if usize_limit \<le> pos then Inl (PackErr ''packfile: offset overflow'') else Inr pos)))"

section \<open>Delta chains\<close>

type_synonym memo = "nat \<rightharpoonup> nat \<times> string"

function resolve_entry ::
  "inflater \<Rightarrow> string \<Rightarrow> nat \<Rightarrow> (git_oid \<rightharpoonup> nat) \<Rightarrow> memo \<Rightarrow> nat \<Rightarrow> git_error + (nat \<times> string) \<times> memo" where
  "resolve_entry inflate pack offset oid_to_offset memo depth =
     (case memo offset of
        Some cached \<Rightarrow> Inr (cached, memo)
      | None \<Rightarrow>
        if MAX_DELTA_DEPTH < depth then Inl (PackErr ''packfile: delta chain too deep (possible cycle)'')
        else and_then (case parse_entry_at inflate pack offset of
            Inl e \<Rightarrow> Inl e
          | Inr (BaseEntry type_id data) \<Rightarrow> Inr ((type_id, data), memo)
          | Inr (OfsDelta base_offset delta) \<Rightarrow>
              and_then (resolve_entry inflate pack base_offset oid_to_offset memo (depth + 1)) (\<lambda>((ty, body), memo).
              and_then (apply_delta body delta) (\<lambda>out. Inr ((ty, out), memo)))
          | Inr (RefDelta base_oid delta) \<Rightarrow>
              (case oid_to_offset base_oid of
                 None \<Rightarrow> Inl (PackErr ''packfile: ref-delta base not in this pack'')
               | Some base_offset \<Rightarrow>
                 and_then (resolve_entry inflate pack base_offset oid_to_offset memo (depth + 1)) (\<lambda>((ty, body), memo).
                 and_then (apply_delta body delta) (\<lambda>out. Inr ((ty, out), memo)))))
          (\<lambda>(resolved, memo). Inr (resolved, memo(offset \<mapsto> resolved))))"
  by pat_completeness auto
termination
  by (relation "measure (\<lambda>(_, _, _, _, _, depth). Suc MAX_DELTA_DEPTH - depth)") auto

declare resolve_entry.simps [simp del]

definition canonical_bytes :: "nat \<Rightarrow> string \<Rightarrow> git_error + string" where
  "canonical_bytes type_id body =
     and_then (if type_id = OBJ_COMMIT then Inr ''commit'' else if type_id = OBJ_TREE then Inr ''tree''
        else if type_id = OBJ_BLOB then Inr ''blob'' else if type_id = OBJ_TAG then Inr ''tag''
        else Inl (PackErr ''packfile: delta base has non-object type'')) (\<lambda>ty.
       Inr (ty @ CHR '' '' # show_nat (length body) @ CHR 0x00 # body))"

section \<open>A pack with its index\<close>

record pack_decode =
  objects :: "(git_oid \<times> git_object) list"
  ofs_deltas :: nat
  ref_deltas :: nat

definition delta_objects :: "pack_decode \<Rightarrow> nat" where
  "delta_objects d = ofs_deltas d + ref_deltas d"

definition count_delta :: "nat \<Rightarrow> pack_decode \<Rightarrow> pack_decode" where
  "count_delta type_id d =
     (if type_id = OBJ_OFS_DELTA then d\<lparr>ofs_deltas := ofs_deltas d + 1\<rparr>
      else if type_id = OBJ_REF_DELTA then d\<lparr>ref_deltas := ref_deltas d + 1\<rparr>
      else d)"

fun read_indexed ::
  "(string \<Rightarrow> string) \<Rightarrow> inflater \<Rightarrow> string \<Rightarrow> (git_oid \<rightharpoonup> nat) \<Rightarrow> (git_oid \<times> nat) list \<Rightarrow> memo \<Rightarrow>
   pack_decode \<Rightarrow> git_error + pack_decode" where
  "read_indexed sha1 inflate pack oid_to_offset [] memo d = Inr d"
| "read_indexed sha1 inflate pack oid_to_offset ((i, offset) # rest) memo d =
     and_then (peek_type pack offset) (\<lambda>type_id.
     let d = count_delta type_id d in
     and_then (resolve_entry inflate pack offset oid_to_offset memo 0) (\<lambda>((type_id, body), memo).
     and_then (canonical_bytes type_id body) (\<lambda>canonical.
     if sha1 canonical \<noteq> i then Inl (PackErr ''reconstructed packed object does not match its index oid'')
     else and_then (decode canonical) (\<lambda>ob.
       read_indexed sha1 inflate pack oid_to_offset rest memo (d\<lparr>objects := objects d @ [(i, ob)]\<rparr>)))))"

definition read_pack_detailed ::
  "(string \<Rightarrow> string) \<Rightarrow> inflater \<Rightarrow> string \<Rightarrow> string \<Rightarrow> git_error + pack_decode" where
  "read_pack_detailed sha1 inflate idx_bytes pack_bytes =
     and_then (parse_idx idx_bytes) (\<lambda>index.
     and_then (parse_pack_header pack_bytes) (\<lambda>pack_count.
     if pack_count \<noteq> length index then Inl (PackErr ''pack object count does not match index entry count'')
     else read_indexed sha1 inflate pack_bytes (foldl (\<lambda>m (oid, offset). m(oid \<mapsto> offset)) Map.empty index)
       index Map.empty \<lparr>objects = [], ofs_deltas = 0, ref_deltas = 0\<rparr>))"

definition read_pack ::
  "(string \<Rightarrow> string) \<Rightarrow> inflater \<Rightarrow> string \<Rightarrow> string \<Rightarrow> git_error + (git_oid \<times> git_object) list" where
  "read_pack sha1 inflate idx_bytes pack_bytes =
     and_then (read_pack_detailed sha1 inflate idx_bytes pack_bytes) (\<lambda>d. Inr (objects d))"

section \<open>A received pack\<close>

fun discover :: "inflater \<Rightarrow> string \<Rightarrow> nat \<Rightarrow> nat \<Rightarrow> git_error + nat list" where
  "discover inflate pack 0 pos = Inr []"
| "discover inflate pack (Suc n) pos =
     and_then (skip_entry inflate pack pos) (\<lambda>pos'.
     and_then (discover inflate pack n pos') (\<lambda>offsets. Inr (pos # offsets)))"

record pass_state =
  oid_to_offset :: "git_oid \<rightharpoonup> nat"
  pass_memo :: memo
  results :: "nat \<rightharpoonup> git_oid \<times> git_object"

text \<open>One pass over the remaining offsets; the result carries the deferred ones.\<close>

fun one_pass ::
  "(string \<Rightarrow> string) \<Rightarrow> inflater \<Rightarrow> string \<Rightarrow> nat list \<Rightarrow> pass_state \<Rightarrow> nat list \<Rightarrow>
   git_error + nat list \<times> pass_state" where
  "one_pass sha1 inflate pack [] st deferred = Inr (deferred, st)"
| "one_pass sha1 inflate pack (offset # rest) st deferred =
     and_then (peek_ref_base pack offset) (\<lambda>base.
       if (case base of Some base_oid \<Rightarrow> oid_to_offset st base_oid = None | None \<Rightarrow> False)
       then one_pass sha1 inflate pack rest st (deferred @ [offset])
       else
         and_then (resolve_entry inflate pack offset (oid_to_offset st) (pass_memo st) 0) (\<lambda>((type_id, body), memo).
         and_then (canonical_bytes type_id body) (\<lambda>canonical.
         and_then (decode canonical) (\<lambda>ob.
           one_pass sha1 inflate pack rest
             (st\<lparr>oid_to_offset := (oid_to_offset st)(sha1 canonical \<mapsto> offset), pass_memo := memo,
                results := (results st)(offset \<mapsto> (sha1 canonical, ob))\<rparr>) deferred))))"

lemma one_pass_Cons:
  assumes "one_pass sha1 inflate pack (offset # rest) st d = Inr (d', st')"
  obtains (defer_it) base where "peek_ref_base pack offset = Inr (Some base)" "oid_to_offset st base = None"
      "one_pass sha1 inflate pack rest st (d @ [offset]) = Inr (d', st')"
    | (done_it) type_id body memo canonical ob where
      "resolve_entry inflate pack offset (oid_to_offset st) (pass_memo st) 0 = Inr ((type_id, body), memo)"
      "canonical_bytes type_id body = Inr canonical" "decode canonical = Inr ob"
      "one_pass sha1 inflate pack rest
         (st\<lparr>oid_to_offset := (oid_to_offset st)(sha1 canonical \<mapsto> offset), pass_memo := memo,
            results := (results st)(offset \<mapsto> (sha1 canonical, ob))\<rparr>) d = Inr (d', st')"
proof -
  obtain base where b: "peek_ref_base pack offset = Inr base" using assms by (auto simp: res_simps)
  show thesis
  proof (cases "case base of Some base_oid \<Rightarrow> oid_to_offset st base_oid = None | None \<Rightarrow> False")
    case True
    then obtain i where i: "base = Some i" "oid_to_offset st i = None" by (cases base) auto
    show thesis using defer_it [of i] assms b i by simp
  next
    case False
    then obtain r where r: "resolve_entry inflate pack offset (oid_to_offset st) (pass_memo st) 0 = Inr r"
      using assms b by (auto simp: res_simps)
    obtain type_id body memo where r': "r = ((type_id, body), memo)" by (cases r) auto
    obtain canonical where c: "canonical_bytes type_id body = Inr canonical"
      using assms b False r r' by (auto simp: res_simps)
    obtain ob where ob: "decode canonical = Inr ob" using assms b False r r' c by (auto simp: res_simps)
    show thesis using done_it [OF r [unfolded r'] c ob] assms b False r r' c ob by simp
  qed
qed

lemma one_pass_deferred:
  "one_pass sha1 inflate pack rem st d = Inr (d', st') \<Longrightarrow> length d' \<le> length d + length rem"
proof (induction rem arbitrary: st d)
  case (Cons off rem)
  from Cons.prems show ?case
  proof (cases rule: one_pass_Cons)
    case (defer_it base)
    then show ?thesis using Cons.IH [OF defer_it(3)] by simp
  next
    case done_it
    then show ?thesis using Cons.IH [OF done_it(4)] by simp
  qed
qed simp

function resolve_passes ::
  "(string \<Rightarrow> string) \<Rightarrow> inflater \<Rightarrow> string \<Rightarrow> nat list \<Rightarrow> pass_state \<Rightarrow> git_error + pass_state" where
  "resolve_passes sha1 inflate pack remaining st =
     (if remaining = [] then Inr st
      else (case one_pass sha1 inflate pack remaining st [] of
          Inl e \<Rightarrow> Inl e
        | Inr (deferred, st') \<Rightarrow>
            if length deferred = length remaining
            then Inl (PackErr ''packfile: unresolvable ref-delta base (thin pack not supported)'')
            else resolve_passes sha1 inflate pack deferred st'))"
  by pat_completeness auto
termination
  by (relation "measure (\<lambda>(_, _, _, remaining, _). length remaining)")
     (auto dest!: one_pass_deferred simp: order.strict_iff_order)

declare resolve_passes.simps [simp del]

text \<open>The last loop takes each result out of the map as it emits it.\<close>

fun emit_results :: "nat list \<Rightarrow> (nat \<rightharpoonup> git_oid \<times> git_object) \<Rightarrow> (git_oid \<times> git_object) list" where
  "emit_results [] res = []"
| "emit_results (offset # rest) res =
     (case res offset of
        Some entry \<Rightarrow> entry # emit_results rest (res(offset := None))
      | None \<Rightarrow> emit_results rest res)"

definition parse_pack_bytes ::
  "(string \<Rightarrow> string) \<Rightarrow> inflater \<Rightarrow> string \<Rightarrow> git_error + (git_oid \<times> git_object) list" where
  "parse_pack_bytes sha1 inflate pack =
     and_then (parse_pack_header pack) (\<lambda>count.
     and_then (discover inflate pack count 12) (\<lambda>offsets.
     and_then (resolve_passes sha1 inflate pack offsets
        \<lparr>oid_to_offset = Map.empty, pass_memo = Map.empty, results = Map.empty\<rparr>) (\<lambda>st.
       Inr (emit_results offsets (results st)))))"

section \<open>What an entry stands for\<close>

text \<open>
  The reference semantics, without memo and without a search order: the object at an offset, after
  a chain of at most \<open>n\<close> deltas.
\<close>

inductive entry_value ::
  "inflater \<Rightarrow> string \<Rightarrow> (git_oid \<rightharpoonup> nat) \<Rightarrow> nat \<Rightarrow> nat \<Rightarrow> nat \<times> string \<Rightarrow> bool"
  for inflate pack o2o where
  value_base: "parse_entry_at inflate pack off = Inr (BaseEntry ty data) \<Longrightarrow>
    entry_value inflate pack o2o n off (ty, data)"
| value_ofs: "parse_entry_at inflate pack off = Inr (OfsDelta base delta) \<Longrightarrow>
    entry_value inflate pack o2o n base (ty, body) \<Longrightarrow> apply_delta body delta = Inr out \<Longrightarrow>
    entry_value inflate pack o2o (Suc n) off (ty, out)"
| value_ref: "parse_entry_at inflate pack off = Inr (RefDelta i delta) \<Longrightarrow> o2o i = Some base \<Longrightarrow>
    entry_value inflate pack o2o n base (ty, body) \<Longrightarrow> apply_delta body delta = Inr out \<Longrightarrow>
    entry_value inflate pack o2o (Suc n) off (ty, out)"

lemma entry_value_unique:
  "entry_value inflate pack o2o n off v \<Longrightarrow> entry_value inflate pack o2o m off w \<Longrightarrow> v = w"
proof (induction n off v arbitrary: m w rule: entry_value.induct)
  case (value_base off ty data n)
  from value_base(2,1) show ?case by (cases rule: entry_value.cases) auto
next
  case (value_ofs off base delta n ty body out)
  from value_ofs(5) show ?case
    by (cases rule: entry_value.cases) (use value_ofs(1,3,4) in fastforce)+
next
  case (value_ref off i delta base n ty body out)
  from value_ref(6) show ?case
    by (cases rule: entry_value.cases) (use value_ref(1,2,4,5) in fastforce)+
qed

definition memo_sound :: "inflater \<Rightarrow> string \<Rightarrow> (git_oid \<rightharpoonup> nat) \<Rightarrow> memo \<Rightarrow> bool" where
  "memo_sound inflate pack o2o memo \<longleftrightarrow>
     (\<forall>off v. memo off = Some v \<longrightarrow> (\<exists>n. entry_value inflate pack o2o n off v))"

lemma memo_soundD:
  "memo_sound inflate pack o2o memo \<Longrightarrow> memo off = Some v \<Longrightarrow> \<exists>n. entry_value inflate pack o2o n off v"
  unfolding memo_sound_def by blast

lemma memo_sound_upd:
  "memo_sound inflate pack o2o memo \<Longrightarrow> entry_value inflate pack o2o n off v \<Longrightarrow>
   memo_sound inflate pack o2o (memo(off \<mapsto> v))"
  by (auto simp: memo_sound_def)

lemma resolve_entry_sound:
  "resolve_entry inflate pack off o2o memo depth = Inr (v, memo') \<Longrightarrow> memo_sound inflate pack o2o memo \<Longrightarrow>
   (\<exists>n. entry_value inflate pack o2o n off v) \<and> memo_sound inflate pack o2o memo'"
proof (induction inflate pack off o2o memo depth arbitrary: v memo' rule: resolve_entry.induct)
  case (1 inflate pack off o2o memo depth)
  show ?case
  proof (cases "memo off")
    case (Some w)
    then have "v = w" "memo' = memo" using "1.prems"(1) by (simp_all add: resolve_entry.simps [of _ _ off])
    then show ?thesis using memo_soundD Some "1.prems"(2) by blast
  next
    case None
    have depth: "\<not> MAX_DELTA_DEPTH < depth" using "1.prems"(1) None by (auto simp: resolve_entry.simps [of _ _ off])
    show ?thesis
    proof (cases "parse_entry_at inflate pack off")
      case (Inl e)
      then show ?thesis using "1.prems"(1) None depth by (simp add: resolve_entry.simps [of _ _ off])
    next
      case (Inr entry)
      show ?thesis
      proof (cases entry)
        case (BaseEntry ty data)
        then have "v = (ty, data)" "memo' = memo(off \<mapsto> v)"
          using "1.prems"(1) None depth Inr by (auto simp: resolve_entry.simps [of _ _ off])
        then show ?thesis
          using value_base [of inflate pack off ty data o2o 0] Inr BaseEntry memo_sound_upd "1.prems"(2) by metis
      next
        case (OfsDelta base delta)
        then obtain ty body m out where r: "resolve_entry inflate pack base o2o memo (depth + 1) = Inr ((ty, body), m)"
          "apply_delta body delta = Inr out" "v = (ty, out)" "memo' = m(off \<mapsto> v)"
          using "1.prems"(1) None depth Inr by (auto simp: resolve_entry.simps [of _ _ off] res_simps split: prod.splits)
        obtain n where "entry_value inflate pack o2o n base (ty, body)" "memo_sound inflate pack o2o m"
          using "1.IH"(1) [OF None depth Inr OfsDelta r(1) "1.prems"(2)] by blast
        then show ?thesis using value_ofs [OF Inr [unfolded OfsDelta]] memo_sound_upd r by metis
      next
        case (RefDelta i delta)
        then obtain base ty body m out where r: "o2o i = Some base"
          "resolve_entry inflate pack base o2o memo (depth + 1) = Inr ((ty, body), m)"
          "apply_delta body delta = Inr out" "v = (ty, out)" "memo' = m(off \<mapsto> v)"
          using "1.prems"(1) None depth Inr
          by (auto simp: resolve_entry.simps [of _ _ off] res_simps split: prod.splits option.splits)
        obtain n where "entry_value inflate pack o2o n base (ty, body)" "memo_sound inflate pack o2o m"
          using "1.IH"(2) [OF None depth Inr RefDelta r(1) r(2) "1.prems"(2)] by blast
        then show ?thesis using value_ref [where o2o = o2o, OF Inr [unfolded RefDelta] r(1)] memo_sound_upd r by metis
      qed
    qed
  qed
qed

lemma resolve_entry_complete:
  "entry_value inflate pack o2o n off v \<Longrightarrow> n + depth \<le> MAX_DELTA_DEPTH \<Longrightarrow> memo_sound inflate pack o2o memo \<Longrightarrow>
   \<exists>memo'. resolve_entry inflate pack off o2o memo depth = Inr (v, memo')"
proof (induction n off v arbitrary: depth memo rule: entry_value.induct)
  case (value_base off ty data n)
  show ?case
  proof (cases "memo off")
    case None
    then show ?thesis using value_base by (simp add: resolve_entry.simps [of _ _ off])
  next
    case (Some w)
    then have "w = (ty, data)"
      using value_base(1,3) entry_value_unique entry_value.value_base by (metis memo_sound_def)
    then show ?thesis using Some by (simp add: resolve_entry.simps [of _ _ off])
  qed
next
  case (value_ofs off base delta n ty body out)
  show ?case
  proof (cases "memo off")
    case None
    obtain m where "resolve_entry inflate pack base o2o memo (depth + 1) = Inr ((ty, body), m)"
      using value_ofs.IH [of "depth + 1" memo] value_ofs.prems by auto
    then show ?thesis using None value_ofs.hyps value_ofs.prems(1) by (simp add: resolve_entry.simps [of _ _ off])
  next
    case (Some w)
    then have "w = (ty, out)"
      using value_ofs.hyps value_ofs.prems(2) entry_value_unique entry_value.value_ofs by (metis memo_sound_def)
    then show ?thesis using Some by (simp add: resolve_entry.simps [of _ _ off])
  qed
next
  case (value_ref off i delta base n ty body out)
  show ?case
  proof (cases "memo off")
    case None
    obtain m where "resolve_entry inflate pack base o2o memo (depth + 1) = Inr ((ty, body), m)"
      using value_ref.IH [of "depth + 1" memo] value_ref.prems by auto
    then show ?thesis using None value_ref.hyps value_ref.prems(1) by (simp add: resolve_entry.simps [of _ _ off])
  next
    case (Some w)
    then have "w = (ty, out)"
      using value_ref.hyps value_ref.prems(2) entry_value_unique entry_value.value_ref by (metis memo_sound_def)
    then show ?thesis using Some by (simp add: resolve_entry.simps [of _ _ off])
  qed
qed

lemma canonical_bytes_encode:
  assumes "canonical_bytes ty body = Inr canonical" "decode canonical = Inr ob"
  shows "encode ob = canonical \<and> git_ok ob \<and> git_body ob = body"
proof -
  obtain t where t: "canonical = t @ CHR '' '' # show_nat (length body) @ CHR 0x00 # body"
    "t \<in> {''commit'', ''tree'', ''blob'', ''tag''}"
    using assms(1) by (auto simp: canonical_bytes_def res_simps split: if_splits)
  then have free: "CHR '' '' \<notin> set t" by auto
  obtain sz where sz: "canonical = type_str ob @ CHR '' '' # sz @ CHR 0x00 # git_body ob" "CHR 0x00 \<notin> set sz"
    "git_ok ob" using decode_Inr [OF assms(2)] by blast
  have split1: "split_once CHR '' '' canonical = Some (t, show_nat (length body) @ CHR 0x00 # body)"
    unfolding t(1) by (rule split_once_append) (use free in simp)
  have split2: "split_once CHR '' '' canonical = Some (type_str ob, sz @ CHR 0x00 # git_body ob)"
    unfolding sz(1) by (rule split_once_append) (rule type_str_free)
  from split1 split2 have eq: "t = type_str ob" "show_nat (length body) @ CHR 0x00 # body = sz @ CHR 0x00 # git_body ob"
    by simp_all
  have "split_once (CHR 0x00) (show_nat (length body) @ CHR 0x00 # body) = Some (show_nat (length body), body)"
    by (rule split_once_append) (rule show_nat_no_nul)
  moreover have "split_once (CHR 0x00) (sz @ CHR 0x00 # git_body ob) = Some (sz, git_body ob)"
    by (rule split_once_append) (rule sz(2))
  ultimately have "Some (show_nat (length body), body) = Some (sz, git_body ob)" unfolding eq(2) by (rule trans [OF sym])
  then have "sz = show_nat (length body)" "git_body ob = body" by blast+
  then show ?thesis using t(1) eq(1) sz(3) by (simp add: encode_def)
qed

lemma read_indexed_Inr:
  "read_indexed sha1 inflate pack o2o index memo d = Inr d' \<Longrightarrow> memo_sound inflate pack o2o memo \<Longrightarrow>
   \<exists>new. objects d' = objects d @ new \<and> map fst new = map fst index \<and>
     (\<forall>(i, ob)\<in>set new. i = sha1 (encode ob) \<and> git_ok ob) \<and>
     list_all2 (\<lambda>(i, off) (j, ob). \<exists>n ty. entry_value inflate pack o2o n off (ty, git_body ob)) index new"
proof (induction index arbitrary: memo d)
  case (Cons e index)
  obtain i off where e: "e = (i, off)" by (cases e)
  obtain kind where k: "peek_type pack off = Inr kind" using Cons.prems(1) by (auto simp: e res_simps)
  obtain w where w: "resolve_entry inflate pack off o2o memo 0 = Inr w"
    using Cons.prems(1) k by (auto simp: e res_simps Let_def)
  obtain ty body m where w': "w = ((ty, body), m)" by (cases w) auto
  obtain canonical where c: "canonical_bytes ty body = Inr canonical"
    using Cons.prems(1) k w w' by (auto simp: e res_simps Let_def)
  have i: "sha1 canonical = i" using Cons.prems(1) k w w' c by (auto simp: e Let_def split: if_splits)
  obtain ob where ob: "decode canonical = Inr ob" using Cons.prems(1) k w w' c i by (auto simp: e res_simps Let_def)
  have r: "resolve_entry inflate pack off o2o memo 0 = Inr ((ty, body), m)" "canonical_bytes ty body = Inr canonical"
    "sha1 canonical = i" "decode canonical = Inr ob"
    "read_indexed sha1 inflate pack o2o index m
       ((count_delta kind d)\<lparr>objects := objects (count_delta kind d) @ [(i, ob)]\<rparr>) = Inr d'"
    using Cons.prems(1) k w w' c i ob by (simp_all add: e Let_def)
  have cd: "objects (count_delta kind d) = objects d" by (simp add: count_delta_def)
  have obj: "encode ob = canonical" "git_ok ob" "git_body ob = body"
    using canonical_bytes_encode [OF r(2,4)] by simp_all
  obtain n where n: "entry_value inflate pack o2o n off (ty, body)" and m: "memo_sound inflate pack o2o m"
    using resolve_entry_sound [OF r(1) Cons.prems(2)] by blast
  obtain new where new: "objects d' = (objects d @ [(i, ob)]) @ new" "map fst new = map fst index"
    "\<forall>(i, ob)\<in>set new. i = sha1 (encode ob) \<and> git_ok ob"
    "list_all2 (\<lambda>(i, off) (j, ob). \<exists>n ty. entry_value inflate pack o2o n off (ty, git_body ob)) index new"
    using Cons.IH [OF r(5) m] unfolding cd by auto
  show ?case
    using new obj n r(3) by (intro exI [of _ "(i, ob) # new"]) (auto simp: e)
qed simp

lemma header_loop_shorter: "header_loop sz s data = Inr (n, rest) \<Longrightarrow> length rest < length data"
  by (induction data arbitrary: sz s) (auto simp: Let_def less_Suc_eq split: option.splits if_splits)

lemma ofs_loop_shorter: "ofs_loop off data = Inr (n, rest) \<Longrightarrow> length rest < length data"
  by (induction data arbitrary: off) (auto simp: Let_def less_Suc_eq split: option.splits if_splits)

lemma read_entry_header_shorter: "read_entry_header data = Inr (h, rest) \<Longrightarrow> length rest < length data"
  by (auto simp: read_entry_header_def res_simps take_byte_Inr Let_def split: if_splits dest: header_loop_shorter)

lemma read_ofs_shorter: "read_ofs_delta_offset data = Inr (n, rest) \<Longrightarrow> length rest < length data"
  by (auto simp: read_ofs_delta_offset_def res_simps take_byte_Inr split: if_splits dest: ofs_loop_shorter)

lemma skip_entry_advances:
  assumes "skip_entry inflate pack offset = Inr pos"
  shows "offset < pos"
proof -
  obtain ty sz rest where h: "read_entry_header (drop offset pack) = Inr ((ty, sz), rest)"
    using assms by (auto simp: skip_entry_def res_simps split: prod.splits)
  let ?args = "if ty \<in> {OBJ_COMMIT, OBJ_TREE, OBJ_BLOB, OBJ_TAG} then Inr rest
        else if ty = OBJ_OFS_DELTA then and_then (read_ofs_delta_offset rest) (\<lambda>(_, rest). Inr rest)
        else if ty = OBJ_REF_DELTA then
          (if length rest < 20 then Inl (PackErr ''packfile: truncated ref-delta base oid'') else Inr (drop 20 rest))
        else Inl (PackErr ''packfile: unknown object type'')"
  obtain rest' where r: "?args = Inr rest'"
    using assms h by (cases ?args) (auto simp: skip_entry_def)
  obtain consumed where "pos = length pack - length rest' + consumed"
    using assms unfolding skip_entry_def h and_then.simps prod.case r
    by (auto simp: res_simps Let_def split: if_splits)
  moreover have "length rest' \<le> length rest"
    using r by (auto simp: res_simps split: if_splits dest!: read_ofs_shorter)
  ultimately show ?thesis using read_entry_header_shorter [OF h] by simp
qed

lemma discover_Inr:
  "discover inflate pack n pos = Inr offsets \<Longrightarrow>
   length offsets = n \<and> distinct offsets \<and> (\<forall>o'\<in>set offsets. pos \<le> o')"
proof (induction n arbitrary: pos offsets)
  case (Suc n)
  then obtain pos' offs where "skip_entry inflate pack pos = Inr pos'" "discover inflate pack n pos' = Inr offs"
    "offsets = pos # offs" by (auto simp: res_simps)
  then show ?case using Suc.IH [of pos' offs] skip_entry_advances [of inflate pack pos pos'] by fastforce
qed simp

section \<open>What an entry of a received pack stands for\<close>

text \<open>
  A received pack has no index, so a ref-delta names its base by the id of an object of the same
  pack: the meaning of an entry asks for an entry that starts at one of the offsets \<open>offs\<close> and
  whose own meaning hashes to that id. There is no memo, no search order and no table of ids here.
\<close>

inductive pack_value ::
  "(string \<Rightarrow> string) \<Rightarrow> inflater \<Rightarrow> string \<Rightarrow> nat set \<Rightarrow> nat \<Rightarrow> nat \<times> string \<Rightarrow> bool"
  for sha1 inflate pack offs where
  pack_base: "parse_entry_at inflate pack off = Inr (BaseEntry ty data) \<Longrightarrow>
    pack_value sha1 inflate pack offs off (ty, data)"
| pack_ofs: "parse_entry_at inflate pack off = Inr (OfsDelta base delta) \<Longrightarrow>
    pack_value sha1 inflate pack offs base (ty, body) \<Longrightarrow> apply_delta body delta = Inr out \<Longrightarrow>
    pack_value sha1 inflate pack offs off (ty, out)"
| pack_ref: "parse_entry_at inflate pack off = Inr (RefDelta i delta) \<Longrightarrow> base \<in> offs \<Longrightarrow>
    pack_value sha1 inflate pack offs base (ty, body) \<Longrightarrow> canonical_bytes ty body = Inr canonical \<Longrightarrow>
    sha1 canonical = i \<Longrightarrow> apply_delta body delta = Inr out \<Longrightarrow>
    pack_value sha1 inflate pack offs off (ty, out)"

text \<open>The memo holds meanings, and the table of ids names resolved entries of the pack.\<close>

definition memo_means ::
  "(string \<Rightarrow> string) \<Rightarrow> inflater \<Rightarrow> string \<Rightarrow> nat set \<Rightarrow> memo \<Rightarrow> bool" where
  "memo_means sha1 inflate pack offs memo \<longleftrightarrow>
     (\<forall>off v. memo off = Some v \<longrightarrow> pack_value sha1 inflate pack offs off v)"

definition ids_resolved :: "(string \<Rightarrow> string) \<Rightarrow> nat set \<Rightarrow> (git_oid \<rightharpoonup> nat) \<Rightarrow> memo \<Rightarrow> bool" where
  "ids_resolved sha1 offs o2o memo \<longleftrightarrow>
     (\<forall>i off. o2o i = Some off \<longrightarrow> off \<in> offs \<and>
       (\<exists>ty body canonical. memo off = Some (ty, body) \<and> canonical_bytes ty body = Inr canonical \<and> sha1 canonical = i))"

lemma ids_resolvedE:
  assumes "ids_resolved sha1 offs o2o memo" "o2o i = Some off"
  obtains ty body canonical where "off \<in> offs" "memo off = Some (ty, body)"
    "canonical_bytes ty body = Inr canonical" "sha1 canonical = i"
  using assms unfolding ids_resolved_def by blast

lemma memo_means_upd:
  "memo_means sha1 inflate pack offs memo \<Longrightarrow> pack_value sha1 inflate pack offs off v \<Longrightarrow>
   memo_means sha1 inflate pack offs (memo(off \<mapsto> v))"
  by (auto simp: memo_means_def)

lemma ids_resolved_upd:
  assumes "ids_resolved sha1 offs o2o memo'" "\<forall>i. o2o i \<noteq> Some off"
  shows "ids_resolved sha1 offs o2o (memo'(off \<mapsto> v))"
  using assms unfolding ids_resolved_def by (metis fun_upd_other)

lemma resolve_entry_means:
  "resolve_entry inflate pack off o2o memo depth = Inr (v, memo') \<Longrightarrow>
   memo_means sha1 inflate pack offs memo \<Longrightarrow> ids_resolved sha1 offs o2o memo \<Longrightarrow>
   pack_value sha1 inflate pack offs off v \<and> memo_means sha1 inflate pack offs memo' \<and>
   ids_resolved sha1 offs o2o memo' \<and> memo' off = Some v"
proof (induction inflate pack off o2o memo depth arbitrary: v memo' rule: resolve_entry.induct)
  case (1 inflate pack off o2o memo depth)
  show ?case
  proof (cases "memo off")
    case (Some w)
    then have "v = w" "memo' = memo" using "1.prems"(1) by (simp_all add: resolve_entry.simps [of _ _ off])
    moreover have "pack_value sha1 inflate pack offs off w" using Some "1.prems"(2) unfolding memo_means_def by blast
    ultimately show ?thesis using Some "1.prems"(2,3) by simp
  next
    case None
    then have free: "\<forall>i. o2o i \<noteq> Some off" using ids_resolvedE [OF "1.prems"(3)] by (metis option.distinct(1))
    have depth: "\<not> MAX_DELTA_DEPTH < depth" using "1.prems"(1) None by (auto simp: resolve_entry.simps [of _ _ off])
    obtain entry where entry: "parse_entry_at inflate pack off = Inr entry"
      using "1.prems"(1) None depth
      by (cases "parse_entry_at inflate pack off") (auto simp: resolve_entry.simps [of _ _ off])
    show ?thesis
    proof (cases entry)
      case (BaseEntry ty data)
      then have "v = (ty, data)" "memo' = memo(off \<mapsto> v)"
        using "1.prems"(1) None depth entry by (auto simp: resolve_entry.simps [of _ _ off])
      moreover note b = pack_base [OF entry [unfolded BaseEntry], of sha1 offs]
      ultimately show ?thesis
        using memo_means_upd [OF "1.prems"(2) b] ids_resolved_upd [OF "1.prems"(3) free]
        by (simp del: fun_upd_apply add: fun_upd_same)
    next
      case (OfsDelta base delta)
      then obtain ty body m out where r: "resolve_entry inflate pack base o2o memo (depth + 1) = Inr ((ty, body), m)"
        "apply_delta body delta = Inr out" "v = (ty, out)" "memo' = m(off \<mapsto> v)"
        using "1.prems"(1) None depth entry by (auto simp: resolve_entry.simps [of _ _ off] res_simps split: prod.splits)
      have IH: "pack_value sha1 inflate pack offs base (ty, body)" "memo_means sha1 inflate pack offs m" "ids_resolved sha1 offs o2o m"
        using "1.IH"(1) [OF None depth entry OfsDelta r(1) "1.prems"(2,3)] by blast+
      have "pack_value sha1 inflate pack offs off v"
        unfolding r(3) by (rule pack_ofs [OF entry [unfolded OfsDelta] IH(1) r(2)])
      then show ?thesis using memo_means_upd [OF IH(2)] ids_resolved_upd [OF IH(3) free] unfolding r(4) by (simp del: fun_upd_apply add: fun_upd_same)
    next
      case (RefDelta i delta)
      then obtain base ty body m out where r: "o2o i = Some base"
        "resolve_entry inflate pack base o2o memo (depth + 1) = Inr ((ty, body), m)"
        "apply_delta body delta = Inr out" "v = (ty, out)" "memo' = m(off \<mapsto> v)"
        using "1.prems"(1) None depth entry
        by (auto simp: resolve_entry.simps [of _ _ off] res_simps split: prod.splits option.splits)
      obtain ty' body' canonical where c: "base \<in> offs" "memo base = Some (ty', body')"
        "canonical_bytes ty' body' = Inr canonical" "sha1 canonical = i"
        by (rule ids_resolvedE [OF "1.prems"(3) r(1)])
      have same: "ty' = ty" "body' = body" "m = memo" using r(2) c(2) by (simp_all add: resolve_entry.simps [of _ _ base])
      have b: "pack_value sha1 inflate pack offs base (ty, body)"
        using "1.prems"(2) c(2) unfolding same memo_means_def by blast
      have "pack_value sha1 inflate pack offs off v"
        unfolding r(4) by (rule pack_ref [OF entry [unfolded RefDelta] c(1) b c(3) [unfolded same] c(4) r(3)])
      then show ?thesis
        using memo_means_upd [OF "1.prems"(2)] ids_resolved_upd [OF "1.prems"(3) free] unfolding r(5) same by (simp del: fun_upd_apply add: fun_upd_same)
    qed
  qed
qed

text \<open>The object \<open>e\<close> of the result is the one that the entry at \<open>off\<close> stands for, under its own id.\<close>

definition entry_object ::
  "(string \<Rightarrow> string) \<Rightarrow> inflater \<Rightarrow> string \<Rightarrow> nat set \<Rightarrow> nat \<Rightarrow> git_oid \<times> git_object \<Rightarrow> bool" where
  "entry_object sha1 inflate pack offs off e \<longleftrightarrow>
     git_ok (snd e) \<and> fst e = sha1 (encode (snd e)) \<and>
     (\<exists>ty body. pack_value sha1 inflate pack offs off (ty, body) \<and> canonical_bytes ty body = Inr (encode (snd e)))"

definition pass_ok :: "(string \<Rightarrow> string) \<Rightarrow> inflater \<Rightarrow> string \<Rightarrow> nat set \<Rightarrow> pass_state \<Rightarrow> bool" where
  "pass_ok sha1 inflate pack offs st \<longleftrightarrow>
     memo_means sha1 inflate pack offs (pass_memo st) \<and> ids_resolved sha1 offs (oid_to_offset st) (pass_memo st) \<and>
     (\<forall>off e. results st off = Some e \<longrightarrow> entry_object sha1 inflate pack offs off e)"

lemma pass_ok_step:
  assumes ok: "pass_ok sha1 inflate pack offs st" and off: "off \<in> offs"
    and r: "resolve_entry inflate pack off (oid_to_offset st) (pass_memo st) 0 = Inr ((ty, body), memo)"
      "canonical_bytes ty body = Inr canonical" "decode canonical = Inr ob"
  shows "pass_ok sha1 inflate pack offs (st\<lparr>oid_to_offset := (oid_to_offset st)(sha1 canonical \<mapsto> off),
    pass_memo := memo, results := (results st)(off \<mapsto> (sha1 canonical, ob))\<rparr>)"
proof -
  have m: "pack_value sha1 inflate pack offs off (ty, body)" "memo_means sha1 inflate pack offs memo"
    "ids_resolved sha1 offs (oid_to_offset st) memo" "memo off = Some (ty, body)"
    using resolve_entry_means [OF r(1)] ok unfolding pass_ok_def by blast+
  have c: "encode ob = canonical" "git_ok ob" using canonical_bytes_encode [OF r(2,3)] by auto
  have "ids_resolved sha1 offs ((oid_to_offset st)(sha1 canonical \<mapsto> off)) memo"
    using m(3,4) r(2) off by (auto simp: ids_resolved_def)
  moreover have "entry_object sha1 inflate pack offs off (sha1 canonical, ob)"
    using m(1) r(2) c by (auto simp: entry_object_def)
  ultimately show ?thesis using m(2) ok by (auto simp: pass_ok_def)
qed

lemma one_pass_Inr:
  "one_pass sha1 inflate pack rem st d = Inr (d', st') \<Longrightarrow> pass_ok sha1 inflate pack offs st \<Longrightarrow> set rem \<subseteq> offs \<Longrightarrow>
   pass_ok sha1 inflate pack offs st' \<and> dom (results st) \<subseteq> dom (results st') \<and> set d' \<subseteq> set d \<union> set rem \<and>
   set d \<union> set rem \<subseteq> set d' \<union> dom (results st')"
proof (induction rem arbitrary: st d)
  case (Cons off rem)
  have rem: "set rem \<subseteq> offs" "off \<in> offs" using Cons.prems(3) by auto
  from Cons.prems(1) show ?case
  proof (cases rule: one_pass_Cons)
    case (defer_it base)
    then show ?thesis using Cons.IH [OF defer_it(3) Cons.prems(2) rem(1)] by auto
  next
    case (done_it ty body memo canonical ob)
    note step = pass_ok_step [OF Cons.prems(2) rem(2) done_it(1-3)]
    have "pass_ok sha1 inflate pack offs st' \<and> dom ((results st)(off \<mapsto> (sha1 canonical, ob))) \<subseteq> dom (results st') \<and>
        set d' \<subseteq> set d \<union> set rem \<and> set d \<union> set rem \<subseteq> set d' \<union> dom (results st')"
      using Cons.IH [OF done_it(4) step rem(1)] by (simp del: fun_upd_apply)
    then show ?thesis by auto
  qed
qed simp

lemma resolve_passes_Nil [simp]: "resolve_passes sha1 inflate pack [] st = Inr st"
  by (simp add: resolve_passes.simps)

lemma resolve_passes_Inr:
  "resolve_passes sha1 inflate pack rem st = Inr st' \<Longrightarrow> pass_ok sha1 inflate pack offs st \<Longrightarrow> set rem \<subseteq> offs \<Longrightarrow>
   pass_ok sha1 inflate pack offs st' \<and> dom (results st) \<subseteq> dom (results st') \<and> set rem \<subseteq> dom (results st')"
proof (induction sha1 inflate pack rem st rule: resolve_passes.induct)
  case (1 sha1 inflate pack rem st)
  show ?case
  proof (cases "rem = []")
    case True
    then show ?thesis using "1.prems" by simp
  next
    case False
    obtain d st1 where p: "one_pass sha1 inflate pack rem st [] = Inr (d, st1)"
      "length d \<noteq> length rem" "resolve_passes sha1 inflate pack d st1 = Inr st'"
      using "1.prems"(1) False
      by (auto simp: resolve_passes.simps [of _ _ _ rem] split: sum.splits if_splits)
    have "set d \<subseteq> offs" using one_pass_Inr [OF p(1) "1.prems"(2,3)] "1.prems"(3) by auto
    then show ?thesis
      using one_pass_Inr [OF p(1) "1.prems"(2,3)] "1.IH" [OF False p(1) refl p(2,3)] by simp blast
  qed
qed

lemma emit_results_all:
  "distinct offsets \<Longrightarrow> set offsets \<subseteq> dom res \<Longrightarrow> map Some (emit_results offsets res) = map res offsets"
proof (induction offsets arbitrary: res)
  case (Cons off offsets)
  then obtain e where e: "res off = Some e" by auto
  have "map (res(off := None)) offsets = map res offsets" using Cons.prems(1) by auto
  moreover have "set offsets \<subseteq> dom (res(off := None))" using Cons.prems by auto
  ultimately show ?case using Cons.IH [of "res(off := None)"] Cons.prems(1) e by (simp del: fun_upd_apply)
qed simp

section \<open>Properties\<close>

text \<open>Delta chains: the memoised, depth-limited resolution agrees with the reference meaning of an
  entry, whatever sound memo it starts from. An answer is the value of the entry, an entry whose
  chain fits the depth limit is always answered, and the memo stays sound; cyclic chains end with
  an error since the function is total.\<close>
theorem resolve_entry_correct:
  assumes "memo_sound inflate pack o2o memo"
  shows "(\<forall>v memo'. resolve_entry inflate pack off o2o memo 0 = Inr (v, memo') \<longrightarrow>
      (\<exists>n. entry_value inflate pack o2o n off v) \<and> memo_sound inflate pack o2o memo') \<and>
    (\<forall>n v. entry_value inflate pack o2o n off v \<and> n \<le> MAX_DELTA_DEPTH \<longrightarrow>
      (\<exists>memo'. resolve_entry inflate pack off o2o memo 0 = Inr (v, memo')))"
  using resolve_entry_sound [OF _ assms] resolve_entry_complete [OF _ _ assms, of _ off _ 0] by auto

lemma resolve_entry_correct_witness:
  "\<exists>memo'. resolve_entry (\<lambda>z. Inr (take 5 z, 5)) (CHR 0x35 # ''hello'') 0 Map.empty Map.empty 0
     = Inr ((3, ''hello''), memo')"
proof -
  let ?inf = "\<lambda>z. Inr (take 5 z, 5) :: string + string \<times> nat"
  have p: "parse_entry_at ?inf (CHR 0x35 # ''hello'') 0 = Inr (BaseEntry 3 ''hello'')" by code_simp
  have s: "memo_sound ?inf (CHR 0x35 # ''hello'') Map.empty Map.empty" by (simp add: memo_sound_def)
  from resolve_entry_correct [OF s] value_base [OF p] show ?thesis by (metis zero_le)
qed

text \<open>Reading an indexed pack: on success the objects are exactly those of the index, in its order;
  each is the meaning of its entry, is well-formed and hashes to the id the index claims.\<close>
theorem read_pack_sound:
  assumes "read_pack sha1 inflate idx_bytes pack_bytes = Inr objs"
  shows "\<exists>index. parse_idx idx_bytes = Inr index \<and> parse_pack_header pack_bytes = Inr (length index) \<and>
    map fst objs = map fst index \<and> (\<forall>(i, ob)\<in>set objs. i = sha1 (encode ob) \<and> git_ok ob) \<and>
    list_all2 (\<lambda>(i, off) (j, ob). \<exists>n ty. entry_value inflate pack_bytes
      (foldl (\<lambda>m (i, off). m(i \<mapsto> off)) Map.empty index) n off (ty, git_body ob)) index objs"
proof -
  obtain d index where d: "parse_idx idx_bytes = Inr index" "parse_pack_header pack_bytes = Inr (length index)"
    "read_indexed sha1 inflate pack_bytes (foldl (\<lambda>m (i, off). m(i \<mapsto> off)) Map.empty index)
       index Map.empty \<lparr>objects = [], ofs_deltas = 0, ref_deltas = 0\<rparr> = Inr d" "objs = objects d"
    using assms by (auto simp: read_pack_def read_pack_detailed_def res_simps split: if_splits)
  have "memo_sound inflate pack_bytes (foldl (\<lambda>m (i, off). m(i \<mapsto> off)) Map.empty index) Map.empty"
    by (simp add: memo_sound_def)
  from read_indexed_Inr [OF d(3) this] d show ?thesis by auto
qed

definition tiny_pack :: string where
  "tiny_pack = ''PACK'' @ [CHR 0x00, CHR 0x00, CHR 0x00, CHR 0x02, CHR 0x00, CHR 0x00, CHR 0x00, CHR 0x01] @ CHR 0x35 # ''hello''"

text \<open>An index with one object: fanout of zeros with a final count, name, checksum, offset 12.\<close>

definition tiny_idx :: string where
  "tiny_idx = IDX_MAGIC @ [CHR 0x00, CHR 0x00, CHR 0x00, CHR 0x02] @ replicate 1020 (CHR 0x00) @
     [CHR 0x00, CHR 0x00, CHR 0x00, CHR 0x01] @ replicate 20 CHR ''h'' @ replicate 7 (CHR 0x00) @ [CHR 0x0C]"

lemma tiny_idx_parse: "parse_idx tiny_idx = Inr [(replicate 20 CHR ''h'', 12)]"
proof -
  have u: "read_be_u32 tiny_idx 4 = Inr 2" "read_be_u32 tiny_idx 1028 = Inr 1" "read_be_u32 tiny_idx 1056 = Inr 12"
    "get_range 1032 1052 tiny_idx = Some (replicate 20 CHR ''h'')" "length tiny_idx = 1060" "take 4 tiny_idx = IDX_MAGIC"
    by (simp_all add: read_be_u32_def get_range_def slice_of_def tiny_idx_def IDX_MAGIC_def be_value_def numeral_3_eq_3)
  show ?thesis by (simp add: parse_idx_def u checked_def)
qed

lemma read_pack_sound_witness:
  "read_pack (\<lambda>_. replicate 20 CHR ''h'') (\<lambda>z. Inr (take 5 z, 5)) tiny_idx tiny_pack
     = Inr [(replicate 20 CHR ''h'', Blob ''hello'')] \<and> git_ok (Blob ''hello'')"
proof -
  have p: "read_pack (\<lambda>_. replicate 20 CHR ''h'') (\<lambda>z. Inr (take 5 z, 5)) tiny_idx tiny_pack
     = Inr [(replicate 20 CHR ''h'', Blob ''hello'')]"
    unfolding read_pack_def read_pack_detailed_def tiny_idx_parse by code_simp
  from read_pack_sound [OF p] p show ?thesis by auto
qed

text \<open>C26: Reading a received pack: the passes end, and on success there is one object for each entry
  that the header announces, in pack order. Each is the object that its entry stands for, with
  every delta of its chain applied and every ref-delta resolved to an entry of the same pack whose
  object has the named id; it is well-formed and returned under the hash of its bytes.\<close>
theorem parse_pack_sound:
  assumes "parse_pack_bytes sha1 inflate pack = Inr objs"
  shows "parse_pack_header pack = Inr (length objs) \<and>
    (\<exists>offsets. discover inflate pack (length objs) 12 = Inr offsets \<and> distinct offsets \<and>
      list_all2 (entry_object sha1 inflate pack (set offsets)) offsets objs)"
proof -
  let ?st0 = "\<lparr>oid_to_offset = Map.empty, pass_memo = Map.empty, results = Map.empty\<rparr>"
  obtain count offsets st where p: "parse_pack_header pack = Inr count" "discover inflate pack count 12 = Inr offsets"
    "resolve_passes sha1 inflate pack offsets ?st0 = Inr st" "objs = emit_results offsets (results st)"
    using assms by (auto simp: parse_pack_bytes_def res_simps)
  have d: "length offsets = count" "distinct offsets" using discover_Inr [OF p(2)] by auto
  have "pass_ok sha1 inflate pack (set offsets) ?st0" by (simp add: pass_ok_def memo_means_def ids_resolved_def)
  from resolve_passes_Inr [OF p(3) this]
  have ok: "pass_ok sha1 inflate pack (set offsets) st" "set offsets \<subseteq> dom (results st)" by simp_all
  have m: "map Some objs = map (results st) offsets" unfolding p(4) by (rule emit_results_all [OF d(2) ok(2)])
  then have len: "length objs = length offsets" by (rule map_eq_imp_length_eq)
  have "entry_object sha1 inflate pack (set offsets) (offsets ! k) (objs ! k)" if "k < length offsets" for k
  proof -
    have "map Some objs ! k = map (results st) offsets ! k" unfolding m ..
    then have "results st (offsets ! k) = Some (objs ! k)" using that len by simp
    then show ?thesis using ok(1) unfolding pass_ok_def by blast
  qed
  then show ?thesis using p(1,2) d len by (auto simp: list_all2_conv_all_nth)
qed

text \<open>A pack with a blob and an ofs-delta that takes bytes 1 to 5 of it.\<close>

definition delta_pack :: string where
  "delta_pack = ''PACK'' @ [CHR 0x00, CHR 0x00, CHR 0x00, CHR 0x02, CHR 0x00, CHR 0x00, CHR 0x00, CHR 0x02] @
     (CHR 0x35 # ''hello'') @ [CHR 0x65, CHR 0x06, CHR 0x05, CHR 0x04, CHR 0x91, CHR 0x01, CHR 0x04]"

lemma parse_pack_sound_witness:
  "\<exists>objs offsets. parse_pack_bytes (\<lambda>s. s) (\<lambda>z. Inr (take 5 z, 5)) delta_pack = Inr objs \<and>
     map snd objs = [Blob ''hello'', Blob ''ello''] \<and> parse_pack_header delta_pack = Inr 2 \<and>
     list_all2 (entry_object (\<lambda>s. s) (\<lambda>z. Inr (take 5 z, 5)) delta_pack (set offsets)) offsets objs"
proof -
  obtain objs where p: "parse_pack_bytes (\<lambda>s. s) (\<lambda>z. Inr (take 5 z, 5)) delta_pack = Inr objs"
    "map snd objs = [Blob ''hello'', Blob ''ello'']"
  proof
    show "parse_pack_bytes (\<lambda>s. s) (\<lambda>z. Inr (take 5 z, 5)) delta_pack =
      Inr [(''blob 5'' @ CHR 0x00 # ''hello'', Blob ''hello''), (''blob 4'' @ CHR 0x00 # ''ello'', Blob ''ello'')]"
      by code_simp
  qed simp
  have "length objs = 2" using arg_cong [OF p(2), of length] by simp
  then show ?thesis using parse_pack_sound [OF p(1)] p by auto
qed

end
