(* ===== verification/GitDir.thy ===== *)
theory GitDir
  imports PackFile Workspace
begin

text \<open>
  A git repository on disk: \<open>gitdir.rs\<close>, \<open>loose.rs\<close>, \<open>refs.rs\<close>, the directory scans of
  \<open>pack.rs\<close> and \<open>verify_repo\<close> of \<open>gate.rs\<close>, over the directories of \<open>Workspace\<close>. A directory
  that does not exist is the empty one; the path that comes with it is the text of the error
  messages. Opening a file or directory fails exactly when the name holds something of another
  sort; other failures of the file system are not modelled. zlib and SHA-1 are parameters.
\<close>

section \<open>Entries of a directory\<close>

definition is_dir :: "dir \<Rightarrow> string \<Rightarrow> bool" where
  "is_dir d name \<longleftrightarrow> (case map_of d name of Some (DirN _) \<Rightarrow> True | _ \<Rightarrow> False)"

definition is_file :: "dir \<Rightarrow> string \<Rightarrow> bool" where
  "is_file d name \<longleftrightarrow> (case map_of d name of Some (FileN _) \<Rightarrow> True | _ \<Rightarrow> False)"

text \<open>\<open>std::fs::read_dir\<close> and \<open>std::fs::read\<close> with the missing entry as a case of its own, and
\<open>read_to_string\<close>.\<close>

definition read_dir :: "string \<Rightarrow> fs_node option \<Rightarrow> git_error + dir option" where
  "read_dir p x =
     (case x of None \<Rightarrow> Inr None | Some (DirN sub) \<Rightarrow> Inr (Some sub) | Some _ \<Rightarrow> Inl (GitIo p))"

definition read_file :: "string \<Rightarrow> fs_node option \<Rightarrow> git_error + string option" where
  "read_file p x =
     (case x of None \<Rightarrow> Inr None | Some (FileN bytes) \<Rightarrow> Inr (Some bytes) | Some _ \<Rightarrow> Inl (GitIo p))"

definition must :: "string \<Rightarrow> 'a option \<Rightarrow> git_error + 'a" where
  "must p x = ok_or (GitIo p) x"

definition read_to_string :: "string \<Rightarrow> fs_node option \<Rightarrow> git_error + string option" where
  "read_to_string p x =
     and_then (read_file p x) (\<lambda>r.
       case r of Some s \<Rightarrow> if utf8_valid s then Inr (Some s) else Inl (GitIo p) | None \<Rightarrow> Inr None)"

section \<open>The git directory\<close>

definition looks_like_git_dir :: "dir \<Rightarrow> bool" where
  "looks_like_git_dir d =
     (let has_objects = is_dir d ''objects''; has_refs = is_dir d ''refs''; has_head = is_file d ''HEAD''
      in has_objects \<and> (has_refs \<or> has_head))"

definition resolve_git_dir :: "string \<Rightarrow> dir \<Rightarrow> git_error + string \<times> dir" where
  "resolve_git_dir p d =
     (case map_of d ''.git'' of
        Some (DirN sub) \<Rightarrow> Inr (join_path p ''.git'', sub)
      | Some (FileN _) \<Rightarrow> Inl (NotARepository p)
      | _ \<Rightarrow> if looks_like_git_dir d then Inr (p, d) else Inl (NotARepository p))"

section \<open>Loose objects\<close>

definition inflate_all :: "inflater \<Rightarrow> string \<Rightarrow> git_error + string" where
  "inflate_all inflate data = (case inflate data of Inl e \<Rightarrow> Inl (Zlib e) | Inr (out, _) \<Rightarrow> Inr out)"

definition is_hex :: "char \<Rightarrow> bool" where
  "is_hex c \<longleftrightarrow> hex_value c \<noteq> None"

text \<open>A path is given by its components, after its text.\<close>

definition oid_from_loose_path :: "string \<Rightarrow> string list \<Rightarrow> git_error + git_oid" where
  "oid_from_loose_path p comps =
     (case rev comps of
        file # sub # _ \<Rightarrow>
          if \<not> utf8_valid file \<or> \<not> utf8_valid sub \<or> length sub \<noteq> 2 \<or> length file \<noteq> 38 then Inl (BadLoosePath p)
          else (case oid_from_hex (sub @ file) of Inl _ \<Rightarrow> Inl (BadLoosePath p) | Inr i \<Rightarrow> Inr i)
      | _ \<Rightarrow> Inl (BadLoosePath p))"

definition read_loose ::
  "(string \<Rightarrow> string) \<Rightarrow> inflater \<Rightarrow> string \<Rightarrow> string list \<Rightarrow> fs_node \<Rightarrow> git_error + git_oid \<times> git_object" where
  "read_loose sha1 inflate p comps x =
     and_then (read_file p (Some x)) (\<lambda>r.
     and_then (must p r) (\<lambda>raw.
     and_then (inflate_all inflate raw) (\<lambda>inflated.
     and_then (decode inflated) (\<lambda>ob.
     let computed = sha1 inflated in
     and_then (oid_from_loose_path p comps) (\<lambda>expected.
       if computed \<noteq> expected then Inl (OidMismatch (hex_encode expected) (hex_encode computed))
       else Inr (computed, ob))))))"

fun walk_shard ::
  "(string \<Rightarrow> string) \<Rightarrow> inflater \<Rightarrow> string \<Rightarrow> string \<Rightarrow> dir \<Rightarrow> (git_oid \<times> git_object) list \<Rightarrow>
   git_error + (git_oid \<times> git_object) list" where
  "walk_shard sha1 inflate p shard [] out = Inr out"
| "walk_shard sha1 inflate p shard ((fname, x) # files) out =
     (if \<not> utf8_valid fname \<or> length fname \<noteq> 38 \<or> \<not> list_all is_hex fname
      then walk_shard sha1 inflate p shard files out
      else and_then (read_loose sha1 inflate (join_path p fname) [shard, fname] x) (\<lambda>r.
        walk_shard sha1 inflate p shard files (out @ [r])))"

fun walk_shards ::
  "(string \<Rightarrow> string) \<Rightarrow> inflater \<Rightarrow> string \<Rightarrow> dir \<Rightarrow> (git_oid \<times> git_object) list \<Rightarrow>
   git_error + (git_oid \<times> git_object) list" where
  "walk_shards sha1 inflate p [] out = Inr out"
| "walk_shards sha1 inflate p ((name, x) # shards) out =
     (if \<not> utf8_valid name \<or> length name \<noteq> 2 \<or> \<not> list_all is_hex name
      then walk_shards sha1 inflate p shards out
      else and_then (read_dir (join_path p name) (Some x)) (\<lambda>r.
           and_then (must (join_path p name) r) (\<lambda>files.
           and_then (walk_shard sha1 inflate (join_path p name) name files out) (\<lambda>out.
             walk_shards sha1 inflate p shards out))))"

definition walk_loose ::
  "(string \<Rightarrow> string) \<Rightarrow> inflater \<Rightarrow> string \<Rightarrow> dir \<Rightarrow> git_error + (git_oid \<times> git_object) list" where
  "walk_loose sha1 inflate p d =
     (let objs_dir = join_path p ''objects'' in
      and_then (read_dir objs_dir (map_of d ''objects'')) (\<lambda>r.
        case r of None \<Rightarrow> Inr [] | Some shards \<Rightarrow> walk_shards sha1 inflate objs_dir shards []))"

definition loose_path :: "git_oid \<Rightarrow> string list" where
  "loose_path i = (let hex = hex_encode i in [take 2 hex, drop 2 hex])"

section \<open>Packs\<close>

text \<open>\<open>Path::extension\<close> and \<open>Path::with_extension\<close> of a file name.\<close>

definition split_ext :: "string \<Rightarrow> (string \<times> string) option" where
  "split_ext name =
     (if name = ''..'' then None
      else case rsplit_once CHR ''.'' name of
        Some (stem, e) \<Rightarrow> if stem = [] then None else Some (stem, e)
      | None \<Rightarrow> None)"

definition is_pack_name :: "string \<Rightarrow> bool" where
  "is_pack_name name \<longleftrightarrow> (case split_ext name of Some (_, e) \<Rightarrow> e = ''pack'' | None \<Rightarrow> False)"

definition with_idx :: "string \<Rightarrow> string" where
  "with_idx name = (case split_ext name of Some (stem, _) \<Rightarrow> stem @ ''.idx'' | None \<Rightarrow> name @ ''.idx'')"

text \<open>The directory \<open>objects/pack\<close>: a file in the place of \<open>objects\<close> is an error, not a missing directory.\<close>

definition pack_dir :: "string \<Rightarrow> dir \<Rightarrow> git_error + dir option" where
  "pack_dir p d =
     (case map_of d ''objects'' of
        None \<Rightarrow> Inr None
      | Some (DirN objs) \<Rightarrow> read_dir (join_path (join_path p ''objects'') ''pack'') (map_of objs ''pack'')
      | Some _ \<Rightarrow> Inl (GitIo (join_path (join_path p ''objects'') ''pack'')))"

definition pack_file_count :: "dir \<Rightarrow> nat" where
  "pack_file_count d =
     (case pack_dir [] d of
        Inr (Some files) \<Rightarrow> length (filter is_pack_name (map fst files))
      | _ \<Rightarrow> 0)"

definition pack_paths :: "string \<Rightarrow> dir \<Rightarrow> git_error + string list" where
  "pack_paths p d =
     and_then (pack_dir p d) (\<lambda>r.
       case r of None \<Rightarrow> Inr [] | Some files \<Rightarrow> Inr (sort (filter is_pack_name (map fst files))))"

definition read_pack_file ::
  "(string \<Rightarrow> string) \<Rightarrow> inflater \<Rightarrow> string \<Rightarrow> dir \<Rightarrow> string \<Rightarrow> git_error + (git_oid \<times> git_object) list" where
  "read_pack_file sha1 inflate p files name =
     and_then (read_file (join_path p (with_idx name)) (map_of files (with_idx name))) (\<lambda>r.
     and_then (must (join_path p (with_idx name)) r) (\<lambda>idx_bytes.
     and_then (read_file (join_path p name) (map_of files name)) (\<lambda>r.
     and_then (must (join_path p name) r) (\<lambda>pack_bytes.
       read_pack sha1 inflate idx_bytes pack_bytes))))"

fun read_packs ::
  "(string \<Rightarrow> string) \<Rightarrow> inflater \<Rightarrow> string \<Rightarrow> dir \<Rightarrow> string list \<Rightarrow> git_error + (git_oid \<times> git_object) list" where
  "read_packs sha1 inflate p files [] = Inr []"
| "read_packs sha1 inflate p files (name # names) =
     and_then (read_pack_file sha1 inflate p files name) (\<lambda>os.
     and_then (read_packs sha1 inflate p files names) (\<lambda>rest. Inr (os @ rest)))"

definition read_all_packs ::
  "(string \<Rightarrow> string) \<Rightarrow> inflater \<Rightarrow> string \<Rightarrow> dir \<Rightarrow> git_error + (git_oid \<times> git_object) list" where
  "read_all_packs sha1 inflate p d =
     and_then (pack_paths p d) (\<lambda>names.
     and_then (pack_dir p d) (\<lambda>r.
       read_packs sha1 inflate (join_path (join_path p ''objects'') ''pack'')
         (case r of Some files \<Rightarrow> files | None \<Rightarrow> []) names))"

section \<open>The gate over a repository\<close>

definition verify_repo ::
  "(string \<Rightarrow> string) \<Rightarrow> inflater \<Rightarrow> string \<Rightarrow> dir \<Rightarrow> git_error + git_report" where
  "verify_repo sha1 inflate path root =
     and_then (resolve_git_dir path root) (\<lambda>(p, d).
     and_then (walk_loose sha1 inflate p d) (\<lambda>loose.
     and_then (gate_all sha1 loose
       \<lparr>blobs = 0, trees = 0, commits = 0, tags = 0, packfiles = pack_file_count d\<rparr>) (\<lambda>r.
     and_then (read_all_packs sha1 inflate p d) (\<lambda>packed.
     and_then (gate_all sha1 packed r) (\<lambda>r.
       if total r = 0 \<and> packfiles r = 0 then Inl (EmptyRepository path) else Inr r)))))"

section \<open>The files a walk reads\<close>

definition loose_name :: "nat \<Rightarrow> string \<Rightarrow> bool" where
  "loose_name k n \<longleftrightarrow> utf8_valid n \<and> length n = k \<and> list_all is_hex n"

text \<open>The files at paths of the shape of a loose object, with their shard and name.\<close>

definition shard_files :: "string \<times> fs_node \<Rightarrow> ((string \<times> string) \<times> fs_node) list" where
  "shard_files s =
     (if loose_name 2 (fst s)
      then (case snd s of
          DirN files \<Rightarrow> map (\<lambda>(f, x). ((fst s, f), x)) (filter (\<lambda>(f, x). loose_name 38 f) files)
        | _ \<Rightarrow> [])
      else [])"

definition loose_files :: "dir \<Rightarrow> ((string \<times> string) \<times> fs_node) list" where
  "loose_files shards = concat (map shard_files shards)"

definition objects_dir :: "dir \<Rightarrow> dir" where
  "objects_dir d = (case map_of d ''objects'' of Some (DirN shards) \<Rightarrow> shards | _ \<Rightarrow> [])"

text \<open>A file holds an object under its id: it inflates to the bytes of the object, their hash is
the name of the file.\<close>

definition holds_object ::
  "(string \<Rightarrow> string) \<Rightarrow> inflater \<Rightarrow> (string \<times> string) \<times> fs_node \<Rightarrow> git_oid \<times> git_object \<Rightarrow> bool" where
  "holds_object sha1 inflate file entry \<longleftrightarrow>
     (\<exists>n f raw inflated k. file = ((n, f), FileN raw) \<and> inflate raw = Inr (inflated, k) \<and>
        decode inflated = Inr (snd entry) \<and> fst entry = sha1 inflated \<and> oid_from_hex (n @ f) = Inr (fst entry))"

lemma walk_shard_Cons:
  "walk_shard sha1 inflate p n ((f, x) # files) out =
     (if loose_name 38 f
      then and_then (read_loose sha1 inflate (join_path p f) [n, f] x) (\<lambda>r.
        walk_shard sha1 inflate p n files (out @ [r]))
      else walk_shard sha1 inflate p n files out)"
  by (auto simp: loose_name_def)

lemma walk_shards_Cons:
  "walk_shards sha1 inflate p ((n, x) # shards) out =
     (if loose_name 2 n
      then and_then (read_dir (join_path p n) (Some x)) (\<lambda>r.
           and_then (must (join_path p n) r) (\<lambda>files.
           and_then (walk_shard sha1 inflate (join_path p n) n files out) (\<lambda>out.
             walk_shards sha1 inflate p shards out)))
      else walk_shards sha1 inflate p shards out)"
  by (auto simp: loose_name_def)

declare walk_shard.simps(2) [simp del] walk_shards.simps(2) [simp del]

lemma read_loose_Inr:
  assumes "loose_name 2 n" "loose_name 38 f"
  shows "read_loose sha1 inflate p [n, f] x = Inr e \<longleftrightarrow> holds_object sha1 inflate ((n, f), x) e"
  using assms
  by (cases x; cases e)
     (auto simp: read_loose_def holds_object_def loose_name_def read_file_def must_def inflate_all_def
       oid_from_loose_path_def res_simps Let_def split: if_splits sum.splits)

lemma walk_shard_Inr:
  assumes "loose_name 2 n"
  shows "walk_shard sha1 inflate p n files out = Inr out' \<longleftrightarrow>
    (\<exists>rs. out' = out @ rs \<and> list_all2 (holds_object sha1 inflate) (shard_files (n, DirN files)) rs)"
proof (induction files arbitrary: out)
  case Nil
  then show ?case by (auto simp: shard_files_def)
next
  case (Cons e files)
  obtain f x where e: "e = (f, x)" by (cases e)
  show ?case
  proof (cases "loose_name 38 f")
    case True
    have "walk_shard sha1 inflate p n (e # files) out = Inr out' \<longleftrightarrow>
        (\<exists>r. holds_object sha1 inflate ((n, f), x) r \<and> walk_shard sha1 inflate p n files (out @ [r]) = Inr out')"
      by (simp add: e walk_shard_Cons True res_simps read_loose_Inr [OF assms True])
    then show ?thesis using True assms
      by (auto simp: Cons.IH e shard_files_def list_all2_Cons1)
  qed (simp add: e walk_shard_Cons Cons.IH shard_files_def)
qed

lemma list_all2_append_split:
  "list_all2 P (xs @ ys) rs \<longleftrightarrow> (\<exists>us vs. rs = us @ vs \<and> list_all2 P xs us \<and> list_all2 P ys vs)"
  unfolding list_all2_append1 using list_all2_lengthD by metis

lemma walk_shards_Inr:
  "walk_shards sha1 inflate p shards out = Inr out' \<longleftrightarrow>
    (\<forall>(n, x)\<in>set shards. loose_name 2 n \<longrightarrow> (\<exists>files. x = DirN files)) \<and>
    (\<exists>rs. out' = out @ rs \<and> list_all2 (holds_object sha1 inflate) (loose_files shards) rs)"
proof (induction shards arbitrary: out)
  case Nil
  then show ?case by (auto simp: loose_files_def)
next
  case (Cons e shards)
  obtain n x where e: "e = (n, x)" by (cases e)
  show ?case
  proof (cases "loose_name 2 n")
    case True
    show ?thesis
    proof (cases "\<exists>files. x = DirN files")
      case True
      then obtain files where x: "x = DirN files" by blast
      have "walk_shards sha1 inflate p (e # shards) out = Inr out' \<longleftrightarrow>
          (\<exists>out1. walk_shard sha1 inflate (join_path p n) n files out = Inr out1 \<and>
             walk_shards sha1 inflate p shards out1 = Inr out')"
        using \<open>loose_name 2 n\<close> by (simp add: e x walk_shards_Cons read_dir_def must_def res_simps)
      then have "walk_shards sha1 inflate p (e # shards) out = Inr out' \<longleftrightarrow>
          (\<exists>us vs. out' = out @ us @ vs \<and> list_all2 (holds_object sha1 inflate) (shard_files e) us \<and>
             (\<forall>(n, x)\<in>set shards. loose_name 2 n \<longrightarrow> (\<exists>files. x = DirN files)) \<and>
             list_all2 (holds_object sha1 inflate) (loose_files shards) vs)"
        unfolding walk_shard_Inr [OF \<open>loose_name 2 n\<close>] Cons.IH e x append_assoc [symmetric] by blast
      then show ?thesis
        unfolding loose_files_def list.map concat.simps list_all2_append_split e x by auto
    next
      case False
      then show ?thesis using True by (cases x) (auto simp: e walk_shards_Cons read_dir_def must_def)
    qed
  next
    case False
    then have "shard_files e = []" by (simp add: e shard_files_def)
    then show ?thesis using False by (simp add: e walk_shards_Cons Cons.IH loose_files_def)
  qed
qed

lemma walk_loose_Inr:
  "walk_loose sha1 inflate p d = Inr out \<Longrightarrow>
   list_all2 (holds_object sha1 inflate) (loose_files (objects_dir d)) out"
  by (auto simp: walk_loose_def read_dir_def objects_dir_def walk_shards_Inr loose_files_def res_simps Let_def
      split: option.splits fs_node.splits)

section \<open>Properties\<close>

text \<open>What a pass of \<open>verify_repo\<close> means: the objects of all loose files were read, each under the
  id that its path names, and with the objects of the packs each passes the gate with the hash
  its path or index claims; the report counts all of them, and an empty result without a single
  pack file is refused.\<close>
theorem verify_repo_sound:
  assumes "verify_repo sha1 inflate path root = Inr r"
  shows "\<exists>p d loose packed. resolve_git_dir path root = Inr (p, d) \<and>
    list_all2 (holds_object sha1 inflate) (loose_files (objects_dir d)) loose \<and>
    read_all_packs sha1 inflate p d = Inr packed \<and>
    (\<forall>(i, ob)\<in>set (loose @ packed). i = sha1 (encode ob) \<and> roundtrip_ok sha1 (encode ob) = Inr i) \<and>
    total r = length loose + length packed \<and> packfiles r = pack_file_count d \<and>
    \<not> (total r = 0 \<and> packfiles r = 0)"
proof -
  let ?r0 = "\<lambda>d. \<lparr>blobs = 0, trees = 0, commits = 0, tags = 0, packfiles = pack_file_count d\<rparr>"
  from assms obtain p d loose packed r1 where v: "resolve_git_dir path root = Inr (p, d)"
    "walk_loose sha1 inflate p d = Inr loose" "gate_all sha1 loose (?r0 d) = Inr r1"
    "read_all_packs sha1 inflate p d = Inr packed" "gate_all sha1 packed r1 = Inr r"
    "\<not> (total r = 0 \<and> packfiles r = 0)"
    by (auto simp: verify_repo_def res_simps split: if_splits)
  have "(\<forall>(i, ob)\<in>set (loose @ packed). roundtrip_ok sha1 (encode ob) = Inr i) \<and>
      total r = length loose + length packed \<and> packfiles r = pack_file_count d"
    using gate_all_Inr [OF v(3)] gate_all_Inr [OF v(5)] by (auto simp: total_def)
  moreover have "i = sha1 (encode ob)" if "roundtrip_ok sha1 (encode ob) = Inr i" for i ob
    using that by (auto simp: roundtrip_ok_Inr)
  ultimately show ?thesis using v(1,4,6) walk_loose_Inr [OF v(2)] by (intro exI conjI) (assumption | blast)+
qed

text \<open>A repository with one loose blob, its name the hash of a constant function.\<close>

definition ex_hash :: string where
  "ex_hash = replicate 20 (CHR 0x11)"

definition ex_inflate :: inflater where
  "ex_inflate data = Inr (data, length data)"

definition ex_repo :: dir where
  "ex_repo =
     [(''.git'', DirN
        [(''objects'', DirN [(''info'', DirN []),
           (''11'', DirN [(concat (replicate 19 ''11''), FileN (encode (Blob ''x'')))])]),
         (''refs'', DirN [])])]"

lemma verify_repo_sound_witness:
  "verify_repo (\<lambda>_. ex_hash) ex_inflate ''r'' ex_repo
     = Inr \<lparr>blobs = 1, trees = 0, commits = 0, tags = 0, packfiles = 0\<rparr> \<and>
   (\<exists>loose. list_all2 (holds_object (\<lambda>_. ex_hash) ex_inflate)
      (loose_files [(''info'', DirN []), (''11'', DirN [(concat (replicate 19 ''11''), FileN (encode (Blob ''x'')))])])
      loose)"
proof -
  have v: "verify_repo (\<lambda>_. ex_hash) ex_inflate ''r'' ex_repo
     = Inr \<lparr>blobs = 1, trees = 0, commits = 0, tags = 0, packfiles = 0\<rparr>" by code_simp
  from verify_repo_sound [OF v] obtain p d loose where
    "resolve_git_dir ''r'' ex_repo = Inr (p, d)"
    "list_all2 (holds_object (\<lambda>_. ex_hash) ex_inflate) (loose_files (objects_dir d)) loose" by blast
  then show ?thesis using v by (auto simp: resolve_git_dir_def ex_repo_def objects_dir_def)
qed

text \<open>A repository with a pack and not one object passes.\<close>

definition empty_idx :: string where
  "empty_idx = IDX_MAGIC @ [CHR 0x00, CHR 0x00, CHR 0x00, CHR 0x02] @ replicate 1064 (CHR 0x00)"

definition empty_pack :: string where
  "empty_pack = PACK_MAGIC @ [CHR 0x00, CHR 0x00, CHR 0x00, CHR 0x02] @ replicate 4 (CHR 0x00)"

lemma be_value_zeros: "foldl (\<lambda>n b. 256 * n + byte b) 0 (replicate k (CHR 0x00)) = 0"
  by (induction k) auto

lemma empty_idx_parse: "parse_idx empty_idx = Inr []"
proof -
  have u: "read_be_u32 empty_idx 4 = Inr 2" "read_be_u32 empty_idx 1028 = Inr 0" "length empty_idx = 1072"
    "take 4 empty_idx = IDX_MAGIC"
    by (simp_all add: read_be_u32_def get_range_def slice_of_def empty_idx_def IDX_MAGIC_def be_value_def
      be_value_zeros)
  show ?thesis by (simp add: parse_idx_def u checked_def)
qed

lemma verify_repo_vacuous:
  "verify_repo sha1 inflate ''r''
     [(''objects'', DirN [(''pack'', DirN [(''p.pack'', FileN empty_pack), (''p.idx'', FileN empty_idx)])]),
      (''refs'', DirN [])]
     = Inr \<lparr>blobs = 0, trees = 0, commits = 0, tags = 0, packfiles = 1\<rparr>"
proof -
  have n: "is_pack_name ''p.pack''" "\<not> is_pack_name ''p.idx''" "with_idx ''p.pack'' = ''p.idx''" by code_simp+
  have "read_pack sha1 inflate empty_idx empty_pack = Inr []"
    unfolding read_pack_def read_pack_detailed_def empty_idx_parse by code_simp
  moreover have "\<not> loose_name 2 ''pack''" by code_simp
  ultimately show ?thesis
    by (simp add: verify_repo_def resolve_git_dir_def looks_like_git_dir_def is_dir_def walk_loose_def read_dir_def
        walk_shards_Cons read_all_packs_def pack_paths_def pack_dir_def pack_file_count_def read_pack_file_def
        read_file_def must_def total_def n)
qed

text \<open>Resolving a path is not idempotent when the git directory has an entry \<open>.git\<close> of its own:
the second resolution descends again.\<close>
lemma resolve_git_dir_descends_twice:
  "resolve_git_dir ''r'' [(''.git'', DirN [(''objects'', DirN []), (''refs'', DirN []), (''.git'', DirN [])])]
     = Inr (''r/.git'', [(''objects'', DirN []), (''refs'', DirN []), (''.git'', DirN [])]) \<and>
   resolve_git_dir ''r/.git'' [(''objects'', DirN []), (''refs'', DirN []), (''.git'', DirN [])] = Inr (''r/.git/.git'', [])"
  by code_simp

end
