(* ===== verification/GitRefs.thy ===== *)
theory GitRefs
  imports GitDir
begin

text \<open>
  The refs of a git repository, \<open>refs.rs\<close>: \<open>packed-refs\<close>, the loose refs under \<open>refs/\<close> and
  \<open>HEAD\<close>, in this order into one map, and the resolution of symbolic refs. The map is an
  association list; \<open>read_refs\<close> answers it in the order of the names.
\<close>

section \<open>Raw refs\<close>

datatype raw_ref = OidRef git_oid | Symbolic string

type_synonym raw_refs = "(string \<times> raw_ref) list"

definition parse_ref_content :: "string \<Rightarrow> string \<Rightarrow> git_error + raw_ref" where
  "parse_ref_content name content =
     (let content = trim content in
      if prefix ''ref:'' content then Inr (Symbolic (trim (drop 4 content)))
      else (case oid_from_hex content of
          Inr i \<Rightarrow> Inr (OidRef i)
        | Inl _ \<Rightarrow> Inl (BadRef name ''not a 40-hex oid or a `ref:` symref'')))"

function resolve_ref :: "string \<Rightarrow> raw_refs \<Rightarrow> nat \<Rightarrow> git_error + git_oid option" where
  "resolve_ref name raw depth =
     (if 8 < depth then Inl (BadRef name ''symbolic ref chain too deep (possible cycle)'')
      else (case map_of raw name of
          Some (OidRef i) \<Rightarrow> Inr (Some i)
        | Some (Symbolic target) \<Rightarrow> resolve_ref target raw (depth + 1)
        | None \<Rightarrow> Inr None))"
  by pat_completeness auto
termination by (relation "measure (\<lambda>(name, raw, depth). 9 - depth)") auto

declare resolve_ref.simps [simp del]

section \<open>Reading\<close>

definition read_head :: "string \<Rightarrow> dir \<Rightarrow> raw_refs \<Rightarrow> git_error + raw_refs" where
  "read_head p d raw =
     and_then (read_to_string (join_path p ''HEAD'') (map_of d ''HEAD'')) (\<lambda>r.
       case r of
         None \<Rightarrow> Inr raw
       | Some content \<Rightarrow>
           and_then (parse_ref_content ''HEAD'' content) (\<lambda>v. Inr (AList.update ''HEAD'' v raw)))"

text \<open>The loose refs of a directory, \<open>nm\<close> the name of the ref that the directory stands for.\<close>

function read_loose_refs :: "string \<Rightarrow> string \<Rightarrow> dir \<Rightarrow> raw_refs \<Rightarrow> git_error + raw_refs" where
  "read_loose_refs p nm [] raw = Inr raw"
| "read_loose_refs p nm ((n, x) # es) raw =
     (case x of
        OpaqueN \<Rightarrow> Inl (GitIo (join_path p n))
      | DirN sub \<Rightarrow>
          and_then (read_loose_refs (join_path p n) (join_path nm (utf8_lossy n)) sub raw)
            (\<lambda>raw. read_loose_refs p nm es raw)
      | _ \<Rightarrow>
          and_then (read_to_string (join_path p n) (Some x)) (\<lambda>r.
          and_then (must (join_path p n) r) (\<lambda>content.
          let name = join_path nm (utf8_lossy n) in
          and_then (parse_ref_content name content) (\<lambda>v.
            read_loose_refs p nm es (AList.update name v raw)))))"
  by pat_completeness auto
termination
  by (relation "measure (\<lambda>(p, nm, es, raw). size_list (size_prod (\<lambda>_. 0) size) es)") auto

fun packed_lines :: "line list \<Rightarrow> raw_refs \<Rightarrow> git_error + raw_refs" where
  "packed_lines [] raw = Inr raw"
| "packed_lines (l # ls) raw =
     (if l = [] \<or> prefix ''#'' l \<or> prefix ''^'' l then packed_lines ls raw
      else (case split_once CHR '' '' l of
          None \<Rightarrow> Inl (BadRef l ''packed-refs line is not `<oid> <refname>`'')
        | Some (oid_s, name) \<Rightarrow>
            (let name = trim name in
             case oid_from_hex (trim oid_s) of
               Inl _ \<Rightarrow> Inl (BadRef name ''packed-refs oid is not 40-hex'')
             | Inr i \<Rightarrow> packed_lines ls (AList.update name (OidRef i) raw))))"

definition read_packed_refs :: "string \<Rightarrow> dir \<Rightarrow> raw_refs \<Rightarrow> git_error + raw_refs" where
  "read_packed_refs p d raw =
     and_then (read_to_string (join_path p ''packed-refs'') (map_of d ''packed-refs'')) (\<lambda>r.
       case r of None \<Rightarrow> Inr raw | Some content \<Rightarrow> packed_lines (str_lines content) raw)"

definition read_raw_refs :: "string \<Rightarrow> dir \<Rightarrow> git_error + raw_refs" where
  "read_raw_refs p d =
     and_then (read_packed_refs p d []) (\<lambda>raw.
     let refs_root = join_path p ''refs'' in
     and_then (read_dir refs_root (map_of d ''refs'')) (\<lambda>r.
     and_then (case r of None \<Rightarrow> Inr raw | Some es \<Rightarrow> read_loose_refs refs_root ''refs'' es raw) (\<lambda>raw.
       read_head p d raw)))"

fun resolve_names :: "string list \<Rightarrow> raw_refs \<Rightarrow> git_error + (string \<times> git_oid) list" where
  "resolve_names [] raw = Inr []"
| "resolve_names (name # names) raw =
     and_then (resolve_ref name raw 0) (\<lambda>r.
     and_then (resolve_names names raw) (\<lambda>out.
       Inr (case r of Some i \<Rightarrow> (name, i) # out | None \<Rightarrow> out)))"

definition read_refs :: "string \<Rightarrow> dir \<Rightarrow> git_error + (string \<times> git_oid) list" where
  "read_refs p d =
     and_then (read_raw_refs p d) (\<lambda>raw.
     and_then (resolve_names (sort (map fst raw)) raw) (\<lambda>out. Inr (sort_key fst out)))"

section \<open>What a ref names\<close>

text \<open>The id at the end of a chain of symbolic refs, with the number of hops.\<close>

inductive names :: "raw_refs \<Rightarrow> string \<Rightarrow> nat \<Rightarrow> git_oid \<Rightarrow> bool" for raw where
  direct: "map_of raw n = Some (OidRef i) \<Longrightarrow> names raw n 0 i"
| hop: "map_of raw n = Some (Symbolic t) \<Longrightarrow> names raw t k i \<Longrightarrow> names raw n (Suc k) i"

inductive_cases namesE: "names raw n k i"

lemma resolve_Some: "resolve_ref name raw depth = Inr (Some i) \<longleftrightarrow> (\<exists>k. depth + k \<le> 8 \<and> names raw name k i)"
proof (induction name raw depth rule: resolve_ref.induct)
  case (1 name raw depth)
  show ?case
  proof (cases "8 < depth")
    case False
    show ?thesis
    proof (cases "map_of raw name")
      case None
      then show ?thesis by (subst resolve_ref.simps) (auto elim: namesE)
    next
      case (Some r)
      show ?thesis
      proof (cases r)
        case (OidRef j)
        then have "names raw name k i \<longleftrightarrow> k = 0 \<and> j = i" for k
          using Some by (auto elim: namesE intro: names.direct)
        then show ?thesis using False Some OidRef by (subst resolve_ref.simps) auto
      next
        case (Symbolic t)
        have h: "names raw name k i \<longleftrightarrow> (\<exists>k'. k = Suc k' \<and> names raw t k' i)" for k
          using Some Symbolic by (auto elim: namesE intro: names.hop)
        have "resolve_ref name raw depth = resolve_ref t raw (depth + 1)"
          using False Some Symbolic by (subst resolve_ref.simps) simp
        moreover have "(\<exists>k. depth + k \<le> 8 \<and> names raw name k i) \<longleftrightarrow> (\<exists>k. depth + 1 + k \<le> 8 \<and> names raw t k i)"
          unfolding h by (metis add.assoc plus_1_eq_Suc)
        ultimately show ?thesis using "1.IH" [OF False Some Symbolic] by simp
      qed
    qed
  qed (subst resolve_ref.simps, simp)
qed

lemma names_unique: "names raw n k i \<Longrightarrow> names raw n k' i' \<Longrightarrow> i' = i \<and> k' = k"
proof (induction arbitrary: k' rule: names.induct)
  case (direct n i)
  from direct(2,1) show ?case by cases auto
next
  case (hop n t k i)
  from hop(4,1) show ?case by cases (use hop(3) in auto)
qed

lemma resolve_names_Inr:
  assumes "resolve_names ns raw = Inr out"
  shows "set out = {(n, i). n \<in> set ns \<and> resolve_ref n raw 0 = Inr (Some i)} \<and> (distinct ns \<longrightarrow> distinct (map fst out))"
  using assms
proof (induction ns arbitrary: out)
  case (Cons n ns)
  then obtain r out' where r: "resolve_ref n raw 0 = Inr r" "resolve_names ns raw = Inr out'"
    "out = (case r of Some i \<Rightarrow> (n, i) # out' | None \<Rightarrow> out')" by (auto simp: res_simps)
  from Cons.IH [OF r(2)] r(1,3) show ?case by (cases r) auto
qed simp

lemma packed_lines_distinct:
  "packed_lines ls raw = Inr raw' \<Longrightarrow> distinct (map fst raw) \<Longrightarrow> distinct (map fst raw')"
proof (induction ls arbitrary: raw)
  case (Cons l ls)
  then show ?case
    by (auto simp: distinct_update Let_def split: if_splits option.splits prod.splits sum.splits)
qed simp

lemma read_loose_refs_distinct:
  "read_loose_refs p nm es raw = Inr raw' \<Longrightarrow> distinct (map fst raw) \<Longrightarrow> distinct (map fst raw')"
proof (induction p nm es raw arbitrary: raw' rule: read_loose_refs.induct)
  case (2 p nm n x es raw)
  show ?case
  proof (cases x)
    case (DirN sub)
    with "2.prems" obtain raw1 where "read_loose_refs (join_path p n) (join_path nm (utf8_lossy n)) sub raw = Inr raw1"
      "read_loose_refs p nm es raw1 = Inr raw'" by (auto simp: res_simps)
    then show ?thesis using "2.IH"(2,3) [OF DirN] "2.prems" by blast
  next
    case (FileN s)
    then obtain r c v where r: "read_to_string (join_path p n) (Some x) = Inr r" "must (join_path p n) r = Inr c"
      "parse_ref_content (join_path nm (utf8_lossy n)) c = Inr v"
      "read_loose_refs p nm es (AList.update (join_path nm (utf8_lossy n)) v raw) = Inr raw'"
      using "2.prems"(1) by (auto simp: res_simps Let_def simp del: and_then.simps)
    show ?thesis by (rule "2.IH"(1) [OF FileN r(1,2) refl r(3,4) distinct_update [OF "2.prems"(2)]])
  next
    case SpecialN
    then show ?thesis using "2.prems"(1) by (simp add: read_to_string_def read_file_def)
  next
    case OpaqueN
    then show ?thesis using "2.prems"(1) by simp
  qed
qed simp

lemma read_raw_refs_distinct:
  assumes "read_raw_refs p d = Inr raw"
  shows "distinct (map fst raw)"
proof -
  obtain raw1 r raw2 where r: "read_packed_refs p d [] = Inr raw1"
    "(case r of None \<Rightarrow> Inr raw1 | Some es \<Rightarrow> read_loose_refs (join_path p ''refs'') ''refs'' es raw1) = Inr raw2"
    "read_head p d raw2 = Inr raw" using assms by (auto simp: read_raw_refs_def res_simps Let_def)
  have "distinct (map fst raw1)"
    using r(1) packed_lines_distinct [of _ "[]" raw1] by (auto simp: read_packed_refs_def res_simps split: option.splits)
  then have "distinct (map fst raw2)"
    using r(2) read_loose_refs_distinct by (auto split: option.splits)
  then show ?thesis
    using r(3) by (auto simp: read_head_def res_simps distinct_update split: option.splits)
qed

lemma read_refs_spec:
  assumes "read_refs p d = Inr out"
  shows "\<exists>raw. read_raw_refs p d = Inr raw \<and> sorted (map fst out) \<and> distinct (map fst out) \<and>
    (\<forall>n i. (n, i) \<in> set out \<longleftrightarrow> (\<exists>k\<le>8. names raw n k i))"
proof -
  obtain raw out' where r: "read_raw_refs p d = Inr raw" "resolve_names (sort (map fst raw)) raw = Inr out'"
    "out = sort_key fst out'" using assms by (auto simp: read_refs_def res_simps)
  have s: "set out' = {(n, i). n \<in> set (map fst raw) \<and> resolve_ref n raw 0 = Inr (Some i)}"
    "distinct (map fst out')"
    using resolve_names_Inr [OF r(2)] read_raw_refs_distinct [OF r(1)] by auto
  from s(2) have "distinct (map fst out)" unfolding r(3) by (simp add: distinct_map)
  moreover have "(n, i) \<in> set out \<longleftrightarrow> (\<exists>k\<le>8. names raw n k i)" for n i
  proof -
    have "names raw n k i \<Longrightarrow> n \<in> set (map fst raw)" for k
      by (erule namesE) (metis map_of_eq_None_iff option.distinct(1) set_map)+
    moreover have "(n, i) \<in> set out \<longleftrightarrow> n \<in> set (map fst raw) \<and> resolve_ref n raw 0 = Inr (Some i)"
      by (simp add: r(3) s(1))
    ultimately show ?thesis by (auto simp: resolve_Some)
  qed
  ultimately show ?thesis using r by auto
qed

section \<open>Properties\<close>

text \<open>The refs of a repository: the answer lists, in the order of the names and each name once, exactly
  the refs that lead to an object over at most eight symbolic refs, with that object.\<close>
theorem read_refs_exact:
  assumes "read_refs p d = Inr out"
  shows "\<exists>raw. read_raw_refs p d = Inr raw \<and> sorted (map fst out) \<and> distinct (map fst out) \<and>
    (\<forall>n i. (n, i) \<in> set out \<longleftrightarrow> (\<exists>k\<le>8. names raw n k i))"
  using read_refs_spec [OF assms] .

text \<open>A repository with a branch, \<open>HEAD\<close> on it, a dangling symbolic ref and a packed tag that a
loose ref overrides.\<close>

definition ex_refs :: dir where
  "ex_refs =
     [(''HEAD'', FileN (''ref: refs/heads/main'' @ [newline])),
      (''packed-refs'', FileN (unlines [''# pack-refs'', concat (replicate 20 ''22'') @ '' refs/tags/v1'',
          ''^'' @ concat (replicate 20 ''44'')])),
      (''refs'', DirN [(''heads'', DirN [(''main'', FileN (concat (replicate 20 ''11'') @ [newline])),
           (''old'', FileN ''ref:refs/heads/gone'')]),
         (''tags'', DirN [(''v1'', FileN (concat (replicate 20 ''33'')))])])]"

lemma read_refs_exact_witness:
  "\<exists>raw. read_raw_refs ''r'' ex_refs = Inr raw \<and>
     read_refs ''r'' ex_refs = Inr [(''HEAD'', replicate 20 (CHR 0x11)), (''refs/heads/main'', replicate 20 (CHR 0x11)),
       (''refs/tags/v1'', replicate 20 (CHR 0x33))] \<and>
     (\<exists>k\<le>8. names raw ''HEAD'' k (replicate 20 (CHR 0x11)))"
proof -
  have r: "read_refs ''r'' ex_refs = Inr [(''HEAD'', replicate 20 (CHR 0x11)), (''refs/heads/main'', replicate 20 (CHR 0x11)),
       (''refs/tags/v1'', replicate 20 (CHR 0x33))]" by code_simp
  from read_refs_exact [OF r] obtain raw where "read_raw_refs ''r'' ex_refs = Inr raw"
    "\<forall>n i. (n, i) \<in> set [(''HEAD'', replicate 20 (CHR 0x11)), (''refs/heads/main'', replicate 20 (CHR 0x11)),
       (''refs/tags/v1'', replicate 20 (CHR 0x33))] \<longleftrightarrow> (\<exists>k\<le>8. names raw n k i)" by blast
  then show ?thesis using r by (intro exI [of _ raw]) (metis list.set_intros(1))
qed

end
