(* ===== verification/GitImport.thy ===== *)
theory GitImport
  imports GitRefs
begin

text \<open>
  Import of a git repository, \<open>import.rs\<close>: the walk of the object graph from the refs through the
  round-trip gate, the mirroring of blobs and trees in the object store, the record of the commits
  and their order in the log. A hash map is an association list with distinct keys where its
  entries are listed or counted, and a map where it is only looked up. A stack is the list of its
  elements from the top. \<open>import_entries\<close> has no guard against a tree that contains itself: it is
  a partial function, \<open>None\<close> when the recursion does not end. The store that the code writes to is
  passed and returned, on errors too.
\<close>

section \<open>The result of an import\<close>

type_synonym oid_ids = "(git_oid \<times> object_id) list"

record git_import =
  oid_map :: oid_ids
  git_objects :: "(git_oid \<times> git_object) list"
  commit_dag :: "(git_oid \<times> git_commit) list"
  irefs :: "(string \<times> git_oid) list"
  iblobs :: nat
  itrees :: nat
  icommits :: nat
  itags :: nat

definition mapping_count :: "git_import \<Rightarrow> nat" where
  "mapping_count imp = length (oid_map imp)"

section \<open>Trees\<close>

definition mode_to_kind :: "string \<Rightarrow> git_error + entry_kind" where
  "mode_to_kind m =
     (if m = ''40000'' \<or> m = ''040000'' then Inr ETree
      else if m = ''100644'' \<or> m = ''100755'' \<or> m = ''120000'' then Inr EBlob
      else Inl (UnsupportedMode m))"

definition resolve_object :: "git_oid \<Rightarrow> (git_oid \<rightharpoonup> git_object) \<Rightarrow> git_error + git_object" where
  "resolve_object i objs = ok_or (MissingObject (hex_encode i)) (objs i)"

text \<open>The loop over the entries of a tree, with the recursive call of \<open>import_tree_object\<close> on each
child in its place.\<close>

partial_function (option) import_entries ::
  "(string \<Rightarrow> string) \<Rightarrow> (git_oid \<rightharpoonup> git_object) \<Rightarrow> git_tree_entry list \<Rightarrow> tree \<Rightarrow> oid_ids \<Rightarrow> object_files \<Rightarrow>
   ((git_error + tree) \<times> oid_ids \<times> object_files) option" where
  "import_entries sha objs es t m fs =
     (case es of
        [] \<Rightarrow> Some (Inr t, m, fs)
      | e # rest \<Rightarrow>
        (case mode_to_kind (mode e) of
           Inl err \<Rightarrow> Some (Inl err, m, fs)
         | Inr knd \<Rightarrow>
           (case resolve_object (goid e) objs of
              Inl err \<Rightarrow> Some (Inl err, m, fs)
            | Inr child \<Rightarrow>
              Option.bind
                (case map_of m (goid e) of
                   Some i \<Rightarrow> Some (Inr i, m, fs)
                 | None \<Rightarrow>
                   (case child of
                      Blob bytes \<Rightarrow>
                        (case write_object sha fs (BlobObj bytes) of (i, fs1) \<Rightarrow>
                          Some (Inr i, AList.update (goid e) i m, fs1))
                    | Tree sub \<Rightarrow>
                        Option.bind (import_entries sha objs sub new_tree m fs) (\<lambda>(r, m1, fs1).
                          case r of
                            Inl err \<Rightarrow> Some (Inl err, m1, fs1)
                          | Inr t1 \<Rightarrow>
                            (case write_object sha fs1 (TreeObj t1) of (i, fs2) \<Rightarrow>
                              Some (Inr i, AList.update (goid e) i m1, fs2)))
                    | _ \<Rightarrow> Some (Inl (UnsupportedMode (type_str child)), m, fs)))
                (\<lambda>(r, m1, fs1).
                   case r of
                     Inl err \<Rightarrow> Some (Inl err, m1, fs1)
                   | Inr i \<Rightarrow>
                     (case tree_insert t (gname e) knd i of
                        Inl err \<Rightarrow> Some (Inl (GitObjectErr err), m1, fs1)
                      | Inr t1 \<Rightarrow> import_entries sha objs rest t1 m1 fs1)))))"

definition import_tree_object ::
  "(string \<Rightarrow> string) \<Rightarrow> (git_oid \<rightharpoonup> git_object) \<Rightarrow> git_oid \<Rightarrow> git_object \<Rightarrow> oid_ids \<Rightarrow> object_files \<Rightarrow>
   ((git_error + object_id) \<times> oid_ids \<times> object_files) option" where
  "import_tree_object sha objs i ob m fs =
     (case map_of m i of
        Some j \<Rightarrow> Some (Inr j, m, fs)
      | None \<Rightarrow>
        (case ob of
           Blob bytes \<Rightarrow>
             (case write_object sha fs (BlobObj bytes) of (j, fs1) \<Rightarrow> Some (Inr j, AList.update i j m, fs1))
         | Tree sub \<Rightarrow>
             Option.bind (import_entries sha objs sub new_tree m fs) (\<lambda>(r, m1, fs1).
               case r of
                 Inl err \<Rightarrow> Some (Inl err, m1, fs1)
               | Inr t1 \<Rightarrow>
                 (case write_object sha fs1 (TreeObj t1) of (j, fs2) \<Rightarrow> Some (Inr j, AList.update i j m1, fs2)))
         | _ \<Rightarrow> Some (Inl (UnsupportedMode (type_str ob)), m, fs)))"

lemma import_entries_Cons:
  "import_entries sha objs (e # rest) t m fs =
     (case mode_to_kind (mode e) of
        Inl err \<Rightarrow> Some (Inl err, m, fs)
      | Inr knd \<Rightarrow>
        (case resolve_object (goid e) objs of
           Inl err \<Rightarrow> Some (Inl err, m, fs)
         | Inr child \<Rightarrow>
           Option.bind (import_tree_object sha objs (goid e) child m fs) (\<lambda>(r, m1, fs1).
             case r of
               Inl err \<Rightarrow> Some (Inl err, m1, fs1)
             | Inr i \<Rightarrow>
               (case tree_insert t (gname e) knd i of
                  Inl err \<Rightarrow> Some (Inl (GitObjectErr err), m1, fs1)
                | Inr t1 \<Rightarrow> import_entries sha objs rest t1 m1 fs1))))"
  by (subst import_entries.simps) (simp add: import_tree_object_def cong: sum.case_cong option.case_cong)

lemma import_entries_Nil [simp]: "import_entries sha objs [] t m fs = Some (Inr t, m, fs)"
  by (subst import_entries.simps) simp

section \<open>The walk\<close>

text \<open>The visit of one object: what it pushes on the stack, the top first, and its record.\<close>

definition visit_object ::
  "(string \<Rightarrow> string) \<Rightarrow> (git_oid \<rightharpoonup> git_object) \<Rightarrow> git_oid \<Rightarrow> git_object \<Rightarrow> git_import \<Rightarrow> object_files \<Rightarrow>
   ((git_error + git_oid list \<times> git_import) \<times> object_files) option" where
  "visit_object sha objs i ob imp fs =
     (case ob of
        CommitObj c \<Rightarrow>
          Some (Inr (rev (cparents c) @ [ctree c],
            imp\<lparr>icommits := icommits imp + 1, commit_dag := AList.update i c (commit_dag imp)\<rparr>), fs)
      | TagObj tag \<Rightarrow> Some (Inr ([tobject tag], imp\<lparr>itags := itags imp + 1\<rparr>), fs)
      | Tree es \<Rightarrow>
          Option.bind (import_tree_object sha objs i ob (oid_map imp) fs) (\<lambda>(r, m, fs1).
            case r of
              Inl err \<Rightarrow> Some (Inl err, fs1)
            | Inr _ \<Rightarrow> Some (Inr (rev (map goid es), imp\<lparr>itrees := itrees imp + 1, oid_map := m\<rparr>), fs1))
      | Blob bytes \<Rightarrow>
          (case write_object sha fs (BlobObj bytes) of (j, fs1) \<Rightarrow>
            Some (Inr ([], imp\<lparr>iblobs := iblobs imp + 1, oid_map := AList.update i j (oid_map imp)\<rparr>), fs1)))"

partial_function (option) import_loop ::
  "(string \<Rightarrow> string) \<Rightarrow> (string \<Rightarrow> string) \<Rightarrow> (git_oid \<rightharpoonup> git_object) \<Rightarrow> git_oid list \<Rightarrow> git_import \<Rightarrow> object_files \<Rightarrow>
   ((git_error + git_import) \<times> object_files) option" where
  "import_loop sha sha1 objs stack imp fs =
     (case stack of
        [] \<Rightarrow> Some (Inr imp, fs)
      | i # rest \<Rightarrow>
        if map_of (git_objects imp) i \<noteq> None then import_loop sha sha1 objs rest imp fs
        else (case and_then (resolve_object i objs) (\<lambda>ob.
                     and_then (roundtrip_ok sha1 (encode ob)) (\<lambda>_. Inr ob)) of
           Inl err \<Rightarrow> Some (Inl err, fs)
         | Inr ob \<Rightarrow>
           Option.bind (visit_object sha objs i ob imp fs) (\<lambda>(r, fs1).
             case r of
               Inl err \<Rightarrow> Some (Inl err, fs1)
             | Inr (pushed, imp1) \<Rightarrow>
                 import_loop sha sha1 objs (pushed @ rest)
                   (imp1\<lparr>git_objects := AList.update i ob (git_objects imp1)\<rparr>) fs1)))"

definition import_objects ::
  "(string \<Rightarrow> string) \<Rightarrow> (string \<Rightarrow> string) \<Rightarrow> (git_oid \<rightharpoonup> git_object) \<Rightarrow> (string \<times> git_oid) list \<Rightarrow> object_files \<Rightarrow>
   ((git_error + git_import) \<times> object_files) option" where
  "import_objects sha sha1 objs refs fs =
     import_loop sha sha1 objs (rev (map snd refs))
       \<lparr>oid_map = [], git_objects = [], commit_dag = [], irefs = refs,
        iblobs = 0, itrees = 0, icommits = 0, itags = 0\<rparr> fs"

text \<open>The objects of a repository: those of the packs where no loose object has the id.\<close>

definition merge_objects ::
  "(git_oid \<times> git_object) list \<Rightarrow> (git_oid \<times> git_object) list \<Rightarrow> git_oid \<rightharpoonup> git_object" where
  "merge_objects loose packed =
     foldl (\<lambda>m (i, ob). if m i = None then m(i \<mapsto> ob) else m)
       (foldl (\<lambda>m (i, ob). m(i \<mapsto> ob)) Map.empty loose) packed"

definition load_repo ::
  "(string \<Rightarrow> string) \<Rightarrow> inflater \<Rightarrow> string \<Rightarrow> dir \<Rightarrow>
   git_error + (git_oid \<rightharpoonup> git_object) \<times> (string \<times> git_oid) list" where
  "load_repo sha1 inflate path root =
     and_then (resolve_git_dir path root) (\<lambda>(p, d).
     and_then (verify_repo sha1 inflate p d) (\<lambda>_.
     and_then (walk_loose sha1 inflate p d) (\<lambda>loose.
     and_then (read_all_packs sha1 inflate p d) (\<lambda>packed.
     and_then (read_refs p d) (\<lambda>refs.
       if refs = [] then Inl (EmptyRepository path) else Inr (merge_objects loose packed, refs))))))"

definition import_repo ::
  "(string \<Rightarrow> string) \<Rightarrow> (string \<Rightarrow> string) \<Rightarrow> inflater \<Rightarrow> string \<Rightarrow> dir \<Rightarrow> object_files \<Rightarrow>
   ((git_error + git_import) \<times> object_files) option" where
  "import_repo sha sha1 inflate path root fs =
     (case load_repo sha1 inflate path root of
        Inl err \<Rightarrow> Some (Inl err, fs)
      | Inr (objs, refs) \<Rightarrow>
        Option.bind (import_objects sha sha1 objs refs fs) (\<lambda>(r, fs1).
          case r of
            Inl err \<Rightarrow> Some (Inl err, fs1)
          | Inr imp \<Rightarrow>
              if icommits imp + itrees imp + iblobs imp + itags imp = 0
              then Some (Inl (EmptyRepository path), fs1) else Some (Inr imp, fs1)))"

declare import_entries.simps [code] import_loop.simps [code]

section \<open>The mirror of a tree\<close>

text \<open>The object of the store that stands for a git blob or tree: a tree is built from the mirrors of
its entries, in their order.\<close>

inductive mirrors :: "(string \<Rightarrow> string) \<Rightarrow> (git_oid \<rightharpoonup> git_object) \<Rightarrow> git_oid \<Rightarrow> object \<Rightarrow> bool"
  and mirror_entries :: "(string \<Rightarrow> string) \<Rightarrow> (git_oid \<rightharpoonup> git_object) \<Rightarrow> git_tree_entry list \<Rightarrow> tree \<Rightarrow> tree \<Rightarrow> bool"
  for sha objs where
  blob: "objs i = Some (Blob bytes) \<Longrightarrow> mirrors sha objs i (BlobObj bytes)"
| tree: "objs i = Some (Tree es) \<Longrightarrow> mirror_entries sha objs es new_tree t \<Longrightarrow> mirrors sha objs i (TreeObj t)"
| no_entry: "mirror_entries sha objs [] t t"
| entry: "mode_to_kind (mode e) = Inr k \<Longrightarrow> mirrors sha objs (goid e) x \<Longrightarrow>
    tree_insert t (gname e) k (obj_id sha x) = Inr t1 \<Longrightarrow> mirror_entries sha objs es t1 t2 \<Longrightarrow>
    mirror_entries sha objs (e # es) t t2"

inductive_cases mirrorsE: "mirrors sha objs i x"
inductive_simps mirror_Nil [simp]: "mirror_entries sha objs [] t t'"
inductive_simps mirror_Cons: "mirror_entries sha objs (e # es) t t'"

lemma mirrors_det:
  "mirrors sha objs i x \<Longrightarrow> mirrors sha objs i y \<Longrightarrow> y = x"
  "mirror_entries sha objs es t t1 \<Longrightarrow> mirror_entries sha objs es t t2 \<Longrightarrow> t2 = t1"
proof (induction arbitrary: y and t2 rule: mirrors_mirror_entries.inducts)
  case (blob i bytes)
  from blob(2,1) show ?case by cases auto
next
  case (tree i es t)
  from tree(4,1) show ?case by cases (use tree(3) in auto)
next
  case (entry e k x t t1 es ts)
  from entry(7) obtain x' u where "mirrors sha objs (goid e) x'" "tree_insert t (gname e) k (obj_id sha x') = Inr u"
    "mirror_entries sha objs es u t2" unfolding mirror_Cons using entry(1) by auto
  then show ?case using entry(3,4,6) by (metis sum.inject(2))
qed simp

lemma mirrors_Blob [simp]: "objs i = Some (Blob b) \<Longrightarrow> mirrors sha objs i x \<longleftrightarrow> x = BlobObj b"
  by (auto elim: mirrorsE intro: mirrors_mirror_entries.blob)

lemma mirrors_Tree:
  "objs i = Some (Tree es) \<Longrightarrow> mirrors sha objs i x \<longleftrightarrow> (\<exists>t. x = TreeObj t \<and> mirror_entries sha objs es new_tree t)"
  by (auto elim: mirrorsE intro: mirrors_mirror_entries.tree)

definition is_node :: "git_object \<Rightarrow> bool" where
  "is_node ob \<longleftrightarrow> (case ob of Blob _ \<Rightarrow> True | Tree _ \<Rightarrow> True | _ \<Rightarrow> False)"

lemma mirrors_node: "mirrors sha objs i x \<Longrightarrow> \<exists>ob. objs i = Some ob \<and> is_node ob"
  by (erule mirrorsE) (auto simp: is_node_def)

section \<open>The mirroring computes it\<close>

text \<open>What the table and the store hold: every id of the table is that of the mirror of its git
object, in the store; the store has grown by such mirrors only. \<open>R\<close> holds the objects met.\<close>

definition mirror_inv ::
  "(string \<Rightarrow> string) \<Rightarrow> (git_oid \<rightharpoonup> git_object) \<Rightarrow> git_oid set \<Rightarrow> object_files \<Rightarrow> oid_ids \<Rightarrow> object_files \<Rightarrow> bool" where
  "mirror_inv sha objs R fs0 m fs \<longleftrightarrow>
     distinct (map fst m) \<and>
     (\<forall>i j. map_of m i = Some j \<longrightarrow>
        i \<in> R \<and> (\<exists>x. mirrors sha objs i x \<and> j = obj_id sha x \<and> has_object fs j)) \<and>
     fs0 \<subseteq>\<^sub>m fs \<and>
     (\<forall>p b. fs p = Some b \<longrightarrow> fs0 p = Some b \<or>
        (\<exists>i\<in>R. \<exists>x. mirrors sha objs i x \<and> p = object_path (obj_id sha x) \<and> b = serialize x))"

lemma mirror_inv_write:
  assumes "mirror_inv sha objs R fs0 m fs" "mirrors sha objs i x" "i \<in> R"
  shows "mirror_inv sha objs R fs0 (AList.update i (obj_id sha x) m) (snd (write_object sha fs x))"
proof -
  let ?fs = "snd (write_object sha fs x)"
  have grow: "fs \<subseteq>\<^sub>m ?fs" by (auto simp: write_object_def Let_def map_le_def)
  have new: "fs p = Some b \<or> p = object_path (obj_id sha x) \<and> b = serialize x" if "?fs p = Some b" for p b
    using that by (auto simp: write_object_def Let_def split: if_splits)
  have keep: "has_object ?fs j" if "has_object fs j" for j
    using that grow by (auto simp: has_object_def map_le_def dom_def)
  have "has_object ?fs (obj_id sha x)" by (simp add: has_object_def write_object_def Let_def)
  then have "i' \<in> R \<and> (\<exists>y. mirrors sha objs i' y \<and> j = obj_id sha y \<and> has_object ?fs j)"
    if "map_of (AList.update i (obj_id sha x) m) i' = Some j" for i' j
  proof (cases "i' = i")
    case True
    then have "j = obj_id sha x" using that by (simp add: update_conv')
    then show ?thesis using True assms(2,3) \<open>has_object ?fs (obj_id sha x)\<close> by blast
  next
    case False
    then have "map_of m i' = Some j" using that by (simp add: update_conv')
    then show ?thesis using assms(1) keep unfolding mirror_inv_def by blast
  qed
  moreover have "fs0 \<subseteq>\<^sub>m ?fs" using assms(1) grow map_le_trans unfolding mirror_inv_def by blast
  moreover have "fs0 p = Some b \<or> (\<exists>i\<in>R. \<exists>y. mirrors sha objs i y \<and> p = object_path (obj_id sha y) \<and> b = serialize y)"
    if "?fs p = Some b" for p b
    using new [OF that] assms unfolding mirror_inv_def by blast
  ultimately show ?thesis using assms(1) unfolding mirror_inv_def by (simp add: distinct_update)
qed

text \<open>The specification of a step on the mirror: the result is an id or tree as \<open>good\<close> says, and an
error only when there is none.\<close>

definition mirror_post ::
  "(string \<Rightarrow> string) \<Rightarrow> (git_oid \<rightharpoonup> git_object) \<Rightarrow> git_oid set \<Rightarrow> object_files \<Rightarrow> oid_ids \<Rightarrow> ('a \<Rightarrow> oid_ids \<Rightarrow> bool) \<Rightarrow>
   ((git_error + 'a) \<times> oid_ids \<times> object_files) option \<Rightarrow> bool" where
  "mirror_post sha objs R fs0 m good res \<longleftrightarrow>
     (\<exists>r m' fs'. res = Some (r, m', fs') \<and> mirror_inv sha objs R fs0 m' fs' \<and>
        dom (map_of m) \<subseteq> dom (map_of m') \<and>
        (case r of Inr a \<Rightarrow> good a m' | Inl _ \<Rightarrow> \<forall>a m'. \<not> good a m'))"

lemma mirror_postE:
  assumes "mirror_post sha objs R fs0 m good res"
  obtains r m' fs' where "res = Some (r, m', fs')" "mirror_inv sha objs R fs0 m' fs'"
    "dom (map_of m) \<subseteq> dom (map_of m')" "\<And>a. r = Inr a \<Longrightarrow> good a m'" "\<And>err a mm. r = Inl err \<Longrightarrow> \<not> good a mm"
  using assms unfolding mirror_post_def by (auto split: sum.splits) (metis Inl_inject Inr_inject sum.exhaust sum.distinct(1))+

lemma mirror_post_Inr:
  "mirror_inv sha objs R fs0 m' fs' \<Longrightarrow> dom (map_of m) \<subseteq> dom (map_of m') \<Longrightarrow> good a m' \<Longrightarrow>
   mirror_post sha objs R fs0 m good (Some (Inr a, m', fs'))"
  by (simp add: mirror_post_def)

lemma mirror_post_Inl:
  "mirror_inv sha objs R fs0 m' fs' \<Longrightarrow> dom (map_of m) \<subseteq> dom (map_of m') \<Longrightarrow> (\<And>a mm. \<not> good a mm) \<Longrightarrow>
   mirror_post sha objs R fs0 m good (Some (Inl err, m', fs'))"
  by (simp add: mirror_post_def)

definition tree_good ::
  "(string \<Rightarrow> string) \<Rightarrow> (git_oid \<rightharpoonup> git_object) \<Rightarrow> git_oid \<Rightarrow> object_id \<Rightarrow> oid_ids \<Rightarrow> bool" where
  "tree_good sha objs i j m' \<longleftrightarrow> (\<exists>x. mirrors sha objs i x \<and> j = obj_id sha x \<and> i \<in> dom (map_of m'))"

lemma import_entries_post:
  assumes "\<And>e ob m fs. e \<in> set es \<Longrightarrow> objs (goid e) = Some ob \<Longrightarrow> mirror_inv sha objs R fs0 m fs \<Longrightarrow>
      mirror_post sha objs R fs0 m (tree_good sha objs (goid e)) (import_tree_object sha objs (goid e) ob m fs)"
    and "mirror_inv sha objs R fs0 m fs"
  shows "mirror_post sha objs R fs0 m (\<lambda>t' _. mirror_entries sha objs es t t') (import_entries sha objs es t m fs)"
  using assms
proof (induction es arbitrary: t m fs)
  case Nil
  then show ?case by (simp add: mirror_post_def)
next
  case (Cons e es)
  show ?case
  proof (cases "mode_to_kind (mode e)")
    case (Inl err)
    then show ?thesis using Cons.prems(2) by (simp add: import_entries_Cons mirror_post_def mirror_Cons)
  next
    case k: (Inr k)
    show ?thesis
    proof (cases "objs (goid e)")
      case None
      then have "\<not> mirrors sha objs (goid e) x" for x using mirrors_node by fastforce
      then show ?thesis using Cons.prems(2) None k
        by (simp add: import_entries_Cons mirror_post_def mirror_Cons resolve_object_def)
    next
      case (Some ob)
      obtain r m1 fs1 where r: "import_tree_object sha objs (goid e) ob m fs = Some (r, m1, fs1)"
        "mirror_inv sha objs R fs0 m1 fs1" "dom (map_of m) \<subseteq> dom (map_of m1)"
        "case r of Inr a \<Rightarrow> tree_good sha objs (goid e) a m1 | Inl _ \<Rightarrow> \<forall>a m'. \<not> tree_good sha objs (goid e) a m'"
        using Cons.prems(1) [OF _ Some Cons.prems(2)] unfolding mirror_post_def by auto
      note step = import_entries_Cons [of sha objs e es t m fs] k Some r(1)
      show ?thesis
      proof (cases r)
        case (Inl err)
        have "\<not> mirrors sha objs (goid e) x" for x
        proof
          assume "mirrors sha objs (goid e) x"
          then have "tree_good sha objs (goid e) (obj_id sha x) [(goid e, obj_id sha x)]"
            by (auto simp: tree_good_def)
          then show False using r(4) Inl by simp
        qed
        then show ?thesis using Inl r(2,3) by (simp add: step resolve_object_def mirror_post_def mirror_Cons)
      next
        case (Inr j)
        then obtain x where x: "mirrors sha objs (goid e) x" "j = obj_id sha x"
          using r(4) by (auto simp: tree_good_def)
        have only: "mirror_entries sha objs (e # es) t t' \<longleftrightarrow>
            (\<exists>t1. tree_insert t (gname e) k j = Inr t1 \<and> mirror_entries sha objs es t1 t')" for t'
          unfolding mirror_Cons using x k mirrors_det(1) by (metis sum.inject(2))
        show ?thesis
        proof (cases "tree_insert t (gname e) k j")
          case (Inl err)
          then show ?thesis using r(2,3) \<open>r = Inr j\<close> by (simp add: step resolve_object_def mirror_post_def only)
        next
          case (Inr t1)
          have "mirror_post sha objs R fs0 m1 (\<lambda>t' _. mirror_entries sha objs es t1 t')
              (import_entries sha objs es t1 m1 fs1)"
            using Cons.IH [OF Cons.prems(1) r(2)] by simp
          then obtain r' m2 fs2 where p: "import_entries sha objs es t1 m1 fs1 = Some (r', m2, fs2)"
            "mirror_inv sha objs R fs0 m2 fs2" "dom (map_of m1) \<subseteq> dom (map_of m2)"
            "\<And>t'. r' = Inr t' \<Longrightarrow> mirror_entries sha objs es t1 t'"
            "\<And>err t'. r' = Inl err \<Longrightarrow> \<not> mirror_entries sha objs es t1 t'"
            by (rule mirror_postE) blast
          have "import_entries sha objs (e # es) t m fs = Some (r', m2, fs2)"
            using p(1) Inr \<open>r = Inr j\<close> by (simp add: step resolve_object_def)
          then show ?thesis using p(2,3,4,5) r(3) Inr
            unfolding mirror_post_def only by (cases r') auto
        qed
      qed
    qed
  qed
qed

lemma write_object_case:
  "(case write_object sha fs x of (j, fs1) \<Rightarrow> f j fs1) = f (obj_id sha x) (snd (write_object sha fs x))"
  by (simp add: write_object_def Let_def)

definition tree_edge :: "(git_oid \<rightharpoonup> git_object) \<Rightarrow> (git_oid \<times> git_oid) set" where
  "tree_edge objs = {(c, p). \<exists>es. objs p = Some (Tree es) \<and> c \<in> goid ` set es}"

definition node_closed :: "(git_oid \<rightharpoonup> git_object) \<Rightarrow> git_oid set \<Rightarrow> bool" where
  "node_closed objs R \<longleftrightarrow> (\<forall>c p. p \<in> R \<longrightarrow> (c, p) \<in> tree_edge objs \<longrightarrow> c \<in> R)"

lemma import_tree_post:
  assumes "wf (tree_edge objs)" "node_closed objs R"
  shows "i \<in> R \<Longrightarrow> objs i = Some ob \<Longrightarrow> mirror_inv sha objs R fs0 m fs \<Longrightarrow>
    mirror_post sha objs R fs0 m (tree_good sha objs i) (import_tree_object sha objs i ob m fs)"
  using assms(1)
proof (induction i arbitrary: ob m fs rule: wf_induct_rule)
  case (less i)
  show ?case
  proof (cases "map_of m i")
    case (Some j)
    then obtain x where "mirrors sha objs i x" "j = obj_id sha x"
      using less.prems(3) unfolding mirror_inv_def by blast
    then show ?thesis using Some less.prems(3)
      by (auto simp: import_tree_object_def mirror_post_def tree_good_def)
  next
    case None
    show ?thesis
    proof (cases ob)
      case (Blob b)
      then have x: "mirrors sha objs i (BlobObj b)" using less.prems(2) by simp
      have "import_tree_object sha objs i ob m fs = Some (Inr (obj_id sha (BlobObj b)),
          AList.update i (obj_id sha (BlobObj b)) m, snd (write_object sha fs (BlobObj b)))"
        by (simp add: import_tree_object_def None Blob write_object_case)
      moreover have "mirror_post sha objs R fs0 m (tree_good sha objs i) (Some (Inr (obj_id sha (BlobObj b)),
          AList.update i (obj_id sha (BlobObj b)) m, snd (write_object sha fs (BlobObj b))))"
        by (rule mirror_post_Inr [OF mirror_inv_write [OF less.prems(3) x less.prems(1)]])
           (use x in \<open>auto simp: tree_good_def update_conv'\<close>)
      ultimately show ?thesis by simp
    next
      case (Tree es)
      have child: "goid e \<in> R" "(goid e, i) \<in> tree_edge objs" if "e \<in> set es" for e
        using that less.prems(1,2) assms(2) Tree unfolding node_closed_def tree_edge_def by auto
      have "mirror_post sha objs R fs0 m (\<lambda>t' _. mirror_entries sha objs es new_tree t') (import_entries sha objs es new_tree m fs)"
        by (rule import_entries_post) (use less.IH child less.prems(3) in blast)+
      then obtain r m1 fs1 where r: "import_entries sha objs es new_tree m fs = Some (r, m1, fs1)"
        "mirror_inv sha objs R fs0 m1 fs1" "dom (map_of m) \<subseteq> dom (map_of m1)"
        "\<And>t'. r = Inr t' \<Longrightarrow> mirror_entries sha objs es new_tree t'"
        "\<And>err t'. r = Inl err \<Longrightarrow> \<not> mirror_entries sha objs es new_tree t'"
        by (rule mirror_postE) blast
      show ?thesis
      proof (cases r)
        case (Inl err)
        then have "import_tree_object sha objs i ob m fs = Some (Inl err, m1, fs1)"
          using r(1) None Tree by (simp add: import_tree_object_def)
        then show ?thesis using r(2,3) r(5) [OF Inl] less.prems(2) Tree
          by (simp add: mirror_post_Inl tree_good_def mirrors_Tree)
      next
        case (Inr t')
        then have x: "mirrors sha objs i (TreeObj t')" using r(4) less.prems(2) Tree by (simp add: mirrors_Tree)
        have "import_tree_object sha objs i ob m fs = Some (Inr (obj_id sha (TreeObj t')),
            AList.update i (obj_id sha (TreeObj t')) m1, snd (write_object sha fs1 (TreeObj t')))"
          using None Tree r(1) Inr by (simp add: import_tree_object_def write_object_case)
        moreover have "mirror_post sha objs R fs0 m (tree_good sha objs i) (Some (Inr (obj_id sha (TreeObj t')),
            AList.update i (obj_id sha (TreeObj t')) m1, snd (write_object sha fs1 (TreeObj t'))))"
          by (rule mirror_post_Inr [OF mirror_inv_write [OF r(2) x less.prems(1)]])
             (use x r(3) in \<open>auto simp: tree_good_def update_conv'\<close>)
        ultimately show ?thesis by simp
      qed
    next
      case (CommitObj c)
      then have "\<not> mirrors sha objs i x" for x using mirrors_node less.prems(2) by (fastforce simp: is_node_def)
      then show ?thesis using less.prems(3) None CommitObj
        by (simp add: import_tree_object_def mirror_post_def tree_good_def)
    next
      case (TagObj c)
      then have "\<not> mirrors sha objs i x" for x using mirrors_node less.prems(2) by (fastforce simp: is_node_def)
      then show ?thesis using less.prems(3) None TagObj
        by (simp add: import_tree_object_def mirror_post_def tree_good_def)
    qed
  qed
qed

section \<open>The walk visits what is reachable\<close>

definition succs :: "git_object \<Rightarrow> git_oid list" where
  "succs ob =
     (case ob of
        Blob _ \<Rightarrow> []
      | Tree es \<Rightarrow> map goid es
      | CommitObj c \<Rightarrow> ctree c # cparents c
      | TagObj t \<Rightarrow> [tobject t])"

definition edge :: "(git_oid \<rightharpoonup> git_object) \<Rightarrow> (git_oid \<times> git_oid) set" where
  "edge objs = {(a, b). \<exists>ob. objs a = Some ob \<and> b \<in> set (succs ob)}"

definition reached :: "(git_oid \<rightharpoonup> git_object) \<Rightarrow> (string \<times> git_oid) list \<Rightarrow> git_oid set" where
  "reached objs refs = (edge objs)\<^sup>* `` (snd ` set refs)"

lemma reached_root: "r \<in> set refs \<Longrightarrow> snd r \<in> reached objs refs"
  by (auto simp: reached_def)

lemma reached_step: "i \<in> reached objs refs \<Longrightarrow> objs i = Some ob \<Longrightarrow> set (succs ob) \<subseteq> reached objs refs"
  by (auto simp: reached_def edge_def intro: rtrancl_into_rtrancl)

lemma reached_node_closed: "node_closed objs (reached objs refs)"
  unfolding node_closed_def tree_edge_def using reached_step by (fastforce simp: succs_def)

lemma reached_least:
  assumes "snd ` set refs \<subseteq> S" "\<And>i ob. i \<in> S \<Longrightarrow> objs i = Some ob \<Longrightarrow> set (succs ob) \<subseteq> S"
  shows "reached objs refs \<subseteq> S"
proof
  fix j assume "j \<in> reached objs refs"
  then obtain i where "i \<in> snd ` set refs" "(i, j) \<in> (edge objs)\<^sup>*" by (auto simp: reached_def)
  from this(2,1) show "j \<in> S" by (induction rule: rtrancl_induct) (use assms in \<open>auto simp: edge_def\<close>)
qed

text \<open>What the record of a walk says of the objects visited so far.\<close>

definition number :: "string \<Rightarrow> (git_oid \<times> git_object) list \<Rightarrow> nat" where
  "number ty os = length (filter (\<lambda>(i, ob). type_str ob = ty) os)"

definition record_inv :: "git_import \<Rightarrow> bool" where
  "record_inv imp \<longleftrightarrow>
     distinct (map fst (git_objects imp)) \<and> distinct (map fst (commit_dag imp)) \<and>
     (\<forall>i c. map_of (commit_dag imp) i = Some c \<longleftrightarrow> map_of (git_objects imp) i = Some (CommitObj c)) \<and>
     iblobs imp = number ''blob'' (git_objects imp) \<and> itrees imp = number ''tree'' (git_objects imp) \<and>
     icommits imp = number ''commit'' (git_objects imp) \<and> itags imp = number ''tag'' (git_objects imp)"

definition walk_inv ::
  "(string \<Rightarrow> string) \<Rightarrow> (git_oid \<rightharpoonup> git_object) \<Rightarrow> (string \<times> git_oid) list \<Rightarrow> object_files \<Rightarrow> git_oid list \<Rightarrow>
   git_import \<Rightarrow> object_files \<Rightarrow> bool" where
  "walk_inv sha objs refs fs0 stack imp fs \<longleftrightarrow>
     mirror_inv sha objs (reached objs refs) fs0 (oid_map imp) fs \<and> record_inv imp \<and>
     set stack \<subseteq> reached objs refs \<and> irefs imp = refs \<and>
     snd ` set refs \<subseteq> dom (map_of (git_objects imp)) \<union> set stack \<and>
     (\<forall>i ob. map_of (git_objects imp) i = Some ob \<longrightarrow>
        i \<in> reached objs refs \<and> objs i = Some ob \<and>
        set (succs ob) \<subseteq> dom (map_of (git_objects imp)) \<union> set stack \<and>
        (is_node ob \<longrightarrow> i \<in> dom (map_of (oid_map imp))))"

definition importable :: "(string \<Rightarrow> string) \<Rightarrow> (git_oid \<rightharpoonup> git_object) \<Rightarrow> git_oid \<Rightarrow> bool" where
  "importable sha objs i \<longleftrightarrow> (\<exists>ob. objs i = Some ob \<and> (is_node ob \<longrightarrow> (\<exists>x. mirrors sha objs i x)))"

lemma update_new: "i \<notin> fst ` set al \<Longrightarrow> AList.update i v al = al @ [(i, v)]"
  by (induction al) auto

lemma number_update:
  "i \<notin> fst ` set os \<Longrightarrow> number ty (AList.update i ob os) = number ty os + (if type_str ob = ty then 1 else 0)"
  by (simp add: number_def update_new)

lemma record_inv_new:
  assumes "record_inv imp" "map_of (git_objects imp) i = None" "git_objects imp1 = git_objects imp"
    "commit_dag imp1 = (case ob of CommitObj c \<Rightarrow> AList.update i c (commit_dag imp) | _ \<Rightarrow> commit_dag imp)"
    "iblobs imp1 = iblobs imp + (if type_str ob = ''blob'' then 1 else 0)"
    "itrees imp1 = itrees imp + (if type_str ob = ''tree'' then 1 else 0)"
    "icommits imp1 = icommits imp + (if type_str ob = ''commit'' then 1 else 0)"
    "itags imp1 = itags imp + (if type_str ob = ''tag'' then 1 else 0)"
  shows "record_inv (imp1\<lparr>git_objects := AList.update i ob (git_objects imp1)\<rparr>)"
proof -
  have notin: "i \<notin> fst ` set (git_objects imp)" using assms(2) by (simp add: map_of_eq_None_iff)
  have dag: "map_of (commit_dag imp) k = Some c \<longleftrightarrow> map_of (git_objects imp) k = Some (CommitObj c)" for k c
    using assms(1) unfolding record_inv_def by blast
  have "map_of (commit_dag imp) i = None" using dag [of i] assms(2) by (cases "map_of (commit_dag imp) i") auto
  then have "map_of (commit_dag imp1) k = Some c \<longleftrightarrow>
      map_of (AList.update i ob (git_objects imp)) k = Some (CommitObj c)" for k c
    using dag [of k c] unfolding assms(4) by (cases "k = i"; cases ob) (simp_all add: update_conv' del: map_of_eq_Some_iff)
  moreover have "distinct (map fst (commit_dag imp1))"
    using assms(1) unfolding assms(4) record_inv_def by (cases ob) (simp_all add: distinct_update)
  ultimately show ?thesis
    using assms(1,3,5-8) number_update [OF notin] unfolding record_inv_def
    by (simp add: distinct_update del: map_of_eq_Some_iff)
qed

lemma gate_git_ok: "git_ok ob \<Longrightarrow> \<exists>i. roundtrip_ok sha1 (encode ob) = Inr i"
  using decode_encode by (auto simp: roundtrip_ok_Inr)

text \<open>The visit of a new object records it and its kind.\<close>

lemma visit_object_post:
  assumes w: "walk_inv sha objs refs fs0 (i # rest) imp fs" and wf: "wf (tree_edge objs)"
    and new: "map_of (git_objects imp) i = None" and ob: "objs i = Some ob"
  shows "\<exists>r fs1. visit_object sha objs i ob imp fs = Some (r, fs1) \<and>
    (case r of
       Inl _ \<Rightarrow> \<not> importable sha objs i
     | Inr (pushed, imp1) \<Rightarrow> set pushed = set (succs ob) \<and> git_objects imp1 = git_objects imp \<and> irefs imp1 = irefs imp \<and>
         mirror_inv sha objs (reached objs refs) fs0 (oid_map imp1) fs1 \<and>
         dom (map_of (oid_map imp)) \<subseteq> dom (map_of (oid_map imp1)) \<and>
         (is_node ob \<longrightarrow> i \<in> dom (map_of (oid_map imp1))) \<and>
         record_inv (imp1\<lparr>git_objects := AList.update i ob (git_objects imp1)\<rparr>))"
proof -
  have inv: "mirror_inv sha objs (reached objs refs) fs0 (oid_map imp) fs" "record_inv imp" "i \<in> reached objs refs"
    using w by (auto simp: walk_inv_def)
  note rec = record_inv_new [OF inv(2) new, of _ ob]
  show ?thesis
  proof (cases ob)
    case (Blob b)
    have x: "mirrors sha objs i (BlobObj b)" using ob Blob by simp
    let ?imp = "imp\<lparr>iblobs := iblobs imp + 1, oid_map := AList.update i (obj_id sha (BlobObj b)) (oid_map imp)\<rparr>"
    have keep: "record_inv (?imp\<lparr>git_objects := AList.update i ob (git_objects ?imp)\<rparr>)"
      by (rule rec) (simp_all add: Blob type_str_def)
    show ?thesis
      using mirror_inv_write [OF inv(1) x inv(3)] keep
      by (auto simp: visit_object_def Blob write_object_case succs_def update_conv' is_node_def)
  next
    case (Tree es)
    from import_tree_post [OF wf reached_node_closed inv(3) ob inv(1)] obtain r m' fs' where
      r: "import_tree_object sha objs i ob (oid_map imp) fs = Some (r, m', fs')"
      "mirror_inv sha objs (reached objs refs) fs0 m' fs'" "dom (map_of (oid_map imp)) \<subseteq> dom (map_of m')"
      "\<And>a. r = Inr a \<Longrightarrow> tree_good sha objs i a m'" "\<And>err a mm. r = Inl err \<Longrightarrow> \<not> tree_good sha objs i a mm"
      by (rule mirror_postE) blast
    show ?thesis
    proof (cases r)
      case (Inl err)
      have "\<not> mirrors sha objs i x" for x
        using r(5) [OF Inl, of "obj_id sha x" "[(i, obj_id sha x)]"] by (auto simp: tree_good_def)
      then show ?thesis using Inl r(1) ob Tree by (simp add: visit_object_def importable_def is_node_def)
    next
      case (Inr j)
      have "record_inv ((imp\<lparr>itrees := itrees imp + 1, oid_map := m'\<rparr>)\<lparr>git_objects :=
          AList.update i ob (git_objects (imp\<lparr>itrees := itrees imp + 1, oid_map := m'\<rparr>))\<rparr>)"
        by (rule rec) (simp_all add: Tree type_str_def)
      then show ?thesis using r(1,2,3) r(4) [OF Inr] Tree Inr
        by (auto simp: visit_object_def succs_def tree_good_def)
    qed
  next
    case (CommitObj c)
    let ?imp = "imp\<lparr>icommits := icommits imp + 1, commit_dag := AList.update i c (commit_dag imp)\<rparr>"
    have "record_inv (?imp\<lparr>git_objects := AList.update i ob (git_objects ?imp)\<rparr>)"
      by (rule rec) (simp_all add: CommitObj type_str_def)
    then show ?thesis using inv CommitObj by (auto simp: visit_object_def succs_def is_node_def)
  next
    case (TagObj t)
    let ?imp = "imp\<lparr>itags := itags imp + 1\<rparr>"
    have "record_inv (?imp\<lparr>git_objects := AList.update i ob (git_objects ?imp)\<rparr>)"
      by (rule rec) (simp_all add: TagObj type_str_def)
    then show ?thesis using inv TagObj by (auto simp: visit_object_def succs_def is_node_def)
  qed
qed

lemma walk_inv_step:
  assumes w: "walk_inv sha objs refs fs0 (i # rest) imp fs" and ob: "objs i = Some ob"
    and v: "set pushed = set (succs ob)" "git_objects imp1 = git_objects imp" "irefs imp1 = irefs imp"
      "mirror_inv sha objs (reached objs refs) fs0 (oid_map imp1) fs1"
      "dom (map_of (oid_map imp)) \<subseteq> dom (map_of (oid_map imp1))"
      "is_node ob \<longrightarrow> i \<in> dom (map_of (oid_map imp1))"
      "record_inv (imp1\<lparr>git_objects := AList.update i ob (git_objects imp1)\<rparr>)"
  shows "walk_inv sha objs refs fs0 (pushed @ rest) (imp1\<lparr>git_objects := AList.update i ob (git_objects imp1)\<rparr>) fs1"
proof -
  let ?d = "dom (map_of (git_objects imp))"
  have i: "i \<in> reached objs refs" using w by (simp add: walk_inv_def)
  have stack: "set (pushed @ rest) \<subseteq> reached objs refs"
    using w v(1) reached_step [OF i ob] by (auto simp: walk_inv_def)
  have dom: "dom (map_of (AList.update i ob (git_objects imp))) = insert i ?d"
    by (auto simp: update_conv' split: if_splits)
  have old: "k \<in> reached objs refs \<and> objs k = Some x \<and> set (succs x) \<subseteq> ?d \<union> insert i (set rest) \<and>
      (is_node x \<longrightarrow> k \<in> dom (map_of (oid_map imp)))" if "map_of (git_objects imp) k = Some x" for k x
    using w that unfolding walk_inv_def by simp
  have "k \<in> reached objs refs \<and> objs k = Some x \<and> set (succs x) \<subseteq> insert i ?d \<union> set (pushed @ rest) \<and>
      (is_node x \<longrightarrow> k \<in> dom (map_of (oid_map imp1)))"
    if "map_of (AList.update i ob (git_objects imp)) k = Some x" for k x
  proof (cases "k = i")
    case True
    then have "x = ob" using that by (simp add: update_conv')
    then show ?thesis using True i ob v(1,6) by auto
  next
    case False
    then have "map_of (git_objects imp) k = Some x" using that by (simp add: update_conv')
    from old [OF this] show ?thesis using v(5) by auto
  qed
  moreover have "snd ` set refs \<subseteq> insert i ?d \<union> set (pushed @ rest)" "irefs imp = refs"
    using w unfolding walk_inv_def by auto
  moreover have sel: "git_objects (imp1\<lparr>git_objects := AList.update i ob (git_objects imp1)\<rparr>) = AList.update i ob (git_objects imp)"
    "oid_map (imp1\<lparr>git_objects := AList.update i ob (git_objects imp1)\<rparr>) = oid_map imp1"
    "irefs (imp1\<lparr>git_objects := AList.update i ob (git_objects imp1)\<rparr>) = irefs imp" using v(2,3) by simp_all
  ultimately show ?thesis
    using v(4,7) stack unfolding walk_inv_def sel dom by blast
qed

lemma import_loop_post:
  assumes fin: "finite (dom objs)" and wf: "wf (tree_edge objs)" and ok: "\<And>i ob. objs i = Some ob \<Longrightarrow> git_ok ob"
  shows "walk_inv sha objs refs fs0 stack imp fs \<Longrightarrow>
    \<exists>r fs'. import_loop sha sha1 objs stack imp fs = Some (r, fs') \<and>
      (case r of
         Inr imp' \<Rightarrow> walk_inv sha objs refs fs0 [] imp' fs'
       | Inl _ \<Rightarrow> \<exists>i\<in>reached objs refs. \<not> importable sha objs i)"
proof (induction "card (dom objs - dom (map_of (git_objects imp)))" arbitrary: stack imp fs rule: less_induct)
  case less
  note outer = less.hyps
  show ?case using less.prems
  proof (induction stack)
    case Nil
    then show ?case by (subst import_loop.simps) simp
  next
    case (Cons i rest)
    show ?case
    proof (cases "map_of (git_objects imp) i")
      case (Some x)
      then have "walk_inv sha objs refs fs0 rest imp fs"
      proof -
        have "dom (map_of (git_objects imp)) \<union> set (i # rest) = dom (map_of (git_objects imp)) \<union> set rest"
          using Some by auto
        then show ?thesis using Cons.prems unfolding walk_inv_def by simp
      qed
      from Cons.IH [OF this] show ?thesis using Some by (subst import_loop.simps) simp
    next
      case None
      have i: "i \<in> reached objs refs" using Cons.prems by (simp add: walk_inv_def)
      show ?thesis
      proof (cases "objs i")
        case o_none: None
        have "\<not> importable sha objs i" by (simp add: importable_def o_none)
        moreover have "import_loop sha sha1 objs (i # rest) imp fs = Some (Inl (MissingObject (hex_encode i)), fs)"
          by (subst import_loop.simps) (simp add: None o_none resolve_object_def)
        ultimately show ?thesis using i by auto
      next
        case (Some ob)
        obtain g where g: "roundtrip_ok sha1 (encode ob) = Inr g" using gate_git_ok ok [OF Some] by blast
        obtain r fs1 where r: "visit_object sha objs i ob imp fs = Some (r, fs1)"
          "case r of
             Inl _ \<Rightarrow> \<not> importable sha objs i
           | Inr (pushed, imp1) \<Rightarrow> set pushed = set (succs ob) \<and> git_objects imp1 = git_objects imp \<and> irefs imp1 = irefs imp \<and>
               mirror_inv sha objs (reached objs refs) fs0 (oid_map imp1) fs1 \<and>
               dom (map_of (oid_map imp)) \<subseteq> dom (map_of (oid_map imp1)) \<and>
               (is_node ob \<longrightarrow> i \<in> dom (map_of (oid_map imp1))) \<and>
               record_inv (imp1\<lparr>git_objects := AList.update i ob (git_objects imp1)\<rparr>)"
          using visit_object_post [OF Cons.prems wf None Some] by blast
        show ?thesis
        proof (cases r)
          case (Inl err)
          then have "import_loop sha sha1 objs (i # rest) imp fs = Some (Inl err, fs1)"
            using r(1) by (subst import_loop.simps) (simp add: None Some g resolve_object_def)
          then show ?thesis using r(2) Inl i by auto
        next
          case (Inr pi)
          obtain pushed imp1 where pi: "pi = (pushed, imp1)" by (cases pi)
          let ?imp = "imp1\<lparr>git_objects := AList.update i ob (git_objects imp1)\<rparr>"
          have v: "walk_inv sha objs refs fs0 (pushed @ rest) ?imp fs1"
            using r(2) walk_inv_step [OF Cons.prems Some, of pushed imp1 fs1] unfolding Inr pi sum.case prod.case by blast
          have "dom (map_of (git_objects ?imp)) = insert i (dom (map_of (git_objects imp)))"
            using r(2) unfolding Inr pi by (auto simp: update_conv' split: if_splits)
          moreover have "i \<in> dom objs - dom (map_of (git_objects imp))" using Some None by auto
          ultimately have "card (dom objs - dom (map_of (git_objects ?imp))) < card (dom objs - dom (map_of (git_objects imp)))"
            using fin by (intro psubset_card_mono) auto
          from outer [OF this v] show ?thesis
            using r(1) by (subst import_loop.simps) (simp add: None Some g resolve_object_def Inr pi)
        qed
      qed
    qed
  qed
qed

text \<open>The objects to import: finitely many well-formed ones, no tree among them inside itself.\<close>

definition repo_graph_ok :: "(git_oid \<rightharpoonup> git_object) \<Rightarrow> bool" where
  "repo_graph_ok objs \<longleftrightarrow> finite (dom objs) \<and> wf (tree_edge objs) \<and> (\<forall>i ob. objs i = Some ob \<longrightarrow> git_ok ob)"

lemma import_objects_post:
  assumes "repo_graph_ok objs"
  shows "\<exists>r fs'. import_objects sha sha1 objs refs fs = Some (r, fs') \<and>
      (case r of
         Inr imp \<Rightarrow> walk_inv sha objs refs fs [] imp fs'
       | Inl _ \<Rightarrow> \<exists>i\<in>reached objs refs. \<not> importable sha objs i)"
  unfolding import_objects_def
  by (rule import_loop_post)
     (use assms in \<open>auto simp: walk_inv_def mirror_inv_def record_inv_def number_def repo_graph_ok_def intro: reached_root\<close>)

lemma walk_inv_done:
  assumes "walk_inv sha objs refs fs [] imp fs'"
  shows "map_of (git_objects imp) = objs |` reached objs refs"
    "\<And>i. i \<in> reached objs refs \<Longrightarrow> importable sha objs i"
proof -
  let ?m = "map_of (git_objects imp)"
  have m: "i \<in> reached objs refs \<and> objs i = Some ob \<and> set (succs ob) \<subseteq> dom ?m \<and>
      (is_node ob \<longrightarrow> i \<in> dom (map_of (oid_map imp)))" if "?m i = Some ob" for i ob
    using assms that unfolding walk_inv_def by auto
  have "reached objs refs \<subseteq> dom ?m"
  proof (rule reached_least)
    show "snd ` set refs \<subseteq> dom ?m" using assms by (simp add: walk_inv_def)
    fix i ob assume "i \<in> dom ?m" "objs i = Some ob"
    then obtain ob' where "?m i = Some ob'" by blast
    from m [OF this] show "set (succs ob) \<subseteq> dom ?m" using \<open>objs i = Some ob\<close> by simp
  qed
  then have d: "dom ?m = reached objs refs" using m by blast
  show "?m = objs |` reached objs refs"
  proof
    fix i
    show "?m i = (objs |` reached objs refs) i"
    proof (cases "?m i")
      case None
      then have "i \<notin> reached objs refs" using d by blast
      then show ?thesis using None by (simp add: restrict_map_def)
    next
      case (Some ob)
      then show ?thesis using m [OF Some] by (simp add: restrict_map_def)
    qed
  qed
  fix i assume "i \<in> reached objs refs"
  then obtain ob where ob: "?m i = Some ob" using d by blast
  have "\<exists>x. mirrors sha objs i x" if "is_node ob"
  proof -
    obtain j where "map_of (oid_map imp) i = Some j" using m [OF ob] \<open>is_node ob\<close> by blast
    moreover have "mirror_inv sha objs (reached objs refs) fs (oid_map imp) fs'" using assms by (simp add: walk_inv_def)
    ultimately show ?thesis unfolding mirror_inv_def by metis
  qed
  then show "importable sha objs i" using m [OF ob] unfolding importable_def by blast
qed

section \<open>When a tree has a mirror\<close>

text \<open>The local condition on an object: it is there, and the entries of a tree have a supported mode, a
name that a tree can hold, and name a blob or a tree.\<close>

definition present :: "(git_oid \<rightharpoonup> git_object) \<Rightarrow> git_oid \<Rightarrow> bool" where
  "present objs i \<longleftrightarrow>
     (\<exists>ob. objs i = Some ob \<and>
        (\<forall>es e. ob = Tree es \<longrightarrow> e \<in> set es \<longrightarrow>
           is_ok (mode_to_kind (mode e)) \<and> validate_name (gname e) \<and>
           (\<exists>c. objs (goid e) = Some c \<and> is_node c)))"

lemma mirror_entries_all:
  "mirror_entries sha objs es t t' \<Longrightarrow> e \<in> set es \<Longrightarrow>
   is_ok (mode_to_kind (mode e)) \<and> validate_name (gname e) \<and> (\<exists>x. mirrors sha objs (goid e) x)"
proof (induction es arbitrary: t)
  case (Cons a es)
  obtain k x t1 where a: "mode_to_kind (mode a) = Inr k" "mirrors sha objs (goid a) x"
    "tree_insert t (gname a) k (obj_id sha x) = Inr t1" "mirror_entries sha objs es t1 t'"
    using Cons.prems(1) unfolding mirror_Cons by blast
  moreover have "validate_name (gname a)" using a(3) tree_insert_Inr by blast
  ultimately show ?case using Cons.IH [OF a(4)] Cons.prems(2) by auto
qed simp

lemma mirrors_present: "mirrors sha objs i x \<Longrightarrow> present objs i"
  unfolding present_def by (erule mirrorsE) (auto dest!: mirror_entries_all dest: mirrors_node)

lemma mirror_entries_exist:
  assumes "\<And>e. e \<in> set es \<Longrightarrow> is_ok (mode_to_kind (mode e)) \<and> validate_name (gname e) \<and> (\<exists>x. mirrors sha objs (goid e) x)"
  shows "\<exists>t'. mirror_entries sha objs es t t'"
  using assms
proof (induction es arbitrary: t)
  case (Cons e es)
  obtain k x where k: "mode_to_kind (mode e) = Inr k" "mirrors sha objs (goid e) x"
    using Cons.prems [of e] by (auto simp: is_ok_iff)
  obtain t1 where t1: "tree_insert t (gname e) k (obj_id sha x) = Inr t1"
    using Cons.prems [of e] tree_insert_Inr [of "gname e" t k "obj_id sha x"] by auto
  then show ?case using Cons.IH [OF Cons.prems, of t1] k unfolding mirror_Cons by auto
qed (auto intro: mirrors_mirror_entries.no_entry)

lemma mirrors_exist:
  assumes "wf (tree_edge objs)" "node_closed objs R" "\<And>i. i \<in> R \<Longrightarrow> present objs i"
  shows "i \<in> R \<Longrightarrow> objs i = Some ob \<Longrightarrow> is_node ob \<Longrightarrow> \<exists>x. mirrors sha objs i x"
  using assms(1)
proof (induction i arbitrary: ob rule: wf_induct_rule)
  case (less i)
  show ?case
  proof (cases ob)
    case (Tree es)
    have "is_ok (mode_to_kind (mode e)) \<and> validate_name (gname e) \<and> (\<exists>x. mirrors sha objs (goid e) x)"
      if "e \<in> set es" for e
    proof -
      have edge: "(goid e, i) \<in> tree_edge objs" using that less.prems(2) Tree by (auto simp: tree_edge_def)
      moreover have "goid e \<in> R" using edge less.prems(1) assms(2) by (auto simp: node_closed_def)
      moreover have "is_ok (mode_to_kind (mode e)) \<and> validate_name (gname e) \<and> (\<exists>c. objs (goid e) = Some c \<and> is_node c)"
        using assms(3) [OF less.prems(1)] less.prems(2) Tree that by (simp add: present_def)
      ultimately show ?thesis using less.IH by blast
    qed
    from mirror_entries_exist [OF this] show ?thesis using less.prems(2) Tree by (simp add: mirrors_Tree)
  qed (use less.prems in \<open>auto simp: is_node_def\<close>)
qed

lemma importable_present:
  assumes "wf (tree_edge objs)"
  shows "(\<forall>i\<in>reached objs refs. importable sha objs i) \<longleftrightarrow> (\<forall>i\<in>reached objs refs. present objs i)"
proof
  assume a: "\<forall>i\<in>reached objs refs. importable sha objs i"
  show "\<forall>i\<in>reached objs refs. present objs i"
  proof
    fix i assume "i \<in> reached objs refs"
    then obtain ob where ob: "objs i = Some ob" "is_node ob \<longrightarrow> (\<exists>x. mirrors sha objs i x)"
      using a unfolding importable_def by blast
    show "present objs i"
    proof (cases "is_node ob")
      case True
      then show ?thesis using ob mirrors_present by blast
    next
      case False
      then show ?thesis using ob(1) by (auto simp: present_def is_node_def)
    qed
  qed
next
  assume p: "\<forall>i\<in>reached objs refs. present objs i"
  show "\<forall>i\<in>reached objs refs. importable sha objs i"
  proof
    fix i assume i: "i \<in> reached objs refs"
    then obtain ob where "objs i = Some ob" using p by (auto simp: present_def)
    then show "importable sha objs i"
      using mirrors_exist [OF assms reached_node_closed _ i] p unfolding importable_def by blast
  qed
qed

section \<open>What the store holds after an import\<close>

lemma mirror_entries_ok:
  "mirror_entries sha objs es t t' \<Longrightarrow> tree_ok t \<Longrightarrow> full_digest sha \<Longrightarrow> list_all entry_git_ok es \<Longrightarrow> tree_ok t'"
proof (induction es arbitrary: t)
  case (Cons e es)
  obtain k x t1 where e: "tree_insert t (gname e) k (obj_id sha x) = Inr t1" "mirror_entries sha objs es t1 t'"
    using Cons.prems(1) unfolding mirror_Cons by blast
  have "tree_ok t1"
    using tree_insert_ok [OF Cons.prems(2) _ obj_id_ok [OF Cons.prems(3)] e(1)] Cons.prems(4)
    by (simp add: entry_git_ok_def)
  then show ?case using Cons.IH [OF e(2)] Cons.prems(3,4) by simp
qed simp

lemma mirrors_obj_ok:
  assumes "mirrors sha objs i x" "full_digest sha" "\<And>i ob. objs i = Some ob \<Longrightarrow> git_ok ob" "length (payload x) < usize_limit"
  shows "obj_ok x"
  using assms(1)
proof cases
  case (blob b)
  then show ?thesis using assms(4) by (simp add: obj_ok_def)
next
  case (tree es t)
  have "tree_ok new_tree" by (simp add: tree_ok_def new_tree_def sorted_names_def)
  then have "tree_ok t" using mirror_entries_ok [OF tree(3) _ assms(2)] assms(3) [OF tree(2)] by (simp add: git_ok_def)
  then show ?thesis using assms(4) tree(1) by (simp add: obj_ok_def)
qed

definition mirrored :: "(string \<Rightarrow> string) \<Rightarrow> (git_oid \<rightharpoonup> git_object) \<Rightarrow> (string \<times> git_oid) list \<Rightarrow> object set" where
  "mirrored sha objs refs = {x. \<exists>i\<in>reached objs refs. mirrors sha objs i x}"

lemma mirror_readable:
  assumes inv: "mirror_inv sha objs (reached objs refs) fs0 m fs" and j: "map_of m i = Some j"
    and store: "store_ok sha fs0" and ok: "\<And>x. x \<in> mirrored sha objs refs \<Longrightarrow> obj_ok x"
    and inj: "inj_on (obj_id sha) (mirrored sha objs refs \<union> held sha fs0)"
  shows "\<exists>x. mirrors sha objs i x \<and> j = obj_id sha x \<and> read_object sha fs j = Some (Inr x)"
proof -
  obtain x where x: "i \<in> reached objs refs" "mirrors sha objs i x" "j = obj_id sha x" "has_object fs j"
    using inv j unfolding mirror_inv_def by blast
  have xm: "x \<in> mirrored sha objs refs" using x(1,2) by (auto simp: mirrored_def)
  obtain b where b: "fs (object_path j) = Some b" using x(4) by (auto simp: has_object_def)
  have "fs0 (object_path j) = Some b \<or>
      (\<exists>i\<in>reached objs refs. \<exists>y. mirrors sha objs i y \<and> object_path j = object_path (obj_id sha y) \<and> b = serialize y)"
    using inv b unfolding mirror_inv_def by blast
  then have "\<exists>y. obj_ok y \<and> y \<in> mirrored sha objs refs \<union> held sha fs0 \<and> obj_id sha y = j \<and> b = serialize y"
  proof
    assume f: "fs0 (object_path j) = Some b"
    then obtain y where y: "obj_ok y" "object_path j = object_path (obj_id sha y)" "b = serialize y"
      using store unfolding store_ok_def by blast
    then have "y \<in> held sha fs0" using f by (simp add: held_def object_path_inject)
    then show ?thesis using y by (auto simp: object_path_inject)
  next
    assume "\<exists>i\<in>reached objs refs. \<exists>y. mirrors sha objs i y \<and> object_path j = object_path (obj_id sha y) \<and> b = serialize y"
    then obtain y where y: "y \<in> mirrored sha objs refs" "object_path j = object_path (obj_id sha y)" "b = serialize y"
      unfolding mirrored_def by blast
    then show ?thesis using ok by (auto simp: object_path_inject)
  qed
  then obtain y where y: "obj_ok y" "y \<in> mirrored sha objs refs \<union> held sha fs0" "obj_id sha y = j" "b = serialize y" by blast
  then have "y = x" using inj xm x(3) by (auto simp: inj_on_def)
  then show ?thesis using x(2,3) y b read_stored by blast
qed

text \<open>The entries of the mirror of a tree whose names are distinct.\<close>

lemma mirror_entries_get:
  assumes "mirror_entries sha objs es t t'" "sorted_names (entries t)" "distinct (map gname es)"
  shows "(\<forall>e\<in>set es. \<exists>k x. mode_to_kind (mode e) = Inr k \<and> mirrors sha objs (goid e) x \<and>
      tree_get t' (gname e) = Some \<lparr>ename = gname e, ekind = k, eid = obj_id sha x\<rparr>) \<and>
    (\<forall>n. n \<notin> gname ` set es \<longrightarrow> tree_get t' n = tree_get t n)"
  using assms
proof (induction es arbitrary: t)
  case (Cons e es)
  obtain k x t1 where e: "mode_to_kind (mode e) = Inr k" "mirrors sha objs (goid e) x"
    "tree_insert t (gname e) k (obj_id sha x) = Inr t1" "mirror_entries sha objs es t1 t'"
    using Cons.prems(1) unfolding mirror_Cons by blast
  note get = tree_get_insert [OF Cons.prems(2) e(3)]
  have s1: "sorted_names (entries t1)" using tree_insert_spec [OF Cons.prems(2) e(3)] by blast
  have IH: "\<forall>e\<in>set es. \<exists>k x. mode_to_kind (mode e) = Inr k \<and> mirrors sha objs (goid e) x \<and>
      tree_get t' (gname e) = Some \<lparr>ename = gname e, ekind = k, eid = obj_id sha x\<rparr>"
    "\<forall>n. n \<notin> gname ` set es \<longrightarrow> tree_get t' n = tree_get t1 n"
    using Cons.IH [OF e(4) s1] Cons.prems(3) by auto
  have "tree_get t' (gname e) = Some \<lparr>ename = gname e, ekind = k, eid = obj_id sha x\<rparr>"
    using IH(2) Cons.prems(3) by (simp add: get)
  moreover have "tree_get t' n = tree_get t n" if "n \<notin> gname ` set (e # es)" for n
    using that IH(2) by (simp add: get)
  ultimately show ?case using IH(1) e(1,2) by (metis set_ConsD)
qed simp

text \<open>The objects of a mirrored repository can be stored and told apart: full digests, sizes within the
limit of the length field, no collision among them and what the store holds.\<close>

definition storable :: "(string \<Rightarrow> string) \<Rightarrow> (git_oid \<rightharpoonup> git_object) \<Rightarrow> (string \<times> git_oid) list \<Rightarrow> object_files \<Rightarrow> bool" where
  "storable sha objs refs fs \<longleftrightarrow>
     full_digest sha \<and> store_ok sha fs \<and> (\<forall>x\<in>mirrored sha objs refs. length (payload x) < usize_limit) \<and>
     inj_on (obj_id sha) (mirrored sha objs refs \<union> held sha fs)"

section \<open>A small repository\<close>

definition ex_b :: git_oid where "ex_b = replicate 20 CHR ''b''"
definition ex_t :: git_oid where "ex_t = replicate 20 CHR ''t''"
definition ex_c :: git_oid where "ex_c = replicate 20 CHR ''c''"

definition ex_git_commit :: git_commit where
  "ex_git_commit = \<lparr>ctree = ex_t, cparents = [], cauthor = ''A'', committer = ''C'', cmessage = ''msg'',
     cbody = ''tree '' @ hex_encode ex_t @ newline # ''author A'' @ newline # ''committer C'' @ newline # newline # ''msg''\<rparr>"

definition ex_entry :: git_tree_entry where
  "ex_entry = \<lparr>mode = ''100644'', gname = ''f'', goid = ex_b\<rparr>"

definition ex_objs :: "git_oid \<rightharpoonup> git_object" where
  "ex_objs = [ex_b \<mapsto> Blob ''x'', ex_t \<mapsto> Tree [ex_entry], ex_c \<mapsto> CommitObj ex_git_commit]"

definition ex_mirror :: tree where
  "ex_mirror = \<lparr>entries = [\<lparr>ename = ''f'', ekind = EBlob, eid = obj_id ex_sha (BlobObj ''x'')\<rparr>]\<rparr>"

lemma ex_oids [simp]: "ex_b \<noteq> ex_t" "ex_b \<noteq> ex_c" "ex_t \<noteq> ex_c" "ex_t \<noteq> ex_b" "ex_c \<noteq> ex_b" "ex_c \<noteq> ex_t"
  by (simp_all add: ex_b_def ex_t_def ex_c_def numeral_eq_Suc)

lemma ex_objs_simps:
  "ex_objs ex_b = Some (Blob ''x'')" "ex_objs ex_t = Some (Tree [ex_entry])" "ex_objs ex_c = Some (CommitObj ex_git_commit)"
  by (simp_all add: ex_objs_def)

lemma ex_objs_cases: "ex_objs i = Some ob \<Longrightarrow> i = ex_b \<and> ob = Blob ''x'' \<or> i = ex_t \<and> ob = Tree [ex_entry] \<or>
    i = ex_c \<and> ob = CommitObj ex_git_commit"
  by (auto simp: ex_objs_def split: if_splits)

lemma ex_repo_graph_ok: "repo_graph_ok ex_objs"
proof -
  have "git_ok (Blob ''x'')" "git_ok (Tree [ex_entry])" "git_ok (CommitObj ex_git_commit)" by code_simp+
  moreover have "tree_edge ex_objs \<subseteq> {(ex_b, ex_t)}"
    by (auto simp: tree_edge_def ex_entry_def dest: ex_objs_cases)
  then have "wf (tree_edge ex_objs)" by (rule wf_subset [rotated]) simp
  moreover have "finite (dom ex_objs)" by (simp add: ex_objs_def)
  ultimately show ?thesis unfolding repo_graph_ok_def using ex_objs_cases by blast
qed

lemma ex_reached: "reached ex_objs [(''HEAD'', ex_c)] = {ex_c, ex_t, ex_b}"
proof
  show "reached ex_objs [(''HEAD'', ex_c)] \<subseteq> {ex_c, ex_t, ex_b}"
    by (rule reached_least) (auto simp: succs_def ex_entry_def ex_git_commit_def dest!: ex_objs_cases)
  have c: "ex_c \<in> reached ex_objs [(''HEAD'', ex_c)]" using reached_root [of "(''HEAD'', ex_c)"] by simp
  then have t: "ex_t \<in> reached ex_objs [(''HEAD'', ex_c)]"
    using reached_step [OF c ex_objs_simps(3)] by (simp add: succs_def ex_git_commit_def)
  then have "ex_b \<in> reached ex_objs [(''HEAD'', ex_c)]"
    using reached_step [OF t ex_objs_simps(2)] by (simp add: succs_def ex_entry_def)
  with c t show "{ex_c, ex_t, ex_b} \<subseteq> reached ex_objs [(''HEAD'', ex_c)]" by simp
qed

lemma ex_mirrored: "mirrored ex_sha ex_objs [(''HEAD'', ex_c)] \<subseteq> {BlobObj ''x'', TreeObj ex_mirror}"
proof -
  have "tree_insert new_tree ''f'' EBlob (obj_id ex_sha (BlobObj ''x'')) = Inr ex_mirror" by code_simp
  moreover have "mode_to_kind ''100644'' = Inr EBlob" by code_simp
  ultimately have "mirrors ex_sha ex_objs ex_t x \<Longrightarrow> x = TreeObj ex_mirror" for x
    by (auto simp: mirrors_Tree ex_objs_simps mirror_Cons ex_entry_def)
  moreover have "\<not> mirrors ex_sha ex_objs ex_c x" for x
    using mirrors_node [of ex_sha ex_objs ex_c x] by (auto simp: ex_objs_simps is_node_def)
  ultimately show ?thesis by (auto simp: mirrored_def ex_reached ex_objs_simps)
qed

lemma ex_storable: "storable ex_sha ex_objs [(''HEAD'', ex_c)] Map.empty"
proof -
  have n: "obj_id ex_sha (BlobObj ''x'') \<noteq> obj_id ex_sha (TreeObj ex_mirror)"
    "length (payload (BlobObj ''x'')) < usize_limit" "length (payload (TreeObj ex_mirror)) < usize_limit" by code_simp+
  then have "inj_on (obj_id ex_sha) {BlobObj ''x'', TreeObj ex_mirror}" by auto
  moreover have "held ex_sha Map.empty = {}" by (simp add: held_def)
  ultimately show ?thesis
    using ex_mirrored n ex_sha_full unfolding storable_def
    by (auto simp: store_ok_def intro: inj_on_subset)
qed

section \<open>Properties\<close>

text \<open>C35: The import always returns: on a finite set of well-formed objects in which no tree contains
  itself, and it succeeds exactly when every object that the refs reach is there and every tree
  they reach can be mirrored.\<close>
theorem import_returns:
  assumes "repo_graph_ok objs"
  shows "\<exists>r fs'. import_objects sha sha1 objs refs fs = Some (r, fs') \<and>
    (is_ok r \<longleftrightarrow> (\<forall>i\<in>reached objs refs. present objs i))"
proof -
  obtain r fs' where r: "import_objects sha sha1 objs refs fs = Some (r, fs')"
    "case r of Inr imp \<Rightarrow> walk_inv sha objs refs fs [] imp fs' | Inl _ \<Rightarrow> \<exists>i\<in>reached objs refs. \<not> importable sha objs i"
    using import_objects_post [OF assms] by blast
  have "is_ok r \<longleftrightarrow> (\<forall>i\<in>reached objs refs. importable sha objs i)"
    using r(2) walk_inv_done(2) by (cases r) auto
  moreover have "wf (tree_edge objs)" using assms by (simp add: repo_graph_ok_def)
  ultimately show ?thesis using r(1) importable_present by blast
qed

lemma import_returns_witness:
  "\<exists>imp fs'. import_objects ex_sha (\<lambda>_. ex_hash) ex_objs [(''HEAD'', ex_c)] Map.empty = Some (Inr imp, fs')"
proof -
  have "present ex_objs i" if "i \<in> {ex_c, ex_t, ex_b}" for i
    using that by (auto simp: present_def ex_objs_simps ex_entry_def is_node_def mode_to_kind_def validate_name_def)
  then show ?thesis
    using import_returns [OF ex_repo_graph_ok, of ex_sha "\<lambda>_. ex_hash" "[(''HEAD'', ex_c)]" Map.empty]
    unfolding ex_reached by (auto simp: is_ok_iff)
qed

lemma ex_import:
  obtains imp fs' where "import_objects ex_sha (\<lambda>_. ex_hash) ex_objs [(''HEAD'', ex_c)] Map.empty = Some (Inr imp, fs')"
proof -
  have p: "\<forall>i\<in>reached ex_objs [(''HEAD'', ex_c)]. importable ex_sha ex_objs i"
    using importable_present [of ex_objs "[(''HEAD'', ex_c)]" ex_sha] ex_repo_graph_ok
    by (auto simp: repo_graph_ok_def ex_reached present_def ex_objs_simps ex_entry_def is_node_def mode_to_kind_def validate_name_def)
  obtain r fs' where r: "import_objects ex_sha (\<lambda>_. ex_hash) ex_objs [(''HEAD'', ex_c)] Map.empty = Some (r, fs')"
    "case r of Inr imp \<Rightarrow> walk_inv ex_sha ex_objs [(''HEAD'', ex_c)] Map.empty [] imp fs'
     | Inl _ \<Rightarrow> \<exists>i\<in>reached ex_objs [(''HEAD'', ex_c)]. \<not> importable ex_sha ex_objs i"
    using import_objects_post [OF ex_repo_graph_ok, of ex_sha "\<lambda>_. ex_hash" "[(''HEAD'', ex_c)]" Map.empty] by blast
  show ?thesis
  proof (cases r)
    case (Inl err)
    then show ?thesis using r(2) p by simp
  next
    case (Inr imp)
    then show ?thesis using r(1) that by simp
  qed
qed

lemma import_objects_readable:
  assumes "import_objects sha sha1 objs refs fs = Some (Inr imp, fs')"
    and "repo_graph_ok objs" "storable sha objs refs fs"
  shows "walk_inv sha objs refs fs [] imp fs'"
    "map_of (oid_map imp) i = Some j \<Longrightarrow> \<exists>x. mirrors sha objs i x \<and> j = obj_id sha x \<and> read_object sha fs' j = Some (Inr x)"
    "i \<in> dom (map_of (oid_map imp)) \<longleftrightarrow> i \<in> reached objs refs \<and> (\<exists>ob. objs i = Some ob \<and> is_node ob)"
proof -
  show w: "walk_inv sha objs refs fs [] imp fs'"
    using import_objects_post [OF assms(2), of sha sha1 refs fs] assms(1) by auto
  have inv: "mirror_inv sha objs (reached objs refs) fs (oid_map imp) fs'" using w by (simp add: walk_inv_def)
  have ok: "obj_ok x" if "x \<in> mirrored sha objs refs" for x
    using that mirrors_obj_ok assms(2,3) unfolding mirrored_def storable_def repo_graph_ok_def by blast
  show "map_of (oid_map imp) i = Some j \<Longrightarrow> \<exists>x. mirrors sha objs i x \<and> j = obj_id sha x \<and> read_object sha fs' j = Some (Inr x)"
    using mirror_readable [OF inv _ _ ok] assms(3) unfolding storable_def by blast
  show "i \<in> dom (map_of (oid_map imp)) \<longleftrightarrow> i \<in> reached objs refs \<and> (\<exists>ob. objs i = Some ob \<and> is_node ob)"
  proof
    assume "i \<in> dom (map_of (oid_map imp))"
    then obtain x where "i \<in> reached objs refs" "mirrors sha objs i x"
      using inv unfolding mirror_inv_def by blast
    then show "i \<in> reached objs refs \<and> (\<exists>ob. objs i = Some ob \<and> is_node ob)" using mirrors_node by blast
  next
    assume a: "i \<in> reached objs refs \<and> (\<exists>ob. objs i = Some ob \<and> is_node ob)"
    then obtain ob where ob: "objs i = Some ob" "is_node ob" "i \<in> reached objs refs" by blast
    then have "map_of (git_objects imp) i = Some ob" using walk_inv_done(1) [OF w] by simp
    then show "i \<in> dom (map_of (oid_map imp))" using w ob(2) unfolding walk_inv_def by blast
  qed
qed

lemma import_tree_entries:
  assumes "import_objects sha sha1 objs refs fs = Some (Inr imp, fs')" "repo_graph_ok objs" "storable sha objs refs fs"
  shows "\<forall>i es j. objs i = Some (Tree es) \<longrightarrow> map_of (oid_map imp) i = Some j \<longrightarrow> distinct (map gname es) \<longrightarrow>
       (\<exists>t. read_object sha fs' j = Some (Inr (TreeObj t)) \<and>
          (\<forall>n. tree_get t n \<noteq> None \<longleftrightarrow> n \<in> gname ` set es) \<and>
          (\<forall>e\<in>set es. \<exists>k c. mode_to_kind (mode e) = Inr k \<and> map_of (oid_map imp) (goid e) = Some c \<and>
             tree_get t (gname e) = Some \<lparr>ename = gname e, ekind = k, eid = c\<rparr>))"
proof -
  note R = import_objects_readable [OF assms]
  have tree: "\<exists>t. read_object sha fs' j = Some (Inr (TreeObj t)) \<and>
          (\<forall>n. tree_get t n \<noteq> None \<longleftrightarrow> n \<in> gname ` set es) \<and>
          (\<forall>e\<in>set es. \<exists>k c. mode_to_kind (mode e) = Inr k \<and> map_of (oid_map imp) (goid e) = Some c \<and>
             tree_get t (gname e) = Some \<lparr>ename = gname e, ekind = k, eid = c\<rparr>)"
    if a: "objs i = Some (Tree es)" "map_of (oid_map imp) i = Some j" "distinct (map gname es)" for i es j
  proof -
    obtain t where t: "mirror_entries sha objs es new_tree t" "read_object sha fs' j = Some (Inr (TreeObj t))"
      using R(2) [OF a(2)] a(1) by (auto simp: mirrors_Tree)
    have s: "sorted_names (entries new_tree)" "tree_get new_tree n = None" for n
      by (auto simp: new_tree_def sorted_names_def tree_get_def binary_search_def bisect.simps)
    note G = mirror_entries_get [OF t(1) s(1) a(3)]
    have "i \<in> reached objs refs" using a(2) R(3) by blast
    then have kids: "goid e \<in> reached objs refs" if "e \<in> set es" for e
      using that reached_step [where objs = objs, OF _ a(1)] by (auto simp: succs_def)
    have "\<exists>k c. mode_to_kind (mode e) = Inr k \<and> map_of (oid_map imp) (goid e) = Some c \<and>
        tree_get t (gname e) = Some \<lparr>ename = gname e, ekind = k, eid = c\<rparr>" if e: "e \<in> set es" for e
    proof -
      obtain k x where x: "mode_to_kind (mode e) = Inr k" "mirrors sha objs (goid e) x"
        "tree_get t (gname e) = Some \<lparr>ename = gname e, ekind = k, eid = obj_id sha x\<rparr>" using G e by blast
      obtain c where c: "map_of (oid_map imp) (goid e) = Some c"
        using R(3) [of "goid e"] kids [OF e] mirrors_node [OF x(2)] by blast
      then have "c = obj_id sha x" using R(2) [OF c] mirrors_det(1) [OF x(2)] by blast
      then show ?thesis using x c by blast
    qed
    moreover have "tree_get t n \<noteq> None \<longleftrightarrow> n \<in> gname ` set es" for n
    proof (cases "n \<in> gname ` set es")
      case True
      then show ?thesis using G by force
    next
      case False
      then show ?thesis using G s(2) by simp
    qed
    ultimately show ?thesis using t(2) by blast
  qed
  then show ?thesis by blast
qed

text \<open>C34: What a successful import is: its record holds exactly the objects that the refs reach, with the
  commits and the counts of the kinds; exactly the blobs and trees among them have an id of the
  store, under which the store holds a blob with the same bytes, or a tree with an entry for every
  name of the git tree, of the kind of its mode and with the id of the object that it names.\<close>
theorem import_exact:
  assumes "import_objects sha sha1 objs refs fs = Some (Inr imp, fs')"
    and "repo_graph_ok objs" "storable sha objs refs fs"
  shows "map_of (git_objects imp) = objs |` reached objs refs \<and> record_inv imp \<and> irefs imp = refs \<and> fs \<subseteq>\<^sub>m fs' \<and>
    dom (map_of (oid_map imp)) = {i \<in> reached objs refs. \<exists>ob. objs i = Some ob \<and> is_node ob} \<and>
    (\<forall>i bytes j. objs i = Some (Blob bytes) \<longrightarrow> map_of (oid_map imp) i = Some j \<longrightarrow>
       read_object sha fs' j = Some (Inr (BlobObj bytes))) \<and>
    (\<forall>i es j. objs i = Some (Tree es) \<longrightarrow> map_of (oid_map imp) i = Some j \<longrightarrow> distinct (map gname es) \<longrightarrow>
       (\<exists>t. read_object sha fs' j = Some (Inr (TreeObj t)) \<and>
          (\<forall>n. tree_get t n \<noteq> None \<longleftrightarrow> n \<in> gname ` set es) \<and>
          (\<forall>e\<in>set es. \<exists>k c. mode_to_kind (mode e) = Inr k \<and> map_of (oid_map imp) (goid e) = Some c \<and>
             tree_get t (gname e) = Some \<lparr>ename = gname e, ekind = k, eid = c\<rparr>)))"
proof -
  note R = import_objects_readable [OF assms]
  have inv: "mirror_inv sha objs (reached objs refs) fs (oid_map imp) fs'" using R(1) by (simp add: walk_inv_def)
  have blob: "read_object sha fs' j = Some (Inr (BlobObj bytes))"
    if "objs i = Some (Blob bytes)" "map_of (oid_map imp) i = Some j" for i bytes j
    using R(2) [OF that(2)] that(1) by auto
  note tree = import_tree_entries [OF assms]
  show ?thesis
  proof (intro conjI)
    show "map_of (git_objects imp) = objs |` reached objs refs" by (rule walk_inv_done(1) [OF R(1)])
    show "record_inv imp" "irefs imp = refs" using R(1) by (simp_all add: walk_inv_def)
    show "fs \<subseteq>\<^sub>m fs'" using inv by (simp add: mirror_inv_def)
    show "dom (map_of (oid_map imp)) = {i \<in> reached objs refs. \<exists>ob. objs i = Some ob \<and> is_node ob}"
      using R(3) by blast
  qed (use blob tree in blast)+
qed

lemma import_exact_witness:
  "\<exists>imp fs' j. import_objects ex_sha (\<lambda>_. ex_hash) ex_objs [(''HEAD'', ex_c)] Map.empty = Some (Inr imp, fs') \<and>
     map_of (git_objects imp) ex_c = Some (CommitObj ex_git_commit) \<and> map_of (oid_map imp) ex_b = Some j \<and>
     read_object ex_sha fs' j = Some (Inr (BlobObj ''x''))"
proof -
  obtain imp fs' where i: "import_objects ex_sha (\<lambda>_. ex_hash) ex_objs [(''HEAD'', ex_c)] Map.empty = Some (Inr imp, fs')"
    by (rule ex_import)
  note E = import_exact [OF i ex_repo_graph_ok ex_storable]
  have "ex_b \<in> dom (map_of (oid_map imp))" using E by (auto simp: ex_reached ex_objs_simps is_node_def)
  then obtain j where j: "map_of (oid_map imp) ex_b = Some j" by blast
  have "map_of (git_objects imp) ex_c = Some (CommitObj ex_git_commit)" using E by (simp add: ex_reached ex_objs_simps)
  then show ?thesis using i j E ex_objs_simps(1) by blast
qed

text \<open>C36: Types are kept: when the mode of every tree entry agrees with the type of the object it names,
  every tree that the import stores is well-typed, an entry of kind tree leading to a stored tree
  and an entry of kind blob to a stored blob.\<close>
theorem import_well_typed:
  assumes "import_objects sha sha1 objs refs fs = Some (Inr imp, fs')" "repo_graph_ok objs" "storable sha objs refs fs"
    and typed: "\<forall>i es e. objs i = Some (Tree es) \<longrightarrow> e \<in> set es \<longrightarrow>
      (mode_to_kind (mode e) = Inr ETree \<longleftrightarrow> (\<exists>sub. objs (goid e) = Some (Tree sub)))"
    and i: "map_of (oid_map imp) i = Some j" "objs i = Some (Tree es)" "distinct (map gname es)"
  shows "\<exists>t. read_object sha fs' j = Some (Inr (TreeObj t)) \<and>
    (\<forall>n e. tree_get t n = Some e \<longrightarrow>
       (case ekind e of
          ETree \<Rightarrow> \<exists>sub. read_object sha fs' (eid e) = Some (Inr (TreeObj sub))
        | EBlob \<Rightarrow> \<exists>bytes. read_object sha fs' (eid e) = Some (Inr (BlobObj bytes))))"
proof -
  note R = import_objects_readable [OF assms(1-3)]
  have exact: "\<forall>i es j. objs i = Some (Tree es) \<longrightarrow> map_of (oid_map imp) i = Some j \<longrightarrow> distinct (map gname es) \<longrightarrow>
       (\<exists>t. read_object sha fs' j = Some (Inr (TreeObj t)) \<and>
          (\<forall>n. tree_get t n \<noteq> None \<longleftrightarrow> n \<in> gname ` set es) \<and>
          (\<forall>e\<in>set es. \<exists>k c. mode_to_kind (mode e) = Inr k \<and> map_of (oid_map imp) (goid e) = Some c \<and>
             tree_get t (gname e) = Some \<lparr>ename = gname e, ekind = k, eid = c\<rparr>))"
    by (rule import_tree_entries [OF assms(1-3)])
  then obtain t where t: "read_object sha fs' j = Some (Inr (TreeObj t))"
    "\<forall>n. tree_get t n \<noteq> None \<longleftrightarrow> n \<in> gname ` set es"
    "\<forall>e\<in>set es. \<exists>k c. mode_to_kind (mode e) = Inr k \<and> map_of (oid_map imp) (goid e) = Some c \<and>
       tree_get t (gname e) = Some \<lparr>ename = gname e, ekind = k, eid = c\<rparr>" using i by blast
  have "case ekind e of
          ETree \<Rightarrow> \<exists>sub. read_object sha fs' (eid e) = Some (Inr (TreeObj sub))
        | EBlob \<Rightarrow> \<exists>bytes. read_object sha fs' (eid e) = Some (Inr (BlobObj bytes))"
    if e: "tree_get t n = Some e" for n e
  proof -
    obtain ge where ge: "ge \<in> set es" "n = gname ge" using t(2) e by (metis imageE option.distinct(1))
    then obtain k c where k: "mode_to_kind (mode ge) = Inr k" "map_of (oid_map imp) (goid ge) = Some c"
      "e = \<lparr>ename = gname ge, ekind = k, eid = c\<rparr>" using t(3) e by (metis option.inject)
    obtain x where x: "mirrors sha objs (goid ge) x" "read_object sha fs' c = Some (Inr x)" using R(2) [OF k(2)] by blast
    show ?thesis using x
    proof cases
      case (blob b)
      then have "k = EBlob" using typed i(2) ge(1) k(1) by (cases k) force+
      then show ?thesis using k(3) x(2) blob by simp
    next
      case (tree sub t')
      then have "k = ETree" using typed i(2) ge(1) k(1) by force
      then show ?thesis using k(3) x(2) tree by simp
    qed
  qed
  then show ?thesis using t(1) by blast
qed

lemma import_well_typed_witness:
  "\<exists>imp fs' j t. import_objects ex_sha (\<lambda>_. ex_hash) ex_objs [(''HEAD'', ex_c)] Map.empty = Some (Inr imp, fs') \<and>
     map_of (oid_map imp) ex_t = Some j \<and> read_object ex_sha fs' j = Some (Inr (TreeObj t))"
proof -
  obtain imp fs' where i: "import_objects ex_sha (\<lambda>_. ex_hash) ex_objs [(''HEAD'', ex_c)] Map.empty = Some (Inr imp, fs')"
    by (rule ex_import)
  have "ex_t \<in> dom (map_of (oid_map imp))"
    using import_objects_readable(3) [OF i ex_repo_graph_ok ex_storable, of ex_t] by (auto simp: ex_reached ex_objs_simps is_node_def)
  then obtain j where j: "map_of (oid_map imp) ex_t = Some j" by blast
  have typed: "\<forall>i es e. ex_objs i = Some (Tree es) \<longrightarrow> e \<in> set es \<longrightarrow>
      (mode_to_kind (mode e) = Inr ETree \<longleftrightarrow> (\<exists>sub. ex_objs (goid e) = Some (Tree sub)))"
    by (auto dest!: ex_objs_cases simp: ex_entry_def ex_objs_simps mode_to_kind_def)
  from import_well_typed [OF i ex_repo_graph_ok ex_storable typed j ex_objs_simps(2)] i j show ?thesis by auto
qed

text \<open>The modes are not checked against the objects: a tree whose entry of mode 100644 names a tree is
imported, and the store then holds a tree with an entry of kind blob that leads to a tree.\<close>
lemma import_confuses_types:
  "(case import_objects ex_sha (\<lambda>_. ex_hash)
       [ex_b \<mapsto> Tree [], ex_t \<mapsto> Tree [\<lparr>mode = ''100644'', gname = ''f'', goid = ex_b\<rparr>]] [(''HEAD'', ex_t)] Map.empty of
      Some (Inr imp, fs) \<Rightarrow>
        map_option (read_object ex_sha fs) (map_of (oid_map imp) ex_t) =
          Some (Some (Inr (TreeObj \<lparr>entries = [\<lparr>ename = ''f'', ekind = EBlob, eid = obj_id ex_sha (TreeObj new_tree)\<rparr>]\<rparr>))) \<and>
        read_object ex_sha fs (obj_id ex_sha (TreeObj new_tree)) = Some (Inr (TreeObj new_tree))
    | _ \<Rightarrow> False)"
  by code_simp

end
