(* ===== verification/GitLog.thy ===== *)
theory GitLog
  imports GitImport
begin

text \<open>
  The log of an import, \<open>GitImport::commit_log\<close> of \<open>import.rs\<close>: Kahn's algorithm from the children
  to the parents. The map of counters is a function; the vector of ready commits is the list of
  its elements from the end, so that the next one to pop is the head. \<open>None\<close> is the panic of a
  counter that underflows; the theorems show that it does not happen.
\<close>

type_synonym dag = "(git_oid \<times> git_commit) list"

definition bump :: "dag \<Rightarrow> (git_oid \<rightharpoonup> nat) \<Rightarrow> git_oid \<Rightarrow> git_oid \<rightharpoonup> nat" where
  "bump dag rc p =
     (if map_of dag p \<noteq> None
      then rc(p \<mapsto> (case rc p of Some n \<Rightarrow> n | None \<Rightarrow> 0) + 1) else rc)"

definition remaining_children :: "dag \<Rightarrow> git_oid \<rightharpoonup> nat" where
  "remaining_children dag =
     foldl (\<lambda>rc (i, c). foldl (bump dag) rc (cparents c))
       (foldl (\<lambda>rc (i, c). if rc i = None then rc(i \<mapsto> 0) else rc) Map.empty dag) dag"

fun drop_child :: "git_oid list \<Rightarrow> (git_oid \<rightharpoonup> nat) \<Rightarrow> git_oid list \<Rightarrow> ((git_oid \<rightharpoonup> nat) \<times> git_oid list) option" where
  "drop_child [] rc new = Some (rc, new)"
| "drop_child (p # ps) rc new =
     (case rc p of
        None \<Rightarrow> drop_child ps rc new
      | Some 0 \<Rightarrow> None
      | Some (Suc n) \<Rightarrow> drop_child ps (rc(p \<mapsto> n)) (if n = 0 then new @ [p] else new))"

partial_function (option) log_loop ::
  "(git_oid \<rightharpoonup> git_commit) \<Rightarrow> (git_oid \<rightharpoonup> nat) \<Rightarrow> git_oid list \<Rightarrow> git_oid list \<Rightarrow> git_oid list option" where
  "log_loop dag rc ready out =
     (case ready of
        [] \<Rightarrow> Some out
      | i # rest \<Rightarrow>
        (case dag i of
           None \<Rightarrow> log_loop dag rc rest (out @ [i])
         | Some c \<Rightarrow>
             Option.bind (drop_child (cparents c) rc []) (\<lambda>(rc, new).
               log_loop dag rc (sort_key hex_encode new @ rest) (out @ [i]))))"

declare log_loop.simps [code]

definition commit_log :: "git_import \<Rightarrow> git_oid list option" where
  "commit_log imp =
     (let dag = commit_dag imp; rc = remaining_children dag in
      log_loop (map_of dag) rc (sort_key hex_encode (filter (\<lambda>i. rc i = Some 0) (map fst dag))) [])"

section \<open>The counters\<close>

text \<open>How often the commits outside a list name a commit as a parent.\<close>

definition children :: "dag \<Rightarrow> git_oid list \<Rightarrow> git_oid \<Rightarrow> nat" where
  "children dag out p = (\<Sum>(i, c)\<leftarrow>filter (\<lambda>(i, c). i \<notin> set out) dag. count_list (cparents c) p)"

lemma children_Nil: "children ((i, c) # dag) [] p = count_list (cparents c) p + children dag [] p"
  by (simp add: children_def)

lemma init_zero:
  "foldl (\<lambda>rc (i, c). if rc i = None then rc(i \<mapsto> 0) else rc) rc0 dag p =
     (if rc0 p = None \<and> p \<in> fst ` set dag then Some 0 else rc0 p)"
  by (induction dag arbitrary: rc0) (auto split: prod.splits)

lemma bump_parents:
  "foldl (bump dag) rc ps p =
     (if map_of dag p \<noteq> None \<and> p \<in> set ps
      then Some ((case rc p of Some n \<Rightarrow> n | None \<Rightarrow> 0) + count_list ps p) else rc p)"
  by (induction ps arbitrary: rc) (auto simp: bump_def split: option.splits)

lemma bump_all:
  assumes "p \<in> fst ` set dag" "rc p = Some n"
  shows "foldl (\<lambda>rc (i, c). foldl (bump dag) rc (cparents c)) rc cs p = Some (n + children cs [] p)"
  using assms(2)
proof (induction cs arbitrary: rc n)
  case (Cons a cs)
  obtain i c where a: "a = (i, c)" by (cases a)
  have "map_of dag p \<noteq> None" using assms(1) by (simp add: map_of_eq_None_iff)
  then have "foldl (bump dag) rc (cparents c) p = Some (n + count_list (cparents c) p)"
    using Cons.prems by (simp add: bump_parents count_list_0_iff)
  from Cons.IH [where rc = "foldl (bump dag) rc (cparents c)" and n = "n + count_list (cparents c) p", OF this]
  show ?case by (simp add: a children_Nil)
qed (simp add: children_def)

lemma bump_other:
  "p \<notin> fst ` set dag \<Longrightarrow> rc p = None \<Longrightarrow> foldl (\<lambda>rc (i, c). foldl (bump dag) rc (cparents c)) rc cs p = None"
proof (induction cs arbitrary: rc)
  case (Cons a cs)
  then show ?case by (cases a) (simp add: bump_parents map_of_eq_None_iff)
qed simp

lemma remaining_children_eq:
  "remaining_children dag p = (if p \<in> fst ` set dag then Some (children dag [] p) else None)"
  using bump_all [of p dag _ 0 dag] bump_other [of p dag _ dag]
  by (auto simp: remaining_children_def init_zero)

lemma drop_child_spec:
  assumes "\<And>p. p \<in> set ps \<Longrightarrow> rc p \<noteq> None \<Longrightarrow> count_list ps p \<le> the (rc p)"
  shows "\<exists>rc' new'. drop_child ps rc new = Some (rc', new @ new') \<and> distinct new' \<and>
    (\<forall>p. rc' p = map_option (\<lambda>n. n - count_list ps p) (rc p)) \<and>
    set new' = {p \<in> set ps. rc p = Some (count_list ps p)}"
  using assms
proof (induction ps arbitrary: rc new)
  case Nil
  then show ?case by (auto simp: option.map_ident)
next
  case (Cons q ps)
  show ?case
  proof (cases "rc q")
    case None
    have "\<exists>rc' new'. drop_child ps rc new = Some (rc', new @ new') \<and> distinct new' \<and>
        (\<forall>p. rc' p = map_option (\<lambda>n. n - count_list ps p) (rc p)) \<and>
        set new' = {p \<in> set ps. rc p = Some (count_list ps p)}"
      using Cons.prems by (intro Cons.IH) (metis None count_list.simps(2) list.set_intros(2))
    moreover have "map_option (\<lambda>n. n - count_list ps p) (rc p) = map_option (\<lambda>n. n - count_list (q # ps) p) (rc p)" for p
      using None by (cases "p = q") auto
    moreover have "{p \<in> set ps. rc p = Some (count_list ps p)} = {p \<in> set (q # ps). rc p = Some (count_list (q # ps) p)}"
      using None by auto
    ultimately show ?thesis using None by simp
  next
    case (Some m)
    have "count_list (q # ps) q \<le> m" using Cons.prems [of q] Some by simp
    then obtain n where n: "m = Suc n" "count_list ps q \<le> n" by (cases m) auto
    let ?rc = "rc(q \<mapsto> n)" and ?new = "if n = 0 then new @ [q] else new"
    have "\<exists>rc' new'. drop_child ps ?rc ?new = Some (rc', ?new @ new') \<and> distinct new' \<and>
        (\<forall>p. rc' p = map_option (\<lambda>n. n - count_list ps p) (?rc p)) \<and>
        set new' = {p \<in> set ps. ?rc p = Some (count_list ps p)}"
    proof (rule Cons.IH)
      fix p assume p: "p \<in> set ps" "?rc p \<noteq> None"
      show "count_list ps p \<le> the (?rc p)"
      proof (cases "p = q")
        case True
        then show ?thesis using n by simp
      next
        case False
        then have "count_list (q # ps) p \<le> the (rc p)" using p Cons.prems [of p] by simp
        then show ?thesis using False by simp
      qed
    qed
    then obtain rc' new' where r: "drop_child ps ?rc ?new = Some (rc', ?new @ new')" "distinct new'"
      "\<forall>p. rc' p = map_option (\<lambda>n. n - count_list ps p) (?rc p)"
      "set new' = {p \<in> set ps. ?rc p = Some (count_list ps p)}" by blast
    let ?all = "(if n = 0 then [q] else []) @ new'"
    have "drop_child (q # ps) rc new = Some (rc', new @ ?all)" using r(1) Some n(1) by simp
    moreover have "rc' p = map_option (\<lambda>n. n - count_list (q # ps) p) (rc p)" for p
      using r(3) Some n(1) by (cases "p = q") auto
    moreover have "set ?all = {p \<in> set (q # ps). rc p = Some (count_list (q # ps) p)}"
    proof -
      have "q \<notin> set ps \<longleftrightarrow> count_list ps q = 0" by (simp add: count_list_0_iff)
      then have "p \<in> set ?all \<longleftrightarrow> p \<in> set (q # ps) \<and> rc p = Some (count_list (q # ps) p)" for p
        using r(4) Some n by (cases "p = q") auto
      then show ?thesis by blast
    qed
    moreover have "distinct ?all"
    proof -
      have "q \<notin> set new'" if "n = 0" using r(4) n(2) that by (auto simp: count_list_0_iff)
      then show ?thesis using r(2) by simp
    qed
    ultimately show ?thesis by blast
  qed
qed

section \<open>The loop\<close>

definition counters :: "dag \<Rightarrow> git_oid list \<Rightarrow> git_oid \<rightharpoonup> nat" where
  "counters dag out p = (if p \<in> fst ` set dag then Some (children dag out p) else None)"

definition log_inv :: "dag \<Rightarrow> git_oid list \<Rightarrow> git_oid list \<Rightarrow> bool" where
  "log_inv dag ready out \<longleftrightarrow>
     distinct (out @ ready) \<and>
     set (out @ ready) = {p \<in> fst ` set dag. children dag out p = 0} \<and>
     (\<forall>i c p xs ys. (i, c) \<in> set dag \<longrightarrow> p \<in> set (cparents c) \<longrightarrow> out = xs @ p # ys \<longrightarrow> i \<in> set xs)"

lemma children_zero: "children dag out p = 0 \<longleftrightarrow> (\<forall>(i, c)\<in>set dag. p \<in> set (cparents c) \<longrightarrow> i \<in> set out)"
  by (auto simp: children_def count_list_0_iff)

lemma children_snoc:
  assumes "distinct (map fst dag)" "(i, c) \<in> set dag" "i \<notin> set out"
  shows "children dag out p = count_list (cparents c) p + children dag (out @ [i]) p"
  using assms(1,2)
proof (induction dag)
  case (Cons a dag)
  obtain j d where a: "a = (j, d)" by (cases a)
  show ?case
  proof (cases "a = (i, c)")
    case True
    have "children dag (out @ [i]) p = children dag out p"
    proof -
      have "filter (\<lambda>(k, e). k \<notin> set (out @ [i])) dag = filter (\<lambda>(k, e). k \<notin> set out) dag"
        using Cons.prems(1) True by (intro filter_cong) force+
      then show ?thesis by (simp add: children_def)
    qed
    then show ?thesis using True assms(3) by (simp add: children_def)
  next
    case False
    then have c: "(i, c) \<in> set dag" using Cons.prems(2) by auto
    then have "j \<noteq> i" using Cons.prems(1) a by force
    then show ?thesis using Cons.IH [OF _ c] Cons.prems(1) a by (simp add: children_def)
  qed
qed simp

lemma log_inv_step:
  assumes d: "distinct (map fst dag)" and inv: "log_inv dag (i # rest) out" and c: "map_of dag i = Some c"
  shows "\<exists>new. drop_child (cparents c) (counters dag out) [] = Some (counters dag (out @ [i]), new) \<and>
    log_inv dag (sort_key hex_encode new @ rest) (out @ [i])"
proof -
  have i: "i \<notin> set out" "i \<in> fst ` set dag" "children dag out i = 0" using inv by (auto simp: log_inv_def)
  have ic: "(i, c) \<in> set dag" using c by (rule map_of_SomeD)
  note snoc = children_snoc [OF d ic i(1)]
  obtain rc' new where n: "drop_child (cparents c) (counters dag out) [] = Some (rc', [] @ new)" "distinct new"
    "\<forall>p. rc' p = map_option (\<lambda>n. n - count_list (cparents c) p) (counters dag out p)"
    "set new = {p \<in> set (cparents c). counters dag out p = Some (count_list (cparents c) p)}"
  proof -
    have "count_list (cparents c) p \<le> the (counters dag out p)" if "counters dag out p \<noteq> None" for p
      using that snoc [of p] by (auto simp: counters_def split: if_splits)
    from drop_child_spec [of "cparents c" "counters dag out" "[]", OF this] show thesis using that by blast
  qed
  have rc: "rc' = counters dag (out @ [i])"
    by (rule ext) (simp add: n(3) counters_def snoc)
  have new: "set new = {p \<in> fst ` set dag. p \<in> set (cparents c) \<and> children dag (out @ [i]) p = 0}"
    unfolding n(4) using snoc by (auto simp: counters_def)
  have pos: "children dag out p \<noteq> 0" if "p \<in> set (cparents c)" for p
    using that ic i(1) by (auto simp: children_zero)
  have zero: "children dag (out @ [i]) p = 0 \<longleftrightarrow>
      children dag out p = 0 \<or> p \<in> set (cparents c) \<and> children dag (out @ [i]) p = 0" for p
    using snoc [of p] by (auto simp: count_list_0_iff)
  have old: "set (out @ i # rest) = {p \<in> fst ` set dag. children dag out p = 0}" "distinct (out @ i # rest)"
    using inv by (simp_all add: log_inv_def)
  have "set new \<inter> set (out @ i # rest) = {}" unfolding old(1) new using pos by blast
  then have "distinct ((out @ [i]) @ sort_key hex_encode new @ rest)" using old(2) n(2) by auto
  moreover have "set ((out @ [i]) @ sort_key hex_encode new @ rest) = {p \<in> fst ` set dag. children dag (out @ [i]) p = 0}"
  proof -
    have "set ((out @ [i]) @ sort_key hex_encode new @ rest) = set (out @ i # rest) \<union> set new" by auto
    then show ?thesis unfolding old(1) new using zero by blast
  qed
  moreover have "j \<in> set xs"
    if a: "(j, e) \<in> set dag" "p \<in> set (cparents e)" "out @ [i] = xs @ p # ys" for j e p xs ys
  proof (cases ys rule: rev_cases)
    case Nil
    then have "p = i" "out = xs" using a(3) by auto
    then show ?thesis using i(3) a(1,2) by (auto simp: children_zero)
  next
    case (snoc zs z)
    then have "out = xs @ p # zs" using a(3) by auto
    then show ?thesis using inv a(1,2) unfolding log_inv_def by blast
  qed
  ultimately have "log_inv dag (sort_key hex_encode new @ rest) (out @ [i])" unfolding log_inv_def by blast
  then show ?thesis using n(1) rc by auto
qed

lemma log_loop_post:
  assumes "distinct (map fst dag)"
  shows "log_inv dag ready out \<Longrightarrow>
    \<exists>res. log_loop (map_of dag) (counters dag out) ready out = Some res \<and> log_inv dag [] res"
proof (induction "length dag - length out" arbitrary: ready out rule: less_induct)
  case less
  show ?case
  proof (cases ready)
    case Nil
    then show ?thesis using less.prems by (subst log_loop.simps) simp
  next
    case (Cons i rest)
    then have inv: "log_inv dag (i # rest) out" using less.prems by simp
    then have "i \<in> fst ` set dag" by (auto simp: log_inv_def)
    then obtain c where c: "map_of dag i = Some c" by (metis map_of_eq_None_iff not_None_eq)
    obtain new where n: "drop_child (cparents c) (counters dag out) [] = Some (counters dag (out @ [i]), new)"
      "log_inv dag (sort_key hex_encode new @ rest) (out @ [i])" using log_inv_step [OF assms inv c] by blast
    have "distinct (out @ [i])" "set (out @ [i]) \<subseteq> fst ` set dag" using n(2) by (auto simp: log_inv_def)
    then have "length (out @ [i]) \<le> length dag"
      by (metis card_mono distinct_card finite_imageI finite_set length_map list.set_map assms)
    then have "length dag - length (out @ [i]) < length dag - length out" by simp
    from less.hyps [OF this n(2)] show ?thesis
      using n(1) c Cons by (subst log_loop.simps) simp
  qed
qed

lemma commit_log_inv:
  assumes "distinct (map fst (commit_dag imp))"
  shows "\<exists>out. commit_log imp = Some out \<and> log_inv (commit_dag imp) [] out"
proof -
  let ?dag = "commit_dag imp"
  have rc: "remaining_children ?dag = counters ?dag []"
    by (rule ext) (simp add: remaining_children_eq counters_def)
  have "log_inv ?dag (sort_key hex_encode (filter (\<lambda>i. counters ?dag [] i = Some 0) (map fst ?dag))) []"
    using assms by (auto simp: log_inv_def counters_def split: if_splits)
  from log_loop_post [OF assms this] show ?thesis by (simp add: commit_log_def rc Let_def)
qed

section \<open>Properties\<close>

definition dag_edge :: "dag \<Rightarrow> (git_oid \<times> git_oid) set" where
  "dag_edge dag = {(i, p). \<exists>c. (i, c) \<in> set dag \<and> p \<in> set (cparents c)}"

text \<open>C37: The log is a topological order: for a history without cycles it lists every commit of the record
  once, and every commit before each of its parents.\<close>
theorem commit_log_topological:
  assumes "record_inv imp" "acyclic (dag_edge (commit_dag imp))"
  shows "\<exists>out. commit_log imp = Some out \<and> distinct out \<and> set out = fst ` set (commit_dag imp) \<and>
    (\<forall>i c p. map_of (commit_dag imp) i = Some c \<longrightarrow> p \<in> set (cparents c) \<longrightarrow> p \<in> fst ` set (commit_dag imp) \<longrightarrow>
       (\<exists>xs ys zs. out = xs @ i # ys @ p # zs))"
proof -
  let ?dag = "commit_dag imp"
  have d: "distinct (map fst ?dag)" using assms(1) by (simp add: record_inv_def)
  obtain out where out: "commit_log imp = Some out" "log_inv ?dag [] out" using commit_log_inv [OF d] by blast
  have o: "distinct out" "set out = {p \<in> fst ` set ?dag. children ?dag out p = 0}" using out(2) by (auto simp: log_inv_def)
  have "dag_edge ?dag \<subseteq> fst ` set ?dag \<times> (\<Union>(i, c)\<in>set ?dag. set (cparents c))" by (force simp: dag_edge_def)
  then have "finite (dag_edge ?dag)" by (rule finite_subset) auto
  then have wf: "wf (dag_edge ?dag)" using assms(2) by (rule finite_acyclic_wf)
  have all: "fst ` set ?dag \<subseteq> set out"
  proof (rule ccontr)
    assume "\<not> ?thesis"
    then obtain q where "q \<in> fst ` set ?dag - set out" by blast
    then obtain p where p: "p \<in> fst ` set ?dag - set out"
      "\<And>i. (i, p) \<in> dag_edge ?dag \<Longrightarrow> i \<notin> fst ` set ?dag - set out" by (rule wfE_min [OF wf]) blast
    then have "children ?dag out p = 0" by (force simp: children_zero dag_edge_def)
    then show False using p(1) o(2) by blast
  qed
  have "\<exists>xs ys zs. out = xs @ i # ys @ p # zs"
    if a: "map_of ?dag i = Some c" "p \<in> set (cparents c)" "p \<in> fst ` set ?dag" for i c p
  proof -
    obtain xs zs where xs: "out = xs @ p # zs" using all a(3) by (meson split_list subsetD)
    then have "i \<in> set xs" using out(2) map_of_SomeD [OF a(1)] a(2) unfolding log_inv_def by blast
    then obtain us vs where "xs = us @ i # vs" by (meson split_list)
    then show ?thesis using xs by auto
  qed
  then show ?thesis using out(1) o all by blast
qed

text \<open>A history with a merge of two branches.\<close>

definition ex_hist_commit :: "git_oid list \<Rightarrow> git_commit" where
  "ex_hist_commit ps = \<lparr>ctree = ex_t, cparents = ps, cauthor = ''A'', committer = ''C'', cmessage = ''m'', cbody = []\<rparr>"

definition ex_history :: git_import where
  "ex_history =
     (let dag = [(''0'', ex_hist_commit []), (''1'', ex_hist_commit [''0'']), (''m'', ex_hist_commit [''2'', ''1'']),
                 (''2'', ex_hist_commit [''0'', ''gone''])] in
      \<lparr>oid_map = [], git_objects = map (\<lambda>(i, c). (i, CommitObj c)) dag, commit_dag = dag, irefs = [],
       iblobs = 0, itrees = 0, icommits = 4, itags = 0\<rparr>)"

lemma ex_history_ok: "record_inv ex_history" "acyclic (dag_edge (commit_dag ex_history))"
proof -
  show "record_inv ex_history"
    unfolding record_inv_def
  proof (intro conjI allI)
    have "git_objects ex_history = map (\<lambda>(i, c). (i, CommitObj c)) (commit_dag ex_history)" by (simp add: ex_history_def Let_def)
    then show "map_of (commit_dag ex_history) i = Some c \<longleftrightarrow> map_of (git_objects ex_history) i = Some (CommitObj c)" for i c
      by (simp add: map_of_map del: map_of_eq_Some_iff)
  qed (code_simp+)
  define rank :: "string \<Rightarrow> nat" where "rank i = (if i = ''m'' then 0 else if i = ''0'' \<or> i = ''gone'' then 2 else 1)" for i
  have "rank i < rank p" if "(i, c) \<in> set (commit_dag ex_history)" "p \<in> set (cparents c)" for i c p
    using that by (auto simp: ex_history_def ex_hist_commit_def Let_def rank_def)
  then have "dag_edge (commit_dag ex_history) \<subseteq> measure rank"
    by (intro subsetI) (auto simp only: dag_edge_def mem_Collect_eq case_prod_conv in_measure)
  then show "acyclic (dag_edge (commit_dag ex_history))" using wf_acyclic [OF wf_measure] acyclic_subset by blast
qed

lemma commit_log_topological_witness:
  "commit_log ex_history = Some [''m'', ''1'', ''2'', ''0''] \<and>
   (\<exists>xs ys zs. [''m'', ''1'', ''2'', ''0''] = xs @ ''2'' # ys @ ''0'' # zs)"
proof -
  have l: "commit_log ex_history = Some [''m'', ''1'', ''2'', ''0'']" by code_simp
  have "map_of (commit_dag ex_history) ''2'' = Some (ex_hist_commit [''0'', ''gone''])"
    "''0'' \<in> fst ` set (commit_dag ex_history)" by (simp_all add: ex_history_def)
  moreover have "''0'' \<in> set (cparents (ex_hist_commit [''0'', ''gone'']))" by (simp add: ex_hist_commit_def)
  ultimately have "\<exists>xs ys zs. [''m'', ''1'', ''2'', ''0''] = xs @ ''2'' # ys @ ''0'' # zs"
    using commit_log_topological [OF ex_history_ok] unfolding l by blast
  with l show ?thesis by (rule conjI)
qed

lemma hex_encode_inject: "hex_encode s = hex_encode t \<longleftrightarrow> s = t"
proof
  assume h: "hex_encode s = hex_encode t"
  show "s = t"
  proof (cases "s = []")
    case True
    then show ?thesis using h length_hex_encode [of t] by simp
  next
    case False
    then have "t \<noteq> []" using h length_hex_encode [of s] by auto
    then show ?thesis using h hex_decode_encode False by (metis option.inject)
  qed
qed simp

text \<open>The order of the log does not depend on the order in which the record lists its commits, as the
  iteration order of a hash map would make it: two records of the same history have the same log.\<close>
theorem commit_log_deterministic:
  assumes "record_inv imp" "record_inv imp'" "map_of (commit_dag imp) = map_of (commit_dag imp')"
  shows "commit_log imp = commit_log imp'"
proof -
  let ?d = "commit_dag imp" and ?e = "commit_dag imp'"
  have d: "distinct (map fst ?d)" "distinct (map fst ?e)" using assms(1,2) by (simp_all add: record_inv_def)
  have "x \<in> set ?d \<longleftrightarrow> x \<in> set ?e" for x
    using map_of_eq_Some_iff [OF d(1), of "fst x" "snd x"] map_of_eq_Some_iff [OF d(2), of "fst x" "snd x"] assms(3) by simp
  then have "set ?d = set ?e" by blast
  then have m: "mset ?d = mset ?e" using d by (metis distinct_map set_eq_iff_mset_eq_distinct)
  have "children ?d [] p = children ?e [] p" for p
    unfolding children_def sum_mset_sum_list [symmetric] mset_map mset_filter m ..
  then have rc: "remaining_children ?d = remaining_children ?e"
    using mset_eq_setD [OF m] by (auto simp: remaining_children_eq fun_eq_iff)
  have "sort_key hex_encode (filter P (map fst ?d)) = sort_key hex_encode (filter P (map fst ?e))" for P
    by (rule sort_key_inj_key_eq) (simp_all add: m inj_on_def hex_encode_inject mset_filter)
  then show ?thesis by (simp add: commit_log_def rc assms(3) Let_def)
qed

lemma commit_log_deterministic_witness:
  "commit_log (ex_history\<lparr>commit_dag := rev (commit_dag ex_history)\<rparr>) = commit_log ex_history"
proof -
  have "map_of (rev (commit_dag ex_history)) = map_of (commit_dag ex_history)"
    by (rule ext) (auto simp: ex_history_def Let_def)
  moreover from this have "record_inv (ex_history\<lparr>commit_dag := rev (commit_dag ex_history)\<rparr>)"
    using ex_history_ok(1) by (simp add: record_inv_def rev_map [symmetric])
  ultimately show ?thesis using ex_history_ok(1) by (intro commit_log_deterministic) simp_all
qed

end
