(* ===== verification/FileTree.thy ===== *)
theory FileTree
  imports Workspace
begin

text \<open>
  Paths in the directories of \<open>Workspace\<close>: the node at a path, \<open>std::fs::create_dir_all\<close> and
  \<open>std::fs::write\<close>. A path is the list of its components from the root, where \<open>..\<close> leads to the
  parent of the place reached. The laws describe a tree by the files it has (\<open>leaf_at\<close>) and the
  directories (\<open>dir_at\<close>).
\<close>

section \<open>Nodes\<close>

fun node_at :: "string list \<Rightarrow> dir \<Rightarrow> fs_node option" where
  "node_at [] d = Some (DirN d)"
| "node_at (c # cs) d =
     (case map_of d c of
        Some (DirN sub) \<Rightarrow> node_at cs sub
      | Some x \<Rightarrow> if cs = [] then Some x else None
      | None \<Rightarrow> None)"

fun put_node :: "string list \<Rightarrow> fs_node \<Rightarrow> dir \<Rightarrow> dir" where
  "put_node [] x d = d"
| "put_node [c] x d = AList.update c x d"
| "put_node (c # cs) x d =
     (case map_of d c of
        Some (DirN sub) \<Rightarrow> AList.update c (DirN (put_node cs x sub)) d
      | _ \<Rightarrow> d)"

text \<open>\<open>create_dir_all\<close> of the components from a place, with the place reached; \<open>None\<close> when a component
is no directory. A name with a NUL byte is refused before anything is created.\<close>

fun make_dirs :: "string list \<Rightarrow> string list \<Rightarrow> dir \<Rightarrow> string list option \<times> dir" where
  "make_dirs [] pos d = (Some pos, d)"
| "make_dirs (c # cs) pos d =
     (if c = ''..'' then make_dirs cs (butlast pos) d
      else (case node_at (pos @ [c]) d of
          None \<Rightarrow> make_dirs cs (pos @ [c]) (put_node (pos @ [c]) (DirN []) d)
        | Some (DirN _) \<Rightarrow> make_dirs cs (pos @ [c]) d
        | Some _ \<Rightarrow> (None, d)))"

definition create_dir_all :: "string list \<Rightarrow> dir \<Rightarrow> string list option \<times> dir" where
  "create_dir_all cs d = (if \<exists>c\<in>set cs. CHR 0x00 \<in> set c then (None, d) else make_dirs cs [] d)"

text \<open>The components that \<open>Path::push\<close> of every part of a name adds: empty parts and \<open>.\<close> name no
place. A path that ends in such a part, or in \<open>..\<close>, is a directory and cannot be written.\<close>

definition name_parts :: "string \<Rightarrow> string list" where
  "name_parts name = filter (\<lambda>c. c \<noteq> [] \<and> c \<noteq> ''.'') (split_on CHR ''/'' name)"

text \<open>\<open>std::fs::write\<close> of a name in a directory that exists.\<close>

definition write_file :: "string list \<Rightarrow> string \<Rightarrow> string \<Rightarrow> dir \<Rightarrow> dir option" where
  "write_file pos name bytes d =
     (if CHR 0x00 \<in> set name then None
      else (case node_at (pos @ [name]) d of
          None \<Rightarrow> Some (put_node (pos @ [name]) (FileN bytes) d)
        | Some (FileN _) \<Rightarrow> Some (put_node (pos @ [name]) (FileN bytes) d)
        | Some _ \<Rightarrow> None))"

section \<open>Files and directories of a tree\<close>

fun sub_node :: "string list \<Rightarrow> fs_node \<Rightarrow> fs_node option" where
  "sub_node q (DirN d) = node_at q d"
| "sub_node q x = (if q = [] then Some x else None)"

lemma sub_node_Nil [simp]: "sub_node [] x = Some x"
  by (cases x) auto

lemma node_at_Cons: "node_at (c # cs) d = Option.bind (map_of d c) (sub_node cs)"
  by (auto split: option.split fs_node.split)

declare node_at.simps(2) [simp del]

lemma node_at_append: "node_at (p @ q) d = Option.bind (node_at p d) (sub_node q)"
proof (induction p arbitrary: d)
  case (Cons c p)
  show ?case
  proof (cases "map_of d c")
    case (Some x)
    then show ?thesis using Cons by (cases x) (auto simp: node_at_Cons)
  qed (simp add: node_at_Cons)
qed simp

definition leaf_at :: "string list \<Rightarrow> dir \<Rightarrow> fs_node option" where
  "leaf_at p d = (case node_at p d of Some (DirN _) \<Rightarrow> None | r \<Rightarrow> r)"

definition dir_at :: "string list \<Rightarrow> dir \<Rightarrow> bool" where
  "dir_at p d \<longleftrightarrow> (case node_at p d of Some (DirN _) \<Rightarrow> True | _ \<Rightarrow> False)"

lemma dir_at_iff: "dir_at p d \<longleftrightarrow> (\<exists>s. node_at p d = Some (DirN s))"
  by (auto simp: dir_at_def split: option.splits fs_node.splits)

lemma dir_at_Nil [simp]: "dir_at [] d"
  by (simp add: dir_at_def)

lemma dir_at_Cons: "dir_at (c # p) d \<longleftrightarrow> (\<exists>s. map_of d c = Some (DirN s) \<and> dir_at p s)"
proof (cases "map_of d c")
  case (Some x)
  then show ?thesis by (cases x) (auto simp: dir_at_def node_at_Cons)
qed (simp add: dir_at_def node_at_Cons)

lemma node_at_None_iff: "node_at p d = None \<longleftrightarrow> leaf_at p d = None \<and> \<not> dir_at p d"
  by (auto simp: leaf_at_def dir_at_def split: option.splits fs_node.splits)

lemma leaf_at_dir: "leaf_at p d \<noteq> None \<Longrightarrow> \<not> dir_at p d"
  by (auto simp: leaf_at_def dir_at_def split: option.splits fs_node.splits)

lemma dir_at_append: "dir_at (p @ q) d \<Longrightarrow> dir_at p d"
proof -
  assume a: "dir_at (p @ q) d"
  then obtain s x where "node_at p d = Some x" "sub_node q x = Some (DirN s)"
    by (auto simp: dir_at_iff node_at_append bind_eq_Some_conv)
  then show ?thesis by (cases x) (auto simp: dir_at_iff split: if_splits)
qed

lemma node_at_cases:
  "node_at q d = None \<Longrightarrow> leaf_at q d = None \<and> \<not> dir_at q d"
  "node_at q d = Some (FileN b) \<Longrightarrow> leaf_at q d = Some (FileN b) \<and> \<not> dir_at q d"
  "node_at q d = Some (DirN s) \<Longrightarrow> leaf_at q d = None \<and> dir_at q d"
  by (simp_all add: leaf_at_def dir_at_def)

lemma leaf_below_dir: "leaf_at (p @ q) d = Some x \<Longrightarrow> q \<noteq> [] \<Longrightarrow> dir_at p d"
proof -
  assume "leaf_at (p @ q) d = Some x" "q \<noteq> []"
  then obtain y where "node_at p d = Some y" "sub_node q y = Some x"
    by (auto simp: leaf_at_def node_at_append bind_eq_Some_conv split: option.splits fs_node.splits)
  then show ?thesis using \<open>q \<noteq> []\<close> by (cases y) (auto simp: dir_at_iff)
qed

lemma nothing_below: "\<not> dir_at p d \<Longrightarrow> r \<noteq> [] \<Longrightarrow> leaf_at (p @ r) d = None \<and> \<not> dir_at (p @ r) d"
  using leaf_below_dir [of p r d] dir_at_append [of p r d] by (cases "leaf_at (p @ r) d") auto

lemma leaf_at_sub: "node_at p d = Some (DirN s) \<Longrightarrow> leaf_at q s = leaf_at (p @ q) d"
  by (simp add: leaf_at_def node_at_append)

lemma dir_at_sub: "node_at p d = Some (DirN s) \<Longrightarrow> dir_at q s = dir_at (p @ q) d"
  by (simp add: dir_at_def node_at_append)

section \<open>Changing one node\<close>

lemma put_node_Cons:
  "cs \<noteq> [] \<Longrightarrow> put_node (c # cs) x d =
     (case map_of d c of Some (DirN sub) \<Rightarrow> AList.update c (DirN (put_node cs x sub)) d | _ \<Rightarrow> d)"
  by (cases cs) auto

text \<open>Elsewhere, and below it, a tree with a new node has the files of both.\<close>

lemma node_at_put:
  assumes "dir_at p d"
  shows "node_at ((p @ [c]) @ q) (put_node (p @ [c]) x d) = sub_node q x"
    "\<not> prefix (p @ [c]) r \<Longrightarrow> leaf_at r (put_node (p @ [c]) x d) = leaf_at r d"
    "\<not> prefix (p @ [c]) r \<Longrightarrow> dir_at r (put_node (p @ [c]) x d) = dir_at r d"
proof -
  have "node_at ((p @ [c]) @ q) (put_node (p @ [c]) x d) = sub_node q x \<and>
    (\<not> prefix (p @ [c]) r \<longrightarrow> leaf_at r (put_node (p @ [c]) x d) = leaf_at r d \<and>
       dir_at r (put_node (p @ [c]) x d) = dir_at r d)"
    using assms
  proof (induction p arbitrary: d r)
    case Nil
    show ?case
    proof (cases r)
      case (Cons a cs)
      then show ?thesis by (auto simp: node_at_Cons update_conv' leaf_at_def dir_at_def)
    qed (simp add: node_at_Cons update_conv' leaf_at_def dir_at_def)
  next
    case (Cons a p)
    then obtain s where s: "map_of d a = Some (DirN s)" "dir_at p s"
      by (auto simp: dir_at_Cons)
    have put: "put_node ((a # p) @ [c]) x d = AList.update a (DirN (put_node (p @ [c]) x s)) d"
      by (simp add: put_node_Cons s(1))
    show ?case
    proof (cases r)
      case Nil
      then show ?thesis using Cons.IH [OF s(2)] unfolding put
        by (simp add: node_at_Cons update_conv' leaf_at_def dir_at_def)
    next
      case r: (Cons b cs)
      then show ?thesis using Cons.IH [OF s(2), of cs] s(1) unfolding put
        by (auto simp: node_at_Cons update_conv' leaf_at_def dir_at_def)
    qed
  qed
  then show "node_at ((p @ [c]) @ q) (put_node (p @ [c]) x d) = sub_node q x"
    "\<not> prefix (p @ [c]) r \<Longrightarrow> leaf_at r (put_node (p @ [c]) x d) = leaf_at r d"
    "\<not> prefix (p @ [c]) r \<Longrightarrow> dir_at r (put_node (p @ [c]) x d) = dir_at r d" by blast+
qed

text \<open>The laws of a new file and of a new directory.\<close>

lemma put_file_laws:
  assumes "dir_at p d" "\<not> dir_at (p @ [c]) d"
  shows "leaf_at q (put_node (p @ [c]) (FileN b) d) = (if q = p @ [c] then Some (FileN b) else leaf_at q d)"
    "dir_at q (put_node (p @ [c]) (FileN b) d) = dir_at q d"
proof -
  have below: "leaf_at ((p @ [c]) @ r) d = None" "\<not> dir_at ((p @ [c]) @ r) d" if "r \<noteq> []" for r
    using nothing_below [OF assms(2) that] by simp_all
  have "leaf_at q (put_node (p @ [c]) (FileN b) d) = (if q = p @ [c] then Some (FileN b) else leaf_at q d) \<and>
      dir_at q (put_node (p @ [c]) (FileN b) d) = dir_at q d"
  proof (cases "prefix (p @ [c]) q")
    case True
    then obtain r where r: "q = (p @ [c]) @ r" by (auto elim: prefixE)
    have n: "node_at q (put_node (p @ [c]) (FileN b) d) = (if r = [] then Some (FileN b) else None)"
      using node_at_put(1) [OF assms(1), of c r "FileN b"] unfolding r by simp
    show ?thesis
    proof (cases "r = []")
      case True
      then show ?thesis using node_at_cases(2) [of q "put_node (p @ [c]) (FileN b) d" b] n r assms(2) by simp
    next
      case False
      then show ?thesis using node_at_cases(1) [of q "put_node (p @ [c]) (FileN b) d"] n r below [OF False] by simp
    qed
  next
    case False
    then show ?thesis using node_at_put(2,3) [OF assms(1), of c q "FileN b"] by auto
  qed
  then show "leaf_at q (put_node (p @ [c]) (FileN b) d) = (if q = p @ [c] then Some (FileN b) else leaf_at q d)"
    "dir_at q (put_node (p @ [c]) (FileN b) d) = dir_at q d" by blast+
qed

lemma put_dir_laws:
  assumes "dir_at p d" "node_at (p @ [c]) d = None"
  shows "leaf_at q (put_node (p @ [c]) (DirN []) d) = leaf_at q d"
    "dir_at q (put_node (p @ [c]) (DirN []) d) \<longleftrightarrow> q = p @ [c] \<or> dir_at q d"
proof -
  have no: "leaf_at (p @ [c]) d = None" "\<not> dir_at (p @ [c]) d" using assms(2) by (auto simp: node_at_None_iff)
  have below: "leaf_at ((p @ [c]) @ r) d = None" "\<not> dir_at ((p @ [c]) @ r) d" if "r \<noteq> []" for r
    using nothing_below [OF no(2) that] by simp_all
  have "leaf_at q (put_node (p @ [c]) (DirN []) d) = leaf_at q d \<and>
      (dir_at q (put_node (p @ [c]) (DirN []) d) \<longleftrightarrow> q = p @ [c] \<or> dir_at q d)"
  proof (cases "prefix (p @ [c]) q")
    case True
    then obtain r where r: "q = (p @ [c]) @ r" by (auto elim: prefixE)
    have n: "node_at q (put_node (p @ [c]) (DirN []) d) = node_at r []"
      using node_at_put(1) [OF assms(1), of c r "DirN []"] unfolding r by simp
    show ?thesis
    proof (cases r)
      case Nil
      then show ?thesis using node_at_cases(3) [of q "put_node (p @ [c]) (DirN []) d" "[]"] n r no by simp
    next
      case (Cons a s)
      then have "node_at q (put_node (p @ [c]) (DirN []) d) = None" using n by (simp add: node_at_Cons)
      then show ?thesis using node_at_cases(1) [of q "put_node (p @ [c]) (DirN []) d"] r below [of r] Cons by simp
    qed
  next
    case False
    then show ?thesis using node_at_put(2,3) [OF assms(1), of c q "DirN []"] by auto
  qed
  then show "leaf_at q (put_node (p @ [c]) (DirN []) d) = leaf_at q d"
    "dir_at q (put_node (p @ [c]) (DirN []) d) \<longleftrightarrow> q = p @ [c] \<or> dir_at q d" by blast+
qed

text \<open>No two entries of a directory share a name, at any level.\<close>

function wf_dir :: "dir \<Rightarrow> bool" where
  "wf_dir [] = True"
| "wf_dir ((n, x) # es) \<longleftrightarrow>
     n \<notin> fst ` set es \<and> (case x of DirN sub \<Rightarrow> wf_dir sub | _ \<Rightarrow> True) \<and> wf_dir es"
  by pat_completeness auto
termination by (relation "measure (size_list (size_prod (\<lambda>_. 0) size))") auto

lemma wf_dir_iff: "wf_dir d \<longleftrightarrow> distinct (map fst d) \<and> (\<forall>n s. (n, DirN s) \<in> set d \<longrightarrow> wf_dir s)"
proof (induction d)
  case (Cons e d)
  obtain n x where "e = (n, x)" by (cases e)
  then show ?case using Cons by (cases x) auto
qed simp

lemma wf_dir_update:
  "wf_dir d \<Longrightarrow> (case x of DirN s \<Rightarrow> wf_dir s | _ \<Rightarrow> True) \<Longrightarrow> wf_dir (AList.update c x d)"
proof -
  assume a: "wf_dir d" "case x of DirN s \<Rightarrow> wf_dir s | _ \<Rightarrow> True"
  have "set (AList.update c x d) \<subseteq> insert (c, x) (set d)" by (induction d) auto
  then show ?thesis using a unfolding wf_dir_iff [of d] wf_dir_iff [of "AList.update c x d"]
    by (auto simp: distinct_update)
qed

lemma wf_dir_put: "wf_dir d \<Longrightarrow> (case x of DirN s \<Rightarrow> wf_dir s | _ \<Rightarrow> True) \<Longrightarrow> wf_dir (put_node p x d)"
proof (induction p x d rule: put_node.induct)
  case (3 c b bs x d)
  show ?case
  proof (cases "\<exists>s. map_of d c = Some (DirN s)")
    case True
    then obtain s where s: "map_of d c = Some (DirN s)" by blast
    have "wf_dir s" using "3.prems"(1) map_of_SomeD [OF s] unfolding wf_dir_iff [of d] by blast
    then have "wf_dir (put_node (b # bs) x s)" using "3.IH" [OF s refl] "3.prems"(2) by simp
    then show ?thesis using s wf_dir_update [OF "3.prems"(1), of "DirN (put_node (b # bs) x s)"] by simp
  next
    case False
    then have "put_node (c # b # bs) x d = d" by (auto split: option.split fs_node.split)
    then show ?thesis using "3.prems"(1) by simp
  qed
qed (auto intro: wf_dir_update)

lemma wf_dir_sub: "wf_dir d \<Longrightarrow> node_at p d = Some (DirN s) \<Longrightarrow> wf_dir s"
proof (induction p arbitrary: d)
  case (Cons c p)
  obtain y where y: "map_of d c = Some y" "sub_node p y = Some (DirN s)"
    using Cons.prems(2) by (auto simp: node_at_Cons bind_eq_Some_conv)
  then have c: "(c, y) \<in> set d" by (simp add: map_of_SomeD)
  show ?case
  proof (cases y)
    case (DirN t)
    have "wf_dir t" using Cons.prems(1) c DirN unfolding wf_dir_iff [of d] by blast
    then show ?thesis using Cons.IH y(2) DirN by simp
  qed (use y(2) in \<open>simp_all split: if_splits\<close>)
qed simp

lemma wf_dir_map_of: "wf_dir d \<Longrightarrow> (n, x) \<in> set d \<longleftrightarrow> map_of d n = Some x"
  unfolding wf_dir_iff [of d] by simp

section \<open>Creating directories and writing a file\<close>

lemma make_dirs_spec:
  assumes "dir_at pos d" "wf_dir d" "''..'' \<notin> set cs" "\<And>q. prefix q cs \<Longrightarrow> leaf_at (pos @ q) d = None"
  shows "\<exists>d'. make_dirs cs pos d = (Some (pos @ cs), d') \<and> wf_dir d' \<and> (\<forall>q. leaf_at q d' = leaf_at q d) \<and>
    (\<forall>q. dir_at q d' \<longleftrightarrow> dir_at q d \<or> (\<exists>r. prefix r cs \<and> q = pos @ r))"
  using assms
proof (induction cs arbitrary: pos d)
  case Nil
  then show ?case by auto
next
  case (Cons c cs)
  have here: "leaf_at (pos @ [c]) d = None" using Cons.prems(4) [of "[c]"] by simp
  have "\<exists>d1. make_dirs (c # cs) pos d = make_dirs cs (pos @ [c]) d1 \<and> wf_dir d1 \<and> (\<forall>q. leaf_at q d1 = leaf_at q d) \<and>
      (\<forall>q. dir_at q d1 \<longleftrightarrow> dir_at q d \<or> q = pos @ [c])"
  proof (cases "node_at (pos @ [c]) d")
    case None
    let ?d = "put_node (pos @ [c]) (DirN []) d"
    have "make_dirs (c # cs) pos d = make_dirs cs (pos @ [c]) ?d" using Cons.prems(3) None by auto
    moreover have "wf_dir ?d" using wf_dir_put [OF Cons.prems(2), of "DirN []"] by simp
    ultimately show ?thesis using put_dir_laws [OF Cons.prems(1) None] by blast
  next
    case (Some x)
    then obtain s where s: "x = DirN s" using here by (cases x) (auto simp: leaf_at_def)
    then have "dir_at (pos @ [c]) d" using Some by (simp add: dir_at_iff)
    moreover have "make_dirs (c # cs) pos d = make_dirs cs (pos @ [c]) d" using Cons.prems(3) Some s by auto
    ultimately show ?thesis using Cons.prems(2) by blast
  qed
  then obtain d1 where d1: "make_dirs (c # cs) pos d = make_dirs cs (pos @ [c]) d1" "wf_dir d1"
    "\<And>q. leaf_at q d1 = leaf_at q d" "\<And>q. dir_at q d1 \<longleftrightarrow> dir_at q d \<or> q = pos @ [c]" by blast
  have free: "leaf_at ((pos @ [c]) @ q) d1 = None" if "prefix q cs" for q
    using Cons.prems(4) [of "c # q"] that d1(3) by simp
  obtain d' where d': "make_dirs cs (pos @ [c]) d1 = (Some ((pos @ [c]) @ cs), d')" "wf_dir d'"
    "\<And>q. leaf_at q d' = leaf_at q d1" "\<And>q. dir_at q d' \<longleftrightarrow> dir_at q d1 \<or> (\<exists>r. prefix r cs \<and> q = (pos @ [c]) @ r)"
    using Cons.IH [of "pos @ [c]" d1, OF _ d1(2) _ free] Cons.prems(3) d1(4) by auto
  have "dir_at q d' \<longleftrightarrow> dir_at q d \<or> (\<exists>r. prefix r (c # cs) \<and> q = pos @ r)" for q
  proof -
    have "(\<exists>r. prefix r (c # cs) \<and> q = pos @ r) \<longleftrightarrow> q = pos \<or> (\<exists>r. prefix r cs \<and> q = (pos @ [c]) @ r)"
      by (auto simp: prefix_Cons)
    then show ?thesis using d'(4) d1(4) Cons.prems(1) by (auto simp: prefix_Nil)
  qed
  then show ?case using d1(1,3) d' by auto
qed

definition plain_path :: "string list \<Rightarrow> bool" where
  "plain_path cs \<longleftrightarrow> ''..'' \<notin> set cs \<and> (\<forall>c\<in>set cs. CHR 0x00 \<notin> set c)"

text \<open>A new file at a plain path with its directories, where no file is in the way.\<close>

lemma store_file:
  assumes "wf_dir d" "plain_path (cs @ [name])" "\<And>q. prefix q cs \<Longrightarrow> leaf_at q d = None"
    "leaf_at (cs @ [name]) d = None" "\<not> dir_at (cs @ [name]) d"
  shows "\<exists>d1 d2. create_dir_all cs d = (Some cs, d1) \<and> write_file cs name b d1 = Some d2 \<and> wf_dir d2 \<and>
    (\<forall>q. leaf_at q d2 = (if q = cs @ [name] then Some (FileN b) else leaf_at q d)) \<and>
    (\<forall>q. dir_at q d2 \<longleftrightarrow> dir_at q d \<or> prefix q cs)"
proof -
  have p: "''..'' \<notin> set cs" "\<not> (\<exists>c\<in>set cs. CHR 0x00 \<in> set c)" "CHR 0x00 \<notin> set name"
    using assms(2) by (auto simp: plain_path_def)
  obtain d1 where d1: "make_dirs cs [] d = (Some cs, d1)" "wf_dir d1" "\<And>q. leaf_at q d1 = leaf_at q d"
    "\<And>q. dir_at q d1 \<longleftrightarrow> dir_at q d \<or> prefix q cs"
    using make_dirs_spec [of "[]" d cs, OF dir_at_Nil assms(1) p(1)] assms(3) by auto
  have at: "dir_at cs d1" "\<not> dir_at (cs @ [name]) d1" "leaf_at (cs @ [name]) d1 = None"
    using d1(3,4) assms(4,5) by (auto dest: prefix_length_le)
  then have "node_at (cs @ [name]) d1 = None" by (simp add: node_at_None_iff)
  then have w: "write_file cs name b d1 = Some (put_node (cs @ [name]) (FileN b) d1)"
    using p(3) by (simp add: write_file_def)
  moreover have "wf_dir (put_node (cs @ [name]) (FileN b) d1)" using wf_dir_put [OF d1(2), of "FileN b"] by simp
  moreover have "create_dir_all cs d = (Some cs, d1)" using p(2) d1(1) by (simp add: create_dir_all_def)
  ultimately show ?thesis using put_file_laws [OF at(1,2)] d1(3,4) by simp
qed

end
