(* ===== verification/GitExport.thy ===== *)
theory GitExport
  imports GitLog FileTree
begin

text \<open>
  Export of an import as a git repository, \<open>export.rs\<close> and \<open>write_loose\<close> of \<open>loose.rs\<close>: the loose
  objects in the order of their ids, the refs, and the comparison of the objects of two
  repositories. The file system is one tree of directories; the directory to export to is given
  by its components. Compression is a parameter. What was written before an error stays written.
\<close>

type_synonym deflater = "string \<Rightarrow> string + string"

record git_export =
  out_dir :: "string list"
  eobjects :: nat
  erefs :: nat

section \<open>Writing\<close>

definition path_text :: "string list \<Rightarrow> string" where
  "path_text cs = concat (map (\<lambda>c. CHR ''/'' # c) cs)"

definition write_loose ::
  "(string \<Rightarrow> string) \<Rightarrow> deflater \<Rightarrow> string list \<Rightarrow> git_object \<Rightarrow> dir \<Rightarrow> (git_error + git_oid) \<times> dir" where
  "write_loose sha1 deflate objs_dir ob fs =
     (let encoded = encode ob; i = sha1 encoded; hex = hex_encode i;
          d = objs_dir @ [take 2 hex]; rest = drop 2 hex in
      case create_dir_all d fs of
        (None, fs1) \<Rightarrow> (Inl (GitIo (path_text d)), fs1)
      | (Some pos, fs1) \<Rightarrow>
        (case deflate encoded of
           Inl e \<Rightarrow> (Inl (Zlib e), fs1)
         | Inr compressed \<Rightarrow>
           (case write_file pos rest compressed fs1 of
              None \<Rightarrow> (Inl (GitIo (path_text (d @ [rest]))), fs1)
            | Some fs2 \<Rightarrow> (Inr i, fs2))))"

definition write_ref :: "string list \<Rightarrow> string \<Rightarrow> git_oid \<Rightarrow> dir \<Rightarrow> (git_error + unit) \<times> dir" where
  "write_ref out name i fs =
     (let path = out @ name_parts name; parent = butlast path in
      case create_dir_all parent fs of
        (None, fs1) \<Rightarrow> (Inl (GitIo (path_text parent)), fs1)
      | (Some pos, fs1) \<Rightarrow>
        if last (split_on CHR ''/'' name) \<in> {[], ''.'', ''..''} then (Inl (GitIo (path_text path)), fs1)
        else (case write_file pos (last path) (hex_encode i @ [newline]) fs1 of
            None \<Rightarrow> (Inl (GitIo (path_text path)), fs1)
          | Some fs2 \<Rightarrow> (Inr (), fs2)))"

fun export_objects ::
  "(string \<Rightarrow> string) \<Rightarrow> deflater \<Rightarrow> string list \<Rightarrow> (git_oid \<times> git_object) list \<Rightarrow> nat \<Rightarrow> dir \<Rightarrow>
   (git_error + nat) \<times> dir" where
  "export_objects sha1 deflate objs_dir [] n fs = (Inr n, fs)"
| "export_objects sha1 deflate objs_dir ((i, ob) # rest) n fs =
     (case write_loose sha1 deflate objs_dir ob fs of
        (Inl e, fs1) \<Rightarrow> (Inl e, fs1)
      | (Inr written, fs1) \<Rightarrow>
          if written \<noteq> i then (Inl (OidMismatch (hex_encode i) (hex_encode written)), fs1)
          else export_objects sha1 deflate objs_dir rest (n + 1) fs1)"

fun export_refs :: "string list \<Rightarrow> (string \<times> git_oid) list \<Rightarrow> nat \<Rightarrow> dir \<Rightarrow> (git_error + nat) \<times> dir" where
  "export_refs out [] n fs = (Inr n, fs)"
| "export_refs out ((name, i) # rest) n fs =
     (case write_ref out name i fs of
        (Inl e, fs1) \<Rightarrow> (Inl e, fs1)
      | (Inr _, fs1) \<Rightarrow> export_refs out rest (n + 1) fs1)"

definition export_repo ::
  "(string \<Rightarrow> string) \<Rightarrow> deflater \<Rightarrow> git_import \<Rightarrow> string list \<Rightarrow> dir \<Rightarrow> (git_error + git_export) \<times> dir" where
  "export_repo sha1 deflate imp out fs =
     (case export_objects sha1 deflate (out @ [''objects''])
             (sort_key (\<lambda>(i, ob). hex_encode i) (git_objects imp)) 0 fs of
        (Inl e, fs1) \<Rightarrow> (Inl e, fs1)
      | (Inr objs, fs1) \<Rightarrow>
        (case export_refs out (irefs imp) 0 fs1 of
           (Inl e, fs2) \<Rightarrow> (Inl e, fs2)
         | (Inr refs, fs2) \<Rightarrow> (Inr \<lparr>out_dir = out, eobjects = objs, erefs = refs\<rparr>, fs2)))"

section \<open>The comparison\<close>

text \<open>The map from ids to bytes, as the list of its entries in the order of the keys.\<close>

definition all_object_bytes ::
  "(string \<Rightarrow> string) \<Rightarrow> inflater \<Rightarrow> string \<Rightarrow> dir \<Rightarrow> git_error + (string \<times> string) list" where
  "all_object_bytes sha1 inflate p d =
     and_then (walk_loose sha1 inflate p d) (\<lambda>loose.
     and_then (read_all_packs sha1 inflate p d) (\<lambda>packed.
       Inr (sort_key fst
         (foldl (\<lambda>m (i, ob). if map_of m (hex_encode i) = None then AList.update (hex_encode i) (encode ob) m else m)
           (foldl (\<lambda>m (i, ob). AList.update (hex_encode i) (encode ob) m) [] loose) packed))))"

definition export_matches_source ::
  "(string \<Rightarrow> string) \<Rightarrow> inflater \<Rightarrow> string \<times> dir \<Rightarrow> string \<times> dir \<Rightarrow> git_error + bool" where
  "export_matches_source sha1 inflate git_dir out =
     and_then (all_object_bytes sha1 inflate (fst git_dir) (snd git_dir)) (\<lambda>source.
     and_then (all_object_bytes sha1 inflate (fst out) (snd out)) (\<lambda>exported.
       Inr (source = exported)))"

section \<open>The files of an export\<close>

text \<open>Below a directory of the tree there are exactly the files of \<open>F\<close>, and no directories but those on
the way to them.\<close>

definition has_files :: "string list \<Rightarrow> (string list \<rightharpoonup> string) \<Rightarrow> dir \<Rightarrow> bool" where
  "has_files out F fs \<longleftrightarrow>
     wf_dir fs \<and> dir_at out fs \<and> (\<forall>q. leaf_at (out @ q) fs = map_option FileN (F q)) \<and>
     (\<forall>q. dir_at (out @ q) fs \<longrightarrow> q = [] \<or> (\<exists>p\<in>dom F. strict_prefix q p))"

lemma has_files_add:
  assumes h: "has_files out F fs" and plain: "plain_path (out @ cs @ [name])"
    and free: "\<And>p. p \<in> dom F \<Longrightarrow> \<not> prefix p (cs @ [name]) \<and> \<not> prefix (cs @ [name]) p"
  shows "\<exists>fs1 fs2. create_dir_all (out @ cs) fs = (Some (out @ cs), fs1) \<and>
    write_file (out @ cs) name b fs1 = Some fs2 \<and> has_files out (F(cs @ [name] \<mapsto> b)) fs2 \<and>
    (\<forall>q. \<not> prefix out q \<longrightarrow> leaf_at q fs2 = leaf_at q fs)"
proof -
  have F: "F p = None" if "prefix p (cs @ [name])" for p
    using free [of p] that by (cases "F p") auto
  have way: "leaf_at q fs = None" if "prefix q (out @ cs)" for q
  proof (cases "prefix q out")
    case True
    then obtain r where r: "out = q @ r" by (auto elim: prefixE)
    then have "dir_at q fs" using h by (auto simp: has_files_def intro: dir_at_append [of q r])
    then show ?thesis using leaf_at_dir [of q fs] by blast
  next
    case False
    then obtain r where r: "q = out @ r" "prefix r cs" using \<open>prefix q (out @ cs)\<close> by (auto simp: prefix_append)
    then have "F r = None" using F [of r] by (simp add: prefix_prefix)
    then show ?thesis using h r(1) by (simp add: has_files_def)
  qed
  have new: "leaf_at ((out @ cs) @ [name]) fs = None" using F [of "cs @ [name]"] h by (simp add: has_files_def)
  have nodir: "\<not> dir_at ((out @ cs) @ [name]) fs"
  proof
    assume "dir_at ((out @ cs) @ [name]) fs"
    then obtain p where "p \<in> dom F" "strict_prefix (cs @ [name]) p" 
      using h unfolding has_files_def by (metis append_assoc append_is_Nil_conv list.distinct(1))
    then show False using free [of p] by (simp add: strict_prefix_def)
  qed
  obtain fs1 fs2 where s: "create_dir_all (out @ cs) fs = (Some (out @ cs), fs1)"
    "write_file (out @ cs) name b fs1 = Some fs2" "wf_dir fs2"
    "\<And>q. leaf_at q fs2 = (if q = (out @ cs) @ [name] then Some (FileN b) else leaf_at q fs)"
    "\<And>q. dir_at q fs2 \<longleftrightarrow> dir_at q fs \<or> prefix q (out @ cs)"
    using store_file [of fs "out @ cs" name b] h plain way new nodir by (auto simp: has_files_def)
  have "has_files out (F(cs @ [name] \<mapsto> b)) fs2"
    unfolding has_files_def
  proof (intro conjI allI impI)
    show "wf_dir fs2" "dir_at out fs2" using s(3,5) by auto
    show "leaf_at (out @ q) fs2 = map_option FileN ((F(cs @ [name] \<mapsto> b)) q)" for q
      using s(4) h by (auto simp: has_files_def)
    fix q assume "dir_at (out @ q) fs2"
    then have "dir_at (out @ q) fs \<or> prefix q cs" using s(5) by simp
    then show "q = [] \<or> (\<exists>p\<in>dom (F(cs @ [name] \<mapsto> b)). strict_prefix q p)"
    proof
      assume "dir_at (out @ q) fs"
      then show ?thesis using h by (auto simp: has_files_def)
    next
      assume "prefix q cs"
      then have "strict_prefix q (cs @ [name])" by (auto simp: strict_prefix_def)
      then show ?thesis by auto
    qed
  qed
  moreover have "leaf_at q fs2 = leaf_at q fs" if "\<not> prefix out q" for q
    using that s(4) by auto
  ultimately show ?thesis using s(1,2) by blast
qed

section \<open>The objects are written\<close>

text \<open>What the code relies on in a compressor: it succeeds and is inverted.\<close>

definition zip_ok :: "deflater \<Rightarrow> inflater \<Rightarrow> bool" where
  "zip_ok deflate inflate \<longleftrightarrow> (\<forall>s. \<exists>z n. deflate s = Inr z \<and> inflate z = Inr (s, n))"

definition zipped :: "deflater \<Rightarrow> string \<Rightarrow> string" where
  "zipped deflate s = (case deflate s of Inr z \<Rightarrow> z | Inl _ \<Rightarrow> [])"

lemma zip_ok_zipped:
  "zip_ok deflate inflate \<Longrightarrow> deflate s = Inr (zipped deflate s) \<and> (\<exists>n. inflate (zipped deflate s) = Inr (s, n))"
  unfolding zip_ok_def zipped_def by (metis sum.case(2))

definition object_file :: "git_oid \<Rightarrow> string list" where
  "object_file i = ''objects'' # loose_path i"

lemma object_file_eq: "object_file i = [''objects'', take 2 (hex_encode i), drop 2 (hex_encode i)]"
  by (simp add: object_file_def loose_path_def Let_def)

lemma object_file_inject: "object_file i = object_file j \<longleftrightarrow> i = j"
proof
  assume "object_file i = object_file j"
  then have "hex_encode i = hex_encode j" unfolding object_file_eq by (metis append_take_drop_id list.inject)
  then show "i = j" by (simp add: hex_encode_inject)
qed simp

lemma object_file_prefix: "prefix (object_file i) (object_file j) \<longleftrightarrow> i = j"
  using object_file_inject by (auto simp: object_file_eq)

lemma hex_no: "c \<in> {CHR ''.'', CHR ''/'', CHR 0x00} \<Longrightarrow> c \<notin> set (hex_encode s)"
proof
  assume c: "c \<in> {CHR ''.'', CHR ''/'', CHR 0x00}" and "c \<in> set (hex_encode s)"
  then obtain n where "c = hex_digit n" "n < 16" using hex_encode_range [of c s] by auto
  then have "byte c \<ge> 48" by (simp add: hex_digit_byte)
  then show False using c by auto
qed

lemma object_file_plain: "plain_path (object_file i)"
proof -
  have "''..'' \<noteq> take 2 (hex_encode i)" "''..'' \<noteq> drop 2 (hex_encode i)"
    using hex_no [of "CHR ''.''" i] set_take_subset [of 2 "hex_encode i"] set_drop_subset [of 2 "hex_encode i"]
    by (metis insertI1 list.set_intros(1) subsetD)+
  moreover have "CHR 0x00 \<notin> set (take 2 (hex_encode i))" "CHR 0x00 \<notin> set (drop 2 (hex_encode i))"
    using hex_no [of "CHR 0x00" i] set_take_subset [of 2 "hex_encode i"] set_drop_subset [of 2 "hex_encode i"] by auto
  ultimately show ?thesis by (simp add: plain_path_def object_file_eq)
qed

lemma plain_path_append: "plain_path (p @ q) \<longleftrightarrow> plain_path p \<and> plain_path q"
  by (auto simp: plain_path_def)

definition object_map :: "deflater \<Rightarrow> (git_oid \<times> git_object) list \<Rightarrow> string list \<rightharpoonup> string" where
  "object_map deflate os = map_of (map (\<lambda>(i, ob). (object_file i, zipped deflate (encode ob))) os)"

lemma object_map_dom: "dom (object_map deflate os) = object_file ` fst ` set os"
  by (force simp: object_map_def dom_map_of_conv_image_fst)

lemma export_objects_spec:
  assumes "zip_ok deflate inflate" "plain_path out"
    and "has_files out F fs" "distinct (map fst os)" "\<forall>(i, ob)\<in>set os. i = sha1 (encode ob)"
    and "\<And>p. p \<in> dom F \<Longrightarrow> \<exists>j. p = object_file j \<and> j \<notin> fst ` set os"
  shows "\<exists>fs'. export_objects sha1 deflate (out @ [''objects'']) os n fs = (Inr (n + length os), fs') \<and>
    has_files out (F ++ object_map deflate os) fs' \<and> (\<forall>q. \<not> prefix out q \<longrightarrow> leaf_at q fs' = leaf_at q fs)"
  using assms(3-)
proof (induction os arbitrary: F fs n)
  case Nil
  then show ?case by (auto simp: object_map_def)
next
  case (Cons e os)
  obtain i ob where e: "e = (i, ob)" by (cases e)
  have i: "i = sha1 (encode ob)" using Cons.prems(3) e by simp
  let ?z = "zipped deflate (encode ob)" and ?cs = "[''objects'', take 2 (hex_encode i)]" and ?nm = "drop 2 (hex_encode i)"
  have path: "?cs @ [?nm] = object_file i" by (simp add: object_file_eq)
  have free: "\<not> prefix p (?cs @ [?nm]) \<and> \<not> prefix (?cs @ [?nm]) p" if "p \<in> dom F" for p
    using Cons.prems(4) [OF that] unfolding path e by (auto simp: object_file_prefix)
  have "plain_path (out @ ?cs @ [?nm])" unfolding path using assms(2) object_file_plain by (simp add: plain_path_append)
  from has_files_add [OF Cons.prems(1) this free, of ?z] obtain fs1 fs2 where
    s: "create_dir_all (out @ ?cs) fs = (Some (out @ ?cs), fs1)" "write_file (out @ ?cs) ?nm ?z fs1 = Some fs2"
    "has_files out (F(object_file i \<mapsto> ?z)) fs2" "\<forall>q. \<not> prefix out q \<longrightarrow> leaf_at q fs2 = leaf_at q fs"
    unfolding path by blast
  have w: "write_loose sha1 deflate (out @ [''objects'']) ob fs = (Inr i, fs2)"
    using s(1,2) zip_ok_zipped [OF assms(1), of "encode ob"] i by (simp add: write_loose_def Let_def)
  have "\<exists>j. p = object_file j \<and> j \<notin> fst ` set os" if "p \<in> dom (F(object_file i \<mapsto> ?z))" for p
    using that Cons.prems(2,4) e by (cases "p = object_file i") force+
  moreover have "distinct (map fst os)" "\<forall>(i, ob)\<in>set os. i = sha1 (encode ob)" using Cons.prems(2,3) by auto
  ultimately obtain fs' where
    r: "export_objects sha1 deflate (out @ [''objects'']) os (n + 1) fs2 = (Inr (n + 1 + length os), fs')"
    "has_files out (F(object_file i \<mapsto> ?z) ++ object_map deflate os) fs'"
    "\<forall>q. \<not> prefix out q \<longrightarrow> leaf_at q fs' = leaf_at q fs2" using Cons.IH [OF s(3), of "n + 1"] by blast
  have "object_file i \<notin> dom (object_map deflate os)"
    unfolding object_map_dom using Cons.prems(2) e by (auto simp: object_file_inject) (metis fst_conv image_eqI)
  then have "F(object_file i \<mapsto> ?z) ++ object_map deflate os = F ++ object_map deflate (e # os)"
    by (auto simp: e object_map_def fun_eq_iff map_add_def split: option.split)
  then show ?case using r w s(4) by (auto simp: e)
qed

section \<open>The refs are written\<close>

text \<open>The names git itself allows in a repository: \<open>HEAD\<close> or a name below \<open>refs/\<close>, no part of a name
empty, \<open>.\<close> or \<open>..\<close>, and no ref in the place of a directory of refs.\<close>

definition ref_path :: "string \<Rightarrow> string list" where
  "ref_path name = split_on CHR ''/'' name"

definition good_ref :: "string \<Rightarrow> bool" where
  "good_ref name \<longleftrightarrow>
     (ref_path name = [''HEAD''] \<or> (\<exists>cs. cs \<noteq> [] \<and> ref_path name = ''refs'' # cs)) \<and>
     (\<forall>c\<in>set (ref_path name). c \<notin> {[], ''.'', ''..''} \<and> CHR 0x00 \<notin> set c \<and> utf8_valid c)"

definition good_refs :: "(string \<times> git_oid) list \<Rightarrow> bool" where
  "good_refs rs \<longleftrightarrow>
     distinct (map fst rs) \<and> (\<forall>(n, i)\<in>set rs. good_ref n \<and> length i = 20) \<and>
     (\<forall>n\<in>fst ` set rs. \<forall>m\<in>fst ` set rs. prefix (ref_path n) (ref_path m) \<longrightarrow> n = m)"

definition ref_map :: "(string \<times> git_oid) list \<Rightarrow> string list \<rightharpoonup> string" where
  "ref_map rs = map_of (map (\<lambda>(n, i). (ref_path n, hex_encode i @ [newline])) rs)"

lemma ref_map_dom: "dom (ref_map rs) = ref_path ` fst ` set rs"
  by (force simp: ref_map_def dom_map_of_conv_image_fst)

lemma good_refs_Cons: "good_refs (r # rs) \<Longrightarrow> good_refs rs"
  unfolding good_refs_def by auto

lemma good_ref_parts:
  assumes "good_ref n"
  shows "name_parts n = ref_path n" "ref_path n \<noteq> []" "last (split_on CHR ''/'' n) \<notin> {[], ''.'', ''..''}"
    "plain_path (ref_path n)"
proof -
  note a = assms [unfolded good_ref_def]
  show ne: "ref_path n \<noteq> []" using a by (metis list.distinct(1))
  have parts: "\<forall>c\<in>set (ref_path n). c \<notin> {[], ''.'', ''..''}" using a by blast
  then show "name_parts n = ref_path n" by (simp add: name_parts_def ref_path_def)
  show "last (split_on CHR ''/'' n) \<notin> {[], ''.'', ''..''}"
    using parts last_in_set [OF ne] unfolding ref_path_def by blast
  show "plain_path (ref_path n)" using assms by (auto simp: good_ref_def plain_path_def)
qed

lemma export_refs_spec:
  assumes "plain_path out" and "has_files out F fs" "good_refs rs"
    and "\<And>p n. p \<in> dom F \<Longrightarrow> n \<in> fst ` set rs \<Longrightarrow> \<not> prefix p (ref_path n) \<and> \<not> prefix (ref_path n) p"
  shows "\<exists>fs'. export_refs out rs k fs = (Inr (k + length rs), fs') \<and>
    has_files out (F ++ ref_map rs) fs' \<and> (\<forall>q. \<not> prefix out q \<longrightarrow> leaf_at q fs' = leaf_at q fs)"
  using assms(2-)
proof (induction rs arbitrary: F fs k)
  case Nil
  then show ?case by (auto simp: ref_map_def)
next
  case (Cons r rs)
  obtain n i where r: "r = (n, i)" by (cases r)
  have good: "good_ref n" using Cons.prems(2) r by (simp add: good_refs_def)
  note g = good_ref_parts [OF good]
  let ?cs = "butlast (ref_path n)" and ?nm = "last (ref_path n)" and ?b = "hex_encode i @ [newline]"
  have path: "?cs @ [?nm] = ref_path n" using g(2) by simp
  have plain: "plain_path (out @ ?cs @ [?nm])" unfolding path using assms(1) g(4) by (simp add: plain_path_append)
  have free: "\<not> prefix p (?cs @ [?nm]) \<and> \<not> prefix (?cs @ [?nm]) p" if "p \<in> dom F" for p
    unfolding path using Cons.prems(3) [OF that, of n] r by simp
  from has_files_add [OF Cons.prems(1) plain free, of ?b] obtain fs1 fs2 where
    s: "create_dir_all (out @ ?cs) fs = (Some (out @ ?cs), fs1)" "write_file (out @ ?cs) ?nm ?b fs1 = Some fs2"
    "has_files out (F(ref_path n \<mapsto> ?b)) fs2" "\<forall>q. \<not> prefix out q \<longrightarrow> leaf_at q fs2 = leaf_at q fs"
    unfolding path by blast
  have w: "write_ref out n i fs = (Inr (), fs2)"
    using s(1,2) g by (simp add: write_ref_def Let_def butlast_append)
  have new: "\<not> prefix (ref_path n) (ref_path m) \<and> \<not> prefix (ref_path m) (ref_path n)" if "m \<in> fst ` set rs" for m
    using Cons.prems(2) that unfolding r good_refs_def by (auto split: prod.splits)
  have "\<not> prefix p (ref_path m) \<and> \<not> prefix (ref_path m) p"
    if "p \<in> dom (F(ref_path n \<mapsto> ?b))" "m \<in> fst ` set rs" for p m
    using that Cons.prems(3) [of p m] new [of m] by (cases "p = ref_path n") auto
  then obtain fs' where
    x: "export_refs out rs (k + 1) fs2 = (Inr (k + 1 + length rs), fs')"
    "has_files out (F(ref_path n \<mapsto> ?b) ++ ref_map rs) fs'"
    "\<forall>q. \<not> prefix out q \<longrightarrow> leaf_at q fs' = leaf_at q fs2"
    using Cons.IH [OF s(3) good_refs_Cons [OF Cons.prems(2)], of "k + 1"] by blast
  have "ref_path n \<notin> dom (ref_map rs)"
  proof
    assume "ref_path n \<in> dom (ref_map rs)"
    then obtain m where "m \<in> fst ` set rs" "ref_path n = ref_path m" unfolding ref_map_dom by blast
    then show False using new [of m] by simp
  qed
  then have "F(ref_path n \<mapsto> ?b) ++ ref_map rs = F ++ ref_map (r # rs)"
    by (auto simp: r ref_map_def fun_eq_iff map_add_def split: option.split)
  moreover have "export_refs out (r # rs) k fs = (Inr (k + length (r # rs)), fs')" using x(1) w by (simp add: r)
  moreover have "\<forall>q. \<not> prefix out q \<longrightarrow> leaf_at q fs' = leaf_at q fs" using x(3) s(4) by simp
  ultimately show ?case using x(2) by (intro exI [of _ fs']) simp
qed

section \<open>A whole export\<close>

definition exported_files :: "deflater \<Rightarrow> git_import \<Rightarrow> string list \<rightharpoonup> string" where
  "exported_files deflate imp = object_map deflate (git_objects imp) ++ ref_map (irefs imp)"

lemma empty_dir_has_files:
  assumes "wf_dir fs" "node_at out fs = Some (DirN [])"
  shows "has_files out Map.empty fs"
proof -
  have "leaf_at (out @ q) fs = None" "dir_at (out @ q) fs \<longleftrightarrow> q = []" for q
    unfolding leaf_at_sub [OF assms(2), symmetric] dir_at_sub [OF assms(2), symmetric]
    by (cases q; simp add: leaf_at_def dir_at_def node_at_Cons)+
  then show ?thesis using assms by (simp add: has_files_def dir_at_iff)
qed

lemma export_repo_spec:
  assumes "zip_ok deflate inflate" "plain_path out" "wf_dir fs" "node_at out fs = Some (DirN [])"
    and os: "distinct (map fst (git_objects imp))" "\<forall>(i, ob)\<in>set (git_objects imp). i = sha1 (encode ob)"
    and refs: "good_refs (irefs imp)"
  shows "\<exists>fs'. export_repo sha1 deflate imp out fs =
      (Inr \<lparr>out_dir = out, eobjects = length (git_objects imp), erefs = length (irefs imp)\<rparr>, fs') \<and>
    has_files out (exported_files deflate imp) fs' \<and> (\<forall>q. \<not> prefix out q \<longrightarrow> leaf_at q fs' = leaf_at q fs)"
proof -
  let ?os = "sort_key (\<lambda>(i, ob). hex_encode i) (git_objects imp)"
  have d: "distinct (map fst ?os)" using os(1) by (simp add: distinct_map)
  have m: "object_map deflate ?os = object_map deflate (git_objects imp)"
  proof -
    let ?f = "\<lambda>(i, ob). (object_file i, zipped deflate (encode ob))"
    have "distinct (map fst (map ?f xs))" if "distinct (map fst xs)" for xs :: "(git_oid \<times> git_object) list"
    proof -
      have "map fst (map ?f xs) = map object_file (map fst xs)" by auto
      then show ?thesis using that by (simp add: distinct_map inj_on_def object_file_inject del: map_map)
    qed
    from map_of_inject_set [OF this [OF d] this [OF os(1)]] show ?thesis
      unfolding object_map_def set_map set_sort by blast
  qed
  obtain fs1 where o: "export_objects sha1 deflate (out @ [''objects'']) ?os 0 fs = (Inr (length (git_objects imp)), fs1)"
    "has_files out (object_map deflate (git_objects imp)) fs1" "\<forall>q. \<not> prefix out q \<longrightarrow> leaf_at q fs1 = leaf_at q fs"
    using export_objects_spec [OF assms(1,2) empty_dir_has_files [OF assms(3,4)] d, of sha1 0] os(2) unfolding m by auto
  have apart: "\<not> prefix p (ref_path n) \<and> \<not> prefix (ref_path n) p"
    if p: "p \<in> dom (object_map deflate (git_objects imp))" and n: "n \<in> fst ` set (irefs imp)" for p n
  proof -
    obtain i where "p = object_file i" using p unfolding object_map_dom by blast
    moreover have "ref_path n = [''HEAD''] \<or> (\<exists>cs. cs \<noteq> [] \<and> ref_path n = ''refs'' # cs)"
      using refs n by (auto simp: good_refs_def good_ref_def)
    ultimately show ?thesis by (auto simp: object_file_eq)
  qed
  obtain fs2 where r: "export_refs out (irefs imp) 0 fs1 = (Inr (length (irefs imp)), fs2)"
    "has_files out (exported_files deflate imp) fs2" "\<forall>q. \<not> prefix out q \<longrightarrow> leaf_at q fs2 = leaf_at q fs1"
    using export_refs_spec [OF assms(2) o(2) refs apart, of 0] unfolding exported_files_def by auto
  have "export_repo sha1 deflate imp out fs =
      (Inr \<lparr>out_dir = out, eobjects = length (git_objects imp), erefs = length (irefs imp)\<rparr>, fs2)"
    by (simp add: export_repo_def o(1) r(1))
  then show ?thesis using r(2,3) o(3) by auto
qed

end
