(* ===== verification/GitRoundTrip.thy ===== *)
theory GitRoundTrip
  imports GitExport
begin

text \<open>
  Reading an exported repository back: the walk over the loose objects, the refs and the map of
  all object bytes of a directory that holds exactly the files of an export, and the composition
  of import and export.
\<close>

section \<open>The directory of an export\<close>

lemma has_files_at: "has_files out F fs \<Longrightarrow> \<exists>d. node_at out fs = Some (DirN d) \<and> has_files [] F d"
proof -
  assume h: "has_files out F fs"
  then obtain d where d: "node_at out fs = Some (DirN d)" by (auto simp: has_files_def dir_at_iff)
  have "has_files [] F d" using h wf_dir_sub [of fs out d] d
    by (simp add: has_files_def leaf_at_sub [OF d] dir_at_sub [OF d])
  then show ?thesis using d by blast
qed

lemma has_files_leaf: "has_files [] F d \<Longrightarrow> leaf_at q d = map_option FileN (F q)"
  by (simp add: has_files_def)

text \<open>An entry of the directory is one of the files, or a directory with the files below it.\<close>

lemma has_files_entry:
  assumes h: "has_files [] F d" and x: "map_of d c = Some x"
  obtains b where "x = FileN b" "F [c] = Some b"
    | sub where "x = DirN sub" "has_files [] (\<lambda>q. F (c # q)) sub" "\<exists>q. q \<noteq> [] \<and> F (c # q) \<noteq> None"
proof (cases "\<exists>sub. x = DirN sub")
  case False
  then have "leaf_at [c] d = Some x" using x by (cases x) (auto simp: leaf_at_def node_at_Cons)
  then show thesis using has_files_leaf [OF h, of "[c]"] that(1) by auto
next
  case True
  then obtain sub where sub: "x = DirN sub" by blast
  then have at: "node_at [c] d = Some (DirN sub)" using x by (simp add: node_at_Cons)
  have below: "\<exists>p\<in>dom (\<lambda>q. F (c # q)). strict_prefix q p" if "dir_at q sub" for q
  proof -
    have "dir_at (c # q) d" using \<open>dir_at q sub\<close> dir_at_sub [OF at, of q] by simp
    then obtain p where p: "p \<in> dom F" "strict_prefix (c # q) p" using h unfolding has_files_def append_Nil by blast
    then obtain r where "p = c # (q @ r)" "r \<noteq> []" by (auto simp: strict_prefix_def prefix_def)
    then show ?thesis using p(1) by (intro bexI [of _ "q @ r"]) (auto simp: strict_prefix_def)
  qed
  have "wf_dir sub" using h wf_dir_sub [OF _ at] by (simp add: has_files_def)
  then have "has_files [] (\<lambda>q. F (c # q)) sub"
    using h below leaf_at_sub [OF at] by (auto simp: has_files_def)
  moreover have "\<exists>q. q \<noteq> [] \<and> F (c # q) \<noteq> None"
  proof -
    obtain p where "F (c # p) \<noteq> None" "strict_prefix [] p" using below [OF dir_at_Nil] by blast
    then show ?thesis by (intro exI [of _ p]) (auto simp: strict_prefix_def)
  qed
  ultimately show thesis using that(2) sub by blast
qed

lemma has_files_names:
  "has_files [] F d \<Longrightarrow> map_of d c = None \<Longrightarrow> F (c # q) = None"
  using has_files_leaf [of F d "c # q"] by (simp add: leaf_at_def node_at_Cons)

section \<open>The loose objects\<close>

definition written_objects :: "(string \<Rightarrow> string) \<Rightarrow> (git_oid \<times> git_object) list \<Rightarrow> bool" where
  "written_objects sha1 os \<longleftrightarrow>
     distinct (map fst os) \<and> (\<forall>(i, ob)\<in>set os. i = sha1 (encode ob) \<and> length i = 20 \<and> git_ok ob)"

lemma list_all2_choice: "(\<And>x. x \<in> set xs \<Longrightarrow> \<exists>y. P x y) \<Longrightarrow> \<exists>ys. list_all2 P xs ys"
proof (induction xs)
  case (Cons x xs)
  then obtain y ys where "P x y" "list_all2 P xs ys" by (meson list.set_intros)
  then have "list_all2 P (x # xs) (y # ys)" by simp
  then show ?case by (rule exI)
qed (intro exI [of _ "[]"], simp)

lemma hex_loose:
  assumes "length i = 20"
  shows "loose_name 2 (take 2 (hex_encode i))" "loose_name 38 (drop 2 (hex_encode i))"
proof -
  have hex: "is_hex c \<and> byte c < 128" if "c \<in> set (hex_encode i)" for c
    using hex_encode_range [OF that] hex_digit_ascii by (auto simp: is_hex_def)
  have "list_all is_hex s \<and> utf8_valid s" if "set s \<subseteq> set (hex_encode i)" for s
    using that hex by (induction s) auto
  then show "loose_name 2 (take 2 (hex_encode i))" "loose_name 38 (drop 2 (hex_encode i))"
    using assms set_take_subset [of 2 "hex_encode i"] set_drop_subset [of 2 "hex_encode i"]
    by (simp_all add: loose_name_def)
qed

lemma ref_map_shape:
  assumes "ref_map rs q = Some b" "good_refs rs"
  shows "q = [''HEAD''] \<or> (\<exists>cs. cs \<noteq> [] \<and> q = ''refs'' # cs)"
proof -
  have "q \<in> ref_path ` fst ` set rs" using assms(1) unfolding ref_map_dom [symmetric] by blast
  then obtain n i where n: "(n, i) \<in> set rs" "q = ref_path n" by auto
  then have "good_ref n" using assms(2) by (auto simp: good_refs_def)
  then show ?thesis unfolding n(2) good_ref_def by blast
qed

lemma exported_shape:
  assumes "exported_files deflate imp q = Some b" "good_refs (irefs imp)"
  shows "object_map deflate (git_objects imp) q = Some b \<and> (\<exists>i. q = object_file i) \<or>
    ref_map (irefs imp) q = Some b \<and> (q = [''HEAD''] \<or> (\<exists>cs. cs \<noteq> [] \<and> q = ''refs'' # cs))"
proof (cases "ref_map (irefs imp) q")
  case None
  then have o: "object_map deflate (git_objects imp) q = Some b" using assms(1) by (simp add: exported_files_def map_add_def)
  then have "q \<in> object_file ` fst ` set (git_objects imp)"
    unfolding object_map_dom [of deflate, symmetric] by blast
  then show ?thesis using o by blast
next
  case (Some a)
  then have "q = [''HEAD''] \<or> (\<exists>cs. cs \<noteq> [] \<and> q = ''refs'' # cs)" using ref_map_shape [OF _ assms(2)] by blast
  then show ?thesis using Some assms(1) by (simp add: exported_files_def)
qed

lemma exported_object_file:
  "exported_files deflate imp [''objects'', n, f] = Some b \<Longrightarrow> good_refs (irefs imp) \<Longrightarrow>
   \<exists>i ob. (i, ob) \<in> set (git_objects imp) \<and> n = take 2 (hex_encode i) \<and> f = drop 2 (hex_encode i) \<and>
     b = zipped deflate (encode ob)"
proof -
  assume "exported_files deflate imp [''objects'', n, f] = Some b" "good_refs (irefs imp)"
  then have "object_map deflate (git_objects imp) [''objects'', n, f] = Some b" using exported_shape by fastforce
  then have "([''objects'', n, f], b) \<in> set (map (\<lambda>(i, ob). (object_file i, zipped deflate (encode ob))) (git_objects imp))"
    unfolding object_map_def by (rule map_of_SomeD)
  then show ?thesis by (auto simp: object_file_eq)
qed

lemma exported_object:
  assumes "distinct (map fst (git_objects imp))" "(i, ob) \<in> set (git_objects imp)" "good_refs (irefs imp)"
  shows "exported_files deflate imp (object_file i) = Some (zipped deflate (encode ob))"
proof -
  have n: "ref_map (irefs imp) (object_file i) = None"
  proof (cases "ref_map (irefs imp) (object_file i)")
    case (Some b)
    then have "object_file i = [''HEAD''] \<or> (\<exists>cs. cs \<noteq> [] \<and> object_file i = ''refs'' # cs)"
      using ref_map_shape [OF _ assms(3)] by blast
    then show ?thesis by (simp add: object_file_eq)
  qed
  have "object_map deflate os (object_file i) = Some (zipped deflate (encode ob))"
    if "distinct (map fst os)" "(i, ob) \<in> set os" for os
    using that by (induction os) (auto simp: object_map_def object_file_inject split: prod.splits, force)
  then show ?thesis using assms(1,2) n by (simp add: exported_files_def map_add_def)
qed

lemma leaf_in_loose:
  assumes "leaf_at [n, f] shards = Some x" "loose_name 2 n" "loose_name 38 f"
  shows "((n, f), x) \<in> set (loose_files shards)"
proof -
  have "node_at [n, f] shards = Some x" using assms(1) by (auto simp: leaf_at_def split: option.splits fs_node.splits)
  then obtain y where y: "map_of shards n = Some y" "sub_node [f] y = Some x"
    by (auto simp: node_at_Cons bind_eq_Some_conv)
  then obtain files where "y = DirN files" "map_of files f = Some x"
    by (cases y) (auto simp: node_at_Cons bind_eq_Some_conv)
  then have "(n, DirN files) \<in> set shards" "(f, x) \<in> set files" using y(1) by (auto dest: map_of_SomeD)
  then show ?thesis using assms(2,3) by (force simp: loose_files_def shard_files_def)
qed

lemma walk_exported:
  assumes h: "has_files [] (exported_files deflate imp) d" and zip: "zip_ok deflate inflate"
    and os: "written_objects sha1 (git_objects imp)" and refs: "good_refs (irefs imp)"
  shows "\<exists>loose. walk_loose sha1 inflate p d = Inr loose \<and> set loose = set (git_objects imp)"
proof (cases "map_of d ''objects''")
  case None
  then have "exported_files deflate imp (object_file i) = None" for i
    using has_files_names [OF h None] by (simp add: object_file_eq)
  then have "git_objects imp = []"
    using exported_object [OF _ _ refs, of "fst (hd (git_objects imp))" "snd (hd (git_objects imp))" deflate] os
    by (cases "git_objects imp") (auto simp: written_objects_def)
  then show ?thesis using None by (simp add: walk_loose_def read_dir_def)
next
  case (Some x)
  have no: "exported_files deflate imp [''objects''] = None" "exported_files deflate imp [''objects'', n] = None" for n
  proof -
    have "q \<notin> dom (exported_files deflate imp)" if q: "hd q = ''objects''" "length q \<noteq> 3" for q
    proof
      assume "q \<in> dom (exported_files deflate imp)"
      then obtain b where "exported_files deflate imp q = Some b" by blast
      from exported_shape [OF this refs] q show False by (auto simp: object_file_eq)
    qed
    from this [of "[''objects'']"] this [of "[''objects'', n]"]
    show "exported_files deflate imp [''objects''] = None" "exported_files deflate imp [''objects'', n] = None"
      by (simp_all add: domIff)
  qed
  obtain shards where sh: "x = DirN shards" "has_files [] (\<lambda>q. exported_files deflate imp (''objects'' # q)) shards"
    using has_files_entry [OF h Some] no by (metis option.distinct(1))
  note wf = sh(2) [unfolded has_files_def, THEN conjunct1]
  have shard: "\<exists>files. x = DirN files" if "(n, x) \<in> set shards" for n x
    using has_files_entry [OF sh(2), of n x] that no(2) [of n] unfolding wf_dir_map_of [OF wf]
    by (metis option.distinct(1))
  let ?held = "\<lambda>fl e. holds_object sha1 inflate fl e \<and> e \<in> set (git_objects imp) \<and>
    fst fl = (take 2 (hex_encode (fst e)), drop 2 (hex_encode (fst e)))"
  have fl: "\<exists>e. ?held fl e" if f: "fl \<in> set (loose_files shards)" for fl
  proof -
    obtain n files f x where x: "fl = ((n, f), x)" "(n, DirN files) \<in> set shards" "(f, x) \<in> set files"
      using f by (auto simp: loose_files_def shard_files_def split: if_splits fs_node.splits)
    have n: "map_of shards n = Some (DirN files)" using x(2) by (simp add: wf_dir_map_of [OF wf])
    obtain sub where s: "sub = files" "has_files [] (\<lambda>q. exported_files deflate imp (''objects'' # n # q)) sub"
      using has_files_entry [OF sh(2) n] by (metis fs_node.distinct(1) fs_node.inject(2))
    have "map_of files f = Some x" using x(3) s wf_dir_map_of [of files] by (auto simp: has_files_def)
    then have "\<exists>b. x = FileN b \<and> exported_files deflate imp [''objects'', n, f] = Some b"
    proof (rule has_files_entry [OF s(2) [unfolded s(1)]])
      fix t assume "\<exists>q. q \<noteq> [] \<and> exported_files deflate imp (''objects'' # n # f # q) \<noteq> None"
      then obtain q b where q: "q \<noteq> []" "exported_files deflate imp (''objects'' # n # f # q) = Some b" by auto
      from exported_shape [OF q(2) refs] q(1) show ?thesis by (auto simp: object_file_eq)
    qed auto
    then obtain i ob where e: "(i, ob) \<in> set (git_objects imp)" "n = take 2 (hex_encode i)" "f = drop 2 (hex_encode i)"
      "x = FileN (zipped deflate (encode ob))" using exported_object_file [OF _ refs] by blast
    obtain k where z: "inflate (zipped deflate (encode ob)) = Inr (encode ob, k)"
      using zip_ok_zipped [OF zip, of "encode ob"] by blast
    have ob: "i = sha1 (encode ob)" "length i = 20" "git_ok ob" using os e(1) by (auto simp: written_objects_def)
    have "holds_object sha1 inflate fl (i, ob)"
      unfolding holds_object_def x(1) e(4)
    proof (intro exI conjI)
      show "inflate (zipped deflate (encode ob)) = Inr (encode ob, k)" by (fact z)
      show "oid_from_hex (n @ f) = Inr (fst (i, ob))" using e(2,3) oid_from_hex_encode [OF ob(2)] by simp
      show "decode (encode ob) = Inr (snd (i, ob))" by (simp add: decode_encode [OF ob(3)])
      show "fst (i, ob) = sha1 (encode ob)" using ob(1) by simp
    qed (rule refl)
    then have "?held fl (i, ob)" unfolding x(1) using e(1-3) by (simp only: fst_conv simp_thms)
    then show ?thesis by (rule exI)
  qed
  from list_all2_choice [OF fl] obtain loose where l: "list_all2 ?held (loose_files shards) loose" by (rule exE)
  have "list_all2 (holds_object sha1 inflate) (loose_files shards) loose" using l by (rule list_all2_mono) blast
  then have w: "walk_loose sha1 inflate p d = Inr loose"
    using shard Some sh(1) by (auto simp: walk_loose_def read_dir_def Let_def walk_shards_Inr)
  have "set loose = set (git_objects imp)"
  proof (intro equalityI subsetI)
    fix e assume "e \<in> set loose"
    then show "e \<in> set (git_objects imp)" using l by (auto simp: list_all2_conv_all_nth in_set_conv_nth)
  next
    fix e assume e: "e \<in> set (git_objects imp)"
    obtain i ob where i: "e = (i, ob)" by (cases e)
    have len: "length i = 20" using os e by (auto simp: written_objects_def i)
    have "exported_files deflate imp (object_file i) = Some (zipped deflate (encode ob))"
      using exported_object [OF _ _ refs] os e by (auto simp: written_objects_def i)
    then have "leaf_at (object_file i) d = Some (FileN (zipped deflate (encode ob)))" using has_files_leaf [OF h] by simp
    then have "((take 2 (hex_encode i), drop 2 (hex_encode i)), FileN (zipped deflate (encode ob))) \<in> set (loose_files shards)"
      using leaf_in_loose [OF _ hex_loose [OF len]] leaf_at_sub [of "[''objects'']" d shards] Some sh(1)
      by (simp add: node_at_Cons object_file_eq)
    then obtain k where k: "k < length (loose_files shards)"
      "loose_files shards ! k = ((take 2 (hex_encode i), drop 2 (hex_encode i)), FileN (zipped deflate (encode ob)))"
      by (metis in_set_conv_nth)
    let ?e' = "loose ! k"
    have e': "?e' \<in> set loose" "?e' \<in> set (git_objects imp)"
      "take 2 (hex_encode i) = take 2 (hex_encode (fst ?e'))" "drop 2 (hex_encode i) = drop 2 (hex_encode (fst ?e'))"
      using list_all2_nthD [OF l k(1)] k list_all2_lengthD [OF l] by simp_all
    then have "fst ?e' = i" by (metis append_take_drop_id hex_encode_inject)
    then have "?e' = e" using os e e'(2) unfolding written_objects_def by (metis eq_key_imp_eq_value i prod.collapse)
    then show "e \<in> set loose" using e'(1) by simp
  qed
  then show ?thesis using w by blast
qed

lemma packs_exported:
  assumes h: "has_files [] (exported_files deflate imp) d" and os: "written_objects sha1 (git_objects imp)"
    and refs: "good_refs (irefs imp)"
  shows "read_all_packs sha1 inflate p d = Inr []"
proof -
  have no: "exported_files deflate imp [''objects''] = None" "exported_files deflate imp (''objects'' # ''pack'' # q) = None" for q
  proof -
    have "exported_files deflate imp r = None" if r: "r = [''objects''] \<or> r = ''objects'' # ''pack'' # q" for r
    proof (cases "exported_files deflate imp r")
      case (Some b)
      from exported_shape [OF this refs] r obtain i where i: "r = object_file i" by auto
      have "take 2 (hex_encode i) \<noteq> ''pack''"
        using length_take [of 2 "hex_encode i"] by (auto dest: arg_cong [where f = length])
      then show ?thesis using r i by (auto simp: object_file_eq)
    qed
    then show "exported_files deflate imp [''objects''] = None" "exported_files deflate imp (''objects'' # ''pack'' # q) = None"
      by blast+
  qed
  have "pack_dir p d = Inr None"
  proof (cases "map_of d ''objects''")
    case (Some x)
    then obtain objs where x: "x = DirN objs" "has_files [] (\<lambda>q. exported_files deflate imp (''objects'' # q)) objs"
      using has_files_entry [OF h Some] no(1) by (metis option.distinct(1))
    have "map_of objs ''pack'' = None"
    proof (cases "map_of objs ''pack''")
      case (Some y)
      show ?thesis by (rule has_files_entry [OF x(2) Some]) (use no(2) in auto)
    qed
    then show ?thesis using Some x(1) by (simp add: pack_dir_def read_dir_def)
  qed (simp add: pack_dir_def)
  then show ?thesis by (simp add: read_all_packs_def pack_paths_def)
qed

section \<open>The refs\<close>

text \<open>The contents of the files below a directory, with the names that the refs of the directory get.\<close>

function ref_files :: "string \<Rightarrow> dir \<Rightarrow> (string \<times> string) list" where
  "ref_files nm [] = []"
| "ref_files nm ((n, x) # es) =
     (case x of FileN b \<Rightarrow> [(join_path nm n, b)] | DirN sub \<Rightarrow> ref_files (join_path nm n) sub | _ \<Rightarrow> []) @ ref_files nm es"
  by pat_completeness auto
termination by (relation "measure (\<lambda>(nm, es). size_list (size_prod (\<lambda>_. 0) size) es)") auto

definition ref_name :: "string \<Rightarrow> string list \<Rightarrow> string" where
  "ref_name nm q = foldl join_path nm q"

lemma ref_name_Cons: "ref_name nm (c # q) = ref_name (join_path nm c) q"
  by (simp add: ref_name_def)

lemma ref_name_join: "ref_name nm q = join_with CHR ''/'' (nm # q)"
proof (induction q arbitrary: nm)
  case (Cons c q)
  show ?case using Cons.IH [of "join_path nm c"] by (cases q) (simp_all add: ref_name_Cons join_path_def)
qed (simp add: ref_name_def)

lemma ref_files_set:
  "wf_dir es \<Longrightarrow> (n, b) \<in> set (ref_files nm es) \<longleftrightarrow> (\<exists>q. n = ref_name nm q \<and> leaf_at q es = Some (FileN b))"
proof (induction nm es arbitrary: n b rule: ref_files.induct)
  case (1 nm)
  have "leaf_at q [] = None" for q by (cases q) (simp_all add: leaf_at_def node_at_Cons)
  then show ?case by simp
next
  case (2 nm c x es)
  have wf: "wf_dir es" "c \<notin> fst ` set es" "\<And>sub. x = DirN sub \<Longrightarrow> wf_dir sub" using "2.prems" by auto
  have at: "leaf_at q ((c, x) # es) =
      (case q of [] \<Rightarrow> None | a # r \<Rightarrow> if a = c then (case x of DirN sub \<Rightarrow> leaf_at r sub | y \<Rightarrow> if r = [] then Some y else None)
         else leaf_at q es)" for q
    by (cases q) (auto simp: leaf_at_def node_at_Cons split: fs_node.splits if_splits)
  have not: "leaf_at (c # r) es = None" for r
    using wf(2) by (simp add: leaf_at_def node_at_Cons map_of_eq_None_iff [THEN iffD2])
  have "(\<exists>q. n = ref_name nm q \<and> leaf_at q ((c, x) # es) = Some (FileN b)) \<longleftrightarrow>
      (\<exists>r. n = ref_name nm (c # r) \<and> (case x of DirN sub \<Rightarrow> leaf_at r sub | y \<Rightarrow> if r = [] then Some y else None) = Some (FileN b)) \<or>
      (\<exists>q. n = ref_name nm q \<and> leaf_at q es = Some (FileN b))"
  proof -
    have "leaf_at q ((c, x) # es) = Some y \<longleftrightarrow>
        (\<exists>r. q = c # r \<and> (case x of DirN sub \<Rightarrow> leaf_at r sub | y \<Rightarrow> if r = [] then Some y else None) = Some y) \<or>
        leaf_at q es = Some y" for q y
      unfolding at using not by (cases q) (auto simp: leaf_at_def)
    from this [of _ "FileN b"] show ?thesis by (simp only:) blast
  qed
  moreover have "(n, b) \<in> set (case x of FileN b \<Rightarrow> [(join_path nm c, b)] | DirN sub \<Rightarrow> ref_files (join_path nm c) sub | _ \<Rightarrow> []) \<longleftrightarrow>
      (\<exists>r. n = ref_name nm (c # r) \<and> (case x of DirN sub \<Rightarrow> leaf_at r sub | y \<Rightarrow> if r = [] then Some y else None) = Some (FileN b))"
  proof (cases x)
    case (DirN sub)
    then show ?thesis using "2.IH"(1) [OF DirN wf(3) [OF DirN]] by (simp add: ref_name_Cons)
  qed (auto simp: ref_name_def)
  ultimately show ?case using "2.IH"(2) [OF wf(1)] by simp
qed

text \<open>The contents of a ref file that an export writes.\<close>

lemma hex_written:
  assumes "length i = 20"
  shows "trim (hex_encode i @ [newline]) = hex_encode i" "utf8_valid (hex_encode i @ [newline])"
    "\<not> prefix ''ref:'' (hex_encode i)"
proof -
  have hex: "solid c" if "c \<in> set (hex_encode i)" for c
    using hex_encode_range [OF that] hex_digit_ascii by (auto simp: solid_def hex_digit_byte)
  have ne: "hex_encode i \<noteq> []" using assms by (metis length_hex_encode list.size(3) mult_is_0 zero_neq_numeral)
  show "trim (hex_encode i @ [newline]) = hex_encode i"
  proof -
    obtain h where h: "h = hex_encode i" "h \<noteq> []" "solid (hd h)" "solid (last h)" using hex ne by auto
    have "\<not> prefix q (h @ t)" if "q \<in> set ws_chars" for q t
      using ws_chars_solid [OF that] h(2,3) by (cases q; cases h) auto
    then have 1: "strip_pats ws_chars (h @ t) = h @ t" for t by (intro strip_pats_none) blast
    have "find (\<lambda>q. q \<noteq> [] \<and> prefix q (newline # rev h)) (map rev ws_chars) = Some [newline]"
    proof -
      have "find P (map rev ws_chars) = Some [newline]" if "\<not> P [CHR 0x09]" "P [newline]" for P
      proof -
        have "map rev ws_chars = [CHR 0x09] # [newline] # drop 2 (map rev ws_chars)" by code_simp
        then show ?thesis using that by (metis find.simps(2))
      qed
      then show ?thesis by simp
    qed
    then have "strip_pats (map rev ws_chars) (newline # rev h) = strip_pats (map rev ws_chars) (rev h)"
      by (subst strip_pats.simps) simp
    then have "trim (h @ [newline]) = trim h"
      using 1 [of "[newline]"] 1 [of "[]"] by (simp add: trim_def)
    then show ?thesis using trim_solid [OF h(3,4,2)] h(1) by simp
  qed
  show "\<not> prefix ''ref:'' (hex_encode i)"
  proof
    assume "prefix ''ref:'' (hex_encode i)"
    then have "CHR ''r'' \<in> set (hex_encode i)" by (auto simp: prefix_def)
    then show False using hex_char_free [of "CHR ''r''" i] by auto
  qed
  show "utf8_valid (hex_encode i @ [newline])"
  proof -
    have "utf8_valid (s @ [newline])" if "\<forall>c\<in>set s. solid c" for s
      using that by (induction s) (auto simp: solid_def)
    then show ?thesis using hex by blast
  qed
qed

lemma parse_ref_written:
  "length i = 20 \<Longrightarrow> parse_ref_content name (hex_encode i @ [newline]) = Inr (OidRef i)"
  by (simp add: parse_ref_content_def hex_written oid_from_hex_encode)

text \<open>A tree of ref files.\<close>

definition ref_tree :: "dir \<Rightarrow> bool" where
  "ref_tree es \<longleftrightarrow>
     (\<forall>q x. leaf_at q es = Some x \<longrightarrow> (\<exists>i. x = FileN (hex_encode i @ [newline]) \<and> length i = 20)) \<and>
     (\<forall>q x. node_at q es = Some x \<longrightarrow> list_all utf8_valid q)"

definition file_oid :: "string \<Rightarrow> git_oid" where
  "file_oid b = (case oid_from_hex (trim b) of Inr i \<Rightarrow> i | Inl _ \<Rightarrow> [])"

definition put_oid :: "raw_refs \<Rightarrow> string \<times> string \<Rightarrow> raw_refs" where
  "put_oid raw f = AList.update (fst f) (OidRef (file_oid (snd f))) raw"

lemma file_oid_written: "length i = 20 \<Longrightarrow> file_oid (hex_encode i @ [newline]) = i"
  by (simp add: file_oid_def hex_written oid_from_hex_encode)

lemma ref_tree_Cons:
  assumes "ref_tree ((c, x) # es)" "wf_dir ((c, x) # es)"
  shows "ref_tree es" "utf8_valid c" "x = DirN sub \<Longrightarrow> ref_tree sub"
    "(\<exists>sub. x = DirN sub) \<or> (\<exists>i. x = FileN (hex_encode i @ [newline]) \<and> length i = 20)"
proof -
  have node: "node_at (c # q) ((c, x) # es) = sub_node q x" for q by (simp add: node_at_Cons)
  have rest: "node_at q ((c, x) # es) = node_at q es" if "q = [] \<Longrightarrow> False" "node_at q es \<noteq> None" for q
  proof -
    have "map_of es c = None" using assms(2) by (simp add: map_of_eq_None_iff)
    then show ?thesis using that by (cases q) (auto simp: node_at_Cons)
  qed
  have leaf: "leaf_at q ((c, x) # es) = leaf_at q es" if "leaf_at q es \<noteq> None" for q
    using rest [of q] that by (cases q) (auto simp: leaf_at_def split: option.splits)
  show "ref_tree es"
    unfolding ref_tree_def
  proof (intro conjI allI impI)
    fix q y assume "leaf_at q es = Some y"
    then show "\<exists>i. y = FileN (hex_encode i @ [newline]) \<and> length i = 20"
      using assms(1) leaf [of q] unfolding ref_tree_def by (metis option.distinct(1))
  next
    fix q y assume "node_at q es = Some y"
    then show "list_all utf8_valid q"
      using assms(1) rest [of q] unfolding ref_tree_def by (cases "q = []") auto
  qed
  show "utf8_valid c" using assms(1) node [of "[]"] by (auto simp: ref_tree_def)
  show "ref_tree sub" if x: "x = DirN sub"
    unfolding ref_tree_def
  proof (intro conjI allI impI)
    fix q y assume "leaf_at q sub = Some y"
    then have "leaf_at (c # q) ((c, x) # es) = Some y" by (simp add: leaf_at_def x node [unfolded x])
    then show "\<exists>i. y = FileN (hex_encode i @ [newline]) \<and> length i = 20" using assms(1) unfolding ref_tree_def by blast
  next
    fix q y assume "node_at q sub = Some y"
    then have "node_at (c # q) ((c, x) # es) = Some y" by (simp add: x node [unfolded x])
    then show "list_all utf8_valid q" using assms(1) unfolding ref_tree_def by fastforce
  qed
  show "(\<exists>sub. x = DirN sub) \<or> (\<exists>i. x = FileN (hex_encode i @ [newline]) \<and> length i = 20)"
  proof (cases "\<exists>sub. x = DirN sub")
    case False
    then have "leaf_at [c] ((c, x) # es) = Some x" using node [of "[]"] by (cases x) (auto simp: leaf_at_def)
    then show ?thesis using assms(1) unfolding ref_tree_def by blast
  qed blast
qed

lemma read_loose_refs_files:
  "wf_dir es \<Longrightarrow> ref_tree es \<Longrightarrow> read_loose_refs p nm es raw = Inr (foldl put_oid raw (ref_files nm es))"
proof (induction es arbitrary: p nm raw rule: wf_dir.induct)
  case (2 c x es)
  note t = ref_tree_Cons [OF "2.prems"(2,1)]
  have rest: "read_loose_refs p nm es raw = Inr (foldl put_oid raw (ref_files nm es))" for raw
    using "2.IH"(2) "2.prems"(1) t(1) by simp
  show ?case
  proof (cases x)
    case (DirN sub)
    then have "read_loose_refs (join_path p c) (join_path nm c) sub raw = Inr (foldl put_oid raw (ref_files (join_path nm c) sub))"
      using "2.IH"(1) "2.prems"(1) t(3) by simp
    then show ?thesis using DirN rest by (simp add: utf8_lossy_valid t(2))
  next
    case (FileN b)
    then obtain i where i: "b = hex_encode i @ [newline]" "length i = 20" using t(4) by auto
    have "read_to_string (join_path p c) (Some x) = Inr (Some b)"
      using hex_written(2) [OF i(2)] by (simp add: FileN i(1) read_to_string_def read_file_def)
    then show ?thesis using FileN rest parse_ref_written [OF i(2)] file_oid_written [OF i(2)] i(1)
      by (simp add: must_def utf8_lossy_valid t(2) put_oid_def [of raw] Let_def)
  qed (use t(4) in auto)
qed simp

lemma map_of_put_oids:
  "map_of (foldl put_oid raw kvs) n =
     (case map_of (rev kvs) n of Some b \<Rightarrow> Some (OidRef (file_oid b)) | None \<Rightarrow> map_of raw n)"
  by (induction kvs rule: rev_induct) (auto simp: put_oid_def update_conv' split: option.split)

text \<open>When every raw ref is an id, the refs are the raw refs.\<close>

lemma read_refs_direct:
  assumes raw: "read_raw_refs p d = Inr raw" and v: "\<And>n v. map_of raw n = Some v \<longleftrightarrow> (\<exists>i. v = OidRef i \<and> (n, i) \<in> set rs)"
    and rs: "distinct (map fst rs)"
  shows "read_refs p d = Inr (sort_key fst rs)"
proof -
  have res: "resolve_ref n raw 0 = Inr (Some i)" if "(n, i) \<in> set rs" for n i
    using that v [of n "OidRef i"] by (subst resolve_ref.simps) simp
  have "\<exists>out. resolve_names ns raw = Inr out" if "set ns \<subseteq> fst ` set rs" for ns
    using that
  proof (induction ns)
    case (Cons n ns)
    then obtain i out where "(n, i) \<in> set rs" "resolve_names ns raw = Inr out" by auto
    then show ?case using res by simp
  qed simp
  moreover have "set (sort (map fst raw)) \<subseteq> fst ` set rs"
  proof
    fix n assume "n \<in> set (sort (map fst raw))"
    then have "map_of raw n \<noteq> None" by (simp add: map_of_eq_None_iff)
    then show "n \<in> fst ` set rs" using v by force
  qed
  ultimately obtain out' where "resolve_names (sort (map fst raw)) raw = Inr out'" by blast
  then obtain out where out: "read_refs p d = Inr out" using raw by (simp add: read_refs_def)
  obtain raw' where s: "read_raw_refs p d = Inr raw'" "sorted (map fst out)" "distinct (map fst out)"
    "\<forall>n i. (n, i) \<in> set out \<longleftrightarrow> (\<exists>k\<le>8. names raw' n k i)" using read_refs_spec [OF out] by blast
  have n: "names raw n k i \<longleftrightarrow> k = 0 \<and> (n, i) \<in> set rs" for n k i
  proof
    assume "names raw n k i"
    then show "k = 0 \<and> (n, i) \<in> set rs" by cases (simp_all add: v)
  next
    assume "k = 0 \<and> (n, i) \<in> set rs"
    then show "names raw n k i" using v [of n "OidRef i"] names.direct [of raw n i] by simp
  qed
  have "raw' = raw" using s(1) raw by simp
  then have "(n, i) \<in> set out \<longleftrightarrow> (n, i) \<in> set rs" for n i
    unfolding s(4) [rule_format] by (simp add: n)
  then have "set out = set rs" by (simp add: set_eq_iff split_paired_all)
  then have "out = sort_key fst rs"
    using s(2,3) rs by (intro map_sorted_distinct_set_unique [of fst]) (auto simp: distinct_map)
  then show ?thesis using out by simp
qed

lemma exported_refs_below:
  assumes "good_refs (irefs imp)" "hd q \<noteq> ''objects''"
  shows "exported_files deflate imp q = Some b \<longleftrightarrow>
    (\<exists>n i. (n, i) \<in> set (irefs imp) \<and> q = ref_path n \<and> b = hex_encode i @ [newline])"
proof
  assume "exported_files deflate imp q = Some b"
  from exported_shape [OF this assms(1)] assms(2) have "ref_map (irefs imp) q = Some b" by (auto simp: object_file_eq)
  then have "(q, b) \<in> set (map (\<lambda>(n, i). (ref_path n, hex_encode i @ [newline])) (irefs imp))"
    unfolding ref_map_def by (rule map_of_SomeD)
  then show "\<exists>n i. (n, i) \<in> set (irefs imp) \<and> q = ref_path n \<and> b = hex_encode i @ [newline]" by auto
next
  assume "\<exists>n i. (n, i) \<in> set (irefs imp) \<and> q = ref_path n \<and> b = hex_encode i @ [newline]"
  then obtain n i where n: "(n, i) \<in> set (irefs imp)" "q = ref_path n" "b = hex_encode i @ [newline]" by blast
  have inj: "ref_path m = ref_path n \<longleftrightarrow> m = n" for m by (metis join_split_on ref_path_def)
  have "ref_map rs (ref_path n) = Some b" if "distinct (map fst rs)" "(n, i) \<in> set rs" for rs
    using that
  proof (induction rs)
    case (Cons r rs)
    obtain m j where r: "r = (m, j)" by (cases r)
    show ?case
    proof (cases "m = n")
      case True
      then have "j = i" using Cons.prems r by (metis distinct.simps(2) eq_key_imp_eq_value list.set_intros(1) list.simps(9))
      then show ?thesis using True r n(3) by (simp add: ref_map_def)
    next
      case False
      then show ?thesis using Cons r inj [of m] by (simp add: ref_map_def eq_commute)
    qed
  qed simp
  then show "exported_files deflate imp q = Some b"
    using assms(1) n by (simp add: exported_files_def good_refs_def)
qed

lemma exported_ref_tree:
  assumes h: "has_files [] (\<lambda>q. exported_files deflate imp (''refs'' # q)) es" and refs: "good_refs (irefs imp)"
  shows "ref_tree es"
proof -
  note F = exported_refs_below [OF refs, of _ deflate]
  have leaf: "\<exists>i. x = FileN (hex_encode i @ [newline]) \<and> length i = 20" if l: "leaf_at q es = Some x" for q x
  proof -
    obtain b where b: "exported_files deflate imp (''refs'' # q) = Some b" "x = FileN b"
      using l has_files_leaf [OF h, of q] by auto
    then obtain n i where "(n, i) \<in> set (irefs imp)" "x = FileN (hex_encode i @ [newline])"
      using F [of "''refs'' # q" b] by auto
    then show ?thesis using refs by (auto simp: good_refs_def)
  qed
  have valid: "list_all utf8_valid q" if e: "exported_files deflate imp (''refs'' # q @ r) \<noteq> None" for q r
  proof -
    obtain b where "exported_files deflate imp (''refs'' # q @ r) = Some b" using e by auto
    then obtain n i where "(n, i) \<in> set (irefs imp)" "''refs'' # q @ r = ref_path n" using F [of "''refs'' # q @ r" b] by auto
    then have "\<forall>c\<in>set (''refs'' # q @ r). utf8_valid c" using refs by (auto simp: good_refs_def good_ref_def)
    then show ?thesis by (simp add: list_all_iff)
  qed
  have "list_all utf8_valid q" if "node_at q es = Some x" for q x
  proof (cases "dir_at q es")
    case True
    then have "q = [] \<or> (\<exists>p. exported_files deflate imp (''refs'' # p) \<noteq> None \<and> strict_prefix q p)"
      using h unfolding has_files_def by auto
    then show ?thesis using valid [of q] by (auto simp: strict_prefix_def prefix_def)
  next
    case False
    then have "leaf_at q es \<noteq> None" using that by (auto simp: leaf_at_def dir_at_def split: fs_node.splits)
    then show ?thesis using has_files_leaf [OF h, of q] valid [of q "[]"] by auto
  qed
  then show ?thesis unfolding ref_tree_def using leaf by blast
qed

text \<open>The files that the refs are read from, with the names they are read under.\<close>

lemma read_raw_exported:
  assumes h: "has_files [] (exported_files deflate imp) d" and refs: "good_refs (irefs imp)"
  shows "\<exists>kvs. read_raw_refs p d = Inr (foldl put_oid [] kvs) \<and>
    (\<forall>n b. (n, b) \<in> set kvs \<longleftrightarrow> (\<exists>i. (n, i) \<in> set (irefs imp) \<and> b = hex_encode i @ [newline]))"
proof -
  let ?F = "exported_files deflate imp"
  note F = exported_refs_below [OF refs, of _ deflate]
  have shape: "q = [''HEAD''] \<or> (\<exists>cs. cs \<noteq> [] \<and> q = ''refs'' # cs)" if "?F q \<noteq> None" "hd q \<noteq> ''objects''" for q
    using that exported_shape [OF _ refs, of deflate q] by (auto simp: object_file_eq)
  have packed: "read_packed_refs p d [] = Inr []"
  proof -
    have "?F (''packed-refs'' # q) = None" for q
      using shape [of "''packed-refs'' # q"] by (cases "?F (''packed-refs'' # q)") auto
    then have "map_of d ''packed-refs'' = None"
      by (cases "map_of d ''packed-refs''") (auto elim: has_files_entry [OF h])
    then show ?thesis by (simp add: read_packed_refs_def read_to_string_def read_file_def)
  qed
  obtain kvs where loose:
      "\<And>raw. and_then (read_dir (join_path p ''refs'') (map_of d ''refs'')) (\<lambda>r.
         case r of None \<Rightarrow> Inr raw | Some es \<Rightarrow> read_loose_refs (join_path p ''refs'') ''refs'' es raw) = Inr (foldl put_oid raw kvs)"
    "\<And>n b. (n, b) \<in> set kvs \<longleftrightarrow> (\<exists>q. n = ref_name ''refs'' q \<and> ?F (''refs'' # q) = Some b)"
  proof (cases "map_of d ''refs''")
    case None
    then have "?F (''refs'' # q) = None" for q using has_files_names [OF h] by blast
    then show thesis using None by (intro that [of "[]"]) (simp_all add: read_dir_def)
  next
    case (Some x)
    have "?F [''refs''] = None" using shape [of "[''refs'']"] by (cases "?F [''refs'']") auto
    then obtain es where x: "x = DirN es" "has_files [] (\<lambda>q. ?F (''refs'' # q)) es"
      using has_files_entry [OF h Some] by (metis option.distinct(1))
    have wf: "wf_dir es" using x(2) by (simp add: has_files_def)
    have "read_loose_refs (join_path p ''refs'') ''refs'' es raw = Inr (foldl put_oid raw (ref_files ''refs'' es))" for raw
      by (rule read_loose_refs_files [OF wf exported_ref_tree [OF x(2) refs]])
    moreover have "(n, b) \<in> set (ref_files ''refs'' es) \<longleftrightarrow> (\<exists>q. n = ref_name ''refs'' q \<and> ?F (''refs'' # q) = Some b)" for n b
      unfolding ref_files_set [OF wf] has_files_leaf [OF x(2)] by simp
    ultimately show thesis using Some x(1) by (intro that [of "ref_files ''refs'' es"]) (simp_all add: read_dir_def)
  qed
  obtain hs where head: "\<And>raw. read_head p d raw = Inr (foldl put_oid raw hs)"
      "\<And>n b. (n, b) \<in> set hs \<longleftrightarrow> n = ''HEAD'' \<and> ?F [''HEAD''] = Some b"
  proof (cases "?F [''HEAD'']")
    case None
    then have "?F (''HEAD'' # q) = None" for q using shape [of "''HEAD'' # q"] by (cases "?F (''HEAD'' # q)") auto
    then have "map_of d ''HEAD'' = None" by (cases "map_of d ''HEAD''") (auto elim: has_files_entry [OF h])
    then show thesis using None by (intro that [of "[]"]) (simp_all add: read_head_def read_to_string_def read_file_def)
  next
    case (Some b)
    then obtain n i where i: "(n, i) \<in> set (irefs imp)" "b = hex_encode i @ [newline]" using F [of "[''HEAD'']" b] by auto
    then have len: "length i = 20" using refs by (auto simp: good_refs_def)
    have "leaf_at [''HEAD''] d = Some (FileN b)" using has_files_leaf [OF h] Some by simp
    then have "map_of d ''HEAD'' = Some (FileN b)"
      by (auto simp: leaf_at_def node_at_Cons bind_eq_Some_conv split: option.splits fs_node.splits)
    then show thesis using Some i(2) parse_ref_written [OF len] hex_written(2) [OF len] file_oid_written [OF len]
      by (intro that [of "[(''HEAD'', b)]"]) (auto simp: read_head_def read_to_string_def read_file_def put_oid_def)
  qed
  have "read_raw_refs p d = Inr (foldl put_oid [] (kvs @ hs))"
  proof -
    obtain r where "read_dir (join_path p ''refs'') (map_of d ''refs'') = Inr r"
      "(case r of None \<Rightarrow> Inr [] | Some es \<Rightarrow> read_loose_refs (join_path p ''refs'') ''refs'' es []) = Inr (foldl put_oid [] kvs)"
      using loose(1) [of "[]"] by (auto simp: res_simps)
    then show ?thesis using packed head(1) by (simp add: read_raw_refs_def Let_def)
  qed
  moreover have "(n, b) \<in> set (kvs @ hs) \<longleftrightarrow> (\<exists>i. (n, i) \<in> set (irefs imp) \<and> b = hex_encode i @ [newline])" for n b
  proof
    assume "(n, b) \<in> set (kvs @ hs)"
    then obtain q where q: "n = join_with CHR ''/'' q" "?F q = Some b" "q = [''HEAD''] \<or> (\<exists>r. q = ''refs'' # r)"
    proof -
      assume "(n, b) \<in> set (kvs @ hs)"
      then consider r where "n = ref_name ''refs'' r" "?F (''refs'' # r) = Some b" | "n = ''HEAD''" "?F [''HEAD''] = Some b"
        by (auto simp: loose(2) head(2))
      then show thesis
      proof cases
        case 1
        then show ?thesis by (intro that [of "''refs'' # r"]) (simp_all add: ref_name_join)
      next
        case 2
        then show ?thesis by (intro that [of "[''HEAD'']"]) simp_all
      qed
    qed
    then obtain m i where m: "(m, i) \<in> set (irefs imp)" "q = ref_path m" "b = hex_encode i @ [newline]"
      using F [of q b] by fastforce
    have "m = n" unfolding q(1) m(2) ref_path_def by simp
    then show "\<exists>i. (n, i) \<in> set (irefs imp) \<and> b = hex_encode i @ [newline]" using m by blast
  next
    assume "\<exists>i. (n, i) \<in> set (irefs imp) \<and> b = hex_encode i @ [newline]"
    then obtain i where i: "(n, i) \<in> set (irefs imp)" "b = hex_encode i @ [newline]" by blast
    then have sh: "ref_path n = [''HEAD''] \<or> (\<exists>cs. cs \<noteq> [] \<and> ref_path n = ''refs'' # cs)"
      using refs by (auto simp: good_refs_def good_ref_def)
    have "hd (ref_path n) \<noteq> ''objects''" using sh by (elim disjE exE conjE) simp_all
    then have f: "?F (ref_path n) = Some b" using F [of "ref_path n" b] i by blast
    have n: "n = join_with CHR ''/'' (ref_path n)" by (simp add: ref_path_def)
    from sh show "(n, b) \<in> set (kvs @ hs)"
    proof
      assume "ref_path n = [''HEAD'']"
      then show ?thesis using f n by (simp add: head(2))
    next
      assume "\<exists>cs. cs \<noteq> [] \<and> ref_path n = ''refs'' # cs"
      then obtain cs where cs: "ref_path n = ''refs'' # cs" by blast
      then have "n = ref_name ''refs'' cs" using n by (simp add: ref_name_join)
      then have "(n, b) \<in> set kvs" using f cs loose(2) by auto
      then show ?thesis by simp
    qed
  qed
  ultimately show ?thesis by blast
qed

lemma refs_exported:
  assumes "has_files [] (exported_files deflate imp) d" and refs: "good_refs (irefs imp)"
  shows "read_refs p d = Inr (sort_key fst (irefs imp))"
proof -
  obtain kvs where kvs: "read_raw_refs p d = Inr (foldl put_oid [] kvs)"
    "\<And>n b. (n, b) \<in> set kvs \<longleftrightarrow> (\<exists>i. (n, i) \<in> set (irefs imp) \<and> b = hex_encode i @ [newline])"
    using read_raw_exported [OF assms] by blast
  have d: "distinct (map fst (irefs imp))" and len: "\<And>n i. (n, i) \<in> set (irefs imp) \<Longrightarrow> length i = 20"
    using refs by (auto simp: good_refs_def)
  have fn: "b' = b" if "(n, b) \<in> set (rev kvs)" "(n, b') \<in> set (rev kvs)" for n b b'
    using that d by (auto simp: kvs(2) dest: eq_key_imp_eq_value)
  have m: "map_of (rev kvs) n = Some b \<longleftrightarrow> (\<exists>i. (n, i) \<in> set (irefs imp) \<and> b = hex_encode i @ [newline])" for n b
    using map_of_functional [of "rev kvs" n b, OF fn] by (simp add: kvs(2))
  have "map_of (foldl put_oid [] kvs) n = Some v \<longleftrightarrow> (\<exists>i. v = OidRef i \<and> (n, i) \<in> set (irefs imp))" for n v
  proof (cases "map_of (rev kvs) n")
    case None
    then have "\<nexists>i. (n, i) \<in> set (irefs imp)" using m [of n] by auto
    then show ?thesis using None by (simp add: map_of_put_oids)
  next
    case (Some b)
    then obtain i where i: "(n, i) \<in> set (irefs imp)" "b = hex_encode i @ [newline]" using m by blast
    have "(n, j) \<in> set (irefs imp) \<longleftrightarrow> j = i" for j using i(1) d by (auto dest: eq_key_imp_eq_value)
    then show ?thesis using Some i(2) file_oid_written [OF len [OF i(1)]] by (auto simp: map_of_put_oids)
  qed
  from read_refs_direct [OF kvs(1) this d] show ?thesis .
qed

section \<open>All object bytes\<close>

definition bytes_of :: "(string \<times> string) list \<Rightarrow> (git_oid \<rightharpoonup> git_object) \<Rightarrow> bool" where
  "bytes_of al m \<longleftrightarrow>
     distinct (map fst al) \<and> fst ` set al \<subseteq> range hex_encode \<and> (\<forall>i. map_of al (hex_encode i) = map_option encode (m i))"

lemma bytes_of_update: "bytes_of al m \<Longrightarrow> bytes_of (AList.update (hex_encode i) (encode ob) al) (m(i \<mapsto> ob))"
  by (auto simp: bytes_of_def distinct_update update_conv' hex_encode_inject dom_update)

lemma bytes_of_all:
  "bytes_of (foldl (\<lambda>m (i, ob). if map_of m (hex_encode i) = None then AList.update (hex_encode i) (encode ob) m else m)
     (foldl (\<lambda>m (i, ob). AList.update (hex_encode i) (encode ob) m) [] loose) packed) (merge_objects loose packed)"
proof -
  have 1: "bytes_of (foldl (\<lambda>m (i, ob). AList.update (hex_encode i) (encode ob) m) al loose) (foldl (\<lambda>m (i, ob). m(i \<mapsto> ob)) m loose)"
    if "bytes_of al m" for al m
    using that by (induction loose arbitrary: al m) (auto intro: bytes_of_update)
  have 2: "bytes_of (foldl (\<lambda>m (i, ob). if map_of m (hex_encode i) = None then AList.update (hex_encode i) (encode ob) m else m) al packed)
      (foldl (\<lambda>m (i, ob). if m i = None then m(i \<mapsto> ob) else m) m packed)" if "bytes_of al m" for al m
    using that
  proof (induction packed arbitrary: al m)
    case (Cons e packed)
    obtain i ob where e: "e = (i, ob)" by (cases e)
    have "map_of al (hex_encode i) = None \<longleftrightarrow> m i = None" using Cons.prems by (simp add: bytes_of_def)
    then show ?case
      using Cons.IH [OF Cons.prems] Cons.IH [OF bytes_of_update [OF Cons.prems, of i ob]]
      by (auto simp: e simp del: fun_upd_apply)
  qed simp
  have "bytes_of [] Map.empty" by (simp add: bytes_of_def)
  from 2 [OF 1 [OF this]] show ?thesis by (simp add: merge_objects_def)
qed

lemma bytes_of_equal:
  assumes "bytes_of al m" "bytes_of al' m'"
  shows "sort_key fst al = sort_key fst al' \<longleftrightarrow> (\<forall>i. map_option encode (m i) = map_option encode (m' i))"
proof -
  have "sort_key fst al = sort_key fst al' \<longleftrightarrow> set al = set al'"
  proof
    assume "set al = set al'"
    then show "sort_key fst al = sort_key fst al'"
      using assms by (intro map_sorted_distinct_set_unique [of fst]) (auto simp: distinct_map bytes_of_def)
  qed (metis set_sort)
  also have "\<dots> \<longleftrightarrow> map_of al = map_of al'" using assms map_of_inject_set [of al al'] by (simp add: bytes_of_def)
  also have "\<dots> \<longleftrightarrow> (\<forall>i. map_of al (hex_encode i) = map_of al' (hex_encode i))"
  proof (intro iffI ext)
    fix k assume a: "\<forall>i. map_of al (hex_encode i) = map_of al' (hex_encode i)"
    show "map_of al k = map_of al' k"
    proof (cases "k \<in> range hex_encode")
      case False
      then have "k \<notin> fst ` set al" "k \<notin> fst ` set al'" using assms by (auto simp: bytes_of_def)
      then have "map_of al k = None" "map_of al' k = None" by (simp_all add: map_of_eq_None_iff)
      then show ?thesis by simp
    qed (use a in auto)
  qed simp
  also have "\<dots> \<longleftrightarrow> (\<forall>i. map_option encode (m i) = map_option encode (m' i))" using assms by (simp add: bytes_of_def)
  finally show ?thesis .
qed

lemma all_object_bytes_Inr:
  "walk_loose sha1 inflate p d = Inr loose \<Longrightarrow> read_all_packs sha1 inflate p d = Inr packed \<Longrightarrow>
   \<exists>al. all_object_bytes sha1 inflate p d = Inr (sort_key fst al) \<and> bytes_of al (merge_objects loose packed)"
  using bytes_of_all [of loose packed] unfolding all_object_bytes_def by (intro exI conjI) simp_all

lemma merge_objects_loose: "merge_objects loose [] = map_of (rev loose)"
proof -
  have "foldl (\<lambda>m (i, ob). m(i \<mapsto> ob)) m loose = m ++ map_of (rev loose)" for m :: "git_oid \<rightharpoonup> git_object"
    by (induction loose arbitrary: m) (auto simp: map_add_def fun_eq_iff split: option.splits)
  then show ?thesis by (simp add: merge_objects_def)
qed

lemma merge_objects_set:
  assumes "set loose = set os" "distinct (map fst os)"
  shows "merge_objects loose [] = map_of os"
proof
  fix i
  have fn: "b' = b" if "(n, b) \<in> set (rev loose)" "(n, b') \<in> set (rev loose)" for n b b'
    using that assms by (auto dest: eq_key_imp_eq_value)
  have "map_of (rev loose) i = Some b \<longleftrightarrow> map_of os i = Some b" for b
    using map_of_functional [of "rev loose" i b, OF fn] assms by simp
  then show "merge_objects loose [] i = map_of os i"
    unfolding merge_objects_loose by (metis not_None_eq)
qed

section \<open>Properties\<close>

lemma export_read_back:
  assumes "zip_ok deflate inflate" "plain_path out" "wf_dir fs" "node_at out fs = Some (DirN [])"
    and os: "written_objects sha1 (git_objects imp)" and refs: "good_refs (irefs imp)"
  shows "\<exists>fs' d loose. export_repo sha1 deflate imp out fs =
      (Inr \<lparr>out_dir = out, eobjects = length (git_objects imp), erefs = length (irefs imp)\<rparr>, fs') \<and>
    (\<forall>q. \<not> prefix out q \<longrightarrow> leaf_at q fs' = leaf_at q fs) \<and>
    node_at out fs' = Some (DirN d) \<and> walk_loose sha1 inflate p d = Inr loose \<and> set loose = set (git_objects imp) \<and>
    read_all_packs sha1 inflate p d = Inr [] \<and> read_refs p d = Inr (sort_key fst (irefs imp))"
proof -
  have os': "distinct (map fst (git_objects imp))" "\<forall>(i, ob)\<in>set (git_objects imp). i = sha1 (encode ob)"
    using os by (auto simp: written_objects_def)
  obtain fs' where e: "export_repo sha1 deflate imp out fs =
      (Inr \<lparr>out_dir = out, eobjects = length (git_objects imp), erefs = length (irefs imp)\<rparr>, fs')"
    "has_files out (exported_files deflate imp) fs'" "\<forall>q. \<not> prefix out q \<longrightarrow> leaf_at q fs' = leaf_at q fs"
    using export_repo_spec [OF assms(1-4) os' refs] by blast
  obtain d where d: "node_at out fs' = Some (DirN d)" "has_files [] (exported_files deflate imp) d"
    using has_files_at [OF e(2)] by blast
  obtain loose where "walk_loose sha1 inflate p d = Inr loose" "set loose = set (git_objects imp)"
    using walk_exported [OF d(2) assms(1) os refs] by blast
  then show ?thesis using e(1,3) d(1) packs_exported [OF d(2) os refs] refs_exported [OF d(2) refs] by blast
qed

text \<open>C39: The round trip of an export: an import whose objects are under their hashes, with the ref
  names git allows, exports into an empty directory without an error, the report counts all
  objects and refs, no file outside the directory changes, and reading the directory back gives
  exactly the objects of the import, no packs and the refs in the order of their names.\<close>
theorem export_restores:
  assumes "zip_ok deflate inflate" "plain_path out" "wf_dir fs" "node_at out fs = Some (DirN [])"
    and "written_objects sha1 (git_objects imp)" "good_refs (irefs imp)"
  shows "\<exists>fs' d loose. export_repo sha1 deflate imp out fs =
      (Inr \<lparr>out_dir = out, eobjects = length (git_objects imp), erefs = length (irefs imp)\<rparr>, fs') \<and>
    (\<forall>q. \<not> prefix out q \<longrightarrow> leaf_at q fs' = leaf_at q fs) \<and>
    node_at out fs' = Some (DirN d) \<and> walk_loose sha1 inflate p d = Inr loose \<and> set loose = set (git_objects imp) \<and>
    read_all_packs sha1 inflate p d = Inr [] \<and> read_refs p d = Inr (sort_key fst (irefs imp))"
  using assms by (rule export_read_back)

text \<open>A source with one blob, its name the hash of a constant function, and an import of it; nothing is
compressed.\<close>

definition ex_source :: dir where
  "ex_source =
     [(''objects'', DirN [(''11'', DirN [(concat (replicate 19 ''11''), FileN (encode (Blob ''x'')))])])]"

definition ex_imported :: git_import where
  "ex_imported = \<lparr>oid_map = [], git_objects = [(ex_hash, Blob ''x'')], commit_dag = [], irefs = [(''HEAD'', ex_hash)],
     iblobs = 1, itrees = 0, icommits = 0, itags = 0\<rparr>"

lemma ex_zip_ok: "zip_ok Inr ex_inflate"
  by (simp add: zip_ok_def ex_inflate_def)

lemma ex_out: "plain_path [''o'']" "wf_dir [(''o'', DirN [])]" "node_at [''o''] [(''o'', DirN [])] = Some (DirN [])"
  by code_simp+

lemma ex_good_refs: "good_refs [(''HEAD'', ex_hash)]"
proof -
  have "ref_path ''HEAD'' = [''HEAD'']" "utf8_valid ''HEAD''" "length ex_hash = 20" by code_simp+
  then show ?thesis by (simp add: good_refs_def good_ref_def)
qed

lemma ex_blob_ok: "git_ok (Blob ''x'')" "length ex_hash = 20"
  by code_simp+

lemma export_restores_witness:
  "\<exists>fs' d loose. export_repo (\<lambda>_. ex_hash) Inr ex_imported [''o''] [(''o'', DirN [])] =
      (Inr \<lparr>out_dir = [''o''], eobjects = 1, erefs = 1\<rparr>, fs') \<and> node_at [''o''] fs' = Some (DirN d) \<and>
    walk_loose (\<lambda>_. ex_hash) ex_inflate ''o'' d = Inr loose \<and> set loose = {(ex_hash, Blob ''x'')} \<and>
    read_refs ''o'' d = Inr [(''HEAD'', ex_hash)]"
proof -
  have "written_objects (\<lambda>_. ex_hash) (git_objects ex_imported)"
    using ex_blob_ok by (simp add: written_objects_def ex_imported_def)
  moreover have "good_refs (irefs ex_imported)" using ex_good_refs by (simp add: ex_imported_def)
  ultimately show ?thesis
    using export_restores [OF ex_zip_ok ex_out, of "\<lambda>_. ex_hash" ex_imported "''o''"]
    by (auto simp: ex_imported_def)
qed

text \<open>C40: The gate on an import and its export: the objects of an exported repository are those of the
  source, byte for byte, exactly when the refs of the source reach all its objects. The objects of
  the source come from its loose files and packs.\<close>
theorem export_gate_exact:
  assumes src: "walk_loose sha1 inflate p d = Inr loose" "read_all_packs sha1 inflate p d = Inr packed"
      "\<forall>i ob. merge_objects loose packed i = Some ob \<longrightarrow> i = sha1 (encode ob) \<and> length i = 20"
      "repo_graph_ok (merge_objects loose packed)" "good_refs refs"
    and imp: "import_objects sha sha1 (merge_objects loose packed) refs store = Some (Inr imp, store')"
    and out: "zip_ok deflate inflate" "plain_path out" "wf_dir fs" "node_at out fs = Some (DirN [])"
  shows "\<exists>fs' d'. export_repo sha1 deflate imp out fs =
      (Inr \<lparr>out_dir = out, eobjects = length (git_objects imp), erefs = length refs\<rparr>, fs') \<and>
    node_at out fs' = Some (DirN d') \<and>
    export_matches_source sha1 inflate (p, d) (p', d') =
      Inr (dom (merge_objects loose packed) \<subseteq> reached (merge_objects loose packed) refs)"
proof -
  let ?objs = "merge_objects loose packed"
  have w: "walk_inv sha ?objs refs store [] imp store'" using import_objects_post [OF src(4), of sha sha1 refs store] imp by auto
  have m: "map_of (git_objects imp) = ?objs |` reached ?objs refs" using walk_inv_done(1) [OF w] .
  have r: "irefs imp = refs" and di: "distinct (map fst (git_objects imp))"
    using w by (simp_all add: walk_inv_def record_inv_def)
  have "i = sha1 (encode ob) \<and> length i = 20 \<and> git_ok ob" if "(i, ob) \<in> set (git_objects imp)" for i ob
  proof -
    have "map_of (git_objects imp) i = Some ob" using that di by simp
    then have "?objs i = Some ob" unfolding m by (simp add: restrict_map_def split: if_splits)
    then show ?thesis using src(3,4) by (simp add: repo_graph_ok_def)
  qed
  then have os: "written_objects sha1 (git_objects imp)" using di by (auto simp: written_objects_def)
  have refs: "good_refs (irefs imp)" using src(5) r by simp
  obtain fs' d' loose' where e: "export_repo sha1 deflate imp out fs =
      (Inr \<lparr>out_dir = out, eobjects = length (git_objects imp), erefs = length (irefs imp)\<rparr>, fs')"
    "node_at out fs' = Some (DirN d')" "walk_loose sha1 inflate p' d' = Inr loose'" "set loose' = set (git_objects imp)"
    "read_all_packs sha1 inflate p' d' = Inr []"
    using export_read_back [OF out os refs, of p'] by blast
  obtain al where al: "all_object_bytes sha1 inflate p d = Inr (sort_key fst al)" "bytes_of al ?objs"
    using all_object_bytes_Inr [OF src(1,2)] by blast
  obtain al' where al': "all_object_bytes sha1 inflate p' d' = Inr (sort_key fst al')" "bytes_of al' (map_of (git_objects imp))"
    using all_object_bytes_Inr [OF e(3,5)] merge_objects_set [OF e(4) di] by auto
  have "sort_key fst al = sort_key fst al' \<longleftrightarrow> dom ?objs \<subseteq> reached ?objs refs"
    unfolding bytes_of_equal [OF al(2) al'(2)] m by (force simp: restrict_map_def)
  then show ?thesis using e(1,2) al(1) al'(1) r by (auto simp: export_matches_source_def)
qed

lemma export_gate_exact_witness:
  "\<exists>imp fs' d'. export_repo (\<lambda>_. ex_hash) Inr imp [''o''] [(''o'', DirN [])] = (Inr \<lparr>out_dir = [''o''], eobjects = 1, erefs = 1\<rparr>, fs') \<and>
     node_at [''o''] fs' = Some (DirN d') \<and>
     export_matches_source (\<lambda>_. ex_hash) ex_inflate (''r'', ex_source) (''o'', d') = Inr True"
proof -
  let ?sha1 = "\<lambda>_ :: string. ex_hash" and ?refs = "[(''HEAD'', ex_hash)]"
  let ?objs = "merge_objects [(ex_hash, Blob ''x'')] []"
  have walk: "walk_loose ?sha1 ex_inflate ''r'' ex_source = Inr [(ex_hash, Blob ''x'')]" by code_simp
  have packs: "read_all_packs ?sha1 ex_inflate ''r'' ex_source = Inr []" by code_simp
  have objs: "?objs i = (if i = ex_hash then Some (Blob ''x'') else None)" for i by (simp add: merge_objects_def)
  have graph: "repo_graph_ok ?objs"
    using ex_blob_ok(1) by (auto simp: repo_graph_ok_def tree_edge_def merge_objects_def split: if_splits)
  have reach: "reached ?objs ?refs = {ex_hash}"
  proof
    show "reached ?objs ?refs \<subseteq> {ex_hash}"
      by (rule reached_least) (auto simp: objs succs_def split: if_splits)
  qed (use reached_root [of "(''HEAD'', ex_hash)" ?refs ?objs] in simp)
  have imp: "\<forall>i\<in>reached ?objs ?refs. importable ex_sha ?objs i"
    unfolding reach by (auto simp: importable_def objs)
  obtain imp store' where i: "import_objects ex_sha ?sha1 ?objs ?refs Map.empty = Some (Inr imp, store')"
      "walk_inv ex_sha ?objs ?refs Map.empty [] imp store'"
  proof -
    obtain r store' where r: "import_objects ex_sha ?sha1 ?objs ?refs Map.empty = Some (r, store')"
      "case r of Inr imp \<Rightarrow> walk_inv ex_sha ?objs ?refs Map.empty [] imp store'
       | Inl _ \<Rightarrow> \<exists>i\<in>reached ?objs ?refs. \<not> importable ex_sha ?objs i"
      using import_objects_post [OF graph, of ex_sha ?sha1 ?refs Map.empty] by blast
    then show thesis using imp that by (cases r) auto
  qed
  have "map_of (git_objects imp) = ?objs |` {ex_hash}" "distinct (map fst (git_objects imp))"
    using walk_inv_done(1) [OF i(2)] i(2) unfolding reach by (simp_all add: walk_inv_def record_inv_def)
  moreover have "dom (?objs |` {ex_hash}) = {ex_hash}" by (auto simp: objs dom_def restrict_map_def)
  ultimately have "length (git_objects imp) = card {ex_hash}"
    using dom_map_of_conv_image_fst [of "git_objects imp"] distinct_card [of "map fst (git_objects imp)"] by simp
  then have n: "length (git_objects imp) = 1" by simp
  have id: "\<forall>i ob. ?objs i = Some ob \<longrightarrow> i = ex_hash \<and> length i = 20" using ex_blob_ok(2) by (simp add: objs split: if_splits)
  have "dom ?objs \<subseteq> reached ?objs ?refs" unfolding reach by (auto simp: objs split: if_splits)
  then show ?thesis
    using export_gate_exact [OF walk packs id graph ex_good_refs i(1) ex_zip_ok ex_out, where p' = "''o''"] n by auto
qed

text \<open>An object that no ref reaches is not exported, and the gate says so; a ref name of \<open>packed-refs\<close>
is not checked, so that an export can write outside its directory.\<close>

lemma packed_ref_escapes:
  "read_refs ''r'' [(''packed-refs'', FileN (concat (replicate 20 ''11'') @ '' refs/../../x''))] = Inr [(''refs/../../x'', ex_hash)] \<and>
   write_ref [''srv'', ''out''] ''refs/../../x'' ex_hash [(''srv'', DirN [(''out'', DirN [])])] =
     (Inr (), [(''srv'', DirN [(''out'', DirN [(''refs'', DirN [])]), (''x'', FileN (hex_encode ex_hash @ [newline]))])])"
  by code_simp

end
