(* ===== verification/GitWire.thy ===== *)
theory GitWire
  imports GitImport
begin

text \<open>
  The wire protocol of git over a local \<open>upload-pack\<close>: the pkt-lines of \<open>wire/pkt.rs\<close> and the
  client of \<open>wire/fetch.rs\<close>. A writer is the text written, a reader the text still to read. The
  server process is a parameter: what it writes before it has read anything, what it answers to
  the bytes of the client once these end, and whether it then exits with success. Writing to a
  pipe does not fail in the model, and a client that reads past what the server has written
  meets the end of the stream.
\<close>

section \<open>pkt-lines\<close>

definition FLUSH_PKT :: string where
  "FLUSH_PKT = ''0000''"

definition MAX_PAYLOAD :: nat where
  "MAX_PAYLOAD = 65535 - 4"

datatype pkt_line = PktData string | Flush | Delim | ResponseEnd

definition hex4 :: "nat \<Rightarrow> string" where
  "hex4 n = map hex_digit [n div 4096, n div 256 mod 16, n div 16 mod 16, n mod 16]"

definition write_pkt_line :: "string \<Rightarrow> git_error + string" where
  "write_pkt_line data =
     (if MAX_PAYLOAD < length data then Inl (WireProto ''pkt-line payload exceeds 65531 bytes'')
      else Inr (hex4 (length data + 4) @ data))"

definition write_flush :: string where
  "write_flush = FLUSH_PKT"

definition read_exact :: "nat \<Rightarrow> string \<Rightarrow> git_error + string \<times> string" where
  "read_exact n r =
     (if length r < n then Inl (Wire ''unexpected end of stream reading a pkt-line'')
      else Inr (take n r, drop n r))"

definition parse_hex4 :: "string \<Rightarrow> git_error + nat" where
  "parse_hex4 s =
     (if \<not> utf8_valid s then Inl (WireProto ''pkt-line length prefix is not ascii'')
      else ok_or (WireProto ''pkt-line length prefix is not hex'') (from_radix16 usize_limit s))"

definition read_pkt :: "string \<Rightarrow> git_error + pkt_line \<times> string" where
  "read_pkt r =
     and_then (read_exact 4 r) (\<lambda>(head, r).
     and_then (parse_hex4 head) (\<lambda>len.
       if len = 0 then Inr (Flush, r)
       else if len = 1 then Inr (Delim, r)
       else if len = 2 then Inr (ResponseEnd, r)
       else if len = 3 then Inl (WireProto ''pkt-line: reserved length 3'')
       else and_then (read_exact (len - 4) r) (\<lambda>(data, r). Inr (PktData data, r))))"

definition read_pkt_line :: "string \<Rightarrow> git_error + string option \<times> string" where
  "read_pkt_line r =
     and_then (read_pkt r) (\<lambda>(p, r).
       case p of PktData data \<Rightarrow> Inr (Some data, r) | _ \<Rightarrow> Inr (None, r))"

definition trim_trailing_newline :: "string \<Rightarrow> string" where
  "trim_trailing_newline ln = (if ln \<noteq> [] \<and> last ln = newline then butlast ln else ln)"

definition parse_ref_line :: "string \<Rightarrow> git_error + git_oid \<times> string" where
  "parse_ref_line ln =
     (case split_once CHR '' '' (trim_trailing_newline ln) of
        None \<Rightarrow> Inl (WireProto ''ref advertisement line has no space'')
      | Some (hex, name) \<Rightarrow>
          if \<not> utf8_valid hex then Inl (WireProto ''ref advertisement oid is not ascii'')
          else (case oid_from_hex hex of
              Inl _ \<Rightarrow> Inl (WireProto ''ref advertisement oid is not 40-hex'')
            | Inr i \<Rightarrow>
                if \<not> utf8_valid name then Inl (WireProto ''ref name is not utf-8'') else Inr (i, name)))"

section \<open>The advertisement\<close>

definition looks_like_ref_line :: "string \<Rightarrow> bool" where
  "looks_like_ref_line ln \<longleftrightarrow> 40 < length ln \<and> ln ! 40 = CHR '' '' \<and> list_all is_hex (take 40 ln)"

definition split_capabilities :: "string \<Rightarrow> bool \<Rightarrow> string \<times> string option" where
  "split_capabilities ln first =
     (if \<not> first then (ln, None)
      else (case split_once (CHR 0x00) ln of Some (r, caps) \<Rightarrow> (r, Some caps) | None \<Rightarrow> (ln, None)))"

lemma read_pkt_shorter: "read_pkt r = Inr (p, rest) \<Longrightarrow> length rest < length r"
  by (auto simp: read_pkt_def read_exact_def res_simps split: if_splits)

lemma read_pkt_line_shorter: "read_pkt_line r = Inr (p, rest) \<Longrightarrow> length rest < length r"
proof -
  assume "read_pkt_line r = Inr (p, rest)"
  then obtain q where "read_pkt r = Inr (q, rest)"
    by (auto simp: read_pkt_line_def res_simps split: pkt_line.splits) (metis pkt_line.exhaust)
  then show ?thesis by (rule read_pkt_shorter)
qed

text \<open>The capabilities are a set of which only membership is asked.\<close>

function advertised_lines ::
  "string \<Rightarrow> bool \<Rightarrow> (string \<times> git_oid) list \<Rightarrow> string list \<Rightarrow>
   git_error + ((string \<times> git_oid) list \<times> string list) \<times> string" where
  "advertised_lines r first refs caps =
     (case read_pkt_line r of
        Inl e \<Rightarrow> Inl e
      | Inr (None, r) \<Rightarrow> Inr ((refs, caps), r)
      | Inr (Some ln, r) \<Rightarrow>
          (let ln = trim_trailing_newline ln in
           if \<not> looks_like_ref_line ln then advertised_lines r False refs caps
           else (case split_capabilities ln first of (ref_part, cap_part) \<Rightarrow>
             let caps = (case cap_part of Some c \<Rightarrow> caps @ split_whitespace (utf8_lossy c) | None \<Rightarrow> caps) in
             (case parse_ref_line ref_part of
                Inl e \<Rightarrow> Inl e
              | Inr (i, name) \<Rightarrow>
                  if suffix ''^{}'' name then advertised_lines r False refs caps
                  else advertised_lines r False (refs @ [(name, i)]) caps))))"
  by pat_completeness auto
termination
  by (relation "measure (\<lambda>(r, first, refs, caps). length r)") (auto dest: read_pkt_line_shorter)

declare advertised_lines.simps [simp del]

definition read_advertisement :: "string \<Rightarrow> git_error + ((string \<times> git_oid) list \<times> string list) \<times> string" where
  "read_advertisement r =
     and_then (advertised_lines r True [] []) (\<lambda>((refs, caps), r). Inr ((sort_key fst refs, caps), r))"

section \<open>The request\<close>

definition negotiated_capabilities :: "string list \<Rightarrow> string list" where
  "negotiated_capabilities server_caps = (if ''ofs-delta'' \<in> set server_caps then [''ofs-delta''] else [])"

fun want_lines :: "git_oid list \<Rightarrow> nat \<Rightarrow> string list \<Rightarrow> git_error + string" where
  "want_lines [] k caps = Inr []"
| "want_lines (i # wants) k caps =
     (let ln = (if k = 0 \<and> caps \<noteq> [] then ''want '' @ hex_encode i @ '' '' @ join_with CHR '' '' caps @ [newline]
                else ''want '' @ hex_encode i @ [newline]) in
      and_then (write_pkt_line ln) (\<lambda>w. and_then (want_lines wants (k + 1) caps) (\<lambda>ws. Inr (w @ ws))))"

definition send_wants :: "git_oid list \<Rightarrow> string list \<Rightarrow> git_error + string" where
  "send_wants wants caps = and_then (want_lines wants 0 caps) (\<lambda>ws. Inr (ws @ write_flush))"

function read_until_nak :: "string \<Rightarrow> git_error + string" where
  "read_until_nak r =
     (case read_pkt_line r of
        Inl e \<Rightarrow> Inl e
      | Inr (None, r) \<Rightarrow> Inl (WireProto ''stream ended before NAK acknowledgement'')
      | Inr (Some ln, r) \<Rightarrow>
          (let tx = trim_trailing_newline ln in
           if tx = ''NAK'' then Inr r
           else if prefix ''ACK'' tx then read_until_nak r
           else Inl (WireProto ''unexpected pkt-line before packfile (expected NAK)'')))"
  by pat_completeness auto
termination by (relation "measure length") (auto dest: read_pkt_line_shorter)

declare read_until_nak.simps [simp del]

section \<open>The fetch\<close>

record upload_pack =
  advert :: string
  answer :: "string \<Rightarrow> string"
  exits_ok :: "string \<Rightarrow> bool"

record wire_fetch =
  wrefs :: "(string \<times> git_oid) list"
  wimport :: git_import
  pack_bytes :: nat

definition resolve_local_path :: "string \<Rightarrow> string" where
  "resolve_local_path url =
     (if prefix ''file://'' url
      then (let rest = drop 7 url in if prefix ''localhost'' rest then drop 9 rest else rest)
      else url)"

fun distinct_oids :: "git_oid list \<Rightarrow> git_oid list \<Rightarrow> git_oid list" where
  "distinct_oids [] seen = seen"
| "distinct_oids (i # is) seen = distinct_oids is (if i \<in> set seen then seen else seen @ [i])"

definition reap :: "upload_pack \<Rightarrow> string \<Rightarrow> git_error + unit" where
  "reap server sent = (if exits_ok server sent then Inr () else Inl (Wire ''upload-pack exited''))"

text \<open>The talk with the server: the refs, the pack received and its objects.\<close>

definition talk ::
  "(string \<Rightarrow> string) \<Rightarrow> inflater \<Rightarrow> upload_pack \<Rightarrow>
   git_error + (string \<times> git_oid) list \<times> nat \<times> (git_oid \<rightharpoonup> git_object)" where
  "talk sha1 inflate server =
     and_then (read_advertisement (advert server)) (\<lambda>((refs, server_caps), r).
     let wants = distinct_oids (map snd refs) [] in
     if wants = [] then and_then (reap server write_flush) (\<lambda>_. Inr (refs, 0, Map.empty))
     else
       and_then (send_wants wants (negotiated_capabilities server_caps)) (\<lambda>w.
       and_then (write_pkt_line (''done'' @ [newline])) (\<lambda>dn.
       let sent = w @ dn in
       and_then (read_until_nak (r @ answer server sent)) (\<lambda>pack.
       and_then (reap server sent) (\<lambda>_.
         if pack = [] then Inl (WireProto ''server sent an empty packfile'')
         else and_then (parse_pack_bytes sha1 inflate pack) (\<lambda>os.
           Inr (refs, length pack, foldl (\<lambda>m (i, ob). if m i = None then m(i \<mapsto> ob) else m) Map.empty os)))))))"

definition fetch_local ::
  "(string \<Rightarrow> string) \<Rightarrow> (string \<Rightarrow> string) \<Rightarrow> inflater \<Rightarrow> (string \<Rightarrow> git_error + upload_pack) \<Rightarrow> string \<Rightarrow>
   object_files \<Rightarrow> ((git_error + wire_fetch) \<times> object_files) option" where
  "fetch_local sha sha1 inflate spawn url fs =
     (case and_then (spawn (resolve_local_path url)) (talk sha1 inflate) of
        Inl e \<Rightarrow> Some (Inl e, fs)
      | Inr (refs, n, objs) \<Rightarrow>
          Option.bind (import_objects sha sha1 objs refs fs) (\<lambda>(r, fs1).
            case r of
              Inl e \<Rightarrow> Some (Inl e, fs1)
            | Inr imp \<Rightarrow> Some (Inr \<lparr>wrefs = refs, wimport = imp, pack_bytes = n\<rparr>, fs1)))"

definition decode_wire_pack :: "(string \<Rightarrow> string) \<Rightarrow> inflater \<Rightarrow> string \<Rightarrow> git_error + (git_oid \<times> git_object) list" where
  "decode_wire_pack = parse_pack_bytes"

section \<open>Frames\<close>

definition frame :: "string \<Rightarrow> string" where
  "frame data = hex4 (length data + 4) @ data"

lemma parse_hex4_hex4:
  assumes "n < 65536"
  shows "parse_hex4 (hex4 n) = Inr n"
proof -
  have d: "n div 4096 < 16" "n div 256 mod 16 < 16" "n div 16 mod 16 < 16" "n mod 16 < 16" using assms by auto
  have "n div 4096 = n div 16 div 16 div 16" "n div 256 = n div 16 div 16" by (simp_all add: div_mult2_eq [symmetric])
  then have "16 * (16 * (16 * (n div 4096) + n div 256 mod 16) + n div 16 mod 16) + n mod 16 = n"
    by (simp only: mult_div_mod_eq)
  moreover have "hex_digit (n div 4096) \<noteq> CHR ''+''"
    using hex_digit_byte [OF d(1)] by (auto split: if_splits)
  moreover have "n < usize_limit" using assms by simp
  ultimately have "from_radix16 usize_limit (hex4 n) = Some n"
    using d by (simp add: from_radix16_def hex4_def Let_def)
  moreover have "utf8_valid (hex4 n)" using d hex_digit_ascii by (simp add: hex4_def)
  ultimately show ?thesis by (simp add: parse_hex4_def)
qed

lemma write_pkt_line_Inr: "write_pkt_line data = Inr w \<longleftrightarrow> length data \<le> MAX_PAYLOAD \<and> w = frame data"
  by (auto simp: write_pkt_line_def frame_def)

lemma read_pkt_frame: "length data \<le> MAX_PAYLOAD \<Longrightarrow> read_pkt (frame data @ rest) = Inr (PktData data, rest)"
proof -
  assume a: "length data \<le> MAX_PAYLOAD"
  have len: "length (hex4 n) = 4" for n by (simp add: hex4_def)
  have "parse_hex4 (hex4 (length data + 4)) = Inr (length data + 4)"
    using a by (intro parse_hex4_hex4) (simp add: MAX_PAYLOAD_def)
  then show ?thesis by (simp add: read_pkt_def read_exact_def frame_def len)
qed

lemma read_pkt_flush: "read_pkt (FLUSH_PKT @ rest) = Inr (Flush, rest)"
proof -
  have "parse_hex4 ''0000'' = Inr 0" by code_simp
  then show ?thesis by (simp add: read_pkt_def read_exact_def FLUSH_PKT_def)
qed

definition data_opt :: "string \<Rightarrow> (string \<times> string) option" where
  "data_opt r = (case read_pkt r of Inr (PktData data, rest) \<Rightarrow> Some (data, rest) | _ \<Rightarrow> None)"

interpretation pkt_codec: stream_codec frame data_opt "\<lambda>data. length data \<le> MAX_PAYLOAD"
  by unfold_locales (simp add: data_opt_def read_pkt_frame)

lemma read_pkt_line_frame: "length data \<le> MAX_PAYLOAD \<Longrightarrow> read_pkt_line (frame data @ rest) = Inr (Some data, rest)"
  by (simp add: read_pkt_line_def read_pkt_frame)

lemma read_pkt_line_flush: "read_pkt_line (FLUSH_PKT @ rest) = Inr (None, rest)"
  by (simp add: read_pkt_line_def read_pkt_flush)

section \<open>What a server sends\<close>

text \<open>The advertisement of a repository: its refs, the tags that are peeled among them, the
capabilities after the first; and the request the client makes for the ids of its refs.\<close>

definition ref_text :: "string \<times> git_oid \<Rightarrow> string" where
  "ref_text r = hex_encode (snd r) @ CHR '' '' # fst r"

definition advertise :: "string list \<Rightarrow> (string \<times> git_oid) list \<Rightarrow> string" where
  "advertise caps rs =
     (case rs of
        [] \<Rightarrow> []
      | r # rs \<Rightarrow> frame (ref_text r @ CHR 0x00 # join_with CHR '' '' caps @ [newline]) @
          concat (map (\<lambda>r. frame (ref_text r @ [newline])) rs)) @ FLUSH_PKT"

definition request :: "string list \<Rightarrow> git_oid list \<Rightarrow> string" where
  "request caps wants =
     (case wants of
        [] \<Rightarrow> []
      | i # is \<Rightarrow> frame (''want '' @ hex_encode i @ (if caps = [] then [] else CHR '' '' # join_with CHR '' '' caps) @ [newline]) @
          concat (map (\<lambda>i. frame (''want '' @ hex_encode i @ [newline])) is)) @ FLUSH_PKT @ frame (''done'' @ [newline])"

definition cap_ok :: "string \<Rightarrow> bool" where
  "cap_ok c \<longleftrightarrow> c \<noteq> [] \<and> (\<forall>x\<in>set c. solid x)"

definition advert_ok :: "string list \<Rightarrow> (string \<times> git_oid) list \<Rightarrow> bool" where
  "advert_ok caps rs \<longleftrightarrow>
     (\<forall>c\<in>set caps. cap_ok c) \<and>
     (\<forall>(n, i)\<in>set rs. length i = 20 \<and> utf8_valid n \<and> CHR 0x00 \<notin> set n \<and> newline \<notin> set n \<and>
        length n + length (join_with CHR '' '' caps) \<le> 65000)"

lemma words_solid:
  assumes "\<forall>x\<in>set w. solid x" "w \<noteq> []"
  shows "words_from cur (w @ s) = words_from (cur @ w) s"
  using assms
proof (induction w arbitrary: cur)
  case (Cons x w)
  have "\<not> prefix p (x # w @ s)" if "p \<in> set ws_chars" for p
    using ws_chars_solid [OF that] Cons.prems(1) by (cases p) auto
  then have "find (\<lambda>p. p \<noteq> [] \<and> prefix p (x # w @ s)) ws_chars = None" by (auto simp: find_None_iff)
  then have "words_from cur ((x # w) @ s) = words_from (cur @ [x]) (w @ s)" by (subst words_from.simps) simp
  then show ?case using Cons.IH [of "cur @ [x]"] Cons.prems(1) by (cases "w = []") auto
qed simp

lemma words_space: "words_from cur (CHR '' '' # s) = (if cur = [] then [] else [cur]) @ words_from [] s"
proof -
  have "find (\<lambda>p. p \<noteq> [] \<and> prefix p (CHR '' '' # s)) ws_chars = Some [CHR '' '']"
  proof -
    have ws: "ws_chars = [CHR 0x09] # [newline] # [CHR 0x0B] # [CHR 0x0C] # [CHR 0x0D] # [CHR '' ''] # drop 6 ws_chars" by code_simp
    show ?thesis by (subst ws) simp
  qed
  then show ?thesis by (subst words_from.simps) (simp add: Let_def)
qed

lemma split_whitespace_join:
  assumes "\<forall>c\<in>set caps. cap_ok c"
  shows "split_whitespace (join_with CHR '' '' caps) = caps"
  unfolding split_whitespace_def using assms
proof (induction caps)
  case Nil
  then show ?case by (simp add: words_from.simps [of "[]" "[]"])
next
  case (Cons c caps)
  have c: "c \<noteq> []" "\<forall>x\<in>set c. solid x" using Cons.prems by (auto simp: cap_ok_def)
  have fin: "words_from c [] = [c]" using c(1) by (subst words_from.simps) simp
  show ?case
  proof (cases caps)
    case Nil
    then show ?thesis using words_solid [OF c(2,1), of "[]" "[]"] fin by simp
  next
    case s: (Cons d ds)
    then have "words_from [] (join_with CHR '' '' (c # caps)) = words_from [] (c @ CHR '' '' # join_with CHR '' '' caps)" by simp
    also have "\<dots> = c # words_from [] (join_with CHR '' '' caps)"
      using words_solid [OF c(2,1), of "[]"] c(1) by (simp add: words_space)
    finally show ?thesis using Cons.IH Cons.prems by simp
  qed
qed

section \<open>The client reads what the server sends\<close>

lemma trim_line [simp]: "trim_trailing_newline (s @ [newline]) = s"
  by (simp add: trim_trailing_newline_def)

lemma hex_text:
  assumes "length i = 20"
  shows "looks_like_ref_line (hex_encode i @ CHR '' '' # n)"
    "split_once CHR '' '' (hex_encode i @ CHR '' '' # n) = Some (hex_encode i, n)"
    "utf8_valid (hex_encode i)"
proof -
  have hex: "is_hex c \<and> solid c" if "c \<in> set (hex_encode i)" for c
    using hex_encode_range [OF that] hex_digit_ascii by (auto simp: is_hex_def solid_def hex_digit_byte)
  then show "looks_like_ref_line (hex_encode i @ CHR '' '' # n)"
    using assms by (simp add: looks_like_ref_line_def nth_append list_all_iff)
  have split: "split_once CHR '' '' (s @ CHR '' '' # n) = Some (s, n)" if "CHR '' '' \<notin> set s" for s
    using that by (induction s) auto
  have "CHR '' '' \<notin> set (hex_encode i)" using hex [of "CHR '' ''"] by (auto simp: solid_def)
  then show "split_once CHR '' '' (hex_encode i @ CHR '' '' # n) = Some (hex_encode i, n)" by (rule split)
  show "utf8_valid (hex_encode i)" using hex_encode_ascii by (rule utf8_valid_all_ascii)
qed

lemma parse_ref_text:
  assumes "length i = 20" "utf8_valid n" "newline \<notin> set n"
  shows "parse_ref_line (ref_text (n, i)) = Inr (i, n)"
proof -
  have "trim_trailing_newline (ref_text (n, i)) = ref_text (n, i)"
    using assms(3) by (cases n rule: rev_cases) (auto simp: trim_trailing_newline_def ref_text_def)
  then show ?thesis
    using hex_text [OF assms(1)] assms(2) oid_from_hex_encode [OF assms(1)] by (simp add: parse_ref_line_def ref_text_def)
qed

definition unpeeled :: "(string \<times> git_oid) list \<Rightarrow> (string \<times> git_oid) list" where
  "unpeeled rs = filter (\<lambda>r. \<not> suffix ''^{}'' (fst r)) rs"

lemma advertised_next:
  assumes "length i = 20" "utf8_valid n" "newline \<notin> set n" "CHR 0x00 \<notin> set n" "length n \<le> 65000"
  shows "advertised_lines (frame (ref_text (n, i) @ [newline]) @ rest) False refs caps =
    advertised_lines rest False (refs @ unpeeled [(n, i)]) caps"
proof -
  have "length (ref_text (n, i) @ [newline]) \<le> MAX_PAYLOAD" using assms by (simp add: ref_text_def MAX_PAYLOAD_def)
  moreover have "looks_like_ref_line (ref_text (n, i))" using hex_text(1) [OF assms(1)] by (simp add: ref_text_def)
  ultimately show ?thesis
    by (subst advertised_lines.simps)
       (simp add: read_pkt_line_frame split_capabilities_def Let_def parse_ref_text [OF assms(1-3)] unpeeled_def
        del: append_assoc)
qed

lemma advertised_first:
  assumes "length i = 20" "utf8_valid n" "newline \<notin> set n" "CHR 0x00 \<notin> set n"
    "length n + length (join_with CHR '' '' caps) \<le> 65000" "\<forall>c\<in>set caps. cap_ok c"
  shows "advertised_lines (frame (ref_text (n, i) @ CHR 0x00 # join_with CHR '' '' caps @ [newline]) @ rest) True [] [] =
    advertised_lines rest False (unpeeled [(n, i)]) caps"
proof -
  let ?ln = "ref_text (n, i) @ CHR 0x00 # join_with CHR '' '' caps"
  have len: "length (?ln @ [newline]) \<le> MAX_PAYLOAD" using assms by (simp add: ref_text_def MAX_PAYLOAD_def)
  have look: "looks_like_ref_line ?ln"
    using hex_text(1) [OF assms(1), of "n @ CHR 0x00 # join_with CHR '' '' caps"] by (simp add: ref_text_def)
  have "CHR 0x00 \<notin> set (hex_encode i)" using hex_char_free [of "CHR 0x00" i] by auto
  then have free: "CHR 0x00 \<notin> set (ref_text (n, i))" using assms(4) by (simp add: ref_text_def)
  have "split_once (CHR 0x00) (s @ CHR 0x00 # t) = Some (s, t)" if "CHR 0x00 \<notin> set s" for s t
    using that by (induction s) auto
  from this [OF free] have split: "split_capabilities ?ln True = (ref_text (n, i), Some (join_with CHR '' '' caps))"
    by (simp add: split_capabilities_def)
  have "\<forall>x\<in>set (join_with CHR '' '' cs). byte x < 128" if "\<forall>c\<in>set cs. cap_ok c" for cs
    using that
  proof (induction cs)
    case (Cons c cs)
    then show ?case by (cases cs) (auto simp: cap_ok_def solid_def)
  qed simp
  then have "utf8_valid (join_with CHR '' '' caps)" using assms(6) by (intro utf8_valid_all_ascii) (simp add: list_all_iff)
  then have words: "split_whitespace (utf8_lossy (join_with CHR '' '' caps)) = caps"
    using split_whitespace_join [OF assms(6)] by (simp add: utf8_lossy_valid)
  have "read_pkt_line (frame (?ln @ [newline]) @ rest) = Inr (Some (?ln @ [newline]), rest)"
    using read_pkt_line_frame [OF len] .
  moreover have "frame (ref_text (n, i) @ CHR 0x00 # join_with CHR '' '' caps @ [newline]) = frame (?ln @ [newline])" by simp
  ultimately show ?thesis
    by (subst advertised_lines.simps)
       (simp add: Let_def look split words parse_ref_text [OF assms(1-3)] unpeeled_def del: append_assoc append_Cons)
qed

lemma advertised_rest:
  assumes "\<forall>(n, i)\<in>set rs. length i = 20 \<and> utf8_valid n \<and> CHR 0x00 \<notin> set n \<and> newline \<notin> set n \<and> length n \<le> 65000"
  shows "advertised_lines (concat (map (\<lambda>r. frame (ref_text r @ [newline])) rs) @ FLUSH_PKT @ rest) False refs caps =
    Inr ((refs @ unpeeled rs, caps), rest)"
  using assms
proof (induction rs arbitrary: refs)
  case Nil
  then show ?case by (subst advertised_lines.simps) (simp add: read_pkt_line_flush unpeeled_def)
next
  case (Cons r rs)
  obtain n i where r: "r = (n, i)" by (cases r)
  have "unpeeled (r # rs) = unpeeled [(n, i)] @ unpeeled rs" by (simp add: unpeeled_def r)
  then show ?case using Cons.prems Cons.IH advertised_next [of i n] by (simp add: r)
qed

lemma read_advertisement_advertise:
  assumes "advert_ok caps rs"
  shows "read_advertisement (advertise caps rs @ rest) = Inr ((sort_key fst (unpeeled rs), if rs = [] then [] else caps), rest)"
proof (cases rs)
  case Nil
  then show ?thesis
    by (simp add: advertise_def read_advertisement_def advertised_lines.simps [of "FLUSH_PKT @ rest"] read_pkt_line_flush unpeeled_def)
next
  case (Cons r rs')
  obtain n i where r: "r = (n, i)" by (cases r)
  have rest: "\<forall>(n, i)\<in>set rs'. length i = 20 \<and> utf8_valid n \<and> CHR 0x00 \<notin> set n \<and> newline \<notin> set n \<and> length n \<le> 65000"
    using assms by (auto simp: advert_ok_def Cons)
  have u: "unpeeled [(n, i)] @ unpeeled rs' = unpeeled rs" by (simp add: unpeeled_def Cons r)
  have "advertised_lines (advertise caps rs @ rest) True [] [] = Inr ((unpeeled rs, caps), rest)"
    using assms advertised_first [of i n caps] advertised_rest [OF rest]
    by (simp add: advert_ok_def advertise_def Cons r u [unfolded Cons r])
  then show ?thesis by (simp add: read_advertisement_def Cons)
qed

section \<open>The request and the answer\<close>

lemma want_lines_rest:
  "0 < k \<Longrightarrow> \<forall>i\<in>set wants. length i = 20 \<Longrightarrow>
   want_lines wants k caps = Inr (concat (map (\<lambda>i. frame (''want '' @ hex_encode i @ [newline])) wants))"
proof (induction wants arbitrary: k)
  case (Cons i wants)
  have "write_pkt_line (''want '' @ hex_encode i @ [newline]) = Inr (frame (''want '' @ hex_encode i @ [newline]))"
    using Cons.prems(2) by (simp add: write_pkt_line_Inr MAX_PAYLOAD_def)
  then show ?case using Cons by (simp add: Let_def)
qed simp

lemma send_request:
  assumes "wants \<noteq> []" "\<forall>i\<in>set wants. length i = 20" "length (join_with CHR '' '' caps) \<le> 1000"
  shows "\<exists>w dn. send_wants wants caps = Inr w \<and> write_pkt_line (''done'' @ [newline]) = Inr dn \<and> w @ dn = request caps wants"
proof -
  obtain i ws where w: "wants = i # ws" using assms(1) by (cases wants) auto
  let ?ln = "''want '' @ hex_encode i @ (if caps = [] then [] else CHR '' '' # join_with CHR '' '' caps) @ [newline]"
  have "write_pkt_line ?ln = Inr (frame ?ln)" using assms(2,3) by (simp add: write_pkt_line_Inr MAX_PAYLOAD_def w)
  then have "want_lines wants 0 caps = Inr (frame ?ln @ concat (map (\<lambda>i. frame (''want '' @ hex_encode i @ [newline])) ws))"
    using want_lines_rest [of 1 ws caps] assms(2) by (cases "caps = []") (simp_all add: w Let_def)
  moreover have "write_pkt_line (''done'' @ [newline]) = Inr (frame (''done'' @ [newline]))"
    by (simp add: write_pkt_line_Inr MAX_PAYLOAD_def)
  ultimately show ?thesis by (simp add: send_wants_def write_flush_def request_def w)
qed

lemma read_until_nak_frame: "read_until_nak (frame (''NAK'' @ [newline]) @ pack) = Inr pack"
proof -
  have "read_pkt_line (frame (''NAK'' @ [newline]) @ pack) = Inr (Some (''NAK'' @ [newline]), pack)"
    by (rule read_pkt_line_frame) (simp add: MAX_PAYLOAD_def)
  moreover have "trim_trailing_newline (''NAK'' @ [newline]) = ''NAK''" by (rule trim_line)
  ultimately show ?thesis by (subst read_until_nak.simps) simp
qed

lemma distinct_oids_spec: "distinct seen \<Longrightarrow> distinct (distinct_oids is seen) \<and> set (distinct_oids is seen) = set is \<union> set seen"
  by (induction "is" seen rule: distinct_oids.induct) auto

lemma first_wins: "foldl (\<lambda>m (i, ob). if m i = None then m(i \<mapsto> ob) else m) m os = map_of os ++ m"
proof (induction os arbitrary: m)
  case (Cons e os)
  obtain i ob where "e = (i, ob)" by (cases e)
  show ?case
  proof (cases "m i")
    case None
    have "map_of os ++ m(i \<mapsto> ob) = map_of (e # os) ++ m"
      using None \<open>e = (i, ob)\<close> by (auto simp: map_add_def fun_eq_iff split: option.split)
    then show ?thesis using None Cons [of "m(i \<mapsto> ob)"] \<open>e = (i, ob)\<close> by (simp del: fun_upd_apply)
  next
    case (Some x)
    have "map_of os ++ m = map_of (e # os) ++ m"
      using Some \<open>e = (i, ob)\<close> by (auto simp: map_add_def fun_eq_iff split: option.split)
    then show ?thesis using Some Cons [of m] \<open>e = (i, ob)\<close> by (simp del: fun_upd_apply)
  qed
qed simp

text \<open>A server that serves a graph of objects: it advertises its refs, and to a request for the ids of
all of them it answers a NAK and a pack with the objects they reach.\<close>

definition clone_refs :: "(string \<times> git_oid) list \<Rightarrow> (string \<times> git_oid) list" where
  "clone_refs rs = sort_key fst (unpeeled rs)"

definition serves ::
  "(string \<Rightarrow> string) \<Rightarrow> inflater \<Rightarrow> upload_pack \<Rightarrow> string list \<Rightarrow> (string \<times> git_oid) list \<Rightarrow> (git_oid \<rightharpoonup> git_object) \<Rightarrow> string \<Rightarrow> bool" where
  "serves sha1 inflate server caps rs objs pack \<longleftrightarrow>
     advert_ok caps rs \<and> advert server = advertise caps rs \<and> pack \<noteq> [] \<and>
     (\<forall>wants. distinct wants \<longrightarrow> set wants = snd ` set (clone_refs rs) \<longrightarrow>
        (let sent = request (negotiated_capabilities caps) wants in
         exits_ok server sent \<and> answer server sent = frame (''NAK'' @ [newline]) @ pack)) \<and>
     (\<exists>os. parse_pack_bytes sha1 inflate pack = Inr os \<and>
        (\<forall>i ob. (i, ob) \<in> set os \<longleftrightarrow> i \<in> reached objs (clone_refs rs) \<and> objs i = Some ob))"

lemma talk_serves:
  assumes s: "serves sha1 inflate server caps rs objs pack" and ne: "clone_refs rs \<noteq> []"
  shows "talk sha1 inflate server = Inr (clone_refs rs, length pack, objs |` reached objs (clone_refs rs))"
proof -
  have ok: "advert_ok caps rs" and ad: "advert server = advertise caps rs" using s by (simp_all add: serves_def)
  have "rs \<noteq> []" using ne by (auto simp: clone_refs_def unpeeled_def)
  then have read: "read_advertisement (advert server) = Inr ((clone_refs rs, caps), [])"
    using read_advertisement_advertise [OF ok, of "[]"] by (simp add: ad clone_refs_def)
  let ?ws = "distinct_oids (map snd (clone_refs rs)) []"
  have ws: "distinct ?ws" "set ?ws = snd ` set (clone_refs rs)" using distinct_oids_spec [of "[]"] by auto
  then have ws_ne: "?ws \<noteq> []" using ne by (metis image_is_empty set_empty)
  have len: "\<forall>i\<in>set ?ws. length i = 20" using ok unfolding ws(2) by (auto simp: clone_refs_def unpeeled_def advert_ok_def)
  obtain w dn where w: "send_wants ?ws (negotiated_capabilities caps) = Inr w"
    "write_pkt_line (''done'' @ [newline]) = Inr dn" "w @ dn = request (negotiated_capabilities caps) ?ws"
  proof -
    have "length (join_with CHR '' '' (negotiated_capabilities caps)) \<le> 1000" by (simp add: negotiated_capabilities_def)
    from send_request [OF ws_ne len this] show thesis using that by blast
  qed
  have sent: "exits_ok server (w @ dn)" "answer server (w @ dn) = frame (''NAK'' @ [newline]) @ pack"
    using s ws unfolding serves_def w(3) by (simp_all add: Let_def)
  obtain os where os: "parse_pack_bytes sha1 inflate pack = Inr os"
    "\<And>i ob. (i, ob) \<in> set os \<longleftrightarrow> i \<in> reached objs (clone_refs rs) \<and> objs i = Some ob"
    using s by (auto simp: serves_def)
  have "map_of os i = (objs |` reached objs (clone_refs rs)) i" for i
  proof -
    have "map_of os i = Some b \<longleftrightarrow> (i, b) \<in> set os" for b
      by (rule map_of_functional) (use os(2) in auto)
    moreover have "(objs |` reached objs (clone_refs rs)) i = Some b \<longleftrightarrow> (i, b) \<in> set os" for b
      using os(2) [of i b] by (simp add: restrict_map_def)
    ultimately show ?thesis by (metis not_None_eq)
  qed
  then have map: "map_of os = objs |` reached objs (clone_refs rs)" by blast
  have "pack \<noteq> []" using s by (simp add: serves_def)
  then show ?thesis
    using read ws_ne w(1,2) sent os(1) read_until_nak_frame [of pack]
    by (simp add: talk_def Let_def reap_def first_wins map)
qed

section \<open>The graph a clone receives\<close>

lemma reached_restrict: "reached (objs |` reached objs rs) rs = reached objs rs"
proof
  show "reached (objs |` reached objs rs) rs \<subseteq> reached objs rs"
    by (rule reached_least) (use reached_root reached_step in \<open>auto simp: restrict_map_def split: if_splits\<close>)
  let ?R = "reached (objs |` reached objs rs) rs"
  have "reached objs rs \<subseteq> ?R \<inter> reached objs rs"
  proof (rule reached_least)
    show "snd ` set rs \<subseteq> ?R \<inter> reached objs rs" using reached_root [of _ rs] by auto
    fix i ob assume i: "i \<in> ?R \<inter> reached objs rs" "objs i = Some ob"
    then have "(objs |` reached objs rs) i = Some ob" by simp
    then show "set (succs ob) \<subseteq> ?R \<inter> reached objs rs" using i reached_step by blast
  qed
  then show "reached objs rs \<subseteq> ?R" by blast
qed

lemma repo_graph_ok_restrict: "repo_graph_ok objs \<Longrightarrow> repo_graph_ok (objs |` R)"
proof -
  assume a: "repo_graph_ok objs"
  have "tree_edge (objs |` R) \<subseteq> tree_edge objs" by (auto simp: tree_edge_def restrict_map_def split: if_splits)
  then have "wf (tree_edge (objs |` R))" using a by (auto simp: repo_graph_ok_def intro: wf_subset)
  moreover have "finite (dom (objs |` R))" using a by (simp add: repo_graph_ok_def)
  ultimately show ?thesis using a by (simp add: repo_graph_ok_def restrict_map_def)
qed

lemma present_restrict: "present objs i \<Longrightarrow> i \<in> reached objs rs \<Longrightarrow> present (objs |` reached objs rs) i"
  using reached_step [of i objs rs] by (fastforce simp: present_def restrict_map_def succs_def)

section \<open>Properties\<close>

text \<open>A pkt-line is read back as written, whatever follows it, and exactly the payloads that are too
  long for the length field are refused.\<close>
theorem pkt_line_roundtrip:
  "(case write_pkt_line data of
      Inr w \<Rightarrow> length data \<le> 65531 \<and> read_pkt_line (w @ rest) = Inr (Some data, rest)
    | Inl e \<Rightarrow> 65531 < length data)"
  using read_pkt_line_frame [of data rest] by (simp add: write_pkt_line_def frame_def MAX_PAYLOAD_def)

text \<open>C38: A clone over the wire: from a server that advertises its refs and answers the request for all of
  them with a NAK and a pack of the objects they reach, the fetch returns, its refs are the
  advertised ones without the peeled tags in the order of their names, and the import has exactly
  the objects of the server that the refs reach.\<close>
theorem fetch_clones:
  assumes "spawn (resolve_local_path url) = Inr server" "serves sha1 inflate server caps rs objs pack"
    and "clone_refs rs \<noteq> []" "repo_graph_ok objs" "\<forall>i\<in>reached objs (clone_refs rs). present objs i"
  shows "\<exists>imp fs'. fetch_local sha sha1 inflate spawn url fs =
      Some (Inr \<lparr>wrefs = clone_refs rs, wimport = imp, pack_bytes = length pack\<rparr>, fs') \<and>
    map_of (git_objects imp) = objs |` reached objs (clone_refs rs) \<and> irefs imp = clone_refs rs"
proof -
  let ?rs = "clone_refs rs" and ?objs = "objs |` reached objs (clone_refs rs)"
  have talk: "talk sha1 inflate server = Inr (?rs, length pack, ?objs)" by (rule talk_serves [OF assms(2,3)])
  have g: "repo_graph_ok ?objs" using assms(4) by (rule repo_graph_ok_restrict)
  have "\<forall>i\<in>reached ?objs ?rs. present ?objs i" using assms(5) present_restrict by (simp add: reached_restrict)
  then have ok: "\<forall>i\<in>reached ?objs ?rs. importable sha ?objs i"
    using importable_present [of ?objs ?rs sha] g by (simp add: repo_graph_ok_def)
  obtain r fs' where r: "import_objects sha sha1 ?objs ?rs fs = Some (r, fs')"
    "case r of Inr imp \<Rightarrow> walk_inv sha ?objs ?rs fs [] imp fs' | Inl _ \<Rightarrow> \<exists>i\<in>reached ?objs ?rs. \<not> importable sha ?objs i"
    using import_objects_post [OF g, of sha sha1 ?rs fs] by blast
  then obtain imp where imp: "r = Inr imp" "walk_inv sha ?objs ?rs fs [] imp fs'" using ok by (cases r) auto
  have "map_of (git_objects imp) = ?objs" using walk_inv_done(1) [OF imp(2)] by (simp add: reached_restrict)
  moreover have "irefs imp = ?rs" using imp(2) by (simp add: walk_inv_def)
  ultimately show ?thesis using assms(1) talk r(1) imp(1) by (simp add: fetch_local_def)
qed

text \<open>A server with one blob, its name the hash of a constant function.\<close>

definition ex_server :: upload_pack where
  "ex_server = \<lparr>advert = advertise [''ofs-delta''] [(''HEAD'', ex_hash), (''refs/tags/v1^{}'', ex_hash)],
     answer = (\<lambda>_. frame (''NAK'' @ [newline]) @ tiny_pack), exits_ok = (\<lambda>_. True)\<rparr>"

definition ex_served :: "git_oid \<rightharpoonup> git_object" where
  "ex_served = [ex_hash \<mapsto> Blob ''hello'']"

lemma fetch_clones_witness:
  "\<exists>imp fs'. fetch_local ex_sha (\<lambda>_. ex_hash) (\<lambda>z. Inr (take 5 z, 5)) (\<lambda>_. Inr ex_server) ''file:///r'' Map.empty =
      Some (Inr \<lparr>wrefs = [(''HEAD'', ex_hash)], wimport = imp, pack_bytes = length tiny_pack\<rparr>, fs') \<and>
    map_of (git_objects imp) = [ex_hash \<mapsto> Blob ''hello'']"
proof -
  let ?caps = "[''ofs-delta'']" and ?rs = "[(''HEAD'', ex_hash), (''refs/tags/v1^{}'', ex_hash)]"
  have c: "clone_refs ?rs = [(''HEAD'', ex_hash)]" by (simp add: clone_refs_def unpeeled_def suffix_def)
  have reach: "reached ex_served (clone_refs ?rs) = {ex_hash}"
  proof
    show "reached ex_served (clone_refs ?rs) \<subseteq> {ex_hash}"
      unfolding c by (rule reached_least) (auto simp: ex_served_def succs_def split: if_splits)
  qed (use reached_root [of "(''HEAD'', ex_hash)" "clone_refs ?rs" ex_served] c in simp)
  have "parse_pack_bytes (\<lambda>_. ex_hash) (\<lambda>z. Inr (take 5 z, 5)) tiny_pack = Inr [(ex_hash, Blob ''hello'')]" by code_simp
  moreover have "advert_ok ?caps ?rs" by code_simp
  moreover have "tiny_pack \<noteq> []" by code_simp
  ultimately have s: "serves (\<lambda>_. ex_hash) (\<lambda>z. Inr (take 5 z, 5)) ex_server ?caps ?rs ex_served tiny_pack"
    unfolding serves_def reach by (auto simp: ex_server_def ex_served_def)
  have g: "repo_graph_ok ex_served"
  proof -
    have "git_ok (Blob ''hello'')" by code_simp
    then show ?thesis by (auto simp: repo_graph_ok_def ex_served_def tree_edge_def split: if_splits)
  qed
  have "\<forall>i\<in>reached ex_served (clone_refs ?rs). present ex_served i"
    unfolding reach by (auto simp: present_def ex_served_def)
  from fetch_clones [where spawn = "\<lambda>_. Inr ex_server" and sha = ex_sha and url = "''file:///r''" and fs = Map.empty,
      OF refl s _ g this] show ?thesis
    unfolding reach by (auto simp: c ex_served_def)
qed

text \<open>A line that is no ref, such as a protocol banner, counts as the first line of the advertisement:
the capabilities of the ref that follows stay in its name. A length prefix may carry a sign.\<close>
lemma banner_keeps_capabilities:
  "read_advertisement (frame (''version 1'' @ [newline]) @
     frame (concat (replicate 20 ''11'') @ '' HEAD'' @ CHR 0x00 # ''ofs-delta'' @ [newline]) @ FLUSH_PKT) =
   Inr (([(''HEAD'' @ CHR 0x00 # ''ofs-delta'', replicate 20 (CHR 0x11))], []), [])"
  by code_simp

lemma signed_length_prefix: "read_pkt ''+00ahello!'' = Inr (PktData ''hello!'', [])"
  by code_simp

end
