(* ===== verification/Contents.thy ===== *)
theory Contents
  imports Queue RustMerge FileTree
begin

text \<open>
  What the landing commands of \<open>omoplata-cli/src/main.rs\<close> see of a commit: the files of its tree,
  the landed content of a queue, the support of an edit, the facts the gates of a queue ask for and
  the witness under which an approval is carried to moved content. The commands check trees out into
  scratch directories of the repository, which are empty when a command begins; creating them and
  removing them does not fail in the model. A \<open>BTreeMap\<close> is an association list in key order, the
  refs of the log one by name. Commands to the shell and tree-sitter are parameters, collected in
  \<open>tools\<close>. The outer option of a result is a panic or a loop without end, as in the operations used.
\<close>

section \<open>Errors and tools\<close>

datatype cli_error =
    Bail string
  | WorkErr work_error
  | DriverErr driver_error
  | StoreErr store_error
  | ObjectErr object_error

type_synonym 'a fallible = "(cli_error + 'a) option"

definition and_try :: "'a fallible \<Rightarrow> ('a \<Rightarrow> 'b fallible) \<Rightarrow> 'b fallible" where
  "and_try r f = (case r of None \<Rightarrow> None | Some (Inl e) \<Rightarrow> Some (Inl e) | Some (Inr x) \<Rightarrow> f x)"

fun work_err :: "work_error + 'a \<Rightarrow> cli_error + 'a" where
  "work_err (Inl e) = Inl (WorkErr e)"
| "work_err (Inr x) = Inr x"

record tools =
  sha256 :: "string \<Rightarrow> string"
  rust :: grammar
  has_mergiraf :: bool
  run_mergiraf :: "string option \<Rightarrow> merge_input \<Rightarrow> driver_error + tool_run"
  shell :: "string \<Rightarrow> dir \<Rightarrow> cli_error + bool"

definition merge_with :: "tools \<Rightarrow> string \<Rightarrow> merge_input \<Rightarrow> driver_output fallible" where
  "merge_with env path inp =
     map_option (\<lambda>r. case r of Inl e \<Rightarrow> Inl (DriverErr e) | Inr out \<Rightarrow> Inr out)
       (case select_driver (has_mergiraf env) path of
          RustStructuralDriver \<Rightarrow> rust_merge (rust env) inp
        | MergirafDriver \<Rightarrow> Some (mergiraf_merge (run_mergiraf env) inp)
        | LineDriver \<Rightarrow> Some (line_merge inp))"

section \<open>Ordered maps\<close>

fun bmap_insert :: "string \<Rightarrow> 'a \<Rightarrow> (string \<times> 'a) list \<Rightarrow> (string \<times> 'a) list" where
  "bmap_insert k v [] = [(k, v)]"
| "bmap_insert k v ((k', v') # m) =
     (if k < k' then (k, v) # (k', v') # m
      else if k = k' then (k, v) # m
      else (k', v') # bmap_insert k v m)"

definition text_of :: "(string \<times> string) list \<Rightarrow> string \<Rightarrow> string" where
  "text_of m path = (case map_of m path of Some t \<Rightarrow> t | None \<Rightarrow> [])"

type_synonym ref_table = "(string \<times> commit_id) list"

definition ref_key :: "op_kind \<Rightarrow> string list" where
  "ref_key k =
     (case k of
        SetRef name _ _ \<Rightarrow> [name]
      | Rebase c _ _ _ _ \<Rightarrow> [c]
      | Commit _ c _ _ _ \<Rightarrow> [c]
      | Switch _ c _ _ \<Rightarrow> [c]
      | _ \<Rightarrow> [])"

text \<open>The \<open>BTreeMap\<close> of a ref state of a log.\<close>

definition ref_table :: "op_log \<Rightarrow> refs \<Rightarrow> ref_table" where
  "ref_table log refs =
     List.map_filter (\<lambda>n. map_option (Pair n) (refs n)) (sort (remdups (concat (map (ref_key \<circ> kind) (ops log)))))"

section \<open>The files of a tree\<close>

function leaves :: "dir \<Rightarrow> (string list \<times> fs_node) list" where
  "leaves [] = []"
| "leaves ((n, x) # es) =
     (case x of DirN sub \<Rightarrow> map (\<lambda>(p, y). (n # p, y)) (leaves sub) | _ \<Rightarrow> [([n], x)]) @ leaves es"
  by pat_completeness auto
termination by (relation "measure (size_list (size_prod (\<lambda>_. 0) size))") auto

definition files_under :: "dir \<Rightarrow> (string list \<times> fs_node) list" where
  "files_under d = sort_key fst (leaves d)"

definition file_text :: "fs_node \<Rightarrow> string option" where
  "file_text x = (case x of FileN b \<Rightarrow> if utf8_valid b then Some b else None | _ \<Rightarrow> None)"

definition rel_text :: "string list \<Rightarrow> string" where
  "rel_text p = join_with CHR ''/'' p"

definition read_into :: "dir \<Rightarrow> (string \<times> string) list \<Rightarrow> (string \<times> string) list" where
  "read_into d m =
     foldl (\<lambda>m (p, x). case file_text x of Some t \<Rightarrow> bmap_insert (rel_text p) t m | None \<Rightarrow> m) m (files_under d)"

definition read_tree_files :: "dir \<Rightarrow> (string \<times> string) list" where
  "read_tree_files d = read_into d []"

definition check_out :: "tools \<Rightarrow> object_files \<Rightarrow> object_id \<Rightarrow> string \<Rightarrow> dir fallible" where
  "check_out env fs i into =
     map_option (\<lambda>(r, d). case r of Inl e \<Rightarrow> Inl (WorkErr e) | Inr _ \<Rightarrow> Inr d) (materialize (sha256 env) fs i into [])"

definition materialize_commit_map :: "tools \<Rightarrow> object_files \<Rightarrow> object_id \<Rightarrow> string \<Rightarrow> ((string \<times> string) list) fallible" where
  "materialize_commit_map env fs i into = and_try (check_out env fs i into) (\<lambda>d. Some (Inr (read_tree_files d)))"

section \<open>The landed content of a queue\<close>

definition landed_owner :: "queue_registry \<Rightarrow> string \<Rightarrow> string" where
  "landed_owner reg rest =
     (case split_once CHR ''/'' rest of
        Some (first, _) \<Rightarrow> if get_queue reg first \<noteq> None then first else ''trunk''
      | None \<Rightarrow> ''trunk'')"

definition flat_name :: "string \<Rightarrow> string" where
  "flat_name s = map (\<lambda>c. if c = CHR ''/'' \<or> c = CHR 0x5C then CHR ''_'' else c) s"

fun overlay_refs ::
  "tools \<Rightarrow> object_files \<Rightarrow> queue_registry \<Rightarrow> string \<Rightarrow> string \<Rightarrow> string option \<Rightarrow> ref_table \<Rightarrow>
   (string \<times> string) list \<Rightarrow> ((string \<times> string) list) fallible" where
  "overlay_refs env fs reg queue into exclude [] base = Some (Inr base)"
| "overlay_refs env fs reg queue into exclude ((name, commit) # refs) base =
     (if exclude = Some name \<or> \<not> prefix ''public/'' name \<or> landed_owner reg (drop 7 name) \<noteq> queue
      then overlay_refs env fs reg queue into exclude refs base
      else (case id_from_str commit of
          None \<Rightarrow> None
        | Some (Inl _) \<Rightarrow> overlay_refs env fs reg queue into exclude refs base
        | Some (Inr i) \<Rightarrow>
            and_try (check_out env fs i (join_path into (flat_name name))) (\<lambda>d.
              overlay_refs env fs reg queue into exclude refs (read_into d base))))"

definition materialize_queue_base ::
  "tools \<Rightarrow> object_files \<Rightarrow> queue_registry \<Rightarrow> ref_table \<Rightarrow> string \<Rightarrow> string \<Rightarrow> string option \<Rightarrow>
   ((string \<times> string) list) fallible" where
  "materialize_queue_base env fs reg refs queue into exclude =
     overlay_refs env fs reg queue into exclude refs []"

definition reconciled_ref :: "string \<Rightarrow> string" where
  "reconciled_ref queue = ''reconciled/'' @ queue"

definition materialize_trunk ::
  "tools \<Rightarrow> object_files \<Rightarrow> queue_registry \<Rightarrow> ref_table \<Rightarrow> string \<Rightarrow> string \<Rightarrow> ((string \<times> string) list) fallible" where
  "materialize_trunk env fs reg refs queue into =
     (case Option.bind (map_of refs (reconciled_ref queue)) (\<lambda>c. Some (id_from_str c)) of
        Some None \<Rightarrow> None
      | Some (Some (Inr i)) \<Rightarrow> and_try (check_out env fs i into) (\<lambda>d. Some (Inr (read_tree_files d)))
      | _ \<Rightarrow> materialize_queue_base env fs reg refs queue into None)"

definition change_first_commit_seq :: "op_log \<Rightarrow> change_id \<Rightarrow> nat option" where
  "change_first_commit_seq log c =
     map_option seq (find (\<lambda>op. case kind op of Commit _ ch _ _ _ \<Rightarrow> ch = c | _ \<Rightarrow> False) (ops log))"

definition find_landed :: "ref_table \<Rightarrow> queue_registry \<Rightarrow> change_id \<Rightarrow> (string \<times> commit_id) option" where
  "find_landed refs reg c =
     (case map_of refs (queue_ref ''trunk'' c) of
        Some t \<Rightarrow> Some (''trunk'', t)
      | None \<Rightarrow>
          map_option (\<lambda>q. (queue_name q, the (map_of refs (queue_ref (queue_name q) c))))
            (find (\<lambda>q. map_of refs (queue_ref (queue_name q) c) \<noteq> None) (queues reg)))"

section \<open>The support of an edit\<close>

definition whole_file_support :: "string set" where
  "whole_file_support = {WHOLE_FILE_SUPPORT}"

definition rust_support_of :: "tools \<Rightarrow> string \<Rightarrow> string \<Rightarrow> string set" where
  "rust_support_of env base new =
     (case rust_support (sha256_hex (rust env)) (language_error (rust env)) (syntax_tree (rust env))
             (tree_has_error (rust env)) base new of
        Some s \<Rightarrow> s
      | None \<Rightarrow> whole_file_support)"

definition edit_support :: "tools \<Rightarrow> string \<Rightarrow> string \<Rightarrow> bool \<Rightarrow> string set" where
  "edit_support env base new is_rs =
     (if base = new then {} else if is_rs then rust_support_of env base new else whole_file_support)"

definition pretty_def :: "string \<Rightarrow> string" where
  "pretty_def key = (if key = WHOLE_FILE_SUPPORT then ''whole file'' else key)"

section \<open>The gates\<close>

text \<open>\<open>Path::extension\<close>: what follows the last dot of the name, unless that dot is its first character.\<close>

definition is_rust_path :: "string list \<Rightarrow> bool" where
  "is_rust_path p \<longleftrightarrow>
     (case rsplit_once CHR ''.'' (last p) of Some (stem, ext) \<Rightarrow> stem \<noteq> [] \<and> ext = ''rs'' | None \<Rightarrow> False)"

text \<open>One change of a submission is checked out into a directory of its own below the one of the
  submission, and its files are added to those of the submission.\<close>

definition content_path :: "submission_id \<Rightarrow> nat \<Rightarrow> string list" where
  "content_path sid k = [''sub-'' @ flat_name sid, ''change-'' @ show_nat k]"

definition check_out_at :: "tools \<Rightarrow> object_files \<Rightarrow> object_id \<Rightarrow> string list \<Rightarrow> dir \<Rightarrow> (dir \<times> dir) fallible" where
  "check_out_at env fs i path content =
     (case create_dir_all path content of
        (None, _) \<Rightarrow> Some (Inl (WorkErr (IoErr (rel_text path))))
      | (Some pos, content) \<Rightarrow>
          map_option (\<lambda>(r, d). case r of
              Inl e \<Rightarrow> Inl (WorkErr e)
            | Inr _ \<Rightarrow> Inr (d, put_node pos (DirN d) content))
            (materialize (sha256 env) fs i (rel_text path)
              (case node_at pos content of Some (DirN d) \<Rightarrow> d | _ \<Rightarrow> [])))"

fun check_out_changes ::
  "tools \<Rightarrow> object_files \<Rightarrow> submission_id \<Rightarrow> object_id list \<Rightarrow> nat \<Rightarrow> dir \<Rightarrow> (string \<times> string) list \<Rightarrow>
   (dir \<times> (string \<times> string) list) fallible" where
  "check_out_changes env fs sid [] k content files = Some (Inr (content, files))"
| "check_out_changes env fs sid (i # rest) k content files =
     and_try (check_out_at env fs i (content_path sid k) content) (\<lambda>(d, content).
       check_out_changes env fs sid rest (k + 1) content (read_into d files))"

definition file_support :: "tools \<Rightarrow> (string \<times> string) list \<Rightarrow> string \<Rightarrow> string \<Rightarrow> string set" where
  "file_support env base rel txt =
     (if text_of base rel = txt then {}
      else if suffix ''.rs'' rel then rust_support_of env (text_of base rel) txt
      else whole_file_support)"

definition manifest_of :: "tools \<Rightarrow> (string \<times> string) list \<Rightarrow> (string \<times> string) list \<Rightarrow> manifest" where
  "manifest_of env base files =
     filter (\<lambda>(rel, s). s \<noteq> {}) (map (\<lambda>(rel, txt). (rel, file_support env base rel txt)) files)"

fun batch_content ::
  "tools \<Rightarrow> object_files \<Rightarrow> (string \<times> string) list \<Rightarrow> (submission_id \<times> object_id list) list \<Rightarrow> dir \<Rightarrow>
   (dir \<times> (submission_id \<times> manifest) list) fallible" where
  "batch_content env fs base [] content = Some (Inr (content, []))"
| "batch_content env fs base ((sid, ids) # rest) content =
     and_try (check_out_changes env fs sid ids 0 content []) (\<lambda>(content, files).
     and_try (batch_content env fs base rest content) (\<lambda>(content, ms).
       Some (Inr (content, (sid, manifest_of env base files) # ms))))"

fun carried_in :: "tools \<Rightarrow> (string list \<times> fs_node) list \<Rightarrow> nat \<Rightarrow> nat fallible" where
  "carried_in env [] n = Some (Inr n)"
| "carried_in env ((p, x) # fls) n =
     (if \<not> is_rust_path p then carried_in env fls n
      else (case file_text x of
          None \<Rightarrow> Some (Inl (Bail (''reading '' @ rel_text p)))
        | Some t \<Rightarrow>
          (case conflict_values (rust env) t of
             None \<Rightarrow> None
           | Some None \<Rightarrow> Some (Inl (Bail (rel_text p @ '': malformed conflict markers'')))
           | Some (Some vs) \<Rightarrow> carried_in env fls (n + length vs))))"

text \<open>\<open>str::contains\<close> and \<open>str::replace\<close> of the placeholder of a validator command.\<close>

fun replace_placeholder :: "string \<Rightarrow> string \<Rightarrow> string" where
  "replace_placeholder r (a # b # s) =
     (if a = CHR ''{'' \<and> b = CHR ''}'' then r @ replace_placeholder r s else a # replace_placeholder r (b # s))"
| "replace_placeholder r s = s"

definition run_dir_validator :: "tools \<Rightarrow> string \<Rightarrow> string \<Rightarrow> dir \<Rightarrow> cli_error + bool" where
  "run_dir_validator env cmd dir_str content =
     shell env (if sublist ''{}'' cmd then replace_placeholder dir_str cmd else cmd @ '' '' @ dir_str) content"

definition observe_batch_gates ::
  "tools \<Rightarrow> object_files \<Rightarrow> queue_registry \<Rightarrow> ref_table \<Rightarrow> string \<Rightarrow> (submission_id \<times> object_id list) list \<Rightarrow>
   queue_policy \<Rightarrow> string \<Rightarrow> batch_gates fallible" where
  "observe_batch_gates env fs reg refs queue sub_tips policy scratch =
     and_try (materialize_queue_base env fs reg refs queue (join_path scratch ''base'') None) (\<lambda>base.
     and_try (batch_content env fs base sub_tips []) (\<lambda>(content, ms).
     and_try (carried_in env (files_under content) 0) (\<lambda>n.
     and_try (case validate policy of
          None \<Rightarrow> Some (Inr None)
        | Some cmd \<Rightarrow> Some (case run_dir_validator env cmd (join_path scratch ''content'') content of
              Inl e \<Rightarrow> Inl e | Inr ok \<Rightarrow> Inr (Some ok))) (\<lambda>v.
       Some (Inr \<lparr>manifests = ms, batch_carried = n, batch_validated = v\<rparr>)))))"

section \<open>The witness of a carried approval\<close>

definition moved_in ::
  "tools \<Rightarrow> (string \<times> string) list \<Rightarrow> (string \<times> string) list \<Rightarrow> string \<Rightarrow> string set" where
  "moved_in env reviewed_map current_map path =
     edit_support env (text_of reviewed_map path) (text_of current_map path) (suffix ''.rs'' path)"

definition labels :: "string \<Rightarrow> string set \<Rightarrow> string set" where
  "labels path s = (\<lambda>d. path @ '' ('' @ pretty_def d @ '')'') ` s"

definition comma_list :: "string list \<Rightarrow> string" where
  "comma_list ds = (case ds of [] \<Rightarrow> [] | d # rest \<Rightarrow> d @ concat (map (\<lambda>x. '', '' @ x) rest))"

definition witness_text :: "string \<Rightarrow> string list \<Rightarrow> string" where
  "witness_text source_queue moved_defs =
     ''commutation (Tier-0 disjoint support, I10): the move rebased past '' @ show_nat (length moved_defs) @
     '' definition(s) ['' @
     (if moved_defs = [] then ''no definitions moved''
      else comma_list moved_defs) @
     ''], each matching '' @ source_queue @
     [CHR 0x27] @ ''s landed history '' @ [CHR 0xE2, CHR 0x80, CHR 0x94] @ '' no definition the review approved was altered''"

definition commutation_witness ::
  "tools \<Rightarrow> object_files \<Rightarrow> queue_registry \<Rightarrow> ref_table \<Rightarrow> string \<Rightarrow> change_id \<Rightarrow> object_id \<Rightarrow> object_id \<Rightarrow> string \<Rightarrow>
   (string list + string) fallible" where
  "commutation_witness env fs reg refs source_queue c reviewed current scratch =
     and_try (materialize_commit_map env fs reviewed (join_path scratch ''reviewed'')) (\<lambda>reviewed_map.
     and_try (materialize_commit_map env fs current (join_path scratch ''current'')) (\<lambda>current_map.
     and_try (materialize_queue_base env fs reg refs source_queue (join_path scratch ''ssrc'')
         (Some (queue_ref source_queue c))) (\<lambda>ssrc.
       let paths = filter (\<lambda>p. text_of reviewed_map p \<noteq> text_of current_map p)
                     (sort (remdups (map fst reviewed_map @ map fst current_map)));
           disturbed = (\<Union>p\<in>set paths.
             labels p (moved_in env reviewed_map current_map p \<inter> moved_in env ssrc current_map p));
           moved_defs = (\<Union>p\<in>set paths. labels p (moved_in env reviewed_map current_map p)) in
       Some (Inr (if disturbed \<noteq> {} then Inl (sorted_list_of_set disturbed)
                  else Inr (witness_text source_queue (sorted_list_of_set moved_defs)))))))"

section \<open>Lemmas\<close>

lemma and_try_ok: "and_try r f = Some (Inr y) \<longleftrightarrow> (\<exists>x. r = Some (Inr x) \<and> f x = Some (Inr y))"
  by (auto simp: and_try_def split: option.splits sum.splits)

lemma and_try_simps [simp]:
  "and_try None f = None" "and_try (Some (Inl e)) f = Some (Inl e)" "and_try (Some (Inr x)) f = f x"
  by (simp_all add: and_try_def)

lemma work_err_ok [simp]: "work_err r = Inr x \<longleftrightarrow> r = Inr x"
  by (cases r) auto

lemma map_of_bmap_insert [simp]: "map_of (bmap_insert k v m) = (map_of m)(k \<mapsto> v)"
  by (induction k v m rule: bmap_insert.induct) auto

lemma keys_bmap_insert [simp]: "fst ` set (bmap_insert k v m) = insert k (fst ` set m)"
  by (induction k v m rule: bmap_insert.induct) auto

definition bmap_ok :: "(string \<times> 'a) list \<Rightarrow> bool" where
  "bmap_ok m \<longleftrightarrow> sorted_wrt (<) (map fst m)"

lemma bmap_insert_ok: "bmap_ok m \<Longrightarrow> bmap_ok (bmap_insert k v m)"
  unfolding bmap_ok_def
proof (induction k v m rule: bmap_insert.induct)
  case (2 k v k' v' m)
  then show ?case using keys_bmap_insert [of k v m] by (auto simp: image_iff)
qed simp

lemma bmap_ok_distinct: "bmap_ok m \<Longrightarrow> distinct (map fst m)"
  unfolding bmap_ok_def by (simp add: strict_sorted_iff)

lemma bmap_ok_eq: "bmap_ok a \<Longrightarrow> bmap_ok b \<Longrightarrow> map_of a = map_of b \<Longrightarrow> a = b"
proof -
  assume ok: "bmap_ok a" "bmap_ok b" and eq: "map_of a = map_of b"
  have "set a = set b"
    using map_of_eq_Some_iff [OF bmap_ok_distinct [OF ok(1)]] map_of_eq_Some_iff [OF bmap_ok_distinct [OF ok(2)]] eq
    by (auto simp: set_eq_iff)
  moreover have "inj_on fst (set a)" using bmap_ok_distinct [OF ok(1)] by (simp add: distinct_map)
  ultimately show "a = b"
    using ok bmap_ok_distinct [OF ok(1)] bmap_ok_distinct [OF ok(2)]
    by (intro map_sorted_distinct_set_unique [of fst a b]) (auto simp: bmap_ok_def strict_sorted_iff)
qed

text \<open>The table of a ref state holds the refs by name.\<close>

lemma map_of_map_filter:
  "map_of (List.map_filter (\<lambda>n. map_option (Pair n) (r n)) ns) k = (if k \<in> set ns then r k else None)"
  by (induction ns) (auto simp: map_filter_simps split: option.split)

lemma apply_refs_keys: "dom (apply_refs k refs) \<subseteq> dom refs \<union> set (ref_key k)"
  by (auto simp: apply_refs_def ref_key_def dom_def split: op_kind.splits option.splits if_splits)

lemma fold_loop_keys:
  "fold_loop all_ops limit os refs = Some r \<Longrightarrow> dom r \<subseteq> dom refs \<union> \<Union> (set (map (set \<circ> ref_key \<circ> kind) os))"
proof (induction os arbitrary: refs)
  case (Cons op rest)
  have sub: "\<Union> (set (map (set \<circ> ref_key \<circ> kind) (op # rest))) =
    set (ref_key (kind op)) \<union> \<Union> (set (map (set \<circ> ref_key \<circ> kind) rest))" by simp
  consider "r = refs" | "fold_loop all_ops limit rest refs = Some r"
    | "fold_loop all_ops limit rest (apply_refs (kind op) refs) = Some r"
  proof (cases "limit < seq op")
    case True
    then have "r = refs" using Cons.prems by simp
    then show thesis by (rule that(1))
  next
    case False
    note step = Cons.prems [unfolded fold_loop.simps if_not_P [OF False]]
    then obtain b where b: "is_active all_ops (seq op) limit = Some b"
      by (cases "is_active all_ops (seq op) limit") simp_all
    show thesis
      using step that(2,3) unfolding b by (cases b) simp_all
  qed
  then show ?case
  proof cases
    case 2
    then show ?thesis using Cons.IH unfolding sub by blast
  next
    case 3
    then show ?thesis using Cons.IH apply_refs_keys [of "kind op" refs] unfolding sub by blast
  qed blast
qed simp

lemma map_of_ref_table:
  assumes "fold_refs log limit = Some refs"
  shows "map_of (ref_table log refs) = refs"
proof
  fix k
  have "dom refs \<subseteq> \<Union> (set (map (set \<circ> ref_key \<circ> kind) (ops log)))"
    using fold_loop_keys [of "ops log" limit "ops log" Map.empty refs] assms unfolding fold_refs_def by simp
  then have "refs k \<noteq> None \<Longrightarrow> k \<in> set (sort (remdups (concat (map (ref_key \<circ> kind) (ops log)))))" by auto
  then show "map_of (ref_table log refs) k = refs k"
    unfolding ref_table_def map_of_map_filter by (metis (full_types))
qed

lemma map_of_refs_now: "refs_now log = Some refs \<Longrightarrow> map_of (ref_table log refs) = refs"
  unfolding refs_now_def by (rule map_of_ref_table)

end
