(* ===== verification/Landing.thy ===== *)
theory Landing
  imports Contents
begin

text \<open>
  Landing on the command line, \<open>omoplata-cli/src/main.rs\<close>: the reconciliation of submissions into the
  merged trunk of a queue, and the commands that land, reconcile and backport. A repository is its
  object files, its log, its registries, the submission files by path and the content of the working
  directories. The log is read before the gates and mutated under the lock afterwards, so a landing
  is split into its preparation and its commit; the command runs the one after the other.
\<close>

section \<open>Repositories\<close>

record repo_state =
  objs :: object_files
  oplog :: op_log
  queue_reg :: queue_registry
  workspace_reg :: workspace_registry
  remote_reg :: remote_registry
  saved :: "string \<rightharpoonup> submission"
  working :: "string \<Rightarrow> dir"
  control :: string
  process_id :: string

definition path_join :: "string \<Rightarrow> string \<Rightarrow> string" where
  "path_join p q = (if prefix ''/'' q then q else p @ ''/'' @ q)"

definition submission_path :: "string \<Rightarrow> submission_id \<Rightarrow> string" where
  "submission_path ctl i = path_join (path_join ctl ''submissions'') (i @ ''.json'')"

definition save_submission :: "submission \<Rightarrow> repo_state \<Rightarrow> repo_state" where
  "save_submission s st = st\<lparr>saved := (saved st)(submission_path (control st) (sub_id s) \<mapsto> s)\<rparr>"

definition load_submission :: "repo_state \<Rightarrow> submission_id \<Rightarrow> cli_error + submission" where
  "load_submission st i =
     ok_or (Bail (''submission '' @ i @ '' not found'')) (saved st (submission_path (control st) i))"

fun load_submissions :: "repo_state \<Rightarrow> submission_id list \<Rightarrow> cli_error + submission list" where
  "load_submissions st [] = Inr []"
| "load_submissions st (i # ids) =
     and_then (load_submission st i) (\<lambda>s. and_then (load_submissions st ids) (\<lambda>ss. Inr (s # ss)))"

definition scratch_path :: "repo_state \<Rightarrow> string \<Rightarrow> string" where
  "scratch_path st what = path_join (path_join (control st) ''tmp'') (what @ ''-'' @ process_id st)"

section \<open>Reconciliation\<close>

record reconciliation =
  rtip :: object_id
  rfiles :: nat
  rcarried :: nat
  rconflicted :: "string list"

text \<open>The files of one change merged onto the accumulated trunk, against the base of the change.\<close>

fun reconcile_files ::
  "tools \<Rightarrow> (string \<times> string) list \<Rightarrow> (string \<times> string) list \<Rightarrow> (string \<times> string) list \<Rightarrow> string set \<Rightarrow>
   ((string \<times> string) list \<times> string set) fallible" where
  "reconcile_files env base [] acc conflicted = Some (Inr (acc, conflicted))"
| "reconcile_files env base ((path, version) # content) acc conflicted =
     and_try (merge_with env path
         \<lparr>base_text = text_of base path, left_text = text_of acc path, right_text = version, merge_path = path\<rparr>)
       (\<lambda>out. reconcile_files env base content (bmap_insert path (out_merged out) acc)
         (if new_conflicts out \<noteq> [] then insert path conflicted else conflicted))"

fun reconcile_changes ::
  "tools \<Rightarrow> object_files \<Rightarrow> queue_registry \<Rightarrow> op_log \<Rightarrow> ref_table \<Rightarrow> string \<Rightarrow> string \<Rightarrow> change_id list \<Rightarrow> nat \<Rightarrow>
   (string \<times> string) list \<Rightarrow> string set \<Rightarrow> ((string \<times> string) list \<times> string set) fallible" where
  "reconcile_changes env fs reg log refs queue scratch [] k acc conflicted = Some (Inr (acc, conflicted))"
| "reconcile_changes env fs reg log refs queue scratch (c # cs) k acc conflicted =
     (case map_of refs c of
        None \<Rightarrow> reconcile_changes env fs reg log refs queue scratch cs k acc conflicted
      | Some t \<Rightarrow>
        (case id_from_str t of
           None \<Rightarrow> None
         | Some (Inl _) \<Rightarrow> reconcile_changes env fs reg log refs queue scratch cs k acc conflicted
         | Some (Inr i) \<Rightarrow>
             and_try (materialize_commit_map env fs i (join_path scratch (''change-'' @ show_nat k))) (\<lambda>content.
             and_try (case change_first_commit_seq log c of
                 Some s \<Rightarrow>
                   (case refs_at log s of
                      None \<Rightarrow> None
                    | Some r \<Rightarrow> materialize_trunk env fs reg (ref_table log r) queue (join_path scratch (''base-'' @ show_nat k)))
               | None \<Rightarrow> Some (Inr acc)) (\<lambda>base.
             and_try (reconcile_files env base content acc conflicted) (\<lambda>(acc, conflicted).
               reconcile_changes env fs reg log refs queue scratch cs (k + 1) acc conflicted)))))"

text \<open>The merged content is written out as files.\<close>

fun write_files :: "string \<Rightarrow> (string \<times> string) list \<Rightarrow> dir \<Rightarrow> cli_error + dir" where
  "write_files out [] d = Inr d"
| "write_files out ((path, txt) # m) d =
     (let cs = name_parts path in
      case create_dir_all (butlast cs) d of
        (None, _) \<Rightarrow> Inl (WorkErr (IoErr (join_path out path)))
      | (Some pos, d1) \<Rightarrow>
        (case write_file pos (last cs) txt d1 of
           None \<Rightarrow> Inl (WorkErr (IoErr (join_path out path)))
         | Some d2 \<Rightarrow> write_files out m d2))"

fun carried_of :: "tools \<Rightarrow> (string \<times> string) list \<Rightarrow> nat \<Rightarrow> nat option" where
  "carried_of env [] n = Some n"
| "carried_of env ((path, txt) # m) n =
     (if suffix ''.rs'' path then
        Option.bind (conflict_values (rust env) txt) (\<lambda>r.
          carried_of env m (case r of Some vs \<Rightarrow> n + length vs | None \<Rightarrow> n))
      else carried_of env m n)"

definition reconciled_content ::
  "tools \<Rightarrow> object_files \<Rightarrow> queue_registry \<Rightarrow> op_log \<Rightarrow> queue_policy \<Rightarrow> submission list \<Rightarrow> string \<Rightarrow>
   ((string \<times> string) list \<times> string set) fallible" where
  "reconciled_content env fs reg log policy subs scratch =
     (case refs_now log of
        None \<Rightarrow> None
      | Some r \<Rightarrow>
          and_try (materialize_trunk env fs reg (ref_table log r) (queue_name policy) (join_path scratch ''head'')) (\<lambda>acc.
            reconcile_changes env fs reg log (ref_table log r) (queue_name policy) scratch
              (concat (map sub_changes subs)) 0 acc {}))"

definition reconcile_core ::
  "tools \<Rightarrow> object_files \<Rightarrow> queue_registry \<Rightarrow> op_log \<Rightarrow> queue_policy \<Rightarrow> submission list \<Rightarrow> string \<Rightarrow>
   ((cli_error + reconciliation) \<times> object_files) option" where
  "reconcile_core env fs reg log policy subs scratch =
     (case reconciled_content env fs reg log policy subs scratch of
        None \<Rightarrow> None
      | Some (Inl e) \<Rightarrow> Some (Inl e, fs)
      | Some (Inr (acc, conflicted)) \<Rightarrow>
        (case write_files (join_path scratch ''out'') acc [] of
           Inl e \<Rightarrow> Some (Inl e, fs)
         | Inr out \<Rightarrow>
           (case snapshot (sha256 env) (join_path scratch ''out'') out fs of
              (Inl e, fs1) \<Rightarrow> Some (Inl (WorkErr e), fs1)
            | (Inr i, fs1) \<Rightarrow>
                map_option (\<lambda>n. (Inr \<lparr>rtip = i, rfiles = length acc, rcarried = n,
                    rconflicted = sorted_list_of_set conflicted\<rparr>, fs1)) (carried_of env acc 0))))"

definition write_reconciled_head :: "op_log \<Rightarrow> string \<Rightarrow> object_id \<Rightarrow> op_log option" where
  "write_reconciled_head log queue i = set_ref log (reconciled_ref queue) (Some (id_to_string i)) None"

section \<open>Landing\<close>

text \<open>Working copies of the changes are recorded first; the outcome of each is ignored.\<close>

fun snapshot_workspaces ::
  "tools \<Rightarrow> (string \<Rightarrow> dir) \<Rightarrow> (change_id \<times> workspace) list \<Rightarrow> object_files \<Rightarrow> op_log \<Rightarrow> (object_files \<times> op_log) option" where
  "snapshot_workspaces env dirs [] fs log = Some (fs, log)"
| "snapshot_workspaces env dirs ((c, ws) # rest) fs log =
     (if ws_change ws = c \<or> ws_name ws = c then
        (case auto_snapshot (sha256 env) ws (dirs (working_dir ws)) fs log of
           None \<Rightarrow> None
         | Some (_, fs1, log1) \<Rightarrow> snapshot_workspaces env dirs rest fs1 log1)
      else snapshot_workspaces env dirs rest fs log)"

definition auto_snapshot_changes :: "tools \<Rightarrow> change_id list \<Rightarrow> repo_state \<Rightarrow> repo_state option" where
  "auto_snapshot_changes env cs st =
     map_option (\<lambda>(fs, log). st\<lparr>objs := fs, oplog := log\<rparr>)
       (snapshot_workspaces env (working st)
         (concat (map (\<lambda>c. map (Pair c) (workspaces (workspace_reg st))) cs)) (objs st) (oplog st))"

text \<open>The graph of the changes to land and the tips that are object ids.\<close>

fun collect_tips ::
  "ref_table \<Rightarrow> change_id list \<Rightarrow> change_graph \<Rightarrow> object_id list \<Rightarrow> (change_graph \<times> object_id list) option" where
  "collect_tips refs [] g tips = Some (g, tips)"
| "collect_tips refs (c # cs) g tips =
     (case map_of refs c of
        None \<Rightarrow> collect_tips refs cs (add_change g (change_draft c)) tips
      | Some t \<Rightarrow>
          Option.bind (id_from_str t) (\<lambda>r.
            collect_tips refs cs (add_change g \<lparr>change_id = c, revisions = [t], phase_of = Draft\<rparr>)
              (case r of Inr i \<Rightarrow> tips @ [i] | Inl _ \<Rightarrow> tips)))"

fun collect_submissions ::
  "ref_table \<Rightarrow> submission list \<Rightarrow> change_graph \<Rightarrow> (submission_id \<times> object_id list) list \<Rightarrow>
   (change_graph \<times> (submission_id \<times> object_id list) list) option" where
  "collect_submissions refs [] g acc = Some (g, acc)"
| "collect_submissions refs (s # ss) g acc =
     Option.bind (collect_tips refs (sub_changes s) g []) (\<lambda>(g, tips).
       collect_submissions refs ss g (acc @ [(sub_id s, tips)]))"

definition unapproved :: "queue_policy \<Rightarrow> submission list \<Rightarrow> submission option" where
  "unapproved policy subs = (if require_approval policy then find (\<lambda>s. \<not> is_approved s) subs else None)"

definition not_approved_text :: "queue_policy \<Rightarrow> submission \<Rightarrow> string" where
  "not_approved_text policy s = ''submission '' @ sub_id s @ '' is not approved (queue '' @ queue_name policy @ '')''"

definition carried_text :: "queue_policy \<Rightarrow> reconciliation \<Rightarrow> string" where
  "carried_text policy r =
     ''queue '' @ queue_name policy @ '' refuses carried conflict values ('' @ show_nat (rcarried r) @ ''): '' @
     comma_list (rconflicted r)"

record prepared_landing =
  pgates :: queue_gates
  pgraph :: change_graph
  preconciled :: reconciliation

text \<open>From the log as read: the gate facts of the content and the merged trunk.\<close>

definition prepare_landing ::
  "tools \<Rightarrow> repo_state \<Rightarrow> queue_policy \<Rightarrow> submission list \<Rightarrow> ((cli_error + prepared_landing) \<times> object_files) option" where
  "prepare_landing env st policy subs =
     (case refs_now (oplog st) of
        None \<Rightarrow> None
      | Some r \<Rightarrow>
        (case collect_submissions (ref_table (oplog st) r) subs new_graph [] of
           None \<Rightarrow> None
         | Some (g, sub_tips) \<Rightarrow>
           (case observe_batch_gates env (objs st) (queue_reg st) (ref_table (oplog st) r) (queue_name policy) sub_tips
                   policy (scratch_path st ''land'') of
              None \<Rightarrow> None
            | Some (Inl e) \<Rightarrow> Some (Inl e, objs st)
            | Some (Inr gates) \<Rightarrow>
              (case reconcile_core env (objs st) (queue_reg st) (oplog st) policy subs (scratch_path st ''reconcile'') of
                 None \<Rightarrow> None
               | Some (Inl e, fs) \<Rightarrow> Some (Inl e, fs)
               | Some (Inr rec, fs) \<Rightarrow>
                   Some (if 0 < rcarried rec \<and> \<not> allow_carried policy then Inl (Bail (carried_text policy rec))
                         else Inr \<lparr>pgates = \<lparr>carried_values = batch_carried gates, validated = batch_validated gates\<rparr>,
                           pgraph = g, preconciled = rec\<rparr>, fs)))))"

text \<open>Under the lock: every submission is landed and the head of the merged trunk is moved, or the
  log stays as it is.\<close>

definition commit_landing ::
  "queue_policy \<Rightarrow> submission list \<Rightarrow> prepared_landing \<Rightarrow> op_log \<Rightarrow> ((cli_error + land_result list) \<times> op_log) option" where
  "commit_landing policy subs p log =
     (case land_all subs policy (pgates p) (pgraph p) log [] of
        None \<Rightarrow> None
      | Some (Inl e, _, _) \<Rightarrow> Some (Inl (WorkErr e), log)
      | Some (Inr rs, _, log1) \<Rightarrow>
          map_option (Pair (Inr rs)) (write_reconciled_head log1 (queue_name policy) (rtip (preconciled p))))"

definition cmd_land ::
  "tools \<Rightarrow> repo_state \<Rightarrow> submission_id list \<Rightarrow> string \<Rightarrow> ((cli_error + land_result list) \<times> repo_state) option" where
  "cmd_land env st ids queue =
     (case and_then (work_err (resolve_queue (queue_reg st) queue)) (\<lambda>policy.
             and_then (load_submissions st ids) (\<lambda>subs.
               case unapproved policy subs of
                 Some s \<Rightarrow> Inl (Bail (not_approved_text policy s))
               | None \<Rightarrow> Inr (policy, subs))) of
        Inl e \<Rightarrow> Some (Inl e, st)
      | Inr (policy, subs) \<Rightarrow>
          Option.bind (auto_snapshot_changes env (concat (map sub_changes subs)) st) (\<lambda>st1.
            case prepare_landing env st1 policy subs of
              None \<Rightarrow> None
            | Some (Inl e, fs) \<Rightarrow> Some (Inl e, st1\<lparr>objs := fs\<rparr>)
            | Some (Inr p, fs) \<Rightarrow>
                map_option (\<lambda>(r, log). (r, st1\<lparr>objs := fs, oplog := log\<rparr>))
                  (commit_landing policy subs p (oplog st1))))"

section \<open>Reconciling without landing\<close>

definition cmd_reconcile ::
  "tools \<Rightarrow> repo_state \<Rightarrow> submission_id list \<Rightarrow> string \<Rightarrow> ((cli_error + nat) \<times> repo_state) option" where
  "cmd_reconcile env st ids queue =
     (case and_then (work_err (resolve_queue (queue_reg st) queue)) (\<lambda>policy.
             and_then (load_submissions st ids) (\<lambda>subs. Inr (policy, subs))) of
        Inl e \<Rightarrow> Some (Inl e, st)
      | Inr (policy, subs) \<Rightarrow>
        (case reconcile_core env (objs st) (queue_reg st) (oplog st) policy subs (scratch_path st ''reconcile'') of
           None \<Rightarrow> None
         | Some (Inl e, fs) \<Rightarrow> Some (Inl e, st\<lparr>objs := fs\<rparr>)
         | Some (Inr rec, fs) \<Rightarrow>
             if 0 < rcarried rec \<and> \<not> allow_carried policy
             then Some (Inl (Bail (carried_text policy rec)), st\<lparr>objs := fs\<rparr>)
             else map_option (\<lambda>log. (Inr (if 0 < rcarried rec then 2 else 0), st\<lparr>objs := fs, oplog := log\<rparr>))
               (write_reconciled_head (oplog st) (queue_name policy) (rtip rec))))"

section \<open>Backports\<close>

definition identity_text :: "string \<Rightarrow> string" where
  "identity_text queue = ''identity: content byte-identical to the tip reviewed and landed in '' @ queue"

definition disturbed_text :: "change_id \<Rightarrow> string \<Rightarrow> string list \<Rightarrow> string" where
  "disturbed_text c queue disturbed =
     ''change '' @ c @ '' moved since it landed in '' @ queue @
     '', and the move disturbs definition(s) the review approved: '' @ comma_list disturbed"

text \<open>One change: its landing, and the witness under which its approval carries to its tip.\<close>

definition certify_change ::
  "tools \<Rightarrow> repo_state \<Rightarrow> ref_table \<Rightarrow> string \<Rightarrow> change_id \<Rightarrow> approval_certificate fallible" where
  "certify_change env st refs rev_name c =
     (case map_of refs c of
        None \<Rightarrow> Some (Inl (Bail (''change '' @ c @ '' has no snapshot; nothing to backport'')))
      | Some t \<Rightarrow>
        (case find_landed refs (queue_reg st) c of
           None \<Rightarrow> Some (Inl (Bail (''change '' @ c @ '' is not landed in any queue'')))
         | Some (source_queue, landed_tip) \<Rightarrow>
             and_try
               (if landed_tip = t then Some (Inr (identity_text source_queue))
                else (case id_from_str landed_tip of
                    None \<Rightarrow> None
                  | Some (Inl _) \<Rightarrow> Some (Inl (Bail (''change '' @ c @ '': landed tip '' @ landed_tip @ '' is not an object id'')))
                  | Some (Inr reviewed) \<Rightarrow>
                    (case id_from_str t of
                       None \<Rightarrow> None
                     | Some (Inl _) \<Rightarrow> Some (Inl (Bail (''change '' @ c @ '': tip '' @ t @ '' is not an object id'')))
                     | Some (Inr current) \<Rightarrow>
                         and_try (commutation_witness env (objs st) (queue_reg st) refs source_queue c reviewed current
                             (scratch_path st ''backport'')) (\<lambda>w.
                           case w of
                             Inr witness \<Rightarrow> Some (Inr witness)
                           | Inl disturbed \<Rightarrow> Some (Inl (Bail (disturbed_text c source_queue disturbed)))))))
               (\<lambda>witness. Some (Inr \<lparr>cert_change = c, original_commit = landed_tip, rebased_commit = t,
                  approved_by = rev_name, proof_witness = witness\<rparr>))))"

fun certify_changes ::
  "tools \<Rightarrow> repo_state \<Rightarrow> ref_table \<Rightarrow> string \<Rightarrow> change_id list \<Rightarrow> (approval_certificate list) fallible" where
  "certify_changes env st refs rev_name [] = Some (Inr [])"
| "certify_changes env st refs rev_name (c # cs) =
     and_try (certify_change env st refs rev_name c) (\<lambda>cert.
       if id_from_str (rebased_commit cert) = None then None
       else and_try (certify_changes env st refs rev_name cs) (\<lambda>certs. Some (Inr (cert # certs))))"

definition land_backport ::
  "tools \<Rightarrow> repo_state \<Rightarrow> queue_policy \<Rightarrow> submission \<Rightarrow> ref_table \<Rightarrow> object_id list \<Rightarrow> change_graph \<Rightarrow>
   ((cli_error + land_result) \<times> repo_state) option" where
  "land_backport env st policy s refs tips g =
     (case observe_batch_gates env (objs st) (queue_reg st) refs (queue_name policy) [(sub_id s, tips)] policy
             (scratch_path st ''land'') of
        None \<Rightarrow> None
      | Some (Inl e) \<Rightarrow> Some (Inl e, st)
      | Some (Inr gates) \<Rightarrow>
        (case land_submission_in_queue s policy
                \<lparr>carried_values = batch_carried gates, validated = batch_validated gates\<rparr> g (oplog st) of
           None \<Rightarrow> None
         | Some (Inl e, _, _) \<Rightarrow> Some (Inl (WorkErr e), st)
         | Some (Inr result, _, log) \<Rightarrow> Some (Inr result, st\<lparr>oplog := log\<rparr>)))"

definition backport_request :: "repo_state \<Rightarrow> submission_id \<Rightarrow> string \<Rightarrow> cli_error + queue_policy \<times> submission \<times> string" where
  "backport_request st i to =
     and_then (work_err (resolve_queue (queue_reg st) to)) (\<lambda>policy.
     and_then (load_submission st i) (\<lambda>s.
       case approval s of
         Approved rev_name _ \<Rightarrow> Inr (policy, s, rev_name)
       | _ \<Rightarrow> Inl (Bail (''submission '' @ sub_id s @ '' has no approval to carry forward''))))"

definition cmd_backport ::
  "tools \<Rightarrow> repo_state \<Rightarrow> submission_id \<Rightarrow> string \<Rightarrow> ((cli_error + land_result \<times> approval_certificate list) \<times> repo_state) option" where
  "cmd_backport env st i to =
     (case backport_request st i to of
        Inl e \<Rightarrow> Some (Inl e, st)
      | Inr (policy, s, rev_name) \<Rightarrow>
          Option.bind (refs_now (oplog st)) (\<lambda>r.
            let refs = ref_table (oplog st) r in
            case certify_changes env st refs rev_name (sub_changes s) of
              None \<Rightarrow> None
            | Some (Inl e) \<Rightarrow> Some (Inl e, st)
            | Some (Inr certs) \<Rightarrow>
                Option.bind (collect_tips refs (sub_changes s) new_graph []) (\<lambda>(g, tips).
                  let s1 = foldl add_certificate s certs in
                  map_option (\<lambda>(result, st1). (and_then result (\<lambda>x. Inr (x, certs)), st1))
                    (land_backport env (save_submission s1 st) policy s1 refs tips g))))"

section \<open>The preparation\<close>

lemma tip_add_change:
  "superseded_by g = [] \<Longrightarrow> tip (add_change g ch) c =
     (if c = change_id ch then (case revisions ch of [] \<Rightarrow> None | r # _ \<Rightarrow> Some r) else tip g c)"
  by (auto simp: tip_def add_change_def update_conv' tip_loop.simps split: list.split option.split)

lemma change_of_add_change: "change_of (add_change g ch) c = (if c = change_id ch then Some ch else change_of g c)"
  by (simp add: change_of_def add_change_def update_conv')

lemma superseded_add_change [simp]: "superseded_by (add_change g ch) = superseded_by g"
  by (simp add: add_change_def)

lemma collect_tips_spec:
  "collect_tips refs cs g tips = Some (g', tips') \<Longrightarrow> superseded_by g = [] \<Longrightarrow>
   superseded_by g' = [] \<and>
   (\<forall>c. change_of g' c = None \<longleftrightarrow> c \<notin> set cs \<and> change_of g c = None) \<and>
   (\<forall>c. tip g' c = (if c \<in> set cs then map_of refs c else tip g c))"
proof (induction cs arbitrary: g tips)
  case (Cons c cs)
  show ?case
  proof (cases "map_of refs c")
    case None
    then show ?thesis
      using Cons.IH [of "add_change g (change_draft c)" tips] Cons.prems
      by (auto simp: tip_add_change change_of_add_change change_draft_def)
  next
    case (Some t)
    then obtain r :: "object_error + object_id" where "collect_tips refs cs (add_change g \<lparr>change_id = c, revisions = [t], phase_of = Draft\<rparr>)
        (case r of Inr i \<Rightarrow> tips @ [i] | Inl _ \<Rightarrow> tips) = Some (g', tips')"
      using Cons.prems(1) by (auto simp: Option.bind_eq_Some_conv)
    from Cons.IH [OF this] Cons.prems(2) Some show ?thesis
      by (auto simp: tip_add_change change_of_add_change)
  qed
qed simp

lemma collect_submissions_spec:
  "collect_submissions refs ss g acc = Some (g', acc') \<Longrightarrow> superseded_by g = [] \<Longrightarrow>
   superseded_by g' = [] \<and>
   (\<forall>c. change_of g' c = None \<longleftrightarrow> c \<notin> set (concat (map sub_changes ss)) \<and> change_of g c = None) \<and>
   (\<forall>c. tip g' c = (if c \<in> set (concat (map sub_changes ss)) then map_of refs c else tip g c))"
proof (induction ss arbitrary: g acc)
  case (Cons s ss)
  then obtain g1 tips where g1: "collect_tips refs (sub_changes s) g [] = Some (g1, tips)"
    "collect_submissions refs ss g1 (acc @ [(sub_id s, tips)]) = Some (g', acc')"
    by (auto simp: Option.bind_eq_Some_conv)
  note t = collect_tips_spec [OF g1(1) Cons.prems(2)]
  then show ?case using Cons.IH [OF g1(2)] by auto
qed simp

text \<open>The content of a landing passed the gates: the tips \<open>tips\<close> of the submissions were checked out
  side by side into \<open>content\<close>; unless the policy allows carried conflict values, no Rust file of it
  holds one; and the validator of the policy, if there is one, accepted that directory.\<close>

definition content_gated ::
  "tools \<Rightarrow> object_files \<Rightarrow> queue_policy \<Rightarrow> (submission_id \<times> object_id list) list \<Rightarrow> string \<Rightarrow> bool" where
  "content_gated env fs policy tips scratch \<longleftrightarrow>
     (\<exists>base content ms. batch_content env fs base tips [] = Some (Inr (content, ms)) \<and>
       (\<forall>(p, x)\<in>set (files_under content). is_rust_path p \<longrightarrow>
          (\<exists>t vs. file_text x = Some t \<and> conflict_values (rust env) t = Some (Some vs) \<and> (vs = [] \<or> allow_carried policy))) \<and>
       (\<forall>cmd. validate policy = Some cmd \<longrightarrow>
          run_dir_validator env cmd (join_path scratch ''content'') content = Inr True))"

lemma carried_in_files:
  "carried_in env fls n = Some (Inr m) \<Longrightarrow> n \<le> m \<and>
   (\<forall>(p, x)\<in>set fls. is_rust_path p \<longrightarrow>
     (\<exists>t vs. file_text x = Some t \<and> conflict_values (rust env) t = Some (Some vs) \<and> n + length vs \<le> m))"
proof (induction env fls n rule: carried_in.induct)
  case (2 env p x fls n)
  show ?case
  proof (cases "is_rust_path p")
    case False
    then show ?thesis using 2 by auto
  next
    case True
    then obtain t vs where t: "file_text x = Some t" "conflict_values (rust env) t = Some (Some vs)"
      using "2.prems" by (auto split: option.splits)
    then have "carried_in env fls (n + length vs) = Some (Inr m)" using "2.prems" True by simp
    from "2.IH"(2) [OF _ t(1,2) refl this] True t show ?thesis by fastforce
  qed
qed simp

lemma observe_gated:
  assumes "observe_batch_gates env fs reg refs queue tips policy scratch = Some (Inr gates)"
    "gates_pass policy (batch_carried gates) (batch_validated gates)"
  shows "content_gated env fs policy tips scratch"
proof -
  obtain base content ms n v where o: "batch_content env fs base tips [] = Some (Inr (content, ms))"
    "carried_in env (files_under content) 0 = Some (Inr n)"
    "(case validate policy of None \<Rightarrow> Some (Inr None)
      | Some cmd \<Rightarrow> Some (case run_dir_validator env cmd (join_path scratch ''content'') content of
          Inl e \<Rightarrow> Inl e | Inr ok \<Rightarrow> Inr (Some ok))) = Some (Inr v)"
    "gates = \<lparr>manifests = ms, batch_carried = n, batch_validated = v\<rparr>"
    using assms(1) by (auto simp: observe_batch_gates_def and_try_ok)
  have v: "run_dir_validator env cmd (join_path scratch ''content'') content = Inr True" if "validate policy = Some cmd" for cmd
    using o(3,4) that assms(2) by (auto simp: gates_pass_def split: sum.splits)
  have n: "n = 0 \<or> allow_carried policy" using assms(2) o(4) by (simp add: gates_pass_def)
  have "\<exists>t vs. file_text x = Some t \<and> conflict_values (rust env) t = Some (Some vs) \<and> (vs = [] \<or> allow_carried policy)"
    if "(p, x) \<in> set (files_under content)" "is_rust_path p" for p x
    using bspec [OF conjunct2 [OF carried_in_files [OF o(2)]] that(1)] that(2) n by auto
  then show ?thesis unfolding content_gated_def using o(1) v
    by (intro exI [of _ base] exI [of _ content] exI [of _ ms]) blast
qed

text \<open>The object ids that a list of changes stands for, by the refs.\<close>

definition tip_ids :: "ref_table \<Rightarrow> change_id list \<Rightarrow> object_id list" where
  "tip_ids refs cs = List.map_filter (\<lambda>c. Option.bind (map_of refs c) (\<lambda>t.
     case id_from_str t of Some (Inr i) \<Rightarrow> Some i | _ \<Rightarrow> None)) cs"

lemma tip_ids_simps [simp]:
  "tip_ids refs [] = []"
  "tip_ids refs (c # cs) = (case map_of refs c of
      Some t \<Rightarrow> (case id_from_str t of Some (Inr i) \<Rightarrow> [i] | _ \<Rightarrow> []) | None \<Rightarrow> []) @ tip_ids refs cs"
  by (auto simp: tip_ids_def map_filter_simps split: option.splits sum.splits)

lemma collect_tips_ids: "collect_tips refs cs g tips = Some (g', tips') \<Longrightarrow> tips' = tips @ tip_ids refs cs"
proof (induction cs arbitrary: g tips)
  case (Cons c cs)
  show ?case
  proof (cases "map_of refs c")
    case None
    then show ?thesis using Cons by simp
  next
    case (Some t)
    then obtain r where r: "id_from_str t = Some r" using Cons.prems by (cases "id_from_str t") auto
    then show ?thesis using Cons Some by (cases r) (simp, fastforce)+
  qed
qed simp

lemma collect_submissions_ids:
  "collect_submissions refs ss g acc = Some (g', acc') \<Longrightarrow>
   acc' = acc @ map (\<lambda>s. (sub_id s, tip_ids refs (sub_changes s))) ss"
proof (induction ss arbitrary: g acc)
  case (Cons s ss)
  then obtain g1 tips where g1: "collect_tips refs (sub_changes s) g [] = Some (g1, tips)"
    "collect_submissions refs ss g1 (acc @ [(sub_id s, tips)]) = Some (g', acc')"
    by (auto simp: Option.bind_eq_Some_conv)
  then show ?case using Cons.IH [OF g1(2)] collect_tips_ids [OF g1(1)] by simp
qed simp

lemma prepare_landing_ok:
  assumes "prepare_landing env st policy subs = Some (Inr p, fs)"
  obtains refs where "refs_now (oplog st) = Some refs"
    "rcarried (preconciled p) = 0 \<or> allow_carried policy"
    "\<forall>c\<in>set (concat (map sub_changes subs)). change_of (pgraph p) c \<noteq> None \<and> tip (pgraph p) c = refs c"
    "reconcile_core env (objs st) (queue_reg st) (oplog st) policy subs (scratch_path st ''reconcile'') =
       Some (Inr (preconciled p), fs)"
    "gates_pass policy (carried_values (pgates p)) (validated (pgates p)) \<longrightarrow>
       content_gated env (objs st) policy (map (\<lambda>s. (sub_id s, tip_ids (ref_table (oplog st) refs) (sub_changes s))) subs)
         (scratch_path st ''land'')"
proof -
  obtain refs g sub_tips where a: "refs_now (oplog st) = Some refs"
    "collect_submissions (ref_table (oplog st) refs) subs new_graph [] = Some (g, sub_tips)"
    using assms by (auto simp: prepare_landing_def split: option.splits)
  then obtain gates :: batch_gates where o: "observe_batch_gates env (objs st) (queue_reg st) (ref_table (oplog st) refs)
      (queue_name policy) sub_tips policy (scratch_path st ''land'') = Some (Inr gates)"
    using assms unfolding prepare_landing_def by (auto split: option.splits sum.splits)
  then obtain rec where b: "reconcile_core env (objs st) (queue_reg st) (oplog st) policy subs
      (scratch_path st ''reconcile'') = Some (Inr rec, fs)"
    "(if 0 < rcarried rec \<and> \<not> allow_carried policy then Inl (Bail (carried_text policy rec))
      else Inr \<lparr>pgates = \<lparr>carried_values = batch_carried gates, validated = batch_validated gates\<rparr>,
        pgraph = g, preconciled = rec\<rparr>) = Inr p"
    using assms a unfolding prepare_landing_def by (auto split: option.splits sum.splits prod.splits)
  then have p: "pgraph p = g" "preconciled p = rec" "rcarried rec = 0 \<or> allow_carried policy"
    "pgates p = \<lparr>carried_values = batch_carried gates, validated = batch_validated gates\<rparr>"
    by (auto split: if_splits)
  have "\<forall>c\<in>set (concat (map sub_changes subs)). change_of g c \<noteq> None \<and> tip g c = refs c"
    using collect_submissions_spec [OF a(2)] map_of_refs_now [OF a(1)] by (simp add: new_graph_def)
  moreover have "content_gated env (objs st) policy
      (map (\<lambda>s. (sub_id s, tip_ids (ref_table (oplog st) refs) (sub_changes s))) subs) (scratch_path st ''land'')"
    if "gates_pass policy (carried_values (pgates p)) (validated (pgates p))"
    using observe_gated [OF o] that collect_submissions_ids [OF a(2)] p(4) by simp
  ultimately show thesis using that [OF a(1)] b(1) p(1-3) by simp
qed

section \<open>The commit\<close>

lemma land_loop_length:
  "land_loop ref_of note_of cs g log acc = Some (Inr l, g', log') \<Longrightarrow> length (ops log') = length (ops log) + length cs"
proof (induction cs arbitrary: g log acc)
  case (Cons c cs)
  then show ?case
    by (fastforce simp: append_op_def append_at_def split: option.splits sum.splits if_splits)
qed simp

lemma land_submission_gates:
  assumes "land_submission_in_queue s policy gates g log = Some (Inr r, g', log')"
  shows "require_approval policy \<longrightarrow> is_approved s" "gates_pass policy (carried_values gates) (validated gates)"
    "length (ops log') = length (ops log) + length (sub_changes s)"
proof -
  obtain l where "land_loop (queue_ref (queue_name policy)) (queue_note (queue_name policy)) (sub_changes s) g log [] =
      Some (Inr l, g', log')"
    using assms by (auto simp: land_submission_in_queue_def res_simps split: if_splits)
  then show "length (ops log') = length (ops log) + length (sub_changes s)" by (rule land_loop_length)
  show "require_approval policy \<longrightarrow> is_approved s" "gates_pass policy (carried_values gates) (validated gates)"
    using assms by (auto simp: land_submission_in_queue_def gates_pass_def split: if_splits)
qed

lemma land_all_gates:
  "land_all ss policy gates g log acc = Some (Inr rs, g', log') \<Longrightarrow>
   (\<forall>s\<in>set ss. require_approval policy \<longrightarrow> is_approved s) \<and>
   (ss \<noteq> [] \<longrightarrow> gates_pass policy (carried_values gates) (validated gates)) \<and>
   length (ops log') = length (ops log) + length (concat (map sub_changes ss))"
proof (induction ss arbitrary: g log acc)
  case (Cons s ss)
  then obtain r g1 log1 where s: "land_submission_in_queue s policy gates g log = Some (Inr r, g1, log1)"
    "land_all ss policy gates g1 log1 (acc @ [r]) = Some (Inr rs, g', log')"
    by (auto split: option.splits sum.splits)
  then show ?case using Cons.IH [OF s(2)] land_submission_gates [OF s(1)] by auto
qed simp

lemma landed_refs_cong: "(\<And>c. c \<in> cs \<Longrightarrow> t c = u c) \<Longrightarrow> landed_refs q cs t r = landed_refs q cs u r"
  by (rule ext) (auto simp: landed_refs_def the_inv_f_f [OF queue_ref_inj])

lemma commit_landing_ok:
  assumes "commit_landing policy subs p log = Some (Inr rs, log')" "log_built log" "length (ops log') < 2 ^ 64"
    "refs_now log = Some refs" "\<forall>c\<in>set (concat (map sub_changes subs)). change_of (pgraph p) c \<noteq> None \<and> tip (pgraph p) c = t c"
    "subs \<noteq> []"
  shows "\<forall>s\<in>set subs. require_approval policy \<longrightarrow> is_approved s"
    "gates_pass policy (carried_values (pgates p)) (validated (pgates p))"
    "map submission_id rs = map sub_id subs \<and> map landed_changes rs = map sub_changes subs"
    "refs_now log' = Some ((landed_refs (queue_name policy) (set (concat (map sub_changes subs))) t refs)
       (reconciled_ref (queue_name policy) \<mapsto> id_to_string (rtip (preconciled p))))"
    "log_built log'"
proof -
  obtain g1 log1 where l: "land_all subs policy (pgates p) (pgraph p) log [] = Some (Inr rs, g1, log1)"
    "write_reconciled_head log1 (queue_name policy) (rtip (preconciled p)) = Some log'"
    using assms(1) by (auto simp: commit_landing_def split: option.splits sum.splits)
  note gates = land_all_gates [OF l(1)]
  then show app: "\<forall>s\<in>set subs. require_approval policy \<longrightarrow> is_approved s"
    and pass: "gates_pass policy (carried_values (pgates p)) (validated (pgates p))" using assms(6) by blast+
  have len: "length (ops log') = length (ops log1) + 1"
    using l(2) by (auto simp: write_reconciled_head_def set_ref_def append_op_def append_at_def)
  then have bound: "length (ops log) + length (concat (map sub_changes subs)) < 2 ^ 64"
    "length (ops log1) + 1 < 2 ^ 64" using gates assms(3) by simp_all
  from land_all_ok [OF app pass assms(2) _ bound(1) assms(4), of "pgraph p" "[]"] assms(5) l(1)
  have all: "map submission_id rs = map sub_id subs" "map landed_changes rs = map sub_changes subs" "log_built log1"
    "refs_now log1 = Some (landed_refs (queue_name policy) (set (concat (map sub_changes subs))) (tip (pgraph p)) refs)"
    by auto
  show "map submission_id rs = map sub_id subs \<and> map landed_changes rs = map sub_changes subs" using all by blast
  have "landed_refs (queue_name policy) (set (concat (map sub_changes subs))) (tip (pgraph p)) refs =
    landed_refs (queue_name policy) (set (concat (map sub_changes subs))) t refs"
    by (rule landed_refs_cong) (use assms(5) in blast)
  moreover from set_ref_effect [OF all(3) bound(2)] l(2) all(4)
  have "refs_now log' = Some ((landed_refs (queue_name policy) (set (concat (map sub_changes subs))) (tip (pgraph p)) refs)
       (reconciled_ref (queue_name policy) \<mapsto> id_to_string (rtip (preconciled p))))"
    unfolding write_reconciled_head_def by (metis option.inject)
  ultimately show "refs_now log' = Some ((landed_refs (queue_name policy) (set (concat (map sub_changes subs))) t refs)
       (reconciled_ref (queue_name policy) \<mapsto> id_to_string (rtip (preconciled p))))" by simp
  show "log_built log'"
    using l(2) all(3) by (auto simp: write_reconciled_head_def set_ref_def append_op_def undo_target_def intro: log_append)
qed

section \<open>Landing is gated\<close>

lemma auto_snapshot_built:
  assumes "auto_snapshot sha ws es fs log = Some (r, fs', log')" "log_built log"
  shows "log_built log'"
proof -
  obtain refs where refs: "refs_now log = Some refs" using assms(1) by (auto simp: auto_snapshot_def)
  obtain d fs1 where d: "is_dirty sha (working_dir ws) es (refs (ws_change ws)) fs = (d, fs1)" by (rule prod.exhaust)
  obtain i fs2 where i: "snapshot sha (working_dir ws) es fs1 = (i, fs2)" by (rule prod.exhaust)
  have "log' = log \<or> (\<exists>n c t q m v. log' = append_op log (Commit n c t q m) v)"
    using assms(1) refs d i by (cases d; cases i; auto simp: auto_snapshot_def Let_def split: if_splits; blast)
  then show ?thesis using assms(2) by (auto simp: append_op_def undo_target_def intro: log_append)
qed

lemma snapshot_workspaces_built:
  "snapshot_workspaces env dirs cws fs log = Some (fs', log') \<Longrightarrow> log_built log \<Longrightarrow> log_built log'"
proof (induction cws arbitrary: fs log)
  case (Cons cw cws)
  obtain c ws where cw: "cw = (c, ws)" by (cases cw)
  show ?case
  proof (cases "ws_change ws = c \<or> ws_name ws = c")
    case True
    then obtain r fs1 log1 where s: "auto_snapshot (sha256 env) ws (dirs (working_dir ws)) fs log = Some (r, fs1, log1)"
      "snapshot_workspaces env dirs cws fs1 log1 = Some (fs', log')"
      using Cons.prems(1) cw by (auto split: option.splits)
    then show ?thesis using Cons.IH auto_snapshot_built [OF s(1)] Cons.prems(2) by blast
  qed (use Cons cw in auto)
qed simp

lemma auto_snapshot_changes_built:
  "auto_snapshot_changes env cs st = Some st1 \<Longrightarrow> log_built (oplog st) \<Longrightarrow> log_built (oplog st1)"
  by (auto simp: auto_snapshot_changes_def dest: snapshot_workspaces_built)

lemma load_submissions_length: "load_submissions st ids = Inr subs \<Longrightarrow> length subs = length ids"
  by (induction st ids arbitrary: subs rule: load_submissions.induct) (auto simp: res_simps)

lemma cmd_land_ok:
  assumes "cmd_land env st ids queue = Some (Inr rs, st')"
  obtains policy subs st1 p fs log where "resolve_queue (queue_reg st) queue = Inr policy" "load_submissions st ids = Inr subs"
    "auto_snapshot_changes env (concat (map sub_changes subs)) st = Some st1"
    "prepare_landing env st1 policy subs = Some (Inr p, fs)"
    "commit_landing policy subs p (oplog st1) = Some (Inr rs, log)" "st' = st1\<lparr>objs := fs, oplog := log\<rparr>"
proof -
  obtain policy subs where a: "resolve_queue (queue_reg st) queue = Inr policy" "load_submissions st ids = Inr subs"
    "unapproved policy subs = None"
    using assms unfolding cmd_land_def
    by (cases "resolve_queue (queue_reg st) queue"; cases "load_submissions st ids") (auto split: option.splits)
  then obtain st1 where b: "auto_snapshot_changes env (concat (map sub_changes subs)) st = Some st1"
    using assms unfolding cmd_land_def by (auto simp: Option.bind_eq_Some_conv)
  then obtain p fs where c: "prepare_landing env st1 policy subs = Some (Inr p, fs)"
    using assms a unfolding cmd_land_def by (auto split: option.splits sum.splits prod.splits)
  then obtain log where "commit_landing policy subs p (oplog st1) = Some (Inr rs, log)" "st' = st1\<lparr>objs := fs, oplog := log\<rparr>"
    using assms a b unfolding cmd_land_def by auto
  with a(1,2) b c show thesis by (rule that)
qed

text \<open>C13: A landing from the command line passed every gate of the policy of its queue: each submission
  is approved when the policy asks for it; the tips that its changes have after the automatic
  snapshots, checked out side by side, hold no conflict value in a Rust file unless the policy allows
  them and were accepted by its validator; and the reconciliation onto the merged trunk, from the same
  log, carries no conflict value unless they are allowed. It moved exactly the refs of its changes in
  the queue and the merged trunk: each to its tip, the trunk to the reconciled tree, and it stored
  what the reconciliation stored.\<close>
theorem land_gated:
  assumes "cmd_land env st ids queue = Some (Inr rs, st')" "ids \<noteq> []" "log_built (oplog st)" "length (ops (oplog st')) < 2 ^ 64"
  shows "\<exists>policy subs st1 rec fs refs. resolve_queue (queue_reg st) queue = Inr policy \<and> load_submissions st ids = Inr subs \<and>
    auto_snapshot_changes env (concat (map sub_changes subs)) st = Some st1 \<and> refs_now (oplog st1) = Some refs \<and>
    (\<forall>s\<in>set subs. require_approval policy \<longrightarrow> is_approved s) \<and>
    content_gated env (objs st1) policy (map (\<lambda>s. (sub_id s, tip_ids (ref_table (oplog st1) refs) (sub_changes s))) subs)
      (scratch_path st1 ''land'') \<and>
    reconcile_core env (objs st1) (queue_reg st1) (oplog st1) policy subs (scratch_path st1 ''reconcile'') = Some (Inr rec, fs) \<and>
    (rcarried rec = 0 \<or> allow_carried policy) \<and>
    map submission_id rs = map sub_id subs \<and> map landed_changes rs = map sub_changes subs \<and> objs st' = fs \<and>
    refs_now (oplog st') = Some ((landed_refs (queue_name policy) (set (concat (map sub_changes subs))) refs refs)
       (reconciled_ref (queue_name policy) \<mapsto> id_to_string (rtip rec)))"
proof -
  obtain policy subs st1 p fs log where l: "resolve_queue (queue_reg st) queue = Inr policy" "load_submissions st ids = Inr subs"
    "auto_snapshot_changes env (concat (map sub_changes subs)) st = Some st1"
    "prepare_landing env st1 policy subs = Some (Inr p, fs)"
    "commit_landing policy subs p (oplog st1) = Some (Inr rs, log)" "st' = st1\<lparr>objs := fs, oplog := log\<rparr>"
    using cmd_land_ok [OF assms(1)] by blast
  obtain refs where r: "refs_now (oplog st1) = Some refs" "rcarried (preconciled p) = 0 \<or> allow_carried policy"
    "\<forall>c\<in>set (concat (map sub_changes subs)). change_of (pgraph p) c \<noteq> None \<and> tip (pgraph p) c = refs c"
    "reconcile_core env (objs st1) (queue_reg st1) (oplog st1) policy subs (scratch_path st1 ''reconcile'') =
       Some (Inr (preconciled p), fs)"
    "gates_pass policy (carried_values (pgates p)) (validated (pgates p)) \<longrightarrow>
       content_gated env (objs st1) policy (map (\<lambda>s. (sub_id s, tip_ids (ref_table (oplog st1) refs) (sub_changes s))) subs)
         (scratch_path st1 ''land'')"
    by (rule prepare_landing_ok [OF l(4)])
  have ne: "subs \<noteq> []" using load_submissions_length [OF l(2)] assms(2) by auto
  have "log_built (oplog st1)" using auto_snapshot_changes_built [OF l(3) assms(3)] .
  moreover have "length (ops log) < 2 ^ 64" using assms(4) l(6) by simp
  ultimately show ?thesis
    using commit_landing_ok [OF l(5) _ _ r(1) r(3) ne] l(1-3,6) r(1,2,4,5)
    by (intro exI [of _ policy] exI [of _ subs] exI [of _ st1] exI [of _ "preconciled p"] exI [of _ fs] exI [of _ refs]) auto
qed

definition ex_tools :: tools where
  "ex_tools = \<lparr>sha256 = ex_sha,
     rust = \<lparr>sha256_hex = (\<lambda>s. s), language_error = None, syntax_tree = (\<lambda>_. None), tree_has_error = (\<lambda>_. False)\<rparr>,
     has_mergiraf = False, run_mergiraf = (\<lambda>_ _. Inl (Tool [])), shell = (\<lambda>cmd d. Inr (cmd = ''test /r/tmp/land-1/content''))\<rparr>"

definition ex_queue :: queue_policy where
  "ex_queue = \<lparr>queue_name = ''q'', description = None, validate = Some ''test'', require_approval = True, allow_carried = False\<rparr>"

definition ex_note :: dir where
  "ex_note = [(''a.txt'', FileN ''x'')]"

text \<open>The stages of the command on a repository with one change of one file.\<close>

definition ex_old_id :: object_id where
  "ex_old_id = obj_id ex_sha (root_obj ex_sha ex_note)"

lemma stored_checkout:
  assumes "readable es" "full_digest (sha256 env)" "store_ok (sha256 env) fs" "countable_objs (sha256 env) es"
    "no_clash (sha256 env) fs [es]"
  shows "materialize (sha256 env) (store_all (sha256 env) (all_objs (sha256 env) es) fs)
      (obj_id (sha256 env) (root_obj (sha256 env) es)) into [] = Some (Inr (), canon es)"
proof -
  have "\<forall>ob\<in>set (all_objs (sha256 env) es).
      readable_obj (sha256 env) (store_all (sha256 env) (all_objs (sha256 env) es) fs) ob"
    using snapshot_readable [OF assms(2,3,1,4,5)] snapshot_all_objs [OF assms(1)] by simp
  then show ?thesis
    using materialize_ok [OF assms(1), of "[]"] by (simp add: removable_def control_part_def)
qed

lemma ex_note_ok: "readable ex_note" "countable_objs ex_sha ex_note" "canon ex_note = ex_note"
  by code_simp+

lemma ex_note_no_clash: "no_clash ex_sha Map.empty [ex_note]"
  by (rule no_clash_list) code_simp

definition ex_tip :: string where
  "ex_tip = id_to_string ex_old_id"

definition ex_objs :: object_files where
  "ex_objs = store_all ex_sha (all_objs ex_sha ex_note) Map.empty"

lemma ex_tip_id: "id_from_str ex_tip = Some (Inr ex_old_id)"
  unfolding ex_tip_def ex_old_id_def by (rule id_from_to_string [OF obj_id_ok [OF ex_sha_full]])

lemma ex_materialize: "materialize ex_sha ex_objs ex_old_id into [] = Some (Inr (), ex_note)"
  using stored_checkout [of ex_note ex_tools Map.empty into] ex_sha_full
  by (simp add: ex_note_ok ex_note_no_clash ex_tools_def store_ok_def ex_objs_def ex_old_id_def)

lemma ex_snapshot: "\<exists>fs'. snapshot ex_sha p ex_note fs = (Inr ex_old_id, fs')"
  using snapshot_all_objs [OF ex_note_ok(1)] by (auto simp: ex_old_id_def)

lemma ex_files: "read_into ex_note [] = [(''a.txt'', ''x'')]" "read_tree_files ex_note = [(''a.txt'', ''x'')]"
  by code_simp+

lemma ex_check_out: "check_out ex_tools ex_objs ex_old_id into = Some (Inr ex_note)"
  by (simp add: check_out_def ex_materialize ex_tools_def)

lemma ex_commit_map: "materialize_commit_map ex_tools ex_objs ex_old_id into = Some (Inr [(''a.txt'', ''x'')])"
  by (simp add: materialize_commit_map_def ex_check_out ex_files)

lemma ex_sha_tools: "sha256 ex_tools = ex_sha"
  by (simp add: ex_tools_def)

lemma ex_content: "batch_content ex_tools ex_objs [] [(''s1'', [ex_old_id])] [] =
  Some (Inr ([(''sub-s1'', DirN [(''change-0'', DirN ex_note)])], [(''s1'', [(''a.txt'', whole_file_support)])]))"
proof -
  have dirs: "create_dir_all [''sub-s1'', ''change-0''] [] = (Some [''sub-s1'', ''change-0''], [(''sub-s1'', DirN [(''change-0'', DirN [])])])"
    "content_path ''s1'' 0 = [''sub-s1'', ''change-0'']"
    "node_at [''sub-s1'', ''change-0''] [(''sub-s1'', DirN [(''change-0'', DirN [])])] = Some (DirN [])"
    "put_node [''sub-s1'', ''change-0''] (DirN ex_note) [(''sub-s1'', DirN [(''change-0'', DirN [])])] =
      [(''sub-s1'', DirN [(''change-0'', DirN ex_note)])]"
    by code_simp+
  then have "check_out_at ex_tools ex_objs ex_old_id (content_path ''s1'' 0) [] =
    Some (Inr (ex_note, [(''sub-s1'', DirN [(''change-0'', DirN ex_note)])]))"
    by (simp add: check_out_at_def ex_sha_tools ex_materialize)
  moreover have "manifest_of ex_tools [] [(''a.txt'', ''x'')] = [(''a.txt'', whole_file_support)]"
    by (simp add: manifest_of_def file_support_def text_of_def whole_file_support_def suffix_def)
  ultimately show ?thesis by (simp add: ex_files)
qed

lemma ex_carried: "carried_in ex_tools (files_under [(''sub-s1'', DirN [(''change-0'', DirN ex_note)])]) 0 = Some (Inr 0)"
  by code_simp

lemma ex_observe:
  assumes "materialize_queue_base ex_tools ex_objs reg refs queue (join_path scratch ''base'') None = Some (Inr [])"
    and "case validate policy of None \<Rightarrow> True | Some cmd \<Rightarrow> run_dir_validator ex_tools cmd (join_path scratch ''content'') [(''sub-s1'', DirN [(''change-0'', DirN ex_note)])] = Inr True"
  shows "observe_batch_gates ex_tools ex_objs reg refs queue [(''s1'', [ex_old_id])] policy scratch =
    Some (Inr \<lparr>manifests = [(''s1'', [(''a.txt'', whole_file_support)])], batch_carried = 0,
      batch_validated = map_option (\<lambda>_. True) (validate policy)\<rparr>)"
  using assms by (simp add: observe_batch_gates_def ex_content ex_carried del: batch_content.simps split: option.splits)

lemma ex_merge: "reconcile_files ex_tools [] [(''a.txt'', ''x'')] [] {} = Some (Inr ([(''a.txt'', ''x'')], {}))"
  by code_simp

lemma ex_land_out: "write_files p [(''a.txt'', ''x'')] [] = Inr ex_note" "carried_of ex_tools [(''a.txt'', ''x'')] 0 = Some 0"
proof -
  have "name_parts ''a.txt'' = [''a.txt'']" "create_dir_all [] [] = (Some [], [])" "write_file [] ''a.txt'' ''x'' [] = Some ex_note"
    by code_simp+
  then show "write_files p [(''a.txt'', ''x'')] [] = Inr ex_note" by simp
qed code_simp

lemma ex_reconcile:
  assumes "refs_now log = Some r" "map_of (ref_table log r) ''c1'' = Some ex_tip" "change_first_commit_seq log ''c1'' = None"
    "materialize_trunk ex_tools ex_objs reg (ref_table log r) (queue_name policy) (join_path scratch ''head'') = Some (Inr [])"
    "sub_changes s = [''c1'']"
  shows "\<exists>fs'. reconcile_core ex_tools ex_objs reg log policy [s] scratch =
    Some (Inr \<lparr>rtip = ex_old_id, rfiles = 1, rcarried = 0, rconflicted = []\<rparr>, fs')"
proof -
  have "reconciled_content ex_tools ex_objs reg log policy [s] scratch = Some (Inr ([(''a.txt'', ''x'')], {}))"
    using assms by (simp add: reconciled_content_def ex_tip_id ex_commit_map ex_merge del: reconcile_files.simps)
  moreover obtain fs' where "snapshot ex_sha (join_path scratch ''out'') ex_note ex_objs = (Inr ex_old_id, fs')"
    using ex_snapshot by blast
  ultimately show ?thesis by (simp add: reconcile_core_def ex_land_out ex_sha_tools del: write_files.simps carried_of.simps)
qed

lemma append_set_ref:
  assumes "log_built log" "length (ops log) + 1 < 2 ^ 64" "refs_now log = Some refs"
  shows "log_built (append_op log (SetRef name old new) n)" "refs_now (append_op log (SetRef name old new) n) = Some (refs(name := new))"
proof -
  show "log_built (append_op log (SetRef name old new) n)"
    using assms(1) by (auto simp: append_op_def undo_target_def intro: log_append)
  have "apply_refs (SetRef name old new) refs = refs(name := new)" by (simp add: apply_refs_def split: option.split)
  then show "refs_now (append_op log (SetRef name old new) n) = Some (refs(name := new))"
    using refs_now_append [OF assms(1) _ assms(2), of "SetRef name old new" n] assms(3)
    by (auto simp: undo_target_def simp del: fun_upd_apply)
qed

definition ex_log :: op_log where
  "ex_log = append_op new_log (SetRef ''c1'' None (Some ex_tip)) None"

lemma ex_log: "log_built ex_log" "refs_now ex_log = Some [''c1'' \<mapsto> ex_tip]" "length (ops ex_log) = 1"
  "ref_table ex_log [''c1'' \<mapsto> ex_tip] = [(''c1'', ex_tip)]" "change_first_commit_seq ex_log ''c1'' = None"
  using append_set_ref [OF log_empty _ new_log_refs, of "''c1''" None "Some ex_tip" None]
  by (simp_all add: ex_log_def new_log_def append_op_def append_at_def ref_table_def ref_key_def map_filter_simps
      change_first_commit_seq_def)

definition ex_repo :: repo_state where
  "ex_repo = \<lparr>objs = ex_objs, oplog = ex_log, queue_reg = \<lparr>queues = [ex_queue]\<rparr>, workspace_reg = new_workspaces,
     remote_reg = new_remotes, saved = [submission_path ''/r'' ''s1'' \<mapsto> sub1], working = (\<lambda>_. []), control = ''/r'',
     process_id = ''1''\<rparr>"

lemma ex_sub1: "sub_id sub1 = ''s1''" "sub_changes sub1 = [''c1'']" "is_approved sub1" "approval sub1 = Approved ''bob'' []"
  by (simp_all add: sub1_def approve_def new_submission_def is_approved_def)

lemma ex_queue: "queue_name ex_queue = ''q''" "validate ex_queue = Some ''test''" "allow_carried ex_queue = False"
  by (simp_all add: ex_queue_def)

lemma ex_request: "resolve_queue (queue_reg ex_repo) ''q'' = Inr ex_queue" "load_submissions ex_repo [''s1''] = Inr [sub1]"
  by (simp_all add: load_submission_def ex_repo_def resolve_queue_def get_queue_def ex_queue_def)

lemma ex_prepare: "\<exists>p fs. prepare_landing ex_tools ex_repo ex_queue [sub1] = Some (Inr p, fs) \<and> carried_values (pgates p) = 0 \<and>
  validated (pgates p) = Some True \<and> change_of (pgraph p) ''c1'' \<noteq> None \<and> tip (pgraph p) ''c1'' = Some ex_tip"
proof -
  let ?refs = "[(''c1'', ex_tip)]"
  obtain g where g: "collect_submissions ?refs [sub1] new_graph [] = Some (g, [(''s1'', [ex_old_id])])"
    by (simp add: ex_sub1 ex_tip_id)
  have "superseded_by new_graph = []" by (simp add: new_graph_def)
  from collect_submissions_spec [OF g this] have known: "change_of g ''c1'' \<noteq> None" "tip g ''c1'' = Some ex_tip"
    by (simp_all add: ex_sub1)
  have base: "materialize_queue_base ex_tools ex_objs reg ?refs q into None = Some (Inr [])" for reg q into
    by (simp add: materialize_queue_base_def)
  have validator: "run_dir_validator ex_tools ''test'' (join_path (scratch_path ex_repo ''land'') ''content'')
      [(''sub-s1'', DirN [(''change-0'', DirN ex_note)])] = Inr True"
  proof -
    have "\<not> sublist ''{}'' ''test''" by code_simp
    then show ?thesis
      by (simp add: run_dir_validator_def ex_tools_def scratch_path_def path_join_def join_path_def ex_repo_def)
  qed
  note observe = ex_observe [of "queue_reg ex_repo" ?refs "''q''" "scratch_path ex_repo ''land''" ex_queue, OF base]
  have trunk: "materialize_trunk ex_tools ex_objs reg (ref_table ex_log [''c1'' \<mapsto> ex_tip]) (queue_name ex_queue) into = Some (Inr [])"
    for reg into using base by (simp add: ex_log materialize_trunk_def ex_queue reconciled_ref_def)
  obtain fs' where "reconcile_core ex_tools ex_objs (queue_reg ex_repo) ex_log ex_queue [sub1] (scratch_path ex_repo ''reconcile'') =
      Some (Inr \<lparr>rtip = ex_old_id, rfiles = 1, rcarried = 0, rconflicted = []\<rparr>, fs')"
    using ex_reconcile [OF ex_log(2) _ ex_log(5) trunk ex_sub1(2)] by (auto simp: ex_log)
  moreover have "objs ex_repo = ex_objs" "oplog ex_repo = ex_log" by (simp_all add: ex_repo_def)
  ultimately show ?thesis
    using observe validator g known
    by (simp add: prepare_landing_def ex_log ex_queue ex_sub1 del: collect_submissions.simps)
qed

lemma ex_land: "\<exists>rs st'. cmd_land ex_tools ex_repo [''s1''] ''q'' = Some (Inr rs, st') \<and> length (ops (oplog st')) = 3"
proof -
  obtain p fs where p: "prepare_landing ex_tools ex_repo ex_queue [sub1] = Some (Inr p, fs)"
    "carried_values (pgates p) = 0" "validated (pgates p) = Some True"
    "change_of (pgraph p) ''c1'' \<noteq> None" "tip (pgraph p) ''c1'' = Some ex_tip" using ex_prepare by blast
  have log: "oplog ex_repo = ex_log" by (simp add: ex_repo_def)
  have pass: "gates_pass ex_queue (carried_values (pgates p)) (validated (pgates p))" using p by (simp add: gates_pass_def)
  have "\<forall>s\<in>set [sub1]. \<forall>c\<in>set (sub_changes s). change_of (pgraph p) c \<noteq> None" using p(4) by (simp add: ex_sub1)
  moreover have "length (ops ex_log) + length (concat (map sub_changes [sub1])) < 2 ^ 64" by (simp add: ex_log(3) ex_sub1)
  moreover have "\<forall>s\<in>set [sub1]. require_approval ex_queue \<longrightarrow> is_approved s" by (simp add: ex_sub1)
  ultimately obtain rs g' log1 where l: "land_all [sub1] ex_queue (pgates p) (pgraph p) ex_log [] = Some (Inr rs, g', log1)"
    "log_built log1"
    using land_all_ok [OF _ pass ex_log(1) _ _ ex_log(2), of "[sub1]" "pgraph p" "[]", unfolded append_Nil] that by blast
  then have len: "length (ops log1) = 2" using land_all_gates [OF l(1)] by (simp add: ex_sub1 ex_log(3))
  then have "length (ops log1) + 1 < 2 ^ 64" by simp
  from set_ref_effect [OF l(2) this, of "reconciled_ref ''q''" "Some (id_to_string (rtip (preconciled p)))" None]
  obtain log' where w: "write_reconciled_head log1 ''q'' (rtip (preconciled p)) = Some log'" "length (ops log') = 3"
    using len by (auto simp: write_reconciled_head_def append_op_def append_at_def)
  have "auto_snapshot_changes ex_tools [''c1''] ex_repo = Some ex_repo"
    by (simp add: auto_snapshot_changes_def ex_repo_def new_workspaces_def)
  then show ?thesis
    using p(1) l(1) w
    by (simp add: cmd_land_def ex_request unapproved_def ex_sub1 commit_landing_def log ex_queue del: load_submissions.simps land_all.simps)
qed

lemma land_gated_witness:
  "\<exists>rs st'. cmd_land ex_tools ex_repo [''s1''] ''q'' = Some (Inr rs, st') \<and> map submission_id rs = [''s1''] \<and>
    map landed_changes rs = [[''c1'']]"
proof -
  obtain rs st' where l: "cmd_land ex_tools ex_repo [''s1''] ''q'' = Some (Inr rs, st')" "length (ops (oplog st')) < 2 ^ 64"
    using ex_land by auto
  have "log_built (oplog ex_repo)" using ex_log(1) by (simp add: ex_repo_def)
  from land_gated [OF l(1) _ this l(2)] obtain subs where
    "load_submissions ex_repo [''s1''] = Inr subs" "map submission_id rs = map sub_id subs" "map landed_changes rs = map sub_changes subs"
    by blast
  then show ?thesis using l(1) unfolding ex_request(2) by (auto simp: ex_sub1)
qed

section \<open>Concurrent landings\<close>

text \<open>The trunk a landing moves to was computed from the log as it was read: of two landings that were
  prepared on one log and commit one after the other, the second moves the trunk to a tree without
  the content of the first, whose changes keep their own refs.\<close>

lemma concurrent_landings_lose:
  assumes "prepare_landing env st policy [s1] = Some (Inr p1, fs1)" "prepare_landing env st policy [s2] = Some (Inr p2, fs2)"
    and "commit_landing policy [s1] p1 (oplog st) = Some (Inr r1, log1)" "commit_landing policy [s2] p2 log1 = Some (Inr r2, log2)"
    and "log_built (oplog st)" "length (ops log2) < 2 ^ 64"
  shows "\<exists>refs. refs_now log2 = Some refs \<and> refs (reconciled_ref (queue_name policy)) = Some (id_to_string (rtip (preconciled p2))) \<and>
    reconcile_core env (objs st) (queue_reg st) (oplog st) policy [s2] (scratch_path st ''reconcile'') = Some (Inr (preconciled p2), fs2)"
proof -
  obtain r where r: "refs_now (oplog st) = Some r"
    "\<forall>c\<in>set (concat (map sub_changes [s1])). change_of (pgraph p1) c \<noteq> None \<and> tip (pgraph p1) c = r c"
    using prepare_landing_ok [OF assms(1)] by blast
  obtain r2 where r2: "refs_now (oplog st) = Some r2"
    "\<forall>c\<in>set (concat (map sub_changes [s2])). change_of (pgraph p2) c \<noteq> None \<and> tip (pgraph p2) c = r2 c"
    "reconcile_core env (objs st) (queue_reg st) (oplog st) policy [s2] (scratch_path st ''reconcile'') = Some (Inr (preconciled p2), fs2)"
    using prepare_landing_ok [OF assms(2)] by blast
  have "length (ops log1) \<le> length (ops log2)"
    using assms(4) by (auto simp: commit_landing_def write_reconciled_head_def set_ref_def append_op_def append_at_def
        split: option.splits sum.splits dest!: land_submission_gates(3))
  then have bound: "length (ops log1) < 2 ^ 64" using assms(6) by simp
  note first = commit_landing_ok [OF assms(3,5) bound r(1,2)]
  note second = commit_landing_ok [OF assms(4) first(5) assms(6) first(4) r2(2)]
  show ?thesis using second(4) r2(3) by simp
qed

section \<open>Backports carry approvals\<close>

lemma find_landed_ref: "find_landed refs reg c = Some (q, t) \<Longrightarrow> map_of refs (queue_ref q c) = Some t"
  by (auto simp: find_landed_def find_Some_iff split: option.splits)

lemma certify_change_ok:
  assumes "certify_change env st refs rev_name c = Some (Inr cert)"
  shows "cert_change cert = c \<and> approved_by cert = rev_name \<and> map_of refs c = Some (rebased_commit cert) \<and>
    (\<exists>q. find_landed refs (queue_reg st) c = Some (q, original_commit cert) \<and>
      (original_commit cert = rebased_commit cert \<or>
       (\<exists>a b. id_from_str (original_commit cert) = Some (Inr a) \<and> id_from_str (rebased_commit cert) = Some (Inr b) \<and>
          commutation_witness env (objs st) (queue_reg st) refs q c a b (scratch_path st ''backport'') =
            Some (Inr (Inr (proof_witness cert))))))"
  using assms unfolding certify_change_def
  by (auto simp: and_try_ok split: option.splits prod.splits if_splits sum.splits) (metis sum.exhaust)

lemma certify_changes_ok:
  "certify_changes env st refs rev_name cs = Some (Inr certs) \<Longrightarrow>
   list_all2 (\<lambda>c cert. certify_change env st refs rev_name c = Some (Inr cert)) cs certs"
proof (induction cs arbitrary: certs)
  case (Cons c cs)
  then show ?case by (auto simp: and_try_ok split: if_splits)
qed simp

lemma land_backport_ok:
  assumes "land_backport env st policy s refs tips g = Some (Inr r, st')"
  obtains gates g1 log where
    "observe_batch_gates env (objs st) (queue_reg st) refs (queue_name policy) [(sub_id s, tips)] policy
       (scratch_path st ''land'') = Some (Inr gates)"
    "land_submission_in_queue s policy \<lparr>carried_values = batch_carried gates, validated = batch_validated gates\<rparr> g (oplog st) =
       Some (Inr r, g1, log)"
    "st' = st\<lparr>oplog := log\<rparr>"
  using assms unfolding land_backport_def by (auto split: option.splits sum.splits prod.splits)

lemma backport_request_ok:
  assumes "backport_request st i to = Inr (policy, s, rev_name)"
  shows "resolve_queue (queue_reg st) to = Inr policy" "load_submission st i = Inr s" "is_approved s"
  using assms unfolding backport_request_def is_approved_def
  by (cases "resolve_queue (queue_reg st) to"; cases "load_submission st i"; auto split: approval.splits)+

lemma cmd_backport_ok:
  assumes "cmd_backport env st i to = Some (Inr (r, certs), st')"
  obtains policy s rev_name refs g tips where "backport_request st i to = Inr (policy, s, rev_name)"
    "refs_now (oplog st) = Some refs"
    "certify_changes env st (ref_table (oplog st) refs) rev_name (sub_changes s) = Some (Inr certs)"
    "collect_tips (ref_table (oplog st) refs) (sub_changes s) new_graph [] = Some (g, tips)"
    "land_backport env (save_submission (foldl add_certificate s certs) st) policy (foldl add_certificate s certs)
       (ref_table (oplog st) refs) tips g = Some (Inr r, st')"
proof -
  obtain policy s rev_name where a: "backport_request st i to = Inr (policy, s, rev_name)"
    using assms unfolding cmd_backport_def by (cases "backport_request st i to") auto
  obtain refs where b: "refs_now (oplog st) = Some refs"
    using assms a unfolding cmd_backport_def by (cases "refs_now (oplog st)") auto
  let ?refs = "ref_table (oplog st) refs"
  obtain certs' where c: "certify_changes env st ?refs rev_name (sub_changes s) = Some (Inr certs')"
    using assms a b unfolding cmd_backport_def by (auto simp: Let_def split: option.splits sum.splits)
  obtain g tips where d: "collect_tips ?refs (sub_changes s) new_graph [] = Some (g, tips)"
    using assms a b c unfolding cmd_backport_def by (cases "collect_tips ?refs (sub_changes s) new_graph []") (auto simp: Let_def)
  let ?s = "foldl add_certificate s certs'"
  obtain res st1 where e: "land_backport env (save_submission ?s st) policy ?s ?refs tips g = Some (res, st1)"
    "and_then res (\<lambda>x. Inr (x, certs')) = Inr (r, certs)" "st1 = st'"
    using assms a b c d unfolding cmd_backport_def by (auto simp: Let_def)
  then have "res = Inr r" "certs' = certs" by (cases res; simp)+
  with a b c d e show thesis using that by blast
qed

lemma foldl_certificates [simp]:
  "sub_changes (foldl add_certificate s certs) = sub_changes s" "sub_id (foldl add_certificate s certs) = sub_id s"
  "is_approved (foldl add_certificate s certs) = is_approved s"
  by (induction certs arbitrary: s) (simp_all add: add_certificate_def is_approved_def split: approval.split)

lemma backport_ok:
  assumes "cmd_backport env st i to = Some (Inr (r, certs), st')" "log_built (oplog st)" "length (ops (oplog st')) < 2 ^ 64"
  shows "\<exists>policy s gates refs g tips. resolve_queue (queue_reg st) to = Inr policy \<and> load_submission st i = Inr s \<and> is_approved s \<and>
    refs_now (oplog st) = Some refs \<and> collect_tips (ref_table (oplog st) refs) (sub_changes s) new_graph [] = Some (g, tips) \<and>
    observe_batch_gates env (objs st) (queue_reg st) (ref_table (oplog st) refs) (queue_name policy) [(sub_id s, tips)] policy
      (scratch_path st ''land'') = Some (Inr gates) \<and>
    gates_pass policy (batch_carried gates) (batch_validated gates) \<and>
    list_all2 (\<lambda>c cert. cert_change cert = c \<and> refs c = Some (rebased_commit cert) \<and>
      (\<exists>q. refs (queue_ref q c) = Some (original_commit cert) \<and>
        (original_commit cert = rebased_commit cert \<or>
         (\<exists>a b. id_from_str (original_commit cert) = Some (Inr a) \<and> id_from_str (rebased_commit cert) = Some (Inr b) \<and>
            commutation_witness env (objs st) (queue_reg st) (ref_table (oplog st) refs) q c a b (scratch_path st ''backport'') =
              Some (Inr (Inr (proof_witness cert))))))) (sub_changes s) certs \<and>
    refs_now (oplog st') = Some (landed_refs (queue_name policy) (set (sub_changes s)) refs refs)"
proof -
  obtain policy s rev_name refs g tips where req: "backport_request st i to = Inr (policy, s, rev_name)"
    and refs: "refs_now (oplog st) = Some refs"
    and certs: "certify_changes env st (ref_table (oplog st) refs) rev_name (sub_changes s) = Some (Inr certs)"
    and tips: "collect_tips (ref_table (oplog st) refs) (sub_changes s) new_graph [] = Some (g, tips)"
    and bp: "land_backport env (save_submission (foldl add_certificate s certs) st) policy (foldl add_certificate s certs)
       (ref_table (oplog st) refs) tips g = Some (Inr r, st')"
    using cmd_backport_ok [OF assms(1)] by blast
  obtain bg :: batch_gates and g1 log where
    obs: "observe_batch_gates env (objs st) (queue_reg st) (ref_table (oplog st) refs) (queue_name policy) [(sub_id s, tips)] policy
      (scratch_path st ''land'') = Some (Inr bg)"
    and land: "land_submission_in_queue (foldl add_certificate s certs) policy
       \<lparr>carried_values = batch_carried bg, validated = batch_validated bg\<rparr> g (oplog st) = Some (Inr r, g1, log)"
    and st': "oplog st' = log"
    by (rule land_backport_ok [OF bp], rule that) (simp_all add: save_submission_def scratch_path_def)
  let ?gates = "\<lparr>carried_values = batch_carried bg, validated = batch_validated bg\<rparr>"
  note m = map_of_refs_now [OF refs]
  have known: "\<forall>c\<in>set (sub_changes s). change_of g c \<noteq> None" "tip g c = (if c \<in> set (sub_changes s) then refs c else None)" for c
    using collect_tips_spec [OF tips] m by (simp_all add: new_graph_def tip_def)
  note gates = land_submission_gates [OF land]
  have "list_all2 (\<lambda>c cert. cert_change cert = c \<and> refs c = Some (rebased_commit cert) \<and>
      (\<exists>q. refs (queue_ref q c) = Some (original_commit cert) \<and>
        (original_commit cert = rebased_commit cert \<or>
         (\<exists>a b. id_from_str (original_commit cert) = Some (Inr a) \<and> id_from_str (rebased_commit cert) = Some (Inr b) \<and>
            commutation_witness env (objs st) (queue_reg st) (ref_table (oplog st) refs) q c a b (scratch_path st ''backport'') =
              Some (Inr (Inr (proof_witness cert))))))) (sub_changes s) certs"
    using certify_changes_ok [OF certs]
  proof (rule list_all2_mono)
    fix c cert assume "certify_change env st (ref_table (oplog st) refs) rev_name c = Some (Inr cert)"
    from certify_change_ok [OF this] m show "cert_change cert = c \<and> refs c = Some (rebased_commit cert) \<and>
      (\<exists>q. refs (queue_ref q c) = Some (original_commit cert) \<and>
        (original_commit cert = rebased_commit cert \<or>
         (\<exists>a b. id_from_str (original_commit cert) = Some (Inr a) \<and> id_from_str (rebased_commit cert) = Some (Inr b) \<and>
            commutation_witness env (objs st) (queue_reg st) (ref_table (oplog st) refs) q c a b (scratch_path st ''backport'') =
              Some (Inr (Inr (proof_witness cert))))))" using find_landed_ref by metis
  qed
  moreover have "refs_now log = Some (landed_refs (queue_name policy) (set (sub_changes s)) refs refs)"
  proof -
    have "length (ops (oplog st)) + length (sub_changes s) < 2 ^ 64" using gates(3) assms(3) st' by simp
    from land_in_queue_ok [of policy "foldl add_certificate s certs" ?gates "oplog st" g refs] gates(1,2) assms(2) known(1) this refs land
    have "refs_now log = Some (landed_refs (queue_name policy) (set (sub_changes s)) (tip g) refs)" by auto
    also have "landed_refs (queue_name policy) (set (sub_changes s)) (tip g) refs =
      landed_refs (queue_name policy) (set (sub_changes s)) refs refs" by (rule landed_refs_cong) (simp add: known(2))
    finally show ?thesis .
  qed
  ultimately show ?thesis
    using backport_request_ok [OF req] refs gates(2) st' tips obs
    by (intro exI [of _ policy] exI [of _ s] exI [of _ bg] exI [of _ refs] exI [of _ g] exI [of _ tips]) simp
qed

text \<open>A backport does not move the merged trunk of its queue, which later landings build on.\<close>

lemma backport_keeps_trunk:
  assumes "cmd_backport env st i to = Some (Inr (r, certs), st')" "log_built (oplog st)" "length (ops (oplog st')) < 2 ^ 64"
  shows "\<exists>refs refs'. refs_now (oplog st) = Some refs \<and> refs_now (oplog st') = Some refs' \<and>
    refs' (reconciled_ref q) = refs (reconciled_ref q)"
proof -
  obtain policy :: queue_policy and s :: submission and refs where "refs_now (oplog st) = Some refs"
    "refs_now (oplog st') = Some (landed_refs (queue_name policy) (set (sub_changes s)) refs refs)"
    using backport_ok [OF assms] by (elim exE conjE) (rule that)
  moreover have "reconciled_ref q \<notin> queue_ref p ` A" for p A by (auto simp: reconciled_ref_def queue_ref_def)
  ultimately show ?thesis by (simp add: landed_refs_def)
qed

text \<open>C14: A backport carries the approval of every change under a certificate from its landing to its
  present tip: either the tip is the landed one or the witness of its move was found. The gates of
  the queue pass, and of the refs only those of the changes in the queue move.\<close>
theorem backport_certified:
  assumes "cmd_backport env st i to = Some (Inr (r, certs), st')" "log_built (oplog st)" "length (ops (oplog st')) < 2 ^ 64"
  shows "\<exists>policy s gates refs g tips. resolve_queue (queue_reg st) to = Inr policy \<and> load_submission st i = Inr s \<and> is_approved s \<and>
    refs_now (oplog st) = Some refs \<and> collect_tips (ref_table (oplog st) refs) (sub_changes s) new_graph [] = Some (g, tips) \<and>
    observe_batch_gates env (objs st) (queue_reg st) (ref_table (oplog st) refs) (queue_name policy) [(sub_id s, tips)] policy
      (scratch_path st ''land'') = Some (Inr gates) \<and>
    gates_pass policy (batch_carried gates) (batch_validated gates) \<and>
    list_all2 (\<lambda>c cert. cert_change cert = c \<and> refs c = Some (rebased_commit cert) \<and>
      (\<exists>q. refs (queue_ref q c) = Some (original_commit cert) \<and>
        (original_commit cert = rebased_commit cert \<or>
         (\<exists>a b. id_from_str (original_commit cert) = Some (Inr a) \<and> id_from_str (rebased_commit cert) = Some (Inr b) \<and>
            commutation_witness env (objs st) (queue_reg st) (ref_table (oplog st) refs) q c a b (scratch_path st ''backport'') =
              Some (Inr (Inr (proof_witness cert))))))) (sub_changes s) certs \<and>
    refs_now (oplog st') = Some (landed_refs (queue_name policy) (set (sub_changes s)) refs refs)"
  using backport_ok [OF assms] .

definition ex_landed_log :: op_log where
  "ex_landed_log = append_op ex_log (SetRef ''public/c1'' None (Some ex_tip)) None"

definition ex_landed :: repo_state where
  "ex_landed = ex_repo\<lparr>oplog := ex_landed_log\<rparr>"

lemma ex_landed_log: "log_built ex_landed_log" "refs_now ex_landed_log = Some [''c1'' \<mapsto> ex_tip, ''public/c1'' \<mapsto> ex_tip]"
  "length (ops ex_landed_log) = 2"
  "ref_table ex_landed_log [''c1'' \<mapsto> ex_tip, ''public/c1'' \<mapsto> ex_tip] = [(''c1'', ex_tip), (''public/c1'', ex_tip)]"
  using append_set_ref [OF ex_log(1) _ ex_log(2), of "''public/c1''" None "Some ex_tip" None]
  by (simp_all add: ex_log(3) ex_landed_log_def)
     (simp_all add: ex_log_def new_log_def append_op_def append_at_def ref_table_def ref_key_def map_filter_simps)

lemma ex_backport:
  "\<exists>r certs st'. cmd_backport ex_tools ex_landed ''s1'' ''q'' = Some (Inr (r, certs), st') \<and>
     map proof_witness certs = [identity_text ''trunk''] \<and> length (ops (oplog st')) = 3"
proof -
  let ?refs = "[(''c1'', ex_tip), (''public/c1'', ex_tip)]"
  let ?cert = "\<lparr>cert_change = ''c1'', original_commit = ex_tip, rebased_commit = ex_tip, approved_by = ''bob'',
    proof_witness = identity_text ''trunk''\<rparr>"
  have st: "objs ex_landed = ex_objs" "oplog ex_landed = ex_landed_log" "queue_reg ex_landed = \<lparr>queues = [ex_queue]\<rparr>"
    by (simp_all add: ex_landed_def ex_repo_def)
  have req: "backport_request ex_landed ''s1'' ''q'' = Inr (ex_queue, sub1, ''bob'')"
    by (simp add: backport_request_def load_submission_def ex_landed_def ex_repo_def resolve_queue_def get_queue_def ex_queue ex_sub1)
  have cert: "certify_changes ex_tools ex_landed ?refs ''bob'' [''c1''] = Some (Inr [?cert])"
    by (simp add: certify_change_def find_landed_def queue_ref_def ex_tip_id)
  obtain g where g: "collect_tips ?refs [''c1''] new_graph [] = Some (g, [ex_old_id])" by (simp add: ex_tip_id)
  have "superseded_by new_graph = []" by (simp add: new_graph_def)
  from collect_tips_spec [OF g this] have known: "change_of g ''c1'' \<noteq> None" by simp
  have base: "materialize_queue_base ex_tools ex_objs \<lparr>queues = [ex_queue]\<rparr> ?refs ''q'' into None = Some (Inr [])" for into
    by (simp add: materialize_queue_base_def landed_owner_def)
  let ?s = "add_certificate sub1 ?cert"
  have s: "sub_id ?s = ''s1''" "sub_changes ?s = [''c1'']" "is_approved ?s"
    by (simp_all add: add_certificate_def ex_sub1 is_approved_def)
  have validator: "run_dir_validator ex_tools ''test'' (join_path (scratch_path (save_submission ?s ex_landed) ''land'') ''content'')
      [(''sub-s1'', DirN [(''change-0'', DirN ex_note)])] = Inr True"
  proof -
    have "\<not> sublist ''{}'' ''test''" by code_simp
    then show ?thesis
      by (simp add: run_dir_validator_def ex_tools_def scratch_path_def path_join_def join_path_def ex_repo_def
          ex_landed_def save_submission_def)
  qed
  note observe = ex_observe [of "\<lparr>queues = [ex_queue]\<rparr>" ?refs "''q''" "scratch_path (save_submission ?s ex_landed) ''land''" ex_queue, OF base]
  obtain r g1 log where l: "land_submission_in_queue ?s ex_queue \<lparr>carried_values = 0, validated = Some True\<rparr> g ex_landed_log =
      Some (Inr r, g1, log)" "length (ops log) = 3"
    using land_in_queue_ok [of ex_queue ?s "\<lparr>carried_values = 0, validated = Some True\<rparr>" ex_landed_log g, OF _ _ ex_landed_log(1) _ _ ex_landed_log(2)]
      s known ex_landed_log(3)
    by (auto simp: gates_pass_def)
  have saved_st: "objs (save_submission ?s ex_landed) = ex_objs" "oplog (save_submission ?s ex_landed) = ex_landed_log"
    "queue_reg (save_submission ?s ex_landed) = \<lparr>queues = [ex_queue]\<rparr>"
    using st by (simp_all add: save_submission_def)
  have "land_backport ex_tools (save_submission ?s ex_landed) ex_queue ?s ?refs [ex_old_id] g =
      Some (Inr r, (save_submission ?s ex_landed)\<lparr>oplog := log\<rparr>)"
    using observe validator l(1) by (simp add: land_backport_def saved_st ex_queue s)
  then have "cmd_backport ex_tools ex_landed ''s1'' ''q'' = Some (Inr (r, [?cert]), (save_submission ?s ex_landed)\<lparr>oplog := log\<rparr>)"
    using cert g
    by (simp add: cmd_backport_def req st ex_landed_log(2,4) ex_sub1 Let_def del: certify_changes.simps collect_tips.simps)
  then show ?thesis using l(2) by (intro exI conjI) (assumption, simp_all)
qed

lemma backport_certified_witness:
  "\<exists>r certs st' refs. cmd_backport ex_tools ex_landed ''s1'' ''q'' = Some (Inr (r, certs), st') \<and>
    map proof_witness certs = [identity_text ''trunk''] \<and> refs_now (oplog ex_landed) = Some refs \<and>
    refs_now (oplog st') = Some (landed_refs ''q'' {''c1''} refs refs)"
proof -
  obtain r certs st' where b: "cmd_backport ex_tools ex_landed ''s1'' ''q'' = Some (Inr (r, certs), st')"
    "map proof_witness certs = [identity_text ''trunk'']" "length (ops (oplog st')) < 2 ^ 64"
    using ex_backport by auto
  have st: "log_built (oplog ex_landed)" "load_submission ex_landed ''s1'' = Inr sub1"
    "resolve_queue (queue_reg ex_landed) ''q'' = Inr ex_queue"
    using ex_landed_log(1) by (simp_all add: load_submission_def ex_landed_def ex_repo_def resolve_queue_def get_queue_def ex_queue)
  from backport_certified [OF b(1) st(1) b(3)] obtain policy s refs where
    "resolve_queue (queue_reg ex_landed) ''q'' = Inr policy" "load_submission ex_landed ''s1'' = Inr s"
    "refs_now (oplog ex_landed) = Some refs"
    "refs_now (oplog st') = Some (landed_refs (queue_name policy) (set (sub_changes s)) refs refs)"
    by (elim exE conjE) (rule that)
  then show ?thesis using b(1,2) by (auto simp: st ex_queue ex_sub1)
qed

section \<open>What the witness of a move shows\<close>

definition def_texts :: "tools \<Rightarrow> string \<Rightarrow> string \<rightharpoonup> string" where
  "def_texts env txt =
     (case extract_definitions (sha256_hex (rust env)) (language_error (rust env)) (syntax_tree (rust env)) txt of
        Inr ds \<Rightarrow> map_of (effective_texts txt ds)
      | Inl _ \<Rightarrow> Map.empty)"

abbreviation support_in :: "tools \<Rightarrow> string \<Rightarrow> string \<Rightarrow> string set option" where
  "support_in env \<equiv> rust_support (sha256_hex (rust env)) (language_error (rust env)) (syntax_tree (rust env)) (tree_has_error (rust env))"

lemma effective_texts_distinct: "distinct (map fst (effective_texts src defs))"
proof -
  have "distinct (map fst m) \<Longrightarrow>
    distinct (map fst (fold (\<lambda>d m. AList.update (kind_label (dkind d) @ '' '' @ dpath d) (effective_text src d) m) defs m))" for m
    by (induction defs arbitrary: m) (simp_all add: distinct_update)
  then show ?thesis by (simp add: effective_texts_def)
qed

lemma support_of_iff:
  assumes "distinct (map fst n)"
  shows "d \<in> support_of b n \<longleftrightarrow> map_of b d \<noteq> map_of n d"
proof -
  have gone: "d \<in> set (filter (\<lambda>key. map_of n key = None) (map fst b)) \<longleftrightarrow> map_of n d = None \<and> map_of b d \<noteq> None"
    by (auto simp: map_of_eq_None_iff image_iff)
  have there: "d \<in> set (map fst (filter (\<lambda>(key, txt). map_of b key \<noteq> Some txt) n)) \<longleftrightarrow>
      (\<exists>t. (d, t) \<in> set n \<and> map_of b d \<noteq> Some t)"
    by force
  have "(\<exists>t. (d, t) \<in> set n \<and> map_of b d \<noteq> Some t) \<longleftrightarrow> (\<exists>t. map_of n d = Some t \<and> map_of b d \<noteq> Some t)"
    using map_of_is_SomeI [OF assms] map_of_SomeD [of n d] by metis
  then show ?thesis unfolding support_of_def Un_iff gone there by (cases "map_of n d") auto
qed

text \<open>A Rust text whose definitions can be compared.\<close>

definition comparable :: "tools \<Rightarrow> string \<Rightarrow> bool" where
  "comparable env txt \<longleftrightarrow>
     parses_cleanly (language_error (rust env)) (syntax_tree (rust env)) (tree_has_error (rust env)) txt = Inr True \<and>
     (\<exists>ds. extract_definitions (sha256_hex (rust env)) (language_error (rust env)) (syntax_tree (rust env)) txt = Inr ds)"

lemma support_in_None: "support_in env base new = None \<longleftrightarrow> \<not> (comparable env base \<and> comparable env new)"
  by (auto simp: rust_support_def comparable_def split: sum.splits)

lemma support_in_iff:
  assumes "support_in env base new = Some A"
  shows "d \<in> A \<longleftrightarrow> def_texts env base d \<noteq> def_texts env new d"
  using assms support_of_iff [OF effective_texts_distinct]
  by (auto simp: rust_support_def def_texts_def split: if_splits sum.splits)

lemma effective_texts_keys:
  assumes "(key, txt) \<in> set (effective_texts src defs)"
  shows "hd key \<noteq> CHR 0x00"
proof -
  have lab: "kind_label k \<noteq> [] \<and> hd (kind_label k) \<noteq> CHR 0x00" for k by (cases k) (simp_all add: kind_label_def)
  let ?upd = "\<lambda>d m. AList.update (kind_label (dkind d) @ '' '' @ dpath d) (effective_text src d) m"
  have keys: "\<forall>key\<in>fst ` set (fold ?upd defs m). hd key \<noteq> CHR 0x00" if "\<forall>key\<in>fst ` set m. hd key \<noteq> CHR 0x00" for m
    using that
  proof (induction defs arbitrary: m)
    case (Cons d ds)
    have "\<forall>key\<in>fst ` set (?upd d m). hd key \<noteq> CHR 0x00"
      unfolding dom_update using Cons.prems lab [of "dkind d"] by (cases "kind_label (dkind d)") auto
    from Cons.IH [OF this] show ?case by simp
  qed simp
  then show ?thesis using keys [of "[]"] assms by (force simp: effective_texts_def)
qed

lemma support_in_names: "support_in env base new = Some A \<Longrightarrow> WHOLE_FILE_SUPPORT \<notin> A"
  by (auto simp: rust_support_def support_of_def WHOLE_FILE_SUPPORT_def split: if_splits sum.splits
      dest!: effective_texts_keys)

text \<open>What it takes for one file that an approval carries: the move left it alone, or it reads as landed,
  or it is a Rust file whose present version can be compared, and of the two others either both can
  and every definition that the move changed reads as landed, or only one can, in which case
  nothing is asked.\<close>

definition carries :: "tools \<Rightarrow> bool \<Rightarrow> string \<Rightarrow> string \<Rightarrow> string \<Rightarrow> bool" where
  "carries env is_rs reviewed current landed \<longleftrightarrow>
     reviewed = current \<or> current = landed \<or>
     is_rs \<and> comparable env current \<and>
       (if comparable env reviewed = comparable env landed
        then comparable env reviewed \<and>
          (\<forall>d. def_texts env reviewed d = def_texts env current d \<or> def_texts env current d = def_texts env landed d)
        else True)"

lemma disjoint_carries:
  assumes "reviewed \<noteq> current"
  shows "edit_support env reviewed current is_rs \<inter> edit_support env landed current is_rs = {} \<longleftrightarrow>
    carries env is_rs reviewed current landed"
proof (cases "landed = current \<or> \<not> is_rs")
  case True
  then show ?thesis using assms by (auto simp: edit_support_def carries_def whole_file_support_def)
next
  case False
  let ?A = "support_in env reviewed current" and ?B = "support_in env landed current"
  have e: "edit_support env t current is_rs = (case support_in env t current of Some s \<Rightarrow> s | None \<Rightarrow> {WHOLE_FILE_SUPPORT})"
    if "t \<noteq> current" for t
    using False that by (simp add: edit_support_def rust_support_of_def whole_file_support_def split: option.split)
  have dis: "edit_support env reviewed current is_rs \<inter> edit_support env landed current is_rs =
      (case ?A of Some s \<Rightarrow> s | None \<Rightarrow> {WHOLE_FILE_SUPPORT}) \<inter> (case ?B of Some s \<Rightarrow> s | None \<Rightarrow> {WHOLE_FILE_SUPPORT})"
    using e [OF assms] e [of landed] False by simp
  have c: "carries env is_rs reviewed current landed \<longleftrightarrow> comparable env current \<and>
       (if comparable env reviewed = comparable env landed
        then comparable env reviewed \<and>
          (\<forall>d. def_texts env reviewed d = def_texts env current d \<or> def_texts env current d = def_texts env landed d)
        else True)"
    using False assms by (auto simp: carries_def)
  note none = support_in_None [of env reviewed current] support_in_None [of env landed current]
  show ?thesis
  proof (cases ?A; cases ?B)
    assume n: "?A = None" "?B = None"
    then have "\<not> comparable env current \<or> \<not> comparable env reviewed \<and> \<not> comparable env landed" using none by blast
    then show ?thesis unfolding dis c n by auto
  next
    fix B
    assume n: "?A = None" "?B = Some B"
    then have "comparable env current" "\<not> comparable env reviewed" "comparable env landed" using none by auto
    then show ?thesis unfolding dis c n using support_in_names [OF n(2)] by simp
  next
    fix A
    assume n: "?A = Some A" "?B = None"
    then have "comparable env current" "comparable env reviewed" "\<not> comparable env landed" using none by auto
    then show ?thesis unfolding dis c n using support_in_names [OF n(1)] by simp
  next
    fix A B
    assume n: "?A = Some A" "?B = Some B"
    then have cmp: "comparable env current" "comparable env reviewed" "comparable env landed" using none by auto
    have "A \<inter> B = {} \<longleftrightarrow> (\<forall>d. \<not> (d \<in> A \<and> d \<in> B))" by blast
    also have "\<dots> \<longleftrightarrow> (\<forall>d. def_texts env reviewed d = def_texts env current d \<or> def_texts env current d = def_texts env landed d)"
      unfolding support_in_iff [OF n(1)] support_in_iff [OF n(2)] by metis
    finally show ?thesis unfolding dis c n using cmp by simp
  qed
qed

lemma three_stages:
  "(\<exists>w. and_try A (\<lambda>x. and_try B (\<lambda>y. and_try C (\<lambda>z.
      Some (Inr (if \<not> N x y z then Inl (f x y z) else Inr (g x y z)))))) = Some (Inr (Inr w))) \<longleftrightarrow>
   (\<exists>x y z. A = Some (Inr x) \<and> B = Some (Inr y) \<and> C = Some (Inr z) \<and> N x y z)"
  by (auto simp: and_try_ok split: if_splits)

lemma commutation_witness_iff:
  "(\<exists>w. commutation_witness env fs reg refs q c reviewed current scratch = Some (Inr (Inr w))) \<longleftrightarrow>
   (\<exists>rm cm sm. materialize_commit_map env fs reviewed (join_path scratch ''reviewed'') = Some (Inr rm) \<and>
      materialize_commit_map env fs current (join_path scratch ''current'') = Some (Inr cm) \<and>
      materialize_queue_base env fs reg refs q (join_path scratch ''ssrc'') (Some (queue_ref q c)) = Some (Inr sm) \<and>
      (\<Union>p\<in>set (filter (\<lambda>p. text_of rm p \<noteq> text_of cm p) (sort (remdups (map fst rm @ map fst cm)))).
        labels p (moved_in env rm cm p \<inter> moved_in env sm cm p)) = {})"
  unfolding commutation_witness_def Let_def
  by (rule three_stages [where N = "\<lambda>rm cm sm.
      (\<Union>p\<in>set (filter (\<lambda>p. text_of rm p \<noteq> text_of cm p) (sort (remdups (map fst rm @ map fst cm)))).
        labels p (moved_in env rm cm p \<inter> moved_in env sm cm p)) = {}"])

lemma text_of_differs: "text_of rm p \<noteq> text_of cm p \<Longrightarrow> p \<in> fst ` set rm \<or> p \<in> fst ` set cm"
  by (auto simp: text_of_def split: option.splits dest: map_of_SomeD)
    (metis image_eqI fst_conv map_of_SomeD)+

lemma all_moved:
  "(\<Union>p\<in>set (filter (\<lambda>p. text_of rm p \<noteq> text_of cm p) (sort (remdups (map fst rm @ map fst cm)))).
     labels p (moved_in env rm cm p \<inter> moved_in env sm cm p)) = {} \<longleftrightarrow>
   (\<forall>p. text_of rm p \<noteq> text_of cm p \<longrightarrow> moved_in env rm cm p \<inter> moved_in env sm cm p = {})"
proof -
  have "set (filter (\<lambda>p. text_of rm p \<noteq> text_of cm p) (sort (remdups (map fst rm @ map fst cm)))) =
      {p. text_of rm p \<noteq> text_of cm p}"
    using text_of_differs [of rm _ cm] by auto
  then show ?thesis unfolding UNION_empty_conv by (simp add: labels_def)
qed

text \<open>C15: When an approval is carried, exactly: the three versions can be checked out, and every file
  meets the condition above. So a file other than Rust, or a Rust file whose present version does not
  parse, that the move changed reads as landed in the source queue without the change; where all
  three versions of a Rust file parse, every definition that the move changed reads as landed. Two
  limits are part of the statement: text outside definitions is not compared in such a file, and a
  file of which only one of the reviewed and the landed version parses is admitted as it is.\<close>
theorem carried_approval_exact:
  "(\<exists>w. commutation_witness env fs reg refs q c reviewed current scratch = Some (Inr (Inr w))) \<longleftrightarrow>
   (\<exists>rm cm sm. materialize_commit_map env fs reviewed (join_path scratch ''reviewed'') = Some (Inr rm) \<and>
      materialize_commit_map env fs current (join_path scratch ''current'') = Some (Inr cm) \<and>
      materialize_queue_base env fs reg refs q (join_path scratch ''ssrc'') (Some (queue_ref q c)) = Some (Inr sm) \<and>
      (\<forall>path. carries env (suffix ''.rs'' path) (text_of rm path) (text_of cm path) (text_of sm path)))"
proof -
  have "(text_of rm path \<noteq> text_of cm path \<longrightarrow> moved_in env rm cm path \<inter> moved_in env sm cm path = {}) \<longleftrightarrow>
      carries env (suffix ''.rs'' path) (text_of rm path) (text_of cm path) (text_of sm path)" for rm cm sm path
    using disjoint_carries [of "text_of rm path" "text_of cm path"] by (auto simp: moved_in_def carries_def)
  then show ?thesis unfolding commutation_witness_iff all_moved by simp
qed

definition ex_moved :: dir where
  "ex_moved = [(''a.txt'', FileN ''yy'')]"

definition ex_new_id :: object_id where
  "ex_new_id = obj_id ex_sha (root_obj ex_sha ex_moved)"

definition ex_both :: object_files where
  "ex_both = store_all ex_sha (all_objs ex_sha ex_note @ all_objs ex_sha ex_moved) Map.empty"

lemma ex_moved_ok: "readable ex_moved" "countable_objs ex_sha ex_moved" "canon ex_moved = ex_moved"
  "read_tree_files ex_moved = [(''a.txt'', ''yy'')]" "read_into ex_moved [] = [(''a.txt'', ''yy'')]"
  by code_simp+

lemma ex_both_inj: "inj_on (obj_id ex_sha) (set (all_objs ex_sha ex_note @ all_objs ex_sha ex_moved) \<union> held ex_sha Map.empty)"
proof -
  have "distinct (map (obj_id ex_sha) (all_objs ex_sha ex_note @ all_objs ex_sha ex_moved))" by code_simp
  then show ?thesis unfolding distinct_map by (simp add: held_def del: node_obj_dir)
qed

lemma ex_both_check_out:
  "check_out ex_tools ex_both ex_old_id into = Some (Inr ex_note)" "check_out ex_tools ex_both ex_new_id into = Some (Inr ex_moved)"
proof -
  have obs: "list_all obj_ok (all_objs ex_sha ex_note @ all_objs ex_sha ex_moved)"
    using all_objs_ok [OF ex_sha_full] ex_note_ok(1,2) ex_moved_ok(1,2) by simp
  have "readable_obj ex_sha ex_both ob" if "ob \<in> set (all_objs ex_sha ex_note @ all_objs ex_sha ex_moved)" for ob
    unfolding ex_both_def by (rule stored_readable [OF _ obs ex_both_inj that]) (simp add: store_ok_def)
  then have "\<forall>ob\<in>set (all_objs ex_sha ex_note). readable_obj ex_sha ex_both ob"
    "\<forall>ob\<in>set (all_objs ex_sha ex_moved). readable_obj ex_sha ex_both ob" by simp_all
  then show "check_out ex_tools ex_both ex_old_id into = Some (Inr ex_note)"
    "check_out ex_tools ex_both ex_new_id into = Some (Inr ex_moved)"
    using materialize_ok [OF ex_note_ok(1), of "[]" ex_sha ex_both into] materialize_ok [OF ex_moved_ok(1), of "[]" ex_sha ex_both into]
    by (simp_all add: check_out_def ex_sha_tools ex_old_id_def ex_new_id_def removable_def control_part_def ex_note_ok ex_moved_ok
        del: node_obj_dir)
qed

definition ex_refs :: ref_table where
  "ex_refs = [(''public/c1'', ex_tip), (''public/c2'', id_to_string ex_new_id)]"

lemma ex_maps:
  "materialize_commit_map ex_tools ex_both ex_old_id into = Some (Inr [(''a.txt'', ''x'')])"
  "materialize_commit_map ex_tools ex_both ex_new_id into = Some (Inr [(''a.txt'', ''yy'')])"
  "materialize_queue_base ex_tools ex_both new_queues ex_refs ''trunk'' into (Some ''public/c1'') = Some (Inr [(''a.txt'', ''yy'')])"
proof -
  have "id_from_str (id_to_string ex_new_id) = Some (Inr ex_new_id)"
    unfolding ex_new_id_def by (rule id_from_to_string [OF obj_id_ok [OF ex_sha_full]])
  then show "materialize_queue_base ex_tools ex_both new_queues ex_refs ''trunk'' into (Some ''public/c1'') = Some (Inr [(''a.txt'', ''yy'')])"
    by (simp add: materialize_queue_base_def ex_refs_def landed_owner_def ex_both_check_out ex_moved_ok)
qed (simp_all add: materialize_commit_map_def ex_both_check_out ex_files ex_moved_ok)

lemma ex_witness:
  "commutation_witness ex_tools ex_both new_queues ex_refs ''trunk'' ''c1'' ex_old_id ex_new_id ''s'' =
     Some (Inr (Inr (witness_text ''trunk'' [''a.txt (whole file)''])))"
proof -
  have "text_of [(''a.txt'', ''x'')] ''a.txt'' = ''x''" "text_of [(''a.txt'', ''yy'')] ''a.txt'' = ''yy''" "\<not> suffix ''.rs'' ''a.txt''"
    by code_simp+
  then show ?thesis
    by (simp add: commutation_witness_def join_path_def queue_ref_def ex_maps moved_in_def edit_support_def
        whole_file_support_def labels_def pretty_def_def Let_def)
qed

text \<open>The token of a whole file is one more name to the witness: when the reviewed version of a Rust file
  does not parse, the move is the whole file while what the present version invents are
  definitions, so nothing is disturbed and the approval carries to content nobody reviewed.\<close>

lemma unparsed_review_admits:
  assumes "\<not> comparable env reviewed" "comparable env current" "comparable env landed"
  shows "carries env True reviewed current landed"
  using assms by (simp add: carries_def)

section \<open>Limits of the reconciliation\<close>

text \<open>A file the changes deleted stays in the merged trunk: the fold visits the files a change has.\<close>

lemma reconciled_keys:
  "reconcile_files env base content acc conflicted = Some (Inr (acc', conflicted')) \<Longrightarrow>
   fst ` set acc' = fst ` set acc \<union> fst ` set content"
proof (induction env base content acc conflicted rule: reconcile_files.induct)
  case (2 env base path version content acc conflicted)
  then obtain out where "merge_with env path \<lparr>base_text = text_of base path, left_text = text_of acc path, right_text = version,
      merge_path = path\<rparr> = Some (Inr out)"
    "reconcile_files env base content (bmap_insert path (out_merged out) acc)
       (if new_conflicts out \<noteq> [] then insert path conflicted else conflicted) = Some (Inr (acc', conflicted'))"
    by (auto simp: and_try_ok)
  then show ?case using "2.IH" by auto
qed simp

text \<open>So a change that replaces a file by a directory of that name cannot be reconciled.\<close>

lemma file_to_directory_fails: "write_files ''o'' [(''a'', ''x''), (''a/b'', ''y'')] [] = Inl (WorkErr (IoErr ''o/a/b''))"
  by code_simp

text \<open>Conflicts are counted in Rust files only: a conflict in a text is written to the trunk of a queue
  that refuses carried conflict values.\<close>

definition ex_conflict :: string where
  "ex_conflict = join_with newline [''<<<<<<< left'', ''r'', ''======='', ''l'', ''>>>>>>> right'']"

lemma text_conflict_uncounted:
  "reconcile_files ex_tools [(''a.txt'', ''x'')] [(''a.txt'', ''l'')] [(''a.txt'', ''r'')] {} =
     Some (Inr ([(''a.txt'', ex_conflict)], {''a.txt''}))"
  "carried_of ex_tools [(''a.txt'', ex_conflict)] 0 = Some 0"
  by code_simp+

text \<open>The id of a submission is joined to the path of its file as it is, the one of a received
  submission too.\<close>

lemma submission_path_escapes:
  "submission_path ''/r/.omoplata'' ''../queues'' = ''/r/.omoplata/submissions/../queues.json''"
  "submission_path ''/r/.omoplata'' ''/etc/x'' = ''/etc/x.json''"
  by code_simp+

end
