(* ===== verification/Reconciled.thy ===== *)
theory Reconciled
  imports Landing
begin

text \<open>
  The head of the merged trunk holds the merged content: what \<open>reconcile_core\<close> writes out, snapshots
  and names is read back by a checkout as the map it was given. The lemmas describe the directories
  of a scratch checkout by their files: \<open>leaves\<close> are the paths with a leaf, \<open>holds\<close> says that a
  directory has exactly the files of a map, and the canonical form of a snapshot keeps them.
\<close>

section \<open>The files of a directory\<close>

lemma leaf_at_Nil [simp]: "leaf_at [] d = None"
  by (simp add: leaf_at_def)

lemma leaf_at_Cons:
  "leaf_at (c # cs) d =
     (case map_of d c of
        None \<Rightarrow> None
      | Some (DirN s) \<Rightarrow> leaf_at cs s
      | Some x \<Rightarrow> if cs = [] then Some x else None)"
  by (auto simp: leaf_at_def node_at_Cons split: option.split fs_node.split)

lemma leaves_Cons_iff:
  "(p, y) \<in> set (leaves ((n, x) # es)) \<longleftrightarrow>
     (case x of DirN s \<Rightarrow> \<exists>q. p = n # q \<and> (q, y) \<in> set (leaves s) | _ \<Rightarrow> p = [n] \<and> y = x) \<or> (p, y) \<in> set (leaves es)"
  by (cases x) auto

lemma leaves_hd: "(p, y) \<in> set (leaves d) \<Longrightarrow> \<exists>n q. p = n # q \<and> n \<in> fst ` set d"
proof (induction d)
  case (Cons e d)
  obtain n x where e: "e = (n, x)" by (cases e)
  show ?case using Cons unfolding e leaves_Cons_iff by (cases x) auto
qed simp

lemma leaves_iff: "wf_dir d \<Longrightarrow> (p, y) \<in> set (leaves d) \<longleftrightarrow> leaf_at p d = Some y"
proof (induction d arbitrary: p y rule: leaves.induct)
  case 1
  then show ?case by (cases p) (simp_all add: leaf_at_Cons)
next
  case (2 n x es)
  have wf: "wf_dir es" "n \<notin> fst ` set es" using "2.prems" by auto
  then have none: "map_of es n = None" by (simp add: map_of_eq_None_iff)
  show ?case
  proof (cases p)
    case Nil
    then show ?thesis using leaves_hd [of p y "(n, x) # es"] by auto
  next
    case (Cons c cs)
    have es: "(p, y) \<in> set (leaves es) \<longleftrightarrow> leaf_at p es = Some y" by (rule "2.IH"(2)) (rule wf(1))
    show ?thesis
    proof (cases "c = n")
      case True
      have "leaf_at p es = None" using Cons True none by (simp add: leaf_at_Cons)
      moreover have "wf_dir s \<and> (\<forall>q. (q, y) \<in> set (leaves s) \<longleftrightarrow> leaf_at q s = Some y)" if "x = DirN s" for s
        using "2.prems" "2.IH"(1) [OF that] that by auto
      ultimately show ?thesis unfolding leaves_Cons_iff es using Cons True
        by (cases x) (auto simp: leaf_at_Cons)
    next
      case False
      then show ?thesis unfolding leaves_Cons_iff es using Cons by (cases x) (auto simp: leaf_at_Cons)
    qed
  qed
qed

lemma leaves_distinct: "wf_dir d \<Longrightarrow> distinct (map fst (leaves d))"
proof (induction d rule: leaves.induct)
  case (2 n x es)
  have "distinct (map fst (leaves es))" using 2 by simp
  moreover have "(n # q, y) \<notin> set (leaves es)" for q y using leaves_hd [of "n # q" y es] "2.prems" by auto
  moreover have "distinct (map (\<lambda>e. n # fst e) (leaves s))" if "x = DirN s" for s
  proof -
    have "distinct (map fst (leaves s))" using 2 that by simp
    moreover have "map (\<lambda>e. n # fst e) (leaves s) = map ((#) n) (map fst (leaves s))" by simp
    ultimately show ?thesis by (simp only: distinct_map) (simp add: inj_on_def)
  qed
  ultimately show ?case by (cases x) (auto simp: case_prod_beta o_def)
qed simp

section \<open>Reading them\<close>

lemma read_step_keys:
  assumes "distinct (map (rel_text \<circ> fst) xs)"
  shows "map_of (foldl (\<lambda>m (p, x). case file_text x of Some t \<Rightarrow> bmap_insert (rel_text p) t m | None \<Rightarrow> m) [] xs) k = Some t \<longleftrightarrow>
    (\<exists>p x. (p, x) \<in> set xs \<and> rel_text p = k \<and> file_text x = Some t)"
    and "bmap_ok (foldl (\<lambda>m (p, x). case file_text x of Some t \<Rightarrow> bmap_insert (rel_text p) t m | None \<Rightarrow> m) [] xs)"
  using assms
proof (induction xs arbitrary: k t rule: rev_induct)
  case (snoc e xs)
  obtain p x where e: "e = (p, x)" by (cases e)
  {
    case 1
    then have d: "distinct (map (rel_text \<circ> fst) xs)" and new: "rel_text p \<notin> (rel_text \<circ> fst) ` set xs" by (auto simp: e o_def)
    show ?case
    proof (cases "file_text x")
      case None
      then show ?thesis using snoc.IH(1) [OF d] by (auto simp: e)
    next
      case (Some u)
      show ?thesis
      proof (cases "k = rel_text p")
        case True
        have "\<not> (\<exists>q y. (q, y) \<in> set xs \<and> rel_text q = k)" using new True by force
        then show ?thesis using Some True by (auto simp: e)
      next
        case False
        then show ?thesis using Some snoc.IH(1) [OF d] by (auto simp: e)
      qed
    qed
  next
    case 2
    then show ?case using snoc.IH(2) by (auto simp: e bmap_insert_ok split: option.split)
  }
qed (simp_all add: bmap_ok_def)

definition slash_free :: "dir \<Rightarrow> bool" where
  "slash_free d \<longleftrightarrow> (\<forall>p x. leaf_at p d = Some x \<longrightarrow> (\<forall>c\<in>set p. CHR ''/'' \<notin> set c))"

lemma read_tree_files_iff:
  assumes "wf_dir d" "slash_free d"
  shows "map_of (read_tree_files d) k = Some t \<longleftrightarrow> leaf_at (split_on CHR ''/'' k) d = Some (FileN t) \<and> utf8_valid t"
    and "bmap_ok (read_tree_files d)"
proof -
  have files: "(p, x) \<in> set (files_under d) \<longleftrightarrow> leaf_at p d = Some x" for p x
    using leaves_iff [OF assms(1)] by (simp add: files_under_def)
  have split: "split_on CHR ''/'' (rel_text p) = p" if "leaf_at p d = Some x" for p x
    using assms(2) that unfolding slash_free_def rel_text_def by (intro split_join_on) auto
  have "distinct (map fst (files_under d))"
  proof -
    have "distinct (leaves d)" "inj_on fst (set (leaves d))"
      using leaves_distinct [OF assms(1)] by (simp_all add: distinct_map)
    then show ?thesis by (simp add: files_under_def distinct_map)
  qed
  moreover have "inj_on rel_text (fst ` set (files_under d))"
    by (rule inj_on_inverseI [of _ "split_on CHR ''/''"]) (use split files in force)
  ultimately have dist: "distinct (map (rel_text \<circ> fst) (files_under d))"
    by (simp add: distinct_map comp_inj_on_iff)
  show "bmap_ok (read_tree_files d)"
    unfolding read_tree_files_def read_into_def by (rule read_step_keys(2) [OF dist])
  have "map_of (read_tree_files d) k = Some t \<longleftrightarrow> (\<exists>p x. leaf_at p d = Some x \<and> rel_text p = k \<and> file_text x = Some t)"
    unfolding read_tree_files_def read_into_def read_step_keys(1) [OF dist] files by blast
  also have "\<dots> \<longleftrightarrow> leaf_at (split_on CHR ''/'' k) d = Some (FileN t) \<and> utf8_valid t" (is "?l \<longleftrightarrow> ?r")
  proof
    assume ?l
    then obtain p x where p: "leaf_at p d = Some x" "rel_text p = k" "file_text x = Some t" by blast
    then have "split_on CHR ''/'' k = p" using split by blast
    then show ?r using p(1,3) by (auto simp: file_text_def split: fs_node.splits if_splits)
  next
    assume ?r
    moreover have "rel_text (split_on CHR ''/'' k) = k" by (simp add: rel_text_def)
    moreover have "file_text (FileN t) = Some t" if "utf8_valid t" using that by (simp add: file_text_def)
    ultimately show ?l by blast
  qed
  finally show "map_of (read_tree_files d) k = Some t \<longleftrightarrow> leaf_at (split_on CHR ''/'' k) d = Some (FileN t) \<and> utf8_valid t" .
qed

section \<open>Writing them\<close>

definition key_path :: "string \<Rightarrow> string list" where
  "key_path k = split_on CHR ''/'' k"

lemma key_path_inj: "key_path k = key_path k' \<longleftrightarrow> k = k'"
  unfolding key_path_def by (metis join_split_on)

lemma key_path_ne [simp]: "key_path k \<noteq> []"
  by (simp add: key_path_def)

text \<open>A map that is the content of a tree: the parts of its paths are names that a tree can hold and
  that a snapshot tracks, no file lies below another, and the texts are valid UTF-8.\<close>

definition tracked_name :: "string \<Rightarrow> bool" where
  "tracked_name c \<longleftrightarrow> validate_name c \<and> \<not> skipped c"

definition tree_keys :: "string list \<Rightarrow> bool" where
  "tree_keys ks \<longleftrightarrow> distinct ks \<and> (\<forall>k\<in>set ks. \<forall>c\<in>set (key_path k). tracked_name c) \<and>
     (\<forall>k\<in>set ks. \<forall>k'\<in>set ks. k \<noteq> k' \<longrightarrow> \<not> prefix (key_path k) (key_path k'))"

definition tree_content :: "(string \<times> string) list \<Rightarrow> bool" where
  "tree_content m \<longleftrightarrow> bmap_ok m \<and> tree_keys (map fst m) \<and> (\<forall>(k, t)\<in>set m. utf8_valid t)"

definition holds :: "(string \<times> string) list \<Rightarrow> dir \<Rightarrow> bool" where
  "holds m d \<longleftrightarrow> wf_dir d \<and>
     (\<forall>q x. leaf_at q d = Some x \<longleftrightarrow> (\<exists>(k, t)\<in>set m. q = key_path k \<and> x = FileN t)) \<and>
     (\<forall>q. dir_at q d \<longleftrightarrow> q = [] \<or> (\<exists>k\<in>fst ` set m. strict_prefix q (key_path k)))"

lemma holds_Nil: "holds [] []"
proof -
  have "leaf_at q [] = None" for q by (cases q) (simp_all add: leaf_at_Cons)
  moreover have "dir_at q [] \<longleftrightarrow> q = []" for q by (cases q) (simp_all add: dir_at_Cons)
  ultimately show ?thesis by (simp add: holds_def)
qed

lemma name_parts_tracked: "\<forall>c\<in>set (key_path k). tracked_name c \<Longrightarrow> name_parts k = key_path k \<and> plain_path (key_path k)"
proof -
  assume a: "\<forall>c\<in>set (key_path k). tracked_name c"
  then have "\<forall>c\<in>set (key_path k). c \<noteq> [] \<and> c \<noteq> ''.'' \<and> c \<noteq> ''..'' \<and> CHR 0x00 \<notin> set c"
    by (simp add: tracked_name_def validate_name_def)
  then show ?thesis unfolding name_parts_def plain_path_def key_path_def by (auto simp: filter_id_conv)
qed

lemma strict_prefix_butlast: "xs \<noteq> [] \<Longrightarrow> strict_prefix q xs \<longleftrightarrow> prefix q (butlast xs)"
  using prefix_snoc [of q "butlast xs" "last xs"] prefix_length_le [of xs "butlast xs"]
  by (cases xs rule: rev_cases) (auto simp: strict_prefix_def dest: prefix_length_le)

lemma write_one:
  assumes "holds m d" "tree_keys (map fst m @ [k])"
  shows "\<exists>d1 d2. create_dir_all (butlast (key_path k)) d = (Some (butlast (key_path k)), d1) \<and>
    write_file (butlast (key_path k)) (last (key_path k)) t d1 = Some d2 \<and> holds (m @ [(k, t)]) d2"
proof -
  let ?cs = "butlast (key_path k)" and ?n = "last (key_path k)"
  have path: "?cs @ [?n] = key_path k" by simp
  have wf: "wf_dir d" and leaf: "\<And>q x. leaf_at q d = Some x \<longleftrightarrow> (\<exists>(k, t)\<in>set m. q = key_path k \<and> x = FileN t)"
    and dir: "\<And>q. dir_at q d \<longleftrightarrow> q = [] \<or> (\<exists>k\<in>fst ` set m. strict_prefix q (key_path k))"
    using assms(1) by (auto simp: holds_def)
  have keys: "k \<notin> fst ` set m" "\<And>k'. k' \<in> fst ` set m \<Longrightarrow> \<not> prefix (key_path k') (key_path k) \<and> \<not> prefix (key_path k) (key_path k')"
    using assms(2) by (auto simp: tree_keys_def)
  have plain: "plain_path (?cs @ [?n])"
    using assms(2) name_parts_tracked [of k] unfolding path by (simp add: tree_keys_def)
  have no_leaf: "leaf_at q d = None" if "prefix q (key_path k)" for q
  proof (rule ccontr)
    assume "leaf_at q d \<noteq> None"
    then obtain k' t' where "(k', t') \<in> set m" "q = key_path k'" using leaf by auto
    then show False using keys(2) that by force
  qed
  have no_dir: "\<not> dir_at (?cs @ [?n]) d"
    unfolding path dir using keys(2) by (auto simp: strict_prefix_def)
  have "leaf_at q d = None" if "prefix q ?cs" for q
    using no_leaf [of q] that path prefix_prefix [of q ?cs "[?n]"] by metis
  moreover have "leaf_at (?cs @ [?n]) d = None" unfolding path by (rule no_leaf) simp
  ultimately obtain d1 d2 where d2: "create_dir_all ?cs d = (Some ?cs, d1)" "write_file ?cs ?n t d1 = Some d2" "wf_dir d2"
    "\<And>q. leaf_at q d2 = (if q = key_path k then Some (FileN t) else leaf_at q d)"
    "\<And>q. dir_at q d2 \<longleftrightarrow> dir_at q d \<or> prefix q ?cs"
    using store_file [OF wf plain _ _ no_dir, of t] path by metis
  have "leaf_at q d2 = Some x \<longleftrightarrow> (\<exists>(k, t)\<in>set (m @ [(k, t)]). q = key_path k \<and> x = FileN t)" for q x
  proof (cases "q = key_path k")
    case True
    then have "\<not> (\<exists>(k', t')\<in>set m. q = key_path k' \<and> x = FileN t')" using keys(1) by (force simp: key_path_inj)
    then show ?thesis using True d2(4) by auto
  next
    case False
    then show ?thesis using d2(4) leaf by auto
  qed
  moreover have "dir_at q d2 \<longleftrightarrow> q = [] \<or> (\<exists>k\<in>fst ` set (m @ [(k, t)]). strict_prefix q (key_path k))" for q
    unfolding d2(5) dir by (auto simp: strict_prefix_butlast)
  ultimately have "holds (m @ [(k, t)]) d2" using d2(3) by (simp add: holds_def)
  then show ?thesis using d2(1,2) by blast
qed

lemma write_files_holds:
  "holds m d \<Longrightarrow> tree_keys (map fst m @ map fst acc) \<Longrightarrow> \<exists>d'. write_files out acc d = Inr d' \<and> holds (m @ acc) d'"
proof (induction acc arbitrary: m d)
  case (Cons e acc)
  obtain k t where e: "e = (k, t)" by (cases e)
  have keys: "tree_keys (map fst m @ [k])" using Cons.prems(2) by (auto simp: tree_keys_def e)
  from write_one [OF Cons.prems(1) this, of t] obtain d1 d2 where
    d: "create_dir_all (butlast (key_path k)) d = (Some (butlast (key_path k)), d1)"
      "write_file (butlast (key_path k)) (last (key_path k)) t d1 = Some d2" "holds (m @ [(k, t)]) d2" by blast
  have "name_parts k = key_path k" using keys name_parts_tracked [of k] by (simp add: tree_keys_def)
  then have "write_files out (e # acc) d = write_files out acc d2" using d(1,2) by (simp add: e Let_def)
  then show ?case using Cons.IH [OF d(3)] Cons.prems(2) by (simp add: e)
qed simp

section \<open>The canonical form keeps the files\<close>

function clean :: "dir \<Rightarrow> bool" where
  "clean [] = True"
| "clean ((n, x) # es) =
     (n \<notin> fst ` set es \<and> tracked_name n \<and> (case x of FileN _ \<Rightarrow> True | DirN sub \<Rightarrow> clean sub | _ \<Rightarrow> False) \<and> clean es)"
  by pat_completeness auto
termination by (relation "measure (size_list (size_prod (\<lambda>_. 0) size))") auto

lemma clean_iff:
  "clean d \<longleftrightarrow> distinct (map fst d) \<and>
     (\<forall>(n, x)\<in>set d. tracked_name n \<and> (case x of FileN _ \<Rightarrow> True | DirN sub \<Rightarrow> clean sub | _ \<Rightarrow> False))"
proof (induction d)
  case (Cons e d)
  then show ?case by (cases e) (simp, blast)
qed simp

lemma clean_readable: "clean d \<Longrightarrow> readable d"
  by (induction d rule: clean.induct) (auto simp: tracked_name_def split: fs_node.splits)

lemma clean_tracked:
  "clean d \<Longrightarrow> tracked d = map (\<lambda>(n, x). (n, case x of DirN s \<Rightarrow> DirN (canon s) | _ \<Rightarrow> x)) d"
  by (induction d rule: clean.induct) (auto simp: tracked_name_def canon_def split: fs_node.splits)

lemma map_of_canon:
  assumes "clean d"
  shows "map_of (canon d) n = map_option (\<lambda>x. case x of DirN s \<Rightarrow> DirN (canon s) | _ \<Rightarrow> x) (map_of d n)"
proof -
  let ?f = "\<lambda>x. case x of DirN s \<Rightarrow> DirN (canon s) | _ \<Rightarrow> x"
  have d: "distinct (map fst (tracked d))" using tracked_distinct clean_readable [OF assms] by blast
  then have "distinct (map fst (sort_key fst (tracked d)))" by (simp add: distinct_map)
  then have "map_of (canon d) = map_of (tracked d)" unfolding canon_def using d by (simp add: map_of_inject_set)
  also have "\<dots> = map_of (map (\<lambda>(n, x). (n, ?f x)) d)" by (simp add: clean_tracked [OF assms])
  finally show ?thesis by (simp add: map_of_map)
qed

lemma leaf_at_canon: "clean d \<Longrightarrow> leaf_at p (canon d) = leaf_at p d"
proof (induction p arbitrary: d)
  case (Cons c p)
  show ?case
  proof (cases "map_of d c")
    case None
    then show ?thesis by (simp add: leaf_at_Cons map_of_canon [OF Cons.prems])
  next
    case (Some x)
    then have "(c, x) \<in> set d" by (rule map_of_SomeD)
    then have "case x of FileN _ \<Rightarrow> True | DirN sub \<Rightarrow> clean sub | _ \<Rightarrow> False" using Cons.prems unfolding clean_iff [of d] by blast
    then show ?thesis using Some Cons.IH by (cases x) (simp_all add: leaf_at_Cons map_of_canon [OF Cons.prems])
  qed
qed simp

lemma plain_wf: "plain d \<Longrightarrow> wf_dir d"
  by (induction d rule: plain.induct) (auto split: fs_node.splits)

lemma clean_paths:
  "wf_dir d \<Longrightarrow> (\<And>p x. leaf_at p d = Some x \<Longrightarrow> \<exists>b. x = FileN b) \<Longrightarrow>
   (\<And>p c. node_at p d \<noteq> None \<Longrightarrow> c \<in> set p \<Longrightarrow> tracked_name c) \<Longrightarrow> clean d"
proof (induction "size_list (size_prod (\<lambda>_. 0) size) d" arbitrary: d rule: less_induct)
  case less
  have at: "map_of d n = Some x" if "(n, x) \<in> set d" for n x using that wf_dir_map_of [OF less.prems(1)] by simp
  have "tracked_name n \<and> (case x of FileN _ \<Rightarrow> True | DirN sub \<Rightarrow> clean sub | _ \<Rightarrow> False)" if e: "(n, x) \<in> set d" for n x
  proof
    have node: "node_at (n # q) d = sub_node q x" for q using at [OF e] by (simp add: node_at_Cons)
    then have "node_at [n] d \<noteq> None" by simp
    then show "tracked_name n" using less.prems(3) by fastforce
    show "case x of FileN _ \<Rightarrow> True | DirN sub \<Rightarrow> clean sub | _ \<Rightarrow> False"
    proof (cases x)
      case (DirN s)
      have "clean s"
      proof (rule less.hyps)
        have "size x < size_list (size_prod (\<lambda>_. 0) size) d" by (rule size_list_estimation [OF e]) simp
        then show "size_list (size_prod (\<lambda>_. 0) size) s < size_list (size_prod (\<lambda>_. 0) size) d" using DirN by simp
        show "wf_dir s" using less.prems(1) e DirN unfolding wf_dir_iff [of d] by blast
        show "\<exists>b. y = FileN b" if "leaf_at p s = Some y" for p y
          using less.prems(2) [of "n # p" y] that at [OF e] DirN by (simp add: leaf_at_Cons)
        show "tracked_name c" if "node_at p s \<noteq> None" "c \<in> set p" for p c
          using less.prems(3) [of "n # p" c] that node [of p] DirN by simp
      qed
      then show ?thesis using DirN by simp
    qed (use less.prems(2) [of "[n]" x] at [OF e] in \<open>simp_all add: leaf_at_Cons\<close>)
  qed
  then show ?case using less.prems(1) unfolding clean_iff [of d] wf_dir_iff [of d] by blast
qed

lemma holds_clean:
  assumes "holds m d" "\<forall>k\<in>fst ` set m. \<forall>c\<in>set (key_path k). tracked_name c"
  shows "clean d"
proof (rule clean_paths)
  show "wf_dir d" using assms(1) by (simp add: holds_def)
  show "\<exists>b. x = FileN b" if "leaf_at p d = Some x" for p x using assms(1) that by (auto simp: holds_def)
  show "tracked_name c" if "node_at p d \<noteq> None" "c \<in> set p" for p c
  proof -
    have "p = [] \<or> (\<exists>k\<in>fst ` set m. prefix p (key_path k))"
      using that(1) assms(1) unfolding node_at_None_iff holds_def by (force simp: strict_prefix_def)
    then show ?thesis using assms(2) that(2) set_mono_prefix by fastforce
  qed
qed

lemma read_canon:
  assumes "holds m d" "tree_content m"
  shows "read_tree_files (canon d) = m"
proof (rule bmap_ok_eq)
  have names: "\<forall>k\<in>fst ` set m. \<forall>c\<in>set (key_path k). tracked_name c" using assms(2) by (simp add: tree_content_def tree_keys_def)
  have cl: "clean d" by (rule holds_clean [OF assms(1) names])
  have wf: "wf_dir (canon d)" by (rule plain_wf [OF plain_canon [OF clean_readable [OF cl]]])
  have leaf: "leaf_at q (canon d) = Some x \<longleftrightarrow> (\<exists>(k, t)\<in>set m. q = key_path k \<and> x = FileN t)" for q x
    using assms(1) leaf_at_canon [OF cl] by (simp add: holds_def)
  have sf: "slash_free (canon d)"
    unfolding slash_free_def leaf by (auto simp: key_path_def dest: split_on_elems_free)
  show "bmap_ok (read_tree_files (canon d))" by (rule read_tree_files_iff(2) [OF wf sf])
  show "bmap_ok m" using assms(2) by (simp add: tree_content_def)
  show "map_of (read_tree_files (canon d)) = map_of m"
  proof
    fix k
    have "map_of (read_tree_files (canon d)) k = Some t \<longleftrightarrow> (k, t) \<in> set m" for t
      unfolding read_tree_files_iff(1) [OF wf sf] key_path_def [symmetric] leaf
      using assms(2) by (auto simp: key_path_inj tree_content_def)
    moreover have "map_of m k = Some t \<longleftrightarrow> (k, t) \<in> set m" for t
      using bmap_ok_distinct [of m] assms(2) by (simp add: tree_content_def)
    ultimately show "map_of (read_tree_files (canon d)) k = map_of m k" by (metis not_None_eq)
  qed
qed

section \<open>Properties\<close>

text \<open>C16: The head that a reconciliation names holds exactly the merged content: a landing that later
  finds it under the ref of the trunk starts from the map that was merged, file by file.\<close>
theorem reconciled_head_exact:
  assumes "reconciled_content env fs reg log policy subs scratch = Some (Inr (acc, conflicted))" "carried_of env acc 0 = Some n"
    and "tree_content acc" "full_digest (sha256 env)" "store_ok (sha256 env) fs"
    and "\<forall>d. write_files (join_path scratch ''out'') acc [] = Inr d \<longrightarrow> countable_objs (sha256 env) d \<and> no_clash (sha256 env) fs [d]"
  shows "\<exists>i fs'. reconcile_core env fs reg log policy subs scratch =
      Some (Inr \<lparr>rtip = i, rfiles = length acc, rcarried = n, rconflicted = sorted_list_of_set conflicted\<rparr>, fs') \<and>
    (\<forall>refs into. map_of refs (reconciled_ref (queue_name policy)) = Some (id_to_string i) \<longrightarrow>
      materialize_trunk env fs' reg refs (queue_name policy) into = Some (Inr acc))"
proof -
  have keys: "tree_keys (map fst acc)" using assms(3) by (simp add: tree_content_def)
  then obtain d where d: "write_files (join_path scratch ''out'') acc [] = Inr d" "holds acc d"
    using write_files_holds [OF holds_Nil, of acc] by auto
  have cl: "clean d" by (rule holds_clean [OF d(2)]) (use keys in \<open>simp add: tree_keys_def\<close>)
  note readable = clean_readable [OF cl]
  let ?i = "obj_id (sha256 env) (root_obj (sha256 env) d)" and ?fs = "store_all (sha256 env) (all_objs (sha256 env) d) fs"
  have "snapshot (sha256 env) p d fs = (Inr ?i, ?fs)" for p by (rule snapshot_all_objs [OF readable])
  then have core: "reconcile_core env fs reg log policy subs scratch =
      Some (Inr \<lparr>rtip = ?i, rfiles = length acc, rcarried = n, rconflicted = sorted_list_of_set conflicted\<rparr>, ?fs)"
    using assms(1,2) d(1) by (simp add: reconcile_core_def)
  have "materialize (sha256 env) ?fs ?i into [] = Some (Inr (), canon d)" for into
    using assms(6) d(1) by (intro stored_checkout [OF readable assms(4,5)]) simp_all
  then have "check_out env ?fs ?i into = Some (Inr (canon d))" for into by (simp add: check_out_def)
  moreover have "id_from_str (id_to_string ?i) = Some (Inr ?i)" by (rule id_from_to_string [OF obj_id_ok [OF assms(4)]])
  ultimately have "materialize_trunk env ?fs reg refs (queue_name policy) into = Some (Inr acc)"
    if "map_of refs (reconciled_ref (queue_name policy)) = Some (id_to_string ?i)" for refs into
    using that read_canon [OF d(2) assms(3)] by (simp add: materialize_trunk_def)
  with core show ?thesis by blast
qed

lemma reconciled_head_exact_witness:
  "\<exists>i fs'. reconcile_core ex_tools ex_objs new_queues ex_log ex_queue [sub1] ''/s'' =
      Some (Inr \<lparr>rtip = i, rfiles = 1, rcarried = 0, rconflicted = []\<rparr>, fs') \<and>
    materialize_trunk ex_tools fs' new_queues [(''reconciled/q'', id_to_string i)] ''q'' ''/t'' = Some (Inr [(''a.txt'', ''x'')])"
proof -
  have "materialize_trunk ex_tools ex_objs new_queues (ref_table ex_log [''c1'' \<mapsto> ex_tip]) ''q'' (join_path ''/s'' ''head'') = Some (Inr [])"
    by (simp add: ex_log materialize_trunk_def materialize_queue_base_def reconciled_ref_def)
  then have c: "reconciled_content ex_tools ex_objs new_queues ex_log ex_queue [sub1] ''/s'' = Some (Inr ([(''a.txt'', ''x'')], {}))"
    by (simp add: reconciled_content_def ex_log ex_queue ex_sub1 ex_tip_id ex_commit_map ex_merge del: reconcile_files.simps)
  have t: "tree_content [(''a.txt'', ''x'')]" by code_simp
  have obs: "list_all obj_ok (all_objs ex_sha ex_note)" by (rule all_objs_ok [OF ex_sha_full ex_note_ok(1,2)])
  have ok: "store_ok ex_sha ex_objs" unfolding ex_objs_def by (rule store_all_ok [OF _ obs]) (simp add: store_ok_def)
  have "held ex_sha ex_objs \<subseteq> set (all_objs ex_sha ex_note)"
    using held_store_all [OF obs, of ex_sha Map.empty] by (auto simp: ex_objs_def held_def)
  then have "no_clash ex_sha ex_objs [ex_note]"
    using ex_note_no_clash unfolding no_clash_def by (auto elim: inj_on_subset)
  then have side: "\<forall>d. write_files (join_path ''/s'' ''out'') [(''a.txt'', ''x'')] [] = Inr d \<longrightarrow>
      countable_objs (sha256 ex_tools) d \<and> no_clash (sha256 ex_tools) ex_objs [d]"
    using ex_note_ok(2) by (simp add: ex_land_out ex_sha_tools del: write_files.simps)
  have "full_digest (sha256 ex_tools)" "store_ok (sha256 ex_tools) ex_objs" using ex_sha_full ok by (simp_all add: ex_sha_tools)
  from reconciled_head_exact [OF c ex_land_out(2) t this side] show ?thesis
    by (fastforce simp: ex_queue reconciled_ref_def dest: spec [of _ "[(''reconciled/q'', id)]" for id])
qed

end
