(* ===== verification/Transport.thy ===== *)
theory Transport
  imports Review GitObject
begin

text \<open>
  The transport of \<open>omoplata-cli/src/sync.rs\<close>: the requests and responses of the HTTP client and
  server, the bodies they carry and the hexadecimal framing of objects. The network is a parameter
  that answers the bytes of one request, or fails to connect; the server reads its connection in
  chunks, of which the empty one is the end of the stream. Errors are the texts that \<open>anyhow\<close>
  shows. The JSON of the bodies is serde's and a parameter of the operations that use it.
\<close>

section \<open>Requests and responses\<close>

abbreviation crlf :: string where
  "crlf \<equiv> [CHR 0x0D, CHR 0x0A]"

record http_response =
  status :: nat
  rbody :: string

type_synonym network = "string \<Rightarrow> string \<Rightarrow> string + string"

definition http_authority :: "string \<Rightarrow> string option" where
  "http_authority remote =
     (if \<not> prefix ''http://'' remote then None
      else let authority = hd (split_on CHR ''/'' (drop 7 remote)) in
        if authority = [] then None else Some authority)"

fun find_header_end :: "string \<Rightarrow> nat option" where
  "find_header_end [] = None"
| "find_header_end (b # bs) =
     (if take 4 (b # bs) = crlf @ crlf then Some 0 else map_option Suc (find_header_end bs))"

definition parse_response :: "string \<Rightarrow> string + http_response" where
  "parse_response raw =
     (case find_header_end raw of
        None \<Rightarrow> Inl ''malformed HTTP response (no header end)''
      | Some n \<Rightarrow>
        (let head = take n raw in
         if \<not> utf8_valid head then Inl ''non-utf8 response head''
         else
           let status_line = (case str_lines head of [] \<Rightarrow> [] | l # _ \<Rightarrow> l) in
           (case Option.bind (nth_opt (split_whitespace status_line) 1) (parse_uint (2 ^ 16)) of
              None \<Rightarrow> Inl (''malformed status line: '' @ status_line)
            | Some st \<Rightarrow> Inr \<lparr>status = st, rbody = drop (n + 4) raw\<rparr>)))"

definition request_text :: "string \<Rightarrow> string \<Rightarrow> string \<Rightarrow> string \<Rightarrow> string option \<Rightarrow> string" where
  "request_text authority meth path body token =
     (let auth = (case token of Some t \<Rightarrow> ''Authorization: Bearer '' @ t @ crlf | None \<Rightarrow> []) in
      meth @ '' '' @ path @ '' HTTP/1.1'' @ crlf @ ''Host: '' @ authority @ crlf @ auth @
      ''Content-Length: '' @ show_nat (length body) @ crlf @ ''Connection: close'' @ crlf @ crlf @ body)"

definition request_http ::
  "network \<Rightarrow> string \<Rightarrow> string \<Rightarrow> string \<Rightarrow> string \<Rightarrow> string option \<Rightarrow> string + http_response" where
  "request_http net authority meth path body token =
     and_then (net authority (request_text authority meth path body token)) parse_response"

definition http_get :: "network \<Rightarrow> string \<Rightarrow> string \<Rightarrow> string option \<Rightarrow> string + http_response" where
  "http_get net authority path token = request_http net authority ''GET'' path [] token"

definition http_post :: "network \<Rightarrow> string \<Rightarrow> string \<Rightarrow> string \<Rightarrow> string option \<Rightarrow> string + http_response" where
  "http_post net authority path body token = request_http net authority ''POST'' path body token"

definition write_response :: "nat \<Rightarrow> string \<Rightarrow> string \<Rightarrow> string" where
  "write_response st body reason =
     ''HTTP/1.1 '' @ show_nat st @ '' '' @ reason @ crlf @ ''Content-Length: '' @ show_nat (length body) @ crlf @
     ''Connection: close'' @ crlf @ crlf @ body"

section \<open>The server reads a request\<close>

fun read_http_head :: "string \<Rightarrow> string list \<Rightarrow> string + (nat \<times> string \<times> string list)" where
  "read_http_head buf [] =
     (case find_header_end buf of
        Some n \<Rightarrow> Inr (n, buf, [])
      | None \<Rightarrow> Inl ''connection closed before headers completed'')"
| "read_http_head buf (chunk # rest) =
     (case find_header_end buf of
        Some n \<Rightarrow> Inr (n, buf, chunk # rest)
      | None \<Rightarrow>
          if chunk = [] then Inl ''connection closed before headers completed''
          else read_http_head (buf @ chunk) rest)"

fun read_body :: "string \<Rightarrow> string list \<Rightarrow> nat \<Rightarrow> string" where
  "read_body body [] n = body"
| "read_body body (chunk # rest) n =
     (if length body < n \<and> chunk \<noteq> [] then read_body (body @ chunk) rest n else body)"

definition http_header :: "nat \<times> string option \<Rightarrow> line \<Rightarrow> nat \<times> string option" where
  "http_header acc ln =
     (case (split_once CHR '':'' ln, acc) of
        (None, acc) \<Rightarrow> acc
      | (Some (k, v), n, bearer) \<Rightarrow>
          let k = map ascii_lower (trim k) in
          if k = ''content-length'' then (case parse_uint usize_limit (trim v) of Some m \<Rightarrow> m | None \<Rightarrow> 0, bearer)
          else if k = ''authorization'' then
            (n, if prefix ''Bearer '' (trim v) then Some (trim (drop 7 (trim v))) else None)
          else (n, bearer))"

definition read_request :: "string list \<Rightarrow> string + (string \<times> string \<times> string option \<times> string)" where
  "read_request chunks =
     and_then (read_http_head [] chunks) (\<lambda>(n, buf, rest).
       if \<not> utf8_valid (take n buf) then Inl ''non-utf8 request head''
       else
         let lns = str_lines (take n buf);
             parts = split_whitespace (case lns of [] \<Rightarrow> [] | l # _ \<Rightarrow> l);
             word = (\<lambda>k. case nth_opt parts k of Some w \<Rightarrow> w | None \<Rightarrow> []);
             (len, bearer) = foldl http_header (0, None) (tl lns)
         in Inr (word 0, word 1, bearer, take len (read_body (drop (n + 4) buf) rest len)))"

section \<open>Bodies\<close>

record push_payload =
  to_queue :: string
  psubmission :: submission
  ptips :: "(string \<times> string) list"
  pobjects :: "(string \<times> string) list"

record push_result =
  accepted :: bool
  pmessage :: string

definition fetch_refs ::
  "(string \<Rightarrow> string + (string \<times> string) list) \<Rightarrow> network \<Rightarrow> string \<Rightarrow> string option \<Rightarrow> string + (string \<times> string) list" where
  "fetch_refs decode_refs net authority token =
     and_then (http_get net authority ''/refs'' token) (\<lambda>resp.
       if status resp \<noteq> 200
       then Inl (''remote '' @ authority @ '': GET /refs returned '' @ show_nat (status resp))
       else decode_refs (rbody resp))"

definition fetch_object :: "network \<Rightarrow> string \<Rightarrow> string \<Rightarrow> string option \<Rightarrow> string + string" where
  "fetch_object net authority i token =
     and_then (http_get net authority (''/object/'' @ i) token) (\<lambda>resp.
       if status resp \<noteq> 200
       then Inl (''remote '' @ authority @ '': GET /object/'' @ i @ '' returned '' @ show_nat (status resp))
       else Inr (rbody resp))"

definition push_over ::
  "(push_payload \<Rightarrow> string) \<Rightarrow> (string \<Rightarrow> string + push_result) \<Rightarrow> network \<Rightarrow> string \<Rightarrow> push_payload \<Rightarrow> string option \<Rightarrow>
   string + push_result" where
  "push_over to_json decode_result net authority p token =
     and_then (http_post net authority ''/push'' (to_json p) token) (\<lambda>resp.
       if status resp \<noteq> 200
       then Inl (''remote '' @ authority @ '': POST /push returned '' @ show_nat (status resp) @ '' ('' @
         trim (utf8_lossy (rbody resp)) @ '')'')
       else decode_result (rbody resp))"

section \<open>Hexadecimal objects\<close>

definition to_hex :: "string \<Rightarrow> string" where
  "to_hex bytes = concat (map (\<lambda>b. [hex_digit (byte b div 16), hex_digit (byte b mod 16)]) bytes)"

fun hex_bytes :: "string \<Rightarrow> string + string" where
  "hex_bytes (h # l # s) =
     (case hex_value h of
        None \<Rightarrow> Inl ''invalid hex digit''
      | Some hi \<Rightarrow>
        (case hex_value l of
           None \<Rightarrow> Inl ''invalid hex digit''
         | Some lo \<Rightarrow> and_then (hex_bytes s) (\<lambda>out. Inr (char_of (16 * hi + lo) # out))))"
| "hex_bytes s = Inr []"

definition from_hex :: "string \<Rightarrow> string + string" where
  "from_hex s = (if length s mod 2 \<noteq> 0 then Inl ''odd-length hex string'' else hex_bytes s)"

text \<open>The outer option is the panic of parsing an id that is cut inside a character.\<close>

definition object_from_hex :: "string \<Rightarrow> (string + object) option" where
  "object_from_hex hex =
     (case from_hex hex of
        Inl e \<Rightarrow> Some (Inl e)
      | Inr bytes \<Rightarrow>
          map_option (\<lambda>r. case r of Inl _ \<Rightarrow> Inl ''decoding object'' | Inr ob \<Rightarrow> Inr ob) (deserialize bytes))"

section \<open>Framing\<close>

text \<open>The lines of a head, and the empty line after it.\<close>

fun join_crlf :: "line list \<Rightarrow> string" where
  "join_crlf [] = []"
| "join_crlf [x] = x"
| "join_crlf (x # y # ys) = x @ crlf @ join_crlf (y # ys)"

definition head_line :: "line \<Rightarrow> bool" where
  "head_line l \<longleftrightarrow> l \<noteq> [] \<and> newline \<notin> set l"

lemma find_header_end_line:
  "newline \<notin> set l \<Longrightarrow> s = [] \<or> hd s \<noteq> newline \<Longrightarrow>
   find_header_end (l @ s) = map_option ((+) (length l)) (find_header_end s)"
proof (induction l)
  case Nil
  then show ?case by (cases "find_header_end s") auto
next
  case (Cons c l)
  have "take 4 (c # l @ s) \<noteq> crlf @ crlf"
    using Cons.prems by (cases l; cases s) (auto simp: numeral_eq_Suc)
  then show ?case using Cons by (cases "find_header_end s") auto
qed

lemma find_header_end_crlf:
  "l \<noteq> [] \<Longrightarrow> newline \<notin> set l \<Longrightarrow> s = [] \<or> hd s \<noteq> newline \<Longrightarrow>
   find_header_end (crlf @ l @ s) = map_option ((+) 2) (find_header_end (l @ s))"
  by (cases l; cases "tl l"; cases s; cases "find_header_end (l @ s)") (auto simp: numeral_eq_Suc)

lemma find_header_end_empty: "find_header_end (crlf @ crlf @ body) = Some 0"
  by (simp add: numeral_eq_Suc)

lemma find_header_end_head:
  "ls \<noteq> [] \<Longrightarrow> list_all head_line ls \<Longrightarrow>
   find_header_end (crlf @ join_crlf ls @ crlf @ crlf @ body) = Some (2 + length (join_crlf ls))"
proof (induction ls rule: join_crlf.induct)
  case (2 x)
  then show ?case
    using find_header_end_crlf [of x "crlf @ crlf @ body"] find_header_end_line [of x "crlf @ crlf @ body"]
      find_header_end_empty [of body]
    by (simp add: head_line_def del: find_header_end.simps)
next
  case (3 x y ys)
  let ?s = "crlf @ join_crlf (y # ys) @ crlf @ crlf @ body"
  have "find_header_end ?s = Some (2 + length (join_crlf (y # ys)))" using 3 by simp
  then show ?case
    using find_header_end_crlf [of x ?s] find_header_end_line [of x ?s] 3(3)
    by (simp add: head_line_def del: find_header_end.simps)
qed simp

lemma find_header_end_message:
  assumes "ls \<noteq> []" "list_all head_line ls"
  shows "find_header_end (join_crlf ls @ crlf @ crlf @ body) = Some (length (join_crlf ls))"
proof (cases ls)
  case (Cons x xs)
  show ?thesis
  proof (cases xs)
    case Nil
    then show ?thesis
      using Cons assms find_header_end_line [of x "crlf @ crlf @ body"] find_header_end_empty [of body]
      by (simp add: head_line_def del: find_header_end.simps)
  next
    case (Cons y ys)
    then show ?thesis
      using \<open>ls = x # xs\<close> assms find_header_end_head [of xs body]
        find_header_end_line [of x "crlf @ join_crlf xs @ crlf @ crlf @ body"]
      by (simp add: head_line_def del: find_header_end.simps)
  qed
qed (use assms in simp)

lemma str_lines_head: "list_all head_line ls \<Longrightarrow> str_lines (join_crlf ls) = ls"
proof (induction ls rule: join_crlf.induct)
  case (2 x)
  then have "newline \<notin> set x" "x \<noteq> []" by (auto simp: head_line_def)
  moreover have "last x \<noteq> newline" using \<open>x \<noteq> []\<close> \<open>newline \<notin> set x\<close> by (metis last_in_set)
  ultimately show ?case by (simp add: str_lines_def split_inclusive_free strip_line_end_def)
next
  case (3 x y ys)
  have "split_inclusive newline (x @ crlf @ join_crlf (y # ys)) =
    (x @ crlf) # split_inclusive newline (join_crlf (y # ys))"
    using split_inclusive_append_sep [of newline "x @ [CHR 0x0D]" "join_crlf (y # ys)"] 3(2) by (simp add: head_line_def)
  then show ?case using 3 by (simp add: str_lines_def strip_line_end_def Let_def butlast_append)
qed (simp add: str_lines_def)

section \<open>Words and header lines\<close>

lemma words_from_solid: "list_all solid w \<Longrightarrow> words_from cur (w @ s) = words_from (cur @ w) s"
proof (induction w arbitrary: cur)
  case (Cons c w)
  have "p = [] \<or> \<not> prefix p (c # w @ s)" if "p \<in> set ws_chars" for p
    using ws_chars_solid [OF that] Cons.prems by (cases p) auto
  then have "find (\<lambda>p. p \<noteq> [] \<and> prefix p (c # w @ s)) ws_chars = None" by (auto simp: find_None_iff)
  then show ?case using Cons by (subst words_from.simps) simp
qed simp

lemma ws_chars_ascii:
  "take 6 ws_chars = [[CHR 0x09], [newline], [CHR 0x0B], [CHR 0x0C], [CHR 0x0D], '' '']"
  by code_simp

lemma find_space: "find (\<lambda>w. w \<noteq> [] \<and> prefix w (CHR '' '' # s)) ws_chars = Some '' ''"
proof -
  have "find p (take 6 ws_chars @ drop 6 ws_chars) = Some '' ''"
    if "p = (\<lambda>w. w \<noteq> [] \<and> prefix w (CHR '' '' # s))" for p
    unfolding ws_chars_ascii by (simp add: that)
  then show ?thesis by simp
qed

lemma words_from_space: "words_from cur (CHR '' '' # s) = (if cur = [] then [] else [cur]) @ words_from [] s"
  by (subst words_from.simps) (simp only: find_space, simp)

lemma words_from_Nil: "words_from cur [] = (if cur = [] then [] else [cur])"
  by (subst words_from.simps) simp

lemma split_whitespace_3:
  "list_all solid a \<Longrightarrow> list_all solid b \<Longrightarrow> a \<noteq> [] \<Longrightarrow> b \<noteq> [] \<Longrightarrow>
   split_whitespace (a @ '' '' @ b @ CHR '' '' # c) = a # b # split_whitespace c"
  using words_from_solid [of a "[]" "'' '' @ b @ CHR '' '' # c"] words_from_solid [of b "[]" "CHR '' '' # c"]
  by (simp add: split_whitespace_def words_from_space)

lemma trim_space [simp]: "trim (CHR '' '' # s) = trim s"
proof -
  have "strip_pats ws_chars (CHR '' '' # s) = strip_pats ws_chars s"
    by (subst strip_pats.simps) (simp only: find_space, simp)
  then show ?thesis by (simp add: trim_def)
qed

lemma solid_show_nat: "c \<in> set (show_nat n) \<Longrightarrow> solid c"
  using show_nat_digits [of c n] by (auto simp: solid_def digit_char_range)

lemma trim_show_nat [simp]: "trim (show_nat n) = show_nat n"
  by (rule trim_solid) (simp_all add: solid_show_nat [of _ n])

definition token_ok :: "string \<Rightarrow> bool" where
  "token_ok t \<longleftrightarrow> t \<noteq> [] \<and> solid (hd t) \<and> solid (last t) \<and> newline \<notin> set t \<and> utf8_valid t"

lemma lower_names:
  "map ascii_lower ''Host'' = ''host''" "map ascii_lower ''Connection'' = ''connection''"
  "map ascii_lower ''Content-Length'' = ''content-length''"
  "map ascii_lower ''Authorization'' = ''authorization''"
  by code_simp+

lemma http_header_host: "http_header acc (''Host: '' @ a) = acc"
  by (cases acc) (simp add: http_header_def trim_solid solid_def lower_names del: list.map)

lemma http_header_close: "http_header acc ''Connection: close'' = acc"
  by (cases acc) (simp add: http_header_def trim_solid solid_def lower_names del: list.map)

lemma http_header_length:
  "m < usize_limit \<Longrightarrow> http_header (n, b) (''Content-Length: '' @ show_nat m) = (m, b)"
  by (simp add: http_header_def trim_solid solid_def lower_names parse_uint_show del: list.map)

lemma http_header_bearer:
  assumes "token_ok t"
  shows "http_header (n, b) (''Authorization: Bearer '' @ t) = (n, Some t)"
proof -
  have "trim (''Bearer '' @ t) = ''Bearer '' @ t" "trim t = t"
    using assms by (intro trim_solid; simp add: token_ok_def solid_def)+
  then show ?thesis by (simp add: http_header_def trim_solid solid_def lower_names del: list.map)
qed

section \<open>Chunks\<close>

lemma find_header_end_bound: "find_header_end s = Some n \<Longrightarrow> n + 4 \<le> length s"
proof (induction s arbitrary: n)
  case (Cons c s)
  show ?case
  proof (cases "take 4 (c # s) = crlf @ crlf")
    case True
    then have "length (take 4 (c # s)) = 4" by simp
    then have "4 \<le> length (c # s)" by (metis length_take min.absorb_iff1 min.commute nat_le_linear)
    then show ?thesis using True Cons.prems by simp
  next
    case False
    then show ?thesis using Cons by (auto simp del: take_Suc_Cons)
  qed
qed simp

lemma find_header_end_append: "find_header_end s = Some n \<Longrightarrow> find_header_end (s @ t) = Some n"
proof (induction s arbitrary: n)
  case (Cons c s)
  have len: "4 \<le> length (c # s)" using find_header_end_bound [OF Cons.prems] by simp
  then have "take 4 (c # s @ t) = take 4 (c # s)" by (cases s) (auto simp: take_Cons')
  then show ?case using Cons by (auto split: if_splits simp del: take_Suc_Cons)
qed simp

lemma read_http_head_chunks:
  "\<forall>c\<in>set chunks. c \<noteq> [] \<Longrightarrow> find_header_end (buf @ concat chunks) = Some n \<Longrightarrow>
   \<exists>buf' rest. read_http_head buf chunks = Inr (n, buf', rest) \<and> buf' @ concat rest = buf @ concat chunks \<and>
     n + 4 \<le> length buf' \<and> set rest \<subseteq> set chunks"
proof (induction chunks arbitrary: buf)
  case Nil
  then show ?case using find_header_end_bound [of buf n] by simp
next
  case (Cons c cs)
  show ?case
  proof (cases "find_header_end buf")
    case None
    then show ?thesis using Cons.IH [of "buf @ c"] Cons.prems by fastforce
  next
    case (Some m)
    then have "m = n" using find_header_end_append [OF Some, of "concat (c # cs)"] Cons.prems(2) by simp
    then show ?thesis using Some find_header_end_bound [OF Some] by simp
  qed
qed

lemma read_body_chunks:
  "\<forall>c\<in>set chunks. c \<noteq> [] \<Longrightarrow> take n (read_body body chunks n) = take n (body @ concat chunks)"
  by (induction body chunks n rule: read_body.induct) auto

section \<open>The wire carries requests and responses\<close>

definition request_lines :: "string \<Rightarrow> string \<Rightarrow> string \<Rightarrow> nat \<Rightarrow> string option \<Rightarrow> line list" where
  "request_lines authority meth path len token =
     [meth @ '' '' @ path @ '' HTTP/1.1'', ''Host: '' @ authority] @
     (case token of Some t \<Rightarrow> [''Authorization: Bearer '' @ t] | None \<Rightarrow> []) @
     [''Content-Length: '' @ show_nat len, ''Connection: close'']"

lemma request_text_lines:
  "request_text authority meth path body token =
     join_crlf (request_lines authority meth path (length body) token) @ crlf @ crlf @ body"
  by (cases token) (simp_all add: request_text_def request_lines_def)

definition word_ok :: "string \<Rightarrow> bool" where
  "word_ok w \<longleftrightarrow> w \<noteq> [] \<and> list_all solid w"

definition line_ok :: "string \<Rightarrow> bool" where
  "line_ok s \<longleftrightarrow> newline \<notin> set s \<and> utf8_valid s"

lemma line_ok_append: "line_ok s \<Longrightarrow> line_ok t \<Longrightarrow> line_ok (s @ t)"
  by (simp add: line_ok_def)

lemma line_ok_solid: "list_all solid w \<Longrightarrow> line_ok w"
  by (induction w) (auto simp: line_ok_def solid_def)

lemma line_ok_show_nat: "line_ok (show_nat n)"
  by (rule line_ok_solid) (auto simp: list_all_iff solid_show_nat)

lemma utf8_join_crlf: "\<forall>l\<in>set ls. utf8_valid l \<Longrightarrow> utf8_valid (join_crlf ls)"
  by (induction ls rule: join_crlf.induct) simp_all

lemma request_lines_ok:
  assumes "word_ok meth" "word_ok path" "line_ok authority" "\<forall>t. token = Some t \<longrightarrow> token_ok t"
  shows "list_all head_line (request_lines authority meth path n token)"
    "utf8_valid (join_crlf (request_lines authority meth path n token))"
proof -
  have m: "line_ok meth" "line_ok path" using assms(1,2) line_ok_solid by (auto simp: word_ok_def)
  have t: "line_ok t" if "token = Some t" for t using assms(4) that by (simp add: token_ok_def line_ok_def)
  have "line_ok l \<and> l \<noteq> []" if "l \<in> set (request_lines authority meth path n token)" for l
    using that m assms(3) line_ok_show_nat [of n] t
    by (cases token) (auto simp: request_lines_def line_ok_def)
  then show "list_all head_line (request_lines authority meth path n token)"
    "utf8_valid (join_crlf (request_lines authority meth path n token))"
    by (auto simp: list_all_iff head_line_def line_ok_def intro: utf8_join_crlf)
qed

lemma request_headers:
  assumes "n < usize_limit" "\<forall>t. token = Some t \<longrightarrow> token_ok t"
  shows "foldl http_header (0, None) (tl (request_lines authority meth path n token)) = (n, token)"
  using assms http_header_length [OF assms(1), simplified]
  by (cases token)
     (simp_all add: request_lines_def http_header_host [simplified] http_header_close [simplified]
        http_header_bearer [simplified])

lemma read_request_text:
  assumes "concat chunks = request_text authority meth path body token" "\<forall>c\<in>set chunks. c \<noteq> []"
    and "word_ok meth" "word_ok path" "line_ok authority" "\<forall>t. token = Some t \<longrightarrow> token_ok t"
    and "length body < usize_limit"
  shows "read_request chunks = Inr (meth, path, token, body)"
proof -
  let ?ls = "request_lines authority meth path (length body) token"
  let ?h = "join_crlf ?ls"
  have lines: "list_all head_line ?ls" "utf8_valid ?h" by (rule request_lines_ok [OF assms(3-6)])+
  have full: "concat chunks = ?h @ crlf @ crlf @ body" using assms(1) by (simp only: request_text_lines)
  have "?ls \<noteq> []" by (simp add: request_lines_def)
  then have "find_header_end ([] @ concat chunks) = Some (length ?h)"
    unfolding full append_Nil by (rule find_header_end_message [OF _ lines(1)])
  from read_http_head_chunks [OF assms(2) this] obtain buf rest where
    buf: "read_http_head [] chunks = Inr (length ?h, buf, rest)" "buf @ concat rest = concat chunks"
      "length ?h + 4 \<le> length buf" "set rest \<subseteq> set chunks" by auto
  have head: "take (length ?h) buf = ?h"
  proof -
    have "take (length ?h) buf = take (length ?h) (concat chunks)" using buf(2,3) by (simp flip: buf(2))
    then show ?thesis unfolding full by simp
  qed
  have "take (length body) (read_body (drop (length ?h + 4) buf) rest (length body)) =
    take (length body) (drop (length ?h + 4) buf @ concat rest)"
    by (rule read_body_chunks) (use assms(2) buf(4) in blast)
  also have "drop (length ?h + 4) buf @ concat rest = drop (length ?h + 4) (concat chunks)"
    using buf(2,3) by (simp flip: buf(2))
  also have "\<dots> = body" unfolding full by simp
  finally have body: "take (length body) (read_body (drop (length ?h + 4) buf) rest (length body)) = body" by simp
  have words: "split_whitespace (hd ?ls) = meth # path # split_whitespace ''HTTP/1.1''"
    using assms(3,4) split_whitespace_3 [of meth path] by (simp add: request_lines_def word_ok_def)
  have "?ls = hd ?ls # tl ?ls" by (simp add: request_lines_def)
  then have first: "(case ?ls of [] \<Rightarrow> [] | l # _ \<Rightarrow> l) = hd ?ls" by (metis list.simps(5))
  have headers: "foldl http_header (0, None) (tl ?ls) = (length body, token)"
    by (rule request_headers [OF assms(7,6)])
  show ?thesis
    by (simp add: read_request_def buf(1) head lines(2) str_lines_head [OF lines(1)] Let_def first words headers
        nth_opt_def body)
qed

text \<open>However the connection cuts a request into chunks, the server reads the method, the path, the
  bearer token and the body that the client sent.\<close>
theorem request_roundtrip:
  assumes "concat chunks = request_text authority meth path body token" "\<forall>c\<in>set chunks. c \<noteq> []"
    and "word_ok meth" "word_ok path" "line_ok authority" "\<forall>t. token = Some t \<longrightarrow> token_ok t"
    and "length body < usize_limit"
  shows "read_request chunks = Inr (meth, path, token, body)"
  using read_request_text [OF assms] .

lemma request_roundtrip_witness:
  "read_request [take 50 (request_text ''h:80'' ''GET'' ''/refs'' ''xy'' (Some ''secret'')),
     drop 50 (request_text ''h:80'' ''GET'' ''/refs'' ''xy'' (Some ''secret''))] =
   Inr (''GET'', ''/refs'', Some ''secret'', ''xy'')"
proof (rule request_roundtrip [of _ "''h:80''"])
  show "\<forall>t. Some ''secret'' = Some t \<longrightarrow> token_ok t" by (auto simp: token_ok_def solid_def)
qed (simp_all add: word_ok_def line_ok_def solid_def request_text_def)

lemma parse_response_head:
  assumes "list_all head_line (l # ls)" "utf8_valid (join_crlf (l # ls))" "split_whitespace l = v # show_nat st # ws"
    "st < 65536"
  shows "parse_response (join_crlf (l # ls) @ crlf @ crlf @ body) = Inr \<lparr>status = st, rbody = body\<rparr>"
proof -
  have n: "find_header_end (join_crlf (l # ls) @ crlf @ crlf @ body) = Some (length (join_crlf (l # ls)))"
    by (rule find_header_end_message [OF _ assms(1)]) simp
  have "take (length h) (h @ crlf @ crlf @ body) = h" "drop (length h + 4) (h @ crlf @ crlf @ body) = body" for h
    by simp_all
  then show ?thesis
    unfolding parse_response_def n option.case Let_def
    by (simp only: str_lines_head [OF assms(1)] assms(2,3) list.case nth_opt_def) (simp add: parse_uint_show assms(4))
qed

text \<open>The client reads the status and the body of a response of the server.\<close>
theorem response_roundtrip:
  assumes "st < 65536" "line_ok reason"
  shows "parse_response (write_response st body reason) = Inr \<lparr>status = st, rbody = body\<rparr>"
proof -
  let ?l = "''HTTP/1.1 '' @ show_nat st @ '' '' @ reason"
  let ?ls = "[''Content-Length: '' @ show_nat (length body), ''Connection: close'']"
  have ok: "list_all head_line (?l # ?ls)" "utf8_valid (join_crlf (?l # ?ls))"
    using assms(2) line_ok_show_nat [of st] line_ok_show_nat [of "length body"] by (auto simp: head_line_def line_ok_def)
  have words: "split_whitespace ?l = ''HTTP/1.1'' # show_nat st # split_whitespace reason"
    using split_whitespace_3 [of "''HTTP/1.1''" "show_nat st" reason]
    by (simp add: list_all_iff solid_show_nat) (simp add: solid_def)
  have "write_response st body reason = join_crlf (?l # ?ls) @ crlf @ crlf @ body" by (simp add: write_response_def)
  then show ?thesis using parse_response_head [OF ok words assms(1)] by (simp only:)
qed

lemma response_roundtrip_witness:
  "parse_response (write_response 404 ''ab'' ''Not Found'') = Inr \<lparr>status = 404, rbody = ''ab''\<rparr>"
  by (rule response_roundtrip) code_simp+

lemma to_hex_encode: "to_hex s = hex_encode s"
  by (simp add: to_hex_def hex_encode_def hex_byte_def [abs_def])

lemma from_to_hex: "from_hex (to_hex s) = Inr s"
proof -
  have "hex_bytes (to_hex s) = Inr s"
  proof (induction s)
    case (Cons c s)
    have "byte c < 256" by simp
    then have "16 * (byte c div 16) + byte c mod 16 = byte c" "byte c div 16 < 16" by simp_all
    then show ?case using Cons by (simp add: to_hex_def)
  qed (simp add: to_hex_def)
  moreover have "even (length (to_hex s))" by (induction s) (simp_all add: to_hex_def)
  ultimately show ?thesis by (simp add: from_hex_def even_iff_mod_2_eq_zero)
qed

lemma object_from_to_hex: "obj_ok ob \<Longrightarrow> object_from_hex (to_hex (serialize ob)) = Some (Inr ob)"
  by (simp add: object_from_hex_def from_to_hex deserialize_serialize)

end
