(* ===== verification/Remote.thy ===== *)
theory Remote
  imports Landing Transport
begin

text \<open>
  Replication between repositories, \<open>cmd_fetch\<close> and \<open>cmd_push\<close> of \<open>omoplata-cli/src/main.rs\<close> with
  the server of \<open>sync.rs\<close>. A server is its repository, passed and returned by \<open>handle\<close>, which runs
  one connection; the network of a client is a parameter. The repositories that local paths name are
  a map, updated by a push. The JSON of the bodies, the text of an error and the environment's token
  are collected in \<open>wire\<close>. The outer option is a panic, which closes the connection, or a loop
  without end.
\<close>

section \<open>Parameters\<close>

record wire =
  refs_to_json :: "ref_table \<Rightarrow> string"
  refs_from_json :: "string \<Rightarrow> string + ref_table"
  push_to_json :: "push_payload \<Rightarrow> string"
  push_from_json :: "string \<Rightarrow> string + push_payload"
  result_to_json :: "push_result \<Rightarrow> string"
  result_from_json :: "string \<Rightarrow> string + push_result"
  error_text :: "cli_error \<Rightarrow> string"
  omo_token :: "string option"

fun bail :: "string + 'a \<Rightarrow> cli_error + 'a" where
  "bail (Inl e) = Inl (Bail e)"
| "bail (Inr x) = Inr x"

section \<open>Walking a closure\<close>

text \<open>The loop that \<open>pull_closure_http\<close> and \<open>gather_closure\<close> share: the ids on the stack are visited
  once each, and a visit answers the ids to push.\<close>

partial_function (option) walk_loop ::
  "(object_id \<Rightarrow> 's \<Rightarrow> ((cli_error + object_id list) \<times> 's) option) \<Rightarrow> object_id list \<Rightarrow> string set \<Rightarrow> 's \<Rightarrow>
   ((cli_error + string set) \<times> 's) option" where
  "walk_loop visit stack seen s =
     (case stack of
        [] \<Rightarrow> Some (Inr seen, s)
      | i # rest \<Rightarrow>
          if id_to_string i \<in> seen then walk_loop visit rest seen s
          else (case visit i s of
              None \<Rightarrow> None
            | Some (Inl e, s') \<Rightarrow> Some (Inl e, s')
            | Some (Inr children, s') \<Rightarrow>
                walk_loop visit (rev children @ rest) (insert (id_to_string i) seen) s'))"

definition child_ids :: "object \<Rightarrow> object_id list" where
  "child_ids ob = (case ob of TreeObj t \<Rightarrow> map eid (entries t) | BlobObj _ \<Rightarrow> [])"

definition pull_visit ::
  "tools \<Rightarrow> network \<Rightarrow> string \<Rightarrow> string option \<Rightarrow> object_id \<Rightarrow> object_files \<times> nat \<Rightarrow>
   ((cli_error + object_id list) \<times> (object_files \<times> nat)) option" where
  "pull_visit env net authority tok i s =
     (let (fs, written) = s in
      if has_object fs i then
        map_option (\<lambda>r. (Inr (case r of Inr ob \<Rightarrow> child_ids ob | Inl _ \<Rightarrow> []), s)) (read_object (sha256 env) fs i)
      else (case fetch_object net authority (id_to_string i) tok of
          Inl e \<Rightarrow> Some (Inl (Bail e), s)
        | Inr bytes \<Rightarrow>
            map_option (\<lambda>r. case r of
                Inl _ \<Rightarrow> (Inl (Bail (''remote object '' @ id_to_string i)), s)
              | Inr ob \<Rightarrow> (Inr (child_ids ob), (snd (write_object (sha256 env) fs ob), written + 1)))
              (deserialize bytes)))"

definition pull_closure_http ::
  "tools \<Rightarrow> network \<Rightarrow> string \<Rightarrow> string option \<Rightarrow> object_files \<Rightarrow> object_id \<Rightarrow>
   ((cli_error + nat) \<times> object_files) option" where
  "pull_closure_http env net authority tok fs root =
     map_option (\<lambda>(r, fs', written). (and_then r (\<lambda>_. Inr written), fs'))
       (walk_loop (pull_visit env net authority tok) [root] {} (fs, 0))"

definition gather_visit ::
  "tools \<Rightarrow> object_files \<Rightarrow> object_id \<Rightarrow> (string \<times> string) list \<Rightarrow>
   ((cli_error + object_id list) \<times> (string \<times> string) list) option" where
  "gather_visit env fs i out =
     map_option (\<lambda>r. case r of
         Inl e \<Rightarrow> (Inl (StoreErr e), out)
       | Inr ob \<Rightarrow> (Inr (child_ids ob), out @ [(id_to_string i, to_hex (serialize ob))]))
       (read_object (sha256 env) fs i)"

definition gather_closure ::
  "tools \<Rightarrow> object_files \<Rightarrow> object_id \<Rightarrow> (string \<times> string) list \<Rightarrow> string set \<Rightarrow>
   ((cli_error + string set) \<times> (string \<times> string) list) option" where
  "gather_closure env fs root out seen = walk_loop (gather_visit env fs) [root] seen out"

section \<open>The remote of a command\<close>

definition resolve_token :: "wire \<Rightarrow> string option \<Rightarrow> string option" where
  "resolve_token w registered =
     (case registered of
        Some t \<Rightarrow> Some t
      | None \<Rightarrow> (case omo_token w of Some t \<Rightarrow> if t = [] then None else Some t | None \<Rightarrow> None))"

definition remote_target :: "wire \<Rightarrow> remote_registry \<Rightarrow> string \<Rightarrow> string \<times> string \<times> string option" where
  "remote_target w reg name =
     (case get_remote reg name of
        Some r \<Rightarrow> (remote_name r, utf8_lossy (remote_path r), resolve_token w (token r))
      | None \<Rightarrow> (name, name, resolve_token w None))"

definition open_peer :: "(string \<rightharpoonup> repo_state) \<Rightarrow> string \<Rightarrow> string \<Rightarrow> cli_error + repo_state" where
  "open_peer peers name target = ok_or (Bail (''cannot open remote '' @ name @ '' at '' @ target)) (peers target)"

section \<open>Fetching\<close>

definition public_refs :: "ref_table \<Rightarrow> ref_table" where
  "public_refs refs = filter (\<lambda>(k, _). prefix ''public/'' k) refs"

fun pull_tips ::
  "(object_files \<Rightarrow> object_id \<Rightarrow> ((cli_error + nat) \<times> object_files) option) \<Rightarrow> string \<Rightarrow> ref_table \<Rightarrow> object_files \<Rightarrow> nat \<Rightarrow>
   ref_table \<Rightarrow> ((cli_error + nat \<times> ref_table) \<times> object_files) option" where
  "pull_tips pull name [] fs n tracking = Some (Inr (n, tracking), fs)"
| "pull_tips pull name ((refname, commit) # refs) fs n tracking =
     (case id_from_str commit of
        None \<Rightarrow> None
      | Some (Inl _) \<Rightarrow> Some (Inl (Bail (''remote ref '' @ refname @ '' tip '' @ commit @ '' is not a valid object id'')), fs)
      | Some (Inr i) \<Rightarrow>
        (case pull fs i of
           None \<Rightarrow> None
         | Some (Inl e, fs') \<Rightarrow> Some (Inl e, fs')
         | Some (Inr k, fs') \<Rightarrow>
             pull_tips pull name refs fs' (n + k) (tracking @ [(''remotes/'' @ name @ ''/'' @ refname, commit)])))"

fun set_refs :: "ref_table \<Rightarrow> op_log \<Rightarrow> op_log option" where
  "set_refs [] log = Some log"
| "set_refs ((name, commit) # refs) log = Option.bind (set_ref log name (Some commit) None) (set_refs refs)"

definition work_pull ::
  "tools \<Rightarrow> object_files \<Rightarrow> object_files \<Rightarrow> object_id \<Rightarrow> ((cli_error + nat) \<times> object_files) option" where
  "work_pull env src fs i = map_option (\<lambda>(r, fs'). (work_err r, fs')) (copy_closure (sha256 env) src fs i)"

text \<open>The public refs of the remote and the way to pull an object closure from it.\<close>

definition open_remote ::
  "tools \<Rightarrow> wire \<Rightarrow> network \<Rightarrow> (string \<rightharpoonup> repo_state) \<Rightarrow> string \<Rightarrow> string \<Rightarrow> string option \<Rightarrow>
   (ref_table \<times> (object_files \<Rightarrow> object_id \<Rightarrow> ((cli_error + nat) \<times> object_files) option)) fallible" where
  "open_remote env w net peers name target tok =
     (case http_authority target of
        Some authority \<Rightarrow>
          Some (and_then (bail (fetch_refs (refs_from_json w) net authority tok)) (\<lambda>refs.
            Inr (public_refs refs, pull_closure_http env net authority tok)))
      | None \<Rightarrow>
        (case open_peer peers name target of
           Inl e \<Rightarrow> Some (Inl e)
         | Inr peer \<Rightarrow>
             map_option (\<lambda>r. Inr (public_refs (ref_table (oplog peer) r), work_pull env (objs peer)))
               (refs_now (oplog peer))))"

definition cmd_fetch ::
  "tools \<Rightarrow> wire \<Rightarrow> network \<Rightarrow> (string \<rightharpoonup> repo_state) \<Rightarrow> repo_state \<Rightarrow> string \<Rightarrow>
   ((cli_error + nat \<times> nat) \<times> repo_state) option" where
  "cmd_fetch env w net peers st remote =
     (let (name, target, tok) = remote_target w (remote_reg st) remote in
      case open_remote env w net peers name target tok of
        None \<Rightarrow> None
      | Some (Inl e) \<Rightarrow> Some (Inl e, st)
      | Some (Inr (refs, pull)) \<Rightarrow>
          if refs = [] then Some (Inr (0, 0), st)
          else (case pull_tips pull name refs (objs st) 0 [] of
              None \<Rightarrow> None
            | Some (Inl e, fs) \<Rightarrow> Some (Inl e, st\<lparr>objs := fs\<rparr>)
            | Some (Inr (n, tracking), fs) \<Rightarrow>
                map_option (\<lambda>log. (Inr (n, length tracking), st\<lparr>objs := fs, oplog := log\<rparr>))
                  (set_refs tracking (oplog st))))"

section \<open>Landing what was pushed\<close>

fun record_tips :: "refs \<Rightarrow> (change_id \<times> commit_id) list \<Rightarrow> op_log \<Rightarrow> op_log option" where
  "record_tips current [] log = Some log"
| "record_tips current ((c, commit) # tips) log =
     (if current c \<noteq> Some commit then Option.bind (set_ref log c (Some commit) None) (record_tips current tips)
      else record_tips current tips log)"

fun graph_of_tips ::
  "(change_id \<times> commit_id) list \<Rightarrow> change_graph \<Rightarrow> object_id list \<Rightarrow> (change_graph \<times> object_id list) option" where
  "graph_of_tips [] g ids = Some (g, ids)"
| "graph_of_tips ((c, commit) # tips) g ids =
     Option.bind (id_from_str commit) (\<lambda>r.
       graph_of_tips tips (add_change g \<lparr>change_id = c, revisions = [commit], phase_of = Draft\<rparr>)
         (case r of Inr i \<Rightarrow> ids @ [i] | Inl _ \<Rightarrow> ids))"

definition pushed_text :: "land_result \<Rightarrow> string \<Rightarrow> object_id \<Rightarrow> string" where
  "pushed_text r queue i =
     Queue.message r @ '' (reconciled/'' @ queue @ '' advanced to '' @ id_to_string i @ '')''"

text \<open>After the tips are recorded: the gates, the reconciliation, the landing.\<close>

definition land_recorded ::
  "tools \<Rightarrow> repo_state \<Rightarrow> queue_policy \<Rightarrow> submission \<Rightarrow> (change_id \<times> commit_id) list \<Rightarrow>
   ((cli_error + string) \<times> repo_state) option" where
  "land_recorded env st policy s tips =
     Option.bind (graph_of_tips tips new_graph []) (\<lambda>(g, ids).
     Option.bind (refs_now (oplog st)) (\<lambda>r.
       case observe_batch_gates env (objs st) (queue_reg st) (ref_table (oplog st) r) (queue_name policy) [(sub_id s, ids)]
              policy (scratch_path st ''land'') of
         None \<Rightarrow> None
       | Some (Inl e) \<Rightarrow> Some (Inl e, st)
       | Some (Inr gates) \<Rightarrow>
         (case reconcile_core env (objs st) (queue_reg st) (oplog st) policy [s] (scratch_path st ''reconcile'') of
            None \<Rightarrow> None
          | Some (Inl e, fs) \<Rightarrow> Some (Inl e, st\<lparr>objs := fs\<rparr>)
          | Some (Inr rec, fs) \<Rightarrow>
              if 0 < rcarried rec \<and> \<not> allow_carried policy
              then Some (Inl (Bail (carried_text policy rec)), st\<lparr>objs := fs\<rparr>)
              else
                let st1 = save_submission s (st\<lparr>objs := fs\<rparr>) in
                (case land_submission_in_queue s policy
                        \<lparr>carried_values = batch_carried gates, validated = batch_validated gates\<rparr> g (oplog st) of
                   None \<Rightarrow> None
                 | Some (Inl e, _, _) \<Rightarrow> Some (Inl (WorkErr e), st1)
                 | Some (Inr landed, _, log) \<Rightarrow>
                     map_option (\<lambda>log'. (Inr (pushed_text landed (queue_name policy) (rtip rec)), st1\<lparr>oplog := log'\<rparr>))
                       (write_reconciled_head log (queue_name policy) (rtip rec))))))"

definition land_pushed ::
  "tools \<Rightarrow> repo_state \<Rightarrow> string \<Rightarrow> submission \<Rightarrow> (change_id \<times> commit_id) list \<Rightarrow>
   ((cli_error + string) \<times> repo_state) option" where
  "land_pushed env st queue s tips =
     (case resolve_queue (queue_reg st) queue of
        Inl e \<Rightarrow> Some (Inl (WorkErr e), st)
      | Inr policy \<Rightarrow>
          if require_approval policy \<and> \<not> is_approved s then Some (Inl (Bail (not_approved_text policy s)), st)
          else
            Option.bind (refs_now (oplog st)) (\<lambda>current.
            Option.bind (record_tips current tips (oplog st)) (\<lambda>log.
              land_recorded env (st\<lparr>oplog := log\<rparr>) policy s tips)))"

fun write_pushed :: "tools \<Rightarrow> (string \<times> string) list \<Rightarrow> object_files \<Rightarrow> ((cli_error + unit) \<times> object_files) option" where
  "write_pushed env [] fs = Some (Inr (), fs)"
| "write_pushed env ((_, hex) # rest) fs =
     (case object_from_hex hex of
        None \<Rightarrow> None
      | Some (Inl e) \<Rightarrow> Some (Inl (Bail e), fs)
      | Some (Inr ob) \<Rightarrow> write_pushed env rest (snd (write_object (sha256 env) fs ob)))"

definition accept_push :: "tools \<Rightarrow> repo_state \<Rightarrow> push_payload \<Rightarrow> ((cli_error + string) \<times> repo_state) option" where
  "accept_push env st p =
     (case write_pushed env (pobjects p) (objs st) of
        None \<Rightarrow> None
      | Some (Inl e, fs) \<Rightarrow> Some (Inl e, st\<lparr>objs := fs\<rparr>)
      | Some (Inr _, fs) \<Rightarrow> land_pushed env (st\<lparr>objs := fs\<rparr>) (to_queue p) (psubmission p) (ptips p))"

section \<open>The server\<close>

definition serve_refs :: "repo_state \<Rightarrow> ref_table option" where
  "serve_refs st =
     map_option (\<lambda>r. filter (\<lambda>(k, _). prefix ''public/'' k \<or> prefix ''reconciled/'' k) (ref_table (oplog st) r))
       (refs_now (oplog st))"

definition serve_object :: "tools \<Rightarrow> repo_state \<Rightarrow> string \<Rightarrow> (string option) fallible" where
  "serve_object env st i =
     (case id_from_str i of
        None \<Rightarrow> None
      | Some (Inl _) \<Rightarrow> Some (Inr None)
      | Some (Inr j) \<Rightarrow>
          if \<not> has_object (objs st) j then Some (Inr None)
          else map_option (\<lambda>r. case r of Inl e \<Rightarrow> Inl (StoreErr e) | Inr ob \<Rightarrow> Inr (Some (serialize ob)))
            (read_object (sha256 env) (objs st) j))"

definition serve_push :: "tools \<Rightarrow> wire \<Rightarrow> repo_state \<Rightarrow> string \<Rightarrow> (push_result \<times> repo_state) option" where
  "serve_push env w st body =
     (case push_from_json w body of
        Inl _ \<Rightarrow> Some (\<lparr>accepted = False, pmessage = ''decoding push payload''\<rparr>, st)
      | Inr p \<Rightarrow>
          map_option (\<lambda>(r, st'). (case r of
              Inr m \<Rightarrow> \<lparr>accepted = True, pmessage = m\<rparr>
            | Inl e \<Rightarrow> \<lparr>accepted = False, pmessage = error_text w e\<rparr>, st'))
            (accept_push env st p))"

definition handle :: "tools \<Rightarrow> wire \<Rightarrow> string option \<Rightarrow> repo_state \<Rightarrow> string list \<Rightarrow> (string \<times> repo_state) option" where
  "handle env w tok st chunks =
     (case read_request chunks of
        Inl e \<Rightarrow> Some (write_response 500 [] e, st)
      | Inr (meth, path, bearer, body) \<Rightarrow>
          if tok \<noteq> None \<and> bearer \<noteq> tok then Some (write_response 401 [] ''Unauthorized'', st)
          else if meth = ''GET'' \<and> path = ''/refs'' then
            map_option (\<lambda>refs. (write_response 200 (refs_to_json w refs) ''OK'', st)) (serve_refs st)
          else if meth = ''GET'' \<and> prefix ''/object/'' path then
            map_option (\<lambda>r. (case r of
                Inr (Some bytes) \<Rightarrow> write_response 200 bytes ''OK''
              | Inr None \<Rightarrow> write_response 404 [] ''Not Found''
              | Inl e \<Rightarrow> write_response 500 (error_text w e) ''Error'', st))
              (serve_object env st (drop 8 path))
          else if meth = ''POST'' \<and> path = ''/push'' then
            map_option (\<lambda>(res, st'). (write_response 200 (result_to_json w res) ''OK'', st')) (serve_push env w st body)
          else Some (write_response 404 [] ''Not Found'', st))"

section \<open>Pushing\<close>

fun tips_to_push :: "refs \<Rightarrow> change_id list \<Rightarrow> cli_error + (change_id \<times> commit_id) list" where
  "tips_to_push refs [] = Inr []"
| "tips_to_push refs (c # cs) =
     (case refs c of
        None \<Rightarrow> Inl (Bail (''change '' @ c @ '' has no snapshot to push''))
      | Some commit \<Rightarrow> and_then (tips_to_push refs cs) (\<lambda>tips. Inr ((c, commit) # tips)))"

fun gather_tips ::
  "tools \<Rightarrow> object_files \<Rightarrow> (change_id \<times> commit_id) list \<Rightarrow> (string \<times> string) list \<Rightarrow> string set \<Rightarrow>
   ((string \<times> string) list) fallible" where
  "gather_tips env fs [] out seen = Some (Inr out)"
| "gather_tips env fs ((_, commit) # tips) out seen =
     (case id_from_str commit of
        None \<Rightarrow> None
      | Some (Inl _) \<Rightarrow> Some (Inl (Bail (''change tip '' @ commit @ '' is not a valid object id'')))
      | Some (Inr i) \<Rightarrow>
        (case gather_closure env fs i out seen of
           None \<Rightarrow> None
         | Some (Inl e, _) \<Rightarrow> Some (Inl e)
         | Some (Inr seen', out') \<Rightarrow> gather_tips env fs tips out' seen'))"

fun copy_tips ::
  "tools \<Rightarrow> object_files \<Rightarrow> (change_id \<times> commit_id) list \<Rightarrow> object_files \<Rightarrow> ((cli_error + unit) \<times> object_files) option" where
  "copy_tips env src [] fs = Some (Inr (), fs)"
| "copy_tips env src ((_, commit) # tips) fs =
     (case id_from_str commit of
        None \<Rightarrow> None
      | Some (Inl _) \<Rightarrow> Some (Inl (Bail (''change tip '' @ commit @ '' is not a valid object id'')), fs)
      | Some (Inr i) \<Rightarrow>
        (case copy_closure (sha256 env) src fs i of
           None \<Rightarrow> None
         | Some (Inl e, fs') \<Rightarrow> Some (Inl (WorkErr e), fs')
         | Some (Inr _, fs') \<Rightarrow> copy_tips env src tips fs'))"

definition pushed_to :: "submission_id \<Rightarrow> string \<Rightarrow> string \<Rightarrow> string \<Rightarrow> string" where
  "pushed_to i name queue m = ''pushed '' @ i @ '' to '' @ name @ '' (queue '' @ queue @ ''): '' @ m"

definition push_http ::
  "tools \<Rightarrow> wire \<Rightarrow> network \<Rightarrow> string \<Rightarrow> string option \<Rightarrow> repo_state \<Rightarrow> submission \<Rightarrow> (change_id \<times> commit_id) list \<Rightarrow>
   string \<Rightarrow> string fallible" where
  "push_http env w net authority tok st s tips queue =
     and_try (gather_tips env (objs st) tips [] {}) (\<lambda>objects.
       Some (and_then (bail (push_over (push_to_json w) (result_from_json w) net authority
           \<lparr>to_queue = queue, psubmission = s, ptips = tips, pobjects = objects\<rparr> tok)) (\<lambda>result.
         if accepted result then Inr (pmessage result) else Inl (Bail (pmessage result)))))"

definition push_path ::
  "tools \<Rightarrow> repo_state \<Rightarrow> repo_state \<Rightarrow> submission \<Rightarrow> (change_id \<times> commit_id) list \<Rightarrow> string \<Rightarrow>
   ((cli_error + string) \<times> repo_state) option" where
  "push_path env st peer s tips queue =
     (case copy_tips env (objs st) tips (objs peer) of
        None \<Rightarrow> None
      | Some (Inl e, fs) \<Rightarrow> Some (Inl e, peer\<lparr>objs := fs\<rparr>)
      | Some (Inr _, fs) \<Rightarrow> land_pushed env (peer\<lparr>objs := fs\<rparr>) queue s tips)"

definition cmd_push ::
  "tools \<Rightarrow> wire \<Rightarrow> network \<Rightarrow> (string \<rightharpoonup> repo_state) \<Rightarrow> repo_state \<Rightarrow> string \<Rightarrow> submission_id \<Rightarrow> string \<Rightarrow>
   ((cli_error + string) \<times> (string \<rightharpoonup> repo_state)) option" where
  "cmd_push env w net peers st remote i queue =
     (let (name, target, tok) = remote_target w (remote_reg st) remote in
      case load_submission st i of
        Inl e \<Rightarrow> Some (Inl e, peers)
      | Inr s \<Rightarrow>
        (case refs_now (oplog st) of
           None \<Rightarrow> None
         | Some refs \<Rightarrow>
           (case tips_to_push refs (sub_changes s) of
              Inl e \<Rightarrow> Some (Inl e, peers)
            | Inr tips \<Rightarrow>
              (case http_authority target of
                 Some authority \<Rightarrow>
                   map_option (\<lambda>r. (and_then r (\<lambda>m. Inr (pushed_to (sub_id s) name queue m)), peers))
                     (push_http env w net authority tok st s tips queue)
               | None \<Rightarrow>
                 (case open_peer peers name target of
                    Inl e \<Rightarrow> Some (Inl e, peers)
                  | Inr peer \<Rightarrow>
                      map_option (\<lambda>(r, peer'). (and_then r (\<lambda>m. Inr (pushed_to (sub_id s) name queue m)),
                          peers(target \<mapsto> peer')))
                        (push_path env st peer s tips queue))))))"

end
