(* ===== verification/Replication.thy ===== *)
theory Replication
  imports Remote
begin

text \<open>
  What the transports do. The walk of a closure visits the objects below a root once each. Over a
  network that is the server of a repository, a fetch does what a fetch from the path of that
  repository does, and a push leaves the server as a push to its path leaves the repository; what
  the server answers to a request without its token, which refs it shows, and the gates of a push.
\<close>

section \<open>The walk of a closure\<close>

lemma walk_loop_Nil [simp]: "walk_loop visit [] seen s = Some (Inr seen, s)"
  by (subst walk_loop.simps) simp

lemma walk_loop_seen [simp]: "id_to_string i \<in> seen \<Longrightarrow> walk_loop visit (i # rest) seen s = walk_loop visit rest seen s"
  by (subst walk_loop.simps) simp

lemma walk_loop_visit:
  "id_to_string i \<notin> seen \<Longrightarrow> visit i s = Some (Inr children, s') \<Longrightarrow>
   walk_loop visit (i # rest) seen s = walk_loop visit (rev children @ rest) (insert (id_to_string i) seen) s'"
  by (subst walk_loop.simps) simp

lemma walk_loop_visits:
  assumes "finite R" "\<And>i. i \<in> R \<Longrightarrow> set (K i) \<subseteq> R" "inj_on id_to_string R"
    and visit: "\<And>i V s. i \<in> R \<Longrightarrow> i \<notin> V \<Longrightarrow> V \<subseteq> R \<Longrightarrow> I V s \<Longrightarrow> \<exists>s'. visit i s = Some (Inr (K i), s') \<and> I (insert i V) s'"
    and "I V s" "V \<subseteq> R" "set stack \<subseteq> R" "\<forall>j\<in>V. set (K j) \<subseteq> V \<union> set stack"
  shows "\<exists>V' s'. walk_loop visit stack (id_to_string ` V) s = Some (Inr (id_to_string ` V'), s') \<and> I V' s' \<and>
    V \<union> set stack \<subseteq> V' \<and> V' \<subseteq> R \<and> (\<forall>j\<in>V'. set (K j) \<subseteq> V')"
  using assms(5-8)
proof (induction "(card (R - V), length stack)" arbitrary: V s stack rule: wf_induct_rule [OF wf_lex_prod [OF wf_less wf_less]])
  case 1
  show ?case
  proof (cases stack)
    case Nil
    then show ?thesis using 1 by (intro exI [of _ V] exI [of _ s]) simp
  next
    case (Cons i rest)
    then have i: "i \<in> R" "set rest \<subseteq> R" using "1.prems"(3) by auto
    have seen: "id_to_string i \<in> id_to_string ` V \<longleftrightarrow> i \<in> V"
      using assms(3) i(1) "1.prems"(2) by (auto dest: inj_onD)
    show ?thesis
    proof (cases "i \<in> V")
      case True
      have "\<exists>V' s'. walk_loop visit rest (id_to_string ` V) s = Some (Inr (id_to_string ` V'), s') \<and> I V' s' \<and>
        V \<union> set rest \<subseteq> V' \<and> V' \<subseteq> R \<and> (\<forall>j\<in>V'. set (K j) \<subseteq> V')"
        by (rule "1.hyps" [OF _ "1.prems"(1,2) i(2)]) (use Cons True "1.prems"(4) in auto)
      then show ?thesis using Cons True by (auto simp: seen)
    next
      case False
      obtain s' where s': "visit i s = Some (Inr (K i), s')" "I (insert i V) s'"
        using visit [OF i(1) False "1.prems"(2,1)] by blast
      have less: "card (R - insert i V) < card (R - V)"
        using assms(1) i(1) False by (intro psubset_card_mono) auto
      have "\<exists>V' t. walk_loop visit (rev (K i) @ rest) (id_to_string ` insert i V) s' = Some (Inr (id_to_string ` V'), t) \<and>
        I V' t \<and> insert i V \<union> set (rev (K i) @ rest) \<subseteq> V' \<and> V' \<subseteq> R \<and> (\<forall>j\<in>V'. set (K j) \<subseteq> V')"
        by (rule "1.hyps" [OF _ s'(2)]) (use less Cons "1.prems"(2,4) i assms(2) [OF i(1)] in auto)
      then show ?thesis
        using walk_loop_visit [of i "id_to_string ` V" visit s "K i" s' rest] s'(1) False Cons by (auto simp: seen)
    qed
  qed
qed

text \<open>The walk on a store: the objects of a closure, their children and the fact that the walk
  ends with the whole closure.\<close>

definition object_at :: "(string \<Rightarrow> string) \<Rightarrow> object_files \<Rightarrow> object_id \<Rightarrow> object" where
  "object_at sha fs i = (case read_object sha fs i of Some (Inr ob) \<Rightarrow> ob | _ \<Rightarrow> BlobObj [])"

lemma object_at: "read_object sha fs i = Some (Inr ob) \<Longrightarrow> object_at sha fs i = ob"
  by (simp add: object_at_def)

lemma closed_read: "closed sha fs i \<Longrightarrow> read_object sha fs i = Some (Inr (object_at sha fs i))"
  by (cases rule: closed.cases) (auto simp: object_at_def)

lemma closed_children: "closed sha fs i \<Longrightarrow> j \<in> set (child_ids (object_at sha fs i)) \<Longrightarrow> closed sha fs j"
  by (cases rule: closed.cases) (auto simp: object_at_def child_ids_def)

lemma closed_reach: "closed sha fs i \<Longrightarrow> reach sha fs i j \<Longrightarrow> closed sha fs j"
proof (induction "i" rule: closed.induct)
  case (closed_blob i b)
  then show ?case using closure_blob [of sha fs i b] closed.closed_blob [of sha fs i b] by auto
next
  case (closed_tree i t)
  then show ?case using reach_cases_root [OF closed_tree.prems] closed.closed_tree [OF closed_tree.hyps(1)] by auto
qed

lemma closed_finite: "closed sha fs i \<Longrightarrow> finite (closure sha fs i)"
  by (induction rule: closed.induct) (simp_all add: closure_blob closure_tree)

lemma reach_child:
  "closed sha fs i \<Longrightarrow> j \<in> set (child_ids (object_at sha fs i)) \<Longrightarrow> reach sha fs i j"
  by (cases rule: closed.cases) (auto simp: object_at_def child_ids_def intro: reach.intros)

lemma reach_within:
  "reach sha fs i j \<Longrightarrow> i \<in> V \<Longrightarrow> \<forall>k\<in>V. set (child_ids (object_at sha fs k)) \<subseteq> V \<Longrightarrow> j \<in> V"
  by (induction rule: reach.induct) (auto simp: object_at_def child_ids_def dest!: bspec)

lemma store_read:
  assumes "store_ok sha fs" "full_digest sha" "read_object sha fs i = Some (Inr ob)"
  shows "obj_ok ob" "fs (object_path i) = Some (serialize ob)" "id_ok i" "obj_id sha ob = i"
proof -
  obtain bytes where b: "fs (object_path i) = Some bytes" "deserialize bytes = Some (Inr ob)"
    using assms(3) by (auto simp: read_object_def split: option.splits sum.splits if_splits)
  then obtain z where z: "obj_ok z" "bytes = serialize z" using assms(1) unfolding store_ok_def by blast
  then have "z = ob" using b(2) deserialize_serialize by simp
  then show "obj_ok ob" "fs (object_path i) = Some (serialize ob)" using z b by simp_all
  show i: "obj_id sha ob = i" using read_object_valid [OF assms(3) alg_Sha256] .
  then show "id_ok i" using obj_id_ok [OF assms(2)] by metis
qed

text \<open>The union of the closures of several roots.\<close>

definition closures :: "(string \<Rightarrow> string) \<Rightarrow> object_files \<Rightarrow> object_id list \<Rightarrow> object_id set" where
  "closures sha fs is = (\<Union>i\<in>set is. closure sha fs i)"

lemma closures_facts:
  assumes "store_ok sha fs" "full_digest sha" "\<forall>i\<in>set is. closed sha fs i"
  shows "finite (closures sha fs is)" "inj_on id_to_string (closures sha fs is)"
    "j \<in> closures sha fs is \<Longrightarrow> closed sha fs j" "set is \<subseteq> closures sha fs is"
    "j \<in> closures sha fs is \<Longrightarrow> set (child_ids (object_at sha fs j)) \<subseteq> closures sha fs is"
proof -
  show "finite (closures sha fs is)" using assms(3) closed_finite by (simp add: closures_def)
  show c: "closed sha fs j" if "j \<in> closures sha fs is" for j
    using that assms(3) closed_reach by (auto simp: closures_def)
  have "id_ok j" if "j \<in> closures sha fs is" for j using store_read(3) [OF assms(1,2) closed_read [OF c [OF that]]] .
  then show "inj_on id_to_string (closures sha fs is)" by (auto simp: inj_on_def id_to_string_inject)
  show "set is \<subseteq> closures sha fs is" using reach_root by (auto simp: closures_def)
  show "set (child_ids (object_at sha fs j)) \<subseteq> closures sha fs is" if j: "j \<in> closures sha fs is"
    using reach_child [OF c [OF j]] reach_trans j by (fastforce simp: closures_def)
qed

section \<open>The objects of a push\<close>

definition object_pair :: "tools \<Rightarrow> object_files \<Rightarrow> object_id \<Rightarrow> string \<times> string" where
  "object_pair env fs i = (id_to_string i, to_hex (serialize (object_at (sha256 env) fs i)))"

definition gathered :: "tools \<Rightarrow> object_files \<Rightarrow> object_id set \<Rightarrow> (string \<times> string) list \<Rightarrow> bool" where
  "gathered env fs V out \<longleftrightarrow> (\<exists>is. set is = V \<and> out = map (object_pair env fs) is)"

lemma gather_closure_closed:
  assumes "store_ok (sha256 env) fs" "full_digest (sha256 env)" "closed (sha256 env) fs i" "finite R"
    and "\<And>j. j \<in> R \<Longrightarrow> closed (sha256 env) fs j" "\<And>j. j \<in> R \<Longrightarrow> set (child_ids (object_at (sha256 env) fs j)) \<subseteq> R"
    and "inj_on id_to_string R" "i \<in> R" "V \<subseteq> R" "gathered env fs V out"
    and "\<forall>j\<in>V. set (child_ids (object_at (sha256 env) fs j)) \<subseteq> V"
  shows "\<exists>V' out'. gather_closure env fs i out (id_to_string ` V) = Some (Inr (id_to_string ` V'), out') \<and>
    gathered env fs V' out' \<and> V \<subseteq> V' \<and> closure (sha256 env) fs i \<subseteq> V' \<and> V' \<subseteq> R \<and>
    (\<forall>j\<in>V'. set (child_ids (object_at (sha256 env) fs j)) \<subseteq> V')"
proof -
  have visit: "\<exists>s'. gather_visit env fs j s = Some (Inr (child_ids (object_at (sha256 env) fs j)), s') \<and>
      gathered env fs (insert j W) s'" if j: "j \<in> R" "gathered env fs W s" for j W s
  proof -
    obtain js where js: "set js = W" "s = map (object_pair env fs) js" using j(2) by (auto simp: gathered_def)
    then have "gathered env fs (insert j W) (s @ [object_pair env fs j])"
      unfolding gathered_def by (intro exI [of _ "js @ [j]"]) simp
    then show ?thesis using closed_read [OF assms(5) [OF j(1)]]
      by (simp add: gather_visit_def object_pair_def)
  qed
  have "\<exists>V' s'. walk_loop (gather_visit env fs) [i] (id_to_string ` V) out = Some (Inr (id_to_string ` V'), s') \<and>
      gathered env fs V' s' \<and> V \<union> set [i] \<subseteq> V' \<and> V' \<subseteq> R \<and>
      (\<forall>j\<in>V'. set (child_ids (object_at (sha256 env) fs j)) \<subseteq> V')"
    by (rule walk_loop_visits [OF assms(4,6,7)]) (use visit assms(8-11) in auto)
  then obtain V' s' where w: "gather_closure env fs i out (id_to_string ` V) = Some (Inr (id_to_string ` V'), s')"
    "gathered env fs V' s'" "V \<union> set [i] \<subseteq> V'" "V' \<subseteq> R"
    "\<forall>j\<in>V'. set (child_ids (object_at (sha256 env) fs j)) \<subseteq> V'"
    unfolding gather_closure_def by blast
  then have "i \<in> V'" by simp
  then have "closure (sha256 env) fs i \<subseteq> V'" using reach_within [OF _ _ w(5)] by blast
  with w show ?thesis by (intro exI [of _ V'] exI [of _ s']) simp
qed

lemma gather_tips_closed:
  assumes "store_ok (sha256 env) fs" "full_digest (sha256 env)" "finite R"
    and "\<And>j. j \<in> R \<Longrightarrow> closed (sha256 env) fs j" "\<And>j. j \<in> R \<Longrightarrow> set (child_ids (object_at (sha256 env) fs j)) \<subseteq> R"
    and "inj_on id_to_string R"
  shows "list_all2 (\<lambda>(c, t) i. id_from_str t = Some (Inr i)) tips is \<Longrightarrow> set is \<subseteq> R \<Longrightarrow> V \<subseteq> R \<Longrightarrow> gathered env fs V out \<Longrightarrow>
    \<forall>j\<in>V. set (child_ids (object_at (sha256 env) fs j)) \<subseteq> V \<Longrightarrow>
    \<exists>V' out'. gather_tips env fs tips out (id_to_string ` V) = Some (Inr out') \<and> gathered env fs V' out' \<and>
      V \<union> closures (sha256 env) fs is \<subseteq> V' \<and> V' \<subseteq> R"
proof (induction tips "is" arbitrary: V out rule: list_all2_induct)
  case Nil
  then show ?case by (auto simp: closures_def)
next
  case (Cons ct tips i "is")
  obtain c t where ct: "ct = (c, t)" "id_from_str t = Some (Inr i)" using Cons.hyps(1) by (cases ct) auto
  have i: "i \<in> R" "set is \<subseteq> R" using Cons.prems(1) by auto
  obtain V1 out1 where 1: "gather_closure env fs i out (id_to_string ` V) = Some (Inr (id_to_string ` V1), out1)"
    "gathered env fs V1 out1" "V \<subseteq> V1" "closure (sha256 env) fs i \<subseteq> V1" "V1 \<subseteq> R"
    "\<forall>j\<in>V1. set (child_ids (object_at (sha256 env) fs j)) \<subseteq> V1"
    using gather_closure_closed [OF assms(1,2) assms(4) [OF i(1)] assms(3,4,5,6) i(1) Cons.prems(2-4)] by blast
  obtain V2 out2 where 2: "gather_tips env fs tips out1 (id_to_string ` V1) = Some (Inr out2)" "gathered env fs V2 out2"
    "V1 \<union> closures (sha256 env) fs is \<subseteq> V2" "V2 \<subseteq> R"
    using Cons.IH [OF i(2) 1(5,2,6)] by blast
  show ?case using 1 2 ct by (intro exI [of _ V2] exI [of _ out2]) (auto simp: closures_def)
qed

text \<open>A replication is determined by what is replicated.\<close>

lemma replicated_unique:
  assumes "replicated sha src S d a k" "replicated sha src S d b l"
  shows "a = b"
proof (rule ext)
  fix p
  have sub: "dom a \<subseteq> dom b" if "replicated sha src S d a k" "replicated sha src S d b l" for a b k l
  proof
    fix p assume p: "p \<in> dom a"
    show "p \<in> dom b"
    proof (cases "p \<in> dom d")
      case True
      then show ?thesis using replicatedD(1) [OF that(2)] map_le_implies_dom_le by blast
    next
      case False
      then show ?thesis using replicatedD(3) [OF that(1) p] replicatedD(2) [OF that(2)] by blast
    qed
  qed
  have dom: "dom a = dom b" using sub [OF assms] sub [OF assms(2,1)] by blast
  show "a p = b p"
  proof (cases "p \<in> dom d")
    case True
    then show ?thesis using replicatedD(1) [OF assms(1)] replicatedD(1) [OF assms(2)] by (metis map_le_def)
  next
    case False
    show ?thesis
    proof (cases "p \<in> dom a")
      case True
      then show ?thesis
        using replicatedD(3) [OF assms(1) _ False] replicatedD(3) [OF assms(2) _ False] dom
        by (fastforce simp: object_path_inject)
    next
      case False
      then show ?thesis using dom by (metis domIff)
    qed
  qed
qed

lemma write_pushed_replicates:
  assumes "store_ok (sha256 env) src" "full_digest (sha256 env)"
  shows "\<forall>i\<in>set is. closed (sha256 env) src i \<Longrightarrow>
    \<exists>fs' k. write_pushed env (map (object_pair env src) is) fs = Some (Inr (), fs') \<and> replicated (sha256 env) src (set is) fs fs' k"
proof (induction "is" arbitrary: fs)
  case Nil
  then show ?case using replicated_refl by auto
next
  case (Cons i "is")
  let ?ob = "object_at (sha256 env) src i"
  have r: "read_object (sha256 env) src i = Some (Inr ?ob)" using Cons.prems closed_read by simp
  note ob = store_read [OF assms r]
  have "\<exists>k. replicated (sha256 env) src {i} fs (snd (write_object (sha256 env) fs ?ob)) k"
  proof (cases "has_object fs i")
    case True
    then have "snd (write_object (sha256 env) fs ?ob) = fs" using ob(4) by (simp add: write_object_def has_object_def Let_def)
    then show ?thesis using replicated_present [OF True] by metis
  next
    case False
    then show ?thesis using replicated_write [OF r] by blast
  qed
  then obtain k where 1: "replicated (sha256 env) src {i} fs (snd (write_object (sha256 env) fs ?ob)) k" ..
  obtain fs' k' where 2: "write_pushed env (map (object_pair env src) is) (snd (write_object (sha256 env) fs ?ob)) = Some (Inr (), fs')"
    "replicated (sha256 env) src (set is) (snd (write_object (sha256 env) fs ?ob)) fs' k'"
    using Cons.IH [of "snd (write_object (sha256 env) fs ?ob)"] Cons.prems by (metis list.set_intros(2))
  show ?case
    using replicated_trans [OF 1 2(2)] 2(1) object_from_to_hex [OF ob(1)]
    by (intro exI [of _ fs'] exI [of _ "k + k'"]) (simp add: object_pair_def [of env src i])
qed

lemma copy_tips_replicates:
  "list_all2 (\<lambda>(c, t) i. id_from_str t = Some (Inr i)) tips is \<Longrightarrow> \<forall>i\<in>set is. closed (sha256 env) src i \<Longrightarrow>
   \<exists>fs' k. copy_tips env src tips fs = Some (Inr (), fs') \<and> replicated (sha256 env) src (closures (sha256 env) src is) fs fs' k"
proof (induction tips "is" arbitrary: fs rule: list_all2_induct)
  case Nil
  then show ?case using replicated_refl by (auto simp: closures_def)
next
  case (Cons ct tips i "is")
  obtain c t where ct: "ct = (c, t)" "id_from_str t = Some (Inr i)" using Cons.hyps(1) by (cases ct) auto
  obtain d1 k1 where 1: "copy_closure (sha256 env) src fs i = Some (Inr k1, d1)"
    "replicated (sha256 env) src (closure (sha256 env) src i) fs d1 k1"
    using copy_closure_closed [of "sha256 env" src i fs] Cons.prems by auto
  obtain d2 k2 where 2: "copy_tips env src tips d1 = Some (Inr (), d2)"
    "replicated (sha256 env) src (closures (sha256 env) src is) d1 d2 k2" using Cons.IH [of d1] Cons.prems by auto
  show ?case using ct 1(1) 2(1) replicated_trans [OF 1(2) 2(2)] by (auto simp: closures_def)
qed

text \<open>What is gathered and written on the other side is what the copy of the closures copies.\<close>

lemma pushed_objects:
  assumes "store_ok (sha256 env) src" "full_digest (sha256 env)"
    and "list_all2 (\<lambda>(c, t) i. id_from_str t = Some (Inr i)) tips is" "\<forall>i\<in>set is. closed (sha256 env) src i"
  obtains objects fs' where "gather_tips env src tips [] {} = Some (Inr objects)"
    "write_pushed env objects fs = Some (Inr (), fs')" "copy_tips env src tips fs = Some (Inr (), fs')"
proof -
  let ?R = "closures (sha256 env) src is"
  note R = closures_facts [OF assms(1,2,4)]
  have "gathered env src {} []" by (simp add: gathered_def)
  from gather_tips_closed [OF assms(1,2) R(1) R(3) R(5) R(2) assms(3) R(4) _ this]
  obtain objects where g: "gather_tips env src tips [] {} = Some (Inr objects)" "gathered env src ?R objects" by auto
  then obtain js where js: "set js = ?R" "objects = map (object_pair env src) js" by (auto simp: gathered_def)
  obtain f1 k1 where 1: "write_pushed env objects fs = Some (Inr (), f1)" "replicated (sha256 env) src ?R fs f1 k1"
    using write_pushed_replicates [OF assms(1,2), of js fs] js R(3) by auto
  obtain f2 k2 where 2: "copy_tips env src tips fs = Some (Inr (), f2)" "replicated (sha256 env) src ?R fs f2 k2"
    using copy_tips_replicates [OF assms(3,4)] by blast
  show thesis using that g(1) 1(1) 2(1) replicated_unique [OF 1(2) 2(2)] by simp
qed

section \<open>A server as the network\<close>

definition served :: "tools \<Rightarrow> wire \<Rightarrow> string option \<Rightarrow> repo_state \<Rightarrow> network" where
  "served env w srv st authority request =
     Inr (case handle env w srv st [request] of Some (response, _) \<Rightarrow> response | None \<Rightarrow> [])"

text \<open>A client that may ask: its token is a header value and the one of the server, if that has one.\<close>

definition admitted :: "string \<Rightarrow> string option \<Rightarrow> string option \<Rightarrow> bool" where
  "admitted authority tok srv \<longleftrightarrow>
     line_ok authority \<and> (case tok of Some t \<Rightarrow> token_ok t | None \<Rightarrow> True) \<and> (srv = None \<or> srv = tok)"

lemma read_sent:
  assumes "admitted authority tok srv" "word_ok meth" "word_ok path" "length body < usize_limit"
  shows "read_request [request_text authority meth path body tok] = Inr (meth, path, tok, body)"
  using assms by (intro read_request_text) (auto simp: admitted_def request_text_def word_ok_def)

lemma parse_ok_response: "parse_response (write_response 200 body ''OK'') = Inr \<lparr>status = 200, rbody = body\<rparr>"
  by (rule response_roundtrip) (simp, code_simp)

lemma handle_push:
  assumes "admitted authority tok srv" "length body < usize_limit"
  shows "handle env w srv st [request_text authority ''POST'' ''/push'' body tok] =
    map_option (\<lambda>(res, st'). (write_response 200 (result_to_json w res) ''OK'', st')) (serve_push env w st body)"
proof -
  have "word_ok ''POST''" "word_ok ''/push''" by code_simp+
  note r = read_sent [OF assms(1) this assms(2)]
  have "srv = None \<or> srv = tok" using assms(1) by (simp add: admitted_def)
  then show ?thesis by (auto simp: handle_def r)
qed

lemma served_refs:
  assumes "admitted authority tok srv" "serve_refs st = Some refs" "refs_from_json w (refs_to_json w refs) = Inr refs"
  shows "fetch_refs (refs_from_json w) (served env w srv st) authority tok = Inr refs"
proof -
  have "word_ok ''GET''" "word_ok ''/refs''" "length ([] :: string) < usize_limit" by code_simp+
  note r = read_sent [OF assms(1) this]
  have "srv = None \<or> srv = tok" using assms(1) by (simp add: admitted_def)
  then have "handle env w srv st [request_text authority ''GET'' ''/refs'' [] tok] =
      Some (write_response 200 (refs_to_json w refs) ''OK'', st)"
    using assms(2) by (auto simp: handle_def r)
  then show ?thesis
    using assms(3) by (simp add: fetch_refs_def http_get_def request_http_def served_def parse_ok_response)
qed

lemma solid_hex: "list_all solid (hex_encode s)"
proof (induction s)
  case (Cons c s)
  have "solid (hex_digit n)" if "n < 16" for n
  proof -
    have "n \<in> set [0..<16]" using that by simp
    moreover have "list_all (\<lambda>n. solid (hex_digit n)) [0..<16]" by code_simp
    ultimately show ?thesis by (simp add: list_all_iff)
  qed
  moreover have "byte c div 16 < 16" "byte c mod 16 < 16" by simp_all
  ultimately show ?case using Cons by (simp add: hex_encode_def hex_byte_def)
qed (simp add: hex_encode_def)

lemma word_ok_object: "word_ok (''/object/'' @ id_to_string i)"
proof -
  have "list_all solid ''/object/''" "list_all solid ''sha256:''" by code_simp+
  then show ?thesis using solid_hex [of "digest i"]
    by (cases "alg i") (simp add: word_ok_def id_to_string_def alg_str_def id_hex_def)
qed

lemma served_object:
  assumes "admitted authority tok srv" "store_ok (sha256 env) (objs st)" "full_digest (sha256 env)"
    and "closed (sha256 env) (objs st) i"
  shows "fetch_object (served env w srv st) authority (id_to_string i) tok =
    Inr (serialize (object_at (sha256 env) (objs st) i))"
proof -
  note rd = closed_read [OF assms(4)]
  note ob = store_read [OF assms(2,3) rd]
  have "serve_object env st (id_to_string i) = Some (Inr (Some (serialize (object_at (sha256 env) (objs st) i))))"
    using ob(2) rd by (simp add: serve_object_def id_from_to_string [OF ob(3)] has_object_def)
  moreover have "word_ok ''GET''" "length ([] :: string) < usize_limit" by code_simp+
  note r = read_sent [OF assms(1) this(1) word_ok_object [of i] this(2)]
  have "srv = None \<or> srv = tok" using assms(1) by (simp add: admitted_def)
  ultimately have "handle env w srv st [request_text authority ''GET'' (''/object/'' @ id_to_string i) [] tok] =
      Some (write_response 200 (serialize (object_at (sha256 env) (objs st) i)) ''OK'', st)"
    using r by (auto simp: handle_def)
  then show ?thesis
    by (simp add: fetch_object_def http_get_def request_http_def served_def parse_ok_response)
qed

end
