(* ===== verification/Exchange.thy ===== *)
theory Exchange
  imports Replication
begin

text \<open>
  What a fetch and a push do to the two repositories, over the network and over a path, and what the
  server of a repository lets a request do.
\<close>

section \<open>A push over the network\<close>

abbreviation payload_of :: "submission \<Rightarrow> (change_id \<times> commit_id) list \<Rightarrow> string \<Rightarrow> (string \<times> string) list \<Rightarrow> push_payload" where
  "payload_of s tips queue objects \<equiv> \<lparr>to_queue = queue, psubmission = s, ptips = tips, pobjects = objects\<rparr>"

definition push_answer :: "wire \<Rightarrow> cli_error + string \<Rightarrow> push_result" where
  "push_answer w r =
     (case r of Inr m \<Rightarrow> \<lparr>accepted = True, pmessage = m\<rparr> | Inl e \<Rightarrow> \<lparr>accepted = False, pmessage = error_text w e\<rparr>)"

lemma accept_pushed:
  assumes "write_pushed env objects (objs peer) = Some (Inr (), fs)" "copy_tips env (objs st) tips (objs peer) = Some (Inr (), fs)"
  shows "accept_push env peer (payload_of s tips queue objects) = push_path env st peer s tips queue"
  using assms by (simp add: accept_push_def push_path_def)

lemma serve_push_decoded:
  "push_from_json w body = Inr p \<Longrightarrow> serve_push env w peer body = map_option (\<lambda>(r, st'). (push_answer w r, st')) (accept_push env peer p)"
  by (simp add: serve_push_def push_answer_def)

text \<open>C18: A push over the network is a push to the path: when the submission's tips name closed trees of the
  client, the server is left in the state in which a push to its path leaves the repository, and the
  client is told the outcome of that push, its errors as their text.\<close>
theorem push_transports_agree:
  assumes "store_ok (sha256 env) (objs st)" "full_digest (sha256 env)"
    and "list_all2 (\<lambda>(c, t) i. id_from_str t = Some (Inr i)) tips ids" "\<forall>i\<in>set ids. closed (sha256 env) (objs st) i"
    and "admitted authority tok srv" "\<forall>r. result_from_json w (result_to_json w r) = Inr r"
    and "\<forall>objects. gather_tips env (objs st) tips [] {} = Some (Inr objects) \<longrightarrow>
      push_from_json w (push_to_json w (payload_of s tips queue objects)) = Inr (payload_of s tips queue objects) \<and>
      length (push_to_json w (payload_of s tips queue objects)) < usize_limit"
  shows "\<exists>objects. gather_tips env (objs st) tips [] {} = Some (Inr objects) \<and>
    map_option snd (handle env w srv peer
      [request_text authority ''POST'' ''/push'' (push_to_json w (payload_of s tips queue objects)) tok]) =
      map_option snd (push_path env st peer s tips queue) \<and>
    (\<forall>r peer'. push_path env st peer s tips queue = Some (r, peer') \<longrightarrow>
      push_http env w (served env w srv peer) authority tok st s tips queue =
        Some (case r of Inr m \<Rightarrow> Inr m | Inl e \<Rightarrow> Inl (Bail (error_text w e))))"
proof -
  obtain objects fs where o: "gather_tips env (objs st) tips [] {} = Some (Inr objects)"
    "write_pushed env objects (objs peer) = Some (Inr (), fs)" "copy_tips env (objs st) tips (objs peer) = Some (Inr (), fs)"
    using pushed_objects [OF assms(1-4)] by blast
  let ?p = "payload_of s tips queue objects"
  have json: "push_from_json w (push_to_json w ?p) = Inr ?p" "length (push_to_json w ?p) < usize_limit"
    using assms(7) o(1) by blast+
  have h: "handle env w srv peer [request_text authority ''POST'' ''/push'' (push_to_json w ?p) tok] =
    map_option (\<lambda>(r, st'). (write_response 200 (result_to_json w (push_answer w r)) ''OK'', st'))
      (push_path env st peer s tips queue)"
    unfolding handle_push [OF assms(5) json(2)] serve_push_decoded [OF json(1)] accept_pushed [OF o(2,3)]
    by (cases "push_path env st peer s tips queue") auto
  have "push_http env w (served env w srv peer) authority tok st s tips queue =
      Some (case r of Inr m \<Rightarrow> Inr m | Inl e \<Rightarrow> Inl (Bail (error_text w e)))"
    if "push_path env st peer s tips queue = Some (r, peer')" for r peer'
  proof -
    have "push_over (push_to_json w) (result_from_json w) (served env w srv peer) authority ?p tok = Inr (push_answer w r)"
      using assms(6) that h by (simp add: push_over_def http_post_def request_http_def served_def parse_ok_response)
    then show ?thesis by (cases r) (simp_all add: push_http_def o(1) push_answer_def)
  qed
  moreover have "map_option snd (handle env w srv peer [request_text authority ''POST'' ''/push'' (push_to_json w ?p) tok]) =
    map_option snd (push_path env st peer s tips queue)"
    unfolding h by (cases "push_path env st peer s tips queue") auto
  ultimately show ?thesis using o(1) by blast
qed

section \<open>A fetch over the network\<close>

text \<open>Two stores agree on the ids that both have.\<close>

definition coherent :: "(string \<Rightarrow> string) \<Rightarrow> object_files \<Rightarrow> object_files \<Rightarrow> bool" where
  "coherent sha src fs \<longleftrightarrow>
     (\<forall>i ob bytes. read_object sha src i = Some (Inr ob) \<longrightarrow> fs (object_path i) = Some bytes \<longrightarrow> bytes = serialize ob)"

lemma coherent_replicated:
  assumes "coherent sha src d" "replicated sha src S d d' k"
  shows "coherent sha src d'"
  unfolding coherent_def
proof (intro allI impI)
  fix i ob bytes
  assume i: "read_object sha src i = Some (Inr ob)" "d' (object_path i) = Some bytes"
  show "bytes = serialize ob"
  proof (cases "object_path i \<in> dom d")
    case True
    then show ?thesis using assms(1) i replicatedD(1) [OF assms(2)] by (metis coherent_def domD map_le_def)
  next
    case False
    then show ?thesis using replicatedD(3) [OF assms(2), of "object_path i"] i by (auto simp: object_path_inject)
  qed
qed

lemma pull_closure_served:
  assumes "admitted authority tok srv" "store_ok (sha256 env) (objs peer)" "full_digest (sha256 env)"
    and "closed (sha256 env) (objs peer) i" "coherent (sha256 env) (objs peer) fs"
  shows "pull_closure_http env (served env w srv peer) authority tok fs i = work_pull env (objs peer) fs i"
proof -
  let ?sha = "sha256 env" and ?src = "objs peer"
  let ?R = "closures ?sha ?src [i]" and ?K = "\<lambda>j. child_ids (object_at ?sha ?src j)"
  have ci: "\<forall>j\<in>set [i]. closed ?sha ?src j" using assms(4) by simp
  note R = closures_facts [OF assms(2,3) ci]
  have visit: "\<exists>s'. pull_visit env (served env w srv peer) authority tok j s = Some (Inr (?K j), s') \<and>
      replicated ?sha ?src (insert j V) fs (fst s') (snd s')"
    if j: "j \<in> ?R" "replicated ?sha ?src V fs (fst s) (snd s)" for j V s
  proof -
    note rd = closed_read [OF R(3) [OF j(1)]]
    note ob = store_read [OF assms(2,3) rd]
    obtain d n where s: "s = (d, n)" by (cases s)
    have step: "replicated ?sha ?src (insert j V) fs d' (n + m)" if "replicated ?sha ?src {j} d d' m" for d' m
      using replicated_trans [OF _ that, of V fs n] j(2) s by simp
    show ?thesis
    proof (cases "has_object d j")
      case True
      have "coherent ?sha ?src d" using coherent_replicated [OF assms(5) j(2)] s by simp
      then have "d (object_path j) = Some (serialize (object_at ?sha ?src j))"
        using True rd by (auto simp: coherent_def has_object_def)
      then have "read_object ?sha d j = Some (Inr (object_at ?sha ?src j))" by (rule read_stored) (rule ob)+
      then show ?thesis using True s step [OF replicated_present [OF True]] by (simp add: pull_visit_def)
    next
      case False
      then show ?thesis
        using s step [OF replicated_write [OF rd False]] served_object [OF assms(1-3) R(3) [OF j(1)]]
          deserialize_serialize [OF ob(1)] by (simp add: pull_visit_def)
    qed
  qed
  have "\<exists>V' s'. walk_loop (pull_visit env (served env w srv peer) authority tok) [i] (id_to_string ` {}) (fs, 0) =
      Some (Inr (id_to_string ` V'), s') \<and> replicated ?sha ?src V' fs (fst s') (snd s') \<and> {} \<union> set [i] \<subseteq> V' \<and> V' \<subseteq> ?R \<and>
      (\<forall>j\<in>V'. set (?K j) \<subseteq> V')"
    by (rule walk_loop_visits [where I = "\<lambda>V s. replicated ?sha ?src V fs (fst s) (snd s)", OF R(1,5,2)])
      (use visit R(4) replicated_refl in auto)
  then obtain V' d n where v: "walk_loop (pull_visit env (served env w srv peer) authority tok) [i] {} (fs, 0) =
      Some (Inr (id_to_string ` V'), (d, n))" "replicated ?sha ?src V' fs d n" "i \<in> V'" "V' \<subseteq> ?R"
      "\<forall>j\<in>V'. set (?K j) \<subseteq> V'" by auto
  have "V' = closure ?sha ?src i" using v(4) reach_within [OF _ v(3,5)] by (auto simp: closures_def)
  then have 1: "replicated ?sha ?src (closure ?sha ?src i) fs d n" using v(2) by simp
  obtain d2 k where 2: "copy_closure ?sha ?src fs i = Some (Inr k, d2)" "replicated ?sha ?src (closure ?sha ?src i) fs d2 k"
    using copy_closure_closed [OF assms(4)] by blast
  have "d2 = d" by (rule replicated_unique [OF 2(2) 1])
  then have "k = n" using replicatedD(5) [OF 1] replicatedD(5) [OF 2(2)] by simp
  with \<open>d2 = d\<close> show ?thesis using v(1) 2(1) by (simp add: pull_closure_http_def work_pull_def)
qed

definition reached :: "(string \<Rightarrow> string) \<Rightarrow> object_files \<Rightarrow> ref_table \<Rightarrow> object_id set" where
  "reached sha src refs = {j. \<exists>k t i. (k, t) \<in> set refs \<and> id_from_str t = Some (Inr i) \<and> reach sha src i j}"

lemma pull_tips_exact:
  assumes "\<And>fs i. closed (sha256 env) src i \<Longrightarrow> coherent (sha256 env) src fs \<Longrightarrow> pull fs i = work_pull env src fs i"
  shows "\<forall>(k, t)\<in>set refs. \<exists>i. id_from_str t = Some (Inr i) \<and> closed (sha256 env) src i \<Longrightarrow> coherent (sha256 env) src fs \<Longrightarrow>
    \<exists>fs' m. pull_tips pull name refs fs n tracking =
        Some (Inr (n + m, tracking @ map (\<lambda>(k, t). (''remotes/'' @ name @ ''/'' @ k, t)) refs), fs') \<and>
      replicated (sha256 env) src (reached (sha256 env) src refs) fs fs' m"
proof (induction refs arbitrary: fs n tracking)
  case Nil
  then show ?case using replicated_refl by (auto simp: reached_def)
next
  case (Cons kt refs)
  obtain k t i where kt: "kt = (k, t)" "id_from_str t = Some (Inr i)" "closed (sha256 env) src i"
    using Cons.prems(1) by (cases kt) auto
  obtain d1 m1 where 1: "copy_closure (sha256 env) src fs i = Some (Inr m1, d1)"
    "replicated (sha256 env) src (closure (sha256 env) src i) fs d1 m1" using copy_closure_closed [OF kt(3)] by blast
  obtain fs' m where 2: "pull_tips pull name refs d1 (n + m1) (tracking @ [(''remotes/'' @ name @ ''/'' @ k, t)]) =
      Some (Inr (n + m1 + m, (tracking @ [(''remotes/'' @ name @ ''/'' @ k, t)]) @
        map (\<lambda>(k, t). (''remotes/'' @ name @ ''/'' @ k, t)) refs), fs')"
    "replicated (sha256 env) src (reached (sha256 env) src refs) d1 fs' m"
    using Cons.IH [of d1 "n + m1" "tracking @ [(''remotes/'' @ name @ ''/'' @ k, t)]"] Cons.prems(1)
      coherent_replicated [OF Cons.prems(2) 1(2)] by (meson list.set_intros(2))
  have "reached (sha256 env) src (kt # refs) = closure (sha256 env) src i \<union> reached (sha256 env) src refs"
    using kt(1,2) by (auto simp: reached_def)
  moreover have "pull fs i = Some (Inr m1, d1)" using assms [OF kt(3) Cons.prems(2)] 1(1) by (simp add: work_pull_def)
  ultimately show ?case
    using kt 2(1) replicated_trans [OF 1(2) 2(2)] by (intro exI [of _ fs'] exI [of _ "m1 + m"]) (simp add: add.assoc)
qed

lemma set_refs_exact:
  "log_built log \<Longrightarrow> refs_now log = Some r \<Longrightarrow> length (ops log) + length refs < 2 ^ 64 \<Longrightarrow>
   \<exists>log'. set_refs refs log = Some log' \<and> refs_now log' = Some (r ++ map_of (rev refs))"
proof (induction refs arbitrary: log r)
  case (Cons kt refs)
  obtain k t where kt: "kt = (k, t)" by (cases kt)
  let ?log = "append_op log (SetRef k (r k) (Some t)) None"
  have len: "length (ops log) + 1 < 2 ^ 64" "length (ops ?log) + length refs < 2 ^ 64"
    using Cons.prems(3) by (simp_all add: append_op_def append_at_def)
  obtain log' where rest: "set_refs refs ?log = Some log'" "refs_now log' = Some (r(k \<mapsto> t) ++ map_of (rev refs))"
    using Cons.IH [OF append_set_ref [OF Cons.prems(1) len(1) Cons.prems(2)] len(2)] by blast
  have "set_ref log k (Some t) None = Some ?log" using Cons.prems(2) by (simp add: set_ref_def)
  then have "set_refs (kt # refs) log = Some log'" by (simp only: kt set_refs.simps Option.bind.bind_lunit rest(1))
  moreover have "r(k \<mapsto> t) ++ map_of (rev refs) = r ++ map_of (rev (kt # refs))"
    by (rule ext) (auto simp: kt map_add_def split: option.split)
  ultimately show ?case using rest(2) by (intro exI [of _ log']) (simp only:)
qed simp

lemma map_filter_keys: "map fst (List.map_filter (\<lambda>n. map_option (Pair n) (r n)) ns) = filter (\<lambda>n. r n \<noteq> None) ns"
  by (induction ns) (auto simp: map_filter_simps split: option.split)

lemma distinct_ref_table: "distinct (map fst (ref_table log r))"
  unfolding ref_table_def map_filter_keys by simp

text \<open>The refs that track the public refs of a remote.\<close>

definition tracking_refs :: "string \<Rightarrow> refs \<Rightarrow> refs" where
  "tracking_refs name refs x =
     (let p = ''remotes/'' @ name @ ''/'' in
      if prefix p x \<and> prefix ''public/'' (drop (length p) x) then refs (drop (length p) x) else None)"

lemma map_of_public: "distinct (map fst T) \<Longrightarrow> map_of (public_refs T) k = (if prefix ''public/'' k then map_of T k else None)"
  unfolding public_refs_def by (induction T) (auto simp: map_of_eq_None_iff)

lemma map_of_prefixed:
  "map_of (map (\<lambda>(k, t). (p @ k, t)) T) x = (if prefix p x then map_of T (drop (length p) x) else None)"
  by (induction T) (auto simp: prefix_def)

lemma distinct_prefixed: "distinct (map fst T) \<Longrightarrow> distinct (map fst (map (\<lambda>(k, t). (p @ k, t)) T))"
  by (induction T) (auto simp: rev_image_eqI)

lemma map_of_rev_distinct: "distinct (map fst xs) \<Longrightarrow> map_of (rev xs) = map_of xs"
  by (simp add: map_of_inject_set flip: rev_map)

lemma public_refs_served:
  "public_refs (filter (\<lambda>(k, _). prefix ''public/'' k \<or> prefix ''reconciled/'' k) T) = public_refs T"
  unfolding public_refs_def by (induction T) auto

lemma prefixed_public:
  assumes "distinct (map fst T)"
  shows "map_of (rev (map (\<lambda>(k, t). (p @ k, t)) (public_refs T))) =
    (\<lambda>x. if prefix p x \<and> prefix ''public/'' (drop (length p) x) then map_of T (drop (length p) x) else None)"
proof -
  have d: "distinct (map fst (public_refs T))" using assms unfolding public_refs_def by (simp add: distinct_map_filter)
  show ?thesis
    by (rule ext) (simp add: map_of_rev_distinct [OF distinct_prefixed [OF d]] map_of_prefixed map_of_public [OF assms])
qed

lemma tracking_map:
  assumes "distinct (map fst T)"
  shows "map_of (rev (map (\<lambda>(k, t). (''remotes/'' @ name @ ''/'' @ k, t)) (public_refs T))) = tracking_refs name (map_of T)"
  unfolding tracking_refs_def [abs_def] Let_def prefixed_public [OF assms, of "''remotes/'' @ name @ ''/''", symmetric]
  by simp

lemma length_public:
  assumes "distinct (map fst T)"
  shows "length (public_refs T) = card {k \<in> dom (map_of T). prefix ''public/'' k}"
proof -
  have "distinct (map fst (public_refs T))" using assms unfolding public_refs_def by (simp add: distinct_map_filter)
  moreover have "set (map fst (public_refs T)) = {k \<in> dom (map_of T). prefix ''public/'' k}"
    by (auto simp: public_refs_def dom_map_of_conv_image_fst)
  ultimately show ?thesis by (metis distinct_card length_map)
qed

text \<open>C19: A fetch from a served repository adds to the local store exactly the missing objects below the
  public refs of the server, overwrites nothing, moves exactly the tracking refs of the remote, and
  reports how many objects and refs it wrote.\<close>
theorem http_fetch_exact:
  assumes "remote_target w (remote_reg st) remote = (name, url, tok)" "http_authority url = Some authority"
    and "admitted authority tok srv" "store_ok (sha256 env) (objs peer)" "full_digest (sha256 env)"
    and "coherent (sha256 env) (objs peer) (objs st)" "refs_now (oplog peer) = Some refs"
    and "\<forall>k t. refs k = Some t \<longrightarrow> prefix ''public/'' k \<longrightarrow>
      (\<exists>i. id_from_str t = Some (Inr i) \<and> closed (sha256 env) (objs peer) i)"
    and "\<forall>table. serve_refs peer = Some table \<longrightarrow> refs_from_json w (refs_to_json w table) = Inr table"
    and "log_built (oplog st)" "refs_now (oplog st) = Some mine"
    and "length (ops (oplog st)) + card {k \<in> dom refs. prefix ''public/'' k} < 2 ^ 64"
  shows "\<exists>n fs log. cmd_fetch env w (served env w srv peer) peers st remote =
      Some (Inr (n, card {k \<in> dom refs. prefix ''public/'' k}), st\<lparr>objs := fs, oplog := log\<rparr>) \<and>
    replicated (sha256 env) (objs peer)
      {j. \<exists>k t i. refs k = Some t \<and> prefix ''public/'' k \<and> id_from_str t = Some (Inr i) \<and>
         reach (sha256 env) (objs peer) i j} (objs st) fs n \<and>
    refs_now log = Some (mine ++ tracking_refs name refs)"
proof -
  let ?T = "ref_table (oplog peer) refs" and ?pull = "pull_closure_http env (served env w srv peer) authority tok"
  let ?pub = "public_refs ?T"
  let ?tr = "map (\<lambda>(k, t). (''remotes/'' @ name @ ''/'' @ k, t)) ?pub"
  note T = map_of_refs_now [OF assms(7)]
  have mem: "(k, t) \<in> set ?pub \<longleftrightarrow> refs k = Some t \<and> prefix ''public/'' k" for k t
    using T by (auto simp: public_refs_def distinct_ref_table simp flip: map_of_eq_Some_iff)
  have len: "length ?pub = card {k \<in> dom refs. prefix ''public/'' k}" using length_public [OF distinct_ref_table, of "oplog peer" refs] unfolding T .
  let ?S = "{j. \<exists>k t i. refs k = Some t \<and> prefix ''public/'' k \<and> id_from_str t = Some (Inr i) \<and> reach (sha256 env) (objs peer) i j}"
  have S: "reached (sha256 env) (objs peer) ?pub = ?S" unfolding reached_def mem by blast
  have "serve_refs peer = Some (filter (\<lambda>(k, _). prefix ''public/'' k \<or> prefix ''reconciled/'' k) ?T)"
    by (simp add: serve_refs_def assms(7))
  from served_refs [OF assms(3) this] assms(9) this
  have f: "fetch_refs (refs_from_json w) (served env w srv peer) authority tok =
    Inr (filter (\<lambda>(k, _). prefix ''public/'' k \<or> prefix ''reconciled/'' k) ?T)" by blast
  have open': "open_remote env w (served env w srv peer) peers name url tok = Some (Inr (?pub, ?pull))"
    using f by (simp add: open_remote_def assms(2) public_refs_served)
  obtain fs n where pull: "pull_tips ?pull name ?pub (objs st) 0 [] = Some (Inr (n, ?tr), fs)"
    "replicated (sha256 env) (objs peer) ?S (objs st) fs n"
    using pull_tips_exact [of env "objs peer" ?pull ?pub "objs st" name 0 "[]"] mem assms(6,8) S
      pull_closure_served [OF assms(3-5)] by force
  obtain log where log: "set_refs ?tr (oplog st) = Some log" "refs_now log = Some (mine ++ tracking_refs name refs)"
    using set_refs_exact [OF assms(10,11), of ?tr] assms(12) len tracking_map [OF distinct_ref_table, of name "oplog peer" refs] T
    by auto
  have "cmd_fetch env w (served env w srv peer) peers st remote =
    Some (Inr (n, length ?pub), st\<lparr>objs := fs, oplog := log\<rparr>)"
  proof (cases "?pub = []")
    case True
    then show ?thesis using pull(1) log(1) by (simp add: cmd_fetch_def assms(1) open')
  next
    case False
    then show ?thesis using pull(1) log(1) by (simp add: cmd_fetch_def assms(1) open')
  qed
  then show ?thesis using pull(2) log(2) len by auto
qed

section \<open>The gates of a push\<close>

lemma record_tips_exact:
  "distinct (map fst tips) \<Longrightarrow> \<forall>c\<in>fst ` set tips. r c = current c \<Longrightarrow> log_built log \<Longrightarrow> refs_now log = Some r \<Longrightarrow>
   record_tips current tips log = Some log' \<Longrightarrow> length (ops log') < 2 ^ 64 \<Longrightarrow>
   log_built log' \<and> refs_now log' = Some (r ++ map_of tips) \<and> length (ops log) \<le> length (ops log')"
proof (induction current tips log arbitrary: r rule: record_tips.induct)
  case (2 current c t tips log)
  have c: "c \<notin> fst ` set tips" "distinct (map fst tips)" using "2.prems"(1) by auto
  then have "map_of tips c = None" by (simp add: map_of_eq_None_iff)
  then have upd: "r(c \<mapsto> t) ++ map_of tips = r ++ map_of ((c, t) # tips)"
    by (intro ext) (auto simp: map_add_def split: option.split)
  show ?case
  proof (cases "current c = Some t")
    case True
    then have "r(c \<mapsto> t) = r" using "2.prems"(2) by (auto simp: fun_upd_idem_iff)
    moreover have "log_built log' \<and> refs_now log' = Some (r ++ map_of tips) \<and> length (ops log) \<le> length (ops log')"
      using "2.IH"(2) [of r] "2.prems" c True by simp
    ultimately show ?thesis using upd by (simp only:)
  next
    case False
    let ?log = "append_op log (SetRef c (r c) (Some t)) None"
    have s: "set_ref log c (Some t) None = Some ?log" using "2.prems"(4) by (simp add: set_ref_def)
    then have rest: "record_tips current tips ?log = Some log'" using "2.prems"(5) False by simp
    have grow: "length (ops l) \<le> length (ops log')" if "record_tips current tips l = Some log'" for l
      using that
    proof (induction current tips l rule: record_tips.induct)
      case (2 current c t tips log)
      then show ?case by (auto simp: set_ref_def append_op_def append_at_def Option.bind_eq_Some_conv split: if_splits)
    qed simp
    have len: "length (ops ?log) = length (ops log) + 1" by (simp add: append_op_def append_at_def)
    then have "length (ops log) + 1 < 2 ^ 64" using grow [OF rest] "2.prems"(6) by simp
    note a = append_set_ref [OF "2.prems"(3) this "2.prems"(4), of c "r c" "Some t" None]
    have "\<forall>d\<in>fst ` set tips. (r(c \<mapsto> t)) d = current d" using "2.prems"(2) c(1) by auto
    note ih = "2.IH"(1) [OF False s c(2) this a rest "2.prems"(6), unfolded upd len]
    then have "length (ops log) \<le> length (ops log')" by linarith
    with ih show ?thesis by (intro conjI) (elim conjE, assumption)+
  qed
qed simp

lemma graph_of_tips_known:
  "graph_of_tips tips g ids = Some (g', ids') \<Longrightarrow> superseded_by g = [] \<Longrightarrow> distinct (map fst tips) \<Longrightarrow>
   superseded_by g' = [] \<and> (\<forall>c. change_of g' c = None \<longleftrightarrow> c \<notin> fst ` set tips \<and> change_of g c = None) \<and>
   (\<forall>c. tip g' c = (case map_of tips c of Some t \<Rightarrow> Some t | None \<Rightarrow> tip g c))"
proof (induction tips g ids rule: graph_of_tips.induct)
  case (2 c t tips g ids)
  then obtain r where "id_from_str t = Some r" "graph_of_tips tips (add_change g \<lparr>change_id = c, revisions = [t], phase_of = Draft\<rparr>)
      (case r of Inr i \<Rightarrow> ids @ [i] | Inl _ \<Rightarrow> ids) = Some (g', ids')" by (auto simp: Option.bind_eq_Some_conv)
  moreover have "map_of tips c = None" using "2.prems"(3) by (simp add: map_of_eq_None_iff)
  ultimately show ?case using "2.IH" [of r] "2.prems"(2,3)
    by (auto simp: change_of_add_change tip_add_change split: option.splits)
qed simp

lemma land_loop_known:
  "land_loop ref_of note_of cs g log acc = Some (Inr l, g', log') \<Longrightarrow> \<forall>c\<in>set cs. change_of g c \<noteq> None"
proof (induction cs arbitrary: g log acc)
  case (Cons c cs)
  then obtain ch g1 refs where step: "change_of g c = Some ch"
    "(if phase_of ch = Draft then set_phase g c Public else Inr g) = Inr g1"
    "land_loop ref_of note_of cs g1 (append_op log (SetRef (ref_of c) (refs (ref_of c)) (tip g1 c)) (Some (note_of c))) (acc @ [c]) =
       Some (Inr l, g', log')"
    by (auto split: option.splits sum.splits)
  have "change_of g1 d = None \<longleftrightarrow> change_of g d = None" for d
    using step(1,2) by (auto simp: set_phase_def change_of_def update_conv' split: if_splits option.splits)
  then show ?case using Cons.IH [OF step(3)] step(1) by auto
qed simp

lemma land_in_queue_known:
  "land_submission_in_queue s policy gates g log = Some (Inr r, g', log') \<Longrightarrow> \<forall>c\<in>set (sub_changes s). change_of g c \<noteq> None"
  by (auto simp: land_submission_in_queue_def res_simps split: if_splits dest!: land_loop_known)

lemma land_recorded_ok:
  assumes "land_recorded env st policy s tips = Some (Inr m, st')"
  obtains g ids refs gates fs rec r g1 log log' where "graph_of_tips tips new_graph [] = Some (g, ids)" "refs_now (oplog st) = Some refs"
    "observe_batch_gates env (objs st) (queue_reg st) (ref_table (oplog st) refs) (queue_name policy) [(sub_id s, ids)] policy
       (scratch_path st ''land'') = Some (Inr (gates :: batch_gates))"
    "reconcile_core env (objs st) (queue_reg st) (oplog st) policy [s] (scratch_path st ''reconcile'') = Some (Inr rec, fs)"
    "rcarried rec = 0 \<or> allow_carried policy"
    "land_submission_in_queue s policy \<lparr>carried_values = batch_carried gates, validated = batch_validated gates\<rparr> g (oplog st) =
       Some (Inr r, g1, log)"
    "write_reconciled_head log (queue_name policy) (rtip rec) = Some log'"
    "st' = save_submission s (st\<lparr>objs := fs\<rparr>)\<lparr>oplog := log'\<rparr>"
proof -
  obtain g ids refs where a: "graph_of_tips tips new_graph [] = Some (g, ids)" "refs_now (oplog st) = Some refs"
    using assms by (auto simp: land_recorded_def Option.bind_eq_Some_conv)
  obtain gates :: batch_gates where b: "observe_batch_gates env (objs st) (queue_reg st) (ref_table (oplog st) refs) (queue_name policy)
      [(sub_id s, ids)] policy (scratch_path st ''land'') = Some (Inr gates)"
    using assms a by (auto simp: land_recorded_def split: option.splits sum.splits)
  obtain rec fs where c: "reconcile_core env (objs st) (queue_reg st) (oplog st) policy [s] (scratch_path st ''reconcile'') = Some (Inr rec, fs)"
    "rcarried rec = 0 \<or> allow_carried policy"
    using assms a b by (auto simp: land_recorded_def split: option.splits sum.splits if_splits)
  obtain r g1 log where d: "land_submission_in_queue s policy
      \<lparr>carried_values = batch_carried gates, validated = batch_validated gates\<rparr> g (oplog st) = Some (Inr r, g1, log)"
    using assms a b c by (auto simp: land_recorded_def Let_def split: option.splits sum.splits if_splits)
  obtain log' where "write_reconciled_head log (queue_name policy) (rtip rec) = Some log'"
    "st' = save_submission s (st\<lparr>objs := fs\<rparr>)\<lparr>oplog := log'\<rparr>"
    using assms a b c d by (auto simp: land_recorded_def Let_def split: if_splits)
  with a b c d show thesis using that by blast
qed

lemma land_pushed_ok:
  assumes "land_pushed env st queue s tips = Some (Inr m, st')"
  obtains policy refs log where "resolve_queue (queue_reg st) queue = Inr policy" "require_approval policy \<longrightarrow> is_approved s"
    "refs_now (oplog st) = Some refs" "record_tips refs tips (oplog st) = Some log"
    "land_recorded env (st\<lparr>oplog := log\<rparr>) policy s tips = Some (Inr m, st')"
proof -
  obtain policy where a: "resolve_queue (queue_reg st) queue = Inr policy" "require_approval policy \<longrightarrow> is_approved s"
    using assms by (auto simp: land_pushed_def split: sum.splits if_splits)
  then obtain refs log where "refs_now (oplog st) = Some refs" "record_tips refs tips (oplog st) = Some log"
    "land_recorded env (st\<lparr>oplog := log\<rparr>) policy s tips = Some (Inr m, st')"
    using assms by (auto simp: land_pushed_def Option.bind_eq_Some_conv split: if_splits)
  with a show thesis by (rule that)
qed

text \<open>The object ids that the tips of a push stand for.\<close>

lemma graph_of_tips_ids:
  "graph_of_tips tips g ids = Some (g', ids') \<Longrightarrow>
   ids' = ids @ List.map_filter (\<lambda>(c, t). case id_from_str t of Some (Inr i) \<Rightarrow> Some i | _ \<Rightarrow> None) tips"
proof (induction tips arbitrary: g ids)
  case (Cons e tips)
  obtain c t where e: "e = (c, t)" by (cases e)
  then obtain r where r: "id_from_str t = Some r" using Cons.prems by (cases "id_from_str t") auto
  then show ?case using Cons e by (cases r) (simp add: map_filter_simps, fastforce simp: map_filter_simps)+
qed (simp add: map_filter_simps)

text \<open>C17: A push that lands passed every gate of the queue of the server: its submission is approved when
  the policy asks for it; the tips that it brought, checked out side by side, hold no conflict value
  in a Rust file unless the policy allows them and were accepted by its validator; and the
  reconciliation onto the merged trunk, from the log with the tips recorded, carries no conflict value
  unless they are allowed. It landed exactly the changes of its submission, each at the tip that it
  recorded, and moved the merged trunk to the reconciled tree; besides these, the refs of the tips it
  sent are recorded, the submission is saved and the objects are those the reconciliation stored.\<close>
theorem push_gated:
  assumes "land_pushed env st queue s tips = Some (Inr m, st')" "distinct (map fst tips)" "log_built (oplog st)"
    and "length (ops (oplog st')) < 2 ^ 64"
  shows "\<exists>policy refs log rec fs. resolve_queue (queue_reg st) queue = Inr policy \<and>
    (require_approval policy \<longrightarrow> is_approved s) \<and> refs_now (oplog st) = Some refs \<and>
    record_tips refs tips (oplog st) = Some log \<and> refs_now log = Some (refs ++ map_of tips) \<and>
    content_gated env (objs st) policy
      [(sub_id s, List.map_filter (\<lambda>(c, t). case id_from_str t of Some (Inr i) \<Rightarrow> Some i | _ \<Rightarrow> None) tips)]
      (scratch_path st ''land'') \<and>
    reconcile_core env (objs st) (queue_reg st) log policy [s] (scratch_path st ''reconcile'') = Some (Inr rec, fs) \<and>
    (rcarried rec = 0 \<or> allow_carried policy) \<and> set (sub_changes s) \<subseteq> fst ` set tips \<and>
    refs_now (oplog st') = Some ((landed_refs (queue_name policy) (set (sub_changes s)) (map_of tips) (refs ++ map_of tips))
      (reconciled_ref (queue_name policy) \<mapsto> id_to_string (rtip rec))) \<and>
    saved st' = (saved st)(submission_path (control st) (sub_id s) \<mapsto> s) \<and> objs st' = fs"
proof -
  obtain policy refs log where p: "resolve_queue (queue_reg st) queue = Inr policy" "require_approval policy \<longrightarrow> is_approved s"
    "refs_now (oplog st) = Some refs" "record_tips refs tips (oplog st) = Some log"
    "land_recorded env (st\<lparr>oplog := log\<rparr>) policy s tips = Some (Inr m, st')" by (rule land_pushed_ok [OF assms(1)])
  let ?st = "st\<lparr>oplog := log\<rparr>"
  have same: "objs ?st = objs st" "queue_reg ?st = queue_reg st" "oplog ?st = log" "scratch_path ?st x = scratch_path st x" for x
    by (simp_all add: scratch_path_def)
  obtain g ids now gates fs rec r g1 log1 log2 where l: "graph_of_tips tips new_graph [] = Some (g, ids)" "refs_now log = Some now"
    "observe_batch_gates env (objs st) (queue_reg st) (ref_table log now) (queue_name policy) [(sub_id s, ids)] policy
       (scratch_path st ''land'') = Some (Inr (gates :: batch_gates))"
    "reconcile_core env (objs st) (queue_reg st) log policy [s] (scratch_path st ''reconcile'') = Some (Inr rec, fs)"
    "rcarried rec = 0 \<or> allow_carried policy"
    "land_submission_in_queue s policy \<lparr>carried_values = batch_carried gates, validated = batch_validated gates\<rparr> g log =
       Some (Inr r, g1, log1)"
    "write_reconciled_head log1 (queue_name policy) (rtip rec) = Some log2"
    "st' = save_submission s (?st\<lparr>objs := fs\<rparr>)\<lparr>oplog := log2\<rparr>"
    by (rule land_recorded_ok [OF p(5), unfolded same])
  note gates = land_submission_gates [OF l(6)]
  have len: "length (ops log2) = length (ops log1) + 1"
    using l(7) by (auto simp: write_reconciled_head_def set_ref_def append_op_def append_at_def)
  have bound: "length (ops log2) < 2 ^ 64" using assms(4) l(8) by simp
  then have bounds: "length (ops log) + length (sub_changes s) < 2 ^ 64" "length (ops log1) + 1 < 2 ^ 64" "length (ops log) < 2 ^ 64"
    using len gates(3) by simp_all
  have rec: "log_built log" "now = refs ++ map_of tips"
    using record_tips_exact [OF assms(2) _ assms(3) p(3,4) bounds(3)] l(2) by simp_all
  have g: "superseded_by new_graph = []" "change_of new_graph c = None" "tip new_graph c = None" for c
    by (simp_all add: new_graph_def tip_def change_of_def)
  have known: "\<forall>c\<in>set (sub_changes s). change_of g c \<noteq> None" by (rule land_in_queue_known [OF l(6)])
  have tips: "set (sub_changes s) \<subseteq> fst ` set tips" "\<And>c. tip g c = map_of tips c"
    using graph_of_tips_known [OF l(1) g(1) assms(2)] known by (auto simp: g split: option.splits)
  from land_in_queue_ok [of policy s "\<lparr>carried_values = batch_carried gates, validated = batch_validated gates\<rparr>" log g now]
    gates(1,2) rec(1) known bounds(1) l(2,6)
  have log1: "log_built log1" "refs_now log1 = Some (landed_refs (queue_name policy) (set (sub_changes s)) (tip g) now)" by auto
  have "landed_refs (queue_name policy) (set (sub_changes s)) (tip g) now =
    landed_refs (queue_name policy) (set (sub_changes s)) (map_of tips) now" by (rule landed_refs_cong) (rule tips(2))
  moreover have "refs_now log2 = Some ((landed_refs (queue_name policy) (set (sub_changes s)) (tip g) now)
      (reconciled_ref (queue_name policy) \<mapsto> id_to_string (rtip rec)))"
    using set_ref_effect [OF log1(1) bounds(2)] l(7) log1(2) unfolding write_reconciled_head_def by (metis option.inject)
  moreover have "gates_pass policy (batch_carried gates) (batch_validated gates)" using gates(2) by simp
  moreover have "saved st' = (saved st)(submission_path (control st) (sub_id s) \<mapsto> s)" "oplog st' = log2"
    using l(8) by (simp_all add: save_submission_def)
  moreover have "objs st' = fs" using l(8) by (simp add: save_submission_def)
  moreover have "content_gated env (objs st) policy
      [(sub_id s, List.map_filter (\<lambda>(c, t). case id_from_str t of Some (Inr i) \<Rightarrow> Some i | _ \<Rightarrow> None) tips)]
      (scratch_path st ''land'')"
    using observe_gated [OF l(3)] gates(2) graph_of_tips_ids [OF l(1)] by simp
  ultimately show ?thesis
    using p(1-4) l(2,4,5) rec(2) tips(1)
    by (intro exI [of _ policy] exI [of _ refs] exI [of _ log] exI [of _ rec] exI [of _ fs]) simp
qed

lemma land_recorded_refused:
  assumes "land_recorded env st policy s tips = Some (Inl e, st')"
  shows "oplog st' = oplog st"
proof -
  obtain g ids refs where a: "graph_of_tips tips new_graph [] = Some (g, ids)" "refs_now (oplog st) = Some refs"
    using assms by (auto simp: land_recorded_def Option.bind_eq_Some_conv)
  note step = assms [unfolded land_recorded_def a Option.bind.bind_lunit prod.case]
  let ?obs = "observe_batch_gates env (objs st) (queue_reg st) (ref_table (oplog st) refs) (queue_name policy) [(sub_id s, ids)]
    policy (scratch_path st ''land'')"
  let ?rec = "reconcile_core env (objs st) (queue_reg st) (oplog st) policy [s] (scratch_path st ''reconcile'')"
  consider "?obs = None" | e' where "?obs = Some (Inl e')" | gates where "?obs = Some (Inr (gates :: batch_gates))"
    by (cases ?obs) (metis, metis sum.exhaust)
  then show ?thesis
  proof cases
    case (3 gates)
    note step = step [unfolded 3 option.case sum.case]
    consider "?rec = None" | e' fs where "?rec = Some (Inl e', fs)" | rec fs where "?rec = Some (Inr rec, fs)"
      by (cases ?rec) (metis, metis sum.exhaust prod.exhaust)
    then show ?thesis
    proof cases
      case (3 rec fs)
      note step = step [unfolded 3 option.case sum.case prod.case]
      let ?land = "land_submission_in_queue s policy
        \<lparr>carried_values = batch_carried gates, validated = batch_validated gates\<rparr> g (oplog st)"
      consider "?land = None" | e' g1 l where "?land = Some (Inl e', g1, l)" | r g1 l where "?land = Some (Inr r, g1, l)"
        by (cases ?land) (metis, metis sum.exhaust prod.exhaust)
      then show ?thesis
        using step by cases (auto simp: Let_def save_submission_def split: if_splits)
    qed (use step in auto)
  qed (use step in auto)
qed

text \<open>A push that is refused by a gate has its tips recorded: the refs it names, whatever they are, are
  set before a gate is asked.\<close>

lemma refused_push_records:
  assumes "resolve_queue (queue_reg st) queue = Inr policy" "require_approval policy \<longrightarrow> is_approved s"
    and "land_pushed env st queue s tips = Some (Inl e, st')" "distinct (map fst tips)" "log_built (oplog st)"
    and "refs_now (oplog st) = Some refs" "length (ops (oplog st')) < 2 ^ 64"
  shows "refs_now (oplog st') = Some (refs ++ map_of tips)"
proof -
  obtain log where log: "record_tips refs tips (oplog st) = Some log"
    "land_recorded env (st\<lparr>oplog := log\<rparr>) policy s tips = Some (Inl e, st')"
    using assms(1-3,6) by (auto simp: land_pushed_def Option.bind_eq_Some_conv)
  have "oplog st' = log" using land_recorded_refused [OF log(2)] by simp
  then show ?thesis using record_tips_exact [OF assms(4) _ assms(5,6) log(1)] assms(7) by simp
qed

section \<open>What the server lets a request do\<close>

text \<open>C20: A server with a token answers a request without it by 401 and stays as it is; a request that
  changes the repository is a push that carries the token, and the state it leaves is that of the
  push; the table of refs it shows holds public refs and heads of merged trunks only.\<close>
theorem server_guarded:
  assumes "handle env w srv st chunks = Some (response, st')"
  shows "(\<forall>meth path bearer body. read_request chunks = Inr (meth, path, bearer, body) \<longrightarrow> srv \<noteq> None \<longrightarrow> bearer \<noteq> srv \<longrightarrow>
      response = write_response 401 [] ''Unauthorized'' \<and> st' = st) \<and>
    (st' = st \<or> (\<exists>bearer body p r. read_request chunks = Inr (''POST'', ''/push'', bearer, body) \<and>
      (srv = None \<or> bearer = srv) \<and> push_from_json w body = Inr p \<and> accept_push env st p = Some (r, st'))) \<and>
    (\<forall>bearer body refs. read_request chunks = Inr (''GET'', ''/refs'', bearer, body) \<longrightarrow> (srv = None \<or> bearer = srv) \<longrightarrow>
      refs_now (oplog st) = Some refs \<longrightarrow> (\<exists>table. response = write_response 200 (refs_to_json w table) ''OK'' \<and>
        (\<forall>k t. (k, t) \<in> set table \<longleftrightarrow> refs k = Some t \<and> (prefix ''public/'' k \<or> prefix ''reconciled/'' k))))"
proof (intro conjI allI impI)
  fix meth path bearer body
  assume r: "read_request chunks = Inr (meth, path, bearer, body)" "srv \<noteq> None" "bearer \<noteq> srv"
  then show "response = write_response 401 [] ''Unauthorized''" "st' = st" using assms by (simp_all add: handle_def)
next
  show "st' = st \<or> (\<exists>bearer body p r. read_request chunks = Inr (''POST'', ''/push'', bearer, body) \<and>
      (srv = None \<or> bearer = srv) \<and> push_from_json w body = Inr p \<and> accept_push env st p = Some (r, st'))"
  proof (cases "st' = st")
    case changed: False
    obtain meth path bearer body where r: "read_request chunks = Inr (meth, path, bearer, body)" "srv = None \<or> bearer = srv"
      "meth = ''POST''" "path = ''/push''" "Option.bind (serve_push env w st body) (\<lambda>(_, s). Some s) = Some st'"
      using assms changed unfolding handle_def
      by (cases "read_request chunks") (auto split: if_splits)
    then obtain p where p: "push_from_json w body = Inr p" using changed
      by (cases "push_from_json w body") (auto simp: serve_push_def)
    then obtain r where "accept_push env st p = Some (r, st')"
      using r(5) by (auto simp: serve_push_def Option.bind_eq_Some_conv)
    then show ?thesis using r p by blast
  qed simp
next
  fix bearer body refs
  assume r: "read_request chunks = Inr (''GET'', ''/refs'', bearer, body)" "srv = None \<or> bearer = srv"
    and refs: "refs_now (oplog st) = Some refs"
  let ?table = "filter (\<lambda>(k, _). prefix ''public/'' k \<or> prefix ''reconciled/'' k) (ref_table (oplog st) refs)"
  have "serve_refs st = Some ?table" by (simp add: serve_refs_def refs)
  then have "response = write_response 200 (refs_to_json w ?table) ''OK''" using assms r by (auto simp: handle_def)
  moreover have "(k, t) \<in> set ?table \<longleftrightarrow> refs k = Some t \<and> (prefix ''public/'' k \<or> prefix ''reconciled/'' k)" for k t
    using map_of_refs_now [OF refs] by (auto simp: distinct_ref_table simp flip: map_of_eq_Some_iff)
  ultimately show "\<exists>table. response = write_response 200 (refs_to_json w table) ''OK'' \<and>
      (\<forall>k t. (k, t) \<in> set table \<longleftrightarrow> refs k = Some t \<and> (prefix ''public/'' k \<or> prefix ''reconciled/'' k))" by blast
qed

text \<open>What a server answers for an object is stored under its own id, not checked against the id that was
  asked for: the fetch goes on as if the object had arrived.\<close>

lemma pull_unchecked:
  assumes "\<not> has_object fs i" "fetch_object net authority (id_to_string i) tok = Inr (serialize ob)" "obj_ok ob"
    and "obj_id (sha256 env) ob \<noteq> i"
  shows "\<exists>fs' n'. pull_visit env net authority tok i (fs, n) = Some (Inr (child_ids ob), (fs', n')) \<and> \<not> has_object fs' i"
  using assms by (auto simp: pull_visit_def deserialize_serialize write_object_def Let_def has_object_def object_path_inject)

section \<open>Examples\<close>

lemma ex_store: "store_ok ex_sha ex_objs" "closed ex_sha ex_objs ex_old_id"
proof -
  have e: "store_ok ex_sha Map.empty" by (simp add: store_ok_def)
  have s: "snapshot ex_sha ''p'' ex_note Map.empty = (Inr ex_old_id, ex_objs)"
    using snapshot_all_objs [OF ex_note_ok(1)] by (simp add: ex_objs_def ex_old_id_def)
  have "list_all obj_ok (all_objs ex_sha ex_note)" by (rule all_objs_ok [OF ex_sha_full ex_note_ok(1,2)])
  then show "store_ok ex_sha ex_objs" unfolding ex_objs_def by (rule store_all_ok [OF e])
  have "\<forall>ob\<in>set (all_objs ex_sha ex_note). readable_obj ex_sha ex_objs ob"
    using snapshot_readable [OF ex_sha_full e ex_note_ok(1,2) ex_note_no_clash, of "''p''"] s by simp
  then show "closed ex_sha ex_objs ex_old_id"
    unfolding ex_old_id_def by (rule content_closure(1) [OF ex_note_ok(1)])
qed

definition ex_wire :: wire where
  "ex_wire = \<lparr>refs_to_json = (\<lambda>_. []), refs_from_json = (\<lambda>_. Inr [(''public/c1'', ex_tip)]), push_to_json = (\<lambda>_. ''p''),
     push_from_json = (\<lambda>_. Inr (payload_of sub1 [(''c1'', ex_tip)] ''q''
       (case gather_tips ex_tools ex_objs [(''c1'', ex_tip)] [] {} of Some (Inr objects) \<Rightarrow> objects | _ \<Rightarrow> []))),
     result_to_json = (\<lambda>r. (if accepted r then CHR ''T'' else CHR ''F'') # pmessage r),
     result_from_json = (\<lambda>s. Inr \<lparr>accepted = (take 1 s = ''T''), pmessage = drop 1 s\<rparr>),
     error_text = (\<lambda>_. ''error''), omo_token = None\<rparr>"

lemma ex_objs_repo: "objs ex_repo = ex_objs" "oplog ex_repo = ex_log" "queue_reg ex_repo = \<lparr>queues = [ex_queue]\<rparr>"
  "objs ex_landed = ex_objs" "oplog ex_landed = ex_landed_log"
  by (simp_all add: ex_landed_def ex_repo_def)

lemma ex_admitted: "admitted ''h'' None None"
  by (simp add: admitted_def line_ok_def)

lemma push_transports_agree_witness:
  "\<exists>objects. map_option snd (handle ex_tools ex_wire None ex_repo
      [request_text ''h'' ''POST'' ''/push'' (push_to_json ex_wire (payload_of sub1 [(''c1'', ex_tip)] ''q'' objects)) None]) =
    map_option snd (push_path ex_tools ex_repo ex_repo sub1 [(''c1'', ex_tip)] ''q'')"
proof -
  have "list_all2 (\<lambda>(c, t) i. id_from_str t = Some (Inr i)) [(''c1'', ex_tip)] [ex_old_id]" by (simp add: ex_tip_id)
  moreover have "\<forall>i\<in>set [ex_old_id]. closed (sha256 ex_tools) (objs ex_repo) i" "store_ok (sha256 ex_tools) (objs ex_repo)"
    "full_digest (sha256 ex_tools)" by (simp_all add: ex_sha_tools ex_objs_repo ex_store ex_sha_full)
  moreover have "\<forall>r. result_from_json ex_wire (result_to_json ex_wire r) = Inr r" by (simp add: ex_wire_def)
  moreover have "\<forall>objects. gather_tips ex_tools (objs ex_repo) [(''c1'', ex_tip)] [] {} = Some (Inr objects) \<longrightarrow>
      push_from_json ex_wire (push_to_json ex_wire (payload_of sub1 [(''c1'', ex_tip)] ''q'' objects)) =
        Inr (payload_of sub1 [(''c1'', ex_tip)] ''q'' objects) \<and>
      length (push_to_json ex_wire (payload_of sub1 [(''c1'', ex_tip)] ''q'' objects)) < usize_limit"
    by (simp add: ex_wire_def ex_objs_repo del: gather_tips.simps)
  ultimately show ?thesis
    using push_transports_agree [where env = ex_tools and st = ex_repo and tips = "[(''c1'', ex_tip)]" and ids = "[ex_old_id]"
        and authority = "''h''" and tok = None and srv = None and w = ex_wire and s = sub1 and queue = "''q''" and peer = ex_repo]
      ex_admitted by blast
qed

definition ex_client :: repo_state where
  "ex_client = ex_repo\<lparr>objs := Map.empty, oplog := new_log\<rparr>"

lemma http_fetch_exact_witness:
  "\<exists>n fs log. cmd_fetch ex_tools ex_wire (served ex_tools ex_wire None ex_landed) Map.empty ex_client ''http://h'' =
      Some (Inr (n, 1), ex_client\<lparr>objs := fs, oplog := log\<rparr>) \<and> has_object fs ex_old_id \<and>
    refs_now log = Some (Map.empty ++ tracking_refs ''http://h'' [''c1'' \<mapsto> ex_tip, ''public/c1'' \<mapsto> ex_tip])"
proof -
  let ?refs = "[''c1'' \<mapsto> ex_tip, ''public/c1'' \<mapsto> ex_tip]"
  have pub: "{k \<in> dom ?refs. prefix ''public/'' k} = {''public/c1''}" by auto
  have target: "remote_target ex_wire (remote_reg ex_client) ''http://h'' = (''http://h'', ''http://h'', None)"
    by (simp add: remote_target_def ex_client_def ex_repo_def new_remotes_def get_remote_def resolve_token_def ex_wire_def)
  have auth: "http_authority ''http://h'' = Some ''h''" by code_simp
  have table: "\<forall>table. serve_refs ex_landed = Some table \<longrightarrow> refs_from_json ex_wire (refs_to_json ex_wire table) = Inr table"
    by (simp add: serve_refs_def ex_objs_repo ex_landed_log ex_wire_def)
  have closed: "\<forall>k t. ?refs k = Some t \<longrightarrow> prefix ''public/'' k \<longrightarrow>
      (\<exists>i. id_from_str t = Some (Inr i) \<and> closed (sha256 ex_tools) (objs ex_landed) i)"
    using ex_store(2) by (auto simp: ex_tip_id ex_sha_tools ex_objs_repo split: if_splits)
  have client: "coherent (sha256 ex_tools) (objs ex_landed) (objs ex_client)" "log_built (oplog ex_client)"
    "refs_now (oplog ex_client) = Some Map.empty" "length (ops (oplog ex_client)) + card {k \<in> dom ?refs. prefix ''public/'' k} < 2 ^ 64"
    by (simp_all only: pub) (simp_all add: coherent_def ex_client_def log_empty new_log_refs, simp add: new_log_def)
  have server: "store_ok (sha256 ex_tools) (objs ex_landed)" "full_digest (sha256 ex_tools)" "refs_now (oplog ex_landed) = Some ?refs"
    by (simp_all add: ex_sha_tools ex_objs_repo ex_store ex_sha_full ex_landed_log)
  from http_fetch_exact [OF target auth ex_admitted server(1,2) client(1) server(3) closed table client(2-4), of Map.empty]
  obtain n fs log where f: "cmd_fetch ex_tools ex_wire (served ex_tools ex_wire None ex_landed) Map.empty ex_client ''http://h'' =
      Some (Inr (n, 1), ex_client\<lparr>objs := fs, oplog := log\<rparr>)"
    "replicated (sha256 ex_tools) (objs ex_landed) {j. \<exists>k t i. ?refs k = Some t \<and> prefix ''public/'' k \<and>
       id_from_str t = Some (Inr i) \<and> reach (sha256 ex_tools) (objs ex_landed) i j} (objs ex_client) fs n"
    "refs_now log = Some (Map.empty ++ tracking_refs ''http://h'' ?refs)"
    unfolding pub by auto
  have "?refs ''public/c1'' = Some ex_tip" "prefix ''public/'' ''public/c1''" by simp_all
  then have "has_object fs ex_old_id"
    using f(2) ex_tip_id reach_root unfolding replicated_def by blast
  with f show ?thesis by blast
qed

lemma server_guarded_witness:
  "\<exists>response. handle ex_tools ex_wire (Some ''k'') ex_repo [request_text ''h'' ''GET'' ''/refs'' [] None] = Some (response, ex_repo) \<and>
     response = write_response 401 [] ''Unauthorized''"
proof -
  have "word_ok ''GET''" "word_ok ''/refs''" "length ([] :: string) < usize_limit" by code_simp+
  note r = read_sent [OF ex_admitted this]
  then have h: "handle ex_tools ex_wire (Some ''k'') ex_repo [request_text ''h'' ''GET'' ''/refs'' [] None] =
    Some (write_response 401 [] ''Unauthorized'', ex_repo)" by (simp add: handle_def)
  have "None \<noteq> Some ''k''" "Some ''k'' \<noteq> (None :: string option)" by simp_all
  from conjunct1 [OF server_guarded [OF h], rule_format, OF r this(2,1)] show ?thesis using h by (intro exI conjI) simp_all
qed

lemma ex_validator: "run_dir_validator ex_tools ''test'' (join_path (scratch_path ex_repo ''land'') ''content'')
    [(''sub-s1'', DirN [(''change-0'', DirN ex_note)])] = Inr True"
proof -
  have "\<not> sublist ''{}'' ''test''" by code_simp
  then show ?thesis by (simp add: run_dir_validator_def ex_tools_def scratch_path_def path_join_def join_path_def ex_repo_def)
qed

lemma ex_land_pushed:
  "\<exists>m st'. land_pushed ex_tools ex_repo ''q'' sub1 [(''c1'', ex_tip)] = Some (Inr m, st') \<and> length (ops (oplog st')) = 3"
proof -
  let ?refs = "[(''c1'', ex_tip)]" and ?gates = "\<lparr>carried_values = 0, validated = Some True\<rparr>"
  obtain g where g: "graph_of_tips ?refs new_graph [] = Some (g, [ex_old_id])" by (simp add: ex_tip_id)
  have "superseded_by new_graph = []" "distinct (map fst ?refs)" by (simp_all add: new_graph_def)
  from graph_of_tips_known [OF g this] have known: "\<forall>c\<in>set (sub_changes sub1). change_of g c \<noteq> None" by (simp add: ex_sub1)
  have base: "materialize_queue_base ex_tools ex_objs reg ?refs q into None = Some (Inr [])" for reg q into
    by (simp add: materialize_queue_base_def)
  note observe = ex_observe [of "queue_reg ex_repo" ?refs "''q''" "scratch_path ex_repo ''land''" ex_queue, OF base]
  have trunk: "materialize_trunk ex_tools ex_objs reg (ref_table ex_log [''c1'' \<mapsto> ex_tip]) (queue_name ex_queue) into = Some (Inr [])"
    for reg into using base by (simp add: ex_log materialize_trunk_def ex_queue reconciled_ref_def)
  obtain fs where rec: "reconcile_core ex_tools ex_objs (queue_reg ex_repo) ex_log ex_queue [sub1] (scratch_path ex_repo ''reconcile'') =
      Some (Inr \<lparr>rtip = ex_old_id, rfiles = 1, rcarried = 0, rconflicted = []\<rparr>, fs)"
    using ex_reconcile [OF ex_log(2) _ ex_log(5) trunk ex_sub1(2)] by (auto simp: ex_log)
  have "gates_pass ex_queue 0 (Some True)" "length (ops ex_log) + length (sub_changes sub1) < 2 ^ 64"
    by (simp_all add: gates_pass_def ex_log(3) ex_sub1)
  then obtain r g1 log1 where l: "land_submission_in_queue sub1 ex_queue ?gates g ex_log = Some (Inr r, g1, log1)"
    "log_built log1" "length (ops log1) = 2"
    using land_in_queue_ok [of ex_queue sub1 ?gates ex_log g, OF _ _ ex_log(1) known _ ex_log(2)] by (auto simp: ex_sub1 ex_log(3))
  have "length (ops log1) + 1 < 2 ^ 64" using l(3) by simp
  from set_ref_effect [OF l(2) this, of "reconciled_ref ''q''" "Some (id_to_string ex_old_id)" None]
  obtain log' where w: "write_reconciled_head log1 ''q'' ex_old_id = Some log'" "length (ops log') = 3"
    using l(3) by (auto simp: write_reconciled_head_def append_op_def append_at_def)
  have same: "ex_repo\<lparr>oplog := ex_log\<rparr> = ex_repo" by (simp add: ex_repo_def)
  have "record_tips [''c1'' \<mapsto> ex_tip] ?refs ex_log = Some ex_log" by simp
  then show ?thesis
    using observe ex_validator rec l(1) w g
    by (simp add: land_pushed_def ex_request(1) ex_sub1(3) ex_objs_repo(1,2) ex_log(2,4) same land_recorded_def ex_queue ex_sub1(1)
        Let_def save_submission_def del: record_tips.simps graph_of_tips.simps)
qed

lemma push_gated_witness:
  "\<exists>m st' (rec :: reconciliation). land_pushed ex_tools ex_repo ''q'' sub1 [(''c1'', ex_tip)] = Some (Inr m, st') \<and> rcarried rec = 0 \<and>
     content_gated ex_tools ex_objs ex_queue [(''s1'', [ex_old_id])] (scratch_path ex_repo ''land'') \<and>
     refs_now (oplog st') = Some ((landed_refs ''q'' {''c1''} [''c1'' \<mapsto> ex_tip] ([''c1'' \<mapsto> ex_tip] ++ [''c1'' \<mapsto> ex_tip]))
       (''reconciled/q'' \<mapsto> id_to_string (rtip rec)))"
proof -
  obtain m st' where l: "land_pushed ex_tools ex_repo ''q'' sub1 [(''c1'', ex_tip)] = Some (Inr m, st')"
    "length (ops (oplog st')) < 2 ^ 64" using ex_land_pushed by auto
  have "distinct (map fst [(''c1'', ex_tip)])" "log_built (oplog ex_repo)" by (simp_all add: ex_objs_repo ex_log)
  from push_gated [OF l(1) this l(2)] obtain policy refs and rec :: reconciliation where p: "resolve_queue (queue_reg ex_repo) ''q'' = Inr policy"
    "refs_now (oplog ex_repo) = Some refs"
    "content_gated ex_tools (objs ex_repo) policy [(sub_id sub1,
        List.map_filter (\<lambda>(c, t). case id_from_str t of Some (Inr i) \<Rightarrow> Some i | _ \<Rightarrow> None) [(''c1'', ex_tip)])]
      (scratch_path ex_repo ''land'')"
    "rcarried rec = 0 \<or> allow_carried policy"
    "refs_now (oplog st') = Some ((landed_refs (queue_name policy) (set (sub_changes sub1)) (map_of [(''c1'', ex_tip)])
      (refs ++ map_of [(''c1'', ex_tip)])) (reconciled_ref (queue_name policy) \<mapsto> id_to_string (rtip rec)))"
    by (elim exE conjE) (rule that)
  have "policy = ex_queue" "refs = [''c1'' \<mapsto> ex_tip]" using p(1,2) unfolding ex_request(1) ex_objs_repo(2) ex_log(2) by simp_all
  then show ?thesis using l(1) p(3-5)
    by (intro exI [of _ m] exI [of _ st'] exI [of _ rec])
      (simp add: ex_queue ex_sub1 reconciled_ref_def ex_objs_repo map_filter_simps ex_tip_id)
qed

end
