(* ===== verification/Commands.thy ===== *)
theory Commands
  imports Landing Kernel Autorebase
begin

text \<open>
  The commands of \<open>omoplata-cli/src/main.rs\<close> that do more than call one operation: the merge of a
  file through driver, kernel and validator, the commands on documents, and those on workspaces,
  submissions and the log. A command answers what it prints on its standard output and its exit
  code, or an error; the notes on the standard error are left out. The files it is given are their
  contents.
\<close>

section \<open>Commands on documents\<close>

record cli_output =
  stdout :: string
  exit_code :: nat

definition read_doc :: "string \<Rightarrow> string option \<Rightarrow> cli_error + string" where
  "read_doc path content =
     (case content of
        None \<Rightarrow> Inl (Bail (''reading '' @ path))
      | Some bytes \<Rightarrow> if utf8_valid bytes then Inr bytes else Inl (Bail (''reading '' @ path)))"

text \<open>The hunks of a diff, with the first line on either side.\<close>

definition hunk_text :: "nat \<Rightarrow> hunk \<Rightarrow> string" where
  "hunk_text new_line h =
     ''@@ -'' @ show_nat (base_start h + 1) @ '','' @ show_nat (length (hremove h)) @ '' +'' @ show_nat new_line @ '','' @
     show_nat (length (hinsert h)) @ '' @@'' @ [newline] @
     concat (map (\<lambda>l. CHR ''-'' # l @ [newline]) (hremove h)) @ concat (map (\<lambda>l. CHR ''+'' # l @ [newline]) (hinsert h))"

fun diff_text :: "hunk list \<Rightarrow> nat \<Rightarrow> nat \<Rightarrow> string" where
  "diff_text [] base_line new_line = []"
| "diff_text (h # hs) base_line new_line =
     (let new_line = new_line + (base_start h + 1 - base_line) in
      hunk_text new_line h @
      diff_text hs (base_start h + 1 + length (hremove h)) (new_line + length (hinsert h)))"

definition cmd_diff :: "string \<Rightarrow> string \<Rightarrow> string" where
  "cmd_diff base target = diff_text (hunks (diff (from_str base) (from_str target))) 1 1"

definition cmd_merge :: "string \<Rightarrow> string \<Rightarrow> string \<Rightarrow> cli_output" where
  "cmd_merge base left right =
     (let m = merge3 (from_str base) (from_str left) (from_str right) in
      \<lparr>stdout = doc_to_string (merged m), exit_code = if is_clean m then 0 else 1\<rparr>)"

definition cmd_admit :: "string \<Rightarrow> string \<Rightarrow> string \<Rightarrow> cli_output" where
  "cmd_admit base left right =
     (case admit (from_str base) (from_str left) (from_str right) of
        Merged d w \<Rightarrow> \<lparr>stdout = doc_to_string d, exit_code = 0\<rparr>
      | Conflicted cs \<Rightarrow>
          \<lparr>stdout = doc_to_string (merged (merge3 (from_str base) (from_str left) (from_str right))), exit_code = 1\<rparr>)"

definition cmd_rebase :: "string \<Rightarrow> string \<Rightarrow> string \<Rightarrow> cli_output" where
  "cmd_rebase base mine onto =
     (let r = rebase (from_str base) (from_str mine) (from_str onto) in
      \<lparr>stdout = doc_to_string (result r), exit_code = if rclean r then 0 else 1\<rparr>)"

section \<open>The merge of a file\<close>

definition render_semantic_conflict :: "conflict \<Rightarrow> string" where
  "render_semantic_conflict c =
     join_with newline ([''<<<<<<< left''] @ cleft c @ [''||||||| base''] @ cbase c @ [''=======''] @ cright c @
       [''>>>>>>> right'']) @ [newline]"

text \<open>The validator is given the text in a temporary file of a path; \<open>sh\<close> is the shell.\<close>

definition run_validator ::
  "(string \<Rightarrow> string \<Rightarrow> cli_error + bool) \<Rightarrow> string \<Rightarrow> string \<Rightarrow> string \<Rightarrow> cli_error + bool" where
  "run_validator sh file_path cmd txt =
     sh (if sublist ''{}'' cmd then replace_placeholder file_path cmd
          else cmd @ '' '' @ [CHR 0x27] @ file_path @ [CHR 0x27]) txt"

definition gate_merge ::
  "(string \<Rightarrow> string \<Rightarrow> cli_error + bool) \<Rightarrow> string \<Rightarrow> string \<Rightarrow> string \<Rightarrow> string \<Rightarrow> string \<Rightarrow> string option \<Rightarrow> cli_error + cli_output" where
  "gate_merge sh file_path base left right txt validator =
     (let b = from_str base; l = from_str left; r = from_str right; adm = certify b l r (from_str txt) in
      case adm of
        Conflicted _ \<Rightarrow> Inr \<lparr>stdout = txt, exit_code = 1\<rparr>
      | Merged _ _ \<Rightarrow>
        (case validator of
           None \<Rightarrow> Inr \<lparr>stdout = txt, exit_code = 0\<rparr>
         | Some cmd \<Rightarrow>
             and_then (run_validator sh file_path cmd txt) (\<lambda>passed.
               Inr (case dynamic_validate b l r adm passed (''validator `'' @ cmd @ ''` exited non-zero'') of
                   Accepted d \<Rightarrow> \<lparr>stdout = doc_to_string d, exit_code = 0\<rparr>
                 | Demoted c _ \<Rightarrow> \<lparr>stdout = render_semantic_conflict c, exit_code = 1\<rparr>))))"

definition merge_file ::
  "tools \<Rightarrow> (string \<Rightarrow> string \<Rightarrow> cli_error + bool) \<Rightarrow> string \<Rightarrow> string \<Rightarrow> string \<Rightarrow> string \<Rightarrow> string \<Rightarrow> string option \<Rightarrow>
   cli_output fallible" where
  "merge_file env sh file_path path base left right validator =
     and_try (merge_with env path \<lparr>base_text = base, left_text = left, right_text = right, merge_path = path\<rparr>) (\<lambda>out.
       Some (if \<not> is_mergeable out then Inr \<lparr>stdout = out_merged out, exit_code = 1\<rparr>
         else if carried out \<noteq> [] then Inr \<lparr>stdout = out_merged out, exit_code = 2\<rparr>
         else gate_merge sh file_path base left right (out_merged out) validator))"

definition cmd_merge_file ::
  "tools \<Rightarrow> (string \<Rightarrow> string \<Rightarrow> cli_error + bool) \<Rightarrow> string \<Rightarrow> string \<times> string option \<Rightarrow> string \<times> string option \<Rightarrow>
   string \<times> string option \<Rightarrow> string option \<Rightarrow> cli_output fallible" where
  "cmd_merge_file env sh file_path base left right validator =
     (case and_then (read_doc (fst base) (snd base)) (\<lambda>b. and_then (read_doc (fst left) (snd left)) (\<lambda>l.
             and_then (read_doc (fst right) (snd right)) (\<lambda>r. Inr (b, l, r)))) of
        Inl e \<Rightarrow> Some (Inl e)
      | Inr (b, l, r) \<Rightarrow> merge_file env sh file_path (fst base) b l r validator)"

section \<open>Workspaces\<close>

text \<open>\<open>inside\<close> tells whether the current directory lies in a working directory.\<close>

definition resolve_workspace :: "(string \<Rightarrow> bool) \<Rightarrow> workspace_registry \<Rightarrow> string option \<Rightarrow> cli_error + workspace" where
  "resolve_workspace inside reg name =
     (case name of
        Some n \<Rightarrow> ok_or (Bail (''no workspace named '' @ n @ '' (see `omo workspace list`)'')) (get_workspace reg n)
      | None \<Rightarrow>
        (case workspaces reg of
           [] \<Rightarrow> Inl (Bail ''no workspaces registered; run `omo workspace add <name> <path>`'')
         | [ws] \<Rightarrow> Inr ws
         | many \<Rightarrow> ok_or (Bail ''multiple workspaces registered; pass --workspace <name> to choose one'')
             (find (\<lambda>ws. inside (working_dir ws)) many)))"

definition change_id_of_ref :: "string \<Rightarrow> change_id" where
  "change_id_of_ref refname =
     (let rest = (if prefix ''remotes/'' refname
                  then (case split_once CHR ''/'' (drop 8 refname) of Some (_, r) \<Rightarrow> r | None \<Rightarrow> drop 8 refname)
                  else refname)
      in if prefix ''public/'' rest then drop 7 rest else rest)"

fun first_ref :: "refs \<Rightarrow> string list \<Rightarrow> (change_id \<times> commit_id) option" where
  "first_ref refs [] = None"
| "first_ref refs (cand # cands) =
     (case refs cand of Some t \<Rightarrow> Some (change_id_of_ref cand, t) | None \<Rightarrow> first_ref refs cands)"

definition resolve_switch_target :: "refs \<Rightarrow> workspace_registry \<Rightarrow> string \<Rightarrow> (change_id \<times> commit_id) option" where
  "resolve_switch_target refs reg target =
     (case refs target of
        Some t \<Rightarrow> Some (change_id_of_ref target, t)
      | None \<Rightarrow>
        (case Option.bind (get_workspace reg target) (\<lambda>ws. map_option (Pair (ws_change ws)) (refs (ws_change ws))) of
           Some found \<Rightarrow> Some found
         | None \<Rightarrow>
           (case refs (''ws/'' @ target) of
              Some t \<Rightarrow> Some (''ws/'' @ target, t)
            | None \<Rightarrow>
              (case refs (queue_ref ''trunk'' target) of
                 Some t \<Rightarrow> Some (target, t)
               | None \<Rightarrow>
                 (case split_once CHR ''/'' target of
                    None \<Rightarrow> None
                  | Some (remote, rest) \<Rightarrow>
                      first_ref refs [''remotes/'' @ remote @ ''/public/'' @ rest, ''remotes/'' @ remote @ ''/public/ws/'' @ rest,
                        ''remotes/'' @ remote @ ''/'' @ rest])))))"

definition switch_to ::
  "tools \<Rightarrow> repo_state \<Rightarrow> workspace \<Rightarrow> change_id \<Rightarrow> object_id \<Rightarrow> ((cli_error + unit) \<times> repo_state) option" where
  "switch_to env st ws c i =
     map_option (\<lambda>(r, d).
         let st1 = st\<lparr>working := (working st)(working_dir ws := d)\<rparr> in
         (case r of
            Inl e \<Rightarrow> (Inl (WorkErr e), st1)
          | Inr _ \<Rightarrow>
            (case set_change (workspace_reg st) (ws_name ws) c of
               Inl e \<Rightarrow> (Inl (WorkErr e), st1)
             | Inr reg \<Rightarrow> (Inr (), st1\<lparr>workspace_reg := reg\<rparr>))))
       (materialize (sha256 env) (objs st) i (working_dir ws) (working st (working_dir ws)))"

definition cmd_switch ::
  "tools \<Rightarrow> (string \<Rightarrow> bool) \<Rightarrow> repo_state \<Rightarrow> string \<Rightarrow> string option \<Rightarrow> bool \<Rightarrow> ((cli_error + unit) \<times> repo_state) option" where
  "cmd_switch env inside st target name force =
     (case resolve_workspace inside (workspace_reg st) name of
        Inl e \<Rightarrow> Some (Inl e, st)
      | Inr ws \<Rightarrow>
          Option.bind (refs_now (oplog st)) (\<lambda>refs.
            case resolve_switch_target refs (workspace_reg st) target of
              None \<Rightarrow> Some (Inl (Bail (''cannot switch to '' @ target @ '': no matching workspace, change, or landed ref'')), st)
            | Some (c, t) \<Rightarrow>
              (case is_dirty (sha256 env) (working_dir ws) (working st (working_dir ws)) (refs (ws_change ws)) (objs st) of
                 (Inl e, fs) \<Rightarrow> Some (Inl (WorkErr e), st\<lparr>objs := fs\<rparr>)
               | (Inr (dirty, _), fs) \<Rightarrow>
                   if dirty \<and> \<not> force
                   then Some (Inl (Bail (''workspace '' @ ws_name ws @ '' has uncommitted edits'')), st\<lparr>objs := fs\<rparr>)
                   else (case id_from_str t of
                       None \<Rightarrow> None
                     | Some (Inl _) \<Rightarrow>
                         Some (Inl (Bail (''target '' @ c @ '' tip '' @ t @ '' is not a valid object id'')), st\<lparr>objs := fs\<rparr>)
                     | Some (Inr i) \<Rightarrow> switch_to env (st\<lparr>objs := fs\<rparr>) ws c i))))"

section \<open>Stacks, submissions and the log\<close>

text \<open>\<open>absorb\<close> and \<open>reorder\<close> record the working copy and then work on a stack of their own.\<close>

definition snapshot_first ::
  "tools \<Rightarrow> (string \<Rightarrow> bool) \<Rightarrow> repo_state \<Rightarrow> string option \<Rightarrow> ((cli_error + workspace) \<times> repo_state) option" where
  "snapshot_first env inside st name =
     (case resolve_workspace inside (workspace_reg st) name of
        Inl e \<Rightarrow> Some (Inl e, st)
      | Inr ws \<Rightarrow>
          map_option (\<lambda>(r, fs, log).
              (case r of
                 Inl e \<Rightarrow> (Inl (WorkErr e), st\<lparr>objs := fs\<rparr>)
               | Inr _ \<Rightarrow> (Inr ws, st\<lparr>objs := fs, oplog := log\<rparr>)))
            (auto_snapshot (sha256 env) ws (working st (working_dir ws)) (objs st) (oplog st)))"

definition cmd_absorb ::
  "tools \<Rightarrow> (string \<Rightarrow> bool) \<Rightarrow> repo_state \<Rightarrow> change_id list \<Rightarrow> string option \<Rightarrow> ((cli_error + nat \<times> change_id list) \<times> repo_state) option" where
  "cmd_absorb env inside st targets name =
     map_option (\<lambda>(r, st').
         (and_then r (\<lambda>ws.
            let s = foldl push (new_stack (ws_name ws @ ''-stack'') [ws_change ws]) targets in
            and_then (work_err (absorb s targets)) (\<lambda>n. Inr (n, stack_changes s))), st'))
       (snapshot_first env inside st name)"

definition cmd_reorder ::
  "tools \<Rightarrow> (string \<Rightarrow> bool) \<Rightarrow> repo_state \<Rightarrow> nat \<Rightarrow> string option \<Rightarrow> ((cli_error + change_id list) \<times> repo_state) option" where
  "cmd_reorder env inside st index name =
     map_option (\<lambda>(r, st').
         (and_then r (\<lambda>ws.
            let s = new_stack (ws_name ws @ ''-stack'') [ws_change ws];
                s = (if length (stack_changes s) \<le> 1 then push s ''c2'' else s) in
            and_then (work_err (reorder s index)) (\<lambda>s'. Inr (stack_changes s'))), st'))
       (snapshot_first env inside st name)"

definition cmd_submit ::
  "tools \<Rightarrow> repo_state \<Rightarrow> submission_id \<Rightarrow> string \<Rightarrow> change_id list \<Rightarrow> string option \<Rightarrow> bool \<Rightarrow> repo_state option" where
  "cmd_submit env st i t cs author_name pending =
     map_option (\<lambda>st1.
         let s = new_submission i t cs (case author_name of Some a \<Rightarrow> a | None \<Rightarrow> ''agent'') in
         save_submission (if pending then s else approve s ''auto-reviewer'') st1)
       (auto_snapshot_changes env cs st)"

definition cmd_approve :: "repo_state \<Rightarrow> submission_id \<Rightarrow> string option \<Rightarrow> cli_error + repo_state" where
  "cmd_approve st i by_name =
     and_then (load_submission st i) (\<lambda>s.
       Inr (save_submission (approve s (case by_name of Some r \<Rightarrow> r | None \<Rightarrow> ''reviewer'')) st))"

definition empty_mark :: string where
  "empty_mark = [CHR 0xE2, CHR 0x88, CHR 0x85]"

definition opt_text :: "commit_id option \<Rightarrow> string" where
  "opt_text c = (case c of Some t \<Rightarrow> t | None \<Rightarrow> empty_mark)"

definition op_summary :: "op_kind \<Rightarrow> string" where
  "op_summary k =
     (case k of
        SetRef name old new \<Rightarrow> ''set-ref '' @ name @ '' '' @ opt_text old @ '' -> '' @ opt_text new
      | SetPhaseOp c from to \<Rightarrow>
          (let show_phase = (\<lambda>p. case p of Draft \<Rightarrow> ''Draft'' | Public \<Rightarrow> ''Public'') in
           ''set-phase '' @ c @ '' '' @ show_phase from @ '' -> '' @ show_phase to)
      | Rebase c old new onto n \<Rightarrow>
          ''rebase '' @ c @ '' '' @ old @ '' -> '' @ new @ '' onto '' @ onto @ '' ('' @
          (if n = 0 then ''clean'' else show_nat n @ '' conflict(s)'') @ '')''
      | Commit ws c t q m \<Rightarrow>
          ''commit ['' @ ws @ ''] '' @ c @ '' '' @ opt_text q @ '' -> '' @ t @
          (case m of None \<Rightarrow> [] | Some msg \<Rightarrow> '' '' @ [CHR 0x22] @ msg @ [CHR 0x22])
      | Switch ws c from to \<Rightarrow> ''switch ['' @ ws @ ''] '' @ c @ '' '' @ opt_text from @ '' -> '' @ to
      | Undo target \<Rightarrow> ''undo #'' @ show_nat target)"

text \<open>The refs that an undo changes, those of the state before it and then the created ones.\<close>

definition ref_changes :: "ref_table \<Rightarrow> ref_table \<Rightarrow> (string \<times> string option \<times> string option) list" where
  "ref_changes before after =
     List.map_filter (\<lambda>(name, old). case map_of after name of
         None \<Rightarrow> Some (name, Some old, None)
       | Some new \<Rightarrow> if new \<noteq> old then Some (name, Some old, Some new) else None) before @
     List.map_filter (\<lambda>(name, new). if map_of before name = None then Some (name, None, Some new) else None) after"

definition ref_change_text :: "string \<times> string option \<times> string option \<Rightarrow> string" where
  "ref_change_text c =
     (case c of (name, old, new) \<Rightarrow>
        ''  ref '' @ name @ '': '' @ (case old of Some t \<Rightarrow> t | None \<Rightarrow> ''(created)'') @ '' -> '' @
        (case new of Some t \<Rightarrow> t | None \<Rightarrow> ''(deleted)''))"

definition cmd_op_undo :: "op_log \<Rightarrow> ((cli_error + string list) \<times> op_log) option" where
  "cmd_op_undo log =
     Option.bind (refs_now log) (\<lambda>before.
     Option.bind (undo log) (\<lambda>r.
       case r of
         Inl e \<Rightarrow> Some (Inl (WorkErr e), log)
       | Inr log' \<Rightarrow>
         (case kind (last (ops log')) of
            Undo target \<Rightarrow>
              map_option (\<lambda>after.
                  (Inr ((''#'' @ show_nat (seq (last (ops log'))) @ '' undo of #'' @ show_nat target @ '': '' @
                      (case nth_opt (ops log') target of Some op \<Rightarrow> op_summary (kind op) | None \<Rightarrow> ''#'' @ show_nat target)) #
                    map ref_change_text (ref_changes (ref_table log before) (ref_table log' after))), log'))
                (refs_now log')
          | _ \<Rightarrow> Some (Inl (Bail ''internal error: undo did not append an Undo''), log'))))"

section \<open>The replay of a file\<close>

definition read_blob_text :: "tools \<Rightarrow> object_files \<Rightarrow> commit_id \<Rightarrow> string fallible" where
  "read_blob_text env fs commit =
     (case id_from_str commit of
        None \<Rightarrow> None
      | Some (Inl _) \<Rightarrow> Some (Inl (Bail (''malformed commit id '' @ commit)))
      | Some (Inr i) \<Rightarrow>
          map_option (\<lambda>r. case r of
              Inl e \<Rightarrow> Inl (StoreErr e)
            | Inr (BlobObj bytes) \<Rightarrow> if utf8_valid bytes then Inr bytes else Inl (Bail ''rebased content is not UTF-8'')
            | Inr (TreeObj _) \<Rightarrow> Inl (Bail (''expected a blob for '' @ commit)))
            (read_object (sha256 env) fs i))"

definition store_file_blob :: "tools \<Rightarrow> object_files \<Rightarrow> string \<Rightarrow> commit_id \<times> object_files" where
  "store_file_blob env fs bytes = (case write_blob (sha256 env) fs bytes of (i, fs') \<Rightarrow> (id_to_string i, fs'))"

definition cmd_autorebase ::
  "tools \<Rightarrow> repo_state \<Rightarrow> string \<Rightarrow> string \<Rightarrow> string \<Rightarrow> string option \<Rightarrow> ((cli_error + cli_output) \<times> repo_state) option" where
  "cmd_autorebase env st base mine onto change =
     (let (b, fs1) = store_file_blob env (objs st) base;
          (m, fs2) = store_file_blob env fs1 mine;
          (t, fs3) = store_file_blob env fs2 onto;
          c = (case change of Some x \<Rightarrow> x | None \<Rightarrow> ''change'') in
      Option.bind (refs_now (oplog st)) (\<lambda>refs.
      Option.bind (if refs c = None then set_ref (oplog st) c (Some m) None else Some (oplog st)) (\<lambda>log.
        case auto_rebase (sha256 env) (with_log fs3 log) c b m t of
          None \<Rightarrow> None
        | Some (Inl e, en) \<Rightarrow> Some (Inl (WorkErr e), st\<lparr>objs := eng_files en\<rparr>)
        | Some (Inr outcome, en) \<Rightarrow>
            map_option (\<lambda>r. (and_then r (\<lambda>txt. Inr \<lparr>stdout = txt, exit_code = if Autorebase.clean outcome then 0 else 1\<rparr>),
                st\<lparr>objs := eng_files en, oplog := eng_log en\<rparr>))
              (read_blob_text env (eng_files en) (new_tip outcome)))))"

section \<open>Lemmas\<close>

lemma certify_Merged:
  "certify b l r d = Merged m w \<longleftrightarrow> admit b l r = Merged m w \<and> m = d"
  by (auto simp: certify_def split: admission.splits)

text \<open>The gate lets a text through exactly when the kernel derives it and the validator passes.\<close>

lemma gate_merge_exit:
  assumes "gate_merge sh file_path base left right txt validator = Inr out"
  shows "exit_code out = 0 \<longleftrightarrow>
      (\<exists>w. admit (from_str base) (from_str left) (from_str right) = Merged (from_str txt) w) \<and>
      (\<forall>cmd. validator = Some cmd \<longrightarrow> run_validator sh file_path cmd txt = Inr True)"
    (is "_ \<longleftrightarrow> ?derived \<and> ?valid")
    and "exit_code out = 0 \<longrightarrow> stdout out = txt" and "exit_code out \<le> 1"
proof -
  let ?adm = "certify (from_str base) (from_str left) (from_str right) (from_str txt)"
  have derived: "?derived \<longleftrightarrow> (\<exists>m w. ?adm = Merged m w)" using certify_Merged by metis
  have "(exit_code out = 0 \<longleftrightarrow> ?derived \<and> ?valid) \<and> (exit_code out = 0 \<longrightarrow> stdout out = txt) \<and> exit_code out \<le> 1"
  proof (cases ?adm)
    case (Conflicted cs)
    then have "out = \<lparr>stdout = txt, exit_code = 1\<rparr>" using assms by (simp add: gate_merge_def)
    moreover have "\<not> ?derived" unfolding derived Conflicted by simp
    ultimately show ?thesis by simp
  next
    case (Merged m w)
    then have d: ?derived using derived by blast
    have m: "m = from_str txt" using Merged certify_Merged by blast
    show ?thesis
    proof (cases validator)
      case None
      then have "out = \<lparr>stdout = txt, exit_code = 0\<rparr>" using assms by (simp add: gate_merge_def Merged)
      then show ?thesis using d None by simp
    next
      case (Some cmd)
      then obtain passed where p: "run_validator sh file_path cmd txt = Inr passed"
        using assms by (cases "run_validator sh file_path cmd txt") (simp_all add: gate_merge_def Merged)
      have "out = \<lparr>stdout = txt, exit_code = 0\<rparr>" if passed
        using assms that by (simp add: gate_merge_def Merged Some p dynamic_validate_def m)
      moreover have "\<exists>c. out = \<lparr>stdout = render_semantic_conflict c, exit_code = 1\<rparr>" if "\<not> passed"
        using assms that by (auto simp: gate_merge_def Merged Some p dynamic_validate_def)
      ultimately show ?thesis using d p Some by (cases passed) auto
    qed
  qed
  then show "exit_code out = 0 \<longleftrightarrow> ?derived \<and> ?valid" "exit_code out = 0 \<longrightarrow> stdout out = txt" "exit_code out \<le> 1" by blast+
qed

lemma admit_both_orders:
  assumes "admit b l r = Merged d w"
  obtains p q where "commute (diff b l) (diff b r) = Independent p q" "apply_patch q l = Inr d" "apply_patch p r = Inr d"
  using assms [unfolded admit_Merged_iff] by (auto simp: combine_def apply_diff)

text \<open>C11: The merge of a file succeeds exactly when the driver found no conflict, the trusted kernel
  derives the proposed text itself and the validator, when there is one, accepts it; what is printed
  then is what both application orders of the two diffs give. Exit code 2 is a merge without new
  conflicts that carries old ones.\<close>
theorem merge_file_gated:
  assumes "merge_file env sh file_path path base left right validator = Some (Inr out)"
  shows "\<exists>dr. merge_with env path \<lparr>base_text = base, left_text = left, right_text = right, merge_path = path\<rparr> = Some (Inr dr) \<and>
    (exit_code out = 0 \<longleftrightarrow> output_clean dr \<and>
       (\<exists>w. admit (from_str base) (from_str left) (from_str right) = Merged (from_str (out_merged dr)) w) \<and>
       (\<forall>cmd. validator = Some cmd \<longrightarrow> run_validator sh file_path cmd (out_merged dr) = Inr True)) \<and>
    (exit_code out = 0 \<longrightarrow> stdout out = out_merged dr \<and>
       (\<exists>p q. commute (diff (from_str base) (from_str left)) (diff (from_str base) (from_str right)) = Independent p q \<and>
          apply_patch q (from_str left) = Inr (from_str (stdout out)) \<and>
          apply_patch p (from_str right) = Inr (from_str (stdout out)))) \<and>
    (exit_code out = 2 \<longleftrightarrow> is_mergeable dr \<and> carried dr \<noteq> [])"
proof -
  obtain dr where dr: "merge_with env path \<lparr>base_text = base, left_text = left, right_text = right, merge_path = path\<rparr> = Some (Inr dr)"
    "(if \<not> is_mergeable dr then Inr \<lparr>stdout = out_merged dr, exit_code = 1\<rparr>
      else if carried dr \<noteq> [] then Inr \<lparr>stdout = out_merged dr, exit_code = 2\<rparr>
      else gate_merge sh file_path base left right (out_merged dr) validator) = Inr out"
    using assms by (auto simp: merge_file_def and_try_ok)
  show ?thesis
  proof (cases "is_mergeable dr \<and> carried dr = []")
    case True
    then have g: "gate_merge sh file_path base left right (out_merged dr) validator = Inr out" using dr(2) by simp
    have "output_clean dr" using True by (simp add: output_clean_def is_mergeable_def)
    moreover have "\<exists>p q. commute (diff (from_str base) (from_str left)) (diff (from_str base) (from_str right)) = Independent p q \<and>
        apply_patch q (from_str left) = Inr (from_str (stdout out)) \<and>
        apply_patch p (from_str right) = Inr (from_str (stdout out))" if "exit_code out = 0"
      using gate_merge_exit(1,2) [OF g] that admit_both_orders by metis
    ultimately show ?thesis
      using gate_merge_exit [OF g] dr(1) True by (intro exI [of _ dr]) auto
  next
    case False
    then have "out = \<lparr>stdout = out_merged dr, exit_code = if is_mergeable dr then 2 else 1\<rparr>" using dr(2) by (auto split: if_splits)
    then show ?thesis using dr(1) False by (intro exI [of _ dr]) (auto simp: output_clean_def is_mergeable_def)
  qed
qed

section \<open>Switching\<close>

lemma switch_to_ok:
  assumes "switch_to env st ws c i = Some (Inr (), st')"
  obtains d reg where "materialize (sha256 env) (objs st) i (working_dir ws) (working st (working_dir ws)) = Some (Inr (), d)"
    "set_change (workspace_reg st) (ws_name ws) c = Inr reg"
    "st' = st\<lparr>working := (working st)(working_dir ws := d), workspace_reg := reg\<rparr>"
proof -
  let ?m = "materialize (sha256 env) (objs st) i (working_dir ws) (working st (working_dir ws))"
  obtain r d where m: "?m = Some (r, d)" using assms by (auto simp: switch_to_def)
  then have r: "r = Inr ()" using assms by (cases r) (simp_all add: switch_to_def)
  then obtain reg where "set_change (workspace_reg st) (ws_name ws) c = Inr reg"
    using assms m by (cases "set_change (workspace_reg st) (ws_name ws) c") (simp_all add: switch_to_def)
  with m r show thesis using assms that by (simp add: switch_to_def)
qed

lemma cmd_switch_ok:
  assumes "cmd_switch env inside st target name force = Some (Inr (), st')"
  obtains ws refs c t i dirty j fs where "resolve_workspace inside (workspace_reg st) name = Inr ws" "refs_now (oplog st) = Some refs"
    "resolve_switch_target refs (workspace_reg st) target = Some (c, t)"
    "is_dirty (sha256 env) (working_dir ws) (working st (working_dir ws)) (refs (ws_change ws)) (objs st) = (Inr (dirty, j), fs)"
    "dirty \<longrightarrow> force" "id_from_str t = Some (Inr i)" "switch_to env (st\<lparr>objs := fs\<rparr>) ws c i = Some (Inr (), st')"
proof -
  obtain ws where a: "resolve_workspace inside (workspace_reg st) name = Inr ws"
    using assms by (cases "resolve_workspace inside (workspace_reg st) name") (auto simp: cmd_switch_def)
  obtain refs where b: "refs_now (oplog st) = Some refs" using assms a by (auto simp: cmd_switch_def Option.bind_eq_Some_conv)
  note step = assms [unfolded cmd_switch_def a sum.case b Option.bind.bind_lunit]
  obtain c t where c: "resolve_switch_target refs (workspace_reg st) target = Some (c, t)"
    using step by (cases "resolve_switch_target refs (workspace_reg st) target") auto
  let ?dirty = "is_dirty (sha256 env) (working_dir ws) (working st (working_dir ws)) (refs (ws_change ws)) (objs st)"
  obtain r fs where r: "?dirty = (r, fs)" by (cases ?dirty)
  note step = step [unfolded c option.case prod.case r]
  obtain dirty j where d: "r = Inr (dirty, j)" using step by (cases r) auto
  note step = step [unfolded d sum.case prod.case]
  have df: "dirty \<longrightarrow> force" using step by (cases "dirty \<and> \<not> force") auto
  then have "\<not> (dirty \<and> \<not> force)" by blast
  note step = step [unfolded if_not_P [OF this]]
  obtain i where i: "id_from_str t = Some (Inr i)"
  proof (cases "id_from_str t")
    case (Some x)
    then show thesis using step that by (cases x) simp_all
  qed (use step in simp)
  have "switch_to env (st\<lparr>objs := fs\<rparr>) ws c i = Some (Inr (), st')" using step unfolding i by simp
  from that [OF a b c r [unfolded d] df i this] show thesis .
qed

text \<open>What a snapshot holds of a directory, path by path: of the entries with tracked names, the files and
  the directories.\<close>

lemma map_of_tracked:
  "readable es \<Longrightarrow> \<not> skipped n \<Longrightarrow> map_of (tracked es) n =
     (case map_of es n of Some (FileN b) \<Rightarrow> Some (FileN b) | Some (DirN sub) \<Rightarrow> Some (DirN (canon sub)) | _ \<Rightarrow> None)"
proof (induction es rule: tracked.induct)
  case (2 m x es)
  have fresh: "map_of (tracked es) m = None" if "m \<notin> fst ` set es"
    using that tracked_names [of es] by (auto simp: map_of_eq_None_iff)
  have none: "map_of es m = None" if "m \<notin> fst ` set es" using that by (simp add: map_of_eq_None_iff)
  show ?case using 2 fresh none by (cases x) (auto simp: canon_def split: if_splits)
qed simp

lemma canon_entry:
  assumes "readable es" "\<not> skipped n"
  shows "map_of (canon es) n =
    (case map_of es n of Some (FileN b) \<Rightarrow> Some (FileN b) | Some (DirN sub) \<Rightarrow> Some (DirN (canon sub)) | _ \<Rightarrow> None)"
proof -
  have "distinct (map fst (tracked es))" by (rule tracked_distinct [OF assms(1)])
  then have "map_of (sort_key fst (tracked es)) = map_of (tracked es)"
    by (intro map_of_inject_set [THEN iffD2]) (simp_all add: distinct_map)
  then show ?thesis using map_of_tracked [OF assms] by (simp add: canon_def)
qed

lemma readable_sub: "readable es \<Longrightarrow> map_of es n = Some (DirN sub) \<Longrightarrow> \<not> skipped n \<Longrightarrow> readable sub"
  by (induction es rule: readable.induct) (auto split: if_splits)

lemma node_at_canon:
  "readable es \<Longrightarrow> path \<noteq> [] \<Longrightarrow> \<forall>n\<in>set path. \<not> skipped n \<Longrightarrow>
   node_at path (canon es) = Some (FileN b) \<longleftrightarrow> node_at path es = Some (FileN b)"
proof (induction path arbitrary: es)
  case (Cons n path)
  note m = canon_entry [OF Cons.prems(1), of n]
  show ?case
  proof (cases "map_of es n")
    case None
    then show ?thesis using m Cons.prems(3) by (simp add: node_at_Cons)
  next
    case (Some x)
    show ?thesis
    proof (cases x)
      case (DirN sub)
      have "readable sub" by (rule readable_sub [OF Cons.prems(1) Some [unfolded DirN]]) (use Cons.prems(3) in simp)
      then show ?thesis using m Some DirN Cons.IH [of sub] Cons.prems(3)
        by (cases "path = []") (auto simp: node_at_Cons)
    qed (use m Some Cons.prems(3) in \<open>auto simp: node_at_Cons\<close>)
  qed
qed simp

text \<open>A directory that holds exactly the tracked files of another one: those whose path has only names
  that a snapshot does not skip, with their bytes.\<close>

definition tracked_files_of :: "dir \<Rightarrow> dir \<Rightarrow> bool" where
  "tracked_files_of back es \<longleftrightarrow>
     (\<forall>path b. path \<noteq> [] \<and> (\<forall>n\<in>set path. \<not> skipped n) \<longrightarrow>
        (node_at path back = Some (FileN b) \<longleftrightarrow> node_at path es = Some (FileN b)))"

text \<open>C12: A switch that is not forced loses no tracked file. The working copy that it replaces has a
  snapshot in the store, and a checkout of it into any directory holds every regular file of that
  working copy whose path has only UTF-8 names other than those of the control directories, with its
  bytes, and no other; that snapshot is the recorded tip of the change the workspace was on, and where
  that change had no tip, the working copy had no such file. The workspace is then bound to the
  change that was asked for, its directory holds the checkout of that tip, and no ref and no other
  directory moves. Assumed: every entry can be inspected and has a name that a tree can hold, and no
  two objects of the working copy and the store have one digest.\<close>
theorem switch_keeps_tracked_files:
  assumes "cmd_switch env inside st target name False = Some (Inr (), st')"
    and "resolve_workspace inside (workspace_reg st) name = Inr ws" "refs_now (oplog st) = Some refs"
    and "readable (working st (working_dir ws))" "full_digest (sha256 env)"
    and "store_ok (sha256 env) (objs st)" "countable_objs (sha256 env) (working st (working_dir ws))"
    and "no_clash (sha256 env) (objs st) [working st (working_dir ws), []]"
  shows "\<exists>i back c t j d.
      (\<forall>into. materialize (sha256 env) (objs st') i into [] = Some (Inr (), back)) \<and>
      tracked_files_of back (working st (working_dir ws)) \<and>
      (case refs (ws_change ws) of Some old \<Rightarrow> old = id_to_string i | None \<Rightarrow> back = []) \<and>
      resolve_switch_target refs (workspace_reg st) target = Some (c, t) \<and> id_from_str t = Some (Inr j) \<and>
      materialize (sha256 env) (objs st') j (working_dir ws) (working st (working_dir ws)) = Some (Inr (), d) \<and>
      working st' = (working st)(working_dir ws := d) \<and> oplog st' = oplog st \<and>
      set_change (workspace_reg st) (ws_name ws) c = Inr (workspace_reg st')"
proof -
  let ?es = "working st (working_dir ws)" and ?sha = "sha256 env"
  let ?i = "obj_id ?sha (root_obj ?sha ?es)" and ?fs = "store_all ?sha (all_objs ?sha ?es) (objs st)"
  obtain c t i dirty j fs where s: "resolve_switch_target refs (workspace_reg st) target = Some (c, t)"
    "is_dirty ?sha (working_dir ws) ?es (refs (ws_change ws)) (objs st) = (Inr (dirty, j), fs)"
    "\<not> dirty" "id_from_str t = Some (Inr i)" "switch_to env (st\<lparr>objs := fs\<rparr>) ws c i = Some (Inr (), st')"
  proof (rule cmd_switch_ok [OF assms(1)], goal_cases)
    case (1 ws' refs' c t i dirty j fs)
    then have "ws' = ws" "refs' = refs" using assms(2,3) by simp_all
    with 1 show ?case by blast
  qed
  have snap: "snapshot ?sha p ?es (objs st) = (Inr ?i, ?fs)" for p by (rule snapshot_all_objs [OF assms(4)])
  have clash: "no_clash ?sha (objs st) [?es]"
    using assms(8) unfolding no_clash_def by (rule inj_on_subset) auto
  have stored: "\<forall>ob\<in>set (all_objs ?sha ?es). readable_obj ?sha ?fs ob"
    using snapshot_readable [OF assms(5,6,4,7) clash] snap by simp
  have empty: "root_obj ?sha [] = TreeObj new_tree" by (simp add: canon_def new_tree_def)
  have fs': "(\<forall>ob\<in>set (all_objs ?sha ?es). readable_obj ?sha fs ob) \<and>
    (case refs (ws_change ws) of Some old \<Rightarrow> old = id_to_string ?i | None \<Rightarrow> canon ?es = [])"
  proof (cases "refs (ws_change ws)")
    case (Some old)
    then have "fs = ?fs" "old = id_to_string ?i" using s(2,3) snap by (auto simp: is_dirty_def)
    then show ?thesis using stored Some by simp
  next
    case None
    let ?w = "write_object ?sha ?fs (TreeObj new_tree)"
    have w: "fs = snd ?w" "id_to_string ?i = id_to_string (obj_id ?sha (root_obj ?sha []))"
      using s(2,3) None write_object_id [of ?sha ?fs "TreeObj new_tree"] unfolding empty
      by (simp_all add: is_dirty_def snap case_prod_beta prod_eq_iff del: node_obj_dir)
    have "\<forall>ob\<in>set (all_objs ?sha ?es). readable_obj ?sha fs ob"
      using stored write_stable unfolding w(1) by blast
    moreover have "?i = obj_id ?sha (root_obj ?sha [])"
      using w(2) id_to_string_inject obj_id_ok [OF assms(5)] by blast
    then have "canon ?es = canon []"
      using root_obj_inject [OF assms(4) _ assms(8)] by simp
    ultimately show ?thesis using None by (simp add: canon_def)
  qed
  obtain d reg where w: "materialize ?sha fs i (working_dir ws) ?es = Some (Inr (), d)"
    "set_change (workspace_reg st) (ws_name ws) c = Inr reg"
    "st' = st\<lparr>objs := fs, working := (working st)(working_dir ws := d), workspace_reg := reg\<rparr>"
    using switch_to_ok [OF s(5)] by auto
  have "materialize ?sha fs ?i into [] = Some (Inr (), canon ?es)" for into
    using materialize_ok [OF assms(4), of "[]" ?sha fs into] fs' by (simp add: removable_def control_part_def)
  moreover have "tracked_files_of (canon ?es) ?es" using node_at_canon [OF assms(4)] by (simp add: tracked_files_of_def)
  ultimately show ?thesis using s(1,4) w fs'
    by (intro exI [of _ ?i] exI [of _ "canon ?es"] exI [of _ c] exI [of _ t] exI [of _ i] exI [of _ d]) simp
qed

text \<open>The stack that \<open>reorder\<close> permutes is its own and is dropped: what the command leaves is the snapshot
  it takes first, whichever index it is given.\<close>

lemma reorder_stores_nothing:
  assumes "cmd_reorder env inside st k name = Some (Inr cs, st')"
  shows "\<exists>ws. snapshot_first env inside st name = Some (Inr ws, st')"
proof -
  obtain r where r: "snapshot_first env inside st name = Some (r, st')"
    using assms by (auto simp: cmd_reorder_def)
  then show ?thesis using assms by (cases r) (auto simp: cmd_reorder_def)
qed

text \<open>A target that \<open>absorb\<close> is given is pushed to its stack before it is looked for, so every one is found.\<close>

lemma push_keeps: "set (stack_changes (foldl push s cs)) = set (stack_changes s) \<union> set cs"
  by (induction cs arbitrary: s) (auto simp: push_def)

lemma absorb_finds_all: "absorb (foldl push s targets) targets = Inr (length targets)"
  by (auto simp: absorb_def absorb_loop_eq push_keeps find_None_iff split: option.split)

text \<open>The lines of an undo are the refs it changes, with their values before and after.\<close>

lemma mem_map_filter: "x \<in> set (List.map_filter f xs) \<longleftrightarrow> (\<exists>y\<in>set xs. f y = Some x)"
  by (induction xs) (auto simp: map_filter_simps split: option.split)

lemma ref_changes_exact:
  assumes "distinct (map fst before)" "distinct (map fst after)"
  shows "(name, old, new) \<in> set (ref_changes before after) \<longleftrightarrow>
    old = map_of before name \<and> new = map_of after name \<and> old \<noteq> new"
proof -
  have b: "(n, t) \<in> set before \<longleftrightarrow> map_of before n = Some t"
    and a: "(n, t) \<in> set after \<longleftrightarrow> map_of after n = Some t" for n t using assms by simp_all
  let ?gone = "\<lambda>(n, o1). case map_of after n of None \<Rightarrow> Some (n, Some o1, None)
       | Some w \<Rightarrow> if w \<noteq> o1 then Some (n, Some o1, Some w) else None"
  let ?made = "\<lambda>(n, w). if map_of before n = None then Some (n, None :: string option, Some w) else None"
  have 1: "(\<exists>y\<in>set before. ?gone y = Some (name, old, new)) \<longleftrightarrow>
      (\<exists>t. map_of before name = Some t \<and> old = Some t \<and> new = map_of after name \<and> new \<noteq> Some t)" (is "?l1 = ?r1")
  proof
    assume ?l1
    then obtain n t where m: "(n, t) \<in> set before" "?gone (n, t) = Some (name, old, new)" by auto
    then have "n = name \<and> old = Some t \<and> new = map_of after n \<and> new \<noteq> Some t"
      by (cases "map_of after n") (auto split: if_splits)
    then show ?r1 using m(1) unfolding b by metis
  next
    assume ?r1
    then obtain t where t: "(name, t) \<in> set before" "old = Some t" "new = map_of after name" "new \<noteq> Some t" unfolding b by blast
    then have "?gone (name, t) = Some (name, old, new)" by (cases "map_of after name") auto
    then show ?l1 using t(1) by blast
  qed
  have 2: "(\<exists>y\<in>set after. ?made y = Some (name, old, new)) \<longleftrightarrow>
      (\<exists>t. map_of after name = Some t \<and> map_of before name = None \<and> old = None \<and> new = Some t)" (is "?l2 = ?r2")
  proof
    assume ?l2
    then obtain n t where m: "(n, t) \<in> set after" "?made (n, t) = Some (name, old, new)" by auto
    then have "n = name \<and> map_of before n = None \<and> old = None \<and> new = Some t" by (auto split: if_splits)
    then show ?r2 using m(1) unfolding a by metis
  next
    assume ?r2
    then obtain t where t: "(name, t) \<in> set after" "map_of before name = None" "old = None" "new = Some t" unfolding a by blast
    then have "?made (name, t) = Some (name, old, new)" by simp
    then show ?l2 using t(1) by blast
  qed
  show ?thesis
    unfolding ref_changes_def set_append Un_iff mem_map_filter 1 2
    by (cases "map_of before name"; cases "map_of after name"; cases new) auto
qed

section \<open>Examples\<close>

lemma merge_file_gated_witness:
  "\<exists>out. merge_file ex_tools (\<lambda>_ _. Inr True) ''t'' ''a.txt'' ''a'' ''a'' ''b'' (Some ''v'') = Some (Inr out) \<and>
     exit_code out = 0 \<and>
     (\<exists>p q. commute (diff (from_str ''a'') (from_str ''a'')) (diff (from_str ''a'') (from_str ''b'')) = Independent p q \<and>
        apply_patch q (from_str ''a'') = Inr (from_str (stdout out)))"
proof -
  have h: "merge_file ex_tools (\<lambda>_ _. Inr True) ''t'' ''a.txt'' ''a'' ''a'' ''b'' (Some ''v'') =
    Some (Inr \<lparr>stdout = ''b'', exit_code = 0\<rparr>)" by code_simp
  from merge_file_gated [OF h] show ?thesis unfolding h by auto
qed

definition ex_workspace :: workspace where
  "ex_workspace = \<lparr>ws_name = ''w'', working_dir = ''/w'', ws_change = ''c1''\<rparr>"

text \<open>A repository with one workspace whose directory holds \<open>es\<close>.\<close>

definition ex_switch :: "dir \<Rightarrow> repo_state" where
  "ex_switch es = ex_repo\<lparr>workspace_reg := \<lparr>workspaces = [ex_workspace]\<rparr>, working := (\<lambda>_. es)\<rparr>"

lemma ex_switch: "objs (ex_switch es) = ex_objs" "oplog (ex_switch es) = ex_log" "working (ex_switch es) p = es"
  "workspace_reg (ex_switch es) = \<lparr>workspaces = [ex_workspace]\<rparr>"
  by (simp_all add: ex_switch_def ex_repo_def)

lemma ex_switch_store: "store_ok ex_sha ex_objs" "no_clash ex_sha ex_objs [ex_note]" "no_clash ex_sha ex_objs [ex_note, []]"
proof -
  have "list_all obj_ok (all_objs ex_sha ex_note)" by (rule all_objs_ok [OF ex_sha_full ex_note_ok(1,2)])
  then show "store_ok ex_sha ex_objs" unfolding ex_objs_def by (intro store_all_ok) (simp add: store_ok_def)
  have held: "held ex_sha ex_objs \<subseteq> set (all_objs ex_sha ex_note) \<union> held ex_sha Map.empty"
    unfolding ex_objs_def by (rule held_store_all) fact
  have "no_clash ex_sha Map.empty [ex_note, []]" by (rule no_clash_list) code_simp
  then show both: "no_clash ex_sha ex_objs [ex_note, []]"
    using held unfolding no_clash_def by (auto intro: inj_on_subset)
  then show "no_clash ex_sha ex_objs [ex_note]" unfolding no_clash_def by (rule inj_on_subset) auto
qed

text \<open>Every working copy with the tracked files of the recorded tip is replaced.\<close>

lemma ex_switch_runs:
  assumes "readable es" "canon es = ex_note" "snapshot_objs ex_sha es = snapshot_objs ex_sha ex_note" "removable es"
    "control_part es = []"
  shows "\<exists>st'. cmd_switch ex_tools (\<lambda>_. True) (ex_switch es) ''c1'' None False = Some (Inr (), st') \<and> working st' ''/w'' = ex_note"
proof -
  let ?fs = "store_all ex_sha (all_objs ex_sha ex_note) ex_objs"
  have same: "all_objs ex_sha es = all_objs ex_sha ex_note" "root_obj ex_sha es = root_obj ex_sha ex_note"
    by (simp_all add: all_objs_def assms(2,3) ex_note_ok(3))
  have snap: "snapshot ex_sha p es ex_objs = (Inr ex_old_id, ?fs)" for p
    using snapshot_all_objs [OF assms(1), of ex_sha p ex_objs] unfolding same ex_old_id_def .
  have dirty: "is_dirty ex_sha ''/w'' es (Some ex_tip) ex_objs = (Inr (False, ex_tip), ?fs)"
    by (simp add: is_dirty_def snap ex_tip_def)
  have "\<forall>ob\<in>set (all_objs ex_sha ex_note). readable_obj ex_sha ?fs ob"
    using snapshot_readable [OF ex_sha_full ex_switch_store(1) ex_note_ok(1,2) ex_switch_store(2), of "''p''"]
      snapshot_all_objs [OF ex_note_ok(1)] by simp
  then have "materialize ex_sha ?fs ex_old_id ''/w'' es = Some (Inr (), ex_note)"
    using materialize_ok [OF ex_note_ok(1) assms(4), of ex_sha ?fs "''/w''"] by (simp add: ex_old_id_def ex_note_ok(3) assms(5))
  then show ?thesis
    by (simp add: cmd_switch_def resolve_workspace_def ex_switch ex_log resolve_switch_target_def ex_sha_tools ex_workspace_def dirty
        ex_tip_id switch_to_def set_change_def position_first)
qed

lemma switch_keeps_tracked_files_witness:
  "\<exists>st' i. cmd_switch ex_tools (\<lambda>_. True) (ex_switch ex_note) ''c1'' None False = Some (Inr (), st') \<and>
     (\<exists>back. materialize ex_sha (objs st') i ''x'' [] = Some (Inr (), back) \<and> tracked_files_of back ex_note) \<and>
     ex_tip = id_to_string i"
proof -
  have "snapshot_objs ex_sha ex_note = snapshot_objs ex_sha ex_note" "removable ex_note" "control_part ex_note = []" by code_simp+
  from ex_switch_runs [OF ex_note_ok(1,3) this] obtain st' where
    c: "cmd_switch ex_tools (\<lambda>_. True) (ex_switch ex_note) ''c1'' None False = Some (Inr (), st')" by blast
  have "resolve_workspace (\<lambda>_. True) (workspace_reg (ex_switch ex_note)) None = Inr ex_workspace"
    "refs_now (oplog (ex_switch ex_note)) = Some [''c1'' \<mapsto> ex_tip]"
    "readable (working (ex_switch ex_note) (working_dir ex_workspace))"
    "full_digest (sha256 ex_tools)" "store_ok (sha256 ex_tools) (objs (ex_switch ex_note))"
    "countable_objs (sha256 ex_tools) (working (ex_switch ex_note) (working_dir ex_workspace))"
    "no_clash (sha256 ex_tools) (objs (ex_switch ex_note)) [working (ex_switch ex_note) (working_dir ex_workspace), []]"
    by (simp_all add: resolve_workspace_def ex_switch ex_log ex_workspace_def ex_note_ok ex_sha_tools ex_sha_full ex_switch_store)
  from switch_keeps_tracked_files [OF c this] show ?thesis using c
    by (fastforce simp: ex_switch ex_sha_tools ex_workspace_def)
qed

text \<open>What is not tracked is deleted without a question: here a file whose name is not UTF-8 and a symbolic
  link, while the working copy counts as unchanged.\<close>

definition ex_untracked :: dir where
  "ex_untracked = ex_note @ [([CHR 0xFF], FileN ''work''), (''link'', SpecialN)]"

lemma switch_deletes_untracked:
  "\<exists>st'. cmd_switch ex_tools (\<lambda>_. True) (ex_switch ex_untracked) ''c1'' None False = Some (Inr (), st') \<and>
     node_at [[CHR 0xFF]] (working (ex_switch ex_untracked) ''/w'') = Some (FileN ''work'') \<and>
     node_at [''link''] (working (ex_switch ex_untracked) ''/w'') = Some SpecialN \<and>
     node_at [[CHR 0xFF]] (working st' ''/w'') = None \<and> node_at [''link''] (working st' ''/w'') = None"
proof -
  have "readable ex_untracked" "canon ex_untracked = ex_note" "snapshot_objs ex_sha ex_untracked = snapshot_objs ex_sha ex_note"
    "removable ex_untracked" "control_part ex_untracked = []" by code_simp+
  from ex_switch_runs [OF this] obtain st' where
    st: "cmd_switch ex_tools (\<lambda>_. True) (ex_switch ex_untracked) ''c1'' None False = Some (Inr (), st')" "working st' ''/w'' = ex_note"
    by blast
  have "node_at [[CHR 0xFF]] ex_untracked = Some (FileN ''work'')" "node_at [''link''] ex_untracked = Some SpecialN"
    "node_at [[CHR 0xFF]] ex_note = None" "node_at [''link''] ex_note = None" by code_simp+
  then show ?thesis using st by (simp add: ex_switch)
qed

end
