(* ===== verification/Spec2Isabelle.thy ===== *)
theory Spec2Isabelle
  imports Kernel Autorebase Revset Locking RustMerge GitRoundTrip GitWire Reconciled Exchange Commands
begin

text \<open>
  Omoplata, a version-control system: documents and patches with a commutation checker, a merge
  kernel that admits only what it derives itself, changes with a stable identity, a
  content-addressed store, a log of operations that can be undone, landing queues with gates, and
  bridges to git and to other repositories. The crates are under \<open>src/crates/omoplata-*\<close>.

  \<^bold>\<open>The parts and how they interact.\<close> Text is cut into lines (\<open>algebra/doc.rs\<close>); \<open>diff\<close> gives a patch
  (\<open>patch.rs\<close>), two patches of one base are judged by \<open>commute\<close> (\<open>commute.rs\<close>) or merged with
  conflicts as values (\<open>merge.rs\<close>). The kernel (\<open>kernel.rs\<close>) admits a merge with the two diffs as a
  witness; a validator may demote it (\<open>validation.rs\<close>); \<open>rebase.rs\<close> replays edits over documents that
  carry conflicts. The drivers (\<open>drivers/\<close>) propose merges of files: by lines, through mergiraf, or by
  the items of a Rust file. Changes and their revisions form the change graph (\<open>identity/\<close>). Trees and
  blobs lie in the store (\<open>store/\<close>); the log (\<open>work/oplog.rs\<close>) maps names to commits over time, and its
  file is changed under a lock. Workspaces are snapshotted and checked out (\<open>work/workspace.rs\<close>), the
  engine (\<open>work/autorebase.rs\<close>) rebases through store, log and graph, queues (\<open>work/queue.rs\<close>) land
  submissions. The command line (\<open>cli/main.rs\<close>, \<open>cli/sync.rs\<close>) composes these: it lands,
  reconciles, backports, fetches, pushes and serves. The crate \<open>git/\<close> reads, verifies, imports,
  exports and fetches git repositories.

  \<^bold>\<open>Conventions.\<close> A struct is a record, an enum a datatype, with the source's names where they are free;
  a byte or a character string is a char list of bytes, with UTF-8 validity where the source checks
  it. A \<open>Result\<close> is a sum with the error on the left. Where a computation can panic or need not end,
  an option is put around its result, \<open>None\<close> for the panic or the missing end. Mutable state is
  passed and returned, on errors too. A \<open>BTreeMap\<close> is an association list in key order or a function
  into options where its order is never seen. Integers are naturals, with the bounds of \<open>usize\<close>,
  \<open>u64\<close> and \<open>u16\<close> written out where the source parses, shifts or adds at a width. The text of an
  error is kept where it is tested or shown to a user and shortened elsewhere.
\<close>

text \<open>
  \<^bold>\<open>The theories.\<close>

  \<^item> \<open>Prelude\<close>: generic lemmas on lists, options and maps; \<open>Codec\<close>: decimal and hexadecimal numbers,
    UTF-8, lines and words as the standard library has them.
  \<^item> \<open>Patch\<close> (\<open>doc.rs\<close>, \<open>patch.rs\<close>), \<open>Commute\<close>, \<open>Merge3\<close> (\<open>merge.rs\<close>), \<open>Kernel\<close> (\<open>kernel.rs\<close>,
    \<open>validation.rs\<close>), \<open>Rebase\<close>: applying a diff gives its target, independent patches commute, a merge
    is the emission of one decomposition, an admitted merge is what both orders give, conflicts ride
    through a rebase.
  \<^item> \<open>ChangeGraph\<close> (\<open>change.rs\<close>), \<open>DefMatch\<close> (\<open>definition.rs\<close>), \<open>Review\<close> (\<open>submission.rs\<close>, \<open>stack.rs\<close>):
    acyclic supersession and the tip of a change, the tiers of the matcher, approvals and stacks.
  \<^item> \<open>ObjectStore\<close> (\<open>object.rs\<close>, \<open>lib.rs\<close> of the store), \<open>Workspace\<close> (\<open>workspace.rs\<close>, \<open>copy_closure\<close> of
    \<open>remote.rs\<close>): the serialization and its parser, snapshots, checkouts and copies as round trips.
  \<^item> \<open>WorkError\<close>, \<open>OpLog\<close>, \<open>Registry\<close> (the files of the registries, queues, workspaces, remotes), \<open>Locking\<close>
    (\<open>lock.rs\<close>): activity under undos, the fold of the log, the registries as finite maps, and the
    concurrent writers of a file as a step relation with crashes.
  \<^item> \<open>Queue\<close>, \<open>Autorebase\<close>, \<open>Revset\<close>: gates and batches, the moves of the engine in both histories, the
    parser of the query language against its grammar and the meaning of a query.
  \<^item> \<open>Drivers\<close> (\<open>lib.rs\<close>, \<open>line.rs\<close>, \<open>mergiraf.rs\<close>), \<open>ConflictValues\<close> and \<open>RustMerge\<close> (\<open>rust.rs\<close>): conflict
    values in a text and the query for them, the structural merge of items and what becomes of each item
    in its answer.
  \<^item> \<open>GitObject\<close> (\<open>object.rs\<close>, \<open>gate.rs\<close>), \<open>PackDelta\<close> and \<open>PackFile\<close> (\<open>pack.rs\<close>), \<open>GitDir\<close> (\<open>gitdir.rs\<close>,
    \<open>loose.rs\<close>, \<open>gate.rs\<close>), \<open>GitRefs\<close>, \<open>GitImport\<close>, \<open>GitLog\<close> (\<open>import.rs\<close>), \<open>FileTree\<close> and \<open>GitExport\<close>
    (\<open>export.rs\<close>), \<open>GitRoundTrip\<close>, \<open>GitWire\<close> (\<open>wire/pkt.rs\<close>, \<open>wire/fetch.rs\<close>): the gate accepts the
    encodings of objects, deltas and packs mean what an inductive reference says, an import records what the
    refs reach, an export reads back, a fetch over the wire clones.
  \<^item> \<open>Contents\<close>, \<open>Landing\<close>, \<open>Reconciled\<close>, \<open>Commands\<close> (\<open>cli/main.rs\<close>): the content of a queue and its gates, the
    commands land, reconcile and backport with the gates on the content they move, when an approval is
    carried to moved content, the merged trunk, and the commands on files and workspaces, among them
    what a switch keeps of a working copy and what it deletes.
  \<^item> \<open>Transport\<close> (\<open>cli/sync.rs\<close>), \<open>Remote\<close>, \<open>Replication\<close>, \<open>Exchange\<close> (\<open>cli/main.rs\<close>, \<open>cli/sync.rs\<close>): HTTP
    requests and responses, fetch, push and the server, the walk of a closure, and what the exchange
    of two repositories does to each.

  The interfaces are locales, interpreted on the model's own definitions in the theory of the
  component that provides them; the properties rest on the interpreted facts.
\<close>

text \<open>
  \<^bold>\<open>Loops.\<close> Structural loops are \<open>fun\<close>, the others \<open>function\<close> with a measure. The loops that follow ids
  or links through stored data need not end and are \<open>partial_function (option)\<close>: the count of active
  undos, the entries of a checkout, the copies of a closure, the imports of git objects, the log of
  commits and the walk of a closure over the network. That they return is proved where the data is
  well founded (\<open>undo_total\<close>, \<open>clone_restores_snapshot\<close>, \<open>import_returns\<close>, \<open>commit_log_topological\<close>,
  \<open>walk_loop_visits\<close>). The bounds on recursion are those of the source: \<open>MAX_CONTAINER_DEPTH\<close> of a structural
  merge, \<open>MAX_DELTA_DEPTH\<close> of a delta chain, eight steps of a symbolic ref; the model adds no fuel of
  its own.

  \<^bold>\<open>Parameters\<close>, with what is assumed of them: SHA-256 and SHA-1 (digests have their full length; no two
  of the finitely many objects in question collide), zlib (inflating what was deflated gives it back),
  tree-sitter (a parse is a tree over the text), serde's JSON (a value that was written is read back),
  the shell of the validators, the mergiraf binary, the process of \<open>upload-pack\<close>, sockets, the order in
  which a directory is listed, and the environment.

  \<^bold>\<open>Not modelled\<close>: the semantic index (\<open>omoplata-sem\<close>) ranks by floating-point vectors of external models
  and promises nothing of its results; \<open>Repository::init\<close> and \<open>open\<close> are calls of the file system; the
  parsing of arguments and what is printed beside the results; the commands that call one modelled
  operation and print what it returns (lists of refs, workspaces, queues, remotes, definitions and
  objects); the accept loop of the server with its threads, whose requests are modelled one at a time.
  The limits of the machine are left out: the failure of an allocation (a pack or a delta reserves the
  room that its header announces), the depth of the stack under deeply nested input of the parsers,
  and the overflow of a line number near \<open>usize\<close>. A working directory that does not exist is an empty
  listing here and an error of the file system in the code. A push to a path runs with the process of
  the other repository, so that the scratch directories have its number in their names and not the
  client's; a backport returns the certificates that the code prints and stores; the text of the exit
  status of \<open>upload-pack\<close> and write errors on its pipe are one error.
\<close>

end
